(* ===== verification/C_Prelude.thy ===== *)
theory C_Prelude
  imports Main "HOL-Library.Word" "HOL-Library.Monad_Syntax"
begin

text \<open>
  The C abstract machine shared by every component of the development: byte-addressed
  partial memory, the target's byte order and word size, unsigned and signed integer
  conversions, and the calculus in which the component proofs are carried out.

  Memory is a partial map from addresses to bytes. An address outside the domain is not
  mapped: loading from it or storing to it is the value \<open>None\<close> ("the program
  faults"). A function of the model that returns \<open>Some\<close> has therefore made
  only accesses inside the mapped buffers, and a theorem of the form \<open>ok Q (f x)\<close>
  says at once that \<open>f\<close> terminates, that it makes no access outside its
  buffers, and that the result satisfies \<open>Q\<close>.

  Pointers are mathematical integers. Pointer arithmetic does not wrap in the model; where
  the source casts a pointer or a sum to an unsigned type and compares, the wrap-around is
  written out with \<open>mod\<close>.
\<close>

unbundle bit_operations_syntax

section \<open>Types\<close>

type_synonym byte = "8 word"
type_synonym u16 = "16 word"
type_synonym u32 = "32 word"
type_synonym u64 = "64 word"
type_synonym addr = int
type_synonym mem = "int \<rightharpoonup> byte"

text \<open>The target and its compiler: the byte order, whether \<open>size_t\<close> and pointers have 64
  bits, and whether bits are counted in software (\<open>LZ4_FORCE_SW_BITCOUNT\<close>, or a compiler
  without the builtins).\<close>

record arch =
  little_endian :: bool
  bits64 :: bool
  sw_bitcount :: bool

abbreviation (input) KB :: int where "KB \<equiv> 1024"

section \<open>Success with a postcondition\<close>

text \<open>
  \<open>ok Q x\<close> is total correctness of an option-valued computation. The rewrite
  rules push it through the monad, so a proof about a straight-line piece of code is a
  chain of rewrites, and a proof about a loop is one induction that ends in
  \<open>ok_mono\<close>.
\<close>

definition ok :: "('a \<Rightarrow> bool) \<Rightarrow> 'a option \<Rightarrow> bool" where
  "ok Q x \<longleftrightarrow> (case x of None \<Rightarrow> False | Some r \<Rightarrow> Q r)"

named_theorems ok_simps
named_theorems mem_simps

lemma ok_Some [simp, ok_simps]: "ok Q (Some r) = Q r"
  by (simp add: ok_def)

lemma ok_None [simp, ok_simps]: "ok Q None = False"
  by (simp add: ok_def)

lemma ok_bind [simp, ok_simps]: "ok Q (Option.bind x f) = ok (\<lambda>r. ok Q (f r)) x"
  by (cases x) (simp_all add: ok_def)

lemma ok_if [ok_simps]: "ok Q (if b then x else y) = (if b then ok Q x else ok Q y)"
  by simp

lemma ok_mono: "ok P x \<Longrightarrow> (\<And>r. P r \<Longrightarrow> Q r) \<Longrightarrow> ok Q x"
  by (cases x) (simp_all add: ok_def)

lemma ok_bindI: "ok P x \<Longrightarrow> (\<And>r. P r \<Longrightarrow> ok Q (f r)) \<Longrightarrow> ok Q (Option.bind x f)"
  by (cases x) (simp_all add: ok_def)

lemma ok_conjI: "ok P x \<Longrightarrow> ok Q x \<Longrightarrow> ok (\<lambda>r. P r \<and> Q r) x"
  by (cases x) (simp_all add: ok_def)

lemma ok_iff: "ok Q x \<longleftrightarrow> (\<exists>r. x = Some r \<and> Q r)"
  by (cases x) (simp_all add: ok_def)

lemma okD: "ok Q x \<Longrightarrow> \<exists>r. x = Some r \<and> Q r"
  by (simp add: ok_iff)

lemma okE: "ok Q x \<Longrightarrow> (\<And>r. x = Some r \<Longrightarrow> Q r \<Longrightarrow> R) \<Longrightarrow> R"
  by (auto simp: ok_iff)

section \<open>Memory accesses\<close>

definition store8 :: "mem \<Rightarrow> addr \<Rightarrow> byte \<Rightarrow> mem option" where
  "store8 m p b = (case m p of None \<Rightarrow> None | Some _ \<Rightarrow> Some (m(p \<mapsto> b)))"

fun load_bytes :: "mem \<Rightarrow> addr \<Rightarrow> nat \<Rightarrow> byte list option" where
  "load_bytes m p 0 = Some []"
| "load_bytes m p (Suc n) =
     do { b \<leftarrow> m p; bs \<leftarrow> load_bytes m (p + 1) n; Some (b # bs) }"

fun store_bytes :: "mem \<Rightarrow> addr \<Rightarrow> byte list \<Rightarrow> mem option" where
  "store_bytes m p [] = Some m"
| "store_bytes m p (b # bs) = do { m' \<leftarrow> store8 m p b; store_bytes m' (p + 1) bs }"

text \<open>\<open>memcpy\<close> and \<open>memmove\<close>: the source range is read before the destination is
  written.\<close>

definition memcpy :: "mem \<Rightarrow> addr \<Rightarrow> addr \<Rightarrow> nat \<Rightarrow> mem option" where
  "memcpy m d s n = do { bs \<leftarrow> load_bytes m s n; store_bytes m d bs }"

text \<open>Buffers: a mapped range, its contents, and what an operation leaves unchanged.\<close>

definition mapped :: "mem \<Rightarrow> addr \<Rightarrow> addr \<Rightarrow> bool" where
  "mapped m lo hi \<longleftrightarrow> (\<forall>x. lo \<le> x \<longrightarrow> x < hi \<longrightarrow> m x \<noteq> None)"

definition bytes_at :: "mem \<Rightarrow> addr \<Rightarrow> byte list \<Rightarrow> bool" where
  "bytes_at m p bs \<longleftrightarrow> (\<forall>i < length bs. m (p + int i) = Some (bs ! i))"

definition frame :: "mem \<Rightarrow> mem \<Rightarrow> addr \<Rightarrow> addr \<Rightarrow> bool" where
  "frame m m' lo hi \<longleftrightarrow> dom m' = dom m \<and> (\<forall>x. x < lo \<or> hi \<le> x \<longrightarrow> m' x = m x)"

text \<open>The memory that holds the given bytes at an address and nothing else; used to build
  concrete memories.\<close>

definition buffer :: "addr \<Rightarrow> byte list \<Rightarrow> mem" where
  "buffer p bs = (\<lambda>x. if p \<le> x \<and> x < p + int (length bs) then Some (bs ! nat (x - p)) else None)"

lemma mappedI: "(\<And>x. lo \<le> x \<Longrightarrow> x < hi \<Longrightarrow> m x \<noteq> None) \<Longrightarrow> mapped m lo hi"
  by (simp add: mapped_def)

lemma mappedD: "mapped m lo hi \<Longrightarrow> lo \<le> x \<Longrightarrow> x < hi \<Longrightarrow> \<exists>b. m x = Some b"
  by (auto simp: mapped_def)

lemma mapped_mono: "mapped m lo hi \<Longrightarrow> lo \<le> lo' \<Longrightarrow> hi' \<le> hi \<Longrightarrow> mapped m lo' hi'"
  by (auto simp: mapped_def)

lemma mapped_dom: "mapped m lo hi \<longleftrightarrow> {lo..<hi} \<subseteq> dom m"
  by (auto simp: mapped_def)

lemma mapped_cong: "dom m' = dom m \<Longrightarrow> mapped m' lo hi = mapped m lo hi"
  by (simp add: mapped_dom)

lemma frame_refl [simp]: "frame m m lo hi"
  by (simp add: frame_def)

lemma frame_trans: "frame m m' lo hi \<Longrightarrow> frame m' m'' lo hi \<Longrightarrow> frame m m'' lo hi"
  by (simp add: frame_def)

lemma frame_mono: "frame m m' lo hi \<Longrightarrow> lo' \<le> lo \<Longrightarrow> hi \<le> hi' \<Longrightarrow> frame m m' lo' hi'"
  by (auto simp: frame_def)

lemma frame_dom: "frame m m' lo hi \<Longrightarrow> dom m' = dom m"
  by (simp add: frame_def)

lemma frame_mapped: "frame m m' lo hi \<Longrightarrow> mapped m' a b = mapped m a b"
  by (rule mapped_cong) (rule frame_dom)

lemma frame_eq: "frame m m' lo hi \<Longrightarrow> x < lo \<or> hi \<le> x \<Longrightarrow> m' x = m x"
  unfolding frame_def by blast

lemma frame_bytes_at:
  assumes "frame m m' lo hi" and "p + int (length bs) \<le> lo \<or> hi \<le> p"
  shows "bytes_at m' p bs = bytes_at m p bs"
  using assms by (auto simp: bytes_at_def frame_def)

lemma bytes_at_Nil [simp]: "bytes_at m p []"
  by (simp add: bytes_at_def)

lemma bytes_at_Cons: "bytes_at m p (b # bs) \<longleftrightarrow> m p = Some b \<and> bytes_at m (p + 1) bs"
proof -
  have "(\<forall>i < Suc (length bs). m (p + int i) = Some ((b # bs) ! i)) \<longleftrightarrow>
        m p = Some b \<and> (\<forall>i < length bs. m (p + int (Suc i)) = Some (bs ! i))"
    by (auto simp: less_Suc_eq_0_disj)
  then show ?thesis by (simp add: bytes_at_def add.assoc add.commute add.left_commute)
qed

lemma bytes_at_append:
  "bytes_at m p (xs @ ys) \<longleftrightarrow> bytes_at m p xs \<and> bytes_at m (p + int (length xs)) ys"
  by (induction xs arbitrary: p) (auto simp: bytes_at_Cons algebra_simps)

lemma bytes_at_mapped: "bytes_at m p bs \<Longrightarrow> mapped m p (p + int (length bs))"
proof (rule mappedI)
  fix x assume "bytes_at m p bs" "p \<le> x" "x < p + int (length bs)"
  then have "m (p + int (nat (x - p))) = Some (bs ! nat (x - p))"
    unfolding bytes_at_def by (metis add_diff_cancel_left' nat_less_iff diff_ge_0_iff_ge diff_less_eq add.commute)
  with \<open>p \<le> x\<close> show "m x \<noteq> None" by simp
qed

lemma bytes_at_nth: "bytes_at m p bs \<Longrightarrow> i < length bs \<Longrightarrow> m (p + int i) = Some (bs ! i)"
  by (simp add: bytes_at_def)

lemma bytes_at_int:
  "bytes_at m p bs \<Longrightarrow> p \<le> x \<Longrightarrow> x < p + int (length bs) \<Longrightarrow> m x = Some (bs ! nat (x - p))"
  using bytes_at_nth [of m p bs "nat (x - p)"] by (simp add: nat_less_iff)

lemma bytes_at_sub:
  "bytes_at m p bs \<Longrightarrow> i + n \<le> length bs \<Longrightarrow> bytes_at m (p + int i) (take n (drop i bs))"
  by (auto simp: bytes_at_def add.assoc simp flip: of_nat_add)

lemma bytes_at_split:
  assumes "bytes_at m p bs" and "k \<le> length bs"
  shows "bytes_at m p (take k bs)" and "bytes_at m (p + int k) (drop k bs)"
  using bytes_at_append [of m p "take k bs" "drop k bs"] assms by (simp_all add: min.absorb2)

lemma bytes_at_unique:
  "bytes_at m p xs \<Longrightarrow> bytes_at m p ys \<Longrightarrow> length xs = length ys \<Longrightarrow> xs = ys"
  by (simp add: bytes_at_def list_eq_iff_nth_eq)

lemma load_bytes_eq: "bytes_at m p bs \<Longrightarrow> load_bytes m p (length bs) = Some bs"
  by (induction bs arbitrary: p) (simp_all add: bytes_at_Cons)

lemma load_bytes_Some:
  "load_bytes m p n = Some bs \<longleftrightarrow> length bs = n \<and> bytes_at m p bs"
proof (induction n arbitrary: p bs)
  case (Suc n)
  show ?case
    by (cases bs) (auto simp: bind_eq_Some_conv Suc.IH bytes_at_Cons)
qed auto

lemma load_bytes_ok: "mapped m p (p + int n) \<Longrightarrow> ok (\<lambda>bs. length bs = n \<and> bytes_at m p bs) (load_bytes m p n)"
proof (induction n arbitrary: p)
  case (Suc n)
  from Suc.prems obtain b where b: "m p = Some b" by (auto simp: mapped_def)
  from Suc.prems have "mapped m (p + 1) (p + 1 + int n)" by (rule mapped_mono) auto
  from Suc.IH [OF this] show ?case
    by (rule okE) (auto simp: b bytes_at_Cons)
qed simp

lemma store8_ok:
  assumes "m p \<noteq> None"
  shows "store8 m p b = Some (m(p \<mapsto> b))"
  using assms by (auto simp: store8_def)

lemma store_bytes_ok:
  "mapped m p (p + int (length bs)) \<Longrightarrow>
   ok (\<lambda>m'. frame m m' p (p + int (length bs)) \<and> bytes_at m' p bs) (store_bytes m p bs)"
proof (induction bs arbitrary: m p)
  case (Cons b bs)
  let ?m = "m(p \<mapsto> b)"
  from Cons.prems have p: "m p \<noteq> None" by (simp add: mapped_def)
  then have f: "frame m ?m p (p + 1)" by (auto simp: frame_def)
  then have dom: "dom ?m = dom m" by (rule frame_dom)
  from Cons.prems have "mapped m (p + 1) (p + 1 + int (length bs))" by (rule mapped_mono) auto
  then have "mapped ?m (p + 1) (p + 1 + int (length bs))" by (simp add: mapped_cong [OF dom])
  from Cons.IH [OF this]
  have "ok (\<lambda>m'. frame m m' p (p + int (length (b # bs))) \<and> bytes_at m' p (b # bs))
          (store_bytes ?m (p + 1) bs)"
  proof (rule ok_mono)
    fix m' assume m': "frame ?m m' (p + 1) (p + 1 + int (length bs)) \<and> bytes_at m' (p + 1) bs"
    then have "frame ?m m' p (p + int (length (b # bs)))" by (auto elim: frame_mono)
    moreover have "frame m ?m p (p + int (length (b # bs)))" by (rule frame_mono [OF f]) auto
    moreover have "m' p = Some b" using m' frame_eq [of ?m m' _ _ p] by auto
    ultimately show "frame m m' p (p + int (length (b # bs))) \<and> bytes_at m' p (b # bs)"
      using m' frame_trans by (auto simp: bytes_at_Cons)
  qed
  then show ?case by (simp add: store8_ok [of m p, OF p])
qed simp

lemma memcpy_ok:
  assumes "mapped m s (s + int n)" and "mapped m d (d + int n)"
  shows "ok (\<lambda>m'. frame m m' d (d + int n) \<and>
               (\<forall>x. d \<le> x \<and> x < d + int n \<longrightarrow> m' x = m (x - d + s))) (memcpy m d s n)"
proof -
  from load_bytes_ok [OF assms(1)] obtain bs
    where bs: "load_bytes m s n = Some bs" "length bs = n" "bytes_at m s bs"
    by (rule okE) auto
  from assms(2) bs(2) have "mapped m d (d + int (length bs))" by simp
  from store_bytes_ok [OF this]
  have "ok (\<lambda>m'. frame m m' d (d + int n) \<and>
               (\<forall>x. d \<le> x \<and> x < d + int n \<longrightarrow> m' x = m (x - d + s))) (store_bytes m d bs)"
    by (rule ok_mono) (use bs in \<open>auto simp: bytes_at_int\<close>)
  then show ?thesis by (simp add: memcpy_def bs(1))
qed

section \<open>Integer conversions\<close>

text \<open>\<open>(unsigned)x\<close>, \<open>(int)x\<close> and arithmetic modulo the width of \<open>size_t\<close>.\<close>

definition uns32 :: "int \<Rightarrow> int" where
  "uns32 x = x mod 2 ^ 32"

definition int32 :: "int \<Rightarrow> int" where
  "int32 x = (x + 2 ^ 31) mod 2 ^ 32 - 2 ^ 31"

definition size_mod :: "arch \<Rightarrow> int" where
  "size_mod a = (if bits64 a then 2 ^ 64 else 2 ^ 32)"

lemma uns32_id [simp]: "0 \<le> x \<Longrightarrow> x < 4294967296 \<Longrightarrow> uns32 x = x"
  by (simp add: uns32_def)

lemma uns32_bounds: "0 \<le> uns32 x" "uns32 x < 4294967296"
  by (simp_all add: uns32_def)

lemma int32_id [simp]: "- 2147483648 \<le> x \<Longrightarrow> x < 2147483648 \<Longrightarrow> int32 x = x"
  by (simp add: int32_def)

lemma size_mod_pos [simp]: "0 < size_mod a"
  by (simp add: size_mod_def)

lemma size_mod_ge: "4294967296 \<le> size_mod a"
  by (simp add: size_mod_def)

section \<open>Words from bytes\<close>

text \<open>The value of a byte sequence, least significant byte first.\<close>

fun le_val :: "byte list \<Rightarrow> int" where
  "le_val [] = 0"
| "le_val (b # bs) = uint b + 256 * le_val bs"

text \<open>A native load: the bytes are taken in the target's order.\<close>

definition native_val :: "arch \<Rightarrow> byte list \<Rightarrow> int" where
  "native_val a bs = le_val (if little_endian a then bs else rev bs)"

lemma uint_byte: "0 \<le> uint (b :: byte)" "uint (b :: byte) < 256"
  using unsigned_less [of b] by simp_all

lemma byte_bit_ge: "8 \<le> n \<Longrightarrow> bit (b :: byte) n = False"
  using bit_imp_le_length [of b n] by auto

lemma le_val_Cons_word:
  assumes "8 \<le> LENGTH('a::len)"
  shows "(word_of_int (le_val (b # bs)) :: 'a word) = ucast b OR push_bit 8 (word_of_int (le_val bs))"
proof -
  have "(word_of_int (le_val (b # bs)) :: 'a word) = ucast b + push_bit 8 (word_of_int (le_val bs))"
    by (simp add: push_bit_eq_mult)
  also have "\<dots> = ucast b OR push_bit 8 (word_of_int (le_val bs))"
    by (rule disjunctive_add) (auto simp: bit_simps byte_bit_ge)
  finally show ?thesis .
qed

lemma le_val_bound: "0 \<le> le_val bs \<and> le_val bs < 256 ^ length bs"
proof (induction bs)
  case (Cons b bs)
  with uint_byte [of b] show ?case by simp
qed simp

lemma le_val_inject: "length xs = length ys \<Longrightarrow> le_val xs = le_val ys \<longleftrightarrow> xs = ys"
proof (induction xs ys rule: list_induct2)
  case (Cons x xs y ys)
  have "uint x = uint y \<and> le_val xs = le_val ys"
    if "uint x + 256 * le_val xs = uint y + 256 * le_val ys"
  proof -
    have "(uint x + 256 * le_val xs) mod 256 = uint x" "(uint y + 256 * le_val ys) mod 256 = uint y"
      using uint_byte [of x] uint_byte [of y] by simp_all
    with that show ?thesis by simp
  qed
  with Cons.IH show ?case by (auto simp: word_uint_eq_iff)
qed simp

lemma native_val_inject: "length xs = length ys \<Longrightarrow> native_val a xs = native_val a ys \<longleftrightarrow> xs = ys"
  by (simp add: native_val_def le_val_inject)

lemma native_val_bound: "0 \<le> native_val a bs \<and> native_val a bs < 256 ^ length bs"
  using le_val_bound [of bs] le_val_bound [of "rev bs"] by (simp add: native_val_def)

section \<open>Block-wise folds over byte lists\<close>

text \<open>\<open>stripes k f v bs\<close> folds \<open>f\<close> over the consecutive full blocks of \<open>k\<close>
  bytes of \<open>bs\<close>; \<open>rest k bs\<close> is what is left.\<close>

function stripes :: "nat \<Rightarrow> ('v \<Rightarrow> byte list \<Rightarrow> 'v) \<Rightarrow> 'v \<Rightarrow> byte list \<Rightarrow> 'v" where
  "stripes k f v bs =
     (if 0 < k \<and> k \<le> length bs then stripes k f (f v (take k bs)) (drop k bs) else v)"
  by pat_completeness auto
termination
  by (relation "measure (\<lambda>(k, f, v, bs). length bs)") auto

declare stripes.simps [simp del]

definition rest :: "nat \<Rightarrow> byte list \<Rightarrow> byte list" where
  "rest k bs = drop (k * (length bs div k)) bs"

lemma stripes_short: "length bs < k \<Longrightarrow> stripes k f v bs = v"
  by (subst stripes.simps) auto

lemma stripes_step:
  "0 < k \<Longrightarrow> k \<le> length bs \<Longrightarrow> stripes k f v bs = stripes k f (f v (take k bs)) (drop k bs)"
  by (subst stripes.simps) auto

lemma rest_short [simp]: "length bs < k \<Longrightarrow> rest k bs = bs"
  by (simp add: rest_def)

lemma rest_step:
  assumes "0 < k" and "k \<le> length bs"
  shows "rest k bs = rest k (drop k bs)"
proof -
  have "length bs div k = Suc ((length bs - k) div k)"
    using assms by (simp add: le_div_geq)
  then show ?thesis by (simp add: rest_def add.commute)
qed

lemma length_rest [simp]: "length (rest k bs) = length bs mod k"
  by (simp add: rest_def minus_mult_div_eq_mod)

lemma stripes_append:
  assumes "k dvd length xs"
  shows "stripes k f v (xs @ ys) = stripes k f (stripes k f v xs) ys"
  using assms
proof (induction k f v xs rule: stripes.induct)
  case (1 k f v xs)
  show ?case
  proof (cases "0 < k \<and> k \<le> length xs")
    case True
    with 1 show ?thesis
      by (simp add: stripes_step [of k xs] stripes_step [of k "xs @ ys"] dvd_diff_nat)
  next
    case False
    with 1 have "xs = [] \<or> k = 0" by (auto dest: dvd_imp_le)
    with 1 show ?thesis by (auto simp: stripes.simps [of 0] stripes.simps [of k f v "[]"])
  qed
qed

lemma rest_append:
  assumes "k dvd length xs"
  shows "rest k (xs @ ys) = rest k ys"
  using assms by (cases "k = 0") (auto simp: rest_def distrib_left elim!: dvdE)

lemma full_rest:
  obtains xs where "k dvd length xs" and "bs = xs @ rest k bs" and "stripes k f v xs = stripes k f v bs"
proof -
  let ?xs = "take (k * (length bs div k)) bs"
  have "bs = ?xs @ rest k bs" by (simp add: rest_def)
  moreover have d: "k dvd length ?xs"
    by (simp add: min.absorb2 mult.commute [of k])
  moreover have "stripes k f v (?xs @ rest k bs) = stripes k f (stripes k f v ?xs) (rest k bs)"
    by (rule stripes_append [OF d])
  moreover have "stripes k f w (rest k bs) = w" for w
    by (cases "k = 0") (auto simp: stripes.simps [of 0] stripes_short)
  ultimately show ?thesis using that by metis
qed

text \<open>Absorbing more input: only the unabsorbed rest and the new bytes matter.\<close>

lemma stripes_rest: "stripes k f v (xs @ ys) = stripes k f (stripes k f v xs) (rest k xs @ ys)"
proof -
  obtain zs where zs: "k dvd length zs" "xs = zs @ rest k xs" "stripes k f v zs = stripes k f v xs"
    by (rule full_rest)
  have "stripes k f v (xs @ ys) = stripes k f v (zs @ rest k xs @ ys)"
    using zs(2) by (metis append_assoc)
  also have "\<dots> = stripes k f (stripes k f v zs) (rest k xs @ ys)"
    by (rule stripes_append [OF zs(1)])
  finally show ?thesis by (simp add: zs(3))
qed

lemma rest_rest: "rest k (xs @ ys) = rest k (rest k xs @ ys)"
proof -
  obtain zs where zs: "k dvd length zs" "xs = zs @ rest k xs"
    by (rule full_rest)
  then have "rest k (xs @ ys) = rest k (zs @ rest k xs @ ys)" by (metis append_assoc)
  also have "\<dots> = rest k (rest k xs @ ys)" by (rule rest_append [OF zs(1)])
  finally show ?thesis .
qed

lemma bytes_at_rest:
  assumes "bytes_at m p bs"
  shows "bytes_at m (p + int (length bs - length (rest k bs))) (rest k bs)"
proof -
  obtain xs where "bs = xs @ rest k bs" by (rule full_rest)
  then have "bytes_at m p (xs @ rest k bs)" "length bs - length (rest k bs) = length xs"
    using assms by (metis, metis add_diff_cancel_right' length_append)
  then show ?thesis by (simp add: bytes_at_append del: length_rest)
qed

lemma rest_end: "int (length bs - length (rest k bs)) + int (length (rest k bs)) = int (length bs)"
  by (simp add: of_nat_diff)

lemma stripes_fill:
  assumes "buf \<noteq> []" and "length buf < k" and "k \<le> length buf + length ys"
  shows "stripes k f v (buf @ ys) =
           stripes k f (f v (buf @ take (k - length buf) ys)) (drop (k - length buf) ys)"
    and "rest k (buf @ ys) = rest k (drop (k - length buf) ys)"
  using assms by (simp_all add: stripes_step [of k "buf @ ys"] rest_step [of k "buf @ ys"])

section \<open>Byte arrays inside a struct\<close>

text \<open>Overwriting part of a fixed-size array member; writing past its end is a fault.\<close>

definition splice :: "byte list \<Rightarrow> nat \<Rightarrow> byte list \<Rightarrow> byte list option" where
  "splice xs i ys =
     (if i + length ys \<le> length xs then Some (take i xs @ ys @ drop (i + length ys) xs) else None)"

lemma bytes_at_buffer: "bytes_at (buffer p bs) p bs"
  by (simp add: bytes_at_def buffer_def)

lemma mapped_buffer: "mapped (buffer p bs) p (p + int (length bs))"
  by (simp add: mapped_def buffer_def)

text \<open>Two buffers at disjoint addresses.\<close>

lemma bytes_at_two:
  assumes "p + int (length xs) \<le> q \<or> q + int (length ys) \<le> p"
  shows "bytes_at (buffer p xs ++ buffer q ys) p xs"
  using assms by (auto simp: bytes_at_def buffer_def map_add_def)

lemma bytes_at_two_right: "bytes_at (buffer p xs ++ buffer q ys) q ys"
  by (simp add: bytes_at_def buffer_def map_add_def)

lemma mapped_two: "mapped (buffer p xs ++ buffer q ys) q (q + int (length ys))"
  by (simp add: mapped_def buffer_def map_add_def)

lemma mapped_two_left: "mapped (buffer p xs ++ buffer q ys) p (p + int (length xs))"
  by (simp add: mapped_def buffer_def map_add_def split: option.splits)

end
