(* ===== verification/Lz4_Common.thy ===== *)
theory Lz4_Common
  imports C_Prelude
begin

text \<open>
  The part of \<^verbatim>\<open>src/src/lz4/lib/lz4.c\<close> that the fast and the high-compression
  compressors share (\<^verbatim>\<open>LZ4_COMMONDEFS_ONLY\<close>): memory access in the target's byte
  order, the 8-byte "wild" copy, the constants of the format, counting the common bytes of
  two words, and the match-length counter \<open>LZ4_count\<close>.
\<close>

section \<open>Reading and writing into memory\<close>

definition STEPSIZE :: "arch \<Rightarrow> int" where
  "STEPSIZE a = (if bits64 a then 8 else 4)"

definition LZ4_64bits :: "arch \<Rightarrow> bool" where
  "LZ4_64bits a = bits64 a"

definition LZ4_isLittleEndian :: "arch \<Rightarrow> bool" where
  "LZ4_isLittleEndian a = little_endian a"

definition LZ4_read16 :: "arch \<Rightarrow> mem \<Rightarrow> addr \<Rightarrow> u16 option" where
  "LZ4_read16 a m p = do { bs \<leftarrow> load_bytes m p 2; Some (word_of_int (native_val a bs)) }"

definition LZ4_readLE16 :: "arch \<Rightarrow> mem \<Rightarrow> addr \<Rightarrow> u16 option" where
  "LZ4_readLE16 a m p =
     (if LZ4_isLittleEndian a then LZ4_read16 a m p
      else do { p0 \<leftarrow> m p; p1 \<leftarrow> m (p + 1); Some (ucast p0 + push_bit 8 (ucast p1)) })"

definition LZ4_writeLE16 :: "arch \<Rightarrow> mem \<Rightarrow> addr \<Rightarrow> u16 \<Rightarrow> mem option" where
  "LZ4_writeLE16 a m p value =
     (if LZ4_isLittleEndian a then store_bytes m p [ucast value, ucast (drop_bit 8 value)]
      else do { m \<leftarrow> store8 m p (ucast value); store8 m (p + 1) (ucast (drop_bit 8 value)) })"

definition LZ4_read32 :: "arch \<Rightarrow> mem \<Rightarrow> addr \<Rightarrow> u32 option" where
  "LZ4_read32 a m p = do { bs \<leftarrow> load_bytes m p 4; Some (word_of_int (native_val a bs)) }"

definition LZ4_read64 :: "arch \<Rightarrow> mem \<Rightarrow> addr \<Rightarrow> u64 option" where
  "LZ4_read64 a m p = do { bs \<leftarrow> load_bytes m p 8; Some (word_of_int (native_val a bs)) }"

text \<open>A \<open>size_t\<close> value; on a 32-bit target its upper half is zero.\<close>

definition LZ4_read_ARCH :: "arch \<Rightarrow> mem \<Rightarrow> addr \<Rightarrow> u64 option" where
  "LZ4_read_ARCH a m p =
     (if LZ4_64bits a then LZ4_read64 a m p
      else do { v \<leftarrow> LZ4_read32 a m p; Some (ucast v) })"

definition LZ4_copy4 :: "mem \<Rightarrow> addr \<Rightarrow> addr \<Rightarrow> mem option" where
  "LZ4_copy4 m dst src = memcpy m dst src 4"

definition LZ4_copy8 :: "mem \<Rightarrow> addr \<Rightarrow> addr \<Rightarrow> mem option" where
  "LZ4_copy8 m dst src = memcpy m dst src 8"

text \<open>\<open>do { LZ4_copy8(d,s); d+=8; s+=8; } while (d<e)\<close>.\<close>

function LZ4_wildCopy :: "mem \<Rightarrow> addr \<Rightarrow> addr \<Rightarrow> addr \<Rightarrow> mem option" where
  "LZ4_wildCopy m d s e =
     do { m \<leftarrow> LZ4_copy8 m d s;
          if d + 8 < e then LZ4_wildCopy m (d + 8) (s + 8) e else Some m }"
  by pat_completeness auto
termination
  by (relation "measure (\<lambda>(m, d, s, e). nat (e - d))") auto

declare LZ4_wildCopy.simps [simp del]

section \<open>Common constants\<close>

abbreviation (input) MINMATCH :: int where "MINMATCH \<equiv> 4"
abbreviation (input) COPYLENGTH :: int where "COPYLENGTH \<equiv> 8"
abbreviation (input) LASTLITERALS :: int where "LASTLITERALS \<equiv> 5"
abbreviation (input) MFLIMIT :: int where "MFLIMIT \<equiv> 12"
abbreviation (input) LZ4_minLength :: int where "LZ4_minLength \<equiv> 13"
abbreviation (input) MAX_DISTANCE :: int where "MAX_DISTANCE \<equiv> 65535"
abbreviation (input) ML_MASK :: int where "ML_MASK \<equiv> 15"
abbreviation (input) RUN_MASK :: int where "RUN_MASK \<equiv> 15"

section \<open>Counting common bytes\<close>

text \<open>The compiler builtins: trailing and leading zero bits.\<close>

definition ctz :: "'a::len word \<Rightarrow> nat" where
  "ctz w = length (takeWhile (\<lambda>i. \<not> bit w i) [0..<LENGTH('a)])"

definition clz :: "'a::len word \<Rightarrow> nat" where
  "clz w = length (takeWhile (\<lambda>i. \<not> bit w i) (rev [0..<LENGTH('a)]))"

definition DeBruijnBytePos64 :: "nat list" where
  "DeBruijnBytePos64 =
     [0, 0, 0, 0, 0, 1, 1, 2, 0, 3, 1, 3, 1, 4, 2, 7, 0, 2, 3, 6, 1, 5, 3, 5, 1, 3, 4, 4, 2, 5, 6, 7,
      7, 0, 1, 2, 3, 3, 4, 6, 2, 6, 5, 5, 3, 4, 5, 6, 7, 1, 2, 4, 6, 4, 4, 5, 7, 2, 6, 5, 7, 6, 7, 7]"

definition DeBruijnBytePos32 :: "nat list" where
  "DeBruijnBytePos32 =
     [0, 0, 3, 0, 3, 1, 3, 0, 3, 2, 2, 1, 3, 2, 0, 1, 3, 3, 1, 2, 2, 2, 2, 0, 3, 1, 2, 0, 1, 0, 1, 1]"

definition LZ4_NbCommonBytes :: "arch \<Rightarrow> u64 \<Rightarrow> int" where
  "LZ4_NbCommonBytes a val =
     (if LZ4_isLittleEndian a
      then
        (if LZ4_64bits a
         then (if \<not> sw_bitcount a then int (ctz val div 8)
               else int (DeBruijnBytePos64 ! unat (drop_bit 58 ((val AND (- val)) * 0x0218A392CDABBD3F))))
         else (let val = (ucast val :: u32) in
               if \<not> sw_bitcount a then int (ctz val div 8)
               else int (DeBruijnBytePos32 ! unat (drop_bit 27 ((val AND (- val)) * 0x077CB531)))))
      else
        (if LZ4_64bits a
         then (if \<not> sw_bitcount a then int (clz val div 8)
               else (let (r, val) = (if drop_bit 32 val = 0 then (4, val) else (0, drop_bit 32 val));
                         (r, val) = (if drop_bit 16 val = 0 then (r + 2, drop_bit 8 val) else (r, drop_bit 24 val))
                     in r + (if val = 0 then 1 else 0)))
         else (let val = (ucast val :: u32) in
               if \<not> sw_bitcount a then int (clz val div 8)
               else (let (r, val) = (if drop_bit 16 val = 0 then (2, drop_bit 8 val) else (0, drop_bit 24 val))
                     in r + (if val = 0 then 1 else 0)))))"

text \<open>The word-wise loop of \<open>LZ4_count\<close>: \<open>Inl\<close> where it returns, \<open>Inr\<close> the two
  positions where it leaves the loop.\<close>

function LZ4_count_loop ::
  "arch \<Rightarrow> mem \<Rightarrow> addr \<Rightarrow> addr \<Rightarrow> addr \<Rightarrow> (addr + addr \<times> addr) option" where
  "LZ4_count_loop a m pIn pMatch pInLimit =
     (if pIn < pInLimit - (STEPSIZE a - 1)
      then do { x \<leftarrow> LZ4_read_ARCH a m pMatch;
                y \<leftarrow> LZ4_read_ARCH a m pIn;
                if x XOR y = 0
                then LZ4_count_loop a m (pIn + STEPSIZE a) (pMatch + STEPSIZE a) pInLimit
                else Some (Inl (pIn + LZ4_NbCommonBytes a (x XOR y))) }
      else Some (Inr (pIn, pMatch)))"
  by pat_completeness auto
termination
  by (relation "measure (\<lambda>(a, m, pIn, pMatch, pInLimit). nat (pInLimit - pIn))")
     (auto simp: STEPSIZE_def split: if_splits)

declare LZ4_count_loop.simps [simp del]

definition LZ4_count :: "arch \<Rightarrow> mem \<Rightarrow> addr \<Rightarrow> addr \<Rightarrow> addr \<Rightarrow> int option" where
  "LZ4_count a m pIn0 pMatch0 pInLimit =
     do { r \<leftarrow> LZ4_count_loop a m pIn0 pMatch0 pInLimit;
          case r of
            Inl pIn \<Rightarrow> Some (uns32 (pIn - pIn0))
          | Inr (pIn, pMatch) \<Rightarrow>
              do { (pIn, pMatch) \<leftarrow>
                     (if LZ4_64bits a \<and> pIn < pInLimit - 3
                      then do { x \<leftarrow> LZ4_read32 a m pMatch; y \<leftarrow> LZ4_read32 a m pIn;
                                Some (if x = y then (pIn + 4, pMatch + 4) else (pIn, pMatch)) }
                      else Some (pIn, pMatch));
                   (pIn, pMatch) \<leftarrow>
                     (if pIn < pInLimit - 1
                      then do { x \<leftarrow> LZ4_read16 a m pMatch; y \<leftarrow> LZ4_read16 a m pIn;
                                Some (if x = y then (pIn + 2, pMatch + 2) else (pIn, pMatch)) }
                      else Some (pIn, pMatch));
                   pIn \<leftarrow>
                     (if pIn < pInLimit
                      then do { x \<leftarrow> m pMatch; y \<leftarrow> m pIn; Some (if x = y then pIn + 1 else pIn) }
                      else Some pIn);
                   Some (uns32 (pIn - pIn0)) } }"

section \<open>Copying and little-endian fields\<close>

text \<open>\<open>copied m' D lo hi\<close>: every byte of the range equals the byte \<open>D\<close> below it.\<close>

definition copied :: "mem \<Rightarrow> int \<Rightarrow> addr \<Rightarrow> addr \<Rightarrow> bool" where
  "copied m D lo hi \<longleftrightarrow> (\<forall>x. lo \<le> x \<longrightarrow> x < hi \<longrightarrow> m x = m (x - D))"

lemma LZ4_wildCopy_ok:
  assumes "mapped m s (s + max 8 (e - d + 7))" and "mapped m d (d + max 8 (e - d + 7))"
  shows "ok (\<lambda>m'. frame m m' d (d + max 8 (e - d + 7)) \<and>
              (d - s \<ge> 8 \<or> s - d \<ge> max 8 (e - d + 7) \<longrightarrow> copied m' (d - s) d (max (d + 8) e)))
         (LZ4_wildCopy m d s e)"
  using assms
proof (induction m d s e rule: LZ4_wildCopy.induct)
  case (1 m d s e)
  let ?n = "max 8 (e - d + 7)"
  have ms: "mapped m s (s + int 8)" and md: "mapped m d (d + int 8)"
    using "1.prems" by (auto elim: mapped_mono)
  obtain m1 where m1: "memcpy m d s 8 = Some m1" "frame m m1 d (d + 8)"
      "\<And>x. d \<le> x \<Longrightarrow> x < d + 8 \<Longrightarrow> m1 x = m (x - d + s)"
    using okD [OF memcpy_ok [OF ms md]] by auto
  have c1: "copied m1 (d - s) d (d + 8)" if "d - s \<ge> 8 \<or> s - d \<ge> 8"
    unfolding copied_def
  proof (intro allI impI)
    fix x assume x: "d \<le> x" "x < d + 8"
    have "m1 (x - (d - s)) = m (x - (d - s))" using that x by (intro frame_eq [OF m1(2)]) auto
    with m1(3) [OF x] show "m1 x = m1 (x - (d - s))" by (simp add: algebra_simps)
  qed
  show ?case
  proof (cases "d + 8 < e")
    case False
    then have "?n = 8 \<or> ?n \<le> 15" "max (d + 8) e = d + 8" by auto
    with c1 m1(2) False show ?thesis
      by (subst LZ4_wildCopy.simps) (auto simp: LZ4_copy8_def m1(1) elim: frame_mono)
  next
    case True
    let ?k = "max 8 (e - (d + 8) + 7)"
    have k: "8 + ?k \<le> ?n" using True by auto
    have "mapped m1 (s + 8) (s + 8 + ?k)" "mapped m1 (d + 8) (d + 8 + ?k)"
      using "1.prems" k by (auto simp: frame_mapped [OF m1(2)] elim: mapped_mono)
    from "1.IH" [of m1, OF _ True this] have IH: "ok (\<lambda>m'. frame m1 m' (d + 8) (d + 8 + ?k) \<and>
              (d + 8 - (s + 8) \<ge> 8 \<or> s + 8 - (d + 8) \<ge> ?k \<longrightarrow>
               copied m' (d + 8 - (s + 8)) (d + 8) (max (d + 8 + 8) e))) (LZ4_wildCopy m1 (d + 8) (s + 8) e)"
      by (simp add: LZ4_copy8_def m1(1))
    have "ok (\<lambda>m'. frame m m' d (d + ?n) \<and>
              (d - s \<ge> 8 \<or> s - d \<ge> ?n \<longrightarrow> copied m' (d - s) d (max (d + 8) e)))
           (LZ4_wildCopy m1 (d + 8) (s + 8) e)"
    proof (rule ok_mono [OF IH], intro conjI impI)
      fix m' assume A: "frame m1 m' (d + 8) (d + 8 + ?k) \<and>
              (d + 8 - (s + 8) \<ge> 8 \<or> s + 8 - (d + 8) \<ge> ?k \<longrightarrow>
               copied m' (d + 8 - (s + 8)) (d + 8) (max (d + 8 + 8) e))"
      then have f: "frame m1 m' (d + 8) (d + 8 + ?k)" by blast
      show "frame m m' d (d + ?n)"
        using m1(2) f k by (intro frame_trans [of m m1 d _ m'] frame_mono [OF m1(2)] frame_mono [OF f]) auto
      assume D: "d - s \<ge> 8 \<or> s - d \<ge> ?n"
      then have c2: "copied m' (d - s) (d + 8) e" using A k by (auto simp: copied_def)
      have "m' x = m' (x - (d - s))" if x: "d \<le> x" "x < d + 8" for x
      proof -
        have "m' x = m1 x" "m' (x - (d - s)) = m1 (x - (d - s))"
          using x D k by (auto intro!: frame_eq [OF f])
        moreover have "m1 x = m1 (x - (d - s))" using c1 D x by (auto simp: copied_def)
        ultimately show ?thesis by simp
      qed
      with c2 True show "copied m' (d - s) d (max (d + 8) e)"
        unfolding copied_def by (metis not_less max.absorb2 less_imp_le)
    qed
    then show ?thesis using True by (subst LZ4_wildCopy.simps) (simp add: LZ4_copy8_def m1(1))
  qed
qed

lemma LZ4_readLE16_eq:
  assumes "m p = Some lo" "m (p + 1) = Some hi"
  shows "ok (\<lambda>v. uint v = uint lo + 256 * uint hi) (LZ4_readLE16 a m p)"
proof -
  have b: "uint lo + 256 * uint hi < 65536" "0 \<le> uint lo + 256 * uint hi"
    using uint_byte [of lo] uint_byte [of hi] by auto
  have ld: "load_bytes m p 2 = Some [lo, hi]"
    using assms by (simp add: numeral_2_eq_2)
  have e: "ucast lo + push_bit 8 (ucast hi :: u16) = (word_of_int (uint lo + 256 * uint hi) :: u16)"
    by (simp add: push_bit_eq_mult)
  have "uint (word_of_int (uint lo + 256 * uint hi) :: u16) = uint lo + 256 * uint hi"
    unfolding uint_word_of_int using b by simp
  then show ?thesis
    using ld assms e by (simp add: LZ4_readLE16_def LZ4_read16_def native_val_def LZ4_isLittleEndian_def)
qed

lemma LZ4_writeLE16_eq:
  "LZ4_writeLE16 a m p v = store_bytes m p [ucast v, ucast (drop_bit 8 v)]"
  by (simp add: LZ4_writeLE16_def)

lemma uint_u16_bytes: "uint (ucast (v :: u16) :: byte) + 256 * uint (ucast (drop_bit 8 v) :: byte) = uint v"
proof -
  have "uint v < 65536" "0 \<le> uint v" using unsigned_less [of v] by simp_all
  then have "uint v div 256 < 256" "0 \<le> uint v div 256" by (auto simp: div_int_pos_iff)
  then show ?thesis
    by (simp add: unsigned_ucast_eq take_bit_eq_mod unsigned_drop_bit_eq drop_bit_eq_div uint_div)
qed

section \<open>Common bytes of two words\<close>

lemma bit_le_val:
  assumes "8 * length zs \<le> LENGTH('a::len)"
  shows "bit (word_of_int (le_val zs) :: 'a word) n \<longleftrightarrow> n < 8 * length zs \<and> bit (zs ! (n div 8)) (n mod 8)"
  using assms
proof (induction zs arbitrary: n)
  case (Cons z zs)
  have IH: "bit (word_of_int (le_val zs) :: 'a word) k \<longleftrightarrow> k < 8 * length zs \<and> bit (zs ! (k div 8)) (k mod 8)" for k
    using Cons by simp
  show ?case
  proof (cases "n < 8")
    case True
    then show ?thesis using Cons.prems
      by (simp add: le_val_Cons_word bit_or_iff bit_push_bit_iff bit_ucast_iff IH del: le_val.simps(2))
  next
    case False
    then have "n div 8 = Suc ((n - 8) div 8)" "(n - 8) mod 8 = n mod 8" "n = n - 8 + 8"
      by (auto simp: le_div_geq le_mod_geq)
    with False Cons.prems show ?thesis
      by (auto simp: le_val_Cons_word bit_or_iff bit_push_bit_iff bit_ucast_iff IH byte_bit_ge
          simp del: le_val.simps(2))
  qed
qed simp

lemma le_val_xor:
  assumes "length xs = length ys" "8 * length xs \<le> LENGTH('a::len)"
  shows "(word_of_int (le_val xs) :: 'a word) XOR word_of_int (le_val ys) = word_of_int (le_val (map2 (XOR) xs ys))"
proof (rule bit_word_eqI)
  fix n
  have "n < 8 * length ys \<Longrightarrow> n div 8 < length ys" by auto
  then show "bit ((word_of_int (le_val xs) :: 'a word) XOR word_of_int (le_val ys)) n =
     bit (word_of_int (le_val (map2 (XOR) xs ys)) :: 'a word) n"
    using assms by (auto simp: bit_xor_iff bit_le_val)
qed

text \<open>The number of leading zero bytes of a list.\<close>

definition zeros :: "byte list \<Rightarrow> nat" where
  "zeros zs = length (takeWhile (\<lambda>z. z = 0) zs)"

lemma zeros_nth: "zeros zs < length zs \<Longrightarrow> zs ! zeros zs \<noteq> 0" "i < zeros zs \<Longrightarrow> zs ! i = 0"
  using nth_length_takeWhile [of "\<lambda>z. z = 0" zs] takeWhile_nth [of i "\<lambda>z. z = 0" zs]
    nth_mem [of i "takeWhile (\<lambda>z. z = 0) zs"] set_takeWhileD [of "zs ! i" "\<lambda>z. z = 0" zs]
  by (auto simp: zeros_def)

lemma ctz_eqI:
  fixes w :: "'a::len word"
  assumes "bit w n" "\<And>i. i < n \<Longrightarrow> \<not> bit w i"
  shows "ctz w = n"
proof -
  have "n < LENGTH('a)" using assms(1) by (rule bit_imp_le_length)
  then have "[0..<LENGTH('a)] = [0..<n] @ n # [Suc n..<LENGTH('a)]"
    by (metis upt_add_eq_append upt_conv_Cons le_add_diff_inverse less_imp_le zero_le)
  then show ?thesis unfolding ctz_def using assms by (simp only:) (subst takeWhile_append2, auto)
qed

lemma clz_eqI:
  fixes w :: "'a::len word"
  assumes "bit w n" "\<And>i. n < i \<Longrightarrow> \<not> bit w i"
  shows "clz w = LENGTH('a) - 1 - n"
proof -
  have n: "n < LENGTH('a)" using assms(1) by (rule bit_imp_le_length)
  then have "rev [0..<LENGTH('a)] = rev [Suc n..<LENGTH('a)] @ n # rev [0..<n]"
    by (metis append.simps(1) append.simps(2) append_assoc le_add_diff_inverse less_imp_le rev.simps(2) rev_append upt_add_eq_append upt_conv_Cons zero_le)
  then show ?thesis unfolding clz_def using assms n by (simp only:) (subst takeWhile_append2, auto)
qed

lemma byte_bits: "z \<noteq> 0 \<Longrightarrow> \<exists>i < 8. bit (z :: byte) i"
  using bit_word_eqI [of z 0] by auto

lemma ctz_le_val:
  assumes "zeros zs < length zs" "8 * length zs \<le> LENGTH('a::len)"
  shows "ctz (word_of_int (le_val zs) :: 'a word) div 8 = zeros zs"
proof -
  let ?w = "word_of_int (le_val zs) :: 'a word" and ?k = "zeros zs"
  obtain i where i: "i < 8" "bit (zs ! ?k) i" using byte_bits zeros_nth(1) assms(1) by blast
  define j where "j = (LEAST i. bit (zs ! ?k) i)"
  have j: "bit (zs ! ?k) j" "\<And>l. l < j \<Longrightarrow> \<not> bit (zs ! ?k) l"
    using i LeastI [of "bit (zs ! ?k)"] not_less_Least by (auto simp: j_def)
  have j8: "j < 8" using j(1) byte_bit_ge [of j] by (meson not_le)
  have "ctz ?w = 8 * ?k + j"
  proof (rule ctz_eqI)
    show "bit ?w (8 * ?k + j)" using j(1) j8 assms by (simp add: bit_le_val)
    fix n assume n: "n < 8 * ?k + j"
    show "\<not> bit ?w n"
    proof (cases "n div 8 = ?k")
      case True
      then have "n mod 8 < j" using n by (metis add_less_cancel_left div_mult_mod_eq mult.commute)
      with True j(2) assms show ?thesis by (simp add: bit_le_val)
    next
      case False
      then have "n div 8 < ?k" using n j8 by auto
      with zeros_nth(2) assms show ?thesis by (simp add: bit_le_val)
    qed
  qed
  then show ?thesis using j8 by simp
qed

lemma clz_le_val:
  assumes "zeros zs < length zs" "8 * length zs = LENGTH('a::len)"
  shows "clz (word_of_int (le_val (rev zs)) :: 'a word) div 8 = zeros zs"
proof -
  let ?w = "word_of_int (le_val (rev zs)) :: 'a word" and ?k = "zeros zs" and ?n = "length zs"
  have bit: "bit ?w n \<longleftrightarrow> n < 8 * ?n \<and> bit (zs ! (?n - 1 - n div 8)) (n mod 8)" for n
  proof -
    have "n < 8 * ?n \<Longrightarrow> n div 8 < ?n" by auto
    then show ?thesis using assms(2) by (auto simp: bit_le_val rev_nth)
  qed
  define j where "j = (GREATEST i. bit (zs ! ?k) i)"
  have b8: "bit (zs ! ?k) i \<Longrightarrow> i \<le> 7" for i using byte_bit_ge [of i "zs ! ?k"] by (cases "8 \<le> i") auto
  obtain i where "bit (zs ! ?k) i" using byte_bits zeros_nth(1) assms(1) by blast
  then have j: "bit (zs ! ?k) j" "\<And>l. bit (zs ! ?k) l \<Longrightarrow> l \<le> j"
    unfolding j_def using b8 by (blast intro: GreatestI_nat Greatest_le_nat)+
  have j8: "j < 8" using b8 [OF j(1)] by simp
  let ?p = "8 * (?n - 1 - ?k) + j"
  have "clz ?w = LENGTH('a) - 1 - ?p"
  proof (rule clz_eqI)
    have "?n - 1 - (?n - 1 - ?k) = ?k" using assms(1) by auto
    then show "bit ?w ?p" using j(1) j8 assms(1) by (simp add: bit)
    fix n assume n: "?p < n"
    show "\<not> bit ?w n"
    proof
      assume b: "bit ?w n"
      then have nb: "n < 8 * ?n" and bn: "bit (zs ! (?n - 1 - n div 8)) (n mod 8)" by (auto simp: bit)
      show False
      proof (cases "?n - 1 - n div 8 = ?k")
        case True
        then have "n mod 8 \<le> j" using bn j(2) by simp
        moreover have "n div 8 = ?n - 1 - ?k" using True nb assms(1) by auto
        ultimately show False using n by (metis add_le_cancel_left div_mult_mod_eq mult.commute not_le)
      next
        case False
        then have "?n - 1 - n div 8 < ?k" using n nb j8 assms(1) by auto
        then show False using bn zeros_nth(2) [of "?n - 1 - n div 8" zs] by simp
      qed
    qed
  qed
  then show ?thesis using assms j8 by auto
qed

lemma odd_and_minus:
  fixes u :: "'a::len word"
  assumes "odd u"
  shows "u AND - u = 1"
proof -
  let ?v = "u AND NOT 1"
  have u: "u = 1 OR ?v"
    using assms by (intro bit_word_eqI) (auto simp: bit_or_iff bit_and_iff bit_not_iff bit_1_iff bit_0)
  have "1 OR ?v = 1 + ?v"
    by (rule disjunctive_add [symmetric]) (auto simp: bit_1_iff bit_and_iff bit_not_iff)
  with u have "u = 1 + ?v" by metis
  then have "- u = - ?v - 1" by (metis minus_add_distrib uminus_add_conv_diff minus_diff_commute)
  then have "- u = NOT ?v" by (metis not_eq_complement)
  then have "u AND - u = (1 OR ?v) AND NOT ?v" using u by metis
  also have "\<dots> = 1"
    by (intro bit_word_eqI) (auto simp: bit_and_iff bit_or_iff bit_not_iff bit_1_iff)
  finally show ?thesis .
qed

lemma ctz_bit:
  fixes w :: "'a::len word"
  assumes "w \<noteq> 0"
  shows "bit w (ctz w)" "\<And>i. i < ctz w \<Longrightarrow> \<not> bit w i"
proof -
  obtain i where "bit w i" using assms bit_word_eqI [of w 0] by auto
  then obtain n where n: "bit w n" "\<And>j. j < n \<Longrightarrow> \<not> bit w j"
    using exists_least_iff [of "bit w"] by blast
  then have "ctz w = n" by (rule ctz_eqI)
  with n show "bit w (ctz w)" "\<And>i. i < ctz w \<Longrightarrow> \<not> bit w i" by simp_all
qed

lemma isolate_lowest:
  fixes w :: "'a::len word"
  assumes "w \<noteq> 0"
  shows "w AND - w = push_bit (ctz w) 1" "ctz w < LENGTH('a)"
proof -
  let ?k = "ctz w" and ?u = "drop_bit (ctz w) w"
  note b = ctz_bit [OF assms]
  show "?k < LENGTH('a)" using b(1) by (rule bit_imp_le_length)
  have ge: "bit w n \<Longrightarrow> ?k \<le> n" for n using b(2) by (meson not_le)
  have w: "w = push_bit ?k ?u"
    using ge by (intro bit_word_eqI) (auto simp: bit_push_bit_iff bit_drop_bit_eq)
  have "odd ?u" using b(1) by (simp add: bit_drop_bit_eq flip: bit_0)
  have "w AND - w = push_bit ?k ?u AND push_bit ?k (- ?u)"
    using w by (metis push_bit_minus)
  also have "\<dots> = push_bit ?k (?u AND - ?u)" by simp
  also have "\<dots> = push_bit ?k 1" using odd_and_minus [OF \<open>odd ?u\<close>] by simp
  finally show "w AND - w = push_bit ?k 1" .
qed

lemma DeBruijn64:
  assumes "k < 64"
  shows "DeBruijnBytePos64 ! unat (drop_bit 58 (push_bit k (1 :: u64) * 0x0218A392CDABBD3F)) = k div 8"
proof -
  have "list_all (\<lambda>k. DeBruijnBytePos64 ! unat (drop_bit 58 (push_bit k (1 :: u64) * 0x0218A392CDABBD3F)) = k div 8) [0..<64]"
    by code_simp
  with assms show ?thesis by (simp add: list_all_iff)
qed

lemma DeBruijn32:
  assumes "k < 32"
  shows "DeBruijnBytePos32 ! unat (drop_bit 27 (push_bit k (1 :: u32) * 0x077CB531)) = k div 8"
proof -
  have "list_all (\<lambda>k. DeBruijnBytePos32 ! unat (drop_bit 27 (push_bit k (1 :: u32) * 0x077CB531)) = k div 8) [0..<32]"
    by code_simp
  with assms show ?thesis by (simp add: list_all_iff)
qed

lemma drop_bit_le_val:
  assumes "8 * length zs \<le> LENGTH('a::len)"
  shows "drop_bit (8 * k) (word_of_int (le_val zs) :: 'a word) = word_of_int (le_val (drop k zs))"
proof (rule bit_word_eqI)
  fix n
  show "bit (drop_bit (8 * k) (word_of_int (le_val zs) :: 'a word)) n = bit (word_of_int (le_val (drop k zs)) :: 'a word) n"
  proof (cases "n < 8 * (length zs - k)")
    case True
    then have "(8 * k + n) div 8 = k + n div 8" "(8 * k + n) mod 8 = n mod 8" "k + n div 8 < length zs"
      "8 * k + n < 8 * length zs" by auto
    with True assms show ?thesis by (simp add: bit_drop_bit_eq bit_le_val)
  next
    case False
    with assms show ?thesis by (auto simp: bit_drop_bit_eq bit_le_val)
  qed
qed

lemma le_val_zero:
  assumes "8 * length zs \<le> LENGTH('a::len)"
  shows "(word_of_int (le_val zs) :: 'a word) = 0 \<longleftrightarrow> (\<forall>z \<in> set zs. z = 0)"
proof
  assume w: "(word_of_int (le_val zs) :: 'a word) = 0"
  show "\<forall>z \<in> set zs. z = 0"
  proof
    fix z assume "z \<in> set zs"
    then obtain i where i: "i < length zs" "z = zs ! i" by (auto simp: in_set_conv_nth)
    show "z = 0"
    proof (rule ccontr)
      assume "z \<noteq> 0"
      then obtain j where "j < 8" "bit z j" using byte_bits by blast
      with i have "bit (word_of_int (le_val zs) :: 'a word) (8 * i + j)"
        using assms by (simp add: bit_le_val)
      with w show False by simp
    qed
  qed
next
  assume "\<forall>z \<in> set zs. z = 0"
  then have "le_val zs = 0" by (induction zs) auto
  then show "(word_of_int (le_val zs) :: 'a word) = 0" by simp
qed

lemma list_of_8:
  assumes "length zs = 8"
  obtains z0 z1 z2 z3 z4 z5 z6 z7 where "zs = [z0, z1, z2, z3, z4, z5, z6, z7]"
  using assms by (auto simp: length_Suc_conv eval_nat_numeral)

lemma sw_clz64:
  assumes "length zs = 8" "zeros zs < 8"
  shows "(let val = (word_of_int (le_val (rev zs)) :: u64);
              (r, val) = (if drop_bit 32 val = 0 then (4, val) else (0, drop_bit 32 val));
              (r, val) = (if drop_bit 16 val = 0 then (r + 2, drop_bit 8 val) else (r, drop_bit 24 val))
          in r + (if val = 0 then 1 else 0)) = int (zeros zs)"
proof -
  obtain z0 z1 z2 z3 z4 z5 z6 z7 where zs: "zs = [z0, z1, z2, z3, z4, z5, z6, z7]"
    using list_of_8 [OF assms(1)] .
  have d: "drop_bit 32 (word_of_int (le_val xs) :: u64) = word_of_int (le_val (drop 4 xs))"
     "drop_bit 16 (word_of_int (le_val xs) :: u64) = word_of_int (le_val (drop 2 xs))"
     "drop_bit 8 (word_of_int (le_val xs) :: u64) = word_of_int (le_val (drop 1 xs))"
     "drop_bit 24 (word_of_int (le_val xs) :: u64) = word_of_int (le_val (drop 3 xs))" if "length xs \<le> 8" for xs
    using that drop_bit_le_val [where 'a = 64, of xs 4] drop_bit_le_val [where 'a = 64, of xs 2]
      drop_bit_le_val [where 'a = 64, of xs 1] drop_bit_le_val [where 'a = 64, of xs 3] by simp_all
  note z = le_val_zero [where 'a = 64]
  show ?thesis
    using assms(2) unfolding zs zeros_def
    by (simp add: d z Let_def del: le_val.simps split: if_splits)
qed

lemma sw_clz32:
  assumes "length zs = 4" "zeros zs < 4"
  shows "(let val = (word_of_int (le_val (rev zs)) :: u32);
              (r, val) = (if drop_bit 16 val = 0 then (2, drop_bit 8 val) else (0, drop_bit 24 val))
          in r + (if val = 0 then 1 else 0)) = int (zeros zs)"
proof -
  obtain z0 z1 z2 z3 where zs: "zs = [z0, z1, z2, z3]"
    using assms(1) by (auto simp: length_Suc_conv eval_nat_numeral)
  have d: "drop_bit 16 (word_of_int (le_val xs) :: u32) = word_of_int (le_val (drop 2 xs))"
     "drop_bit 8 (word_of_int (le_val xs) :: u32) = word_of_int (le_val (drop 1 xs))"
     "drop_bit 24 (word_of_int (le_val xs) :: u32) = word_of_int (le_val (drop 3 xs))" if "length xs \<le> 4" for xs
    using that drop_bit_le_val [where 'a = 32, of xs 2]
      drop_bit_le_val [where 'a = 32, of xs 1] drop_bit_le_val [where 'a = 32, of xs 3] by simp_all
  note z = le_val_zero [where 'a = 32]
  show ?thesis
    using assms(2) unfolding zs zeros_def
    by (simp add: d z Let_def del: le_val.simps split: if_splits)
qed

lemma xor_zero: "(x :: 'a::len word) XOR y = 0 \<longleftrightarrow> x = y"
  by (auto simp: bit_eq_iff bit_xor_iff)

lemma zeros_less: "zeros zs < length zs \<longleftrightarrow> (\<exists>z \<in> set zs. z \<noteq> 0)"
  by (induction zs) (auto simp: zeros_def)

lemma ucast_u32_of_int: "(ucast (word_of_int x :: u64) :: u32) = word_of_int x"
  by (simp add: unsigned_of_int word_of_int_eq_iff)

text \<open>Whatever the target, the result is the index of the first byte that differs.\<close>

lemma LZ4_NbCommonBytes_eq:
  assumes "length xs = nat (STEPSIZE a)" "length ys = nat (STEPSIZE a)" "xs \<noteq> ys"
  shows "LZ4_NbCommonBytes a (word_of_int (native_val a xs) XOR word_of_int (native_val a ys)) =
           int (zeros (map2 (XOR) xs ys))"
proof -
  let ?zs = "map2 (XOR) xs ys"
  have len: "length ?zs = nat (STEPSIZE a)" using assms by simp
  have "\<exists>z \<in> set ?zs. z \<noteq> 0"
  proof (rule ccontr)
    assume "\<not> ?thesis"
    then have "xs ! i XOR ys ! i = 0" if "i < length xs" for i
      using that assms by (auto simp: set_zip)
    then have "xs = ys" using assms by (intro nth_equalityI) (auto simp: xor_zero)
    with assms show False by simp
  qed
  then have z: "zeros ?zs < length ?zs"
    by (simp only: zeros_less)
  have mr: "map2 (XOR) (rev xs) (rev ys) = rev ?zs"
    using assms by (simp add: zip_rev rev_map)
  show ?thesis
  proof (cases "bits64 a")
    case True
    then have l: "length xs = 8" "length ys = 8" "length ?zs = 8" using assms len by (auto simp: STEPSIZE_def)
    define w where "w = (word_of_int (native_val a xs) XOR word_of_int (native_val a ys) :: u64)"
    have w: "w = word_of_int (le_val (if little_endian a then ?zs else rev ?zs))"
      using l mr by (simp add: w_def native_val_def le_val_xor [where 'a = 64])
    have nz: "w \<noteq> 0" using l z unfolding zeros_less by (auto simp: w le_val_zero [where 'a = 64])
    show ?thesis
    proof (cases "little_endian a")
      case LE: True
      have c: "ctz w div 8 = zeros ?zs" using LE l z by (simp add: w ctz_le_val [where 'a = 64])
      have "w AND - w = push_bit (ctz w) 1" "ctz w < 64" using isolate_lowest [OF nz] by simp_all
      with c LE True show ?thesis
        unfolding w_def [symmetric] by (simp add: LZ4_NbCommonBytes_def LZ4_isLittleEndian_def LZ4_64bits_def DeBruijn64 [simplified])
    next
      case BE: False
      have c: "clz w div 8 = zeros ?zs" using BE l z by (simp add: w clz_le_val [where 'a = 64])
      have "w = word_of_int (le_val (rev ?zs))" using BE w by simp
      with sw_clz64 [of ?zs] c BE True l z show ?thesis
        unfolding w_def [symmetric] by (simp add: LZ4_NbCommonBytes_def LZ4_isLittleEndian_def LZ4_64bits_def Let_def)
    qed
  next
    case False
    then have l: "length xs = 4" "length ys = 4" "length ?zs = 4" using assms len by (auto simp: STEPSIZE_def)
    define v where "v = (word_of_int (native_val a xs) XOR word_of_int (native_val a ys) :: u64)"
    define w where "w = (ucast v :: u32)"
    have w: "w = word_of_int (le_val (if little_endian a then ?zs else rev ?zs))"
      using l mr by (simp add: w_def v_def unsigned_xor_eq ucast_u32_of_int native_val_def le_val_xor [where 'a = 32])
    have nz: "w \<noteq> 0" using l z unfolding zeros_less by (auto simp: w le_val_zero [where 'a = 32])
    show ?thesis
    proof (cases "little_endian a")
      case LE: True
      have c: "ctz w div 8 = zeros ?zs" using LE l z by (simp add: w ctz_le_val [where 'a = 32])
      have "w AND - w = push_bit (ctz w) 1" "ctz w < 32" using isolate_lowest [OF nz] by simp_all
      with c LE False show ?thesis
        unfolding v_def [symmetric] by (simp add: LZ4_NbCommonBytes_def LZ4_isLittleEndian_def LZ4_64bits_def DeBruijn32 [simplified] flip: w_def)
    next
      case BE: False
      have c: "clz w div 8 = zeros ?zs" using BE l z by (simp add: w clz_le_val [where 'a = 32])
      have "w = word_of_int (le_val (rev ?zs))" using BE w by simp
      with sw_clz32 [of ?zs] c BE False l z show ?thesis
        unfolding v_def [symmetric] by (simp add: LZ4_NbCommonBytes_def LZ4_isLittleEndian_def LZ4_64bits_def Let_def flip: w_def)
    qed
  qed
qed

section \<open>The match counter\<close>

text \<open>The longest common run of two positions, up to a limit on the first one.\<close>

definition common :: "mem \<Rightarrow> addr \<Rightarrow> addr \<Rightarrow> int \<Rightarrow> bool" where
  "common m p q n \<longleftrightarrow> (\<forall>i. 0 \<le> i \<longrightarrow> i < n \<longrightarrow> m (p + i) = m (q + i))"

definition longest_common :: "mem \<Rightarrow> addr \<Rightarrow> addr \<Rightarrow> addr \<Rightarrow> int \<Rightarrow> bool" where
  "longest_common m p q lim n \<longleftrightarrow>
     0 \<le> n \<and> p + n \<le> lim \<and> common m p q n \<and> (p + n = lim \<or> m (p + n) \<noteq> m (q + n))"

lemma common_add: "common m p q k \<Longrightarrow> common m (p + k) (q + k) n \<Longrightarrow> common m p q (k + n)"
  unfolding common_def
proof (intro allI impI)
  fix i assume A: "\<forall>i. 0 \<le> i \<longrightarrow> i < k \<longrightarrow> m (p + i) = m (q + i)"
    "\<forall>i. 0 \<le> i \<longrightarrow> i < n \<longrightarrow> m (p + k + i) = m (q + k + i)" "0 \<le> i" "i < k + n"
  show "m (p + i) = m (q + i)"
  proof (cases "i < k")
    case False
    with A(2) [rule_format, of "i - k"] A(4) show ?thesis by simp
  qed (use A in simp)
qed

lemma longest_add:
  assumes "common m p q k" "longest_common m (p + k) (q + k) lim n" "0 \<le> k"
  shows "longest_common m p q lim (k + n)"
  using assms common_add [of m p q k n] by (simp add: longest_common_def add.assoc)

lemma common_bytes:
  assumes "bytes_at m p bs" "bytes_at m q bs" "n = int (length bs)"
  shows "common m p q n"
  using assms by (auto simp: common_def bytes_at_int)

lemma longest_zero: "p \<le> lim \<Longrightarrow> p = lim \<or> m p \<noteq> m q \<Longrightarrow> longest_common m p q lim 0"
  by (simp add: longest_common_def common_def)

lemma longest_bytes:
  assumes "bytes_at m p xs" "bytes_at m q ys" "length xs = length ys" "xs \<noteq> ys" "p + int (length xs) \<le> lim"
  shows "longest_common m p q lim (int (zeros (map2 (XOR) ys xs)))"
proof -
  let ?zs = "map2 (XOR) ys xs"
  have ex: "\<exists>z \<in> set ?zs. z \<noteq> 0"
  proof (rule ccontr)
    assume "\<not> ?thesis"
    then have "ys ! i XOR xs ! i = 0" if "i < length xs" for i
      using that assms(3) by (auto simp: set_zip)
    then have "xs = ys" using assms(3) by (intro nth_equalityI) (auto simp: xor_zero)
    with assms(4) show False by simp
  qed
  have k: "zeros ?zs < length xs" using ex assms(3) zeros_less [of ?zs] by simp
  have eq: "xs ! i = ys ! i" if "i < zeros ?zs" for i
    using zeros_nth(2) [of i ?zs] that k assms(3) by (simp add: xor_zero)
  have ne: "xs ! zeros ?zs \<noteq> ys ! zeros ?zs"
    using zeros_nth(1) [of ?zs] k assms(3) by (simp add: xor_zero)
  have "m (p + i) = m (q + i)" if "0 \<le> i" "i < int (zeros ?zs)" for i
    using that k assms(3) bytes_at_nth [OF assms(1), of "nat i"] bytes_at_nth [OF assms(2), of "nat i"] eq [of "nat i"]
    by simp
  then show ?thesis
    using k assms(3,5) ne bytes_at_nth [OF assms(1) k] bytes_at_nth [OF assms(2), of "zeros ?zs"]
    by (simp add: longest_common_def common_def)
qed

lemma native_word_inject:
  assumes "length xs = length ys" "8 * length xs \<le> LENGTH('a::len)"
  shows "(word_of_int (native_val a xs) :: 'a word) = word_of_int (native_val a ys) \<longleftrightarrow> xs = ys"
proof -
  have p: "(256 :: int) ^ length xs \<le> 2 ^ LENGTH('a)"
    using power_increasing [OF assms(2), of "2 :: int"] by (simp add: power_mult)
  have t: "take_bit LENGTH('a) (native_val a zs) = native_val a zs" if "length zs = length xs" for zs
  proof -
    have "0 \<le> native_val a zs" "native_val a zs < 2 ^ LENGTH('a)"
      using native_val_bound [of a zs] that p by auto
    then show ?thesis by (simp add: take_bit_eq_mod)
  qed
  show ?thesis
    using assms(1) by (simp add: word_of_int_eq_iff t native_val_inject)
qed

lemma LZ4_read_ARCH_ok:
  assumes "mapped m p (p + STEPSIZE a)"
  shows "ok (\<lambda>v. \<exists>bs. length bs = nat (STEPSIZE a) \<and> bytes_at m p bs \<and> v = word_of_int (native_val a bs))
           (LZ4_read_ARCH a m p)"
proof -
  have "mapped m p (p + int (nat (STEPSIZE a)))" using assms by (simp add: STEPSIZE_def)
  from okD [OF load_bytes_ok [OF this]] obtain bs where
    bs: "load_bytes m p (nat (STEPSIZE a)) = Some bs" "length bs = nat (STEPSIZE a)" "bytes_at m p bs" by blast
  have "ucast (word_of_int (native_val a bs) :: u32) = (word_of_int (native_val a bs) :: u64)" if "length bs = 4"
    using native_val_bound [of a bs] that
    by (simp add: unsigned_of_int take_bit_eq_mod)
  then show ?thesis
    using bs by (auto simp: LZ4_read_ARCH_def LZ4_64bits_def LZ4_read64_def LZ4_read32_def STEPSIZE_def split: if_splits)
qed

text \<open>What the word-wise loop has established when it returns or is left.\<close>

fun count_post :: "arch \<Rightarrow> mem \<Rightarrow> addr \<Rightarrow> addr \<Rightarrow> addr \<Rightarrow> addr + addr \<times> addr \<Rightarrow> bool" where
  "count_post a m p q lim (Inl p') = longest_common m p q lim (p' - p)"
| "count_post a m p q lim (Inr (p', q')) =
     (p \<le> p' \<and> p' \<le> lim \<and> q' - p' = q - p \<and> common m p q (p' - p) \<and> lim - p' < STEPSIZE a)"

lemma count_post_add:
  assumes "common m p q k" "0 \<le> k" "count_post a m (p + k) (q + k) lim r"
  shows "count_post a m p q lim r"
  using assms longest_add [of m p q k lim] common_add [of m p q k]
  by (cases "(a, m, p, q, lim, r)" rule: count_post.cases) fastforce+

lemma LZ4_count_loop_ok:
  assumes "mapped m p lim" "mapped m q (q + (lim - p))" "p \<le> lim"
  shows "ok (count_post a m p q lim) (LZ4_count_loop a m p q lim)"
  using assms
proof (induction a m p q lim rule: LZ4_count_loop.induct)
  case (1 a m p q lim)
  let ?s = "STEPSIZE a"
  have s: "0 < ?s" "int (nat ?s) = ?s" "8 * nat ?s \<le> 64" by (simp_all add: STEPSIZE_def)
  show ?case
  proof (cases "p < lim - (?s - 1)")
    case False
    then show ?thesis using "1.prems" by (subst LZ4_count_loop.simps) (simp add: common_def)
  next
    case True
    have mp: "mapped m p (p + ?s)" "mapped m q (q + ?s)"
      by (rule mapped_mono [OF "1.prems"(1)], use True in auto) (rule mapped_mono [OF "1.prems"(2)], use True in auto)
    obtain xs where xs: "LZ4_read_ARCH a m q = Some (word_of_int (native_val a xs))" "length xs = nat ?s" "bytes_at m q xs"
      using okD [OF LZ4_read_ARCH_ok [OF mp(2)]] by blast
    obtain ys where ys: "LZ4_read_ARCH a m p = Some (word_of_int (native_val a ys))" "length ys = nat ?s" "bytes_at m p ys"
      using okD [OF LZ4_read_ARCH_ok [OF mp(1)]] by blast
    have eq: "(word_of_int (native_val a xs) XOR word_of_int (native_val a ys) :: u64) = 0 \<longleftrightarrow> xs = ys"
      using native_word_inject [where 'a = 64, of xs ys a] xs(2) ys(2) s(3) by (simp add: xor_zero)
    show ?thesis
    proof (cases "xs = ys")
      case False
      have "longest_common m p q lim (int (zeros (map2 (XOR) xs ys)))"
        using xs ys s True False by (intro longest_bytes) auto
      with False show ?thesis
        using xs ys True eq LZ4_NbCommonBytes_eq [OF xs(2) ys(2) False]
        by (subst LZ4_count_loop.simps) simp
    next
      case eqs: True
      have c: "common m p q ?s" using xs ys eqs s by (intro common_bytes [of _ _ xs]) auto
      have "mapped m (p + ?s) lim" "mapped m (q + ?s) (q + ?s + (lim - (p + ?s)))" "p + ?s \<le> lim"
        by (rule mapped_mono [OF "1.prems"(1)], use True s in auto)
           (rule mapped_mono [OF "1.prems"(2)], use True s in auto)
      from "1.IH" [OF True xs(1) ys(1) _ this] eqs
      have "ok (count_post a m (p + ?s) (q + ?s) lim) (LZ4_count_loop a m (p + ?s) (q + ?s) lim)" by simp
      then have "ok (count_post a m p q lim) (LZ4_count_loop a m (p + ?s) (q + ?s) lim)"
        by (rule ok_mono) (rule count_post_add [OF c], use s in simp)
      then show ?thesis
        using xs ys True eqs by (subst LZ4_count_loop.simps) simp
    qed
  qed
qed


text \<open>The tail of \<open>LZ4_count\<close>: at most one comparison of each smaller width.\<close>

lemma read_common:
  assumes "mapped m p (p + int n)" "mapped m q (q + int n)" "8 * n \<le> LENGTH('a::len)"
  shows "\<exists>x y. load_bytes m p n = Some y \<and> load_bytes m q n = Some x \<and>
     ((word_of_int (native_val a x) :: 'a word) = word_of_int (native_val a y) \<longleftrightarrow> common m p q (int n))"
proof -
  obtain xs where xs: "load_bytes m q n = Some xs" "length xs = n" "bytes_at m q xs"
    using okD [OF load_bytes_ok [OF assms(2)]] by blast
  obtain ys where ys: "load_bytes m p n = Some ys" "length ys = n" "bytes_at m p ys"
    using okD [OF load_bytes_ok [OF assms(1)]] by blast
  have "xs = ys \<longleftrightarrow> common m p q (int n)"
  proof
    assume c: "common m p q (int n)"
    show "xs = ys"
    proof (rule nth_equalityI)
      fix i assume i: "i < length xs"
      from c have "m (p + int i) = m (q + int i)" using i xs(2) by (simp add: common_def)
      then show "xs ! i = ys ! i" using bytes_at_nth [OF xs(3) i] bytes_at_nth [OF ys(3), of i] i xs(2) ys(2) by simp
    qed (use xs ys in simp)
  qed (use xs ys in \<open>auto intro: common_bytes\<close>)
  then show ?thesis using xs ys assms(3) by (auto simp: native_word_inject)
qed


text \<open>\<open>near k\<close>: fewer than \<open>k\<close> common bytes are left before the limit.\<close>

definition near :: "mem \<Rightarrow> addr \<Rightarrow> addr \<Rightarrow> addr \<Rightarrow> int \<Rightarrow> bool" where
  "near m p q lim k \<longleftrightarrow> lim - p < k \<or> \<not> common m p q k"

lemma near_half:
  assumes "near m p q lim (2 * k)"
  shows "common m p q k \<Longrightarrow> near m (p + k) (q + k) lim k"
    and "\<not> (p < lim - (k - 1) \<and> common m p q k) \<Longrightarrow> near m p q lim k"
  using assms common_add [of m p q k k] by (auto simp: near_def)

lemma common_1: "common m p q 1 \<longleftrightarrow> m p = m q"
proof -
  have "0 \<le> i \<and> i < 1 \<longleftrightarrow> i = (0 :: int)" for i by auto
  then show ?thesis unfolding common_def by (metis add.right_neutral)
qed

lemma near_1: "p \<le> lim \<Longrightarrow> near m p q lim 1 \<Longrightarrow> p = lim \<or> m p \<noteq> m q"
  by (auto simp: near_def common_1)

text \<open>The positions the tail may have reached.\<close>

definition tail_inv :: "mem \<Rightarrow> addr \<Rightarrow> addr \<Rightarrow> addr \<Rightarrow> int \<Rightarrow> addr \<times> addr \<Rightarrow> bool" where
  "tail_inv m p q lim k r \<longleftrightarrow>
     (\<exists>n. r = (p + n, q + n) \<and> 0 \<le> n \<and> p + n \<le> lim \<and> common m p q n \<and> near m (p + n) (q + n) lim k)"

lemma tail_step:
  assumes "mapped m p lim" "mapped m q (q + (lim - p))" "tail_inv m p q lim (2 * k) (p', q')"
    and k: "k = int n" "0 < n" "8 * n \<le> LENGTH('a::len)"
  shows "ok (tail_inv m p q lim k)
    (if p' < lim - (k - 1)
     then do { x \<leftarrow> load_bytes m q' n; y \<leftarrow> load_bytes m p' n;
               Some (if (word_of_int (native_val a x) :: 'a word) = word_of_int (native_val a y)
                     then (p' + k, q' + k) else (p', q')) }
     else Some (p', q'))"
proof -
  obtain j where j: "p' = p + j" "q' = q + j" "0 \<le> j" "p + j \<le> lim" "common m p q j"
      "near m (p + j) (q + j) lim (2 * k)"
    using assms(3) by (auto simp: tail_inv_def)
  show ?thesis
  proof (cases "p' < lim - (k - 1)")
    case False
    with j near_half(2) [OF j(6)] show ?thesis by (auto simp: tail_inv_def)
  next
    case True
    have "mapped m p' (p' + int n)" "mapped m q' (q' + int n)"
      by (rule mapped_mono [OF assms(1)], use True j k in auto)
         (rule mapped_mono [OF assms(2)], use True j k in auto)
    from read_common [OF this k(3), of a] obtain x y where
      xy: "load_bytes m p' n = Some y" "load_bytes m q' n = Some x"
      "(word_of_int (native_val a x) :: 'a word) = word_of_int (native_val a y) \<longleftrightarrow> common m p' q' k"
      using k(1) by blast
    show ?thesis
    proof (cases "common m p' q' k")
      case False
      with j near_half(2) [OF j(6)] xy True show ?thesis by (auto simp: tail_inv_def)
    next
      case c: True
      then have "tail_inv m p q lim k (p' + k, q' + k)"
        unfolding tail_inv_def
        using j near_half(1) [OF j(6)] common_add [OF j(5)] True k
        by (intro exI [of _ "j + k"]) (auto simp: add.assoc)
      with c xy True show ?thesis by simp
    qed
  qed
qed

text \<open>The counter returns the length of the longest match that ends before the limit, on every
  target, and reads only below the limit.\<close>

lemma LZ4_count_ok:
  assumes "mapped m p lim" "mapped m q (q + (lim - p))" "p \<le> lim" "lim - p < 4294967296"
  shows "ok (longest_common m p q lim) (LZ4_count a m p q lim)"
proof -
  obtain r where r: "LZ4_count_loop a m p q lim = Some r" "count_post a m p q lim r"
    using okD [OF LZ4_count_loop_ok [OF assms(1-3)]] by blast
  show ?thesis
  proof (cases r)
    case (Inl p')
    then show ?thesis using r assms(4) by (simp add: LZ4_count_def longest_common_def)
  next
    case (Inr pq)
    obtain p1 q1 where pq: "pq = (p1, q1)" by (cases pq)
    have "tail_inv m p q lim (STEPSIZE a) (p1, q1)"
      using r(2) unfolding Inr pq tail_inv_def near_def
      by (intro exI [of _ "p1 - p"]) auto
    then have t1: "tail_inv m p q lim (if bits64 a then 2 * 4 else 4) (p1, q1)" by (auto simp: STEPSIZE_def split: if_splits)
    have "ok (tail_inv m p q lim 4)
      (if LZ4_64bits a \<and> p1 < lim - 3
       then do { x \<leftarrow> LZ4_read32 a m q1; y \<leftarrow> LZ4_read32 a m p1;
                 Some (if x = y then (p1 + 4, q1 + 4) else (p1, q1)) }
       else Some (p1, q1))"
    proof (cases "bits64 a")
      case True
      with t1 have "tail_inv m p q lim (2 * 4) (p1, q1)" by simp
      from tail_step [OF assms(1,2) this, of 4 a, where 'a = 32] True show ?thesis
        by (simp add: LZ4_64bits_def LZ4_read32_def del: load_bytes.simps split del: if_split cong: if_cong)
    qed (use t1 in \<open>simp add: LZ4_64bits_def\<close>)
    from okD [OF this] obtain r2 where
      2: "(if LZ4_64bits a \<and> p1 < lim - 3
       then do { x \<leftarrow> LZ4_read32 a m q1; y \<leftarrow> LZ4_read32 a m p1;
                 Some (if x = y then (p1 + 4, q1 + 4) else (p1, q1)) }
       else Some (p1, q1)) = Some r2" "tail_inv m p q lim 4 r2" by blast
    obtain p2 q2 where r2: "r2 = (p2, q2)" by (cases r2)
    from 2(2) r2 have t2: "tail_inv m p q lim (2 * 2) (p2, q2)" by simp
    have "ok (tail_inv m p q lim 2)
      (if p2 < lim - 1
       then do { x \<leftarrow> LZ4_read16 a m q2; y \<leftarrow> LZ4_read16 a m p2;
                 Some (if x = y then (p2 + 2, q2 + 2) else (p2, q2)) }
       else Some (p2, q2))"
      using tail_step [OF assms(1,2) t2, of 2 a, where 'a = 16]
      by (simp add: LZ4_read16_def del: load_bytes.simps split del: if_split cong: if_cong)
    from okD [OF this] obtain r3 where
      3: "(if p2 < lim - 1
       then do { x \<leftarrow> LZ4_read16 a m q2; y \<leftarrow> LZ4_read16 a m p2;
                 Some (if x = y then (p2 + 2, q2 + 2) else (p2, q2)) }
       else Some (p2, q2)) = Some r3" "tail_inv m p q lim 2 r3" by blast
    then obtain p3 q3 n where r3: "r3 = (p3, q3)" and n: "p3 = p + n" "q3 = q + n" "0 \<le> n" "p + n \<le> lim" "common m p q n"
       "near m (p + n) (q + n) lim 2" by (auto simp: tail_inv_def)
    have "ok (\<lambda>p4. longest_common m p q lim (p4 - p))
      (if p3 < lim then do { x \<leftarrow> m q3; y \<leftarrow> m p3; Some (if x = y then p3 + 1 else p3) } else Some p3)"
    proof (cases "p3 < lim")
      case True
      obtain x where x: "m p3 = Some x" using mappedD [OF assms(1), of p3] True n by auto
      obtain y where y: "m q3 = Some y" using mappedD [OF assms(2), of q3] True n by auto
      have c: "common m (p + n) (q + n) 1 \<longleftrightarrow> x = y"
        using x y n(1,2) by (auto simp: common_1)
      show ?thesis
      proof (cases "x = y")
        case eq: True
        then have "near m (p + (n + 1)) (q + (n + 1)) lim 1"
          using near_half(1) [of m "p + n" "q + n" lim 1] n c by (simp add: add.assoc)
        from near_1 [OF _ this] have "longest_common m p q lim (n + 1)"
          using True n eq c common_add [OF n(5), of 1] by (simp add: longest_common_def)
        with x y True eq n(1) show ?thesis by simp
      next
        case False
        then have "longest_common m p q lim n" using x y n by (simp add: longest_common_def)
        with x y True False n(1) show ?thesis by simp
      qed
    next
      case False
      with n have "longest_common m p q lim n" by (simp add: longest_common_def)
      with n(1) False show ?thesis by simp
    qed
    from okD [OF this] obtain p4 where
      4: "(if p3 < lim then do { x \<leftarrow> m q3; y \<leftarrow> m p3; Some (if x = y then p3 + 1 else p3) } else Some p3) = Some p4"
        "longest_common m p q lim (p4 - p)" by blast
    show ?thesis
      using 4(2) assms(4)
      by (simp only: LZ4_count_def r(1) Inr pq sum.case prod.case Option.bind.bind_lunit 2(1) r2 3(1) r3 4(1) ok_Some)
         (simp add: longest_common_def)
  qed
qed

section \<open>The property of the match counter\<close>

text \<open>\<open>LZ4_count\<close> reads only below the limit and returns the length of the longest
  common run of the two positions that ends at or before the limit: all bytes counted agree, and
  either the limit is reached or the next bytes differ. This holds for both byte orders, both word
  sizes, and for the builtin and the software bit counters.\<close>

lemma LZ4_count_longest:
  assumes "mapped m pIn pInLimit" "mapped m pMatch (pMatch + (pInLimit - pIn))"
    and "pIn \<le> pInLimit" "pInLimit - pIn < 4294967296"
  shows "\<exists>n. LZ4_count a m pIn pMatch pInLimit = Some n \<and> 0 \<le> n \<and> pIn + n \<le> pInLimit \<and>
           (\<forall>i. 0 \<le> i \<longrightarrow> i < n \<longrightarrow> m (pIn + i) = m (pMatch + i)) \<and>
           (pIn + n = pInLimit \<or> m (pIn + n) \<noteq> m (pMatch + n))"
  using okD [OF LZ4_count_ok [OF assms, of a]] by (simp add: longest_common_def common_def)

lemma LZ4_count_longest_witness:
  "\<exists>n. LZ4_count \<lparr>little_endian = False, bits64 = True, sw_bitcount = True\<rparr>
          (buffer 0 [1, 2, 3, 4, 1, 2, 3, 5]) 4 0 8 = Some n \<and> n = 3"
proof -
  let ?m = "buffer 0 [1, 2, 3, 4, 1, 2, 3, 5]"
  have "mapped ?m 4 8" "mapped ?m 0 (0 + (8 - 4))" "(4 :: int) \<le> 8" "(8 :: int) - 4 < 4294967296"
    by (simp_all add: mapped_def buffer_def)
  from LZ4_count_longest [OF this, of "\<lparr>little_endian = False, bits64 = True, sw_bitcount = True\<rparr>"]
  obtain n where n: "LZ4_count \<lparr>little_endian = False, bits64 = True, sw_bitcount = True\<rparr> ?m 4 0 8 = Some n"
     "0 \<le> n" "4 + n \<le> 8" "\<forall>i. 0 \<le> i \<longrightarrow> i < n \<longrightarrow> ?m (4 + i) = ?m (0 + i)"
     "4 + n = 8 \<or> ?m (4 + n) \<noteq> ?m (0 + n)"
    by blast
  have "n \<noteq> 4" using n(4) [rule_format, of 3] by (auto simp: buffer_def)
  moreover have "n = 0 \<or> n = 1 \<or> n = 2 \<or> n = 3 \<or> n = 4" using n(2,3) by linarith
  ultimately have "n = 3" using n(5) by (auto simp: buffer_def eval_nat_numeral)
  with n(1) show ?thesis by simp
qed

end
