(* ===== verification/Lz4_Block.thy ===== *)
theory Lz4_Block
  imports C_Prelude
begin

text \<open>
  The LZ4 block format, as an abstract specification of what the compressors of
  \<^verbatim>\<open>src/src/lz4/lib/lz4.c\<close> and \<^verbatim>\<open>lz4hc.c\<close> write and what the
  decompressor reads: a block is a list of sequences (literals and a back-reference) followed
  by literals. \<open>expand\<close> gives the bytes a block stands for, \<open>encode\<close> its bytes on the
  wire, \<open>valid_block\<close> the restrictions every compressor keeps to and the decoder relies on.
\<close>

section \<open>Blocks\<close>

datatype seq = Seq (lits: "byte list") (off: nat) (mlen: nat)

text \<open>A back-reference repeats the byte \<open>off\<close> positions back, \<open>n\<close> times; it may overlap
  the bytes it produces.\<close>

fun copy_match :: "byte list \<Rightarrow> nat \<Rightarrow> nat \<Rightarrow> byte list" where
  "copy_match out D 0 = out"
| "copy_match out D (Suc n) = copy_match (out @ [out ! (length out - D)]) D n"

definition apply_seq :: "byte list \<Rightarrow> seq \<Rightarrow> byte list" where
  "apply_seq out s = copy_match (out @ lits s) (off s) (mlen s)"

definition apply_seqs :: "byte list \<Rightarrow> seq list \<Rightarrow> byte list" where
  "apply_seqs = foldl apply_seq"

text \<open>\<open>expand hist blk\<close>: the history followed by the decoded bytes.\<close>

definition expand :: "byte list \<Rightarrow> seq list \<times> byte list \<Rightarrow> byte list" where
  "expand hist blk = apply_seqs hist (fst blk) @ snd blk"

section \<open>Encoding\<close>

text \<open>A length field holds up to 14; from 15 on, the excess follows in bytes, 255 meaning that
  more follows.\<close>

function len_ext :: "nat \<Rightarrow> byte list" where
  "len_ext n = (if 255 \<le> n then 255 # len_ext (n - 255) else [of_nat n])"
  by pat_completeness auto
termination
  by (relation "measure id") auto

declare len_ext.simps [simp del]

definition enc_len :: "nat \<Rightarrow> byte list" where
  "enc_len n = (if 15 \<le> n then len_ext (n - 15) else [])"

definition token :: "nat \<Rightarrow> nat \<Rightarrow> byte" where
  "token ll ml = of_nat (16 * min ll 15 + min ml 15)"

definition enc_off :: "nat \<Rightarrow> byte list" where
  "enc_off D = [of_nat (D mod 256), of_nat (D div 256)]"

definition enc_seq :: "seq \<Rightarrow> byte list" where
  "enc_seq s = token (length (lits s)) (mlen s - 4) # enc_len (length (lits s)) @ lits s @
                enc_off (off s) @ enc_len (mlen s - 4)"

definition enc_last :: "byte list \<Rightarrow> byte list" where
  "enc_last l = token (length l) 0 # enc_len (length l) @ l"

definition enc_seqs :: "seq list \<Rightarrow> byte list" where
  "enc_seqs ss = concat (map enc_seq ss)"

definition encode :: "seq list \<times> byte list \<Rightarrow> byte list" where
  "encode blk = enc_seqs (fst blk) @ enc_last (snd blk)"

section \<open>Validity\<close>

text \<open>Every back-reference has at least four bytes and an offset of 1 to 65535 into what has been
  decoded (the history included).\<close>

definition valid_seq :: "nat \<Rightarrow> seq \<Rightarrow> bool" where
  "valid_seq pos s \<longleftrightarrow>
     4 \<le> mlen s \<and> 1 \<le> off s \<and> off s \<le> 65535 \<and> off s \<le> pos + length (lits s)"

fun valid_seqs :: "nat \<Rightarrow> seq list \<Rightarrow> bool" where
  "valid_seqs pos [] = True"
| "valid_seqs pos (s # ss) = (valid_seq pos s \<and> valid_seqs (pos + length (lits s) + mlen s) ss)"

text \<open>The parsing restrictions at the end of a block of \<open>n\<close> decoded bytes: a match starts at least
  12 bytes before the end, and the last five bytes are literals.\<close>

fun end_ok :: "nat \<Rightarrow> nat \<Rightarrow> seq list \<Rightarrow> bool" where
  "end_ok n pos [] = True"
| "end_ok n pos (s # ss) =
     (pos + length (lits s) + 12 \<le> n \<and> pos + length (lits s) + mlen s + 5 \<le> n \<and>
      end_ok n (pos + length (lits s) + mlen s) ss)"

definition seqs_size :: "seq list \<Rightarrow> nat" where
  "seqs_size ss = sum_list (map (\<lambda>s. length (lits s) + mlen s) ss)"

definition block_size :: "seq list \<times> byte list \<Rightarrow> nat" where
  "block_size blk = seqs_size (fst blk) + length (snd blk)"

definition valid_block :: "nat \<Rightarrow> seq list \<times> byte list \<Rightarrow> bool" where
  "valid_block hist blk \<longleftrightarrow> valid_seqs hist (fst blk) \<and> end_ok (block_size blk) 0 (fst blk)"

section \<open>Sizes\<close>

lemma length_copy_match [simp]: "length (copy_match out D n) = length out + n"
  by (induction out D n rule: copy_match.induct) auto

lemma length_apply_seq [simp]: "length (apply_seq out s) = length out + length (lits s) + mlen s"
  by (simp add: apply_seq_def)

lemma seqs_size_simps [simp]:
  "seqs_size [] = 0" "seqs_size (s # ss) = length (lits s) + mlen s + seqs_size ss"
  "seqs_size (ss @ ts) = seqs_size ss + seqs_size ts"
  by (simp_all add: seqs_size_def)

lemma apply_seqs_simps [simp]:
  "apply_seqs out [] = out" "apply_seqs out (s # ss) = apply_seqs (apply_seq out s) ss"
  "apply_seqs out (ss @ ts) = apply_seqs (apply_seqs out ss) ts"
  by (simp_all add: apply_seqs_def)

lemma length_apply_seqs [simp]: "length (apply_seqs out ss) = length out + seqs_size ss"
  by (induction ss arbitrary: out) auto

lemma length_expand [simp]: "length (expand hist blk) = length hist + block_size blk"
  by (simp add: expand_def block_size_def)

lemma enc_seqs_simps [simp]:
  "enc_seqs [] = []" "enc_seqs (s # ss) = enc_seq s @ enc_seqs ss"
  "enc_seqs (ss @ ts) = enc_seqs ss @ enc_seqs ts"
  by (simp_all add: enc_seqs_def)

lemma length_enc_off [simp]: "length (enc_off D) = 2"
  by (simp add: enc_off_def)

lemma length_len_ext: "length (len_ext n) = n div 255 + 1"
proof (induction n rule: len_ext.induct)
  case (1 n)
  then show ?case by (subst len_ext.simps) (auto simp: le_div_geq)
qed

lemma length_enc_len: "length (enc_len n) = (if 15 \<le> n then (n - 15) div 255 + 1 else 0)"
  by (simp add: enc_len_def length_len_ext)

text \<open>The excess of the encoding over the data it stands for: a sequence never expands by more than
  its literals' length field.\<close>

lemma length_enc_seq:
  "length (enc_seq s) = 3 + length (enc_len (length (lits s))) + length (lits s) + length (enc_len (mlen s - 4))"
  by (simp add: enc_seq_def)

lemma length_enc_last: "length (enc_last l) = 1 + length (enc_len (length l)) + length l"
  by (simp add: enc_last_def)

lemma copy_match_prefix: "\<exists>t. copy_match out D n = out @ t \<and> length t = n"
proof (induction out D n rule: copy_match.induct)
  case (2 out D n)
  then obtain t where "copy_match (out @ [out ! (length out - D)]) D n = (out @ [out ! (length out - D)]) @ t \<and> length t = n"
    by blast
  then show ?case by (auto intro!: exI [of _ "out ! (length out - D) # t"])
qed simp

lemma take_copy_match [simp]: "take (length out) (copy_match out D n) = out"
  using copy_match_prefix [of out D n] by auto

lemma copy_match_nth:
  assumes "1 \<le> D" "D \<le> length out" "i < length out + n"
  shows "copy_match out D n ! i = (if i < length out then out ! i else copy_match out D n ! (i - D))"
  using assms
proof (induction out D n arbitrary: i rule: copy_match.induct)
  case (2 out D n)
  let ?o = "out @ [out ! (length out - D)]"
  have IH: "copy_match ?o D n ! i = (if i < length ?o then ?o ! i else copy_match ?o D n ! (i - D))"
    using 2 by simp
  have "copy_match ?o D n ! (length out - D) = ?o ! (length out - D)"
    using 2 by (metis copy_match_prefix nth_append length_append_singleton diff_le_self le_imp_less_Suc)
  moreover have "?o ! (length out - D) = out ! (length out - D)"
    using 2 by (simp add: nth_append)
  ultimately show ?case using IH by (auto simp: nth_append not_less le_Suc_eq less_Suc_eq)
qed simp

text \<open>A list that extends \<open>out\<close> and repeats with distance \<open>D\<close> is the copied match.\<close>

lemma copy_match_unique:
  assumes "1 \<le> D" "D \<le> length out" "length ys = length out + n" "take (length out) ys = out"
    and "\<And>i. length out \<le> i \<Longrightarrow> i < length ys \<Longrightarrow> ys ! i = ys ! (i - D)"
  shows "ys = copy_match out D n"
proof (rule nth_equalityI)
  show "length ys = length (copy_match out D n)" using assms(3) by simp
  fix i assume "i < length ys"
  then show "ys ! i = copy_match out D n ! i"
  proof (induction i rule: less_induct)
    case (less i)
    show ?case
    proof (cases "i < length out")
      case True
      then show ?thesis using assms(4) by (metis nth_take take_copy_match)
    next
      case False
      then have "ys ! i = ys ! (i - D)" using assms(5) less.prems by simp
      also have "\<dots> = copy_match out D n ! (i - D)"
        using less.IH [of "i - D"] less.prems False assms(1,2) by simp
      also have "\<dots> = copy_match out D n ! i"
        using copy_match_nth [OF assms(1,2), of i n] less.prems False assms(3) by simp
      finally show ?thesis .
    qed
  qed
qed

lemma valid_seqs_append [simp]:
  "valid_seqs pos (ss @ ts) \<longleftrightarrow> valid_seqs pos ss \<and> valid_seqs (pos + seqs_size ss) ts"
  by (induction ss arbitrary: pos) (auto simp: add.assoc)

lemma end_ok_append [simp]:
  "end_ok n pos (ss @ ts) \<longleftrightarrow> end_ok n pos ss \<and> end_ok n (pos + seqs_size ss) ts"
  by (induction ss arbitrary: pos) (auto simp: add.assoc)

section \<open>The bytes of a block\<close>

text \<open>The bytes a block adds to a history.\<close>

definition decoded :: "byte list \<Rightarrow> seq list \<times> byte list \<Rightarrow> byte list" where
  "decoded hist blk = drop (length hist) (expand hist blk)"

lemma apply_seqs_prefix: "\<exists>t. apply_seqs out ss = out @ t"
proof (induction ss arbitrary: out)
  case (Cons s ss)
  obtain t where "apply_seq out s = out @ t"
    using copy_match_prefix [of "out @ lits s" "off s" "mlen s"] by (auto simp: apply_seq_def)
  moreover obtain u where "apply_seqs (apply_seq out s) ss = apply_seq out s @ u" using Cons.IH by blast
  ultimately show ?case by simp
qed simp

lemma expand_decoded: "expand hist blk = hist @ decoded hist blk"
  using apply_seqs_prefix [of hist "fst blk"] by (auto simp: expand_def decoded_def)

lemma length_decoded [simp]: "length (decoded hist blk) = block_size blk"
  by (simp add: decoded_def)

lemma decoded_Nil [simp]: "decoded [] blk = expand [] blk"
  by (simp add: decoded_def)

lemma encode_empty: "block_size blk = 0 \<Longrightarrow> valid_block n blk \<Longrightarrow> encode blk = [0]"
  by (cases blk; cases "fst blk") (auto simp: block_size_def valid_block_def encode_def enc_last_def enc_len_def token_def)

section \<open>Blocks with a longer history\<close>

lemma valid_seqs_mono: "valid_seqs n ss \<Longrightarrow> n \<le> n' \<Longrightarrow> valid_seqs n' ss"
proof (induction ss arbitrary: n n')
  case (Cons s ss)
  have "valid_seqs (n' + length (lits s) + mlen s) ss" by (rule Cons.IH [of "n + length (lits s) + mlen s"]) (use Cons.prems in auto)
  with Cons.prems show ?case by (auto simp: valid_seq_def)
qed simp

lemma copy_match_append:
  "1 \<le> D \<Longrightarrow> D \<le> length out \<Longrightarrow> copy_match (xs @ out) D n = xs @ copy_match out D n"
proof (induction n arbitrary: out)
  case (Suc n)
  have "(xs @ out) ! (length (xs @ out) - D) = out ! (length out - D)" 
  proof -
    have "length (xs @ out) - D = length xs + (length out - D)" using Suc.prems by simp
    then show ?thesis by (simp only: nth_append_length_plus)
  qed
  with Suc.IH [of "out @ [out ! (length out - D)]"] Suc.prems show ?case by simp
qed simp

lemma apply_seqs_append: "valid_seqs (length out) ss \<Longrightarrow> apply_seqs (xs @ out) ss = xs @ apply_seqs out ss"
proof (induction ss arbitrary: out)
  case (Cons s ss)
  have "apply_seq (xs @ out) s = xs @ apply_seq out s"
    using Cons.prems copy_match_append [of "off s" "out @ lits s" xs "mlen s"] by (simp add: apply_seq_def valid_seq_def)
  with Cons.IH [of "apply_seq out s"] Cons.prems show ?case by (simp add: add.assoc)
qed simp

text \<open>A block means the same after a longer history.\<close>

lemma valid_block_append:
  assumes "valid_block (length hist) blk"
  shows "valid_block (length (xs @ hist)) blk" "decoded (xs @ hist) blk = decoded hist blk"
  using assms valid_seqs_mono [of "length hist" "fst blk" "length (xs @ hist)"] apply_seqs_append [of hist "fst blk" xs]
  by (auto simp: valid_block_def decoded_def expand_def)

end
