(* ===== verification/Lz4_Decompress.thy ===== *)
theory Lz4_Decompress
  imports Lz4_Common Lz4_Block
begin

text \<open>
  The decompressor of \<^verbatim>\<open>src/src/lz4/lib/lz4.c\<close>: \<open>LZ4_decompress_generic\<close> with all
  its directives, the entry points that instantiate it, and the streaming decoder's state.

  The fixed local variables of \<open>LZ4_decompress_generic\<close> are a record; one iteration of its
  main loop is \<open>LZ4_decode_sequence\<close>, whose result says whether the loop goes on, is left, or
  jumps to \<^verbatim>\<open>_output_error\<close>. The sum of a pointer and a \<open>size_t\<close> length wraps at the
  width of the target (\<open>padd\<close>), which is what the code's overflow checks are about. The
  theorems: the safe entry points terminate and stay inside their buffers on every input, and
  decode every valid block to its expansion.
\<close>

section \<open>Directives and local variables\<close>

datatype dict_directive = noDict | withPrefix64k | usingExtDict
datatype endCondition_directive = endOnOutputSize | endOnInputSize
datatype earlyEnd_directive = full | partial

record dec_ctx =
  d_source :: addr
  d_dest :: addr
  d_iend :: addr
  d_oend :: addr
  d_oexit :: addr
  d_lowLimit :: addr
  d_lowPrefix :: addr
  d_dictEnd :: addr
  d_endOnInput :: bool
  d_partialDecoding :: bool
  d_dict :: dict_directive
  d_checkOffset :: bool

definition dec32table :: "int list" where
  "dec32table = [4, 1, 2, 1, 4, 4, 4, 4]"

text \<open>The entry \<open>(size_t)-1\<close> is subtracted from a pointer: it moves it one byte up.\<close>

definition dec64table :: "int list" where
  "dec64table = [0, 0, 0, - 1, 0, 1, 2, 3]"

text \<open>The sum of a pointer and a \<open>size_t\<close>.\<close>

definition padd :: "arch \<Rightarrow> addr \<Rightarrow> int \<Rightarrow> addr" where
  "padd a p n = (p + n) mod size_mod a"

datatype dec_outcome = Next mem addr addr | Stop mem addr addr | OutputError mem addr

section \<open>One sequence\<close>

text \<open>The loops that read a length's extension bytes. \<open>Inl\<close> is the jump to
  \<^verbatim>\<open>_output_error\<close> with the read position at that point.\<close>

partial_function (option) lit_length_loop ::
  "arch \<Rightarrow> dec_ctx \<Rightarrow> mem \<Rightarrow> addr \<Rightarrow> int \<Rightarrow> (addr \<times> int) option" where
  "lit_length_loop a c m ip len =
     do { s \<leftarrow> m ip;
          if (d_endOnInput c \<longrightarrow> ip + 1 < d_iend c - RUN_MASK) \<and> s = 255
          then lit_length_loop a c m (ip + 1) ((len + uint s) mod size_mod a)
          else Some (ip + 1, (len + uint s) mod size_mod a) }"

definition get_lit_length ::
  "arch \<Rightarrow> dec_ctx \<Rightarrow> mem \<Rightarrow> byte \<Rightarrow> addr \<Rightarrow> addr \<Rightarrow> (addr + addr \<times> int) option" where
  "get_lit_length a c m tok ip op =
     (let len = uint (drop_bit 4 tok) in
      if len = RUN_MASK
      then do { (ip, len) \<leftarrow> lit_length_loop a c m ip len;
                if d_endOnInput c \<and> padd a op len < op then Some (Inl ip)
                else if d_endOnInput c \<and> padd a ip len < ip then Some (Inl ip)
                else Some (Inr (ip, len)) }
      else Some (Inr (ip, len)))"

partial_function (option) match_length_loop ::
  "arch \<Rightarrow> dec_ctx \<Rightarrow> mem \<Rightarrow> addr \<Rightarrow> int \<Rightarrow> (addr + addr \<times> int) option" where
  "match_length_loop a c m ip len =
     (if d_endOnInput c \<and> ip > d_iend c - LASTLITERALS then Some (Inl ip)
      else do { s \<leftarrow> m ip;
                if s = 255 then match_length_loop a c m (ip + 1) ((len + uint s) mod size_mod a)
                else Some (Inr (ip + 1, (len + uint s) mod size_mod a)) })"

definition get_match_length ::
  "arch \<Rightarrow> dec_ctx \<Rightarrow> mem \<Rightarrow> byte \<Rightarrow> addr \<Rightarrow> addr \<Rightarrow> (addr + addr \<times> int) option" where
  "get_match_length a c m tok ip op =
     (let len = uint (tok AND 15) in
      if len = ML_MASK
      then do { r \<leftarrow> match_length_loop a c m ip len;
                case r of
                  Inl ip \<Rightarrow> Some (Inl ip)
                | Inr (ip, len) \<Rightarrow>
                    if d_endOnInput c \<and> padd a op len < op then Some (Inl ip)
                    else Some (Inr (ip, (len + MINMATCH) mod size_mod a)) }
      else Some (Inr (ip, (len + MINMATCH) mod size_mod a)))"

text \<open>\<open>while (op < endOfMatch) *op++ = *copyFrom++\<close>.\<close>

function byte_copy :: "mem \<Rightarrow> addr \<Rightarrow> addr \<Rightarrow> addr \<Rightarrow> mem option" where
  "byte_copy m op from endp =
     (if op < endp
      then do { b \<leftarrow> m from; m \<leftarrow> store8 m op b; byte_copy m (op + 1) (from + 1) endp }
      else Some m)"
  by pat_completeness auto
termination
  by (relation "measure (\<lambda>(m, op, from, endp). nat (endp - op))") auto

declare byte_copy.simps [simp del]

definition ext_dict_copy ::
  "arch \<Rightarrow> dec_ctx \<Rightarrow> mem \<Rightarrow> addr \<Rightarrow> addr \<Rightarrow> addr \<Rightarrow> int \<Rightarrow> dec_outcome option" where
  "ext_dict_copy a c m ip op mtch len =
     (if padd a op len > d_oend c - LASTLITERALS then Some (OutputError m ip)
      else if len \<le> d_lowPrefix c - mtch
      then do { m \<leftarrow> memcpy m op (d_dictEnd c - (d_lowPrefix c - mtch)) (nat len);
                Some (Next m ip (op + len)) }
      else (let copySize = d_lowPrefix c - mtch in
            do { m \<leftarrow> memcpy m op (d_dictEnd c - copySize) (nat copySize);
                 let op = op + copySize;
                 let copySize = len - copySize;
                 if copySize > op - d_lowPrefix c
                 then do { m \<leftarrow> byte_copy m op (d_lowPrefix c) (op + copySize);
                           Some (Next m ip (op + copySize)) }
                 else do { m \<leftarrow> memcpy m op (d_lowPrefix c) (nat copySize);
                           Some (Next m ip (op + copySize)) } }))"

text \<open>The first eight bytes of a match: when the match is closer than eight bytes, four single bytes
  and a four-byte copy whose tables move \<open>match\<close> so that the distance to \<open>op\<close> is at
  least eight from then on.\<close>

definition match_first8 :: "mem \<Rightarrow> addr \<Rightarrow> addr \<Rightarrow> (mem \<times> addr \<times> addr) option" where
  "match_first8 m op mtch =
     (if op - mtch < 8
      then (let dec64 = dec64table ! nat (op - mtch) in
            do { b \<leftarrow> m mtch; m \<leftarrow> store8 m op b;
                 b \<leftarrow> m (mtch + 1); m \<leftarrow> store8 m (op + 1) b;
                 b \<leftarrow> m (mtch + 2); m \<leftarrow> store8 m (op + 2) b;
                 b \<leftarrow> m (mtch + 3); m \<leftarrow> store8 m (op + 3) b;
                 let mtch = mtch + dec32table ! nat (op - mtch);
                 m \<leftarrow> LZ4_copy4 m (op + 4) mtch;
                 Some (m, op + 8, mtch - dec64) })
      else do { m \<leftarrow> LZ4_copy8 m op mtch; Some (m, op + 8, mtch + 8) })"

definition copy_repeated ::
  "arch \<Rightarrow> dec_ctx \<Rightarrow> mem \<Rightarrow> addr \<Rightarrow> addr \<Rightarrow> addr \<Rightarrow> int \<Rightarrow> dec_outcome option" where
  "copy_repeated a c m ip op mtch len =
     (let cpy = padd a op len in
      do { (m, op, mtch) \<leftarrow> match_first8 m op mtch;
           if cpy > d_oend c - 12
           then if cpy > d_oend c - LASTLITERALS then Some (OutputError m ip)
                else do { (m, op, mtch) \<leftarrow>
                            (if op < d_oend c - 8
                             then do { m \<leftarrow> LZ4_wildCopy m op mtch (d_oend c - 8);
                                       Some (m, d_oend c - 8, mtch + (d_oend c - 8 - op)) }
                             else Some (m, op, mtch));
                          m \<leftarrow> byte_copy m op mtch cpy;
                          Some (Next m ip cpy) }
           else do { m \<leftarrow> LZ4_wildCopy m op mtch cpy; Some (Next m ip cpy) } })"

definition decode_match ::
  "arch \<Rightarrow> dec_ctx \<Rightarrow> byte \<Rightarrow> mem \<Rightarrow> addr \<Rightarrow> addr \<Rightarrow> dec_outcome option" where
  "decode_match a c tok m ip op =
     do { d \<leftarrow> LZ4_readLE16 a m ip;
          let mtch = op - uint d;
          let ip = ip + 2;
          if d_checkOffset c \<and> mtch < d_lowLimit c then Some (OutputError m ip)
          else do { r \<leftarrow> get_match_length a c m tok ip op;
                    case r of
                      Inl ip \<Rightarrow> Some (OutputError m ip)
                    | Inr (ip, len) \<Rightarrow>
                        if d_dict c = usingExtDict \<and> mtch < d_lowPrefix c
                        then ext_dict_copy a c m ip op mtch len
                        else copy_repeated a c m ip op mtch len } }"

definition last_literals ::
  "arch \<Rightarrow> dec_ctx \<Rightarrow> mem \<Rightarrow> addr \<Rightarrow> addr \<Rightarrow> int \<Rightarrow> dec_outcome option" where
  "last_literals a c m ip op len =
     (let cpy = padd a op len; ipl = padd a ip len in
      if (if d_partialDecoding c
          then cpy > d_oend c \<or> d_endOnInput c \<and> ipl > d_iend c
          else \<not> d_endOnInput c \<and> cpy \<noteq> d_oend c \<or>
               d_endOnInput c \<and> (ipl \<noteq> d_iend c \<or> cpy > d_oend c))
      then Some (OutputError m ip)
      else do { m \<leftarrow> memcpy m op ip (nat len); Some (Stop m ipl cpy) })"

definition LZ4_decode_sequence ::
  "arch \<Rightarrow> dec_ctx \<Rightarrow> mem \<Rightarrow> addr \<Rightarrow> addr \<Rightarrow> dec_outcome option" where
  "LZ4_decode_sequence a c m ip op =
     do { tok \<leftarrow> m ip;
          r \<leftarrow> get_lit_length a c m tok (ip + 1) op;
          case r of
            Inl ip \<Rightarrow> Some (OutputError m ip)
          | Inr (ip, len) \<Rightarrow>
              let cpy = padd a op len; ipl = padd a ip len in
              if d_endOnInput c \<and>
                   (cpy > (if d_partialDecoding c then d_oexit c else d_oend c - MFLIMIT) \<or>
                    ipl > d_iend c - (2 + 1 + LASTLITERALS)) \<or>
                 \<not> d_endOnInput c \<and> cpy > d_oend c - COPYLENGTH
              then last_literals a c m ip op len
              else do { m \<leftarrow> LZ4_wildCopy m op ip cpy;
                        decode_match a c tok m ipl cpy } }"

section \<open>The main loop\<close>

partial_function (option) LZ4_decode_loop ::
  "arch \<Rightarrow> dec_ctx \<Rightarrow> mem \<Rightarrow> addr \<Rightarrow> addr \<Rightarrow> (int \<times> mem) option" where
  "LZ4_decode_loop a c m ip op =
     do { r \<leftarrow> LZ4_decode_sequence a c m ip op;
          case r of
            Next m ip op \<Rightarrow> LZ4_decode_loop a c m ip op
          | Stop m ip op \<Rightarrow>
              Some (if d_endOnInput c then int32 (op - d_dest c) else int32 (ip - d_source c), m)
          | OutputError m ip \<Rightarrow> Some (int32 (- (ip - d_source c)) - 1, m) }"

definition LZ4_decompress_ctx ::
  "arch \<Rightarrow> addr \<Rightarrow> addr \<Rightarrow> int \<Rightarrow> int \<Rightarrow> endCondition_directive \<Rightarrow> earlyEnd_directive \<Rightarrow> int \<Rightarrow>
   dict_directive \<Rightarrow> addr \<Rightarrow> addr \<Rightarrow> int \<Rightarrow> dec_ctx" where
  "LZ4_decompress_ctx a src dst inputSize outputSize endOnInput partialDecoding targetOutputSize
      dict lowPrefix dictStart dictSize =
     (let oend = dst + outputSize;
          oexit = dst + targetOutputSize
      in \<lparr>d_source = src, d_dest = dst, d_iend = src + inputSize, d_oend = oend,
          d_oexit = (if partialDecoding = partial \<and> oexit > oend - MFLIMIT then oend - MFLIMIT else oexit),
          d_lowLimit = lowPrefix - dictSize, d_lowPrefix = lowPrefix, d_dictEnd = dictStart + dictSize,
          d_endOnInput = (endOnInput = endOnInputSize), d_partialDecoding = (partialDecoding = partial),
          d_dict = dict, d_checkOffset = (endOnInput = endOnInputSize \<and> dictSize < 64 * KB)\<rparr>)"

definition LZ4_decompress_generic ::
  "arch \<Rightarrow> mem \<Rightarrow> addr \<Rightarrow> addr \<Rightarrow> int \<Rightarrow> int \<Rightarrow> endCondition_directive \<Rightarrow> earlyEnd_directive \<Rightarrow> int \<Rightarrow>
   dict_directive \<Rightarrow> addr \<Rightarrow> addr \<Rightarrow> int \<Rightarrow> (int \<times> mem) option" where
  "LZ4_decompress_generic a m src dst inputSize outputSize endOnInput partialDecoding targetOutputSize
      dict lowPrefix dictStart dictSize =
     (if endOnInput = endOnInputSize \<and> outputSize = 0
      then (if inputSize = 1
            then do { b \<leftarrow> m src; Some (if b = 0 then 0 else - 1, m) }
            else Some (- 1, m))
      else if endOnInput = endOnOutputSize \<and> outputSize = 0
      then do { b \<leftarrow> m src; Some (if b = 0 then 1 else - 1, m) }
      else LZ4_decode_loop a
             (LZ4_decompress_ctx a src dst inputSize outputSize endOnInput partialDecoding
                targetOutputSize dict lowPrefix dictStart dictSize) m src dst)"

declare lit_length_loop.simps [code] match_length_loop.simps [code] LZ4_decode_loop.simps [code]

section \<open>Entry points\<close>

definition LZ4_decompress_safe :: "arch \<Rightarrow> mem \<Rightarrow> addr \<Rightarrow> addr \<Rightarrow> int \<Rightarrow> int \<Rightarrow> (int \<times> mem) option" where
  "LZ4_decompress_safe a m src dst compressedSize maxDecompressedSize =
     LZ4_decompress_generic a m src dst compressedSize maxDecompressedSize endOnInputSize full 0 noDict dst 0 0"

definition LZ4_decompress_safe_partial ::
  "arch \<Rightarrow> mem \<Rightarrow> addr \<Rightarrow> addr \<Rightarrow> int \<Rightarrow> int \<Rightarrow> int \<Rightarrow> (int \<times> mem) option" where
  "LZ4_decompress_safe_partial a m src dst compressedSize targetOutputSize maxDecompressedSize =
     LZ4_decompress_generic a m src dst compressedSize maxDecompressedSize endOnInputSize partial
       targetOutputSize noDict dst 0 0"

definition LZ4_decompress_fast :: "arch \<Rightarrow> mem \<Rightarrow> addr \<Rightarrow> addr \<Rightarrow> int \<Rightarrow> (int \<times> mem) option" where
  "LZ4_decompress_fast a m src dst originalSize =
     LZ4_decompress_generic a m src dst 0 originalSize endOnOutputSize full 0 withPrefix64k
       (dst - 64 * KB) 0 (64 * KB)"

text \<open>Streaming: the state is where the last decoded data and the dictionary before it lie.\<close>

record LZ4_streamDecode_t_internal =
  externalDict :: addr
  extDictSize :: int
  prefixEnd :: addr
  prefixSize :: int

definition LZ4_setStreamDecode ::
  "LZ4_streamDecode_t_internal \<Rightarrow> addr \<Rightarrow> int \<Rightarrow> int \<times> LZ4_streamDecode_t_internal" where
  "LZ4_setStreamDecode lz4sd dictionary dictSize =
     (1, lz4sd\<lparr>prefixSize := dictSize, prefixEnd := dictionary + dictSize,
               externalDict := 0, extDictSize := 0\<rparr>)"

definition LZ4_decompress_safe_continue ::
  "arch \<Rightarrow> mem \<Rightarrow> LZ4_streamDecode_t_internal \<Rightarrow> addr \<Rightarrow> addr \<Rightarrow> int \<Rightarrow> int \<Rightarrow>
   (int \<times> mem \<times> LZ4_streamDecode_t_internal) option" where
  "LZ4_decompress_safe_continue a m lz4sd src dst compressedSize maxOutputSize =
     (if prefixEnd lz4sd = dst
      then do { (result, m) \<leftarrow>
                  LZ4_decompress_generic a m src dst compressedSize maxOutputSize endOnInputSize full 0
                    usingExtDict (prefixEnd lz4sd - prefixSize lz4sd) (externalDict lz4sd) (extDictSize lz4sd);
                if result \<le> 0 then Some (result, m, lz4sd)
                else Some (result, m, lz4sd\<lparr>prefixSize := prefixSize lz4sd + result,
                                            prefixEnd := prefixEnd lz4sd + result\<rparr>) }
      else (let lz4sd = lz4sd\<lparr>extDictSize := prefixSize lz4sd,
                              externalDict := prefixEnd lz4sd - prefixSize lz4sd\<rparr> in
            do { (result, m) \<leftarrow>
                   LZ4_decompress_generic a m src dst compressedSize maxOutputSize endOnInputSize full 0
                     usingExtDict dst (externalDict lz4sd) (extDictSize lz4sd);
                 if result \<le> 0 then Some (result, m, lz4sd)
                 else Some (result, m, lz4sd\<lparr>prefixSize := result, prefixEnd := dst + result\<rparr>) }))"

definition LZ4_decompress_fast_continue ::
  "arch \<Rightarrow> mem \<Rightarrow> LZ4_streamDecode_t_internal \<Rightarrow> addr \<Rightarrow> addr \<Rightarrow> int \<Rightarrow>
   (int \<times> mem \<times> LZ4_streamDecode_t_internal) option" where
  "LZ4_decompress_fast_continue a m lz4sd src dst originalSize =
     (if prefixEnd lz4sd = dst
      then do { (result, m) \<leftarrow>
                  LZ4_decompress_generic a m src dst 0 originalSize endOnOutputSize full 0
                    usingExtDict (prefixEnd lz4sd - prefixSize lz4sd) (externalDict lz4sd) (extDictSize lz4sd);
                if result \<le> 0 then Some (result, m, lz4sd)
                else Some (result, m, lz4sd\<lparr>prefixSize := prefixSize lz4sd + originalSize,
                                            prefixEnd := prefixEnd lz4sd + originalSize\<rparr>) }
      else (let lz4sd = lz4sd\<lparr>extDictSize := prefixSize lz4sd,
                              externalDict := dst - prefixSize lz4sd\<rparr> in
            do { (result, m) \<leftarrow>
                   LZ4_decompress_generic a m src dst 0 originalSize endOnOutputSize full 0
                     usingExtDict dst (externalDict lz4sd) (extDictSize lz4sd);
                 if result \<le> 0 then Some (result, m, lz4sd)
                 else Some (result, m, lz4sd\<lparr>prefixSize := originalSize, prefixEnd := dst + originalSize\<rparr>) }))"

definition LZ4_decompress_usingDict_generic ::
  "arch \<Rightarrow> mem \<Rightarrow> addr \<Rightarrow> addr \<Rightarrow> int \<Rightarrow> int \<Rightarrow> endCondition_directive \<Rightarrow> addr \<Rightarrow> int \<Rightarrow> (int \<times> mem) option" where
  "LZ4_decompress_usingDict_generic a m src dst compressedSize maxOutputSize safe dictStart dictSize =
     (if dictSize = 0
      then LZ4_decompress_generic a m src dst compressedSize maxOutputSize safe full 0 noDict dst 0 0
      else if dictStart + dictSize = dst
      then (if dictSize \<ge> 64 * KB - 1
            then LZ4_decompress_generic a m src dst compressedSize maxOutputSize safe full 0
                   withPrefix64k (dst - 64 * KB) 0 0
            else LZ4_decompress_generic a m src dst compressedSize maxOutputSize safe full 0
                   noDict (dst - dictSize) 0 0)
      else LZ4_decompress_generic a m src dst compressedSize maxOutputSize safe full 0
             usingExtDict dst dictStart dictSize)"

definition LZ4_decompress_safe_usingDict ::
  "arch \<Rightarrow> mem \<Rightarrow> addr \<Rightarrow> addr \<Rightarrow> int \<Rightarrow> int \<Rightarrow> addr \<Rightarrow> int \<Rightarrow> (int \<times> mem) option" where
  "LZ4_decompress_safe_usingDict a m src dst compressedSize maxOutputSize dictStart dictSize =
     LZ4_decompress_usingDict_generic a m src dst compressedSize maxOutputSize endOnInputSize dictStart dictSize"

definition LZ4_decompress_fast_usingDict ::
  "arch \<Rightarrow> mem \<Rightarrow> addr \<Rightarrow> addr \<Rightarrow> int \<Rightarrow> addr \<Rightarrow> int \<Rightarrow> (int \<times> mem) option" where
  "LZ4_decompress_fast_usingDict a m src dst originalSize dictStart dictSize =
     LZ4_decompress_usingDict_generic a m src dst 0 originalSize endOnOutputSize dictStart dictSize"

definition LZ4_decompress_safe_forceExtDict ::
  "arch \<Rightarrow> mem \<Rightarrow> addr \<Rightarrow> addr \<Rightarrow> int \<Rightarrow> int \<Rightarrow> addr \<Rightarrow> int \<Rightarrow> (int \<times> mem) option" where
  "LZ4_decompress_safe_forceExtDict a m src dst compressedSize maxOutputSize dictStart dictSize =
     LZ4_decompress_generic a m src dst compressedSize maxOutputSize endOnInputSize full 0
       usingExtDict dst dictStart dictSize"

definition LZ4_uncompress :: "arch \<Rightarrow> mem \<Rightarrow> addr \<Rightarrow> addr \<Rightarrow> int \<Rightarrow> (int \<times> mem) option" where
  "LZ4_uncompress a m src dst outputSize = LZ4_decompress_fast a m src dst outputSize"

definition LZ4_uncompress_unknownOutputSize ::
  "arch \<Rightarrow> mem \<Rightarrow> addr \<Rightarrow> addr \<Rightarrow> int \<Rightarrow> int \<Rightarrow> (int \<times> mem) option" where
  "LZ4_uncompress_unknownOutputSize a m src dst isize maxOutputSize =
     LZ4_decompress_safe a m src dst isize maxOutputSize"

definition LZ4_decompress_safe_withPrefix64k ::
  "arch \<Rightarrow> mem \<Rightarrow> addr \<Rightarrow> addr \<Rightarrow> int \<Rightarrow> int \<Rightarrow> (int \<times> mem) option" where
  "LZ4_decompress_safe_withPrefix64k a m src dst compressedSize maxOutputSize =
     LZ4_decompress_generic a m src dst compressedSize maxOutputSize endOnInputSize full 0
       withPrefix64k (dst - 64 * KB) 0 (64 * KB)"

definition LZ4_decompress_fast_withPrefix64k ::
  "arch \<Rightarrow> mem \<Rightarrow> addr \<Rightarrow> addr \<Rightarrow> int \<Rightarrow> (int \<times> mem) option" where
  "LZ4_decompress_fast_withPrefix64k a m src dst originalSize =
     LZ4_decompress_generic a m src dst 0 originalSize endOnOutputSize full 0
       withPrefix64k (dst - 64 * KB) 0 (64 * KB)"

section \<open>Copying a match\<close>

lemma copied_empty: "hi \<le> lo \<Longrightarrow> copied m D lo hi"
  by (simp add: copied_def)

lemma copied_append: "copied m D lo mid \<Longrightarrow> copied m D mid hi \<Longrightarrow> copied m D lo hi"
  unfolding copied_def by (meson not_le)

lemma copied_mono: "copied m D lo hi \<Longrightarrow> lo \<le> lo' \<Longrightarrow> hi' \<le> hi \<Longrightarrow> copied m D lo' hi'"
  by (simp add: copied_def)

lemma copied_frame:
  assumes "frame m m' l h" "copied m D lo hi" "hi \<le> l" "0 \<le> D"
  shows "copied m' D lo hi"
  using assms by (auto simp: copied_def frame_def)

text \<open>Copying from a multiple of the distance continues the repetition.\<close>

lemma copied_multiple:
  assumes c: "copied m D lo mid" and k: "copied m (D * int k) mid hi"
    and "1 \<le> D" "1 \<le> k" "lo - D \<le> mid - D * int k"
  shows "copied m D lo hi"
proof -
  have "copied m D lo (mid + int n)" if "mid + int n \<le> hi" for n
    using that
  proof (induction n)
    case 0
    then show ?case using c by simp
  next
    case (Suc n)
    then have IH: "copied m D lo (mid + int n)" by simp
    let ?x = "mid + int n"
    have down: "m (?x - D * int j) = m (?x - D)" if "1 \<le> j" "j \<le> k" for j
      using that
    proof (induction j rule: nat_induct_at_least)
      case (Suc j)
      have "D * int j \<le> D * (int k - 1)" using Suc.prems assms(3) by (intro mult_left_mono) auto
      moreover have "0 < D * int j" using Suc.hyps assms(3) by simp
      ultimately have "lo \<le> ?x - D * int j" "?x - D * int j < mid + int n"
        using assms(5) by (auto simp: algebra_simps)
      then have "m (?x - D * int j) = m (?x - D * int j - D)" using IH by (simp add: copied_def)
      with Suc show ?case by (simp add: algebra_simps)
    qed simp
    have "m ?x = m (?x - D * int k)" using k Suc.prems by (simp add: copied_def)
    also have "\<dots> = m (?x - D)" using down [of k] assms(4) by simp
    finally have "copied m D ?x (?x + 1)" by (auto simp: copied_def)
    from copied_append [OF IH this] show ?case by (simp add: algebra_simps)
  qed
  from this [of "nat (hi - mid)"] show ?thesis
    by (cases "mid \<le> hi") (auto intro: copied_mono [OF c])
qed

lemma byte_copy_ok:
  assumes "mapped m from (from + (endp - op))" "mapped m op endp"
  shows "ok (\<lambda>m'. frame m m' op endp \<and> (1 \<le> op - from \<longrightarrow> copied m' (op - from) op endp))
           (byte_copy m op from endp)"
  using assms
proof (induction m op "from" endp rule: byte_copy.induct)
  case (1 m op "from" endp)
  show ?case
  proof (cases "op < endp")
    case False
    then show ?thesis by (subst byte_copy.simps) (simp add: copied_empty)
  next
    case True
    obtain b where b: "m from = Some b" using mappedD [OF "1.prems"(1), of "from"] True by auto
    have mo: "m op \<noteq> None" using "1.prems"(2) True by (simp add: mapped_def)
    let ?m = "m(op \<mapsto> b)"
    have st: "store8 m op b = Some ?m" by (rule store8_ok [of m op, OF mo])
    have f: "frame m ?m op (op + 1)" using mo by (auto simp: frame_def)
    have "mapped ?m (from + 1) (from + 1 + (endp - (op + 1)))" "mapped ?m (op + 1) endp"
      using "1.prems" by (auto simp: frame_mapped [OF f] elim: mapped_mono)
    from "1.IH" [OF True b st this]
    have "ok (\<lambda>m'. frame m m' op endp \<and> (1 \<le> op - from \<longrightarrow> copied m' (op - from) op endp))
           (byte_copy ?m (op + 1) (from + 1) endp)"
    proof (rule ok_mono, intro conjI impI)
      fix m' assume m': "frame ?m m' (op + 1) endp \<and>
        (1 \<le> op + 1 - (from + 1) \<longrightarrow> copied m' (op + 1 - (from + 1)) (op + 1) endp)"
      show "frame m m' op endp"
        using True f m' by (intro frame_trans [OF frame_mono [OF f] frame_mono [of ?m m' "op + 1" endp]]) auto
      assume D: "1 \<le> op - from"
      have "m' op = Some b" using frame_eq [of ?m m' "op + 1" endp op] m' by simp
      moreover have "m' from = Some b" using frame_eq [of ?m m' "op + 1" endp "from"] m' D b by simp
      ultimately have "copied m' (op - from) op (op + 1)" by (auto simp: copied_def)
      from copied_append [OF this] m' D show "copied m' (op - from) op endp" by simp
    qed
    then show ?thesis using True b st by (subst byte_copy.simps) simp
  qed
qed

text \<open>The first eight bytes leave the repetition with a multiple of the distance that is at least
  eight (an offset of zero, which no compressor emits, leaves four).\<close>

lemma small_cases:
  assumes "0 \<le> (d :: int)" "d < 8"
  shows "d = 0 \<or> d = 1 \<or> d = 2 \<or> d = 3 \<or> d = 4 \<or> d = 5 \<or> d = 6 \<or> d = 7"
  using assms by linarith

lemma four_bytes_ok:
  assumes "mapped m p (p + 4)" "mapped m op (op + 4)"
  shows "ok (\<lambda>m'. frame m m' op (op + 4) \<and> (1 \<le> op - p \<longrightarrow> copied m' (op - p) op (op + 4)))
    (do { b \<leftarrow> m p; m \<leftarrow> store8 m op b;
          b \<leftarrow> m (p + 1); m \<leftarrow> store8 m (op + 1) b;
          b \<leftarrow> m (p + 2); m \<leftarrow> store8 m (op + 2) b;
          b \<leftarrow> m (p + 3); m \<leftarrow> store8 m (op + 3) b; Some m })"
proof -
  have "ok (\<lambda>m'. frame m m' op (op + 4) \<and> (1 \<le> op - p \<longrightarrow> copied m' (op - p) op (op + 4)))
      (byte_copy m op p (op + 4))"
    using assms by (intro byte_copy_ok) auto
  then show ?thesis
    by (simp add: byte_copy.simps [of _ "op + 3"] byte_copy.simps [of _ "op + 2"]
        byte_copy.simps [of _ "op + 4"] byte_copy.simps [of _ "op + 1"] byte_copy.simps [of _ op] add.commute [of 2] add.commute [of 3] add.commute [of 4])
qed


lemma match_first8_ok:
  assumes D: "0 \<le> op - mtch" and mp: "mapped m mtch (op + 8)"
  shows "ok (\<lambda>(m', op', mtch'). frame m m' op (op + 8) \<and> op' = op + 8 \<and> mtch \<le> mtch' \<and> mtch' \<le> op + 4 \<and>
             (1 \<le> op - mtch \<longrightarrow> copied m' (op - mtch) op (op + 8) \<and>
                (\<exists>k. 1 \<le> k \<and> op' - mtch' = (op - mtch) * int k \<and> 8 \<le> op' - mtch')))
           (match_first8 m op mtch)"
proof (cases "op - mtch < 8")
  case False
  have ms: "mapped m mtch (mtch + int 8)" "mapped m op (op + int 8)"
    using assms by (auto elim: mapped_mono)
  obtain m1 where m1: "memcpy m op mtch 8 = Some m1" "frame m m1 op (op + 8)"
      "\<And>x. op \<le> x \<Longrightarrow> x < op + 8 \<Longrightarrow> m1 x = m (x - op + mtch)"
    using okD [OF memcpy_ok [OF ms]] by auto
  have "copied m1 (op - mtch) op (op + 8)"
    unfolding copied_def
  proof (intro allI impI)
    fix x assume x: "op \<le> x" "x < op + 8"
    have "m1 (x - (op - mtch)) = m (x - (op - mtch))" using False x by (intro frame_eq [OF m1(2)]) auto
    with m1(3) [OF x] show "m1 x = m1 (x - (op - mtch))" by (simp add: algebra_simps)
  qed
  then show ?thesis
    using False m1(1,2) by (auto simp: match_first8_def LZ4_copy8_def intro!: exI [of _ 1])
next
  case True
  let ?D = "op - mtch"
  have ms: "mapped m mtch (mtch + 4)" "mapped m op (op + 4)"
    using assms by (auto elim: mapped_mono)
  let ?four = "do { b \<leftarrow> m mtch; m \<leftarrow> store8 m op b;
          b \<leftarrow> m (mtch + 1); m \<leftarrow> store8 m (op + 1) b;
          b \<leftarrow> m (mtch + 2); m \<leftarrow> store8 m (op + 2) b;
          b \<leftarrow> m (mtch + 3); m \<leftarrow> store8 m (op + 3) b; Some m }"
  let ?m2 = "mtch + dec32table ! nat ?D"
  have unf: "match_first8 m op mtch =
     do { m \<leftarrow> ?four; m \<leftarrow> LZ4_copy4 m (op + 4) ?m2; Some (m, op + 8, ?m2 - dec64table ! nat ?D) }"
    using True by (simp add: match_first8_def Let_def)
  obtain m1 where m1: "?four = Some m1" "frame m m1 op (op + 4)" "1 \<le> ?D \<longrightarrow> copied m1 ?D op (op + 4)"
    using okD [OF four_bytes_ok [OF ms]] by blast
  have tab: "?D = 0 \<and> ?m2 = mtch + 4 \<and> dec64table ! nat ?D = 0 \<or>
     (\<exists>j k. 1 \<le> ?D \<and> 1 \<le> j \<and> 1 \<le> k \<and> op + 4 - ?m2 = ?D * int j \<and> 4 \<le> ?D * int j \<and> ?D * int j \<le> ?D + 4 \<and>
       op + 8 - (?m2 - dec64table ! nat ?D) = ?D * int k \<and> 8 \<le> ?D * int k \<and> ?D * int k \<le> ?D + 8)"
  proof -
    have "?D = 0 \<or> ?D = 1 \<or> ?D = 2 \<or> ?D = 3 \<or> ?D = 4 \<or> ?D = 5 \<or> ?D = 6 \<or> ?D = 7"
      using D True by linarith
    moreover have "?m2 = op - ?D + dec32table ! nat ?D" by simp
    ultimately show ?thesis
      by (elim disjE; simp only: )
         (force simp: dec32table_def dec64table_def eval_nat_numeral intro: exI [of _ 4] exI [of _ 2] exI [of _ 1]
            exI [of _ 8] exI [of _ 3])+
  qed
  from tab show ?thesis
  proof (elim disjE exE conjE)
    assume z: "?D = 0" "?m2 = mtch + 4" "dec64table ! nat ?D = 0"
    have "mapped m1 ?m2 (?m2 + int 4)" "mapped m1 (op + 4) (op + 4 + int 4)"
      using mp z by (auto simp: frame_mapped [OF m1(2)] elim: mapped_mono)
    from okD [OF memcpy_ok [OF this]] obtain m2 where
      m2: "memcpy m1 (op + 4) ?m2 4 = Some m2" "frame m1 m2 (op + 4) (op + 8)" by (auto simp: add.commute [of 8])
    have "frame m m2 op (op + 8)"
      using m1(2) m2(2) by (auto intro!: frame_trans [OF frame_mono [OF m1(2)] frame_mono [OF m2(2)]])
    moreover have "match_first8 m op mtch = Some (m2, op + 8, ?m2 - dec64table ! nat ?D)"
      unfolding unf m1(1) by (simp add: LZ4_copy4_def m2(1))
    ultimately show ?thesis using z by simp
  next
    fix j k :: nat
    assume t: "1 \<le> ?D" "1 \<le> j" "1 \<le> k" "op + 4 - ?m2 = ?D * int j" "4 \<le> ?D * int j" "?D * int j \<le> ?D + 4"
       "op + 8 - (?m2 - dec64table ! nat ?D) = ?D * int k" "8 \<le> ?D * int k" "?D * int k \<le> ?D + 8"
    have "mapped m1 ?m2 (?m2 + int 4)" "mapped m1 (op + 4) (op + 4 + int 4)"
      using mp t by (auto simp: frame_mapped [OF m1(2)] elim!: mapped_mono)
    from okD [OF memcpy_ok [OF this]] obtain m2 where
      m2: "memcpy m1 (op + 4) ?m2 4 = Some m2" "frame m1 m2 (op + 4) (op + 8)"
        "\<And>x. op + 4 \<le> x \<Longrightarrow> x < op + 8 \<Longrightarrow> m2 x = m1 (x - (op + 4) + ?m2)" by (auto simp: add.commute [of 8])
    have f: "frame m m2 op (op + 8)"
      using m1(2) m2(2) by (auto intro!: frame_trans [OF frame_mono [OF m1(2)] frame_mono [OF m2(2)]])
    have c1: "copied m2 ?D op (op + 4)"
      using m1(3) t by (intro copied_frame [OF m2(2)]) auto
    have "m2 x = m2 (x - ?D * int j)" if "op + 4 \<le> x" "x < op + 8" for x
    proof -
      have e: "x - (op + 4) + ?m2 = x - ?D * int j" using t(4) by simp
      have "m2 (x - ?D * int j) = m1 (x - ?D * int j)"
        using that t(5) by (intro frame_eq [OF m2(2)]) linarith
      with m2(3) [OF that] e show ?thesis by simp
    qed
    then have "copied m2 (?D * int j) (op + 4) (op + 8)" by (simp add: copied_def)
    from copied_multiple [OF c1 this t(1,2)] t(6) have c: "copied m2 ?D op (op + 8)" by simp
    have b: "mtch \<le> ?m2 - dec64table ! nat ?D" "?m2 - dec64table ! nat ?D \<le> op + 4"
      using t(7,8,9) by linarith+
    have "match_first8 m op mtch = Some (m2, op + 8, ?m2 - dec64table ! nat ?D)"
      unfolding unf m1(1) by (simp add: LZ4_copy4_def m2(1))
    then show ?thesis
      using f c b t(3,7,8) by auto
  qed
qed

lemma padd_id [simp]: "0 \<le> p + n \<Longrightarrow> p + n < size_mod a \<Longrightarrow> padd a p n = p + n"
  by (simp add: padd_def)

text \<open>What copying a match of \<open>len\<close> bytes at distance \<open>op - mtch\<close> achieves.\<close>

fun match_post :: "mem \<Rightarrow> addr \<Rightarrow> addr \<Rightarrow> addr \<Rightarrow> addr \<Rightarrow> int \<Rightarrow> dec_outcome \<Rightarrow> bool" where
  "match_post m oend ip op mtch len (Next m' ip' op') =
     (ip' = ip \<and> op' = op + len \<and> op + len \<le> oend - 5 \<and> frame m m' op oend \<and>
      (mtch < op \<longrightarrow> copied m' (op - mtch) op op'))"
| "match_post m oend ip op mtch len (OutputError m' ip') =
     (ip' = ip \<and> oend - 5 < op + len \<and> frame m m' op oend)"
| "match_post m oend ip op mtch len (Stop m' ip' op') = False"

lemma wildCopy_in:
  assumes "mapped m s oend" "s + 4 \<le> d" "d + max 8 (e - d + 7) \<le> oend"
  shows "ok (\<lambda>m'. frame m m' d oend \<and> (8 \<le> d - s \<longrightarrow> copied m' (d - s) d e)) (LZ4_wildCopy m d s e)"
proof -
  have "mapped m s (s + max 8 (e - d + 7))" "mapped m d (d + max 8 (e - d + 7))"
    by (rule mapped_mono [OF assms(1)], use assms in auto)+
  from LZ4_wildCopy_ok [OF this] show ?thesis
    by (rule ok_mono) (use assms(3) in \<open>auto elim: frame_mono copied_mono\<close>)
qed

lemma byte_copy_in:
  assumes "mapped m s oend" "s + 4 \<le> d" "e \<le> oend"
  shows "ok (\<lambda>m'. frame m m' d oend \<and> copied m' (d - s) d e) (byte_copy m d s e)"
proof -
  have "mapped m s (s + (e - d))" "mapped m d e"
    by (rule mapped_mono [OF assms(1)], use assms in auto)+
  from byte_copy_ok [OF this] show ?thesis
    by (rule ok_mono) (use assms in \<open>auto elim: frame_mono\<close>)
qed

text \<open>After the first eight bytes, the rest of the match is copied at a distance of at least four;
  at a distance of at least eight it repeats the bytes.\<close>

lemma match_rest_ok:
  assumes mp: "mapped m mtch oend" and ms: "mtch + 4 \<le> op" and o: "op \<le> oend"
    and len: "cpy \<le> oend - 12 \<longrightarrow> op + 8 \<le> oend" "cpy \<le> oend - 5"
  shows "ok (\<lambda>m'. frame m m' op oend \<and> (8 \<le> op - mtch \<longrightarrow> copied m' (op - mtch) op cpy))
    (if cpy > oend - 12
     then do { (m, op, mtch) \<leftarrow>
                 (if op < oend - 8
                  then do { m \<leftarrow> LZ4_wildCopy m op mtch (oend - 8);
                            Some (m, oend - 8, mtch + (oend - 8 - op)) }
                  else Some (m, op, mtch));
               byte_copy m op mtch cpy }
     else LZ4_wildCopy m op mtch cpy)"
proof (cases "cpy > oend - 12")
  case False
  then show ?thesis using wildCopy_in [OF mp ms, of cpy] len by auto
next
  case late: True
  show ?thesis
  proof (cases "op < oend - 8")
    case False
    have "ok (\<lambda>m'. frame m m' op oend \<and> copied m' (op - mtch) op cpy) (byte_copy m op mtch cpy)"
      using byte_copy_in [OF mp ms, of cpy] len by simp
    then have "ok (\<lambda>m'. frame m m' op oend \<and> (8 \<le> op - mtch \<longrightarrow> copied m' (op - mtch) op cpy)) (byte_copy m op mtch cpy)"
      by (rule ok_mono) auto
    with False late show ?thesis by simp
  next
    case True
    obtain m1 where m1: "LZ4_wildCopy m op mtch (oend - 8) = Some m1" "frame m m1 op oend"
       "8 \<le> op - mtch \<longrightarrow> copied m1 (op - mtch) op (oend - 8)"
      using okD [OF wildCopy_in [OF mp ms, of "oend - 8"]] True by auto
    let ?s = "mtch + (oend - 8 - op)"
    have "mapped m1 ?s oend" using mp True by (auto simp: frame_mapped [OF m1(2)] elim: mapped_mono)
    then have "ok (\<lambda>m'. frame m1 m' (oend - 8) oend \<and> copied m' (op - mtch) (oend - 8) cpy)
        (byte_copy m1 (oend - 8) ?s cpy)"
      using byte_copy_in [of m1 ?s oend "oend - 8" cpy] ms len by simp
    from okD [OF this] obtain m2 where
      m2: "byte_copy m1 (oend - 8) ?s cpy = Some m2" "frame m1 m2 (oend - 8) oend" "copied m2 (op - mtch) (oend - 8) cpy"
      by blast
    have "frame m m2 op oend"
      using True by (intro frame_trans [OF m1(2)] frame_mono [OF m2(2)]) auto
    moreover have "copied m2 (op - mtch) op cpy" if "8 \<le> op - mtch"
    proof (rule copied_append)
      show "copied m2 (op - mtch) op (oend - 8)"
        using m1(3) that by (intro copied_frame [OF m2(2)]) auto
    qed (rule m2(3))
    ultimately show ?thesis using m1(1) m2(1) True late by simp
  qed
qed

lemma copy_repeated_ok:
  assumes mp: "mapped m mtch (d_oend c)" and "mtch \<le> op" "op + 8 \<le> d_oend c" "4 \<le> len"
    and "0 \<le> op" "op + len < size_mod a"
  shows "ok (match_post m (d_oend c) ip op mtch len) (copy_repeated a c m ip op mtch len)"
proof -
  let ?oend = "d_oend c" and ?cpy = "op + len" and ?D = "op - mtch"
  have p: "padd a op len = ?cpy" using assms by simp
  have "mapped m mtch (op + 8)" by (rule mapped_mono [OF mp]) (use assms in auto)
  from okD [OF match_first8_ok [OF _ this]] assms(2) obtain m1 mt where
    1: "match_first8 m op mtch = Some (m1, op + 8, mt)" "frame m m1 op (op + 8)" "mtch \<le> mt" "mt \<le> op + 4"
      "1 \<le> ?D \<longrightarrow> copied m1 ?D op (op + 8) \<and> (\<exists>k. 1 \<le> k \<and> op + 8 - mt = ?D * int k \<and> 8 \<le> op + 8 - mt)"
    by auto
  have f1: "frame m m1 op ?oend" using 1(2) assms by (auto elim: frame_mono)
  show ?thesis
  proof (cases "?cpy > ?oend - 5")
    case True
    then show ?thesis using 1(1) p f1 by (simp add: copy_repeated_def)
  next
    case False
    let ?rest = "if ?cpy > ?oend - 12
     then do { (m, op, mtch) \<leftarrow>
                 (if op + 8 < ?oend - 8
                  then do { m \<leftarrow> LZ4_wildCopy m1 (op + 8) mt (?oend - 8);
                            Some (m, ?oend - 8, mt + (?oend - 8 - (op + 8))) }
                  else Some (m1, op + 8, mt));
               byte_copy m op mtch ?cpy }
     else LZ4_wildCopy m1 (op + 8) mt ?cpy"
    have "mapped m1 mt ?oend" using mp 1(3) by (auto simp: frame_mapped [OF f1] elim: mapped_mono)
    from okD [OF match_rest_ok [OF this, of "op + 8" ?cpy]] 1(4) assms False obtain m2 where
      2: "?rest = Some m2" "frame m1 m2 (op + 8) ?oend" "8 \<le> op + 8 - mt \<longrightarrow> copied m2 (op + 8 - mt) (op + 8) ?cpy"
      by auto
    have f: "frame m m2 op ?oend"
      by (intro frame_trans [OF f1] frame_mono [OF 2(2)]) auto
    have "copied m2 ?D op ?cpy" if "mtch < op"
    proof -
      from 1(5) that obtain k where k: "copied m1 ?D op (op + 8)" "1 \<le> k" "op + 8 - mt = ?D * int k" "8 \<le> op + 8 - mt"
        by auto
      have c1: "copied m2 ?D op (op + 8)" using k(1) that by (intro copied_frame [OF 2(2)]) auto
      have "copied m2 (?D * int k) (op + 8) ?cpy" using 2(3) k by simp
      from copied_multiple [OF c1 this] that k 1(3) show ?thesis by simp
    qed
    moreover have "copy_repeated a c m ip op mtch len = do { m \<leftarrow> ?rest; Some (Next m ip ?cpy) }"
      unfolding copy_repeated_def p using 1(1) False by (simp add: Let_def)
    ultimately show ?thesis using 2(1) f False by simp
  qed
qed

text \<open>With an external dictionary, the addresses below \<open>lowPrefix\<close> stand for the end of the
  dictionary.\<close>

definition vread :: "dec_ctx \<Rightarrow> mem \<Rightarrow> addr \<Rightarrow> byte option" where
  "vread c m x =
     (if d_dict c = usingExtDict \<and> x < d_lowPrefix c then m (d_dictEnd c - (d_lowPrefix c - x)) else m x)"

definition repeats :: "dec_ctx \<Rightarrow> mem \<Rightarrow> int \<Rightarrow> addr \<Rightarrow> addr \<Rightarrow> bool" where
  "repeats c m D lo hi \<longleftrightarrow> (\<forall>x. lo \<le> x \<longrightarrow> x < hi \<longrightarrow> m x = vread c m (x - D))"

fun decode_post :: "dec_ctx \<Rightarrow> mem \<Rightarrow> addr \<Rightarrow> addr \<Rightarrow> addr \<Rightarrow> int \<Rightarrow> dec_outcome \<Rightarrow> bool" where
  "decode_post c m ip op mtch len (Next m' ip' op') =
     (ip' = ip \<and> op' = op + len \<and> op + len \<le> d_oend c - 5 \<and> frame m m' op (d_oend c) \<and>
      (mtch < op \<longrightarrow> repeats c m' (op - mtch) op op'))"
| "decode_post c m ip op mtch len (OutputError m' ip') =
     (ip' = ip \<and> d_oend c - 5 < op + len \<and> frame m m' op (d_oend c))"
| "decode_post c m ip op mtch len (Stop m' ip' op') = False"

lemma repeats_append: "repeats c m D lo mid \<Longrightarrow> repeats c m D mid hi \<Longrightarrow> repeats c m D lo hi"
  unfolding repeats_def by (meson not_le)

lemma copied_repeats:
  assumes "copied m D lo hi" "d_dict c = usingExtDict \<longrightarrow> d_lowPrefix c \<le> lo - D"
  shows "repeats c m D lo hi"
  using assms by (auto simp: copied_def repeats_def vread_def)

lemma match_decode_post:
  assumes "match_post m (d_oend c) ip op mtch len r" "\<not> (d_dict c = usingExtDict \<and> mtch < d_lowPrefix c)"
  shows "decode_post c m ip op mtch len r"
  using assms by (cases r) (auto intro: copied_repeats)

lemma memcpy_copied:
  assumes "mapped m s (s + n)" "mapped m d (d + n)" "n \<le> d - s"
  shows "ok (\<lambda>m'. frame m m' d (d + n) \<and> copied m' (d - s) d (d + n)) (memcpy m d s (nat n))"
proof (cases "0 \<le> n")
  case True
  then have "mapped m s (s + int (nat n))" "mapped m d (d + int (nat n))" using assms by auto
  from memcpy_ok [OF this] show ?thesis
  proof (rule ok_mono, intro conjI)
    fix m' assume A: "frame m m' d (d + int (nat n)) \<and>
       (\<forall>x. d \<le> x \<and> x < d + int (nat n) \<longrightarrow> m' x = m (x - d + s))"
    then show f: "frame m m' d (d + n)" using True by simp
    show "copied m' (d - s) d (d + n)"
      unfolding copied_def
    proof (intro allI impI)
      fix x assume x: "d \<le> x" "x < d + n"
      have "m' (x - (d - s)) = m (x - (d - s))" using assms(3) x by (intro frame_eq [OF f]) auto
      with A x True show "m' x = m' (x - (d - s))" by (simp add: algebra_simps)
    qed
  qed
next
  case False
  then show ?thesis by (simp add: memcpy_def copied_empty)
qed

lemma ext_dict_part:
  assumes "d_dict c = usingExtDict" "mapped m (d_dictEnd c - dsz) (d_dictEnd c)" "0 < d_lowPrefix c - mtch"
    and "d_lowPrefix c - mtch \<le> dsz" "mapped m op oend" "d_dictEnd c \<le> op \<or> oend \<le> d_dictEnd c - dsz"
    and "0 \<le> n" "n \<le> d_lowPrefix c - mtch" "op + n \<le> oend"
  shows "ok (\<lambda>m'. frame m m' op (op + n) \<and> 
               (\<forall>m''. frame m' m'' (op + n) oend \<longrightarrow> repeats c m'' (op - mtch) op (op + n)))
           (memcpy m op (d_dictEnd c - (d_lowPrefix c - mtch)) (nat n))"
proof -
  let ?s = "d_dictEnd c - (d_lowPrefix c - mtch)"
  have mp: "mapped m ?s (?s + int (nat n))" "mapped m op (op + int (nat n))"
    using assms by (auto elim: mapped_mono)
  from memcpy_ok [OF mp] show ?thesis
  proof (rule ok_mono, intro conjI allI impI)
    fix m' assume A: "frame m m' op (op + int (nat n)) \<and>
       (\<forall>x. op \<le> x \<and> x < op + int (nat n) \<longrightarrow> m' x = m (x - op + ?s))"
    then show f: "frame m m' op (op + n)" using assms(7) by simp
    fix m'' assume f2: "frame m' m'' (op + n) oend"
    show "repeats c m'' (op - mtch) op (op + n)"
      unfolding repeats_def
    proof (intro allI impI)
      fix x assume x: "op \<le> x" "x < op + n"
      let ?y = "x - op + ?s"
      have v: "vread c m'' (x - (op - mtch)) = m'' ?y"
        using assms(1,8) x by (auto simp: vread_def algebra_simps)
      have "m'' ?y = m' ?y" using assms x by (intro frame_eq [OF f2]) auto
      also have "\<dots> = m ?y" using assms x by (intro frame_eq [OF f]) auto
      also have "\<dots> = m' x" using A x assms(7) by simp
      also have "\<dots> = m'' x" using x by (intro frame_eq [OF f2, symmetric]) auto
      finally show "m'' x = vread c m'' (x - (op - mtch))" using v by simp
    qed
  qed
qed

lemma ext_dict_copy_ok:
  assumes c: "d_dict c = usingExtDict" and d: "mapped m (d_dictEnd c - dsz) (d_dictEnd c)"
    and g: "0 < d_lowPrefix c - mtch" "d_lowPrefix c - mtch \<le> dsz"
    and mp: "mapped m (d_lowPrefix c) (d_oend c)" and dj: "d_dictEnd c \<le> op \<or> d_oend c \<le> d_dictEnd c - dsz"
    and b: "d_lowPrefix c \<le> op" "4 \<le> len" "0 \<le> op" "op + len < size_mod a"
  shows "ok (decode_post c m ip op mtch len) (ext_dict_copy a c m ip op mtch len)"
proof -
  let ?oend = "d_oend c" and ?g = "d_lowPrefix c - mtch" and ?D = "op - mtch"
  have p: "padd a op len = op + len" using b by simp
  have mo: "mapped m op ?oend" using mp b by (auto elim: mapped_mono)
  show ?thesis
  proof (cases "op + len > ?oend - 5")
    case True
    then show ?thesis using p by (simp add: ext_dict_copy_def)
  next
    case fit: False
    show ?thesis
    proof (cases "len \<le> ?g")
      case True
      from okD [OF ext_dict_part [OF c d g mo dj, of len]] True b fit obtain m1 where
        1: "memcpy m op (d_dictEnd c - ?g) (nat len) = Some m1" "frame m m1 op (op + len)"
          "\<forall>m''. frame m1 m'' (op + len) ?oend \<longrightarrow> repeats c m'' ?D op (op + len)" by auto
      have "frame m m1 op ?oend" "repeats c m1 ?D op (op + len)"
        using 1(2,3) fit by (auto elim: frame_mono)
      with 1(1) True fit p show ?thesis by (simp add: ext_dict_copy_def)
    next
      case False
      from okD [OF ext_dict_part [OF c d g mo dj, of ?g]] False b fit g obtain m1 where
        1: "memcpy m op (d_dictEnd c - ?g) (nat ?g) = Some m1" "frame m m1 op (op + ?g)"
          "\<forall>m''. frame m1 m'' (op + ?g) ?oend \<longrightarrow> repeats c m'' ?D op (op + ?g)" by auto
      let ?op = "op + ?g" and ?n = "len - ?g"
      have e: "?op - d_lowPrefix c = ?D" "?op + ?n = op + len" "op + len - ?op = ?n" by simp_all
      have m1p: "mapped m1 (d_lowPrefix c) ?oend" by (simp add: frame_mapped [OF 1(2)] mp)
      have mps: "mapped m1 (d_lowPrefix c) (d_lowPrefix c + ?n)" "mapped m1 ?op (?op + ?n)"
        by (rule mapped_mono [OF m1p], use False b fit g in linarith, use False b fit g in linarith)+
      have bc: "ok (\<lambda>m'. frame m1 m' ?op (op + len) \<and> copied m' ?D ?op (op + len))
          (byte_copy m1 ?op (d_lowPrefix c) (op + len))"
      proof -
        have "mapped m1 (d_lowPrefix c) (d_lowPrefix c + (op + len - ?op))" "mapped m1 ?op (op + len)"
          using mps by (simp_all only: e)
        from byte_copy_ok [OF this] have "ok (\<lambda>m'. frame m1 m' ?op (op + len) \<and> (1 \<le> ?D \<longrightarrow> copied m' ?D ?op (op + len)))
          (byte_copy m1 ?op (d_lowPrefix c) (op + len))" by (simp only: e)
        then show ?thesis by (rule ok_mono) (use b g in simp)
      qed
      have mc: "ok (\<lambda>m'. frame m1 m' ?op (op + len) \<and> copied m' ?D ?op (op + len))
          (memcpy m1 ?op (d_lowPrefix c) (nat ?n))" if "\<not> ?n > ?D"
        using memcpy_copied [OF mps] that unfolding e by simp
      let ?cp = "if ?n > ?D then byte_copy m1 ?op (d_lowPrefix c) (op + len) else memcpy m1 ?op (d_lowPrefix c) (nat ?n)"
      from bc mc have "ok (\<lambda>m'. frame m1 m' ?op (op + len) \<and> copied m' ?D ?op (op + len)) ?cp" by simp
      from okD [OF this] obtain m2 where 2: "?cp = Some m2" "frame m1 m2 ?op (op + len)" "copied m2 ?D ?op (op + len)"
        by blast
      have f2: "frame m1 m2 ?op ?oend" using 2(2) fit by (auto elim: frame_mono)
      have f: "frame m m2 op ?oend"
        using fit False g by (intro frame_trans [OF frame_mono [OF 1(2)] frame_mono [OF f2]]) auto
      have "repeats c m2 ?D op (op + len)"
      proof (rule repeats_append)
        show "repeats c m2 ?D op ?op" using 1(3) f2 by blast
        show "repeats c m2 ?D ?op (op + len)" by (rule copied_repeats [OF 2(3)]) simp
      qed
      moreover have "ext_dict_copy a c m ip op mtch len = do { m \<leftarrow> ?cp; Some (Next m ip (op + len)) }"
        using fit False 1(1) e p by (simp add: ext_dict_copy_def Let_def)
      ultimately show ?thesis using 2(1) f fit by simp
    qed
  qed
qed

section \<open>Length fields\<close>

lemma uint_of_nat_byte:
  assumes "n < 256"
  shows "uint (of_nat n :: byte) = int n"
proof -
  have "take_bit LENGTH(8) n = n" using assms by (simp add: take_bit_eq_mod)
  then show ?thesis using unsigned_of_nat [where 'b = 8, of n] by metis
qed

lemma uint_255: "uint (255 :: byte) = 255"
  using uint_of_nat_byte [of 255] by simp

lemma uint_token: "uint (token ll ml) = int (16 * min ll 15 + min ml 15)"
proof -
  have "16 * min ll 15 + min ml 15 < 256" by linarith
  then show ?thesis unfolding token_def by (rule uint_of_nat_byte)
qed

lemma token_fields:
  "uint (drop_bit 4 (token ll ml)) = int (min ll 15)"
  "uint (token ll ml AND 15) = int (min ml 15)"
proof -
  have "uint (drop_bit 4 (token ll ml)) = uint (token ll ml) div 16"
    by (simp add: unsigned_drop_bit_eq drop_bit_eq_div uint_div)
  then show "uint (drop_bit 4 (token ll ml)) = int (min ll 15)" by (simp add: uint_token)
  have "token ll ml AND 15 = take_bit 4 (token ll ml)"
    by (simp add: take_bit_eq_mask mask_eq_exp_minus_1)
  then have "uint (token ll ml AND 15) = uint (token ll ml) mod 16"
    by (simp add: take_bit_eq_mod uint_mod)
  then show "uint (token ll ml AND 15) = int (min ml 15)" by (simp add: uint_token)
qed

lemma tok_hi_bound: "0 \<le> uint (drop_bit 4 (t :: byte))" "uint (drop_bit 4 (t :: byte)) \<le> 15"
  using uint_byte [of t] by (simp_all add: unsigned_drop_bit_eq drop_bit_eq_div uint_div pos_imp_zdiv_nonneg_iff)

lemma tok_lo_bound: "0 \<le> uint ((t :: byte) AND 15)" "uint ((t :: byte) AND 15) \<le> 15"
proof -
  have "t AND 15 = take_bit 4 t" by (simp add: take_bit_eq_mask mask_eq_exp_minus_1)
  then have "uint (t AND 15) = uint t mod 16" by (simp add: take_bit_eq_mod uint_mod)
  then show "0 \<le> uint ((t :: byte) AND 15)" "uint ((t :: byte) AND 15) \<le> 15" by auto
qed

lemma of_nat_byte_255: "n < 255 \<Longrightarrow> (of_nat n :: byte) \<noteq> 255"
proof
  assume "n < 255" "(of_nat n :: byte) = 255"
  then have "int n = 255" using uint_of_nat_byte [of n] by simp
  with \<open>n < 255\<close> show False by simp
qed

text \<open>A length field written by the encoder is read back.\<close>

lemma lit_length_loop_enc:
  assumes "bytes_at m ip (len_ext n)" "0 \<le> len" "len + int n < size_mod a"
    and "d_endOnInput c \<longrightarrow> ip + int (length (len_ext n)) + 15 \<le> d_iend c"
  shows "lit_length_loop a c m ip len = Some (ip + int (length (len_ext n)), len + int n)"
  using assms
proof (induction n arbitrary: ip len rule: len_ext.induct)
  case (1 n)
  show ?case
  proof (cases "255 \<le> n")
    case True
    then have e: "len_ext n = 255 # len_ext (n - 255)" by (subst len_ext.simps) simp
    obtain q where q: "length (len_ext (n - 255)) = Suc q" by (simp add: length_len_ext)
    show ?thesis
      using q "1.IH" [OF True, of "ip + 1" "len + 255"] "1.prems" True
      by (subst lit_length_loop.simps) (simp add: e bytes_at_Cons q of_nat_diff uint_255 add.commute [of 1], linarith?)
  next
    case False
    then have e: "len_ext n = [of_nat n]" by (subst len_ext.simps) simp
    show ?thesis
      using "1.prems" False of_nat_byte_255 [of n]
      by (subst lit_length_loop.simps) (simp add: e bytes_at_Cons uint_of_nat_byte)
  qed
qed

lemma match_length_loop_enc:
  assumes "bytes_at m ip (len_ext n)" "0 \<le> len" "len + int n < size_mod a"
    and "d_endOnInput c \<longrightarrow> ip + int (length (len_ext n)) + 4 \<le> d_iend c"
  shows "match_length_loop a c m ip len = Some (Inr (ip + int (length (len_ext n)), len + int n))"
  using assms
proof (induction n arbitrary: ip len rule: len_ext.induct)
  case (1 n)
  show ?case
  proof (cases "255 \<le> n")
    case True
    then have e: "len_ext n = 255 # len_ext (n - 255)" by (subst len_ext.simps) simp
    obtain q where q: "length (len_ext (n - 255)) = Suc q" by (simp add: length_len_ext)
    show ?thesis
      using q "1.IH" [OF True, of "ip + 1" "len + 255"] "1.prems" True
      by (subst match_length_loop.simps) (simp add: e bytes_at_Cons q of_nat_diff uint_255 add.commute [of 1], linarith?)
  next
    case False
    then have e: "len_ext n = [of_nat n]" by (subst len_ext.simps) simp
    show ?thesis
      using "1.prems" False of_nat_byte_255 [of n]
      by (subst match_length_loop.simps) (simp add: e bytes_at_Cons uint_of_nat_byte, linarith?)
  qed
qed

lemma get_lit_length_enc:
  assumes "bytes_at m ip (enc_len n)" "int n < size_mod a" "0 \<le> ip" "0 \<le> op"
    and "op + int n < size_mod a" "ip + int (length (enc_len n)) + int n < size_mod a"
    and "d_endOnInput c \<longrightarrow> ip + int (length (enc_len n)) + int n \<le> d_iend c"
  shows "get_lit_length a c m (token n k) ip op = Some (Inr (ip + int (length (enc_len n)), int n))"
proof (cases "15 \<le> n")
  case True
  then have "lit_length_loop a c m ip 15 = Some (ip + int (length (len_ext (n - 15))), 15 + int (n - 15))"
    using assms by (intro lit_length_loop_enc) (auto simp: enc_len_def)
  with True assms show ?thesis
    by (simp add: get_lit_length_def token_fields enc_len_def Let_def of_nat_diff)
next
  case False
  then show ?thesis by (simp add: get_lit_length_def token_fields enc_len_def)
qed

lemma get_match_length_enc:
  assumes "bytes_at m ip (enc_len n)" "0 \<le> op" "int n + 4 < size_mod a" "op + int n < size_mod a"
    and "d_endOnInput c \<longrightarrow> ip + int (length (enc_len n)) + 4 \<le> d_iend c"
  shows "get_match_length a c m (token k n) ip op = Some (Inr (ip + int (length (enc_len n)), int n + 4))"
proof (cases "15 \<le> n")
  case True
  then have "match_length_loop a c m ip 15 = Some (Inr (ip + int (length (len_ext (n - 15))), 15 + int (n - 15)))"
    using assms by (intro match_length_loop_enc) (auto simp: enc_len_def)
  with True assms show ?thesis
    by (simp add: get_match_length_def token_fields enc_len_def Let_def of_nat_diff)
next
  case False
  then show ?thesis using assms by (simp add: get_match_length_def token_fields enc_len_def)
qed

text \<open>On any input the loops stay below the end of the input.\<close>

lemma lit_length_loop_safe:
  assumes "d_endOnInput c" "mapped m ip (d_iend c)" "ip < d_iend c" "0 \<le> len"
    and "len + 255 * (d_iend c - ip) < size_mod a"
  shows "ok (\<lambda>(ip', len'). ip < ip' \<and> ip' \<le> d_iend c \<and> 0 \<le> len' \<and> len' \<le> len + 255 * (ip' - ip))
           (lit_length_loop a c m ip len)"
  using assms
proof (induction "nat (d_iend c - ip)" arbitrary: ip len rule: less_induct)
  case less
  obtain s where s: "m ip = Some s" using mappedD [OF less.prems(2), of ip] less.prems by auto
  note u = uint_byte [of s]
  have md: "(len + uint s) mod size_mod a = len + uint s" using less.prems u by simp
  show ?case
  proof (cases "ip + 1 < d_iend c - 15 \<and> s = 255")
    case True
    have mp: "mapped m (ip + 1) (d_iend c)" using less.prems(2) by (rule mapped_mono) auto
    have "ok (\<lambda>(ip', len'). ip + 1 < ip' \<and> ip' \<le> d_iend c \<and> 0 \<le> len' \<and> len' \<le> len + uint s + 255 * (ip' - (ip + 1)))
           (lit_length_loop a c m (ip + 1) (len + uint s))"
      using less.prems True u mp by (intro less.hyps) auto
    then have "ok (\<lambda>(ip', len'). ip < ip' \<and> ip' \<le> d_iend c \<and> 0 \<le> len' \<and> len' \<le> len + 255 * (ip' - ip))
           (lit_length_loop a c m (ip + 1) (len + uint s))"
      by (rule ok_mono) (use u in auto)
    with True s md less.prems(1) show ?thesis by (subst lit_length_loop.simps) simp
  next
    case False
    with s md less.prems u show ?thesis by (subst lit_length_loop.simps) auto
  qed
qed

fun match_len_post :: "dec_ctx \<Rightarrow> addr \<Rightarrow> int \<Rightarrow> addr + addr \<times> int \<Rightarrow> bool" where
  "match_len_post c ip len (Inl ip') = (ip \<le> ip' \<and> ip' \<le> d_iend c)"
| "match_len_post c ip len (Inr (ip', len')) =
     (ip \<le> ip' \<and> ip' \<le> d_iend c - 4 \<and> 0 \<le> len' \<and> len' \<le> len + 255 * (ip' - ip))"

lemma match_len_post_step:
  assumes "match_len_post c (ip + 1) (len + s) r" "0 \<le> s" "s < 256"
  shows "match_len_post c ip len r"
  using assms by (cases "(c, ip, len, r)" rule: match_len_post.cases) auto

lemma match_length_loop_safe:
  assumes "d_endOnInput c" "mapped m ip (d_iend c)" "0 \<le> len" "ip \<le> d_iend c"
    and "len + 255 * (d_iend c - ip) < size_mod a"
  shows "ok (match_len_post c ip len)
           (match_length_loop a c m ip len)"
  using assms
proof (induction "nat (d_iend c - ip)" arbitrary: ip len rule: less_induct)
  case less
  show ?case
  proof (cases "ip > d_iend c - 5")
    case True
    with less.prems show ?thesis by (subst match_length_loop.simps) simp
  next
    case False
    obtain s where s: "m ip = Some s" using mappedD [OF less.prems(2), of ip] False by auto
    note u = uint_byte [of s]
    have md: "(len + uint s) mod size_mod a = len + uint s" using less.prems u False by simp
    show ?thesis
    proof (cases "s = 255")
      case True
      have mp: "mapped m (ip + 1) (d_iend c)" using less.prems(2) by (rule mapped_mono) auto
      have "ok (match_len_post c (ip + 1) (len + uint s))
             (match_length_loop a c m (ip + 1) (len + uint s))"
        using less.prems False True u mp by (intro less.hyps) auto
      then have "ok (match_len_post c ip len)
             (match_length_loop a c m (ip + 1) (len + uint s))"
        by (rule ok_mono) (rule match_len_post_step [OF _ u])
      with False True s md less.prems(1) show ?thesis by (subst match_length_loop.simps) simp
    next
      case neq: False
      with False s md less.prems u show ?thesis by (subst match_length_loop.simps) auto
    qed
  qed
qed

end
