(* ===== verification/Lz4_Compress.thy ===== *)
theory Lz4_Compress
  imports Lz4_Decompress
begin

text \<open>
  The fast compressor of \<^verbatim>\<open>src/src/lz4/lib/lz4.c\<close>: the hash table,
  \<open>LZ4_compress_generic\<close> with all its directives, and the one-shot entry points.

  The hash table is the array of the stream structure, indexed by the hash; an index outside it
  is a fault. Depending on \<open>tableType_t\<close> an entry is a pointer, or the low 32 or 16 bits of a
  distance from \<open>base\<close>. The parts of \<open>LZ4_compress_generic\<close> between its labels are one
  definition each; \<open>return 0\<close> in the middle of the function, the jump to
  \<^verbatim>\<open>_last_literals\<close> and going on with the main loop are the constructors of
  \<open>enc_outcome\<close>.
\<close>

section \<open>Types and constants\<close>

abbreviation (input) LZ4_HASHLOG :: nat where "LZ4_HASHLOG \<equiv> 12"
abbreviation (input) HASH_SIZE_U32 :: int where "HASH_SIZE_U32 \<equiv> 4096"
abbreviation (input) LZ4_64Klimit :: int where "LZ4_64Klimit \<equiv> 65547"
abbreviation (input) LZ4_skipTrigger :: nat where "LZ4_skipTrigger \<equiv> 6"
abbreviation (input) LZ4_MAX_INPUT_SIZE :: int where "LZ4_MAX_INPUT_SIZE \<equiv> 0x7E000000"
abbreviation (input) ACCELERATION_DEFAULT :: int where "ACCELERATION_DEFAULT \<equiv> 1"

datatype limitedOutput_directive = notLimited | limitedOutput
datatype tableType_t = byPtr | byU32 | byU16
datatype dictIssue_directive = noDictIssue | dictSmall

type_synonym htable = "int \<Rightarrow> int"

record LZ4_stream_t_internal =
  hashTable :: htable
  currentOffset :: int
  initCheck :: int
  dictionary :: addr
  bufferStart :: addr
  dictSize :: int

definition LZ4_compressBound :: "int \<Rightarrow> int" where
  "LZ4_compressBound isize =
     (if uns32 isize > LZ4_MAX_INPUT_SIZE then 0 else isize + isize div 255 + 16)"

section \<open>Hashing\<close>

definition LZ4_hashSequence :: "u32 \<Rightarrow> tableType_t \<Rightarrow> u32" where
  "LZ4_hashSequence sequence tableType =
     (if tableType = byU16 then drop_bit (4 * 8 - (LZ4_HASHLOG + 1)) (sequence * 2654435761)
      else drop_bit (4 * 8 - LZ4_HASHLOG) (sequence * 2654435761))"

definition prime5bytes :: u64 where
  "prime5bytes = 889523592379"

definition LZ4_hashSequence64 :: "u64 \<Rightarrow> tableType_t \<Rightarrow> u32" where
  "LZ4_hashSequence64 sequence tableType =
     (let hashLog = (if tableType = byU16 then LZ4_HASHLOG + 1 else LZ4_HASHLOG);
          hashMask = (push_bit hashLog 1 - 1 :: u64)
      in ucast (drop_bit (40 - hashLog) (sequence * prime5bytes) AND hashMask))"

definition LZ4_hashSequenceT :: "arch \<Rightarrow> u64 \<Rightarrow> tableType_t \<Rightarrow> u32" where
  "LZ4_hashSequenceT a sequence tableType =
     (if LZ4_64bits a then LZ4_hashSequence64 sequence tableType
      else LZ4_hashSequence (ucast sequence) tableType)"

definition LZ4_hashPosition :: "arch \<Rightarrow> mem \<Rightarrow> addr \<Rightarrow> tableType_t \<Rightarrow> int option" where
  "LZ4_hashPosition a m p tableType =
     do { s \<leftarrow> LZ4_read_ARCH a m p; Some (uint (LZ4_hashSequenceT a s tableType)) }"

text \<open>The number of entries the table has for each view of the array.\<close>

definition table_size :: "tableType_t \<Rightarrow> int" where
  "table_size tableType = (if tableType = byU16 then 2 * HASH_SIZE_U32 else HASH_SIZE_U32)"

definition LZ4_putPositionOnHash ::
  "addr \<Rightarrow> int \<Rightarrow> htable \<Rightarrow> tableType_t \<Rightarrow> addr \<Rightarrow> htable option" where
  "LZ4_putPositionOnHash p h tbl tableType srcBase =
     (if 0 \<le> h \<and> h < table_size tableType
      then Some (case tableType of
                   byPtr \<Rightarrow> tbl(h := p)
                 | byU32 \<Rightarrow> tbl(h := (p - srcBase) mod 2 ^ 32)
                 | byU16 \<Rightarrow> tbl(h := (p - srcBase) mod 2 ^ 16))
      else None)"

definition LZ4_putPosition ::
  "arch \<Rightarrow> mem \<Rightarrow> addr \<Rightarrow> htable \<Rightarrow> tableType_t \<Rightarrow> addr \<Rightarrow> htable option" where
  "LZ4_putPosition a m p tbl tableType srcBase =
     do { h \<leftarrow> LZ4_hashPosition a m p tableType; LZ4_putPositionOnHash p h tbl tableType srcBase }"

definition LZ4_getPositionOnHash :: "int \<Rightarrow> htable \<Rightarrow> tableType_t \<Rightarrow> addr \<Rightarrow> addr option" where
  "LZ4_getPositionOnHash h tbl tableType srcBase =
     (if 0 \<le> h \<and> h < table_size tableType
      then Some (if tableType = byPtr then tbl h else tbl h + srcBase)
      else None)"

definition LZ4_getPosition ::
  "arch \<Rightarrow> mem \<Rightarrow> addr \<Rightarrow> htable \<Rightarrow> tableType_t \<Rightarrow> addr \<Rightarrow> addr option" where
  "LZ4_getPosition a m p tbl tableType srcBase =
     do { h \<leftarrow> LZ4_hashPosition a m p tableType; LZ4_getPositionOnHash h tbl tableType srcBase }"

section \<open>The local variables of \<open>LZ4_compress_generic\<close>\<close>

record enc_ctx =
  e_source :: addr
  e_dest :: addr
  e_iend :: addr
  e_mflimit :: addr
  e_matchlimit :: addr
  e_olimit :: addr
  e_maxOutputSize :: int
  e_base :: addr
  e_lowLimit :: addr
  e_lowRefLimit :: addr
  e_dictionary :: addr
  e_dictEnd :: addr
  e_dictDelta :: int
  e_outputLimited :: limitedOutput_directive
  e_tableType :: tableType_t
  e_dict :: dict_directive
  e_dictIssue :: dictIssue_directive
  e_acceleration :: int

text \<open>\<open>refDelta\<close> and \<open>lowLimit\<close> for a match position: constant unless there is an external
  dictionary, where they are set for each candidate.\<close>

definition enc_ref :: "enc_ctx \<Rightarrow> addr \<Rightarrow> int \<times> addr" where
  "enc_ref c mtch =
     (if e_dict c = usingExtDict
      then (if mtch < e_source c then (e_dictDelta c, e_dictionary c) else (0, e_source c))
      else (0, e_lowLimit c))"

section \<open>Finding a match\<close>

datatype find_outcome = Found addr addr int addr htable int | NotFound htable

partial_function (option) LZ4_find_match ::
  "arch \<Rightarrow> enc_ctx \<Rightarrow> mem \<Rightarrow> htable \<Rightarrow> addr \<Rightarrow> int \<Rightarrow> int \<Rightarrow> int \<Rightarrow> find_outcome option" where
  "LZ4_find_match a c m tbl forwardIp step searchMatchNb forwardH =
     (let h = forwardH; ip = forwardIp; forwardIp = forwardIp + step in
      if forwardIp > e_mflimit c then Some (NotFound tbl)
      else
      do { mtch \<leftarrow> LZ4_getPositionOnHash h tbl (e_tableType c) (e_base c);
           let (refDelta, lowLimit) = enc_ref c mtch;
           forwardH \<leftarrow> LZ4_hashPosition a m forwardIp (e_tableType c);
           tbl \<leftarrow> LZ4_putPositionOnHash ip h tbl (e_tableType c) (e_base c);
           retry \<leftarrow>
             (if e_dictIssue c = dictSmall \<and> mtch < e_lowRefLimit c then Some True
              else if e_tableType c \<noteq> byU16 \<and> mtch + MAX_DISTANCE < ip then Some True
              else do { x \<leftarrow> LZ4_read32 a m (mtch + refDelta); y \<leftarrow> LZ4_read32 a m ip; Some (x \<noteq> y) });
           if retry
           then LZ4_find_match a c m tbl forwardIp (searchMatchNb div 64) (uns32 (searchMatchNb + 1)) forwardH
           else Some (Found ip mtch refDelta lowLimit tbl forwardH) })"

function LZ4_catch_up ::
  "mem \<Rightarrow> addr \<Rightarrow> int \<Rightarrow> addr \<Rightarrow> addr \<Rightarrow> addr \<Rightarrow> (addr \<times> addr) option" where
  "LZ4_catch_up m anchor refDelta lowLimit ip mtch =
     (if ip > anchor \<and> mtch + refDelta > lowLimit
      then do { x \<leftarrow> m (ip - 1); y \<leftarrow> m (mtch + refDelta - 1);
                if x = y then LZ4_catch_up m anchor refDelta lowLimit (ip - 1) (mtch - 1)
                else Some (ip, mtch) }
      else Some (ip, mtch))"
  by pat_completeness auto
termination
  by (relation "measure (\<lambda>(m, anchor, refDelta, lowLimit, ip, mtch). nat (ip - anchor))") auto

declare LZ4_catch_up.simps [simp del]

section \<open>Emitting a sequence\<close>

text \<open>\<open>for (; len >= 255; len -= 255) *op++ = 255; *op++ = (BYTE)len;\<close>\<close>

function write_length :: "mem \<Rightarrow> addr \<Rightarrow> int \<Rightarrow> (mem \<times> addr) option" where
  "write_length m op len =
     (if len \<ge> 255 then do { m \<leftarrow> store8 m op 255; write_length m (op + 1) (len - 255) }
      else do { m \<leftarrow> store8 m op (word_of_int len); Some (m, op + 1) })"
  by pat_completeness auto
termination
  by (relation "measure (\<lambda>(m, op, len). nat len)") auto

declare write_length.simps [simp del]

text \<open>The loop of the match length writes two bytes at a time.\<close>

function write_match_length :: "mem \<Rightarrow> addr \<Rightarrow> int \<Rightarrow> (mem \<times> addr) option" where
  "write_match_length m op len =
     (if len \<ge> 510
      then do { m \<leftarrow> store8 m op 255; m \<leftarrow> store8 m (op + 1) 255;
                write_match_length m (op + 2) (len - 510) }
      else do { (m, op, len) \<leftarrow>
                  (if len \<ge> 255 then do { m \<leftarrow> store8 m op 255; Some (m, op + 1, len - 255) }
                   else Some (m, op, len));
                m \<leftarrow> store8 m op (word_of_int len);
                Some (m, op + 1) })"
  by pat_completeness auto
termination
  by (relation "measure (\<lambda>(m, op, len). nat len)") auto

declare write_match_length.simps [simp del]

text \<open>Literal length and literals. \<open>None\<close> inside the result is \<open>return 0\<close>: the output limit is
  reached; otherwise the new write position.\<close>

definition LZ4_encode_literals ::
  "enc_ctx \<Rightarrow> mem \<Rightarrow> addr \<Rightarrow> addr \<Rightarrow> addr \<Rightarrow> (mem \<times> addr option) option" where
  "LZ4_encode_literals c m anchor ip tok =
     (let litLength = uns32 (ip - anchor); op = tok + 1 in
      if e_outputLimited c = limitedOutput \<and>
         op + litLength + (2 + 1 + LASTLITERALS) + litLength div 255 > e_olimit c
      then Some (m, None)
      else
      do { (m, op) \<leftarrow>
             (if litLength \<ge> RUN_MASK
              then do { m \<leftarrow> store8 m tok (word_of_int (RUN_MASK * 16));
                        write_length m op (int32 litLength - RUN_MASK) }
              else do { m \<leftarrow> store8 m tok (word_of_int (litLength * 16)); Some (m, op) });
           m \<leftarrow> LZ4_wildCopy m op anchor (op + litLength);
           Some (m, Some (op + litLength)) })"

text \<open>How far the match goes: the number of bytes beyond the first four, and the position after it.\<close>

definition LZ4_match_extent ::
  "arch \<Rightarrow> enc_ctx \<Rightarrow> mem \<Rightarrow> addr \<Rightarrow> addr \<Rightarrow> int \<Rightarrow> addr \<Rightarrow> (int \<times> addr) option" where
  "LZ4_match_extent a c m ip mtch refDelta lowLimit =
     (if e_dict c = usingExtDict \<and> lowLimit = e_dictionary c
      then (let mtch = mtch + refDelta;
                limit = ip + (e_dictEnd c - mtch);
                limit = (if limit > e_matchlimit c then e_matchlimit c else limit)
            in
            do { matchLength \<leftarrow> LZ4_count a m (ip + MINMATCH) (mtch + MINMATCH) limit;
                 let ip = ip + (MINMATCH + matchLength);
                 if ip = limit
                 then do { extra \<leftarrow> LZ4_count a m ip (e_source c) (e_matchlimit c);
                           Some (uns32 (matchLength + extra), ip + extra) }
                 else Some (matchLength, ip) })
      else do { matchLength \<leftarrow> LZ4_count a m (ip + MINMATCH) (mtch + MINMATCH) (e_matchlimit c);
                Some (matchLength, ip + (MINMATCH + matchLength)) })"

text \<open>Offset and match length, at \<open>op\<close>; \<open>*token\<close> is completed.\<close>

definition LZ4_encode_match ::
  "arch \<Rightarrow> enc_ctx \<Rightarrow> mem \<Rightarrow> addr \<Rightarrow> addr \<Rightarrow> int \<Rightarrow> addr \<Rightarrow> addr \<Rightarrow> addr \<Rightarrow> (mem \<times> (addr \<times> addr) option) option" where
  "LZ4_encode_match a c m ip mtch refDelta lowLimit tok op =
     do { m \<leftarrow> LZ4_writeLE16 a m op (word_of_int (ip - mtch));
          let op = op + 2;
          (matchLength, ip) \<leftarrow> LZ4_match_extent a c m ip mtch refDelta lowLimit;
          if e_outputLimited c = limitedOutput \<and>
             op + (1 + LASTLITERALS) + matchLength div 256 > e_olimit c
          then Some (m, None)
          else
          do { t \<leftarrow> m tok;
               if matchLength \<ge> ML_MASK
               then do { m \<leftarrow> store8 m tok (t + 15);
                         (m, op) \<leftarrow> write_match_length m op (matchLength - ML_MASK);
                         Some (m, Some (op, ip)) }
               else do { m \<leftarrow> store8 m tok (t + word_of_int matchLength);
                         Some (m, Some (op, ip)) } } }"

section \<open>The main loop\<close>

datatype enc_outcome =
    Return0 mem htable
  | LastLiterals mem htable addr addr
  | Continue mem htable addr addr int

text \<open>From the label \<^verbatim>\<open>_next_match\<close> to the end of the loop body, with the jumps back to the
  label: \<open>LastLiterals\<close> carries \<open>anchor\<close> and \<open>op\<close>, \<open>Continue\<close> the next \<open>ip\<close>, \<open>op\<close> and
  \<open>forwardH\<close> (\<open>anchor\<close> is \<open>ip - 1\<close>).\<close>

partial_function (option) LZ4_next_match ::
  "arch \<Rightarrow> enc_ctx \<Rightarrow> mem \<Rightarrow> htable \<Rightarrow> addr \<Rightarrow> addr \<Rightarrow> int \<Rightarrow> addr \<Rightarrow> addr \<Rightarrow> addr \<Rightarrow> enc_outcome option" where
  "LZ4_next_match a c m tbl ip mtch refDelta lowLimit tok op =
     do { (m, r) \<leftarrow> LZ4_encode_match a c m ip mtch refDelta lowLimit tok op;
          case r of
            None \<Rightarrow> Some (Return0 m tbl)
          | Some (op, ip) \<Rightarrow>
              if ip > e_mflimit c then Some (LastLiterals m tbl ip op)
              else
              do { tbl \<leftarrow> LZ4_putPosition a m (ip - 2) tbl (e_tableType c) (e_base c);
                   mtch \<leftarrow> LZ4_getPosition a m ip tbl (e_tableType c) (e_base c);
                   let (refDelta, lowLimit) = enc_ref c mtch;
                   tbl \<leftarrow> LZ4_putPosition a m ip tbl (e_tableType c) (e_base c);
                   again \<leftarrow>
                     (if (e_dictIssue c = dictSmall \<longrightarrow> mtch \<ge> e_lowRefLimit c) \<and> mtch + MAX_DISTANCE \<ge> ip
                      then do { x \<leftarrow> LZ4_read32 a m (mtch + refDelta); y \<leftarrow> LZ4_read32 a m ip; Some (x = y) }
                      else Some False);
                   if again
                   then do { m \<leftarrow> store8 m op 0;
                             LZ4_next_match a c m tbl ip mtch refDelta lowLimit op (op + 1) }
                   else do { forwardH \<leftarrow> LZ4_hashPosition a m (ip + 1) (e_tableType c);
                             Some (Continue m tbl (ip + 1) op forwardH) } } }"

text \<open>One iteration of the main loop.\<close>

definition LZ4_compress_step ::
  "arch \<Rightarrow> enc_ctx \<Rightarrow> mem \<Rightarrow> htable \<Rightarrow> addr \<Rightarrow> addr \<Rightarrow> addr \<Rightarrow> int \<Rightarrow> enc_outcome option" where
  "LZ4_compress_step a c m tbl anchor ip op forwardH =
     do { r \<leftarrow> LZ4_find_match a c m tbl ip 1 (uns32 (e_acceleration c * 64)) forwardH;
          case r of
            NotFound tbl \<Rightarrow> Some (LastLiterals m tbl anchor op)
          | Found ip mtch refDelta lowLimit tbl forwardH \<Rightarrow>
              do { (ip, mtch) \<leftarrow> LZ4_catch_up m anchor refDelta lowLimit ip mtch;
                   (m, r) \<leftarrow> LZ4_encode_literals c m anchor ip op;
                   case r of
                     None \<Rightarrow> Some (Return0 m tbl)
                   | Some op' \<Rightarrow> LZ4_next_match a c m tbl ip mtch refDelta lowLimit op op' } }"

definition LZ4_last_literals ::
  "enc_ctx \<Rightarrow> mem \<Rightarrow> addr \<Rightarrow> addr \<Rightarrow> (int \<times> mem) option" where
  "LZ4_last_literals c m anchor op =
     (let lastRun = e_iend c - anchor in
      if e_outputLimited c = limitedOutput \<and>
         (op - e_dest c) + lastRun + 1 + (lastRun + 255 - RUN_MASK) div 255 > uns32 (e_maxOutputSize c)
      then Some (0, m)
      else
      do { (m, op) \<leftarrow>
             (if lastRun \<ge> RUN_MASK
              then do { m \<leftarrow> store8 m op (word_of_int (RUN_MASK * 16));
                        write_length m (op + 1) (lastRun - RUN_MASK) }
              else do { m \<leftarrow> store8 m op (word_of_int (lastRun * 16)); Some (m, op + 1) });
           m \<leftarrow> memcpy m op anchor (nat lastRun);
           Some (int32 (op + lastRun - e_dest c), m) })"

partial_function (option) LZ4_compress_loop ::
  "arch \<Rightarrow> enc_ctx \<Rightarrow> mem \<Rightarrow> htable \<Rightarrow> addr \<Rightarrow> addr \<Rightarrow> addr \<Rightarrow> int \<Rightarrow> (int \<times> mem \<times> htable) option" where
  "LZ4_compress_loop a c m tbl anchor ip op forwardH =
     do { r \<leftarrow> LZ4_compress_step a c m tbl anchor ip op forwardH;
          case r of
            Return0 m tbl \<Rightarrow> Some (0, m, tbl)
          | LastLiterals m tbl anchor op \<Rightarrow>
              do { (r, m) \<leftarrow> LZ4_last_literals c m anchor op; Some (r, m, tbl) }
          | Continue m tbl ip op forwardH \<Rightarrow> LZ4_compress_loop a c m tbl (ip - 1) ip op forwardH }"

definition LZ4_compress_ctx ::
  "LZ4_stream_t_internal \<Rightarrow> addr \<Rightarrow> addr \<Rightarrow> int \<Rightarrow> int \<Rightarrow> limitedOutput_directive \<Rightarrow> tableType_t \<Rightarrow>
   dict_directive \<Rightarrow> dictIssue_directive \<Rightarrow> int \<Rightarrow> enc_ctx" where
  "LZ4_compress_ctx dictPtr source dest inputSize maxOutputSize outputLimited tableType dict dictIssue acceleration =
     (let iend = source + inputSize; dictEnd = dictionary dictPtr + dictSize dictPtr in
      \<lparr>e_source = source, e_dest = dest, e_iend = iend, e_mflimit = iend - MFLIMIT,
       e_matchlimit = iend - LASTLITERALS, e_olimit = dest + maxOutputSize, e_maxOutputSize = maxOutputSize,
       e_base = (if dict = noDict then source else source - currentOffset dictPtr),
       e_lowLimit = (if dict = withPrefix64k then source - dictSize dictPtr else source),
       e_lowRefLimit = source - dictSize dictPtr, e_dictionary = dictionary dictPtr, e_dictEnd = dictEnd,
       e_dictDelta = dictEnd - source, e_outputLimited = outputLimited, e_tableType = tableType, e_dict = dict,
       e_dictIssue = dictIssue, e_acceleration = acceleration\<rparr>)"

definition LZ4_compress_generic ::
  "arch \<Rightarrow> mem \<Rightarrow> LZ4_stream_t_internal \<Rightarrow> addr \<Rightarrow> addr \<Rightarrow> int \<Rightarrow> int \<Rightarrow> limitedOutput_directive \<Rightarrow> tableType_t \<Rightarrow>
   dict_directive \<Rightarrow> dictIssue_directive \<Rightarrow> int \<Rightarrow> (int \<times> mem \<times> LZ4_stream_t_internal) option" where
  "LZ4_compress_generic a m ctx source dest inputSize maxOutputSize outputLimited tableType dict dictIssue acceleration =
     (if uns32 inputSize > LZ4_MAX_INPUT_SIZE then Some (0, m, ctx)
      else if tableType = byU16 \<and> inputSize \<ge> LZ4_64Klimit then Some (0, m, ctx)
      else
      (let c = LZ4_compress_ctx ctx source dest inputSize maxOutputSize outputLimited tableType dict dictIssue acceleration in
       if inputSize < LZ4_minLength
       then do { (r, m) \<leftarrow> LZ4_last_literals c m source dest; Some (r, m, ctx) }
       else
       do { tbl \<leftarrow> LZ4_putPosition a m source (hashTable ctx) tableType (e_base c);
            forwardH \<leftarrow> LZ4_hashPosition a m (source + 1) tableType;
            (r, m, tbl) \<leftarrow> LZ4_compress_loop a c m tbl source (source + 1) dest forwardH;
            Some (r, m, ctx\<lparr>hashTable := tbl\<rparr>) }))"

declare LZ4_find_match.simps [code] LZ4_next_match.simps [code] LZ4_compress_loop.simps [code]

section \<open>Entry points\<close>

definition LZ4_resetStream :: "LZ4_stream_t_internal \<Rightarrow> LZ4_stream_t_internal" where
  "LZ4_resetStream s =
     \<lparr>hashTable = (\<lambda>_. 0), currentOffset = 0, initCheck = 0, dictionary = 0, bufferStart = 0, dictSize = 0\<rparr>"

definition LZ4_compress_fast_extState ::
  "arch \<Rightarrow> mem \<Rightarrow> LZ4_stream_t_internal \<Rightarrow> addr \<Rightarrow> addr \<Rightarrow> int \<Rightarrow> int \<Rightarrow> int \<Rightarrow>
   (int \<times> mem \<times> LZ4_stream_t_internal) option" where
  "LZ4_compress_fast_extState a m state source dest inputSize maxOutputSize acceleration =
     (let state = LZ4_resetStream state;
          acceleration = (if acceleration < 1 then ACCELERATION_DEFAULT else acceleration);
          big = (if LZ4_64bits a then byU32 else byPtr)
      in
      if maxOutputSize \<ge> LZ4_compressBound inputSize
      then (if inputSize < LZ4_64Klimit
            then LZ4_compress_generic a m state source dest inputSize 0 notLimited byU16 noDict noDictIssue acceleration
            else LZ4_compress_generic a m state source dest inputSize 0 notLimited big noDict noDictIssue acceleration)
      else (if inputSize < LZ4_64Klimit
            then LZ4_compress_generic a m state source dest inputSize maxOutputSize limitedOutput byU16 noDict noDictIssue acceleration
            else LZ4_compress_generic a m state source dest inputSize maxOutputSize limitedOutput big noDict noDictIssue acceleration))"

text \<open>The state is a local variable of \<open>LZ4_compress_fast\<close>; its initial contents are arbitrary.\<close>

definition LZ4_compress_fast ::
  "arch \<Rightarrow> mem \<Rightarrow> LZ4_stream_t_internal \<Rightarrow> addr \<Rightarrow> addr \<Rightarrow> int \<Rightarrow> int \<Rightarrow> int \<Rightarrow> (int \<times> mem) option" where
  "LZ4_compress_fast a m ctx source dest inputSize maxOutputSize acceleration =
     do { (r, m, _) \<leftarrow> LZ4_compress_fast_extState a m ctx source dest inputSize maxOutputSize acceleration;
          Some (r, m) }"

definition LZ4_compress_default ::
  "arch \<Rightarrow> mem \<Rightarrow> LZ4_stream_t_internal \<Rightarrow> addr \<Rightarrow> addr \<Rightarrow> int \<Rightarrow> int \<Rightarrow> (int \<times> mem) option" where
  "LZ4_compress_default a m ctx source dest inputSize maxOutputSize =
     LZ4_compress_fast a m ctx source dest inputSize maxOutputSize 1"

definition LZ4_compress_fast_force ::
  "arch \<Rightarrow> mem \<Rightarrow> LZ4_stream_t_internal \<Rightarrow> addr \<Rightarrow> addr \<Rightarrow> int \<Rightarrow> int \<Rightarrow> int \<Rightarrow> (int \<times> mem) option" where
  "LZ4_compress_fast_force a m ctx source dest inputSize maxOutputSize acceleration =
     (let ctx = LZ4_resetStream ctx;
          tt = (if inputSize < LZ4_64Klimit then byU16 else if LZ4_64bits a then byU32 else byPtr)
      in
      do { (r, m, _) \<leftarrow> LZ4_compress_generic a m ctx source dest inputSize maxOutputSize limitedOutput tt
                          noDict noDictIssue acceleration;
           Some (r, m) })"

definition LZ4_compress_limitedOutput ::
  "arch \<Rightarrow> mem \<Rightarrow> LZ4_stream_t_internal \<Rightarrow> addr \<Rightarrow> addr \<Rightarrow> int \<Rightarrow> int \<Rightarrow> (int \<times> mem) option" where
  "LZ4_compress_limitedOutput a m ctx source dest inputSize maxOutputSize =
     LZ4_compress_default a m ctx source dest inputSize maxOutputSize"

definition LZ4_compress ::
  "arch \<Rightarrow> mem \<Rightarrow> LZ4_stream_t_internal \<Rightarrow> addr \<Rightarrow> addr \<Rightarrow> int \<Rightarrow> (int \<times> mem) option" where
  "LZ4_compress a m ctx source dest inputSize =
     LZ4_compress_default a m ctx source dest inputSize (LZ4_compressBound inputSize)"

definition LZ4_compress_limitedOutput_withState ::
  "arch \<Rightarrow> mem \<Rightarrow> LZ4_stream_t_internal \<Rightarrow> addr \<Rightarrow> addr \<Rightarrow> int \<Rightarrow> int \<Rightarrow> (int \<times> mem \<times> LZ4_stream_t_internal) option" where
  "LZ4_compress_limitedOutput_withState a m state src dst srcSize dstSize =
     LZ4_compress_fast_extState a m state src dst srcSize dstSize 1"

definition LZ4_compress_withState ::
  "arch \<Rightarrow> mem \<Rightarrow> LZ4_stream_t_internal \<Rightarrow> addr \<Rightarrow> addr \<Rightarrow> int \<Rightarrow> (int \<times> mem \<times> LZ4_stream_t_internal) option" where
  "LZ4_compress_withState a m state src dst srcSize =
     LZ4_compress_fast_extState a m state src dst srcSize (LZ4_compressBound srcSize) 1"

end
