(* ===== verification/Lz4_Compress_Correct.thy ===== *)
theory Lz4_Compress_Correct
  imports Lz4_Compress Lz4_Block
begin

text \<open>
  Correctness of \<open>LZ4_compress_generic\<close> for every table type, dictionary mode and output limit:
  it terminates, accesses only its buffers, and either reports that the output does not fit or
  writes the encoding of a valid block that expands to the input. The proof follows the
  function: hashing and the table invariant, the match search, catching up, the extent of the
  match, the emission of a sequence, and the loops with the invariant \<open>emitted\<close>.
\<close>

section \<open>Hashes index the table\<close>

lemma unat_drop_bit_less:
  assumes "unat (w :: 'a::len word) < 2 ^ (n + k)"
  shows "unat (drop_bit k w) < 2 ^ n"
proof -
  have "unat (drop_bit k w) = unat w div 2 ^ k"
    unfolding unat_drop_bit_eq by (simp only: drop_bit_eq_div)
  then show ?thesis using assms by (simp add: less_mult_imp_div_less power_add)
qed

lemma hashSequence_bound: "unat (LZ4_hashSequence s tt) < nat (table_size tt)"
proof -
  have "unat (w :: u32) < 2 ^ 32" for w using unsigned_less [of w, where 'a = nat] by simp
  then have "unat (drop_bit 19 (w :: u32)) < 2 ^ 13" "unat (drop_bit 20 (w :: u32)) < 2 ^ 12" for w
    using unat_drop_bit_less [of w 13 19] unat_drop_bit_less [of w 12 20] by simp_all
  then show ?thesis by (simp add: LZ4_hashSequence_def table_size_def)
qed

lemma hashSequence64_bound: "unat (LZ4_hashSequence64 s tt) < nat (table_size tt)"
proof -
  have m: "unat (w AND (push_bit k 1 - 1) :: u64) < 2 ^ k" if "k < 64" for w k
  proof -
    have "push_bit k 1 - 1 = (mask k :: u64)" by (simp add: mask_eq_exp_minus_1)
    then have "w AND (push_bit k 1 - 1) = take_bit k w" by (simp add: take_bit_eq_mask)
    then show ?thesis by (simp add: unsigned_take_bit_eq)
  qed
  have u: "unat (ucast (w :: u64) :: u32) \<le> unat w" for w
    by (simp add: unsigned_ucast_eq)
  show ?thesis
    unfolding LZ4_hashSequence64_def Let_def table_size_def
    using m [of 12] m [of 13] by (auto intro: le_less_trans [OF u])
qed

lemma LZ4_hashPosition_unit:
  assumes "mapped m p (p + STEPSIZE a)"
  shows "ok (\<lambda>h. 0 \<le> h \<and> h < table_size tt) (LZ4_hashPosition a m p tt)"
proof -
  from okD [OF LZ4_read_ARCH_ok [OF assms]] obtain v where v: "LZ4_read_ARCH a m p = Some v" by blast
  have "unat (LZ4_hashSequenceT a v tt) < nat (table_size tt)"
    using hashSequence_bound hashSequence64_bound by (simp add: LZ4_hashSequenceT_def)
  then have "uint (LZ4_hashSequenceT a v tt) < table_size tt"
    by (metis nat_less_eq_zless uint_ge_0 unat_eq_nat_uint)
  with v show ?thesis by (simp add: LZ4_hashPosition_def)
qed

lemma LZ4_hashPosition_ok:
  assumes "mapped m p (p + 8)"
  shows "ok (\<lambda>h. 0 \<le> h \<and> h < table_size tt) (LZ4_hashPosition a m p tt)"
  by (rule LZ4_hashPosition_unit, rule mapped_mono [OF assms]) (auto simp: STEPSIZE_def)

section \<open>Writing lengths\<close>

lemma write_length_ok:
  assumes "0 \<le> len" "mapped m op (op + int (length (len_ext (nat len))))"
  shows "ok (\<lambda>(m', op'). op' = op + int (length (len_ext (nat len))) \<and> frame m m' op op' \<and>
               bytes_at m' op (len_ext (nat len))) (write_length m op len)"
  using assms
proof (induction m op len rule: write_length.induct)
  case (1 m op len)
  show ?case
  proof (cases "len \<ge> 255")
    case True
    have nl: "255 \<le> nat len" "nat (len - 255) = nat len - 255" using True by auto
    have e: "len_ext (nat len) = 255 # len_ext (nat (len - 255))" using nl by (subst len_ext.simps) simp
    have mo: "m op \<noteq> None" using "1.prems"(2) by (simp add: mapped_def e)
    obtain m1 where st: "store8 m op 255 = Some m1" and m1: "m1 = m(op \<mapsto> 255)" using store8_ok [of m op, OF mo] by blast
    have f: "frame m m1 op (op + 1)" using mo by (auto simp: frame_def m1)
    have "mapped m1 (op + 1) (op + 1 + int (length (len_ext (nat (len - 255)))))"
      unfolding frame_mapped [OF f] by (rule mapped_mono [OF "1.prems"(2)]) (simp_all add: e)
    with "1.IH" [OF True st] True
    have "ok (\<lambda>(m', op'). op' = op + 1 + int (length (len_ext (nat (len - 255)))) \<and> frame m1 m' (op + 1) op' \<and>
               bytes_at m' (op + 1) (len_ext (nat (len - 255)))) (write_length m1 (op + 1) (len - 255))" by simp
    then have "ok (\<lambda>(m', op'). op' = op + int (length (len_ext (nat len))) \<and> frame m m' op op' \<and>
               bytes_at m' op (len_ext (nat len))) (write_length m1 (op + 1) (len - 255))"
    proof (rule ok_mono, clarify, intro conjI)
      fix m' op' assume f': "frame m1 m' (op + 1) (op + 1 + int (length (len_ext (nat (len - 255)))))"
        and b: "bytes_at m' (op + 1) (len_ext (nat (len - 255)))"
      show "op + 1 + int (length (len_ext (nat (len - 255)))) = op + int (length (len_ext (nat len)))" by (simp add: e)
      show "frame m m' op (op + 1 + int (length (len_ext (nat (len - 255)))))"
        by (rule frame_trans [OF frame_mono [OF f] frame_mono [OF f']]) auto
      have "m' op = Some 255" using frame_eq [OF f', of op] by (simp add: m1)
      with b show "bytes_at m' op (len_ext (nat len))" by (simp add: e bytes_at_Cons)
    qed
    with True st show ?thesis by (subst write_length.simps) simp
  next
    case False
    have e: "len_ext (nat len) = [of_nat (nat len)]" using False by (subst len_ext.simps) auto
    have w: "(of_nat (nat len) :: byte) = word_of_int len" using "1.prems"(1) by (simp add: of_nat_nat)
    have mo: "m op \<noteq> None" using "1.prems"(2) by (simp add: mapped_def e)
    have st: "store8 m op (word_of_int len) = Some (m(op \<mapsto> word_of_int len))" by (rule store8_ok [of m op, OF mo])
    show ?thesis
      using False mo by (subst write_length.simps) (auto simp: st e w bytes_at_Cons frame_def)
  qed
qed

text \<open>The two-byte loop writes the same bytes.\<close>

lemma write_match_length_eq: "0 \<le> len \<Longrightarrow> write_match_length m op len = write_length m op len"
proof (induction m op len rule: write_match_length.induct)
  case (1 m op len)
  show ?case
  proof (cases "len \<ge> 510")
    case True
    show ?thesis
    proof (cases "store8 m op 255")
      case (Some m1)
      show ?thesis
      proof (cases "store8 m1 (op + 1) 255")
        case st: (Some m2)
        have "write_match_length m2 (op + 2) (len - 510) = write_length m2 (op + 2) (len - 510)"
          using "1.IH" [OF True Some st] True by simp
        with True Some st show ?thesis
          by (simp add: write_match_length.simps [of m op len] write_length.simps [of m op len]
              write_length.simps [of m1 "op + 1" "len - 255"] add.commute [of 2 op])
      qed (use True Some in \<open>simp add: write_match_length.simps [of m op len] write_length.simps [of m op len]
              write_length.simps [of m1 "op + 1" "len - 255"]\<close>)
    qed (use True in \<open>simp add: write_match_length.simps [of m op len] write_length.simps [of m op len]\<close>)
  next
    case False
    then show ?thesis
      by (cases "store8 m op 255") (simp_all add: write_match_length.simps [of m op len] write_length.simps [of m op len]
          write_length.simps [of _ "op + 1" "len - 255"])
  qed
qed

section \<open>Sizes\<close>

lemma enc_len_bound: "length (enc_len n) \<le> n div 255 + 1"
  by (auto simp: length_enc_len intro: div_le_mono)

lemma enc_seq_bound:
  assumes "4 \<le> mlen s"
  shows "length (enc_seq s) \<le> length (lits s) + mlen s + length (lits s) div 255"
proof -
  have "length (enc_len (mlen s - 4)) + 4 \<le> mlen s"
    using assms by (auto simp: length_enc_len)
  with enc_len_bound [of "length (lits s)"] show ?thesis by (simp add: length_enc_seq)
qed

lemma enc_seqs_bound:
  "valid_seqs n ss \<Longrightarrow> length (enc_seqs ss) \<le> seqs_size ss + seqs_size ss div 255"
proof (induction ss arbitrary: n)
  case (Cons s ss)
  have "length (enc_seq s) \<le> length (lits s) + mlen s + length (lits s) div 255"
    using Cons.prems by (intro enc_seq_bound) (simp add: valid_seq_def)
  moreover have "length (enc_seqs ss) \<le> seqs_size ss + seqs_size ss div 255" using Cons.IH [of "n + length (lits s) + mlen s"] Cons.prems by simp
  moreover have "length (lits s) div 255 + seqs_size ss div 255 \<le> (length (lits s) + mlen s + seqs_size ss) div 255"
    by linarith
  ultimately show ?case by simp
qed simp

section \<open>The compressor's environment\<close>

text \<open>\<open>hist\<close> are the bytes before the input that matches may refer to, \<open>src\<close> the input, \<open>oend\<close> the end of
  the mapped output region.\<close>

abbreviation vbase :: "enc_ctx \<Rightarrow> byte list \<Rightarrow> addr" where
  "vbase c hist \<equiv> e_source c - int (length hist)"

definition phys :: "enc_ctx \<Rightarrow> addr \<Rightarrow> addr" where
  "phys c x = (if e_dict c = usingExtDict \<and> x < e_source c then x + e_dictDelta c else x)"

definition hist_mem :: "enc_ctx \<Rightarrow> mem \<Rightarrow> byte list \<Rightarrow> bool" where
  "hist_mem c m hist \<longleftrightarrow>
     (case e_dict c of
        noDict \<Rightarrow> hist = [] \<and> e_lowLimit c = e_source c
      | withPrefix64k \<Rightarrow> bytes_at m (vbase c hist) hist \<and> e_lowLimit c = vbase c hist
      | usingExtDict \<Rightarrow> bytes_at m (e_dictionary c) hist \<and> e_dictEnd c = e_dictionary c + int (length hist) \<and>
                        e_dictDelta c = e_dictEnd c - e_source c \<and> e_dictionary c \<noteq> e_source c)"

definition hist_apart :: "enc_ctx \<Rightarrow> byte list \<Rightarrow> addr \<Rightarrow> bool" where
  "hist_apart c hist oend \<longleftrightarrow>
     (let lo = (if e_dict c = usingExtDict then e_dictionary c else vbase c hist) in
      lo + int (length hist) \<le> e_dest c \<or> oend \<le> lo)"

definition enc_env :: "enc_ctx \<Rightarrow> byte list \<Rightarrow> byte list \<Rightarrow> addr \<Rightarrow> mem \<Rightarrow> bool" where
  "enc_env c hist src oend m \<longleftrightarrow>
     e_iend c = e_source c + int (length src) \<and> e_mflimit c = e_iend c - 12 \<and> e_matchlimit c = e_iend c - 5 \<and>
     int (length src) \<le> LZ4_MAX_INPUT_SIZE \<and>
     bytes_at m (e_source c) src \<and> hist_mem c m hist \<and> e_lowRefLimit c = vbase c hist \<and>
     (e_iend c \<le> e_dest c \<or> oend \<le> e_source c) \<and> hist_apart c hist oend \<and>
     mapped m (e_dest c) oend \<and>
     (case e_tableType c of
        byPtr \<Rightarrow> True
      | byU32 \<Rightarrow> e_base c \<le> e_source c \<and> e_iend c - e_base c < 2 ^ 32
      | byU16 \<Rightarrow> e_base c = e_source c \<and> hist = [] \<and> length src \<le> 65546) \<and>
     1 \<le> e_acceleration c \<and> e_acceleration c \<le> 2 ^ 25"

text \<open>The size of the output buffer: with \<open>limitedOutput\<close> anything, for inputs of at most 64 KB; otherwise
  the size that \<open>LZ4_compressBound\<close> gives.\<close>

definition enc_out :: "enc_ctx \<Rightarrow> byte list \<Rightarrow> addr \<Rightarrow> bool" where
  "enc_out c src oend \<longleftrightarrow>
     (if e_outputLimited c = limitedOutput
      then e_olimit c = oend \<and> e_maxOutputSize c = oend - e_dest c \<and> 0 \<le> e_maxOutputSize c \<and>
           e_maxOutputSize c < 2 ^ 31 \<and> length src \<le> 65546
      else e_dest c + int (length src + length src div 255 + 16) \<le> oend)"

text \<open>The only reason for giving up: the output is limited, to less than \<open>LZ4_compressBound\<close> gives.\<close>

definition too_small :: "enc_ctx \<Rightarrow> byte list \<Rightarrow> addr \<Rightarrow> bool" where
  "too_small c src oend \<longleftrightarrow>
     e_outputLimited c = limitedOutput \<and> oend < e_dest c + int (length src + length src div 255 + 16)"

lemma hist_mem_frame:
  assumes "frame m m' (e_dest c) oend" "hist_apart c hist oend" "hist_mem c m hist"
  shows "hist_mem c m' hist"
proof (cases "e_dict c")
  case noDict
  with assms show ?thesis by (simp add: hist_mem_def)
next
  case withPrefix64k
  with assms(2,3) frame_bytes_at [OF assms(1), of "vbase c hist" hist] show ?thesis
    by (auto simp: hist_mem_def hist_apart_def Let_def)
next
  case usingExtDict
  with assms(2,3) frame_bytes_at [OF assms(1), of "e_dictionary c" hist] show ?thesis
    by (auto simp: hist_mem_def hist_apart_def Let_def)
qed

lemma enc_env_frame:
  assumes f: "frame m m' (e_dest c) oend" and E: "enc_env c hist src oend m"
  shows "enc_env c hist src oend m'"
proof -
  have "bytes_at m' (e_source c) src"
    using E by (subst frame_bytes_at [OF f]) (auto simp: enc_env_def)
  moreover have "hist_mem c m' hist" using hist_mem_frame [OF f] E by (auto simp: enc_env_def)
  ultimately show ?thesis using E unfolding enc_env_def frame_mapped [OF f] by blast
qed

text \<open>The byte at a virtual address: the history directly before the input.\<close>

definition byte_of :: "enc_ctx \<Rightarrow> byte list \<Rightarrow> byte list \<Rightarrow> addr \<Rightarrow> byte" where
  "byte_of c hist src x = (hist @ src) ! nat (x - vbase c hist)"

lemma phys_read:
  assumes E: "enc_env c hist src oend m" and x: "vbase c hist \<le> x" "x < e_iend c"
  shows "m (phys c x) = Some (byte_of c hist src x)"
proof (cases "x < e_source c")
  case False
  have b: "bytes_at m (e_source c) src" "e_iend c = e_source c + int (length src)" using E by (auto simp: enc_env_def)
  have "nat (x - vbase c hist) = length hist + nat (x - e_source c)" using False by simp
  then have "byte_of c hist src x = src ! nat (x - e_source c)" by (simp add: byte_of_def)
  with bytes_at_int [OF b(1), of x] False x(2) b(2) show ?thesis by (simp add: phys_def)
next
  case True
  have h: "hist_mem c m hist" using E by (simp add: enc_env_def)
  have i: "nat (x - vbase c hist) < length hist" using True x(1) by auto
  then have bo: "byte_of c hist src x = hist ! nat (x - vbase c hist)" by (simp add: byte_of_def nth_append)
  show ?thesis
  proof (cases "e_dict c")
    case noDict
    with h x True show ?thesis by (simp add: hist_mem_def)
  next
    case withPrefix64k
    with h have "bytes_at m (vbase c hist) hist" by (simp add: hist_mem_def)
    from bytes_at_int [OF this x(1)] True withPrefix64k bo show ?thesis by (simp add: phys_def)
  next
    case usingExtDict
    with h have b: "bytes_at m (e_dictionary c) hist" "e_dictDelta c = e_dictionary c - vbase c hist"
      by (auto simp: hist_mem_def)
    have "m (e_dictionary c + int (nat (x - vbase c hist))) = Some (hist ! nat (x - vbase c hist))"
      by (rule bytes_at_nth [OF b(1) i])
    moreover have "x + e_dictDelta c = e_dictionary c + int (nat (x - vbase c hist))" using b(2) x(1) by simp
    ultimately show ?thesis using usingExtDict True bo by (simp add: phys_def)
  qed
qed

lemma enc_env_source:
  assumes "enc_env c hist src oend m" "e_source c \<le> x" "x < e_iend c"
  shows "m x = Some (byte_of c hist src x)"
  using phys_read [OF assms(1), of x] assms(2,3) by (simp add: phys_def)

lemma enc_env_mapped:
  assumes "enc_env c hist src oend m" "e_source c \<le> lo" "hi \<le> e_iend c"
  shows "mapped m lo hi"
  using enc_env_source [OF assms(1)] assms(2,3) by (intro mappedI) auto

text \<open>Positions in the hash table: below the current position, far enough from the end of an external
  dictionary, and inside the history where the code does not test it.\<close>

definition pos_of :: "enc_ctx \<Rightarrow> htable \<Rightarrow> int \<Rightarrow> addr" where
  "pos_of c tbl h = (if e_tableType c = byPtr then tbl h else tbl h + e_base c)"

definition pos_ok :: "enc_ctx \<Rightarrow> byte list \<Rightarrow> addr \<Rightarrow> addr \<Rightarrow> bool" where
  "pos_ok c hist lim p \<longleftrightarrow>
     p < lim \<and> (e_dict c = usingExtDict \<longrightarrow> p < e_source c \<longrightarrow> p + 4 \<le> e_source c) \<and>
     (e_tableType c = byU32 \<longrightarrow> e_base c \<le> p) \<and>
     (e_dictIssue c = noDictIssue \<longrightarrow>
        vbase c hist \<le> p \<or> e_tableType c \<noteq> byU16 \<and> p + 65535 < e_source c)"

definition tbl_ok :: "enc_ctx \<Rightarrow> byte list \<Rightarrow> addr \<Rightarrow> htable \<Rightarrow> bool" where
  "tbl_ok c hist lim tbl \<longleftrightarrow>
     (\<forall>h. 0 \<le> h \<longrightarrow> h < table_size (e_tableType c) \<longrightarrow> pos_ok c hist lim (pos_of c tbl h))"

lemma tbl_ok_mono: "tbl_ok c hist lim tbl \<Longrightarrow> lim \<le> lim' \<Longrightarrow> tbl_ok c hist lim' tbl"
  by (fastforce simp: tbl_ok_def pos_ok_def)

lemma LZ4_getPositionOnHash_ok:
  assumes "tbl_ok c hist lim tbl" "0 \<le> h" "h < table_size (e_tableType c)"
  shows "\<exists>p. LZ4_getPositionOnHash h tbl (e_tableType c) (e_base c) = Some p \<and> pos_ok c hist lim p"
  using assms by (auto simp: LZ4_getPositionOnHash_def tbl_ok_def pos_of_def)

lemma LZ4_putPositionOnHash_ok:
  assumes E: "enc_env c hist src oend m" and T: "tbl_ok c hist (p + 1) tbl" and h: "0 \<le> h" "h < table_size (e_tableType c)"
    and p: "e_source c \<le> p" "p + 12 \<le> e_iend c"
  shows "\<exists>tbl'. LZ4_putPositionOnHash p h tbl (e_tableType c) (e_base c) = Some tbl' \<and> tbl_ok c hist (p + 1) tbl'"
proof -
  have ps: "pos_ok c hist (p + 1) p" using p E by (auto simp: pos_ok_def enc_env_def)
  have new: "tbl_ok c hist (p + 1) (tbl(h := e))" if "pos_of c (tbl(h := e)) h = p" for e
    using T that ps by (auto simp: tbl_ok_def pos_of_def)
  show ?thesis
  proof (cases "e_tableType c")
    case byPtr
    with h new [of p] show ?thesis by (simp add: LZ4_putPositionOnHash_def pos_of_def)
  next
    case byU32
    with E p have "(p - e_base c) mod 2 ^ 32 = p - e_base c" by (simp add: enc_env_def)
    with byU32 h new [of "p - e_base c"] show ?thesis by (simp add: LZ4_putPositionOnHash_def pos_of_def)
  next
    case byU16
    with E p have "(p - e_base c) mod 2 ^ 16 = p - e_base c" by (auto simp: enc_env_def)
    with byU16 h new [of "p - e_base c"] show ?thesis by (simp add: LZ4_putPositionOnHash_def pos_of_def)
  qed
qed

lemma LZ4_putPosition_ok:
  assumes E: "enc_env c hist src oend m" and T: "tbl_ok c hist (p + 1) tbl" and p: "e_source c \<le> p" "p + 12 \<le> e_iend c"
  shows "ok (tbl_ok c hist (p + 1)) (LZ4_putPosition a m p tbl (e_tableType c) (e_base c))"
proof -
  have "mapped m p (p + 8)" using enc_env_mapped [OF E, of p "p + 8"] p by simp
  from okD [OF LZ4_hashPosition_ok [OF this]] obtain h where
    h: "LZ4_hashPosition a m p (e_tableType c) = Some h" "0 \<le> h" "h < table_size (e_tableType c)" by blast
  from LZ4_putPositionOnHash_ok [OF E T h(2,3) p] h(1) show ?thesis by (auto simp: LZ4_putPosition_def)
qed

section \<open>Matches\<close>

text \<open>\<open>n\<close> bytes at \<open>ip\<close> repeat the bytes at \<open>mtch\<close>.\<close>

definition same :: "enc_ctx \<Rightarrow> byte list \<Rightarrow> byte list \<Rightarrow> addr \<Rightarrow> addr \<Rightarrow> int \<Rightarrow> bool" where
  "same c hist src ip mtch n \<longleftrightarrow> (\<forall>i. 0 \<le> i \<longrightarrow> i < n \<longrightarrow> byte_of c hist src (ip + i) = byte_of c hist src (mtch + i))"

lemma same_append:
  "same c hist src p q j \<Longrightarrow> same c hist src (p + j) (q + j) n \<Longrightarrow> same c hist src p q (j + n)"
  unfolding same_def
proof (intro allI impI)
  fix i assume A: "\<forall>i. 0 \<le> i \<longrightarrow> i < j \<longrightarrow> byte_of c hist src (p + i) = byte_of c hist src (q + i)"
    "\<forall>i. 0 \<le> i \<longrightarrow> i < n \<longrightarrow> byte_of c hist src (p + j + i) = byte_of c hist src (q + j + i)" "0 \<le> i" "i < j + n"
  then show "byte_of c hist src (p + i) = byte_of c hist src (q + i)"
    using A(2) [rule_format, of "i - j"] by (cases "i < j") auto
qed

text \<open>A candidate that may be used for \<open>ip\<close>.\<close>

definition cand :: "enc_ctx \<Rightarrow> byte list \<Rightarrow> addr \<Rightarrow> addr \<Rightarrow> bool" where
  "cand c hist ip mtch \<longleftrightarrow>
     vbase c hist \<le> mtch \<and> mtch < ip \<and> ip - mtch \<le> 65535 \<and>
     (e_dict c = usingExtDict \<longrightarrow> mtch < e_source c \<longrightarrow> mtch + 4 \<le> e_source c)"

lemma enc_ref_phys:
  assumes "enc_ref c mtch = (rd, lo)"
  shows "mtch + rd = phys c mtch"
  using assms by (auto simp: enc_ref_def phys_def split: if_splits)

text \<open>The run of common bytes of two virtual positions in memory, when neither crosses the end of an
  external dictionary.\<close>

lemma common_same:
  assumes E: "enc_env c hist src oend m" and p: "e_source c \<le> p" "p + n \<le> e_iend c"
    and q: "vbase c hist \<le> q" "q + n \<le> e_iend c" "e_dict c = usingExtDict \<longrightarrow> q < e_source c \<longrightarrow> q + n \<le> e_source c"
    and c: "common m p (phys c q) n"
  shows "same c hist src p q n"
  unfolding same_def
proof (intro allI impI)
  fix i assume i: "0 \<le> i" "i < n"
  have "phys c (q + i) = phys c q + i" using q(3) i by (auto simp: phys_def)
  then have "m (phys c (q + i)) = m (p + i)" using c i by (simp add: common_def)
  moreover have "m (phys c (q + i)) = Some (byte_of c hist src (q + i))" using phys_read [OF E] q i by simp
  moreover have "m (p + i) = Some (byte_of c hist src (p + i))" using enc_env_source [OF E] p i by simp
  ultimately show "byte_of c hist src (p + i) = byte_of c hist src (q + i)" by simp
qed

lemma phys_mapped:
  assumes E: "enc_env c hist src oend m" and q: "vbase c hist \<le> q" "q + n \<le> e_iend c"
    and "e_dict c = usingExtDict \<longrightarrow> q < e_source c \<longrightarrow> q + n \<le> e_source c"
  shows "mapped m (phys c q) (phys c q + n)"
proof (rule mappedI)
  fix x assume x: "phys c q \<le> x" "x < phys c q + n"
  let ?i = "x - phys c q"
  have "phys c (q + ?i) = x" using assms(4) x by (auto simp: phys_def)
  moreover have "m (phys c (q + ?i)) = Some (byte_of c hist src (q + ?i))"
    using x q by (intro phys_read [OF E]) auto
  ultimately show "m x \<noteq> None" by simp
qed

text \<open>The test \<open>LZ4_read32(match+refDelta) == LZ4_read32(ip)\<close>.\<close>

lemma read32_test:
  assumes E: "enc_env c hist src oend m" and C: "cand c hist ip mtch" and r: "enc_ref c mtch = (rd, lo)"
    and ip: "e_source c \<le> ip" "ip + 4 \<le> e_iend c"
  shows "\<exists>x y. LZ4_read32 a m (mtch + rd) = Some x \<and> LZ4_read32 a m ip = Some y \<and>
           (x = y \<longrightarrow> same c hist src ip mtch 4)"
proof -
  have e: "mtch + rd = phys c mtch" by (rule enc_ref_phys [OF r])
  have q: "vbase c hist \<le> mtch" "mtch + 4 \<le> e_iend c" "e_dict c = usingExtDict \<longrightarrow> mtch < e_source c \<longrightarrow> mtch + 4 \<le> e_source c"
    using C ip by (auto simp: cand_def)
  have m: "mapped m ip (ip + int 4)" "mapped m (phys c mtch) (phys c mtch + int 4)"
    using enc_env_mapped [OF E, of ip "ip + 4"] phys_mapped [OF E q] ip by simp_all
  from read_common [OF m, where 'a = 32, of a] obtain x y where
    "load_bytes m ip 4 = Some y" "load_bytes m (phys c mtch) 4 = Some x"
    "(word_of_int (native_val a x) :: u32) = word_of_int (native_val a y) \<longleftrightarrow> common m ip (phys c mtch) 4"
    by auto
  then show ?thesis
    using common_same [OF E ip q] unfolding e by (simp add: LZ4_read32_def del: load_bytes.simps)
qed

lemma cand_pos:
  assumes E: "enc_env c hist src oend m" and p: "pos_ok c hist ip p"
    and chk: "\<not> (e_dictIssue c = dictSmall \<and> p < e_lowRefLimit c)" "\<not> (e_tableType c \<noteq> byU16 \<and> p + 65535 < ip)"
    and ip: "e_source c \<le> ip" "ip + 12 \<le> e_iend c"
  shows "cand c hist ip p"
proof -
  have v: "vbase c hist \<le> p"
  proof (cases "e_dictIssue c")
    case noDictIssue
    with p chk(2) ip show ?thesis by (auto simp: pos_ok_def)
  next
    case dictSmall
    with E chk(1) show ?thesis by (auto simp: enc_env_def)
  qed
  moreover have "ip - p \<le> 65535"
  proof (cases "e_tableType c = byU16")
    case True
    with E v ip show ?thesis by (auto simp: enc_env_def)
  qed (use chk(2) in auto)
  ultimately show ?thesis using p by (auto simp: cand_def pos_ok_def)
qed

fun find_post :: "enc_ctx \<Rightarrow> byte list \<Rightarrow> byte list \<Rightarrow> addr \<Rightarrow> find_outcome \<Rightarrow> bool" where
  "find_post c hist src start (NotFound tbl) = tbl_ok c hist (e_mflimit c + 1) tbl"
| "find_post c hist src start (Found ip mtch rd lo tbl fh) =
     (start \<le> ip \<and> ip + 1 \<le> e_mflimit c \<and> tbl_ok c hist (ip + 1) tbl \<and> (rd, lo) = enc_ref c mtch \<and>
      cand c hist ip mtch \<and> same c hist src ip mtch 4)"

lemma find_post_mono: "find_post c hist src p r \<Longrightarrow> q \<le> p \<Longrightarrow> find_post c hist src q r"
  by (cases r) auto

lemma LZ4_find_match_ok:
  assumes E: "enc_env c hist src oend m" and "tbl_ok c hist ip tbl" "e_source c \<le> ip" "ip \<le> e_mflimit c + 1"
    and "1 \<le> step" "64 \<le> nb" "nb + (e_mflimit c - ip) < 2 ^ 32 - 1" "0 \<le> fh" "fh < table_size (e_tableType c)"
  shows "ok (find_post c hist src ip) (LZ4_find_match a c m tbl ip step nb fh)"
  using assms(2-)
proof (induction "nat (e_mflimit c + 1 - ip)" arbitrary: tbl ip step nb fh rule: less_induct)
  case less
  have E': "e_mflimit c = e_iend c - 12" using E by (simp add: enc_env_def)
  let ?f = "ip + step"
  show ?case
  proof (cases "?f > e_mflimit c")
    case True
    with less.prems tbl_ok_mono [OF less.prems(1)] show ?thesis
      by (subst LZ4_find_match.simps) (simp add: Let_def)
  next
    case False
    obtain mtch where mt: "LZ4_getPositionOnHash fh tbl (e_tableType c) (e_base c) = Some mtch" "pos_ok c hist ip mtch"
      using LZ4_getPositionOnHash_ok [OF less.prems(1) less.prems(7,8)] by blast
    obtain rd lo where r: "enc_ref c mtch = (rd, lo)" by (cases "enc_ref c mtch")
    have "mapped m ?f (?f + 8)" using enc_env_mapped [OF E, of ?f "?f + 8"] False less.prems E' by simp
    from okD [OF LZ4_hashPosition_ok [OF this]] obtain fh' where
      h: "LZ4_hashPosition a m ?f (e_tableType c) = Some fh'" "0 \<le> fh'" "fh' < table_size (e_tableType c)" by blast
    have ip12: "ip + 12 \<le> e_iend c" using False less.prems E' by simp
    obtain tbl' where t: "LZ4_putPositionOnHash ip fh tbl (e_tableType c) (e_base c) = Some tbl'" "tbl_ok c hist (ip + 1) tbl'"
      using LZ4_putPositionOnHash_ok [OF E tbl_ok_mono [OF less.prems(1)] less.prems(7,8,2) ip12] by auto
    let ?retry = "if e_dictIssue c = dictSmall \<and> mtch < e_lowRefLimit c then Some True
              else if e_tableType c \<noteq> byU16 \<and> mtch + 65535 < ip then Some True
              else do { x \<leftarrow> LZ4_read32 a m (mtch + rd); y \<leftarrow> LZ4_read32 a m ip; Some (x \<noteq> y) }"
    have "\<exists>b. ?retry = Some b \<and> (\<not> b \<longrightarrow> cand c hist ip mtch \<and> same c hist src ip mtch 4)"
    proof (cases "(e_dictIssue c = dictSmall \<and> mtch < e_lowRefLimit c) \<or> (e_tableType c \<noteq> byU16 \<and> mtch + 65535 < ip)")
      case chk: False
      then have C: "cand c hist ip mtch" using cand_pos [OF E mt(2) _ _ less.prems(2) ip12] by blast
      from read32_test [OF E C r less.prems(2), of a] ip12 chk C show ?thesis by auto
    qed auto
    then obtain b where b: "?retry = Some b" "\<not> b \<Longrightarrow> cand c hist ip mtch \<and> same c hist src ip mtch 4" by blast
    have unf: "LZ4_find_match a c m tbl ip step nb fh =
       (if b then LZ4_find_match a c m tbl' ?f (nb div 64) (uns32 (nb + 1)) fh'
        else Some (Found ip mtch rd lo tbl' fh'))"
      using False mt(1) r h(1) t(1) b(1) by (subst LZ4_find_match.simps) (simp add: Let_def)
    show ?thesis
    proof (cases b)
      case True
      have "ok (find_post c hist src ?f) (LZ4_find_match a c m tbl' ?f (nb div 64) (uns32 (nb + 1)) fh')"
      proof (rule less.hyps)
        show "tbl_ok c hist ?f tbl'" by (rule tbl_ok_mono [OF t(2)]) (use less.prems in simp)
        show "1 \<le> nb div 64" using less.prems by simp
        show "64 \<le> uns32 (nb + 1)" "uns32 (nb + 1) + (e_mflimit c - ?f) < 2 ^ 32 - 1"
          using less.prems False by simp_all
      qed (use less.prems False h in auto)
      then have "ok (find_post c hist src ip) (LZ4_find_match a c m tbl' ?f (nb div 64) (uns32 (nb + 1)) fh')"
        by (rule ok_mono) (erule find_post_mono, use less.prems in auto)
      with True unf show ?thesis by simp
    next
      case nb: False
      have "ip + 1 \<le> e_mflimit c" using False less.prems by simp
      with nb b(2) unf t(2) r show ?thesis by simp
    qed
  qed
qed

lemma same_1:
  assumes "byte_of c hist src p = byte_of c hist src q"
  shows "same c hist src p q 1"
  unfolding same_def
proof (intro allI impI)
  fix i :: int assume "0 \<le> i" "i < 1"
  then have "i = 0" by simp
  with assms show "byte_of c hist src (p + i) = byte_of c hist src (q + i)" by simp
qed

lemma enc_ref_step:
  assumes E: "enc_env c hist src oend m" and C: "cand c hist ip mtch" and r: "(rd, lo) = enc_ref c mtch" and l: "mtch + rd > lo"
  shows "cand c hist (ip - 1) (mtch - 1) \<and> (rd, lo) = enc_ref c (mtch - 1)"
proof (cases "e_dict c = usingExtDict")
  case True
  with E have "e_dictDelta c = e_dictionary c + int (length hist) - e_source c" by (simp add: enc_env_def hist_mem_def)
  with True C r l show ?thesis by (auto simp: cand_def enc_ref_def split: if_splits)
next
  case False
  with E have "e_lowLimit c = vbase c hist" by (auto simp: enc_env_def hist_mem_def split: dict_directive.splits)
  with False C r l show ?thesis by (auto simp: cand_def enc_ref_def)
qed

lemma LZ4_catch_up_ok:
  assumes E: "enc_env c hist src oend m" and "cand c hist ip mtch" "(rd, lo) = enc_ref c mtch"
    and "e_source c \<le> anchor" "anchor \<le> ip" "ip < e_iend c"
  shows "ok (\<lambda>(ip', mtch'). anchor \<le> ip' \<and> ip' \<le> ip \<and> cand c hist ip' mtch' \<and> mtch' = mtch - (ip - ip') \<and>
              (rd, lo) = enc_ref c mtch' \<and> same c hist src ip' mtch' (ip - ip'))
           (LZ4_catch_up m anchor rd lo ip mtch)"
  using assms(2-)
proof (induction "nat (ip - anchor)" arbitrary: ip mtch rule: less_induct)
  case less
  show ?case
  proof (cases "ip > anchor \<and> mtch + rd > lo")
    case True
    have s: "cand c hist (ip - 1) (mtch - 1)" "(rd, lo) = enc_ref c (mtch - 1)"
      using enc_ref_step [OF E less.prems(1,2)] True by blast+
    have p: "phys c (mtch - 1) = mtch + rd - 1" using enc_ref_phys [OF s(2) [symmetric]] by simp
    have x: "m (ip - 1) = Some (byte_of c hist src (ip - 1))" using True less.prems by (intro enc_env_source [OF E]) auto
    have y: "m (mtch + rd - 1) = Some (byte_of c hist src (mtch - 1))"
      unfolding p [symmetric] using s(1) less.prems by (intro phys_read [OF E]) (auto simp: cand_def)
    show ?thesis
    proof (cases "byte_of c hist src (ip - 1) = byte_of c hist src (mtch - 1)")
      case eq: True
      have "ok (\<lambda>(ip', mtch'). anchor \<le> ip' \<and> ip' \<le> ip - 1 \<and> cand c hist ip' mtch' \<and> mtch' = mtch - 1 - (ip - 1 - ip') \<and>
              (rd, lo) = enc_ref c mtch' \<and> same c hist src ip' mtch' (ip - 1 - ip'))
           (LZ4_catch_up m anchor rd lo (ip - 1) (mtch - 1))"
        by (rule less.hyps) (use True less.prems s in auto)
      then have "ok (\<lambda>(ip', mtch'). anchor \<le> ip' \<and> ip' \<le> ip \<and> cand c hist ip' mtch' \<and> mtch' = mtch - (ip - ip') \<and>
              (rd, lo) = enc_ref c mtch' \<and> same c hist src ip' mtch' (ip - ip'))
           (LZ4_catch_up m anchor rd lo (ip - 1) (mtch - 1))"
      proof (rule ok_mono, clarify, intro conjI)
        fix ip'
        let ?d = "ip - 1 - ip'"
        assume p: "anchor \<le> ip'" "ip' \<le> ip - 1" "cand c hist ip' (mtch - 1 - ?d)" "(rd, lo) = enc_ref c (mtch - 1 - ?d)"
          and s: "same c hist src ip' (mtch - 1 - ?d) ?d"
        have e: "ip' + ?d = ip - 1" "mtch - 1 - ?d + ?d = mtch - 1" "?d + 1 = ip - ip'" by simp_all
        have "same c hist src (ip - 1) (mtch - 1) 1" using eq by (rule same_1)
        then have "same c hist src ip' (mtch - 1 - ?d) (?d + 1)" by (intro same_append [OF s]) (simp only: e)
        then show "same c hist src ip' (mtch - 1 - ?d) (ip - ip')" by (simp only: e)
      qed auto
      with True x y eq show ?thesis by (subst LZ4_catch_up.simps) simp
    next
      case False
      with True x y less.prems show ?thesis by (subst LZ4_catch_up.simps) (simp add: same_def)
    qed
  next
    case False
    with less.prems show ?thesis by (subst LZ4_catch_up.simps) (auto simp: same_def)
  qed
qed

text \<open>The extent of the match is the longest run of equal bytes before the limit.\<close>

definition extent :: "enc_ctx \<Rightarrow> byte list \<Rightarrow> byte list \<Rightarrow> addr \<Rightarrow> addr \<Rightarrow> int \<Rightarrow> bool" where
  "extent c hist src ip mtch n \<longleftrightarrow>
     4 \<le> n \<and> ip + n \<le> e_matchlimit c \<and> same c hist src ip mtch n \<and>
     (ip + n = e_matchlimit c \<or> byte_of c hist src (ip + n) \<noteq> byte_of c hist src (mtch + n))"

lemma extent_max:
  assumes "extent c hist src ip mtch n" "same c hist src ip mtch k" "ip + k \<le> e_matchlimit c"
  shows "k \<le> n"
proof (rule ccontr)
  assume "\<not> k \<le> n"
  with assms have "0 \<le> n" "n < k" "ip + n \<noteq> e_matchlimit c" by (auto simp: extent_def)
  moreover from this assms(2) have "byte_of c hist src (ip + n) = byte_of c hist src (mtch + n)" by (simp add: same_def)
  ultimately show False using assms(1) by (simp add: extent_def)
qed

lemma longest_extent:
  assumes E: "enc_env c hist src oend m" and s: "same c hist src ip mtch j" and j: "4 \<le> j"
    and ip: "e_source c \<le> ip" and q: "vbase c hist \<le> mtch" "mtch < ip" "e_dict c = usingExtDict \<longrightarrow> mtch + j < e_source c \<longrightarrow> False"
    and l: "longest_common m (ip + j) (mtch + j) (e_matchlimit c) n"
  shows "extent c hist src ip mtch (j + n)"
proof -
  have lim: "e_matchlimit c = e_iend c - 5" using E by (simp add: enc_env_def)
  have n: "0 \<le> n" "ip + j + n \<le> e_matchlimit c" "common m (ip + j) (mtch + j) n"
    "ip + j + n = e_matchlimit c \<or> m (ip + j + n) \<noteq> m (mtch + j + n)" using l by (auto simp: longest_common_def)
  have p: "phys c (mtch + j) = mtch + j" "phys c (mtch + j + n) = mtch + j + n" using q n by (auto simp: phys_def)
  have "same c hist src (ip + j) (mtch + j) n"
    by (rule common_same [OF E]) (use p n lim ip j q in auto)
  with same_append [OF s] have "same c hist src ip mtch (j + n)" by blast
  moreover have "m (ip + j + n) = Some (byte_of c hist src (ip + (j + n)))" if "ip + j + n \<noteq> e_matchlimit c"
    using enc_env_source [OF E, of "ip + (j + n)"] that n lim ip j by (simp add: algebra_simps)
  moreover have "m (mtch + j + n) = Some (byte_of c hist src (mtch + (j + n)))" if "ip + j + n \<noteq> e_matchlimit c"
    using phys_read [OF E, of "mtch + j + n"] that n lim ip j q p by (simp add: algebra_simps)
  ultimately show ?thesis using n j by (auto simp: extent_def algebra_simps)
qed

lemma LZ4_match_extent_ok:
  assumes E: "enc_env c hist src oend m" and C: "cand c hist ip mtch" and r: "(rd, lo) = enc_ref c mtch"
    and s: "same c hist src ip mtch 4" and ip: "e_source c \<le> ip" "ip + 12 \<le> e_iend c"
  shows "ok (\<lambda>(ml, ip'). extent c hist src ip mtch (ml + 4) \<and> ip' = ip + ml + 4 \<and> 0 \<le> ml) (LZ4_match_extent a c m ip mtch rd lo)"
proof -
  have ee: "e_matchlimit c = e_iend c - 5" "e_iend c - e_source c < 2 ^ 31" using E by (auto simp: enc_env_def)
  have q: "vbase c hist \<le> mtch" "mtch < ip" using C by (auto simp: cand_def)
  have cnt: "ok (\<lambda>n. extent c hist src ip mtch (j + n)) (LZ4_count a m (ip + j) (mtch + j) (e_matchlimit c))"
    if j: "4 \<le> j" "same c hist src ip mtch j" "ip + j \<le> e_matchlimit c" "e_dict c = usingExtDict \<longrightarrow> e_source c \<le> mtch + j" for j
  proof -
    have "mapped m (ip + j) (e_matchlimit c)" by (rule enc_env_mapped [OF E]) (use ip ee j in auto)
    moreover have "phys c (mtch + j) = mtch + j" using j(4) by (auto simp: phys_def)
    then have "mapped m (mtch + j) (mtch + j + (e_matchlimit c - (ip + j)))"
      using phys_mapped [OF E, of "mtch + j" "e_matchlimit c - (ip + j)"] q ee j by auto
    ultimately have "ok (longest_common m (ip + j) (mtch + j) (e_matchlimit c)) (LZ4_count a m (ip + j) (mtch + j) (e_matchlimit c))"
      by (rule LZ4_count_ok) (use j ip ee in auto)
    then show ?thesis by (rule ok_mono) (rule longest_extent [OF E j(2,1) ip(1) q], use j in auto)
  qed
  show ?thesis
  proof (cases "e_dict c = usingExtDict \<and> lo = e_dictionary c")
    case False
    have "e_dict c = usingExtDict \<longrightarrow> e_source c \<le> mtch"
      using False r by (auto simp: enc_ref_def split: if_splits)
    then have "ok (\<lambda>n. extent c hist src ip mtch (4 + n)) (LZ4_count a m (ip + 4) (mtch + 4) (e_matchlimit c))"
      using s ip ee by (intro cnt) auto
    then show ?thesis unfolding LZ4_match_extent_def
      using False by (auto simp: add.commute extent_def elim!: ok_mono)
  next
    case True
    have h: "e_dictDelta c = e_dictEnd c - e_source c" "e_dictionary c \<noteq> e_source c" using E True by (auto simp: enc_env_def hist_mem_def)
    with True r have ms: "mtch < e_source c" "rd = e_dictDelta c" by (auto simp: enc_ref_def split: if_splits)
    then have ms4: "mtch + 4 \<le> e_source c" using C True by (auto simp: cand_def)
    let ?lim = "min (ip + (e_source c - mtch)) (e_matchlimit c)"
    let ?q = "phys c mtch + 4"
    have pm: "mtch + rd = phys c mtch" using True ms by (simp add: phys_def)
    have "mapped m (phys c mtch) (phys c mtch + (?lim - ip))"
      by (rule phys_mapped [OF E]) (use q ip ee in auto)
    then have mq: "mapped m ?q (?q + (?lim - (ip + 4)))" by (rule mapped_mono) auto
    have mp: "mapped m (ip + 4) ?lim" by (rule enc_env_mapped [OF E]) (use ip ee in auto)
    have "ok (longest_common m (ip + 4) ?q ?lim) (LZ4_count a m (ip + 4) ?q ?lim)"
      by (rule LZ4_count_ok [OF mp mq]) (use ms4 ip ee in auto)
    then obtain n where n: "LZ4_count a m (ip + 4) ?q ?lim = Some n" "longest_common m (ip + 4) ?q ?lim n" by (blast dest: okD)
    then have n': "0 \<le> n" "ip + 4 + n \<le> ?lim" "common m (ip + 4) ?q n" "ip + 4 + n = ?lim \<or> m (ip + 4 + n) \<noteq> m (?q + n)"
      by (auto simp: longest_common_def)
    have pn: "phys c (mtch + (4 + i)) = ?q + i" if "0 \<le> i" "i < e_source c - mtch - 4" for i using True ms that by (auto simp: phys_def)
    have sn: "same c hist src ip mtch (4 + n)"
    proof (rule same_append [OF s])
      show "same c hist src (ip + 4) (mtch + 4) n"
      proof (cases "n = 0")
        case False
        have "phys c (mtch + 4) = ?q" using pn [of 0] n' False by simp
        then show ?thesis using n' q ip ee by (intro common_same [OF E]) auto
      qed (simp add: same_def)
    qed
    have lim: "(if ip + (e_dictEnd c - (mtch + rd)) > e_matchlimit c then e_matchlimit c else ip + (e_dictEnd c - (mtch + rd))) = ?lim"
      using h ms by (simp add: min_def)
    have unf: "LZ4_match_extent a c m ip mtch rd lo =
        (if ip + (4 + n) = ?lim
         then do { extra \<leftarrow> LZ4_count a m (ip + (4 + n)) (e_source c) (e_matchlimit c); Some (uns32 (n + extra), ip + (4 + n) + extra) }
         else Some (n, ip + (4 + n)))"
      unfolding LZ4_match_extent_def Let_def unfolding lim unfolding pm using True n(1) by simp
    show ?thesis
    proof (cases "ip + 4 + n = ?lim")
      case full: True
      have ext: "ok (\<lambda>k. extent c hist src ip mtch (4 + n + k)) (LZ4_count a m (ip + (4 + n)) (e_source c) (e_matchlimit c))"
      proof (cases "mtch + (4 + n) = e_source c")
        case True
        then show ?thesis using cnt [of "4 + n"] sn n' by simp
      next
        case False
        with full n' have e: "ip + (4 + n) = e_matchlimit c" by (auto simp: min_def split: if_splits)
        have "ok (longest_common m (e_matchlimit c) (e_source c) (e_matchlimit c)) (LZ4_count a m (e_matchlimit c) (e_source c) (e_matchlimit c))"
          by (rule LZ4_count_ok) (auto simp: mapped_def)
        then show ?thesis unfolding e
          by (rule ok_mono) (use sn n' e in \<open>auto simp: longest_common_def extent_def\<close>)
      qed
      then obtain k where k: "LZ4_count a m (ip + (4 + n)) (e_source c) (e_matchlimit c) = Some k" "extent c hist src ip mtch (4 + n + k)"
        by (blast dest: okD)
      have "uns32 (n + k) = n + k" "0 \<le> n + k" using k(2) n' ip ee by (auto simp: extent_def)
      moreover have "ip + (4 + n) = ?lim" using full by simp
      ultimately show ?thesis
        using k unf by (simp add: algebra_simps)
    next
      case False
      have "ip + (4 + n) \<noteq> ?lim" using False by simp
      moreover have "extent c hist src ip mtch (4 + n)"
      proof -
        have lt: "ip + (4 + n) < e_matchlimit c" "n < e_source c - mtch - 4" using False n' by auto
        have "m (ip + (4 + n)) = Some (byte_of c hist src (ip + (4 + n)))" using lt ip ee n' by (intro enc_env_source [OF E]) auto
        moreover have "m (?q + n) = Some (byte_of c hist src (mtch + (4 + n)))"
          using phys_read [OF E, of "mtch + (4 + n)"] pn [of n] lt ip ee n' q by auto
        ultimately show ?thesis using n' False sn lt by (auto simp: extent_def algebra_simps)
      qed
      ultimately show ?thesis
        using unf n' by (simp add: algebra_simps)
    qed
  qed
qed

definition literals :: "enc_ctx \<Rightarrow> byte list \<Rightarrow> addr \<Rightarrow> addr \<Rightarrow> byte list" where
  "literals c src p q = take (nat (q - p)) (drop (nat (p - e_source c)) src)"

lemma literals_at:
  assumes "enc_env c hist src oend m" "e_source c \<le> p" "p \<le> q" "q \<le> e_iend c"
  shows "bytes_at m p (literals c src p q)" "int (length (literals c src p q)) = q - p"
proof -
  have e: "bytes_at m (e_source c) src" "e_iend c = e_source c + int (length src)" using assms(1) by (auto simp: enc_env_def)
  have "bytes_at m (e_source c + int (nat (p - e_source c))) (literals c src p q)"
    unfolding literals_def by (rule bytes_at_sub [OF e(1)]) (use assms e in auto)
  with assms(2) show "bytes_at m p (literals c src p q)" by simp
  show "int (length (literals c src p q)) = q - p" using assms e by (simp add: literals_def)
qed

text \<open>A token and its length bytes.\<close>

lemma enc_len_small: "n < 15 \<Longrightarrow> enc_len n = []"
  by (simp add: enc_len_def)

lemma write_run_ok:
  assumes n: "0 \<le> n" and mp: "mapped m tok (tok + 1 + int (length (enc_len (nat n))))"
  shows "ok (\<lambda>(m', op). op = tok + 1 + int (length (enc_len (nat n))) \<and> frame m m' tok op \<and>
               bytes_at m' tok (token (nat n) 0 # enc_len (nat n)))
           (if n \<ge> RUN_MASK
            then do { m \<leftarrow> store8 m tok (word_of_int (RUN_MASK * 16)); write_length m (tok + 1) (n - RUN_MASK) }
            else do { m \<leftarrow> store8 m tok (word_of_int (n * 16)); Some (m, tok + 1) })"
proof -
  have mo: "m tok \<noteq> None" using mp by (simp add: mapped_def)
  have st: "store8 m tok b = Some (m(tok \<mapsto> b))" for b by (rule store8_ok [of m tok, OF mo])
  have fr: "frame m (m(tok \<mapsto> b)) tok (tok + 1)" for b using mo by (auto simp: frame_def)
  show ?thesis
  proof (cases "n \<ge> 15")
    case True
    let ?m = "m(tok \<mapsto> word_of_int (15 * 16))"
    have e: "enc_len (nat n) = len_ext (nat (n - 15))" using True by (auto simp: enc_len_def nat_diff_distrib nat_le_iff)
    have t: "token (nat n) 0 = word_of_int (15 * 16)" using True by (simp add: token_def)
    have "mapped ?m (tok + 1) (tok + 1 + int (length (len_ext (nat (n - 15)))))"
      unfolding frame_mapped [OF fr] by (rule mapped_mono [OF mp]) (simp_all add: e)
    then have "ok (\<lambda>(m', op). op = tok + 1 + int (length (len_ext (nat (n - 15)))) \<and> frame ?m m' (tok + 1) op \<and>
               bytes_at m' (tok + 1) (len_ext (nat (n - 15)))) (write_length ?m (tok + 1) (n - 15))"
      using True by (intro write_length_ok) auto
    then have "ok (\<lambda>(m', op). op = tok + 1 + int (length (enc_len (nat n))) \<and> frame m m' tok op \<and>
               bytes_at m' tok (token (nat n) 0 # enc_len (nat n))) (write_length ?m (tok + 1) (n - 15))"
    proof (rule ok_mono, clarify, unfold e, intro conjI)
      fix m' assume f: "frame ?m m' (tok + 1) (tok + 1 + int (length (len_ext (nat (n - 15)))))"
        and b: "bytes_at m' (tok + 1) (len_ext (nat (n - 15)))"
      have "m' tok = Some (word_of_int (15 * 16))" using frame_eq [OF f, of tok] by simp
      with b have "bytes_at m' tok (token (nat n) 0 # len_ext (nat (n - 15)))" by (simp add: bytes_at_Cons t)
      then show "bytes_at m' tok (token (nat n) 0 # len_ext (nat (n - 15)))" .
      show "frame m m' tok (tok + 1 + int (length (len_ext (nat (n - 15)))))"
        by (rule frame_trans [OF frame_mono [OF fr] frame_mono [OF f]]) auto
    qed simp
    with True st show ?thesis by simp
  next
    case False
    then have "min (nat n) 15 = nat n" by simp
    then have "token (nat n) 0 = word_of_int (n * 16)" using n by (simp add: token_def mult.commute)
    with False st fr show ?thesis by (simp add: enc_len_small bytes_at_Cons)
  qed
qed

lemma copy_literals_ok:
  assumes E: "enc_env c hist src oend m" and a: "e_source c \<le> anchor" "anchor \<le> ip" "ip + 12 \<le> e_iend c"
    and tok: "e_dest c \<le> tok" and n: "n = ip - anchor"
    and room: "tok + 1 + int (length (enc_len (nat n))) + max 8 (n + 7) \<le> oend"
  shows "ok (\<lambda>(m', r). frame m m' tok oend \<and> r = Some (tok + 1 + int (length (enc_len (nat n))) + n) \<and>
              bytes_at m' tok (token (nat n) 0 # enc_len (nat n) @ literals c src anchor ip))
         (do { (m, op) \<leftarrow>
                 (if n \<ge> RUN_MASK
                  then do { m \<leftarrow> store8 m tok (word_of_int (RUN_MASK * 16)); write_length m (tok + 1) (n - RUN_MASK) }
                  else do { m \<leftarrow> store8 m tok (word_of_int (n * 16)); Some (m, tok + 1) });
               m \<leftarrow> LZ4_wildCopy m op anchor (op + n);
               Some (m, Some (op + n)) })"
proof -
  let ?k = "int (length (enc_len (nat n)))"
  have ee: "mapped m (e_dest c) oend" "e_iend c \<le> e_dest c \<or> oend \<le> e_source c" using E by (auto simp: enc_env_def)
  have n0: "0 \<le> n" using n a by simp
  have "mapped m tok (tok + 1 + ?k)" by (rule mapped_mono [OF ee(1)]) (use tok room n0 in auto)
  from okD [OF write_run_ok [OF n0 this]] obtain m1 where
    w: "(if n \<ge> RUN_MASK
          then do { m \<leftarrow> store8 m tok (word_of_int (RUN_MASK * 16)); write_length m (tok + 1) (n - RUN_MASK) }
          else do { m \<leftarrow> store8 m tok (word_of_int (n * 16)); Some (m, tok + 1) }) = Some (m1, tok + 1 + ?k)"
    and f1: "frame m m1 tok (tok + 1 + ?k)" and b1: "bytes_at m1 tok (token (nat n) 0 # enc_len (nat n))" by auto
  let ?op = "tok + 1 + ?k"
  have E1: "enc_env c hist src oend m1" by (rule enc_env_frame [OF frame_mono [OF f1] E]) (use tok room n0 in auto)
  have "mapped m1 anchor (anchor + max 8 (?op + n - ?op + 7))" by (rule enc_env_mapped [OF E1]) (use a n in auto)
  moreover have "mapped m1 ?op (?op + max 8 (?op + n - ?op + 7))"
    unfolding frame_mapped [OF f1] by (rule mapped_mono [OF ee(1)]) (use tok room n0 in auto)
  ultimately obtain m2 where wc: "LZ4_wildCopy m1 ?op anchor (?op + n) = Some m2"
    and f2: "frame m1 m2 ?op (?op + max 8 (?op + n - ?op + 7))"
    and cp: "?op - anchor \<ge> 8 \<or> anchor - ?op \<ge> max 8 (?op + n - ?op + 7) \<longrightarrow> copied m2 (?op - anchor) ?op (max (?op + 8) (?op + n))"
    using okD [OF LZ4_wildCopy_ok [of m1 anchor "?op + n" ?op]] by blast
  have "8 \<le> ?op - anchor \<or> max 8 (?op + n - ?op + 7) \<le> anchor - ?op"
    using ee(2) a tok room n0 by auto
  with cp have c2: "copied m2 (?op - anchor) ?op (?op + n)" by (auto simp: copied_def)
  have l: "bytes_at m2 anchor (literals c src anchor ip)"
    by (rule literals_at [OF enc_env_frame [OF frame_mono [OF f2] E1]]) (use tok room n0 a in auto)
  have ll: "int (length (literals c src anchor ip)) = n" using literals_at [OF E] a n by auto
  have b2: "bytes_at m2 ?op (literals c src anchor ip)"
    unfolding bytes_at_def
  proof (intro allI impI)
    fix i assume i: "i < length (literals c src anchor ip)"
    then have "m2 (?op + int i) = m2 (?op + int i - (?op - anchor))" using c2 ll by (simp add: copied_def)
    with bytes_at_nth [OF l i, unfolded add.commute [of anchor]] show "m2 (?op + int i) = Some (literals c src anchor ip ! i)" by simp
  qed
  have "bytes_at m2 tok (token (nat n) 0 # enc_len (nat n))"
    using b1 by (subst frame_bytes_at [OF f2]) auto
  with b2 have "bytes_at m2 tok ((token (nat n) 0 # enc_len (nat n)) @ literals c src anchor ip)"
    unfolding bytes_at_append by (simp add: algebra_simps)
  moreover have "frame m m2 tok oend"
    by (rule frame_trans [OF frame_mono [OF f1] frame_mono [OF f2]]) (use room n0 in auto)
  ultimately show ?thesis using w wc by simp
qed

lemma enc_len_room: "0 \<le> n \<Longrightarrow> int (length (enc_len (nat n))) \<le> n div 255 + 1"
proof -
  assume "0 \<le> n"
  moreover have "int (length (enc_len (nat n))) \<le> int (nat n div 255 + 1)" using enc_len_bound [of "nat n"] by (rule zle_int [THEN iffD2])
  ultimately show ?thesis by (simp add: zdiv_int)
qed

lemma LZ4_encode_literals_ok:
  assumes E: "enc_env c hist src oend m" and O: "enc_out c src oend" and a: "e_source c \<le> anchor" "anchor \<le> ip" "ip + 12 \<le> e_iend c"
    and tok: "e_dest c \<le> tok"
    and room: "e_outputLimited c = limitedOutput \<or>
       tok + 1 + int (length (enc_len (nat (ip - anchor)))) + (ip - anchor) + 8 \<le> oend"
  shows "ok (\<lambda>(m', r). frame m m' tok oend \<and>
           (case r of None \<Rightarrow> e_outputLimited c = limitedOutput \<and> oend < tok + 9 + (ip - anchor) + (ip - anchor) div 255
            | Some op \<Rightarrow> op = tok + 1 + int (length (enc_len (nat (ip - anchor)))) + (ip - anchor) \<and> op + 7 \<le> oend \<and>
                bytes_at m' tok (token (nat (ip - anchor)) 0 # enc_len (nat (ip - anchor)) @ literals c src anchor ip)))
         (LZ4_encode_literals c m anchor ip tok)"
proof -
  let ?n = "ip - anchor"
  let ?k = "int (length (enc_len (nat ?n)))"
  have "e_iend c = e_source c + int (length src)" "int (length src) \<le> LZ4_MAX_INPUT_SIZE" using E by (auto simp: enc_env_def)
  then have n: "uns32 ?n = ?n" "int32 ?n = ?n" "0 \<le> ?n" using a by auto
  show ?thesis
  proof (cases "e_outputLimited c = limitedOutput \<and> tok + 1 + ?n + (2 + 1 + 5) + ?n div 255 > e_olimit c")
    case True
    then show ?thesis using O by (simp add: LZ4_encode_literals_def Let_def n enc_out_def)
  next
    case False
    have r: "tok + 1 + ?k + ?n + 7 \<le> oend"
      using room False enc_len_room [OF n(3)] O by (auto simp: enc_out_def split: if_splits)
    have r8: "tok + 1 + ?k + max 8 (?n + 7) \<le> oend"
    proof (cases "?n = 0")
      case True
      then show ?thesis using room False O by (auto simp: enc_out_def enc_len_small split: if_splits)
    qed (use r n in auto)
    show ?thesis
      unfolding LZ4_encode_literals_def Let_def n if_not_P [OF False]
      by (rule ok_mono [OF copy_literals_ok [OF E a tok refl r8]]) (use r in auto)
  qed
qed

lemma enc_off_word:
  assumes "0 \<le> D" "D \<le> 65535"
  shows "[ucast (word_of_int D :: u16), ucast (drop_bit 8 (word_of_int D :: u16))] = enc_off (nat D)"
proof -
  have u: "uint (word_of_int D :: u16) = D" using assms by (simp add: uint_word_of_int)
  have "unat (word_of_int D :: u16) = nat D" using u by (simp add: unat_eq_nat_uint)
  moreover from this have "unat (drop_bit 8 (word_of_int D :: u16)) = nat D div 256"
    unfolding unat_drop_bit_eq by (simp add: drop_bit_eq_div)
  ultimately have "ucast (drop_bit 8 (word_of_int D :: u16)) = (of_nat (nat D div 256) :: byte)"
    "ucast (word_of_int D :: u16) = (of_nat (nat D mod 256) :: byte)"
    by (simp_all add: word_unat_eq_iff unsigned_ucast_eq unsigned_of_nat take_bit_eq_mod)
  then show ?thesis by (simp add: enc_off_def)
qed

lemma token_add: "token ll 0 + of_nat (min ml 15) = token ll ml"
  by (simp add: token_def)

text \<open>The match-length field: the token is completed and the length bytes follow at \<open>op\<close>.\<close>

lemma write_match_field_ok:
  assumes n: "0 \<le> ml" and t: "m tok = Some (token ll 0)" and o: "tok < op"
    and mp: "mapped m op (op + int (length (enc_len (nat ml))))"
  shows "ok (\<lambda>(m', op'). op' = op + int (length (enc_len (nat ml))) \<and> frame m m' tok op' \<and>
               m' tok = Some (token ll (nat ml)) \<and> bytes_at m' op (enc_len (nat ml)) \<and>
               (\<forall>x. tok < x \<and> x < op \<longrightarrow> m' x = m x))
           (if ml \<ge> ML_MASK
            then do { m \<leftarrow> store8 m tok (token ll 0 + 15); write_match_length m op (ml - ML_MASK) }
            else do { m \<leftarrow> store8 m tok (token ll 0 + word_of_int ml); Some (m, op) })"
proof -
  have st: "store8 m tok b = Some (m(tok \<mapsto> b))" for b by (rule store8_ok) (simp add: t)
  have fr: "frame m (m(tok \<mapsto> b)) tok (tok + 1)" for b using t by (auto simp: frame_def)
  show ?thesis
  proof (cases "ml \<ge> 15")
    case True
    let ?m = "m(tok \<mapsto> token ll 0 + 15)"
    have e: "enc_len (nat ml) = len_ext (nat (ml - 15))" using True by (auto simp: enc_len_def nat_diff_distrib nat_le_iff)
    have "min (nat ml) 15 = 15" using True by simp
    then have tk: "token ll 0 + 15 = token ll (nat ml)" using token_add [of ll "nat ml"] by simp
    have "mapped ?m op (op + int (length (len_ext (nat (ml - 15)))))"
      unfolding frame_mapped [OF fr] by (rule mapped_mono [OF mp]) (simp_all add: e)
    then have "ok (\<lambda>(m', op'). op' = op + int (length (len_ext (nat (ml - 15)))) \<and> frame ?m m' op op' \<and>
               bytes_at m' op (len_ext (nat (ml - 15)))) (write_match_length ?m op (ml - 15))"
      using True by (subst write_match_length_eq) (auto intro!: write_length_ok)
    then have "ok (\<lambda>(m', op'). op' = op + int (length (enc_len (nat ml))) \<and> frame m m' tok op' \<and>
               m' tok = Some (token ll (nat ml)) \<and> bytes_at m' op (enc_len (nat ml)) \<and>
               (\<forall>x. tok < x \<and> x < op \<longrightarrow> m' x = m x)) (write_match_length ?m op (ml - 15))"
    proof (rule ok_mono, clarify, unfold e, intro conjI)
      fix m' assume f: "frame ?m m' op (op + int (length (len_ext (nat (ml - 15)))))"
      show "frame m m' tok (op + int (length (len_ext (nat (ml - 15)))))"
        by (rule frame_trans [OF frame_mono [OF fr] frame_mono [OF f]]) (use o in auto)
      show "m' tok = Some (token ll (nat ml))" using frame_eq [OF f, of tok] o tk by simp
      show "\<forall>x. tok < x \<and> x < op \<longrightarrow> m' x = m x" using frame_eq [OF f] by auto
    qed (rule refl)
    with True st show ?thesis by simp
  next
    case False
    then have "min (nat ml) 15 = nat ml" by simp
    then have "token ll 0 + word_of_int ml = token ll (nat ml)" using token_add [of ll "nat ml"] n by simp
    moreover have "frame m (m(tok \<mapsto> token ll (nat ml))) tok op" by (rule frame_mono [OF fr]) (use o in auto)
    ultimately show ?thesis using False st o by (simp add: enc_len_small)
  qed
qed

fun match_post :: "enc_ctx \<Rightarrow> byte list \<Rightarrow> byte list \<Rightarrow> addr \<Rightarrow> addr \<Rightarrow> addr \<Rightarrow> addr \<Rightarrow> byte list \<Rightarrow> mem \<Rightarrow>
    mem \<times> (addr \<times> addr) option \<Rightarrow> bool" where
  "match_post c hist src oend tok ip mtch L m (m', None) =
     (frame m m' tok oend \<and> e_outputLimited c = limitedOutput \<and>
      (\<exists>n. 0 \<le> n \<and> ip + n + 4 \<le> e_matchlimit c \<and> oend < tok + 9 + int (length (enc_len (length L)) + length L) + n))"
| "match_post c hist src oend tok ip mtch L m (m', Some (op', ip')) =
     (frame m m' tok oend \<and> extent c hist src ip mtch (ip' - ip) \<and>
      op' = tok + int (length (enc_seq (Seq L (nat (ip - mtch)) (nat (ip' - ip))))) \<and>
      bytes_at m' tok (enc_seq (Seq L (nat (ip - mtch)) (nat (ip' - ip)))) \<and>
      (e_outputLimited c = limitedOutput \<longrightarrow> op' + 4 \<le> oend))"

text \<open>The output limit test allows for one length byte per 256 bytes of match, the encoding takes one per
  255; below 64 KB the margin of the test covers the difference.\<close>

lemma match_limit_margin:
  assumes "n \<le> 65546"
  shows "length (enc_len n) \<le> n div 256 + 2"
proof (cases "15 \<le> n")
  case True
  have "n < 256 * (n div 256) + 256" "n div 256 \<le> 256" using assms by linarith+
  then have "(n - 15) div 255 < n div 256 + 2" by (intro less_mult_imp_div_less) simp
  then show ?thesis by (simp add: length_enc_len)
qed (simp add: enc_len_small)

lemma write_offset_ok:
  assumes "0 \<le> D" "D \<le> 65535" "mapped m op (op + 2)"
  shows "\<exists>m'. LZ4_writeLE16 a m op (word_of_int D) = Some m' \<and> frame m m' op (op + 2) \<and> bytes_at m' op (enc_off (nat D))"
  using okD [OF store_bytes_ok [of m op "enc_off (nat D)"]] assms(3)
  unfolding LZ4_writeLE16_eq enc_off_word [OF assms(1,2)] by auto

text \<open>Completing a sequence whose token, literals and offset have been written.\<close>

lemma finish_seq_ok:
  assumes b: "bytes_at m tok (token (length L) 0 # enc_len (length L) @ L)" and o: "bytes_at m op (enc_off D)"
    and op: "op = tok + 1 + int (length (enc_len (length L))) + int (length L)" and ml: "0 \<le> ml"
    and mp: "mapped m (op + 2) (op + 2 + int (length (enc_len (nat ml))))"
  shows "\<exists>m'. (if ml \<ge> ML_MASK
            then do { m \<leftarrow> store8 m tok (token (length L) 0 + 15); write_match_length m (op + 2) (ml - ML_MASK) }
            else do { m \<leftarrow> store8 m tok (token (length L) 0 + word_of_int ml); Some (m, op + 2) }) =
              Some (m', tok + int (length (enc_seq (Seq L D (nat (ml + 4)))))) \<and>
           frame m m' tok (op + 2 + int (length (enc_len (nat ml)))) \<and> bytes_at m' tok (enc_seq (Seq L D (nat (ml + 4))))"
proof -
  let ?k = "int (length (enc_len (nat ml)))"
  have t: "m tok = Some (token (length L) 0)" using b by (simp add: bytes_at_Cons)
  have nm: "nat (ml + 4) - 4 = nat ml" using ml by (simp add: nat_add_distrib)
  let ?s = "Seq L D (nat (ml + 4))"
  have sq: "enc_seq ?s = (token (length L) (nat ml) # enc_len (length L) @ L) @ enc_off D @ enc_len (nat ml)"
    by (simp add: enc_seq_def nm)
  have len: "tok + int (length (enc_seq ?s)) = op + 2 + ?k" unfolding sq by (simp add: op)
  from okD [OF write_match_field_ok [OF ml t _ mp]] obtain m2 where
    w2: "(if ml \<ge> ML_MASK
          then do { m \<leftarrow> store8 m tok (token (length L) 0 + 15); write_match_length m (op + 2) (ml - ML_MASK) }
          else do { m \<leftarrow> store8 m tok (token (length L) 0 + word_of_int ml); Some (m, op + 2) }) = Some (m2, op + 2 + ?k)"
    and f2: "frame m m2 tok (op + 2 + ?k)" and t2: "m2 tok = Some (token (length L) (nat ml))"
    and b2: "bytes_at m2 (op + 2) (enc_len (nat ml))" and k2: "\<forall>x. tok < x \<and> x < op + 2 \<longrightarrow> m2 x = m x"
    using op by auto
  have "bytes_at m2 tok (token (length L) (nat ml) # enc_len (length L) @ L)"
    unfolding bytes_at_Cons
  proof
    have "bytes_at m (tok + 1) (enc_len (length L) @ L)" using b by (simp add: bytes_at_Cons)
    then show "bytes_at m2 (tok + 1) (enc_len (length L) @ L)" using k2 op by (auto simp: bytes_at_def)
  qed (rule t2)
  moreover have "bytes_at m2 op (enc_off D)" using o k2 op by (auto simp: bytes_at_def)
  ultimately have "bytes_at m2 tok (enc_seq ?s)"
    using b2 unfolding sq bytes_at_append by (simp add: op algebra_simps)
  with w2 f2 show ?thesis unfolding len by blast
qed

lemma LZ4_encode_match_ok:
  assumes E: "enc_env c hist src oend m" and O: "enc_out c src oend" and C: "cand c hist ip mtch" and r: "(rd, lo) = enc_ref c mtch"
    and s: "same c hist src ip mtch 4" and ip: "e_source c \<le> ip" "ip + 12 \<le> e_iend c"
    and tok: "e_dest c \<le> tok" and op: "op = tok + 1 + int (length (enc_len (length L))) + int (length L)" "op + 2 \<le> oend"
    and b: "bytes_at m tok (token (length L) 0 # enc_len (length L) @ L)"
    and room: "e_outputLimited c = limitedOutput \<or>
       (\<forall>n. extent c hist src ip mtch n \<longrightarrow> op + 2 + int (length (enc_len (nat (n - 4)))) \<le> oend)"
  shows "ok (match_post c hist src oend tok ip mtch L m) (LZ4_encode_match a c m ip mtch rd lo tok op)"
proof -
  let ?D = "ip - mtch"
  have D: "0 \<le> ?D" "?D \<le> 65535" using C by (auto simp: cand_def)
  have mo: "mapped m (e_dest c) oend" using E by (simp add: enc_env_def)
  have "mapped m op (op + 2)" by (rule mapped_mono [OF mo]) (use tok op in auto)
  from write_offset_ok [OF D this, of a] obtain m1 where
    w: "LZ4_writeLE16 a m op (word_of_int ?D) = Some m1" and f1: "frame m m1 op (op + 2)" and b1: "bytes_at m1 op (enc_off (nat ?D))" by blast
  have f1': "frame m m1 tok oend" by (rule frame_mono [OF f1]) (use op in auto)
  have E1: "enc_env c hist src oend m1" by (rule enc_env_frame [OF frame_mono [OF f1] E]) (use tok op in auto)
  from okD [OF LZ4_match_extent_ok [OF E1 C r s ip]] obtain ml where
    ml: "LZ4_match_extent a c m1 ip mtch rd lo = Some (ml, ip + ml + 4)" "extent c hist src ip mtch (ml + 4)" "0 \<le> ml" by fastforce
  let ?k = "int (length (enc_len (nat ml)))"
  have bt: "bytes_at m1 tok (token (length L) 0 # enc_len (length L) @ L)"
    using b by (subst frame_bytes_at [OF f1]) (auto simp: op)
  then have t: "m1 tok = Some (token (length L) 0)" by (simp add: bytes_at_Cons)
  show ?thesis
  proof (cases "e_outputLimited c = limitedOutput \<and> op + 2 + 6 + ml div 256 > e_olimit c")
    case True
    moreover have "ml div 256 \<le> ml" using ml(3) by linarith
    moreover have "e_olimit c = oend" using True O by (simp add: enc_out_def)
    ultimately show ?thesis using w ml f1' op(1)
      by (auto simp: LZ4_encode_match_def extent_def intro!: exI [of _ ml])
  next
    case False
    have kb: "op + 2 + ?k + 4 \<le> oend" if lim: "e_outputLimited c = limitedOutput"
    proof -
      have l: "e_olimit c = oend" "length src \<le> 65546" "e_matchlimit c = e_source c + int (length src) - 5"
        using E O lim by (auto simp: enc_env_def enc_out_def)
      have "nat ml \<le> 65546" using ml(2,3) ip l by (auto simp: extent_def)
      then have "?k \<le> int (nat ml div 256 + 2)" using match_limit_margin by (intro zle_int [THEN iffD2])
      then have "?k \<le> ml div 256 + 2" using ml(3) by (simp add: zdiv_int)
      with False lim l show ?thesis by simp
    qed
    have rm: "op + 2 + ?k \<le> oend" using room kb ml(2,3) by auto
    have "mapped m1 (op + 2) (op + 2 + ?k)" unfolding frame_mapped [OF f1] by (rule mapped_mono [OF mo]) (use tok op rm in auto)
    from finish_seq_ok [OF bt b1 op(1) ml(3) this] obtain m2 where
      w2: "(if ml \<ge> ML_MASK
            then do { m \<leftarrow> store8 m1 tok (token (length L) 0 + 15); write_match_length m (op + 2) (ml - ML_MASK) }
            else do { m \<leftarrow> store8 m1 tok (token (length L) 0 + word_of_int ml); Some (m, op + 2) }) =
              Some (m2, tok + int (length (enc_seq (Seq L (nat ?D) (nat (ml + 4))))))"
      and f2: "frame m1 m2 tok (op + 2 + ?k)" and b2: "bytes_at m2 tok (enc_seq (Seq L (nat ?D) (nat (ml + 4))))" by blast
    let ?op = "tok + int (length (enc_seq (Seq L (nat ?D) (nat (ml + 4)))))"
    have "LZ4_encode_match a c m ip mtch rd lo tok op = Some (m2, Some (?op, ip + ml + 4))"
      unfolding LZ4_encode_match_def Let_def using w ml(1) t False w2 by (auto simp: bind_eq_Some_conv split: if_splits)
    moreover have "frame m m2 tok oend" by (rule frame_trans [OF f1' frame_mono [OF f2]]) (use rm in auto)
    moreover have "?op = op + 2 + ?k" using ml(3) by (simp add: length_enc_seq op(1) nat_add_distrib)
    moreover have "ip + ml + 4 - ip = ml + 4" by simp
    ultimately show ?thesis using kb ml(2) b2 by simp
  qed
qed

section \<open>What has been emitted\<close>

definition emitted :: "enc_ctx \<Rightarrow> byte list \<Rightarrow> byte list \<Rightarrow> addr \<Rightarrow> seq list \<Rightarrow> addr \<Rightarrow> addr \<Rightarrow> mem \<Rightarrow> bool" where
  "emitted c hist src oend ss anchor op m \<longleftrightarrow>
     e_source c \<le> anchor \<and> anchor \<le> e_iend c \<and> op = e_dest c + int (length (enc_seqs ss)) \<and>
     bytes_at m (e_dest c) (enc_seqs ss) \<and> apply_seqs hist ss = hist @ take (nat (anchor - e_source c)) src \<and>
     valid_seqs (length hist) ss \<and> end_ok (length src) 0 ss \<and> op \<le> oend"

lemma emitted_size:
  assumes "enc_env c hist src oend m" "emitted c hist src oend ss anchor op m'"
  shows "int (seqs_size ss) = anchor - e_source c"
proof -
  have e: "e_iend c = e_source c + int (length src)" using assms(1) by (simp add: enc_env_def)
  have "length (apply_seqs hist ss) = length (hist @ take (nat (anchor - e_source c)) src)"
    using assms(2) by (simp add: emitted_def)
  then have "seqs_size ss = min (length src) (nat (anchor - e_source c))" by simp
  moreover have "nat (anchor - e_source c) \<le> length src" "e_source c \<le> anchor" using assms(2) e by (auto simp: emitted_def)
  ultimately show ?thesis by simp
qed

lemma emitted_frame:
  assumes "emitted c hist src oend ss anchor op m" "frame m m' op oend"
  shows "emitted c hist src oend ss anchor op m'"
  using assms frame_bytes_at [OF assms(2), of "e_dest c" "enc_seqs ss"] by (auto simp: emitted_def)

text \<open>Without an output limit the bound on the size of the buffer leaves room for every sequence.\<close>

lemma room_seq:
  assumes E: "enc_env c hist src oend m" and O: "enc_out c src oend" and M: "emitted c hist src oend ss anchor tok m'" and lim: "e_outputLimited c = notLimited"
    and n: "4 \<le> mlen s" "anchor + int (length (lits s) + mlen s) \<le> e_iend c"
  shows "tok + int (length (enc_seq s)) + 16 \<le> oend"
proof -
  have e: "e_iend c = e_source c + int (length src)" "e_dest c + int (length src + length src div 255 + 16) \<le> oend"
    using E O lim by (auto simp: enc_env_def enc_out_def)
  have sz: "int (seqs_size ss) = anchor - e_source c" by (rule emitted_size [OF E M])
  have b1: "length (enc_seqs ss) \<le> seqs_size ss + seqs_size ss div 255"
    using M by (intro enc_seqs_bound [of "length hist"]) (simp add: emitted_def)
  have b2: "length (enc_seq s) \<le> length (lits s) + mlen s + length (lits s) div 255" by (rule enc_seq_bound [OF n(1)])
  have le: "seqs_size ss + length (lits s) + mlen s \<le> length src" using sz n(2) e(1) by linarith
  have "seqs_size ss div 255 + length (lits s) div 255 \<le> (seqs_size ss + length (lits s)) div 255" by linarith
  also have "\<dots> \<le> length src div 255" using le by (intro div_le_mono) simp
  finally have "length (enc_seqs ss) + length (enc_seq s) \<le> length src + length src div 255" using b1 b2 le by linarith
  with e(2) M show ?thesis by (auto simp: emitted_def)
qed

text \<open>Where the output limit stops the compressor, the buffer is smaller than the bound.\<close>

lemma emitted_bound:
  assumes E: "enc_env c hist src oend m" and M: "emitted c hist src oend ss anchor tok m'"
  shows "tok - e_dest c \<le> anchor - e_source c + (anchor - e_source c) div 255"
proof -
  have "length (enc_seqs ss) \<le> seqs_size ss + seqs_size ss div 255"
    using M by (intro enc_seqs_bound [of "length hist"]) (simp add: emitted_def)
  then have "int (length (enc_seqs ss)) \<le> int (seqs_size ss) + int (seqs_size ss) div 255" by (simp flip: zdiv_int)
  then show ?thesis using M unfolding emitted_size [OF E M] by (simp add: emitted_def)
qed

lemma too_smallI:
  assumes E: "enc_env c hist src oend m" and M: "emitted c hist src oend ss anchor tok m'" and lim: "e_outputLimited c = limitedOutput"
    and n: "0 \<le> n" "0 \<le> k" "anchor + n + k \<le> e_iend c" "oend < tok + n + n div 255 + k + 16"
  shows "too_small c src oend"
proof -
  have e: "int (length src) = e_iend c - e_source c" using E by (simp add: enc_env_def)
  have "(anchor - e_source c) div 255 + n div 255 \<le> (anchor - e_source c + n) div 255" by linarith
  also have "\<dots> \<le> int (length src) div 255" using n(2,3) e by (intro zdiv_mono1) auto
  finally show ?thesis using emitted_bound [OF E M] n(2-) e lim by (simp add: too_small_def zdiv_int)
qed

lemma same_copy:
  assumes e: "e_source c + int (length src) = e_iend c" and C: "cand c hist ip mtch" and s: "same c hist src ip mtch n"
    and ip: "e_source c \<le> ip" "0 \<le> n" "ip + n \<le> e_iend c"
  shows "copy_match (hist @ take (nat (ip - e_source c)) src) (nat (ip - mtch)) (nat n) =
           hist @ take (nat (ip + n - e_source c)) src"
proof (rule copy_match_unique [symmetric])
  let ?k = "nat (ip - e_source c)"
  let ?out = "hist @ take ?k src"
  let ?ys = "hist @ take (nat (ip + n - e_source c)) src"
  have k: "nat (ip + n - e_source c) = ?k + nat n" "?k + nat n \<le> length src" using ip e by auto
  then have lo: "length ?out = length hist + ?k" "length ?ys = length hist + ?k + nat n" by simp_all
  show "length ?ys = length ?out + nat n" using lo by simp
  show "take (length ?out) ?ys = ?out" using k by (simp add: min_def)
  show "1 \<le> nat (ip - mtch)" "nat (ip - mtch) \<le> length ?out" using C ip lo by (auto simp: cand_def)
  fix i assume i: "length ?out \<le> i" "i < length ?ys"
  define j where "j = int i - int (length ?out)"
  have j: "0 \<le> j" "j < n" using i lo k by (auto simp: j_def)
  have ii: "int i = ip + j - vbase c hist" using ip lo by (simp add: j_def)
  then have i1: "nat (ip + j - vbase c hist) = i" by simp
  have i2: "nat (mtch + j - vbase c hist) = i - nat (ip - mtch)" using ii C by (auto simp: cand_def)
  have ys: "?ys ! x = (hist @ src) ! x" if "x < length ?ys" for x
    using that lo k by (cases "x < length hist") (auto simp: nth_append less_diff_conv2 not_less intro!: nth_take)
  have "(hist @ src) ! i = (hist @ src) ! (i - nat (ip - mtch))"
    using s j unfolding same_def byte_of_def by (metis i1 i2)
  then show "?ys ! i = ?ys ! (i - nat (ip - mtch))" using i(2) ys by simp
qed

lemma emitted_step:
  assumes E: "enc_env c hist src oend m" and M: "emitted c hist src oend ss anchor op m" and f: "frame m m' op oend"
    and C: "cand c hist ip mtch" and x: "4 \<le> n" "ip + n \<le> e_matchlimit c" "same c hist src ip mtch n"
    and ip: "anchor \<le> ip" "ip + 12 \<le> e_iend c" and s: "s = Seq (literals c src anchor ip) (nat (ip - mtch)) (nat n)"
    and b: "bytes_at m' op (enc_seq s)" and op': "op' = op + int (length (enc_seq s))" "op' \<le> oend"
  shows "emitted c hist src oend (ss @ [s]) (ip + n) op' m'"
proof -
  have e: "e_iend c = e_source c + int (length src)" "e_matchlimit c = e_iend c - 5" using E by (auto simp: enc_env_def)
  have M': "e_source c \<le> anchor" "anchor \<le> e_iend c" "apply_seqs hist ss = hist @ take (nat (anchor - e_source c)) src"
    "valid_seqs (length hist) ss" "end_ok (length src) 0 ss" "op = e_dest c + int (length (enc_seqs ss))" using M by (auto simp: emitted_def)
  have n: "4 \<le> n" "ip + n \<le> e_iend c - 5" "same c hist src ip mtch n" using x e by auto
  have sz: "int (seqs_size ss) = anchor - e_source c" by (rule emitted_size [OF E M])
  have L: "int (length (lits s)) = ip - anchor" unfolding s using literals_at(2) [OF E, of anchor ip] M' ip by simp
  have "nat (ip - e_source c) = nat (anchor - e_source c) + nat (ip - anchor)" using M' ip by simp
  then have "take (nat (anchor - e_source c)) src @ lits s = take (nat (ip - e_source c)) src"
    unfolding s literals_def by (simp add: take_add)
  then have "apply_seqs hist (ss @ [s]) = copy_match (hist @ take (nat (ip - e_source c)) src) (nat (ip - mtch)) (nat n)"
    using M'(3) by (simp add: apply_seq_def s)
  also have "\<dots> = hist @ take (nat (ip + n - e_source c)) src"
    by (rule same_copy [OF _ C n(3)]) (use e n M' ip in auto)
  finally have A: "apply_seqs hist (ss @ [s]) = hist @ take (nat (ip + n - e_source c)) src" .
  have ms: "off s = nat (ip - mtch)" "mlen s = nat n" by (simp_all add: s)
  have V: "valid_seqs (length hist) (ss @ [s])"
    using M'(4) C sz L n ip by (auto simp: valid_seq_def ms cand_def)
  have Z: "end_ok (length src) 0 (ss @ [s])"
    using M'(5) sz L n ip e by (auto simp: ms)
  have "bytes_at m' (e_dest c) (enc_seqs ss)" using emitted_frame [OF M f] by (simp add: emitted_def)
  with b M'(6) have "bytes_at m' (e_dest c) (enc_seqs (ss @ [s]))" by (simp add: bytes_at_append)
  with A V Z op' n e M' ip show ?thesis by (simp add: emitted_def)
qed

section \<open>The loops\<close>

text \<open>What a part of the main loop leaves behind, started with memory \<open>m\<close> at input position \<open>start\<close>.\<close>

fun outcome_post :: "enc_ctx \<Rightarrow> byte list \<Rightarrow> byte list \<Rightarrow> addr \<Rightarrow> mem \<Rightarrow> addr \<Rightarrow> enc_outcome \<Rightarrow> bool" where
  "outcome_post c hist src oend m start (Return0 m' tbl) =
     (frame m m' (e_dest c) oend \<and> tbl_ok c hist (e_iend c - 8) tbl \<and> too_small c src oend)"
| "outcome_post c hist src oend m start (LastLiterals m' tbl anchor op) =
     (frame m m' (e_dest c) oend \<and> tbl_ok c hist (e_iend c - 8) tbl \<and> (\<exists>ss. emitted c hist src oend ss anchor op m'))"
| "outcome_post c hist src oend m start (Continue m' tbl ip op fh) =
     (frame m m' (e_dest c) oend \<and> tbl_ok c hist ip tbl \<and> (\<exists>ss. emitted c hist src oend ss (ip - 1) op m') \<and>
      start < ip \<and> e_source c < ip \<and> ip \<le> e_mflimit c + 1 \<and> 0 \<le> fh \<and> fh < table_size (e_tableType c))"

lemma outcome_post_trans:
  assumes "outcome_post c hist src oend m' start' r" "frame m m' (e_dest c) oend" "start \<le> start'"
  shows "outcome_post c hist src oend m start r"
  using assms by (cases r) (auto dest: frame_trans)

text \<open>The test at the next position.\<close>

lemma next_test:
  assumes E: "enc_env c hist src oend m" and p: "pos_ok c hist ip mtch" and r: "enc_ref c mtch = (rd, lo)"
    and ip: "e_source c \<le> ip" "ip + 12 \<le> e_iend c"
  shows "\<exists>b. (if (e_dictIssue c = dictSmall \<longrightarrow> mtch \<ge> e_lowRefLimit c) \<and> mtch + MAX_DISTANCE \<ge> ip
              then do { x \<leftarrow> LZ4_read32 a m (mtch + rd); y \<leftarrow> LZ4_read32 a m ip; Some (x = y) }
              else Some False) = Some b \<and> (b \<longrightarrow> cand c hist ip mtch \<and> same c hist src ip mtch 4)"
proof (cases "(e_dictIssue c = dictSmall \<longrightarrow> mtch \<ge> e_lowRefLimit c) \<and> mtch + 65535 \<ge> ip")
  case True
  then have C: "cand c hist ip mtch" by (intro cand_pos [OF E p _ _ ip]) auto
  from read32_test [OF E C r ip(1), of a] ip True C show ?thesis by auto
qed auto

lemma LZ4_next_match_ok:
  assumes O: "enc_out c src oend" and "enc_env c hist src oend m" "emitted c hist src oend ss anchor tok m"
    and "cand c hist ip mtch" "(rd, lo) = enc_ref c mtch" "same c hist src ip mtch k" "4 \<le> k" "ip + k + 5 \<le> e_iend c"
    and "tbl_ok c hist (ip + k - 3) tbl" "anchor \<le> ip" "ip + 12 \<le> e_iend c"
    and "op = tok + 1 + int (length (enc_len (nat (ip - anchor)))) + (ip - anchor)" "op + 2 \<le> oend"
    and "bytes_at m tok (token (nat (ip - anchor)) 0 # enc_len (nat (ip - anchor)) @ literals c src anchor ip)"
  shows "ok (outcome_post c hist src oend m (ip + k)) (LZ4_next_match a c m tbl ip mtch rd lo tok op)"
  using assms(2-)
proof (induction "nat (e_iend c - ip)" arbitrary: m ss anchor tok ip mtch rd lo k tbl op rule: less_induct)
  case less
  note E = less.prems(1) and M = less.prems(2) and C = less.prems(3)
  have e: "e_iend c = e_source c + int (length src)" "e_matchlimit c = e_iend c - 5" "e_mflimit c = e_iend c - 12"
    using E by (auto simp: enc_env_def)
  have an: "e_source c \<le> anchor" "e_dest c \<le> tok" using M by (auto simp: emitted_def)
  let ?L = "literals c src anchor ip"
  have L: "int (length ?L) = ip - anchor" by (rule literals_at [OF E an(1)]) (use less.prems in auto)
  then have L': "nat (ip - anchor) = length ?L" by simp
  have s4: "same c hist src ip mtch 4" using less.prems(5,6) by (auto simp: same_def)
  have rm: "e_outputLimited c = limitedOutput \<or>
       (\<forall>n. extent c hist src ip mtch n \<longrightarrow> op + 2 + int (length (enc_len (nat (n - 4)))) \<le> oend)"
  proof (cases "e_outputLimited c")
    case notLimited
    show ?thesis
    proof (intro disjI2 allI impI)
      fix n assume x: "extent c hist src ip mtch n"
      then have "tok + int (length (enc_seq (Seq ?L (nat (ip - mtch)) (nat n)))) + 16 \<le> oend"
        by (intro room_seq [OF E O M notLimited]) (use L e in \<open>auto simp: extent_def\<close>)
      then show "op + 2 + int (length (enc_len (nat (n - 4)))) \<le> oend"
        using less.prems(11) L x by (simp add: length_enc_seq L' nat_diff_distrib extent_def)
    qed
  qed simp
  have "ok (match_post c hist src oend tok ip mtch ?L m) (LZ4_encode_match a c m ip mtch rd lo tok op)"
    by (rule LZ4_encode_match_ok [OF E O C less.prems(4) s4 _ less.prems(10) an(2) _ less.prems(12) _ rm])
       (use less.prems L L' an in auto)
  then obtain m1 r where em: "LZ4_encode_match a c m ip mtch rd lo tok op = Some (m1, r)" "match_post c hist src oend tok ip mtch ?L m (m1, r)"
    by (auto dest: okD)
  have f1: "frame m m1 tok oend" using em(2) by (cases r) auto
  then have f1': "frame m m1 (e_dest c) oend" by (rule frame_mono) (use an in auto)
  have E1: "enc_env c hist src oend m1" by (rule enc_env_frame [OF f1' E])
  show ?case
  proof (cases r)
    case None
    then obtain n where n: "0 \<le> n" "ip + n + 4 \<le> e_matchlimit c" "e_outputLimited c = limitedOutput"
      "oend < tok + 9 + int (length (enc_len (length ?L)) + length ?L) + n" using em(2) by auto
    have "int (length (enc_len (length ?L))) \<le> (ip - anchor) div 255 + 1"
      using enc_len_bound [of "length ?L"] L by (simp add: zdiv_int flip: L)
    then have "too_small c src oend"
      by (intro too_smallI [OF E M n(3), of "ip - anchor" n]) (use n less.prems L e in auto)
    moreover have "tbl_ok c hist (e_iend c - 8) tbl" by (rule tbl_ok_mono [OF less.prems(8)]) (use less.prems in auto)
    ultimately show ?thesis using None em f1' by (subst LZ4_next_match.simps) simp
  next
    case (Some q)
    obtain op' ip' where q: "q = (op', ip')" by (cases q)
    let ?s = "Seq ?L (nat (ip - mtch)) (nat (ip' - ip))"
    have x: "extent c hist src ip mtch (ip' - ip)" and op': "op' = tok + int (length (enc_seq ?s))"
      "bytes_at m1 tok (enc_seq ?s)" "e_outputLimited c = limitedOutput \<longrightarrow> op' + 4 \<le> oend"
      using em(2) unfolding Some q by auto
    have ip': "ip + k \<le> ip'" "ip' + 5 \<le> e_iend c" "4 \<le> ip' - ip"
      using extent_max [OF x less.prems(5)] less.prems(7) e x by (auto simp: extent_def)
    have o4: "op' + 4 \<le> oend"
    proof (cases "e_outputLimited c")
      case notLimited
      have "tok + int (length (enc_seq ?s)) + 16 \<le> oend"
        by (rule room_seq [OF E O M notLimited]) (use L x e in \<open>auto simp: extent_def\<close>)
      then show ?thesis using op' by simp
    qed (use op' in simp)
    have M1: "emitted c hist src oend (ss @ [?s]) ip' op' m1"
      using emitted_step [OF E M f1 C _ _ _ less.prems(9,10) refl op'(2) op'(1)] x o4 by (simp add: extent_def)
    show ?thesis
    proof (cases "ip' > e_mflimit c")
      case True
      have "tbl_ok c hist (e_iend c - 8) tbl" by (rule tbl_ok_mono [OF less.prems(8)]) (use less.prems in auto)
      with True em Some q f1' M1 show ?thesis by (subst LZ4_next_match.simps) auto
    next
      case False
      have i12: "ip' + 12 \<le> e_iend c" "e_source c \<le> ip' - 2" "e_source c \<le> ip'" using False e ip' an less.prems by auto
      have "tbl_ok c hist (ip' - 2 + 1) tbl" by (rule tbl_ok_mono [OF less.prems(8)]) (use ip' in auto)
      from okD [OF LZ4_putPosition_ok [OF E1 this, of a]] i12 obtain tbl1 where
        p1: "LZ4_putPosition a m1 (ip' - 2) tbl (e_tableType c) (e_base c) = Some tbl1" "tbl_ok c hist (ip' - 1) tbl1" by auto
      have T1: "tbl_ok c hist ip' tbl1" by (rule tbl_ok_mono [OF p1(2)]) simp
      have "mapped m1 ip' (ip' + 8)" by (rule enc_env_mapped [OF E1]) (use i12 in auto)
      from okD [OF LZ4_hashPosition_ok [OF this, of "e_tableType c" a]] obtain h where
        h: "LZ4_hashPosition a m1 ip' (e_tableType c) = Some h" "0 \<le> h" "h < table_size (e_tableType c)" by blast
      from LZ4_getPositionOnHash_ok [OF T1 h(2,3)] h(1) obtain mtch' where
        g: "LZ4_getPosition a m1 ip' tbl1 (e_tableType c) (e_base c) = Some mtch'" "pos_ok c hist ip' mtch'" by (auto simp: LZ4_getPosition_def)
      have T2: "tbl_ok c hist (ip' + 1) tbl1" by (rule tbl_ok_mono [OF T1]) simp
      from okD [OF LZ4_putPosition_ok [OF E1 T2 i12(3,1), of a]] obtain tbl2 where
        p2: "LZ4_putPosition a m1 ip' tbl1 (e_tableType c) (e_base c) = Some tbl2" "tbl_ok c hist (ip' + 1) tbl2" by blast
      obtain rd' lo' where rr: "enc_ref c mtch' = (rd', lo')" by (cases "enc_ref c mtch'")
      obtain b where b: "(if (e_dictIssue c = dictSmall \<longrightarrow> mtch' \<ge> e_lowRefLimit c) \<and> mtch' + MAX_DISTANCE \<ge> ip'
              then do { x \<leftarrow> LZ4_read32 a m1 (mtch' + rd'); y \<leftarrow> LZ4_read32 a m1 ip'; Some (x = y) }
              else Some False) = Some b" "b \<longrightarrow> cand c hist ip' mtch' \<and> same c hist src ip' mtch' 4"
        using next_test [OF E1 g(2) rr i12(3,1), of a] by blast
      have "mapped m1 (ip' + 1) (ip' + 1 + 8)" by (rule enc_env_mapped [OF E1]) (use i12 in auto)
      from okD [OF LZ4_hashPosition_ok [OF this, of "e_tableType c" a]] obtain h' where
        h': "LZ4_hashPosition a m1 (ip' + 1) (e_tableType c) = Some h'" "0 \<le> h'" "h' < table_size (e_tableType c)" by blast
      have "m1 op' \<noteq> None" using E1 o4 M1 by (auto simp: enc_env_def emitted_def mapped_def)
      then have st: "store8 m1 op' 0 = Some (m1(op' \<mapsto> 0))" by (rule store8_ok)
      have unf: "LZ4_next_match a c m tbl ip mtch rd lo tok op =
          (if b then LZ4_next_match a c (m1(op' \<mapsto> 0)) tbl2 ip' mtch' rd' lo' op' (op' + 1)
           else Some (Continue m1 tbl2 (ip' + 1) op' h'))"
        using False em Some q p1(1) g(1) rr p2(1) b(1) h'(1) st
        by (subst LZ4_next_match.simps) (simp del: store8_def)
      show ?thesis
      proof (cases b)
        case True
        let ?m2 = "m1(op' \<mapsto> 0)"
        have f2: "frame m1 ?m2 op' oend" using \<open>m1 op' \<noteq> None\<close> o4 by (auto simp: frame_def)
        then have f2': "frame m1 ?m2 (e_dest c) oend" by (rule frame_mono) (use M1 in \<open>auto simp: emitted_def\<close>)
        have "ok (outcome_post c hist src oend ?m2 (ip' + 4)) (LZ4_next_match a c ?m2 tbl2 ip' mtch' rd' lo' op' (op' + 1))"
        proof (rule less.hyps [OF _ enc_env_frame [OF f2' E1] emitted_frame [OF M1 f2]])
          show "bytes_at ?m2 op' (token (nat (ip' - ip')) 0 # enc_len (nat (ip' - ip')) @ literals c src ip' ip')"
            by (simp add: enc_len_small literals_def token_def bytes_at_Cons)
          show "tbl_ok c hist (ip' + 4 - 3) tbl2" by (rule tbl_ok_mono [OF p2(2)]) simp
        qed (use True b(2) rr ip' i12 p2(2) o4 less.prems in \<open>auto simp: enc_len_small\<close>)
        then have "ok (outcome_post c hist src oend m (ip + k)) (LZ4_next_match a c ?m2 tbl2 ip' mtch' rd' lo' op' (op' + 1))"
          by (rule ok_mono) (erule outcome_post_trans, use frame_trans [OF f1' f2'] ip' in auto)
        with True unf show ?thesis by simp
      next
        case nb: False
        with unf f1' p2(2) M1 ip' i12 False e h' an less.prems show ?thesis by auto
      qed
    qed
  qed
qed

lemma LZ4_compress_step_ok:
  assumes E: "enc_env c hist src oend m" and O: "enc_out c src oend" and M: "emitted c hist src oend ss anchor op m" and T: "tbl_ok c hist ip tbl"
    and ip: "anchor \<le> ip" "ip \<le> e_mflimit c + 1" and fh: "0 \<le> fh" "fh < table_size (e_tableType c)"
  shows "ok (outcome_post c hist src oend m ip) (LZ4_compress_step a c m tbl anchor ip op fh)"
proof -
  have e: "e_iend c = e_source c + int (length src)" "e_matchlimit c = e_iend c - 5" "e_mflimit c = e_iend c - 12"
    "int (length src) \<le> LZ4_MAX_INPUT_SIZE" "1 \<le> e_acceleration c" "e_acceleration c \<le> 2 ^ 25"
    using E by (auto simp: enc_env_def)
  have an: "e_source c \<le> anchor" "e_dest c \<le> op" using M by (auto simp: emitted_def)
  have nb: "uns32 (e_acceleration c * 64) = e_acceleration c * 64" using e by simp
  have "ok (find_post c hist src ip) (LZ4_find_match a c m tbl ip 1 (uns32 (e_acceleration c * 64)) fh)"
    by (rule LZ4_find_match_ok [OF E T _ ip(2) _ _ _ fh]) (use e an ip nb in auto)
  then obtain r where r: "LZ4_find_match a c m tbl ip 1 (uns32 (e_acceleration c * 64)) fh = Some r" "find_post c hist src ip r"
    by (blast dest: okD)
  show ?thesis
  proof (cases r)
    case (NotFound tbl')
    then have "tbl_ok c hist (e_iend c - 8) tbl'" using r(2) by (auto simp: e intro: tbl_ok_mono)
    with NotFound r(1) M show ?thesis by (auto simp: LZ4_compress_step_def)
  next
    case (Found ip1 mt rd lo tbl' fh')
    have F: "ip \<le> ip1" "ip1 + 1 \<le> e_mflimit c" "tbl_ok c hist (ip1 + 1) tbl'" "(rd, lo) = enc_ref c mt"
      "cand c hist ip1 mt" "same c hist src ip1 mt 4" using r(2) Found by auto
    have "ok (\<lambda>(ip', mtch'). anchor \<le> ip' \<and> ip' \<le> ip1 \<and> cand c hist ip' mtch' \<and> mtch' = mt - (ip1 - ip') \<and>
              (rd, lo) = enc_ref c mtch' \<and> same c hist src ip' mtch' (ip1 - ip'))
           (LZ4_catch_up m anchor rd lo ip1 mt)"
      by (rule LZ4_catch_up_ok [OF E F(5,4)]) (use e F an ip in auto)
    then obtain ip2 mt2 where cu: "LZ4_catch_up m anchor rd lo ip1 mt = Some (ip2, mt2)"
      and C: "anchor \<le> ip2" "ip2 \<le> ip1" "cand c hist ip2 mt2" "mt2 = mt - (ip1 - ip2)"
      "(rd, lo) = enc_ref c mt2" "same c hist src ip2 mt2 (ip1 - ip2)" by (auto dest: okD)
    let ?k = "ip1 - ip2 + 4"
    have "same c hist src (ip2 + (ip1 - ip2)) (mt2 + (ip1 - ip2)) 4" using F(6) C(4) by simp
    then have sk: "same c hist src ip2 mt2 ?k" by (rule same_append [OF C(6)])
    let ?L = "literals c src anchor ip2"
    have L: "int (length ?L) = ip2 - anchor" by (rule literals_at [OF E an(1)]) (use C e F in auto)
    have rm: "e_outputLimited c = limitedOutput \<or>
       op + 1 + int (length (enc_len (nat (ip2 - anchor)))) + (ip2 - anchor) + 8 \<le> oend"
    proof (cases "e_outputLimited c")
      case notLimited
      have "op + int (length (enc_seq (Seq ?L 0 4))) + 16 \<le> oend"
        by (rule room_seq [OF E O M notLimited]) (use L C F e in auto)
      moreover have "nat (ip2 - anchor) = length ?L" using L by simp
      ultimately show ?thesis using L by (simp add: length_enc_seq)
    qed simp
    from okD [OF LZ4_encode_literals_ok [OF E O an(1) C(1) _ an(2) rm]] C F e obtain m1 q where
      el: "LZ4_encode_literals c m anchor ip2 op = Some (m1, q)" and f1: "frame m m1 op oend"
      and q: "case q of None \<Rightarrow> e_outputLimited c = limitedOutput \<and> oend < op + 9 + (ip2 - anchor) + (ip2 - anchor) div 255
            | Some op' \<Rightarrow> op' = op + 1 + int (length (enc_len (nat (ip2 - anchor)))) + (ip2 - anchor) \<and> op' + 7 \<le> oend \<and>
                bytes_at m1 op (token (nat (ip2 - anchor)) 0 # enc_len (nat (ip2 - anchor)) @ ?L)" by fastforce
    have f1': "frame m m1 (e_dest c) oend" by (rule frame_mono [OF f1]) (use an in auto)
    show ?thesis
    proof (cases q)
      case None
      then have "too_small c src oend"
        by (intro too_smallI [OF E M, of "ip2 - anchor" 0]) (use q C F e in auto)
      moreover have "tbl_ok c hist (e_iend c - 8) tbl'" by (rule tbl_ok_mono [OF F(3)]) (use F e in auto)
      ultimately show ?thesis using None Found r(1) cu el q f1' by (simp add: LZ4_compress_step_def)
    next
      case (Some op')
      have "ok (outcome_post c hist src oend m1 (ip2 + ?k)) (LZ4_next_match a c m1 tbl' ip2 mt2 rd lo op op')"
        by (rule LZ4_next_match_ok [OF O enc_env_frame [OF f1' E] emitted_frame [OF M f1] C(3,5) sk])
           (use q Some C F e in \<open>auto elim: tbl_ok_mono\<close>)
      then have "ok (outcome_post c hist src oend m ip) (LZ4_next_match a c m1 tbl' ip2 mt2 rd lo op op')"
        by (rule ok_mono) (erule outcome_post_trans, use f1' F in auto)
      with Some Found r(1) cu el show ?thesis by (simp add: LZ4_compress_step_def)
    qed
  qed
qed

text \<open>The result of a compression: zero only where the output is limited to less than the bound, otherwise the size of an encoded
  block that expands to the input.\<close>

definition comp_done :: "enc_ctx \<Rightarrow> byte list \<Rightarrow> byte list \<Rightarrow> addr \<Rightarrow> mem \<Rightarrow> int \<Rightarrow> mem \<Rightarrow> bool" where
  "comp_done c hist src oend m r m' \<longleftrightarrow>
     frame m m' (e_dest c) oend \<and>
     (r = 0 \<and> too_small c src oend \<or>
      (\<exists>blk. valid_block (length hist) blk \<and> expand hist blk = hist @ src \<and> bytes_at m' (e_dest c) (encode blk) \<and>
             r = int (length (encode blk)) \<and> e_dest c + r \<le> oend \<and>
             r \<le> int (length src + length src div 255 + 2)))"

definition comp_post :: "enc_ctx \<Rightarrow> byte list \<Rightarrow> byte list \<Rightarrow> addr \<Rightarrow> mem \<Rightarrow> int \<Rightarrow> mem \<Rightarrow> bool" where
  "comp_post c hist src oend m r m' \<longleftrightarrow>
     frame m m' (e_dest c) oend \<and>
     (r = 0 \<and> e_outputLimited c = limitedOutput \<or>
      (\<exists>blk. valid_block (length hist) blk \<and> expand hist blk = hist @ src \<and> bytes_at m' (e_dest c) (encode blk) \<and>
             r = int (length (encode blk)) \<and> e_dest c + r \<le> oend \<and>
             r \<le> int (length src + length src div 255 + 2)))"

lemma enc_len_bound240: "length (enc_len n) \<le> (n + 240) div 255"
proof (cases "15 \<le> n")
  case True
  then have "(n + 240) div 255 = (n - 15 + 255) div 255" by simp
  also have "\<dots> = (n - 15) div 255 + 1" by simp
  finally show ?thesis using True by (simp add: length_enc_len)
qed (simp add: enc_len_small)

lemma write_last_ok:
  assumes E: "enc_env c hist src oend m" and a: "e_source c \<le> anchor" "0 \<le> n" "anchor + n \<le> e_iend c"
    and op: "e_dest c \<le> op" "op + 1 + int (length (enc_len (nat n))) + n \<le> oend"
  shows "\<exists>m1 m2. (if n \<ge> RUN_MASK
            then do { m \<leftarrow> store8 m op (word_of_int (RUN_MASK * 16)); write_length m (op + 1) (n - RUN_MASK) }
            else do { m \<leftarrow> store8 m op (word_of_int (n * 16)); Some (m, op + 1) }) =
              Some (m1, op + 1 + int (length (enc_len (nat n)))) \<and>
           memcpy m1 (op + 1 + int (length (enc_len (nat n)))) anchor (nat n) = Some m2 \<and>
           frame m m2 op oend \<and> bytes_at m2 op (enc_last (literals c src anchor (anchor + n)))"
proof -
  let ?L = "literals c src anchor (anchor + n)"
  let ?k = "int (length (enc_len (nat n)))"
  let ?p = "op + 1 + ?k"
  have mo: "mapped m (e_dest c) oend" using E by (simp add: enc_env_def)
  have L: "int (length ?L) = n" using literals_at [OF E] a by simp
  have nL: "nat n = length ?L" using L by simp
  have "mapped m op ?p" by (rule mapped_mono [OF mo]) (use op a in auto)
  from okD [OF write_run_ok [OF a(2) this]] obtain m1 where
    w: "(if n \<ge> RUN_MASK
          then do { m \<leftarrow> store8 m op (word_of_int (RUN_MASK * 16)); write_length m (op + 1) (n - RUN_MASK) }
          else do { m \<leftarrow> store8 m op (word_of_int (n * 16)); Some (m, op + 1) }) = Some (m1, ?p)"
    and f1: "frame m m1 op ?p" and b1: "bytes_at m1 op (token (nat n) 0 # enc_len (nat n))" by auto
  have E1: "enc_env c hist src oend m1" by (rule enc_env_frame [OF frame_mono [OF f1] E]) (use op a in auto)
  have L1: "bytes_at m1 anchor ?L" using literals_at [OF E1] a by auto
  have "mapped m1 ?p (?p + int (length ?L))" unfolding frame_mapped [OF f1] by (rule mapped_mono [OF mo]) (use op L in auto)
  from okD [OF store_bytes_ok [OF this]] obtain m2 where
    s: "memcpy m1 ?p anchor (nat n) = Some m2" and f2: "frame m1 m2 ?p (?p + int (length ?L))" and b2: "bytes_at m2 ?p ?L"
    using load_bytes_eq [OF L1] by (auto simp: memcpy_def nL)
  have "bytes_at m2 op ((token (nat n) 0 # enc_len (nat n)) @ ?L)"
    unfolding bytes_at_append using b1 b2 frame_bytes_at [OF f2, of op "token (nat n) 0 # enc_len (nat n)"] by (simp add: algebra_simps)
  then have b3: "bytes_at m2 op (enc_last ?L)" by (simp add: enc_last_def nL)
  have "frame m m2 op oend"
    by (rule frame_trans [OF frame_mono [OF f1] frame_mono [OF f2]]) (use op L a in auto)
  with w s b3 show ?thesis by blast
qed

lemma LZ4_last_literals_ok:
  assumes E: "enc_env c hist src oend m" and O: "enc_out c src oend" and M: "emitted c hist src oend ss anchor op m"
  shows "ok (\<lambda>(r, m'). comp_done c hist src oend m r m') (LZ4_last_literals c m anchor op)"
proof -
  have e: "e_iend c = e_source c + int (length src)" "int (length src) \<le> LZ4_MAX_INPUT_SIZE" "mapped m (e_dest c) oend"
    using E by (auto simp: enc_env_def)
  have M': "e_source c \<le> anchor" "anchor \<le> e_iend c" "apply_seqs hist ss = hist @ take (nat (anchor - e_source c)) src"
    "valid_seqs (length hist) ss" "end_ok (length src) 0 ss" "op = e_dest c + int (length (enc_seqs ss))" using M by (auto simp: emitted_def)
  let ?n = "e_iend c - anchor"
  let ?L = "literals c src anchor (e_iend c)"
  let ?k = "int (length (enc_len (nat ?n)))"
  have L: "bytes_at m anchor ?L" "int (length ?L) = ?n" using literals_at [OF E M'(1,2)] by auto
  have sz: "int (seqs_size ss) = anchor - e_source c" by (rule emitted_size [OF E M])
  have b1: "length (enc_seqs ss) \<le> seqs_size ss + seqs_size ss div 255" using M'(4) by (rule enc_seqs_bound)
  let ?blk = "(ss, ?L)"
  have bs: "block_size ?blk = length src" using sz L e by (simp add: block_size_def)
  have V: "valid_block (length hist) ?blk" using M' bs by (simp add: valid_block_def)
  have "take (nat (anchor - e_source c)) src @ ?L = src"
    using e M'(1,2) by (simp add: literals_def)
  then have X: "expand hist ?blk = hist @ src" using M'(3) by (simp add: expand_def)
  have len: "int (length (encode ?blk)) = op - e_dest c + 1 + ?k + ?n"
    using M'(6) L(2) by (simp add: encode_def length_enc_last flip: L(2))
  have bound: "length (encode ?blk) \<le> length src + length src div 255 + 2"
  proof -
    have "seqs_size ss div 255 + length ?L div 255 \<le> (seqs_size ss + length ?L) div 255" by linarith
    moreover have "seqs_size ss + length ?L = length src" using bs by (simp add: block_size_def)
    ultimately show ?thesis using b1 enc_len_bound [of "length ?L"] by (simp add: encode_def length_enc_last)
  qed
  show ?thesis
  proof (cases "e_outputLimited c = limitedOutput \<and> (op - e_dest c) + ?n + 1 + (?n + 255 - 15) div 255 > uns32 (e_maxOutputSize c)")
    case True
    then have "uns32 (e_maxOutputSize c) = oend - e_dest c" using O by (simp add: enc_out_def)
    moreover have "(?n + 255 - 15) div 255 \<le> ?n div 255 + 1" by linarith
    ultimately have "too_small c src oend"
      using True M'(2) by (intro too_smallI [OF E M, of ?n 0]) auto
    with True show ?thesis by (simp add: LZ4_last_literals_def Let_def comp_done_def)
  next
    case False
    have fit: "op + 1 + ?k + ?n \<le> oend"
    proof (cases "e_outputLimited c")
      case notLimited
      with O have "e_dest c + int (length src + length src div 255 + 16) \<le> oend" by (simp add: enc_out_def)
      moreover have "op + 1 + ?k + ?n = e_dest c + int (length (encode ?blk))" using len by simp
      ultimately show ?thesis using bound by linarith
    next
      case limitedOutput
      with O have "uns32 (e_maxOutputSize c) = oend - e_dest c" by (simp add: enc_out_def)
      moreover have "?k \<le> (?n + 255 - 15) div 255"
      proof -
        have "?k \<le> int ((nat ?n + 240) div 255)" using enc_len_bound240 [of "nat ?n"] by (rule zle_int [THEN iffD2])
        also have "\<dots> = (?n + 255 - 15) div 255" using M'(2) by (simp add: zdiv_int)
        finally show ?thesis .
      qed
      ultimately show ?thesis using False limitedOutput by linarith
    qed
    have an: "anchor + ?n = e_iend c" by simp
    obtain m1 m2 where w: "(if ?n \<ge> RUN_MASK
            then do { m \<leftarrow> store8 m op (word_of_int (RUN_MASK * 16)); write_length m (op + 1) (?n - RUN_MASK) }
            else do { m \<leftarrow> store8 m op (word_of_int (?n * 16)); Some (m, op + 1) }) = Some (m1, op + 1 + ?k)"
      and s: "memcpy m1 (op + 1 + ?k) anchor (nat ?n) = Some m2" and fr: "frame m m2 op oend" and b3: "bytes_at m2 op (enc_last ?L)"
      using write_last_ok [OF E M'(1), of ?n op] M' fit unfolding an by auto
    let ?p = "op + 1 + ?k"
    have "bytes_at m2 (e_dest c) (encode ?blk)"
      using emitted_frame [OF M fr] b3 M'(6) by (simp add: encode_def bytes_at_append emitted_def)
    moreover have "frame m m2 (e_dest c) oend" by (rule frame_mono [OF fr]) (use M' in auto)
    moreover have "int32 (?p + ?n - e_dest c) = int (length (encode ?blk))"
    proof -
      have "int (length (encode ?blk)) < 2147483648" using bound e(2) by linarith
      moreover have "?p + ?n - e_dest c = int (length (encode ?blk))" using len by simp
      ultimately show ?thesis by simp
    qed
    moreover have "LZ4_last_literals c m anchor op = Some (int32 (?p + ?n - e_dest c), m2)"
      unfolding LZ4_last_literals_def Let_def if_not_P [OF False] w using s by simp
    ultimately show ?thesis using V X fit len bound unfolding comp_done_def by fastforce
  qed
qed


lemma comp_done_trans:
  "comp_done c hist src oend m' r m'' \<Longrightarrow> frame m m' (e_dest c) oend \<Longrightarrow> comp_done c hist src oend m r m''"
  by (simp add: comp_done_def frame_trans [of m m'])

text \<open>The weaker form, without the reason for giving up, is shared with the high-compression encoder.\<close>

lemma comp_done_post: "comp_done c hist src oend m r m' \<Longrightarrow> comp_post c hist src oend m r m'"
  by (auto simp: comp_done_def comp_post_def too_small_def)

lemma comp_post_trans:
  "comp_post c hist src oend m' r m'' \<Longrightarrow> frame m m' (e_dest c) oend \<Longrightarrow> comp_post c hist src oend m r m''"
  by (simp add: comp_post_def frame_trans [of m m'])

lemma LZ4_last_literals_post:
  assumes "enc_env c hist src oend m" and "enc_out c src oend" and "emitted c hist src oend ss anchor op m"
  shows "ok (\<lambda>(r, m'). comp_post c hist src oend m r m') (LZ4_last_literals c m anchor op)"
  by (rule ok_mono [OF LZ4_last_literals_ok [OF assms]]) (auto intro: comp_done_post)

lemma LZ4_compress_loop_ok:
  assumes O: "enc_out c src oend" and "enc_env c hist src oend m" "emitted c hist src oend ss anchor op m" "tbl_ok c hist ip tbl"
    and "anchor \<le> ip" "ip \<le> e_mflimit c + 1" "0 \<le> fh" "fh < table_size (e_tableType c)"
  shows "ok (\<lambda>(r, m', tbl'). comp_done c hist src oend m r m' \<and> tbl_ok c hist (e_iend c - 8) tbl')
           (LZ4_compress_loop a c m tbl anchor ip op fh)"
  using assms(2-)
proof (induction "nat (e_iend c - ip)" arbitrary: m ss anchor op ip tbl fh rule: less_induct)
  case less
  note E = less.prems(1)
  from okD [OF LZ4_compress_step_ok [OF E O less.prems(2-), of a]] obtain r where
    r: "LZ4_compress_step a c m tbl anchor ip op fh = Some r" "outcome_post c hist src oend m ip r" by blast
  show ?case
  proof (cases r)
    case (Return0 m' tbl')
    with r show ?thesis by (subst LZ4_compress_loop.simps) (simp add: comp_done_def)
  next
    case (LastLiterals m' tbl' anchor' op')
    then obtain ss' where M: "emitted c hist src oend ss' anchor' op' m'" and f: "frame m m' (e_dest c) oend"
      and t: "tbl_ok c hist (e_iend c - 8) tbl'" using r(2) by auto
    have "ok (\<lambda>(r, m''). comp_done c hist src oend m r m'') (LZ4_last_literals c m' anchor' op')"
      by (rule ok_mono [OF LZ4_last_literals_ok [OF enc_env_frame [OF f E] O M]]) (auto intro: comp_done_trans [OF _ f])
    with LastLiterals r(1) t show ?thesis by (subst LZ4_compress_loop.simps) (auto elim: ok_mono)
  next
    case (Continue m' tbl' ip' op' fh')
    then obtain ss' where M: "emitted c hist src oend ss' (ip' - 1) op' m'" and f: "frame m m' (e_dest c) oend"
      and p: "tbl_ok c hist ip' tbl'" "ip < ip'" "ip' \<le> e_mflimit c + 1" "0 \<le> fh'" "fh' < table_size (e_tableType c)"
      using r(2) by auto
    have e: "e_mflimit c = e_iend c - 12" using E by (simp add: enc_env_def)
    have "ok (\<lambda>(r, m'', tbl''). comp_done c hist src oend m' r m'' \<and> tbl_ok c hist (e_iend c - 8) tbl'')
           (LZ4_compress_loop a c m' tbl' (ip' - 1) ip' op' fh')"
      by (rule less.hyps [OF _ enc_env_frame [OF f E] M]) (use p e in auto)
    then have "ok (\<lambda>(r, m'', tbl''). comp_done c hist src oend m r m'' \<and> tbl_ok c hist (e_iend c - 8) tbl'')
           (LZ4_compress_loop a c m' tbl' (ip' - 1) ip' op' fh')"
      by (rule ok_mono) (auto intro: comp_done_trans [OF _ f])
    with Continue r(1) show ?thesis by (subst LZ4_compress_loop.simps) simp
  qed
qed

text \<open>The whole function, for every directive.\<close>

lemma LZ4_compress_generic_ok:
  assumes c: "c = LZ4_compress_ctx ctx source dest (int (length src)) maxOutputSize outputLimited tableType dict dictIssue acceleration"
    and E: "enc_env c hist src oend m" and O: "enc_out c src oend" and T: "tbl_ok c hist (source + 1) (hashTable ctx)"
  shows "ok (\<lambda>(r, m', ctx'). comp_done c hist src oend m r m' \<and> (\<exists>tbl. ctx' = ctx\<lparr>hashTable := tbl\<rparr> \<and> (tbl = hashTable ctx \<or> tbl_ok c hist (e_iend c - 8) tbl)))
           (LZ4_compress_generic a m ctx source dest (int (length src)) maxOutputSize outputLimited tableType dict dictIssue acceleration)"
proof -
  have cc: "e_source c = source" "e_dest c = dest" "e_iend c = source + int (length src)" "e_tableType c = tableType"
    "e_mflimit c = source + int (length src) - 12"
    by (simp_all add: c LZ4_compress_ctx_def Let_def)
  have sz: "int (length src) \<le> LZ4_MAX_INPUT_SIZE" "tableType = byU16 \<longrightarrow> int (length src) < LZ4_64Klimit" "dest \<le> oend"
    using E O unfolding cc [symmetric] by (auto simp: enc_env_def enc_out_def split: if_splits)
  have M0: "emitted c hist src oend [] source dest m" using sz by (simp add: emitted_def cc)
  show ?thesis
  proof (cases "int (length src) < LZ4_minLength")
    case True
    have "ok (\<lambda>(r, m'). comp_done c hist src oend m r m') (LZ4_last_literals c m source dest)"
      by (rule LZ4_last_literals_ok [OF E O M0])
    then show ?thesis unfolding LZ4_compress_generic_def Let_def c [symmetric]
      using True sz by (auto elim!: ok_mono intro!: exI [of _ "hashTable ctx"])
  next
    case False
    from okD [OF LZ4_putPosition_ok [OF E, of source "hashTable ctx" a]] T False obtain tbl where
      p: "LZ4_putPosition a m source (hashTable ctx) tableType (e_base c) = Some tbl" "tbl_ok c hist (source + 1) tbl"
      by (auto simp: cc)
    have "mapped m (source + 1) (source + 1 + 8)" by (rule enc_env_mapped [OF E]) (use False in \<open>auto simp: cc\<close>)
    from okD [OF LZ4_hashPosition_ok [OF this, of tableType a]] obtain h where
      h: "LZ4_hashPosition a m (source + 1) tableType = Some h" "0 \<le> h" "h < table_size tableType" by blast
    have "ok (\<lambda>(r, m', tbl'). comp_done c hist src oend m r m' \<and> tbl_ok c hist (e_iend c - 8) tbl')
           (LZ4_compress_loop a c m tbl source (source + 1) dest h)"
      by (rule LZ4_compress_loop_ok [OF O E M0 p(2)]) (use False h in \<open>auto simp: cc\<close>)
    then show ?thesis unfolding LZ4_compress_generic_def Let_def c [symmetric]
      using False sz p(1) h(1) by (auto elim!: ok_mono)
  qed
qed

end
