(* ===== verification/Lz4_Decode_Correct.thy ===== *)
theory Lz4_Decode_Correct
  imports Lz4_Decompress
begin

text \<open>
  The theorems of the decompressor. First, safety: an instance that ends on the input size
  terminates on every input and every memory that maps its buffers, makes no access outside
  them, and writes only to the output buffer. Second, correctness: every instance decodes a
  valid block of the format to its expansion, with no history, a history that precedes the
  output in memory, or an external dictionary.
\<close>

section \<open>Safety on every input\<close>

text \<open>What a caller of a safe entry point provides: the input and the output buffer are mapped, the
  history that offsets may reach is mapped, and the buffers lie low enough that no pointer sum wraps.\<close>

definition dec_safe :: "arch \<Rightarrow> dec_ctx \<Rightarrow> mem \<Rightarrow> int \<Rightarrow> bool" where
  "dec_safe a c m dsz \<longleftrightarrow>
     d_endOnInput c \<and> (d_partialDecoding c \<longrightarrow> d_oexit c \<le> d_oend c - 12) \<and>
     0 \<le> d_source c \<and> 0 \<le> d_dest c \<and>
     d_oend c + 255 * (d_iend c - d_source c) + 20 < size_mod a \<and>
     d_iend c + 255 * (d_iend c - d_source c) + 20 < size_mod a \<and>
     mapped m (d_source c) (d_iend c) \<and> mapped m (d_dest c) (d_oend c) \<and>
     (if d_dict c = usingExtDict
      then d_lowPrefix c \<le> d_dest c \<and> mapped m (d_lowPrefix c) (d_oend c) \<and>
           mapped m (d_dictEnd c - dsz) (d_dictEnd c) \<and>
           (d_dictEnd c \<le> d_dest c \<or> d_oend c \<le> d_dictEnd c - dsz) \<and>
           (if d_checkOffset c then d_lowLimit c = d_lowPrefix c - dsz else 65535 \<le> dsz)
      else if d_checkOffset c then mapped m (max (d_lowLimit c) (d_dest c - 65535)) (d_oend c)
      else mapped m (d_dest c - 65535) (d_oend c))"

lemma dec_safe_frame: "frame m m' lo hi \<Longrightarrow> dec_safe a c m' dsz = dec_safe a c m dsz"
  by (simp add: dec_safe_def frame_mapped)

fun safe_post :: "dec_ctx \<Rightarrow> mem \<Rightarrow> addr \<Rightarrow> addr \<Rightarrow> dec_outcome \<Rightarrow> bool" where
  "safe_post c m ip op (Next m' ip' op') =
     (ip < ip' \<and> ip' + 2 \<le> d_iend c \<and> op \<le> op' \<and> op' \<le> d_oend c \<and> frame m m' (d_dest c) (d_oend c))"
| "safe_post c m ip op (Stop m' ip' op') =
     (ip \<le> ip' \<and> ip' \<le> d_iend c \<and> op \<le> op' \<and> op' \<le> d_oend c \<and> frame m m' (d_dest c) (d_oend c))"
| "safe_post c m ip op (OutputError m' ip') =
     (ip \<le> ip' \<and> ip' \<le> d_iend c \<and> frame m m' (d_dest c) (d_oend c))"

lemma safe_post_trans:
  assumes "safe_post c m1 ip1 op1 r" "frame m m1 (d_dest c) (d_oend c)" "ip \<le> ip1" "op \<le> op1"
  shows "safe_post c m ip op r"
  using assms by (cases r) (auto intro: frame_trans)

lemma decode_safe_post:
  assumes "decode_post c m ip' op mtch len r" "ip < ip'" "ip' + 2 \<le> d_iend c" "d_dest c \<le> op" "0 \<le> len"
  shows "safe_post c m ip op r"
  using assms by (cases r) (auto elim: frame_mono)

lemma get_match_length_safe:
  assumes S: "dec_safe a c m dsz" and "d_source c \<le> ip" "ip + 4 \<le> d_iend c"
  shows "ok (\<lambda>r. match_len_post c ip (15 + 4) r \<and> (\<forall>x l. r = Inr (x, l) \<longrightarrow> 4 \<le> l)) (get_match_length a c m tok ip op)"
proof -
  let ?W = "255 * (d_iend c - d_source c)"
  note t = tok_lo_bound [of tok]
  have S': "d_endOnInput c" "mapped m (d_source c) (d_iend c)" "0 \<le> d_source c" "d_iend c + ?W + 20 < size_mod a"
    using S by (auto simp: dec_safe_def)
  have mp: "mapped m ip (d_iend c)" using S'(2) assms(2) by (auto elim: mapped_mono)
  show ?thesis
  proof (cases "uint (tok AND 15) = 15")
    case False
    with t assms(3) S' assms(2) show ?thesis by (simp add: get_match_length_def Let_def)
  next
    case True
    obtain r where r: "match_length_loop a c m ip 15 = Some r" "match_len_post c ip 15 r"
      using okD [OF match_length_loop_safe [OF S'(1) mp, of 15 a]] assms S' by auto
    have md: "(l + 4) mod size_mod a = l + 4" if "0 \<le> l" "l \<le> 15 + 255 * (p - ip)" "p \<le> d_iend c - 4" for l p
      using that assms S' by simp
    show ?thesis
      using r True md by (auto simp: get_match_length_def Let_def split: sum.splits)
  qed
qed

lemma decode_match_safe:
  assumes S: "dec_safe a c m dsz" and ip: "d_source c \<le> ip" "ip + 8 \<le> d_iend c"
    and op: "d_dest c \<le> op" "op + 12 \<le> d_oend c"
  shows "ok (safe_post c m ip op) (decode_match a c tok m ip op)"
proof -
  let ?W = "255 * (d_iend c - d_source c)"
  have S': "d_endOnInput c" "mapped m (d_source c) (d_iend c)" "0 \<le> d_source c" "0 \<le> d_dest c"
      "d_oend c + ?W + 20 < size_mod a" "mapped m (d_dest c) (d_oend c)"
    using S by (auto simp: dec_safe_def)
  obtain lo hi where lh: "m ip = Some lo" "m (ip + 1) = Some hi"
    using mappedD [OF S'(2), of ip] mappedD [OF S'(2), of "ip + 1"] ip by auto
  obtain d where d: "LZ4_readLE16 a m ip = Some d" using okD [OF LZ4_readLE16_eq [OF lh, of a]] by blast
  have "uint d < 2 ^ LENGTH(16)" by (rule unsigned_less)
  then have db: "0 \<le> uint d" "uint d \<le> 65535" by simp_all
  let ?mt = "op - uint d"
  show ?thesis
  proof (cases "d_checkOffset c \<and> ?mt < d_lowLimit c")
    case True
    with d ip show ?thesis by (simp add: decode_match_def Let_def)
  next
    case okoff: False
    obtain r where r: "get_match_length a c m tok (ip + 2) op = Some r" "match_len_post c (ip + 2) (15 + 4) r"
        "\<forall>x l. r = Inr (x, l) \<longrightarrow> 4 \<le> l"
      using okD [OF get_match_length_safe [OF S, of "ip + 2" tok op]] ip by auto
    show ?thesis
    proof (cases r)
      case (Inl ip')
      with d okoff r ip show ?thesis by (simp add: decode_match_def Let_def)
    next
      case (Inr il)
      obtain ip' len where il: "il = (ip', len)" by (cases il)
      with Inr r(2) have len: "ip + 2 \<le> ip'" "ip' + 4 \<le> d_iend c" "0 \<le> len" "len \<le> 19 + 255 * (ip' - (ip + 2))" by auto
      have rng: "op + len < size_mod a" "4 \<le> len" using r(3) Inr il len ip op S'(5) by auto
      let ?copy = "if d_dict c = usingExtDict \<and> ?mt < d_lowPrefix c
                then ext_dict_copy a c m ip' op ?mt len else copy_repeated a c m ip' op ?mt len"
      have "ok (decode_post c m ip' op ?mt len) ?copy"
      proof (cases "d_dict c = usingExtDict \<and> ?mt < d_lowPrefix c")
        case True
        have "d_lowPrefix c - ?mt \<le> dsz" using True S okoff db op by (auto simp: dec_safe_def split: if_splits)
        then have "ok (decode_post c m ip' op ?mt len) (ext_dict_copy a c m ip' op ?mt len)"
          using True S rng op by (intro ext_dict_copy_ok [of c m dsz]) (auto simp: dec_safe_def)
        with True show ?thesis by simp
      next
        case False
        obtain base where "base \<le> ?mt" "mapped m base (d_oend c)"
        proof (cases "d_dict c = usingExtDict")
          case True
          then show ?thesis using that [of "d_lowPrefix c"] False S by (auto simp: dec_safe_def)
        next
          case nod: False
          show ?thesis
            using that [of "if d_checkOffset c then max (d_lowLimit c) (d_dest c - 65535) else d_dest c - 65535"] nod S okoff db op
            by (auto simp: dec_safe_def split: if_splits)
        qed
        then have "mapped m ?mt (d_oend c)" by (auto elim: mapped_mono)
        then have "ok (match_post m (d_oend c) ip' op ?mt len) (copy_repeated a c m ip' op ?mt len)"
          using rng op db S' by (intro copy_repeated_ok) auto
        then have "ok (decode_post c m ip' op ?mt len) (copy_repeated a c m ip' op ?mt len)"
          by (rule ok_mono) (rule match_decode_post, use False in auto)
        with False show ?thesis by auto
      qed
      then have "ok (safe_post c m ip op) ?copy"
        by (rule ok_mono) (rule decode_safe_post, use len op in auto)
      then show ?thesis using d okoff r(1) Inr il ip by (simp add: decode_match_def Let_def)
    qed
  qed
qed


lemma get_lit_length_safe:
  assumes S: "dec_safe a c m dsz" and "d_source c \<le> ip" "ip < d_iend c"
  shows "ok (\<lambda>r. case r of Inl ip' \<Rightarrow> ip \<le> ip' \<and> ip' \<le> d_iend c
             | Inr (ip', len) \<Rightarrow> ip \<le> ip' \<and> ip' \<le> d_iend c \<and> 0 \<le> len \<and> len \<le> 15 + 255 * (ip' - ip))
           (get_lit_length a c m tok ip op)"
proof -
  let ?W = "255 * (d_iend c - d_source c)"
  note t = tok_hi_bound [of tok]
  have S': "d_endOnInput c" "mapped m (d_source c) (d_iend c)" "0 \<le> d_source c" "d_iend c + ?W + 20 < size_mod a"
    using S by (auto simp: dec_safe_def)
  have mp: "mapped m ip (d_iend c)" using S'(2) assms(2) by (auto elim: mapped_mono)
  show ?thesis
  proof (cases "uint (drop_bit 4 tok) = 15")
    case False
    with t assms(3) show ?thesis by (simp add: get_lit_length_def Let_def)
  next
    case True
    obtain ip' len where r: "lit_length_loop a c m ip 15 = Some (ip', len)"
       "ip < ip'" "ip' \<le> d_iend c" "0 \<le> len" "len \<le> 15 + 255 * (ip' - ip)"
      using okD [OF lit_length_loop_safe [OF S'(1) mp, of 15 a]] assms S' by auto
    then show ?thesis using True by (simp add: get_lit_length_def Let_def)
  qed
qed

lemma last_literals_safe:
  assumes S: "dec_safe a c m dsz" and ip: "d_source c \<le> ip" "ip \<le> d_iend c"
    and op: "d_dest c \<le> op" "op \<le> d_oend c"
    and len: "0 \<le> len" "len \<le> 15 + 255 * (ip - d_source c)"
  shows "ok (safe_post c m ip op) (last_literals a c m ip op len)"
proof -
  have S': "d_endOnInput c" "mapped m (d_source c) (d_iend c)" "0 \<le> d_source c" "0 \<le> d_dest c"
      "d_oend c + 255 * (d_iend c - d_source c) + 20 < size_mod a"
      "d_iend c + 255 * (d_iend c - d_source c) + 20 < size_mod a" "mapped m (d_dest c) (d_oend c)"
    using S by (auto simp: dec_safe_def)
  have p: "padd a op len = op + len" "padd a ip len = ip + len" using S' ip op len by simp_all
  show ?thesis
  proof (cases "op + len \<le> d_oend c \<and> ip + len \<le> d_iend c")
    case True
    have "mapped m ip (ip + int (nat len))" "mapped m op (op + int (nat len))"
      by (rule mapped_mono [OF S'(2)], use True ip len in auto)
         (rule mapped_mono [OF S'(7)], use True op len in auto)
    from okD [OF memcpy_ok [OF this]] obtain m1 where
      m1: "memcpy m op ip (nat len) = Some m1" "frame m m1 op (op + len)" using len by auto
    have "frame m m1 (d_dest c) (d_oend c)" using m1(2) op True by (auto elim: frame_mono)
    then show ?thesis
      using m1(1) p True S'(1) len op ip by (simp add: last_literals_def Let_def)
  next
    case False
    with S'(1) p ip show ?thesis by (auto simp: last_literals_def Let_def)
  qed
qed

lemma LZ4_decode_sequence_safe:
  assumes S: "dec_safe a c m dsz" and ip: "d_source c \<le> ip" "ip + 2 \<le> d_iend c"
    and op: "d_dest c \<le> op" "op \<le> d_oend c"
  shows "ok (safe_post c m ip op) (LZ4_decode_sequence a c m ip op)"
proof -
  let ?lim = "if d_partialDecoding c then d_oexit c else d_oend c - 12"
  have S': "d_endOnInput c" "mapped m (d_source c) (d_iend c)" "0 \<le> d_source c" "0 \<le> d_dest c"
      "d_oend c + 255 * (d_iend c - d_source c) + 20 < size_mod a"
      "d_iend c + 255 * (d_iend c - d_source c) + 20 < size_mod a" "mapped m (d_dest c) (d_oend c)"
      "?lim \<le> d_oend c - 12"
    using S by (auto simp: dec_safe_def)
  obtain tok where tok: "m ip = Some tok" using mappedD [OF S'(2), of ip] ip by auto
  obtain r where r: "get_lit_length a c m tok (ip + 1) op = Some r"
      "case r of Inl ip' \<Rightarrow> ip + 1 \<le> ip' \<and> ip' \<le> d_iend c
             | Inr (ip', len) \<Rightarrow> ip + 1 \<le> ip' \<and> ip' \<le> d_iend c \<and> 0 \<le> len \<and> len \<le> 15 + 255 * (ip' - (ip + 1))"
    using okD [OF get_lit_length_safe [OF S, of "ip + 1" tok op]] ip by auto
  show ?thesis
  proof (cases r)
    case (Inl ip')
    with r tok show ?thesis by (simp add: LZ4_decode_sequence_def)
  next
    case (Inr il)
    obtain ip' len where il: "il = (ip', len)" by (cases il)
    with Inr r(2) have len: "ip + 1 \<le> ip'" "ip' \<le> d_iend c" "0 \<le> len" "len \<le> 15 + 255 * (ip' - (ip + 1))" by auto
    have p: "padd a op len = op + len" "padd a ip' len = ip' + len" using S' ip op len by simp_all
    show ?thesis
    proof (cases "op + len > ?lim \<or> ip' + len > d_iend c - 8")
      case True
      have "ok (safe_post c m ip' op) (last_literals a c m ip' op len)"
        using len ip op by (intro last_literals_safe [OF S]) auto
      then have "ok (safe_post c m ip op) (last_literals a c m ip' op len)"
        by (rule ok_mono) (rule safe_post_trans, use len in auto)
      moreover have "LZ4_decode_sequence a c m ip op = last_literals a c m ip' op len"
        using tok r(1) Inr il p True S'(1) by (simp add: LZ4_decode_sequence_def Let_def)
      ultimately show ?thesis by simp
    next
      case False
      then have fit: "op + len + 12 \<le> d_oend c" "ip' + len + 8 \<le> d_iend c" using S'(8) by linarith+
      have "mapped m ip' (ip' + max 8 (op + len - op + 7))" "mapped m op (op + max 8 (op + len - op + 7))"
        by (rule mapped_mono [OF S'(2)], use fit ip len in auto)
           (rule mapped_mono [OF S'(7)], use fit op len in auto)
      from okD [OF LZ4_wildCopy_ok [OF this]] obtain m1 where
        m1: "LZ4_wildCopy m op ip' (op + len) = Some m1" "frame m m1 op (op + max 8 (op + len - op + 7))" by auto
      have f: "frame m m1 (d_dest c) (d_oend c)"
        using m1(2) by (rule frame_mono) (use fit op len in auto)
      have "dec_safe a c m1 dsz" using S by (simp add: dec_safe_frame [OF f])
      from decode_match_safe [OF this, of "ip' + len" "op + len" tok]
      have "ok (safe_post c m1 (ip' + len) (op + len)) (decode_match a c tok m1 (ip' + len) (op + len))"
        using fit ip op len by simp
      then have "ok (safe_post c m ip op) (decode_match a c tok m1 (ip' + len) (op + len))"
        by (rule ok_mono) (rule safe_post_trans [OF _ f], use len in auto)
      moreover have "LZ4_decode_sequence a c m ip op = decode_match a c tok m1 (ip' + len) (op + len)"
        using tok r(1) Inr il p False S'(1) m1(1) by (simp add: LZ4_decode_sequence_def Let_def)
      ultimately show ?thesis by simp
    qed
  qed
qed

text \<open>The main loop terminates: every iteration that goes on consumes input.\<close>

lemma LZ4_decode_loop_safe:
  assumes "dec_safe a c m dsz" "d_source c \<le> ip" "ip + 2 \<le> d_iend c" "d_dest c \<le> op" "op \<le> d_oend c"
    and "d_iend c - d_source c < 2 ^ 31" "d_oend c - d_dest c < 2 ^ 31"
  shows "ok (\<lambda>(r, m'). frame m m' (d_dest c) (d_oend c) \<and> - (d_iend c - d_source c) - 1 \<le> r \<and> r \<le> d_oend c - d_dest c)
           (LZ4_decode_loop a c m ip op)"
  using assms
proof (induction "nat (d_iend c - ip)" arbitrary: m ip op rule: less_induct)
  case less
  have e: "d_endOnInput c" using less.prems(1) by (simp add: dec_safe_def)
  obtain r where r: "LZ4_decode_sequence a c m ip op = Some r" "safe_post c m ip op r"
    using okD [OF LZ4_decode_sequence_safe [OF less.prems(1-5)]] by blast
  show ?case
  proof (cases r)
    case (Next m1 ip1 op1)
    with r(2) have n: "ip < ip1" "ip1 + 2 \<le> d_iend c" "op \<le> op1" "op1 \<le> d_oend c" "frame m m1 (d_dest c) (d_oend c)" by auto
    have "ok (\<lambda>(r, m'). frame m1 m' (d_dest c) (d_oend c) \<and> - (d_iend c - d_source c) - 1 \<le> r \<and> r \<le> d_oend c - d_dest c)
           (LZ4_decode_loop a c m1 ip1 op1)"
      using n less.prems by (intro less.hyps) (auto simp: dec_safe_frame [OF n(5)])
    then have "ok (\<lambda>(r, m'). frame m m' (d_dest c) (d_oend c) \<and> - (d_iend c - d_source c) - 1 \<le> r \<and> r \<le> d_oend c - d_dest c)
           (LZ4_decode_loop a c m1 ip1 op1)"
      by (rule ok_mono) (use n(5) frame_trans in auto)
    with Next r(1) show ?thesis by (subst LZ4_decode_loop.simps) simp
  next
    case (Stop m1 ip1 op1)
    with r e less.prems show ?thesis by (subst LZ4_decode_loop.simps) auto
  next
    case (OutputError m1 ip1)
    with r less.prems show ?thesis by (subst LZ4_decode_loop.simps) auto
  qed
qed

section \<open>Decoding a valid block\<close>

text \<open>The decoded history: the bytes from \<open>base\<close> up to \<open>op\<close>, after the dictionary's bytes
  when there is an external dictionary.\<close>

definition hist_at :: "dec_ctx \<Rightarrow> addr \<Rightarrow> byte list \<Rightarrow> mem \<Rightarrow> byte list \<Rightarrow> addr \<Rightarrow> bool" where
  "hist_at c base dd m out op \<longleftrightarrow>
     (\<exists>pre. out = dd @ pre \<and> bytes_at m base pre \<and> op = base + int (length pre)) \<and>
     (if d_dict c = usingExtDict
      then d_lowPrefix c = base \<and> bytes_at m (d_dictEnd c - int (length dd)) dd else dd = [])"

lemma hist_at_dict:
  "hist_at c base dd m out op \<Longrightarrow> d_dict c = usingExtDict \<Longrightarrow> bytes_at m (d_dictEnd c - int (length dd)) dd"
  by (simp add: hist_at_def)

lemma hist_at_copy:
  assumes H: "hist_at c base dd m out op" and r: "repeats c m (int D) op (op + int n)"
    and D: "1 \<le> D" "D \<le> length out" and mp: "mapped m op (op + int n)"
  shows "hist_at c base dd m (copy_match out D n) (op + int n)"
proof -
  from H obtain pre where pre: "out = dd @ pre" "bytes_at m base pre" "op = base + int (length pre)"
    by (auto simp: hist_at_def)
  from okD [OF load_bytes_ok [OF mp]] obtain zs where zs: "length zs = n" "bytes_at m op zs" by blast
  let ?ys = "pre @ zs"
  have ys: "bytes_at m base ?ys" using pre zs by (simp add: bytes_at_append)
  have "dd @ ?ys = copy_match out D n"
  proof (rule copy_match_unique [OF D])
    show "length (dd @ ?ys) = length out + n" "take (length out) (dd @ ?ys) = out" using pre zs by simp_all
    fix i assume i: "length out \<le> i" "i < length (dd @ ?ys)"
    let ?x = "base + int (i - length dd)"
    have il: "length dd \<le> i" "i - length dd < length ?ys" using i pre(1) zs(1) by auto
    have x: "m ?x = Some ((dd @ ?ys) ! i)"
      using bytes_at_nth [OF ys il(2)] il(1) by (simp add: nth_append)
    have "op \<le> ?x" "?x < op + int n" using i pre zs by auto
    with r have v: "m ?x = vread c m (?x - int D)" by (simp add: repeats_def)
    have Di: "D \<le> i" using D i by simp
    have "vread c m (?x - int D) = Some ((dd @ ?ys) ! (i - D))"
    proof (cases "length dd \<le> i - D")
      case True
      have "i - length dd - D < length ?ys" using il by simp
      from bytes_at_nth [OF ys this] have "m (base + int (i - length dd - D)) = Some ((dd @ ?ys) ! (i - D))"
        using True il by (simp add: nth_append add.commute)
      moreover have "?x - int D = base + int (i - length dd - D)" using True il Di by (simp add: of_nat_diff)
      moreover have "vread c m (?x - int D) = m (?x - int D)"
        using H True il Di by (auto simp: hist_at_def of_nat_diff vread_def)
      ultimately show ?thesis by (simp only:)
    next
      case False
      then have "dd \<noteq> []" by auto
      with H have e: "d_dict c = usingExtDict" "d_lowPrefix c = base" "bytes_at m (d_dictEnd c - int (length dd)) dd"
        by (auto simp: hist_at_def split: if_splits)
      have "m (d_dictEnd c - int (length dd) + int (i - D)) = Some (dd ! (i - D))"
        using False by (intro bytes_at_nth [OF e(3)]) simp
      moreover have "vread c m (?x - int D) = m (d_dictEnd c - (d_lowPrefix c - (?x - int D)))"
        using e Di il(1) False by (auto simp: vread_def of_nat_diff)
      moreover have "d_dictEnd c - (d_lowPrefix c - (?x - int D)) = d_dictEnd c - int (length dd) + int (i - D)"
        using Di il(1) False e(2) by (simp add: of_nat_diff)
      ultimately show ?thesis using False by (simp only: nth_append if_True not_le)
    qed
    with x v show "(dd @ ?ys) ! i = (dd @ ?ys) ! (i - D)" by simp
  qed
  then have "copy_match out D n = dd @ ?ys" by simp
  moreover have "op + int n = base + int (length ?ys)" using pre zs by simp
  ultimately show ?thesis using H ys unfolding hist_at_def by blast
qed

lemma hist_at_append:
  assumes "hist_at c base dd m out op" "bytes_at m op xs"
  shows "hist_at c base dd m (out @ xs) (op + int (length xs))"
proof -
  from assms(1) obtain pre where pre: "out = dd @ pre" "bytes_at m base pre" "op = base + int (length pre)"
    by (auto simp: hist_at_def)
  then have "out @ xs = dd @ (pre @ xs) \<and> bytes_at m base (pre @ xs) \<and> op + int (length xs) = base + int (length (pre @ xs))"
    using assms(2) by (simp add: bytes_at_append)
  with assms(1) show ?thesis unfolding hist_at_def by blast
qed

text \<open>What the caller provides to decode a valid block.\<close>

definition dec_env :: "arch \<Rightarrow> dec_ctx \<Rightarrow> addr \<Rightarrow> byte list \<Rightarrow> mem \<Rightarrow> bool" where
  "dec_env a c base dd m \<longleftrightarrow>
     \<not> d_partialDecoding c \<and> 0 \<le> d_source c \<and> 0 \<le> d_dest c \<and> base \<le> d_dest c \<and>
     d_oend c < size_mod a \<and> mapped m base (d_oend c) \<and>
     (d_dict c = usingExtDict \<longrightarrow> d_lowPrefix c = base \<and>
        (d_dictEnd c \<le> d_dest c \<or> d_oend c \<le> d_dictEnd c - int (length dd))) \<and>
     (d_checkOffset c \<longrightarrow> d_lowLimit c \<le> base - int (length dd) \<or> d_lowLimit c \<le> d_dest c - 65535)"

lemma dec_env_frame: "frame m m' lo hi \<Longrightarrow> dec_env a c base dd m' = dec_env a c base dd m"
  by (simp add: dec_env_def frame_mapped)

lemma hist_at_frame:
  assumes H: "hist_at c base dd m out op" and E: "dec_env a c base dd m" and f: "frame m m' op (d_oend c)"
    and "d_dest c \<le> op"
  shows "hist_at c base dd m' out op"
proof -
  from H obtain pre where pre: "out = dd @ pre" "bytes_at m base pre" "op = base + int (length pre)"
    by (auto simp: hist_at_def)
  have "bytes_at m' base pre = bytes_at m base pre"
    using pre(3) by (intro frame_bytes_at [OF f]) simp
  moreover have "bytes_at m' (d_dictEnd c - int (length dd)) dd = bytes_at m (d_dictEnd c - int (length dd)) dd"
    if "d_dict c = usingExtDict"
    using E that assms(4) by (intro frame_bytes_at [OF f]) (auto simp: dec_env_def)
  ultimately show ?thesis using H pre unfolding hist_at_def by auto
qed

lemma enc_off_read:
  assumes "bytes_at m p (enc_off D)" "D \<le> 65535"
  shows "ok (\<lambda>v. uint v = int D) (LZ4_readLE16 a m p)"
proof -
  have b: "m p = Some (of_nat (D mod 256))" "m (p + 1) = Some (of_nat (D div 256))"
    using assms(1) by (simp_all add: enc_off_def bytes_at_Cons)
  have "uint (of_nat (D mod 256) :: byte) + 256 * uint (of_nat (D div 256) :: byte) = int D"
  proof -
    have "int (D mod 256) + 256 * int (D div 256) = int (D mod 256 + 256 * (D div 256))" by (simp only: of_nat_add of_nat_mult of_nat_numeral)
    also have "\<dots> = int D" by (simp only: mod_mult_div_eq)
    finally show ?thesis using assms(2) by (simp add: uint_of_nat_byte)
  qed
  with LZ4_readLE16_eq [OF b, of a] show ?thesis by simp
qed

text \<open>The match part of a sequence.\<close>

lemma decode_match_enc:
  assumes E: "dec_env a c base dd m" and H: "hist_at c base dd m out op"
    and i: "bytes_at m ip (enc_off D @ enc_len (n - 4) @ tl0)" "6 \<le> length tl0"
      "d_endOnInput c \<longrightarrow> ip + int (length (enc_off D @ enc_len (n - 4) @ tl0)) = d_iend c"
    and v: "4 \<le> n" "1 \<le> D" "D \<le> 65535" "D \<le> length out"
    and o: "d_dest c \<le> op" "op + 12 \<le> d_oend c" "op + int n + 5 \<le> d_oend c"
  shows "ok (\<lambda>r. \<exists>m'. r = Next m' (ip + 2 + int (length (enc_len (n - 4)))) (op + int n) \<and>
                frame m m' op (d_oend c) \<and> hist_at c base dd m' (copy_match out D n) (op + int n))
           (decode_match a c (token k (n - 4)) m ip op)"
proof -
  from i(1) have b: "bytes_at m ip (enc_off D)" "bytes_at m (ip + 2) (enc_len (n - 4))"
    by (simp_all add: bytes_at_append)
  obtain d where d: "LZ4_readLE16 a m ip = Some d" "uint d = int D"
    using okD [OF enc_off_read [OF b(1) v(3)]] by blast
  let ?mt = "op - int D" and ?ip = "ip + 2 + int (length (enc_len (n - 4)))"
  have E': "0 \<le> d_dest c" "d_oend c < size_mod a" "mapped m base (d_oend c)"
      "d_checkOffset c \<longrightarrow> d_lowLimit c \<le> base - int (length dd) \<or> d_lowLimit c \<le> d_dest c - 65535" "base \<le> d_dest c"
    using E by (auto simp: dec_env_def)
  have len: "int (n - 4) + 4 = int n" using v(1) by simp
  from H obtain pre where pre: "out = dd @ pre" "op = base + int (length pre)" by (auto simp: hist_at_def)
  have g: "get_match_length a c m (token k (n - 4)) (ip + 2) op = Some (Inr (?ip, int n))"
    using get_match_length_enc [OF b(2), of op a c k] len E' o i by (auto simp: add.assoc)
  have chk: "\<not> (d_checkOffset c \<and> ?mt < d_lowLimit c)"
    using E'(4) v(3,4) pre o(1) by auto
  let ?copy = "if d_dict c = usingExtDict \<and> ?mt < d_lowPrefix c
                then ext_dict_copy a c m ?ip op ?mt (int n) else copy_repeated a c m ?ip op ?mt (int n)"
  have "ok (decode_post c m ?ip op ?mt (int n)) ?copy"
  proof (cases "d_dict c = usingExtDict \<and> ?mt < d_lowPrefix c")
    case True
    have "d_lowPrefix c - ?mt \<le> int (length dd)" "mapped m (d_dictEnd c - int (length dd)) (d_dictEnd c)"
      using True E v(4) pre bytes_at_mapped [OF hist_at_dict [OF H]] by (auto simp: dec_env_def)
    then have "ok (decode_post c m ?ip op ?mt (int n)) (ext_dict_copy a c m ?ip op ?mt (int n))"
      using True E o v by (intro ext_dict_copy_ok [of c m "int (length dd)"]) (auto simp: dec_env_def)
    with True show ?thesis by simp
  next
    case False
    have "base \<le> ?mt"
      using False H E v(4) pre by (cases "d_dict c = usingExtDict") (auto simp: hist_at_def dec_env_def)
    with E'(3) have "mapped m ?mt (d_oend c)" by (auto elim: mapped_mono)
    then have "ok (match_post m (d_oend c) ?ip op ?mt (int n)) (copy_repeated a c m ?ip op ?mt (int n))"
      using o v E' by (intro copy_repeated_ok) auto
    then have "ok (decode_post c m ?ip op ?mt (int n)) (copy_repeated a c m ?ip op ?mt (int n))"
      by (rule ok_mono) (rule match_decode_post, use False in auto)
    with False show ?thesis by auto
  qed
  from okD [OF this] obtain r where r: "?copy = Some r" "decode_post c m ?ip op ?mt (int n) r" by blast
  then obtain m' where m': "r = Next m' ?ip (op + int n)" "frame m m' op (d_oend c)" "repeats c m' (int D) op (op + int n)"
    using o v by (cases r) auto
  have h0: "hist_at c base dd m' out op" by (rule hist_at_frame [OF H E m'(2) o(1)])
  have "mapped m' op (op + int n)"
    unfolding frame_mapped [OF m'(2)] by (rule mapped_mono [OF E'(3)]) (use E'(5) o in auto)
  then have h: "hist_at c base dd m' (copy_match out D n) (op + int n)"
    by (rule hist_at_copy [OF h0 m'(3) v(2,4)])
  have "decode_match a c (token k (n - 4)) m ip op = ?copy"
    using d g chk by (auto simp: decode_match_def Let_def)
  with r(1) m' h show ?thesis by simp
qed


text \<open>The input region and the output region are disjoint.\<close>

abbreviation apart :: "dec_ctx \<Rightarrow> addr \<Rightarrow> addr \<Rightarrow> bool" where
  "apart c lo hi \<equiv> hi \<le> d_dest c \<or> d_oend c \<le> lo"

lemma LZ4_decode_sequence_enc:
  assumes E: "dec_env a c base dd m" and H: "hist_at c base dd m out op"
    and i: "bytes_at m ip (enc_seq s @ tl0)" "6 \<le> length tl0" "0 \<le> ip"
      "d_endOnInput c \<longrightarrow> ip + int (length (enc_seq s @ tl0)) = d_iend c"
      "apart c ip (ip + int (length (enc_seq s @ tl0)))" "ip + int (length (enc_seq s @ tl0)) < size_mod a"
    and v: "valid_seq (length out) s"
    and o: "d_dest c \<le> op" "op + int (length (lits s)) + 12 \<le> d_oend c"
      "op + int (length (lits s)) + int (mlen s) + 5 \<le> d_oend c"
  shows "ok (\<lambda>r. \<exists>m'. r = Next m' (ip + int (length (enc_seq s))) (op + int (length (lits s)) + int (mlen s)) \<and>
                frame m m' op (d_oend c) \<and>
                hist_at c base dd m' (apply_seq out s) (op + int (length (lits s)) + int (mlen s)))
           (LZ4_decode_sequence a c m ip op)"
proof -
  let ?l = "lits s" and ?D = "off s" and ?n = "mlen s"
  let ?tok = "token (length ?l) (?n - 4)" and ?el = "enc_len (length ?l)"
  let ?ip = "ip + 1 + int (length ?el)" and ?len = "int (length ?l)"
  let ?mt = "enc_off ?D @ enc_len (?n - 4) @ tl0"
  from i(1) have b: "m ip = Some ?tok" "bytes_at m (ip + 1) ?el" "bytes_at m ?ip ?l" "bytes_at m (?ip + ?len) ?mt"
    by (simp_all add: enc_seq_def bytes_at_Cons bytes_at_append)
  have L: "int (length (enc_seq s @ tl0)) = 1 + int (length ?el) + ?len + int (length ?mt)" "8 \<le> int (length ?mt)"
    using i(2) by (simp_all add: enc_seq_def)
  have E': "0 \<le> d_dest c" "d_oend c < size_mod a" "mapped m base (d_oend c)" "base \<le> d_dest c" "\<not> d_partialDecoding c"
    using E by (auto simp: dec_env_def)
  have rng: "?ip + ?len < size_mod a" "op + ?len < size_mod a" "?len < size_mod a" using i(3,6) L o E' by auto
  have g: "get_lit_length a c m ?tok (ip + 1) op = Some (Inr (?ip, ?len))"
    using get_lit_length_enc [OF b(2), of a op c "?n - 4"] i(3,4) L rng o E' by auto
  have p: "padd a op ?len = op + ?len" "padd a ?ip ?len = ?ip + ?len" using rng i(3) o E' by simp_all
  let ?w = "max 8 (op + ?len - op + 7)"
  have "mapped m ?ip (?ip + int (length (?l @ ?mt)))"
    using b(3,4) by (intro bytes_at_mapped) (simp add: bytes_at_append)
  then have ms: "mapped m ?ip (?ip + ?w)" by (rule mapped_mono) (use L in auto)
  have md: "mapped m op (op + ?w)" by (rule mapped_mono [OF E'(3)]) (use o E' in auto)
  have far: "op - ?ip \<ge> 8 \<or> ?ip - op \<ge> ?w" using i(5) L o by auto
  obtain m1 where m1: "LZ4_wildCopy m op ?ip (op + ?len) = Some m1" "frame m m1 op (op + ?w)"
     "copied m1 (op - ?ip) op (max (op + 8) (op + ?len))"
    using okD [OF LZ4_wildCopy_ok [OF ms md]] far by blast
  have f1: "frame m m1 op (d_oend c)" by (rule frame_mono [OF m1(2)]) (use o in auto)
  have "bytes_at m1 ?ip (?l @ ?mt) = bytes_at m ?ip (?l @ ?mt)"
    using i(5) L o by (intro frame_bytes_at [OF f1]) auto
  with b(3,4) have b1: "bytes_at m1 ?ip ?l" "bytes_at m1 (?ip + ?len) ?mt" by (simp_all add: bytes_at_append)
  have "m1 (op + int j) = Some (?l ! j)" if "j < length ?l" for j
  proof -
    have "m1 (op + int j) = m1 (op + int j - (op - ?ip))" using m1(3) that by (simp add: copied_def)
    also have "op + int j - (op - ?ip) = ?ip + int j" by simp
    finally show ?thesis using bytes_at_nth [OF b1(1) that] by simp
  qed
  then have bl: "bytes_at m1 op ?l" by (simp add: bytes_at_def)
  have E1: "dec_env a c base dd m1" using E by (simp add: dec_env_frame [OF f1])
  have "hist_at c base dd m1 out op" by (rule hist_at_frame [OF H E f1 o(1)])
  then have H1: "hist_at c base dd m1 (out @ ?l) (op + ?len)" by (rule hist_at_append [OF _ bl])
  have vv: "4 \<le> ?n" "1 \<le> ?D" "?D \<le> 65535" "?D \<le> length (out @ ?l)" using v by (auto simp: valid_seq_def)
  have iend: "d_endOnInput c \<longrightarrow> ?ip + ?len + int (length ?mt) = d_iend c" using i(4) L(1) by auto
  have oo: "d_dest c \<le> op + ?len" "op + ?len + 12 \<le> d_oend c" "op + ?len + int ?n + 5 \<le> d_oend c" using o by auto
  from okD [OF decode_match_enc [OF E1 H1 b1(2) i(2) iend vv oo, of "length ?l"]] obtain m2 where
    m2: "decode_match a c ?tok m1 (?ip + ?len) (op + ?len) =
           Some (Next m2 (?ip + ?len + 2 + int (length (enc_len (?n - 4)))) (op + ?len + int ?n))"
        "frame m1 m2 (op + ?len) (d_oend c)" "hist_at c base dd m2 (copy_match (out @ ?l) ?D ?n) (op + ?len + int ?n)"
    by blast
  have "frame m m2 op (d_oend c)"
    by (rule frame_trans [OF f1 frame_mono [OF m2(2)]]) auto
  moreover have "?ip + ?len + 2 + int (length (enc_len (?n - 4))) = ip + int (length (enc_seq s))"
    by (simp add: length_enc_seq)
  moreover have "\<not> (d_endOnInput c \<and> (op + ?len > d_oend c - 12 \<or> ?ip + ?len > d_iend c - 8) \<or>
                   \<not> d_endOnInput c \<and> op + ?len > d_oend c - 8)"
    using iend L oo by auto
  then have "LZ4_decode_sequence a c m ip op = decode_match a c ?tok m1 (?ip + ?len) (op + ?len)"
    using b(1) g p m1(1) E'(5) by (auto simp: LZ4_decode_sequence_def Let_def)
  ultimately show ?thesis using m2(1,3) by (simp add: apply_seq_def)
qed

lemma LZ4_decode_last_enc:
  assumes E: "dec_env a c base dd m" and H: "hist_at c base dd m out op"
    and i: "bytes_at m ip (enc_last l)" "0 \<le> ip"
      "d_endOnInput c \<longrightarrow> ip + int (length (enc_last l)) = d_iend c"
      "apart c ip (ip + int (length (enc_last l)))" "ip + int (length (enc_last l)) < size_mod a"
    and o: "d_dest c \<le> op" "op + int (length l) \<le> d_oend c"
      "\<not> d_endOnInput c \<longrightarrow> op + int (length l) = d_oend c"
  shows "ok (\<lambda>r. \<exists>m'. r = Stop m' (ip + int (length (enc_last l))) (op + int (length l)) \<and>
                frame m m' op (d_oend c) \<and> hist_at c base dd m' (out @ l) (op + int (length l)))
           (LZ4_decode_sequence a c m ip op)"
proof -
  let ?tok = "token (length l) 0" and ?el = "enc_len (length l)"
  let ?ip = "ip + 1 + int (length ?el)" and ?len = "int (length l)"
  from i(1) have b: "m ip = Some ?tok" "bytes_at m (ip + 1) ?el" "bytes_at m ?ip l"
    by (simp_all add: enc_last_def bytes_at_Cons bytes_at_append)
  have L: "int (length (enc_last l)) = 1 + int (length ?el) + ?len" by (simp add: length_enc_last)
  have E': "0 \<le> d_dest c" "d_oend c < size_mod a" "mapped m base (d_oend c)" "base \<le> d_dest c" "\<not> d_partialDecoding c"
    using E by (auto simp: dec_env_def)
  have rng: "?ip + ?len < size_mod a" "op + ?len < size_mod a" "?len < size_mod a" using i(2,5) L o E' by auto
  have g: "get_lit_length a c m ?tok (ip + 1) op = Some (Inr (?ip, ?len))"
    using get_lit_length_enc [OF b(2), of a op c 0] i(2,3) L rng o E' by auto
  have p: "padd a op ?len = op + ?len" "padd a ?ip ?len = ?ip + ?len" using rng i(2) o E' by simp_all
  have "mapped m ?ip (?ip + int (length l))" "mapped m op (op + int (length l))"
    using bytes_at_mapped [OF b(3)] by simp (rule mapped_mono [OF E'(3)], use o E' in auto)
  from okD [OF memcpy_ok [OF this]] obtain m1 where
    m1: "memcpy m op ?ip (length l) = Some m1" "frame m m1 op (op + ?len)"
      "\<And>x. op \<le> x \<Longrightarrow> x < op + ?len \<Longrightarrow> m1 x = m (x - op + ?ip)" by auto
  have f: "frame m m1 op (d_oend c)" by (rule frame_mono [OF m1(2)]) (use o in auto)
  have "m1 (op + int j) = Some (l ! j)" if "j < length l" for j
    using m1(3) [of "op + int j"] bytes_at_nth [OF b(3) that] that by (simp add: add.commute)
  then have bl: "bytes_at m1 op l" by (simp add: bytes_at_def)
  have "hist_at c base dd m1 out op" by (rule hist_at_frame [OF H E f o(1)])
  then have H1: "hist_at c base dd m1 (out @ l) (op + ?len)" by (rule hist_at_append [OF _ bl])
  have "LZ4_decode_sequence a c m ip op = last_literals a c m ?ip op ?len"
    using b(1) g p E'(5) i(3) L o by (auto simp: LZ4_decode_sequence_def Let_def)
  also have "\<dots> = Some (Stop m1 (?ip + ?len) (op + ?len))"
    using m1(1) p E'(5) i(3) L o by (auto simp: last_literals_def Let_def)
  finally show ?thesis using f H1 L by (simp add: add.assoc)
qed

lemma end_ok_rest:
  assumes "end_ok n pos (s # ss)" "n = pos + seqs_size (s # ss) + length l"
  shows "6 \<le> length (enc_seqs ss @ enc_last l)"
  using assms
proof (induction ss arbitrary: s pos)
  case Nil
  then show ?case by (simp add: length_enc_last)
next
  case (Cons t ts)
  have "6 \<le> length (enc_seqs ts @ enc_last l)"
    using Cons.prems by (intro Cons.IH [of "pos + length (lits s) + mlen s" t]) auto
  then show ?case by simp
qed

lemma LZ4_decode_loop_enc:
  assumes E: "dec_env a c base dd m" and H: "hist_at c base dd m out op" and op: "op = d_dest c + int pos"
    and i: "bytes_at m ip (enc_seqs ss @ enc_last l)" "0 \<le> ip"
      "d_endOnInput c \<longrightarrow> ip + int (length (enc_seqs ss @ enc_last l)) = d_iend c"
      "apart c ip (ip + int (length (enc_seqs ss @ enc_last l)))"
      "ip + int (length (enc_seqs ss @ enc_last l)) < size_mod a"
    and v: "valid_seqs (length out) ss" "end_ok N pos ss" "N = pos + seqs_size ss + length l"
    and o: "d_dest c + int N \<le> d_oend c" "\<not> d_endOnInput c \<longrightarrow> d_dest c + int N = d_oend c"
  shows "ok (\<lambda>(r, m'). r = (if d_endOnInput c then int32 (int N)
                           else int32 (ip + int (length (enc_seqs ss @ enc_last l)) - d_source c)) \<and>
                frame m m' op (d_oend c) \<and>
                hist_at c base dd m' (apply_seqs out ss @ l) (d_dest c + int N))
           (LZ4_decode_loop a c m ip op)"
  using assms
proof (induction ss arbitrary: m out ip op pos)
  case Nil
  from Nil have "ok (\<lambda>r. \<exists>m'. r = Stop m' (ip + int (length (enc_last l))) (op + int (length l)) \<and>
                frame m m' op (d_oend c) \<and> hist_at c base dd m' (out @ l) (op + int (length l)))
           (LZ4_decode_sequence a c m ip op)"
    by (intro LZ4_decode_last_enc) auto
  from okD [OF this] obtain m' where
    m': "LZ4_decode_sequence a c m ip op = Some (Stop m' (ip + int (length (enc_last l))) (op + int (length l)))"
      "frame m m' op (d_oend c)" "hist_at c base dd m' (out @ l) (op + int (length l))" by blast
  with Nil.prems show ?case
    by (subst LZ4_decode_loop.simps) (auto simp: add.assoc)
next
  case (Cons s ss)
  let ?tl = "enc_seqs ss @ enc_last l" and ?op = "op + int (length (lits s)) + int (mlen s)"
    and ?ip = "ip + int (length (enc_seq s))"
  have r6: "6 \<le> length ?tl" using Cons.prems(10,11) by (rule end_ok_rest)
  have split: "enc_seqs (s # ss) @ enc_last l = enc_seq s @ ?tl" by simp
  have ip: "bytes_at m ip (enc_seq s @ ?tl)" "d_endOnInput c \<longrightarrow> ip + int (length (enc_seq s @ ?tl)) = d_iend c"
    "apart c ip (ip + int (length (enc_seq s @ ?tl)))" "ip + int (length (enc_seq s @ ?tl)) < size_mod a"
    using Cons.prems(4,6,7,8) unfolding split by auto
  have vs: "valid_seq (length out) s" using Cons.prems(9) by simp
  have eo: "pos + length (lits s) + 12 \<le> N" "pos + length (lits s) + mlen s + 5 \<le> N"
    "end_ok N (pos + length (lits s) + mlen s) ss" using Cons.prems(10) by simp_all
  have oo: "d_dest c \<le> op" "op + int (length (lits s)) + 12 \<le> d_oend c"
      "op + int (length (lits s)) + int (mlen s) + 5 \<le> d_oend c"
    using eo Cons.prems(3,12) by auto
  from okD [OF LZ4_decode_sequence_enc [OF Cons.prems(1,2) ip(1) r6 Cons.prems(5) ip(2,3,4) vs oo]] obtain m1 where
    m1: "LZ4_decode_sequence a c m ip op = Some (Next m1 ?ip ?op)" "frame m m1 op (d_oend c)"
      "hist_at c base dd m1 (apply_seq out s) ?op" by blast
  have E1: "dec_env a c base dd m1" using Cons.prems(1) by (simp add: dec_env_frame [OF m1(2)])
  have "bytes_at m1 ?ip ?tl = bytes_at m ?ip ?tl"
    using ip(3) oo by (intro frame_bytes_at [OF m1(2)]) auto
  then have b1: "bytes_at m1 ?ip ?tl" using ip(1) by (simp add: bytes_at_append)
  have "ok (\<lambda>(r, m'). r = (if d_endOnInput c then int32 (int N) else int32 (?ip + int (length ?tl) - d_source c)) \<and>
                frame m1 m' ?op (d_oend c) \<and> hist_at c base dd m' (apply_seqs (apply_seq out s) ss @ l) (d_dest c + int N))
           (LZ4_decode_loop a c m1 ?ip ?op)"
    using ip(2,3,4) Cons.prems(3,5,9,11-13) eo(3) m1(3) E1 b1
    by (intro Cons.IH [where pos = "pos + length (lits s) + mlen s"]) auto
  then have "ok (\<lambda>(r, m'). r = (if d_endOnInput c then int32 (int N)
                           else int32 (ip + int (length (enc_seqs (s # ss) @ enc_last l)) - d_source c)) \<and>
                frame m m' op (d_oend c) \<and> hist_at c base dd m' (apply_seqs out (s # ss) @ l) (d_dest c + int N))
           (LZ4_decode_loop a c m1 ?ip ?op)"
  proof (rule ok_mono, clarify, intro conjI)
    fix m' assume f: "frame m1 m' ?op (d_oend c)"
    show "frame m m' op (d_oend c)" by (rule frame_trans [OF m1(2) frame_mono [OF f]]) auto
  qed (auto simp: add.assoc)
  then show ?case by (subst LZ4_decode_loop.simps) (simp only: m1(1) Option.bind.bind_lunit dec_outcome.case)
qed

section \<open>The generic decoder\<close>

lemma hist_at_decoded:
  assumes "hist_at c base dd m (expand (dd @ pre) blk) op" "dst = base + int (length pre)"
  shows "bytes_at m dst (decoded (dd @ pre) blk)"
proof -
  from assms(1) obtain pre' where "expand (dd @ pre) blk = dd @ pre'" "bytes_at m base pre'"
    by (auto simp: hist_at_def)
  then have "bytes_at m base (pre @ decoded (dd @ pre) blk)" by (simp add: expand_decoded)
  then show ?thesis using assms(2) by (simp add: bytes_at_append)
qed

text \<open>Every instance of the generic decoder decodes a valid block: with the end given by the input
  size, into any sufficient capacity; with the end given by the output size, into exactly that size.\<close>

lemma LZ4_decompress_generic_enc:
  fixes a src dst cap endOn dict lowPrefix dictStart dictSize m blk
  defines "c \<equiv> LZ4_decompress_ctx a src dst (if endOn = endOnInputSize then int (length (encode blk)) else 0) cap
             endOn full 0 dict lowPrefix dictStart dictSize"
  assumes b: "bytes_at m src (encode blk)" "0 \<le> src" "src + int (length (encode blk)) < size_mod a"
    and ap: "src + int (length (encode blk)) \<le> dst \<or> dst + cap \<le> src"
    and v: "valid_block (length (dd @ pre)) blk"
    and cap: "int (block_size blk) \<le> cap" "endOn = endOnOutputSize \<longrightarrow> int (block_size blk) = cap"
       "dst + cap < size_mod a" "0 \<le> dst" "cap < 2 ^ 31" "int (length (encode blk)) < 2 ^ 31"
    and mp: "mapped m dst (dst + cap)" and pre: "bytes_at m base pre" "dst = base + int (length pre)"
    and dc: "dict = usingExtDict \<longrightarrow> lowPrefix = base \<and> dictSize = int (length dd) \<and> bytes_at m dictStart dd \<and>
               (dictStart + dictSize \<le> dst \<or> dst + cap \<le> dictStart)"
       "dict \<noteq> usingExtDict \<longrightarrow> dd = []"
       "endOn = endOnInputSize \<longrightarrow> dictSize < 64 * KB \<longrightarrow>
          lowPrefix - dictSize \<le> base - int (length dd) \<or> lowPrefix - dictSize \<le> dst - 65535"
  shows "ok (\<lambda>(r, m'). r = (if endOn = endOnInputSize then int (block_size blk) else int (length (encode blk))) \<and>
                frame m m' dst (dst + cap) \<and> bytes_at m' dst (decoded (dd @ pre) blk))
    (LZ4_decompress_generic a m src dst (if endOn = endOnInputSize then int (length (encode blk)) else 0) cap
       endOn full 0 dict lowPrefix dictStart dictSize)"
proof (cases "cap = 0")
  case True
  then have 0: "block_size blk = 0" using cap by simp
  with v have e: "encode blk = [0]" by (intro encode_empty)
  with b(1) have "m src = Some 0" by (simp add: bytes_at_Cons)
  moreover have "decoded (dd @ pre) blk = []" using 0 by (metis length_0_conv length_decoded)
  ultimately show ?thesis using True 0 e by (cases endOn) (simp_all add: LZ4_decompress_generic_def)
next
  case False
  obtain ss l where blk: "blk = (ss, l)" by (cases blk)
  have fields: "d_source c = src" "d_dest c = dst" "d_oend c = dst + cap" "d_lowLimit c = lowPrefix - dictSize"
    "d_lowPrefix c = lowPrefix" "d_dictEnd c = dictStart + dictSize" "d_endOnInput c = (endOn = endOnInputSize)"
    "d_partialDecoding c = False" "d_dict c = dict" "d_checkOffset c = (endOn = endOnInputSize \<and> dictSize < 64 * KB)"
    "d_endOnInput c \<Longrightarrow> d_iend c = src + int (length (encode blk))"
    by (auto simp: c_def LZ4_decompress_ctx_def Let_def)
  have m0: "mapped m base (dst + cap)"
  proof (rule mappedI)
    fix x assume "base \<le> x" "x < dst + cap"
    then show "m x \<noteq> None"
      using mappedD [OF bytes_at_mapped [OF pre(1)], of x] mappedD [OF mp, of x] pre(2) by (cases "x < dst") auto
  qed
  have E: "dec_env a c base dd m"
    unfolding dec_env_def fields using b cap m0 pre dc by auto
  have H: "hist_at c base dd m (dd @ pre) dst"
    unfolding hist_at_def fields using pre dc by auto
  have "ok (\<lambda>(r, m'). r = (if d_endOnInput c then int32 (int (block_size blk))
                           else int32 (src + int (length (enc_seqs ss @ enc_last l)) - d_source c)) \<and>
                frame m m' dst (d_oend c) \<and>
                hist_at c base dd m' (apply_seqs (dd @ pre) ss @ l) (d_dest c + int (block_size blk)))
           (LZ4_decode_loop a c m src dst)"
  proof (rule LZ4_decode_loop_enc [OF E H, where pos = 0])
    have enc: "encode blk = enc_seqs ss @ enc_last l" by (simp add: blk encode_def)
    show "bytes_at m src (enc_seqs ss @ enc_last l)" "src + int (length (enc_seqs ss @ enc_last l)) < size_mod a"
      "apart c src (src + int (length (enc_seqs ss @ enc_last l)))"
      "d_endOnInput c \<longrightarrow> src + int (length (enc_seqs ss @ enc_last l)) = d_iend c"
      using b ap unfolding enc [symmetric] by (simp_all add: fields)
    show "dst = d_dest c + int 0" "0 \<le> src" using b by (simp_all add: fields)
    show "valid_seqs (length (dd @ pre)) ss" "end_ok (block_size blk) 0 ss" "block_size blk = 0 + seqs_size ss + length l"
      using v by (simp_all add: valid_block_def block_size_def blk)
    show "d_dest c + int (block_size blk) \<le> d_oend c" "\<not> d_endOnInput c \<longrightarrow> d_dest c + int (block_size blk) = d_oend c"
      using cap by (cases endOn; simp add: fields)+
  qed
  then have "ok (\<lambda>(r, m'). r = (if endOn = endOnInputSize then int (block_size blk) else int (length (encode blk))) \<and>
                frame m m' dst (dst + cap) \<and> bytes_at m' dst (decoded (dd @ pre) blk))
           (LZ4_decode_loop a c m src dst)"
  proof (rule ok_mono, clarify, intro conjI)
    fix m'
    assume "frame m m' dst (d_oend c)" and h: "hist_at c base dd m' (apply_seqs (dd @ pre) ss @ l) (d_dest c + int (block_size blk))"
    then show "frame m m' dst (dst + cap)" by (simp add: fields)
    have "hist_at c base dd m' (expand (dd @ pre) blk) (d_dest c + int (block_size blk))" using h by (simp add: expand_def blk)
    then show "bytes_at m' dst (decoded (dd @ pre) blk)" by (rule hist_at_decoded [OF _ pre(2)])
  qed (use cap in \<open>auto simp: fields blk encode_def\<close>)
  then show ?thesis using False by (cases endOn) (simp_all add: LZ4_decompress_generic_def c_def)
qed

end
