(* ===== verification/Lz4_Decode_Api.thy ===== *)
theory Lz4_Decode_Api
  imports Lz4_Decode_Correct
begin

text \<open>
  The properties of the decompressor's entry points: memory safety of the safe ones on every
  input, decoding of valid blocks with and without a dictionary, the streaming decoder's state,
  and the cases in which the code departs from its documented contract.
\<close>

section \<open>Safety of the entry points\<close>

lemma LZ4_decompress_generic_safe:
  assumes S: "dec_safe a (LZ4_decompress_ctx a src dst inputSize outputSize endOnInputSize part target
                 dict lowPrefix dictStart dictSize) m dsz"
    and n: "2 \<le> inputSize" "inputSize < 2 ^ 31" "0 \<le> outputSize" "outputSize < 2 ^ 31"
  shows "ok (\<lambda>(r, m'). frame m m' dst (dst + outputSize) \<and> - inputSize - 1 \<le> r \<and> r \<le> outputSize)
           (LZ4_decompress_generic a m src dst inputSize outputSize endOnInputSize part target
              dict lowPrefix dictStart dictSize)"
proof (cases "outputSize = 0")
  case True
  with n show ?thesis by (simp add: LZ4_decompress_generic_def)
next
  case False
  let ?c = "LZ4_decompress_ctx a src dst inputSize outputSize endOnInputSize part target dict lowPrefix dictStart dictSize"
  have "d_source ?c = src" "d_dest ?c = dst" "d_iend ?c = src + inputSize" "d_oend ?c = dst + outputSize"
    by (simp_all add: LZ4_decompress_ctx_def Let_def)
  with LZ4_decode_loop_safe [OF S, of src dst] n False show ?thesis
    by (simp add: LZ4_decompress_generic_def)
qed

text \<open>The conditions every safe call needs: the input is mapped, sizes are \<open>int\<close>s, and the buffers lie
  low enough in the address space for the longest length an input of that size can announce.\<close>

definition call_ok :: "arch \<Rightarrow> mem \<Rightarrow> addr \<Rightarrow> addr \<Rightarrow> int \<Rightarrow> int \<Rightarrow> bool" where
  "call_ok a m src dst inputSize outputSize \<longleftrightarrow>
     2 \<le> inputSize \<and> inputSize < 2 ^ 31 \<and> 0 \<le> outputSize \<and> outputSize < 2 ^ 31 \<and> 0 \<le> src \<and> 0 \<le> dst \<and>
     dst + outputSize + 255 * inputSize + 20 < size_mod a \<and> src + 256 * inputSize + 20 < size_mod a \<and>
     mapped m src (src + inputSize) \<and> mapped m dst (dst + outputSize)"

lemmas ctx_simps = LZ4_decompress_ctx_def dec_safe_def call_ok_def Let_def

lemma noDict_safe:
  assumes "call_ok a m src dst inputSize outputSize" "mapped m (dst - n) (dst + outputSize)" "0 \<le> n"
  shows "ok (\<lambda>(r, m'). frame m m' dst (dst + outputSize) \<and> - inputSize - 1 \<le> r \<and> r \<le> outputSize)
           (LZ4_decompress_generic a m src dst inputSize outputSize endOnInputSize part target noDict (dst - n) 0 0)"
proof (rule LZ4_decompress_generic_safe [where dsz = 0])
  have "mapped m (max (dst - n) (dst - 65535)) (dst + outputSize)"
    using assms(2,3) by (auto elim: mapped_mono)
  then show "dec_safe a (LZ4_decompress_ctx a src dst inputSize outputSize endOnInputSize part target noDict (dst - n) 0 0) m 0"
    using assms(1) by (auto simp: ctx_simps)
qed (use assms in \<open>auto simp: call_ok_def\<close>)

lemma safe_memory_safe:
  assumes "call_ok a m src dst compressedSize maxDecompressedSize"
  shows "ok (\<lambda>(r, m'). frame m m' dst (dst + maxDecompressedSize) \<and>
                       - compressedSize - 1 \<le> r \<and> r \<le> maxDecompressedSize)
           (LZ4_decompress_safe a m src dst compressedSize maxDecompressedSize)"
  using noDict_safe [OF assms, of 0 full 0] assms by (simp add: LZ4_decompress_safe_def call_ok_def)

text \<open>An input of at most one byte is an empty run of literals or an error. The decoder does not look at
  the size before it reads the token, nor before it reads the first length byte that a token of 240 or
  more announces: it reads up to two bytes.\<close>

lemma long_token_decodes:
  fixes a src dst i n dict lp ds dsz
  defines "c \<equiv> LZ4_decompress_ctx a src dst i n endOnInputSize full 0 dict lp ds dsz"
  assumes t: "m src = Some t" "uint (drop_bit 4 t) = 15" "m (src + 1) = Some s" and i: "i \<le> 1"
    and b: "0 \<le> src" "src + 300 < size_mod a" "0 \<le> dst" "dst + n + 300 < size_mod a" "0 \<le> n"
  shows "LZ4_decode_sequence a c m src dst = Some (OutputError m (src + 2))"
proof -
  have c: "d_iend c = src + i" "d_oend c = dst + n" "d_endOnInput c" "\<not> d_partialDecoding c"
    by (simp_all add: c_def LZ4_decompress_ctx_def Let_def)
  define u where "u = uint s"
  have s: "0 \<le> u" "u < 256" using uint_byte by (auto simp: u_def)
  have k: "(15 + u) mod size_mod a = 15 + u" using s size_mod_ge [of a] by simp
  have p: "padd a dst (15 + u) = dst + 15 + u" "padd a (src + 2) (15 + u) = src + 17 + u"
    using s b by (simp_all add: padd_def)
  have "get_lit_length a c m t (src + 1) dst = Some (Inr (src + 2, 15 + u))"
    using s b i p unfolding get_lit_length_def Let_def t(2)
    by (simp add: lit_length_loop.simps t c k u_def [symmetric])
  then show ?thesis
    unfolding LZ4_decode_sequence_def using t s i by (simp add: c last_literals_def p Let_def)
qed

lemma short_token_decodes:
  fixes a src dst i n dict lp ds dsz
  defines "c \<equiv> LZ4_decompress_ctx a src dst i n endOnInputSize full 0 dict lp ds dsz"
  assumes t: "m src = Some t" "uint (drop_bit 4 t) \<noteq> 15" and i: "i \<le> 1"
    and b: "0 \<le> src" "src + 300 < size_mod a" "0 \<le> dst" "dst + n + 300 < size_mod a" "0 \<le> n"
  shows "ok (\<lambda>r. r = OutputError m (src + 1) \<or> r = Stop m (src + 1) dst) (LZ4_decode_sequence a c m src dst)"
proof -
  have c: "d_iend c = src + i" "d_oend c = dst + n" "d_endOnInput c" "\<not> d_partialDecoding c"
    by (simp_all add: c_def LZ4_decompress_ctx_def Let_def)
  define l where "l = uint (drop_bit 4 t)"
  have l: "0 \<le> l" "l < 16" "l \<noteq> 15" using tok_hi_bound [of t] t by (auto simp: l_def)
  have p: "padd a dst l = dst + l" "padd a (src + 1) l = src + 1 + l"
    using l b by (simp_all add: padd_def)
  have "get_lit_length a c m t (src + 1) dst = Some (Inr (src + 1, l))"
    using l by (simp add: get_lit_length_def Let_def l_def)
  then show ?thesis
    unfolding LZ4_decode_sequence_def using t l b i by (auto simp: c last_literals_def p Let_def memcpy_def)
qed

lemma short_input_safe:
  assumes i: "i \<le> 1" and m: "mapped m src (src + 2)"
    and b: "0 \<le> src" "src + 300 < size_mod a" "0 \<le> dst" "dst + n + 300 < size_mod a" "0 \<le> n" "n < 2 ^ 31"
  shows "ok (\<lambda>(r, m'). m' = m \<and> - 3 \<le> r \<and> r \<le> 0) (LZ4_decompress_generic a m src dst i n endOnInputSize full 0 dict lp ds dsz)"
proof (cases "n = 0")
  case True
  with m show ?thesis by (auto simp: LZ4_decompress_generic_def dest: mappedD [of _ _ _ src])
next
  case False
  let ?c = "LZ4_decompress_ctx a src dst i n endOnInputSize full 0 dict lp ds dsz"
  obtain t s where ts: "m src = Some t" "m (src + 1) = Some s"
    using mappedD [OF m, of src] mappedD [OF m, of "src + 1"] by auto
  have "ok (\<lambda>r. r = OutputError m (src + 1) \<or> r = OutputError m (src + 2) \<or> r = Stop m (src + 1) dst)
     (LZ4_decode_sequence a ?c m src dst)"
  proof (cases "uint (drop_bit 4 t) = 15")
    case True
    from long_token_decodes [of m src t, OF ts(1) True ts(2) i b(1-5)] show ?thesis by simp
  next
    case False
    show ?thesis by (rule ok_mono, rule short_token_decodes [of m src t, OF ts(1) False i b(1-5)]) auto
  qed
  then obtain r where r: "LZ4_decode_sequence a ?c m src dst = Some r"
    "r = OutputError m (src + 1) \<or> r = OutputError m (src + 2) \<or> r = Stop m (src + 1) dst" using okD by fastforce
  have "ok (\<lambda>(r, m'). m' = m \<and> - 3 \<le> r \<and> r \<le> 0) (LZ4_decode_loop a ?c m src dst)"
    by (subst LZ4_decode_loop.simps) (use r in \<open>auto simp: LZ4_decompress_ctx_def Let_def\<close>)
  with False show ?thesis by (simp add: LZ4_decompress_generic_def)
qed

text \<open>The conditions of a call of \<open>LZ4_decompress_safe\<close> with any size, negative ones included: what it may
  read is the input or two bytes, whichever is more.\<close>

definition safe_call :: "arch \<Rightarrow> mem \<Rightarrow> addr \<Rightarrow> addr \<Rightarrow> int \<Rightarrow> int \<Rightarrow> bool" where
  "safe_call a m src dst inputSize outputSize \<longleftrightarrow>
     inputSize < 2 ^ 31 \<and> 0 \<le> outputSize \<and> outputSize < 2 ^ 31 \<and> 0 \<le> src \<and> 0 \<le> dst \<and>
     dst + outputSize + 255 * max 2 inputSize + 20 < size_mod a \<and> src + 256 * max 2 inputSize + 20 < size_mod a \<and>
     mapped m src (src + max 2 inputSize) \<and> mapped m dst (dst + outputSize)"

text \<open>C26: \<open>LZ4_decompress_safe\<close> is memory safe whatever the bytes and the size of the input are: it
  terminates, reads only inside the output buffer and the first \<open>max 2 compressedSize\<close> bytes at the
  input (for inputs below two bytes this is more than the input), changes no byte outside the output
  buffer, and returns either a negative error code or the number of bytes written, which is at most the
  capacity. The buffers lie so low that no sum of an address and an announced length wraps
  around: 255 bytes per input byte and 20 below the top of the address space.\<close>

theorem LZ4_decompress_safe_memory_safe:
  assumes "safe_call a m src dst compressedSize maxDecompressedSize"
  shows "ok (\<lambda>(r, m'). frame m m' dst (dst + maxDecompressedSize) \<and>
                       - max 2 compressedSize - 1 \<le> r \<and> r \<le> maxDecompressedSize)
           (LZ4_decompress_safe a m src dst compressedSize maxDecompressedSize)"
proof (cases "2 \<le> compressedSize")
  case True
  then have "call_ok a m src dst compressedSize maxDecompressedSize"
    using assms by (simp add: safe_call_def call_ok_def)
  from safe_memory_safe [OF this] True show ?thesis by simp
next
  case False
  with assms show ?thesis
    unfolding LZ4_decompress_safe_def by (intro ok_mono [OF short_input_safe]) (auto simp: safe_call_def)
qed

theorem LZ4_decompress_safe_memory_safe_witness:
  "ok (\<lambda>(r, m'). frame (buffer 64 [31, 9, 1, 0] ++ buffer 128 [0, 0, 0]) m' 128 131 \<and> - 5 \<le> r \<and> r \<le> 3)
     (LZ4_decompress_safe \<lparr>little_endian = True, bits64 = False, sw_bitcount = False\<rparr>
        (buffer 64 [31, 9, 1, 0] ++ buffer 128 [0, 0, 0]) 64 128 4 3)"
proof -
  have "safe_call \<lparr>little_endian = True, bits64 = False, sw_bitcount = False\<rparr>
     (buffer 64 [31, 9, 1, 0] ++ buffer 128 [0, 0, 0]) 64 128 4 3"
    using mapped_two_left [of 64 "[31, 9, 1, 0]" 128 "[0, 0, 0]"] mapped_two [of 64 "[31, 9, 1, 0]" 128 "[0, 0, 0]"]
    by (simp add: safe_call_def size_mod_def)
  from LZ4_decompress_safe_memory_safe [OF this] show ?thesis by simp
qed

text \<open>\<open>LZ4_decompress_safe_partial\<close> is memory safe in the same way, for every input and
  every target size, negative and oversized ones included.\<close>

lemma LZ4_decompress_safe_partial_memory_safe:
  assumes "call_ok a m src dst compressedSize maxDecompressedSize"
  shows "ok (\<lambda>(r, m'). frame m m' dst (dst + maxDecompressedSize) \<and>
                       - compressedSize - 1 \<le> r \<and> r \<le> maxDecompressedSize)
           (LZ4_decompress_safe_partial a m src dst compressedSize targetOutputSize maxDecompressedSize)"
  using noDict_safe [OF assms, of 0 partial targetOutputSize] assms
  by (simp add: LZ4_decompress_safe_partial_def call_ok_def)

lemma LZ4_decompress_safe_partial_memory_safe_witness:
  "ok (\<lambda>(r, m'). frame (buffer 64 [31, 9, 1, 0] ++ buffer 128 [0, 0, 0]) m' 128 131 \<and> - 5 \<le> r \<and> r \<le> 3)
     (LZ4_decompress_safe_partial \<lparr>little_endian = False, bits64 = True, sw_bitcount = False\<rparr>
        (buffer 64 [31, 9, 1, 0] ++ buffer 128 [0, 0, 0]) 64 128 4 (- 7) 3)"
proof -
  have "call_ok \<lparr>little_endian = False, bits64 = True, sw_bitcount = False\<rparr>
     (buffer 64 [31, 9, 1, 0] ++ buffer 128 [0, 0, 0]) 64 128 4 3"
    using mapped_two_left [of 64 "[31, 9, 1, 0]" 128 "[0, 0, 0]"] mapped_two [of 64 "[31, 9, 1, 0]" 128 "[0, 0, 0]"]
    by (simp add: call_ok_def size_mod_def)
  from LZ4_decompress_safe_partial_memory_safe [OF this, of "- 7"] show ?thesis by simp
qed

lemma safe_usingDict_memory_safe:
  assumes c: "call_ok a m src dst compressedSize maxOutputSize"
    and d: "0 \<le> dictSize" "mapped m dictStart (dictStart + dictSize)"
      "dictStart + dictSize \<le> dst \<or> dst + maxOutputSize \<le> dictStart"
  shows "ok (\<lambda>(r, m'). frame m m' dst (dst + maxOutputSize) \<and> - compressedSize - 1 \<le> r \<and> r \<le> maxOutputSize)
           (LZ4_decompress_safe_usingDict a m src dst compressedSize maxOutputSize dictStart dictSize)"
proof -
  have mo: "mapped m dst (dst + maxOutputSize)" using c by (simp add: call_ok_def)
  consider "dictSize = 0" | "dictSize > 0" "dictStart + dictSize = dst" "dictSize < 65535"
    | "dictSize > 0" "dictStart + dictSize = dst" "65535 \<le> dictSize"
    | "dictSize > 0" "dictStart + dictSize \<noteq> dst" using d(1) by linarith
  then show ?thesis
  proof cases
    case 1
    with noDict_safe [OF c, of 0 full 0] mo show ?thesis
      by (simp add: LZ4_decompress_safe_usingDict_def LZ4_decompress_usingDict_generic_def)
  next
    case 2
    have "mapped m (dst - dictSize) (dst + maxOutputSize)"
      using d(2) mo 2 unfolding mapped_def by (metis add_diff_cancel_right' not_le)
    from noDict_safe [OF c this d(1), of full 0] 2 show ?thesis
      by (simp add: LZ4_decompress_safe_usingDict_def LZ4_decompress_usingDict_generic_def)
  next
    case 3
    have "mapped m (max (dst - 65536) (dst - 65535)) (dst + maxOutputSize)"
    proof (rule mappedI)
      fix x assume "max (dst - 65536) (dst - 65535) \<le> x" "x < dst + maxOutputSize"
      then show "m x \<noteq> None" using 3 mappedD [OF d(2), of x] mappedD [OF mo, of x] by (cases "x < dst") auto
    qed
    then have "dec_safe a (LZ4_decompress_ctx a src dst compressedSize maxOutputSize endOnInputSize full 0
        withPrefix64k (dst - 64 * KB) 0 0) m 0"
      using c by (auto simp: ctx_simps)
    from LZ4_decompress_generic_safe [OF this] c 3 show ?thesis
      by (simp add: LZ4_decompress_safe_usingDict_def LZ4_decompress_usingDict_generic_def call_ok_def)
  next
    case 4
    have "dec_safe a (LZ4_decompress_ctx a src dst compressedSize maxOutputSize endOnInputSize full 0
        usingExtDict dst dictStart dictSize) m dictSize"
      using c d by (auto simp: ctx_simps)
    from LZ4_decompress_generic_safe [OF this] c 4 show ?thesis
      by (simp add: LZ4_decompress_safe_usingDict_def LZ4_decompress_usingDict_generic_def call_ok_def)
  qed
qed

text \<open>\<open>LZ4_decompress_safe_usingDict\<close> is memory safe on every input for a dictionary of any
  size, empty, directly before the output, or elsewhere in memory.\<close>

lemma LZ4_decompress_safe_usingDict_memory_safe:
  assumes c: "call_ok a m src dst compressedSize maxOutputSize"
    and d: "0 \<le> dictSize" "mapped m dictStart (dictStart + dictSize)"
      "dictStart + dictSize \<le> dst \<or> dst + maxOutputSize \<le> dictStart"
  shows "ok (\<lambda>(r, m'). frame m m' dst (dst + maxOutputSize) \<and> - compressedSize - 1 \<le> r \<and> r \<le> maxOutputSize)
           (LZ4_decompress_safe_usingDict a m src dst compressedSize maxOutputSize dictStart dictSize)"
  using assms by (rule safe_usingDict_memory_safe)

lemma LZ4_decompress_safe_usingDict_memory_safe_witness:
  "ok (\<lambda>(r, m'). frame (buffer 64 [31, 9, 1, 0] ++ buffer 128 [0, 0, 0]) m' 129 131 \<and> - 5 \<le> r \<and> r \<le> 2)
     (LZ4_decompress_safe_usingDict \<lparr>little_endian = True, bits64 = True, sw_bitcount = False\<rparr>
        (buffer 64 [31, 9, 1, 0] ++ buffer 128 [0, 0, 0]) 64 129 4 2 128 1)"
proof -
  let ?m = "buffer 64 [31, 9, 1, 0] ++ buffer 128 [0, 0, 0]"
  have m: "mapped ?m 64 68" "mapped ?m 128 131"
    using mapped_two_left [of 64 "[31, 9, 1, 0]" 128 "[0, 0, 0]"] mapped_two [of 64 "[31, 9, 1, 0]" 128 "[0, 0, 0]"]
    by simp_all
  have "mapped ?m 129 131" "mapped ?m 128 (128 + 1)" by (rule mapped_mono [OF m(2)]; simp)+
  then have "call_ok \<lparr>little_endian = True, bits64 = True, sw_bitcount = False\<rparr> ?m 64 129 4 2"
    "mapped ?m 128 (128 + 1)"
    using m by (simp_all add: call_ok_def size_mod_def)
  from LZ4_decompress_safe_usingDict_memory_safe [OF this(1) _ this(2)] show ?thesis by simp
qed

section \<open>Decoding valid blocks\<close>

text \<open>The conditions under which a caller may expect a block back: the encoded block is in memory, apart
  from the output buffer.\<close>

definition block_call :: "arch \<Rightarrow> mem \<Rightarrow> addr \<Rightarrow> seq list \<times> byte list \<Rightarrow> addr \<Rightarrow> int \<Rightarrow> bool" where
  "block_call a m src blk dst cap \<longleftrightarrow>
     bytes_at m src (encode blk) \<and> 0 \<le> src \<and> 0 \<le> dst \<and> src + int (length (encode blk)) < size_mod a \<and>
     (src + int (length (encode blk)) \<le> dst \<or> dst + cap \<le> src) \<and> dst + cap < size_mod a \<and>
     cap < 2 ^ 31 \<and> int (length (encode blk)) < 2 ^ 31 \<and> mapped m dst (dst + cap)"

lemma safe_decodes:
  assumes b: "block_call a m src blk dst cap" and v: "valid_block 0 blk" "int (block_size blk) \<le> cap"
  shows "ok (\<lambda>(r, m'). r = int (block_size blk) \<and> frame m m' dst (dst + cap) \<and> bytes_at m' dst (expand [] blk))
           (LZ4_decompress_safe a m src dst (int (length (encode blk))) cap)"
  using LZ4_decompress_generic_enc [of m src blk a dst cap "[]" "[]" endOnInputSize dst noDict dst 0 0] assms
  by (simp add: block_call_def LZ4_decompress_safe_def)

text \<open>C27: \<open>LZ4_decompress_safe\<close> decodes every valid block: into any buffer of sufficient capacity it
  writes exactly the bytes the block stands for, and returns their number.\<close>

theorem LZ4_decompress_safe_decodes:
  assumes b: "block_call a m src blk dst cap" and v: "valid_block 0 blk" "int (block_size blk) \<le> cap"
  shows "ok (\<lambda>(r, m'). r = int (block_size blk) \<and> frame m m' dst (dst + cap) \<and> bytes_at m' dst (expand [] blk))
           (LZ4_decompress_safe a m src dst (int (length (encode blk))) cap)"
  using assms by (rule safe_decodes)

text \<open>\<open>LZ4_decompress_fast\<close>, told the decoded size and nothing about the input, decodes every valid
  block of that size and returns the number of input bytes it has read.\<close>

lemma LZ4_decompress_fast_decodes:
  assumes b: "block_call a m src blk dst cap" and v: "valid_block 0 blk" "int (block_size blk) = cap"
  shows "ok (\<lambda>(r, m'). r = int (length (encode blk)) \<and> frame m m' dst (dst + cap) \<and> bytes_at m' dst (expand [] blk))
           (LZ4_decompress_fast a m src dst cap)"
  using LZ4_decompress_generic_enc [of m src blk a dst cap "[]" "[]" endOnOutputSize dst withPrefix64k "dst - 64 * KB" "64 * KB" 0] assms
  by (simp add: block_call_def LZ4_decompress_fast_def)

lemma usingDict_decodes:
  assumes b: "block_call a m src blk dst cap" and v: "valid_block (length dd) blk" "int (block_size blk) \<le> cap"
    and e: "endOn = endOnOutputSize \<longrightarrow> int (block_size blk) = cap"
    and d: "bytes_at m dictStart dd" "dictStart + int (length dd) \<le> dst \<or> dst + cap \<le> dictStart"
  shows "ok (\<lambda>(r, m'). r = (if endOn = endOnInputSize then int (block_size blk) else int (length (encode blk))) \<and>
                frame m m' dst (dst + cap) \<and> bytes_at m' dst (decoded dd blk))
           (LZ4_decompress_usingDict_generic a m src dst
              (if endOn = endOnInputSize then int (length (encode blk)) else 0) cap endOn dictStart (int (length dd)))"
proof -
  note g = LZ4_decompress_generic_enc [of m src blk a dst cap]
  note b' = b [unfolded block_call_def]
  consider "dd = []" | "dd \<noteq> []" "dictStart + int (length dd) = dst" "length dd < 65535"
    | "dd \<noteq> []" "dictStart + int (length dd) = dst" "65535 \<le> length dd"
    | "dd \<noteq> []" "dictStart + int (length dd) \<noteq> dst" by linarith
  then show ?thesis
  proof cases
    case 1
    with g [of "[]" "[]" endOn dst noDict dst 0 0] b' v e show ?thesis
      by (simp add: LZ4_decompress_usingDict_generic_def)
  next
    case 2
    have "bytes_at m (dst - int (length dd)) dd" using d(1) 2(2) by (metis add_diff_cancel_right')
    with g [of "[]" dd endOn "dst - int (length dd)" noDict "dst - int (length dd)" 0 0] b' v e 2 show ?thesis
      by (simp add: LZ4_decompress_usingDict_generic_def)
  next
    case 3
    have "bytes_at m (dst - int (length dd)) dd" using d(1) 3(2) by (metis add_diff_cancel_right')
    with g [of "[]" dd endOn "dst - int (length dd)" withPrefix64k "dst - 64 * KB" 0 0] b' v e 3 show ?thesis
      by (simp add: LZ4_decompress_usingDict_generic_def)
  next
    case 4
    with g [of dd "[]" endOn dst usingExtDict dst "int (length dd)" dictStart] b' v e d show ?thesis
      by (simp add: LZ4_decompress_usingDict_generic_def)
  qed
qed

lemma safe_usingDict_decodes:
  assumes "block_call a m src blk dst cap" "valid_block (length dd) blk" "int (block_size blk) \<le> cap"
    and "bytes_at m dictStart dd" "dictStart + int (length dd) \<le> dst \<or> dst + cap \<le> dictStart"
  shows "ok (\<lambda>(r, m'). r = int (block_size blk) \<and> frame m m' dst (dst + cap) \<and> bytes_at m' dst (decoded dd blk))
           (LZ4_decompress_safe_usingDict a m src dst (int (length (encode blk))) cap dictStart (int (length dd)))"
  using usingDict_decodes [OF assms(1-3) _ assms(4,5), of endOnInputSize]
  by (simp add: LZ4_decompress_safe_usingDict_def)

text \<open>C29: With a dictionary, of any size and anywhere in memory, \<open>LZ4_decompress_safe_usingDict\<close> decodes every
  block that is valid after the dictionary's bytes.\<close>

theorem LZ4_decompress_safe_usingDict_decodes:
  assumes "block_call a m src blk dst cap" "valid_block (length dd) blk" "int (block_size blk) \<le> cap"
    and "bytes_at m dictStart dd" "dictStart + int (length dd) \<le> dst \<or> dst + cap \<le> dictStart"
  shows "ok (\<lambda>(r, m'). r = int (block_size blk) \<and> frame m m' dst (dst + cap) \<and> bytes_at m' dst (decoded dd blk))
           (LZ4_decompress_safe_usingDict a m src dst (int (length (encode blk))) cap dictStart (int (length dd)))"
  using assms by (rule safe_usingDict_decodes)

lemma LZ4_decompress_fast_usingDict_decodes:
  assumes "block_call a m src blk dst cap" "valid_block (length dd) blk" "int (block_size blk) = cap"
    and "bytes_at m dictStart dd" "dictStart + int (length dd) \<le> dst \<or> dst + cap \<le> dictStart"
  shows "ok (\<lambda>(r, m'). r = int (length (encode blk)) \<and> frame m m' dst (dst + cap) \<and> bytes_at m' dst (decoded dd blk))
           (LZ4_decompress_fast_usingDict a m src dst cap dictStart (int (length dd)))"
  using usingDict_decodes [OF assms(1,2) _ _ assms(4,5), of endOnOutputSize] assms(3)
  by (simp add: LZ4_decompress_fast_usingDict_def)

section \<open>Streaming\<close>

text \<open>A stream state and a memory represent the bytes that later blocks may refer to: an external
  dictionary and the prefix decoded last.\<close>

definition stream_repr :: "LZ4_streamDecode_t_internal \<Rightarrow> mem \<Rightarrow> byte list \<Rightarrow> byte list \<Rightarrow> bool" where
  "stream_repr sd m dd pre \<longleftrightarrow>
     extDictSize sd = int (length dd) \<and> bytes_at m (externalDict sd) dd \<and>
     prefixSize sd = int (length pre) \<and> bytes_at m (prefixEnd sd - int (length pre)) pre"

text \<open>The history a block decoded at \<open>dst\<close> may refer to.\<close>

definition stream_hist :: "LZ4_streamDecode_t_internal \<Rightarrow> byte list \<Rightarrow> byte list \<Rightarrow> addr \<Rightarrow> byte list" where
  "stream_hist sd dd pre dst = (if prefixEnd sd = dst then dd @ pre else pre)"

lemma LZ4_setStreamDecode_repr:
  assumes "bytes_at m dictionary pre"
  shows "stream_repr (snd (LZ4_setStreamDecode sd dictionary (int (length pre)))) m [] pre"
  using assms by (simp add: stream_repr_def LZ4_setStreamDecode_def)

lemma safe_continue_decodes:
  assumes b: "block_call a m src blk dst cap" and r: "stream_repr sd m dd pre"
    and v: "valid_block (length (stream_hist sd dd pre dst)) blk" "0 < block_size blk" "int (block_size blk) \<le> cap"
    and ap: "if prefixEnd sd = dst
             then externalDict sd + int (length dd) \<le> dst \<or> dst + cap \<le> externalDict sd
             else prefixEnd sd \<le> dst \<or> dst + cap \<le> prefixEnd sd - int (length pre)"
  shows "ok (\<lambda>(res, m', sd'). res = int (block_size blk) \<and> frame m m' dst (dst + cap) \<and>
               prefixEnd sd' = dst + int (block_size blk) \<and> bytes_at m' dst (decoded (stream_hist sd dd pre dst) blk) \<and>
               (\<exists>dd' pre'. stream_repr sd' m' dd' pre' \<and>
                  dd' @ pre' = stream_hist sd dd pre dst @ decoded (stream_hist sd dd pre dst) blk))
           (LZ4_decompress_safe_continue a m sd src dst (int (length (encode blk))) cap)"
proof (cases "prefixEnd sd = dst")
  case True
  have rr: "extDictSize sd = int (length dd)" "bytes_at m (externalDict sd) dd" "prefixSize sd = int (length pre)"
    "bytes_at m (dst - int (length pre)) pre" using r True by (simp_all add: stream_repr_def)
  have h: "stream_hist sd dd pre dst = dd @ pre" using True by (simp add: stream_hist_def)
  from LZ4_decompress_generic_enc [of m src blk a dst cap dd pre endOnInputSize "dst - int (length pre)" usingExtDict
      "dst - int (length pre)" "int (length dd)" "externalDict sd"] b v rr ap True
  have "ok (\<lambda>(res, m'). res = int (block_size blk) \<and> frame m m' dst (dst + cap) \<and> bytes_at m' dst (decoded (dd @ pre) blk))
     (LZ4_decompress_generic a m src dst (int (length (encode blk))) cap endOnInputSize full 0 usingExtDict
        (dst - int (length pre)) (externalDict sd) (int (length dd)))"
    by (simp add: block_call_def h)
  from okD [OF this] obtain m' where
    m': "LZ4_decompress_generic a m src dst (int (length (encode blk))) cap endOnInputSize full 0 usingExtDict
        (dst - int (length pre)) (externalDict sd) (int (length dd)) = Some (int (block_size blk), m')"
      "frame m m' dst (dst + cap)" "bytes_at m' dst (decoded (dd @ pre) blk)" by auto
  let ?sd = "sd\<lparr>prefixSize := prefixSize sd + int (block_size blk), prefixEnd := prefixEnd sd + int (block_size blk)\<rparr>"
  have "bytes_at m' (externalDict sd) dd" "bytes_at m' (dst - int (length pre)) pre"
    using rr ap True by (simp_all add: frame_bytes_at [OF m'(2)])
  then have "stream_repr ?sd m' dd (pre @ decoded (dd @ pre) blk)"
    using rr m'(3) True by (simp add: stream_repr_def bytes_at_append)
  moreover have "LZ4_decompress_safe_continue a m sd src dst (int (length (encode blk))) cap =
      Some (int (block_size blk), m', ?sd)"
    using True m'(1) rr v(2) by (simp add: LZ4_decompress_safe_continue_def)
  ultimately show ?thesis using m'(2,3) True h by auto
next
  case False
  have rr: "prefixSize sd = int (length pre)" "bytes_at m (prefixEnd sd - int (length pre)) pre"
    using r by (simp_all add: stream_repr_def)
  have h: "stream_hist sd dd pre dst = pre" using False by (simp add: stream_hist_def)
  from LZ4_decompress_generic_enc [of m src blk a dst cap pre "[]" endOnInputSize dst usingExtDict
      dst "int (length pre)" "prefixEnd sd - int (length pre)"] b v rr ap False
  have "ok (\<lambda>(res, m'). res = int (block_size blk) \<and> frame m m' dst (dst + cap) \<and> bytes_at m' dst (decoded pre blk))
     (LZ4_decompress_generic a m src dst (int (length (encode blk))) cap endOnInputSize full 0 usingExtDict
        dst (prefixEnd sd - int (length pre)) (int (length pre)))"
    by (simp add: block_call_def h)
  from okD [OF this] obtain m' where
    m': "LZ4_decompress_generic a m src dst (int (length (encode blk))) cap endOnInputSize full 0 usingExtDict
        dst (prefixEnd sd - int (length pre)) (int (length pre)) = Some (int (block_size blk), m')"
      "frame m m' dst (dst + cap)" "bytes_at m' dst (decoded pre blk)" by auto
  let ?sd = "sd\<lparr>extDictSize := prefixSize sd, externalDict := prefixEnd sd - prefixSize sd,
      prefixSize := int (block_size blk), prefixEnd := dst + int (block_size blk)\<rparr>"
  have "bytes_at m' (prefixEnd sd - int (length pre)) pre"
    using rr ap False by (simp add: frame_bytes_at [OF m'(2)])
  then have "stream_repr ?sd m' pre (decoded pre blk)"
    using rr m'(3) by (simp add: stream_repr_def)
  moreover have "LZ4_decompress_safe_continue a m sd src dst (int (length (encode blk))) cap =
      Some (int (block_size blk), m', ?sd)"
    using False m'(1) rr v(2) by (simp add: LZ4_decompress_safe_continue_def Let_def)
  ultimately show ?thesis using m'(2,3) h by auto
qed

text \<open>C28: The streaming decoder \<open>LZ4_decompress_safe_continue\<close>: if the stream represents a history that
  does not overlap the output buffer, a valid block after that history is decoded, and the new state
  represents the history extended by the decoded bytes, whether the output continues the previous one
  or lies elsewhere.\<close>

theorem LZ4_decompress_safe_continue_decodes:
  assumes b: "block_call a m src blk dst cap" and r: "stream_repr sd m dd pre"
    and v: "valid_block (length (stream_hist sd dd pre dst)) blk" "0 < block_size blk" "int (block_size blk) \<le> cap"
    and ap: "if prefixEnd sd = dst
             then externalDict sd + int (length dd) \<le> dst \<or> dst + cap \<le> externalDict sd
             else prefixEnd sd \<le> dst \<or> dst + cap \<le> prefixEnd sd - int (length pre)"
  shows "ok (\<lambda>(res, m', sd'). res = int (block_size blk) \<and> frame m m' dst (dst + cap) \<and>
               prefixEnd sd' = dst + int (block_size blk) \<and> bytes_at m' dst (decoded (stream_hist sd dd pre dst) blk) \<and>
               (\<exists>dd' pre'. stream_repr sd' m' dd' pre' \<and>
                  dd' @ pre' = stream_hist sd dd pre dst @ decoded (stream_hist sd dd pre dst) blk))
           (LZ4_decompress_safe_continue a m sd src dst (int (length (encode blk))) cap)"
  using assms by (rule safe_continue_decodes)

section \<open>Where the code departs from its contract\<close>

text \<open>C36: An input of one byte whose token is 240 or more makes \<open>LZ4_decompress_safe\<close> read the byte after
  the input, although the header promises that it never reads outside the source buffer: the call faults
  exactly when that byte cannot be read, and otherwise returns an error.\<close>

theorem LZ4_decompress_safe_overread:
  assumes t: "m src = Some t" "240 \<le> uint t"
    and b: "0 \<le> src" "src + 300 < size_mod a" "0 \<le> dst" "dst + n + 300 < size_mod a" "0 < n"
  shows "LZ4_decompress_safe a m src dst 1 n =
     (case m (src + 1) of None \<Rightarrow> None | Some s \<Rightarrow> Some (- 3, m))"
proof -
  let ?c = "LZ4_decompress_ctx a src dst 1 n endOnInputSize full 0 noDict dst 0 0"
  have "15 \<le> uint (drop_bit 4 t)" using t(2) by (simp add: drop_bit_eq_div uint_div)
  then have h: "uint (drop_bit 4 t) = 15" using tok_hi_bound [of t] by simp
  have "LZ4_decompress_safe a m src dst 1 n = LZ4_decode_loop a ?c m src dst"
    using b by (simp add: LZ4_decompress_safe_def LZ4_decompress_generic_def)
  also have "\<dots> = (case m (src + 1) of None \<Rightarrow> None | Some s \<Rightarrow> Some (- 3, m))"
  proof (cases "m (src + 1)")
    case None
    then have "get_lit_length a ?c m t (src + 1) dst = None"
      using h by (simp add: get_lit_length_def Let_def lit_length_loop.simps)
    then have "LZ4_decode_sequence a ?c m src dst = None" by (simp add: LZ4_decode_sequence_def t)
    then show ?thesis using None by (simp add: LZ4_decode_loop.simps)
  next
    case (Some s)
    have "LZ4_decode_sequence a ?c m src dst = Some (OutputError m (src + 2))"
      by (rule long_token_decodes [of m src t, OF t(1) h Some]) (use b in auto)
    then show ?thesis using Some by (simp add: LZ4_decode_loop.simps LZ4_decompress_ctx_def Let_def)
  qed
  finally show ?thesis .
qed

theorem LZ4_decompress_safe_overread_witness:
  "LZ4_decompress_safe \<lparr>little_endian = True, bits64 = True, sw_bitcount = False\<rparr>
     (buffer 64 [0xF0] ++ buffer 128 (replicate 16 0)) 64 128 1 16 = None \<and>
   LZ4_decompress_safe \<lparr>little_endian = True, bits64 = True, sw_bitcount = False\<rparr>
     (buffer 64 [0xF0, 9] ++ buffer 128 (replicate 16 0)) 64 128 1 16 =
     Some (- 3, buffer 64 [0xF0, 9] ++ buffer 128 (replicate 16 0))"
  using LZ4_decompress_safe_overread [of "buffer 64 [0xF0] ++ buffer 128 (replicate 16 0)" 64 "0xF0"
      "\<lparr>little_endian = True, bits64 = True, sw_bitcount = False\<rparr>" 128 16]
    LZ4_decompress_safe_overread [of "buffer 64 [0xF0, 9] ++ buffer 128 (replicate 16 0)" 64 "0xF0"
      "\<lparr>little_endian = True, bits64 = True, sw_bitcount = False\<rparr>" 128 16]
  by (simp add: buffer_def map_add_def size_mod_def)

text \<open>On a 32-bit target the overflow check on a match length comes before the minimum match length is
  added: a length that ends within four bytes of the top of the address space wraps the output pointer to
  the bottom of memory, and the next sequence writes there. The output buffer is mapped, the input is
  mapped and 17 bytes long; the call faults.\<close>

lemma LZ4_decompress_safe_wrap32:
  "LZ4_decompress_safe \<lparr>little_endian = True, bits64 = False, sw_bitcount = False\<rparr>
     (buffer 64 [0x1F, 7, 1, 0, 255, 26, 0x10, 5, 1, 0, 0, 0, 0, 0, 0, 0, 0] ++
      buffer 4294966996 (replicate 100 0)) 64 4294966996 17 100 = None"
  by code_simp

text \<open>\<open>LZ4_decompress_fast_continue\<close> looks for the dictionary before the new output buffer instead of
  where the previous block was decoded: on a valid block that refers to the previous block, it returns
  success with other bytes than \<open>LZ4_decompress_safe_continue\<close>.\<close>

definition moved_mem :: mem where
  "moved_mem = buffer 64 (encode ([Seq [] 4 4], [9, 9, 9, 9, 9, 9, 9, 9])) ++ buffer 500 [1, 2, 3, 4] ++
               buffer 896 (replicate 16 0)"

definition moved_stream :: LZ4_streamDecode_t_internal where
  "moved_stream = \<lparr>externalDict = 0, extDictSize = 0, prefixEnd = 504, prefixSize = 4\<rparr>"

lemma LZ4_decompress_fast_continue_wrong_dict:
  "do { (r, m, _) \<leftarrow> LZ4_decompress_safe_continue \<lparr>little_endian = True, bits64 = True, sw_bitcount = False\<rparr>
                       moved_mem moved_stream 64 900 12 12;
        bs \<leftarrow> load_bytes m 900 12; Some (r, bs) } = Some (12, [1, 2, 3, 4, 9, 9, 9, 9, 9, 9, 9, 9]) \<and>
   do { (r, m, _) \<leftarrow> LZ4_decompress_fast_continue \<lparr>little_endian = True, bits64 = True, sw_bitcount = False\<rparr>
                       moved_mem moved_stream 64 900 12;
        bs \<leftarrow> load_bytes m 900 12; Some (r, bs) } = Some (12, [0, 0, 0, 0, 9, 9, 9, 9, 9, 9, 9, 9])"
  by code_simp

text \<open>An offset of zero, which the format description calls invalid, is not rejected: the decoder returns
  success, and the "match" is what the literal copy happened to spill past the literals, here raw bytes of
  the compressed input.\<close>

lemma LZ4_decompress_safe_offset_zero:
  "do { (r, m) \<leftarrow> LZ4_decompress_safe \<lparr>little_endian = True, bits64 = True, sw_bitcount = False\<rparr>
                     (buffer 64 [0x10, 7, 0, 0, 0x80, 1, 2, 3, 4, 5, 6, 7, 8] ++ buffer 128 (replicate 13 0))
                     64 128 13 13;
        bs \<leftarrow> load_bytes m 128 13; Some (r, bs) } =
   Some (13, [7, 0, 0, 0x80, 1, 1, 2, 3, 4, 5, 6, 7, 8])"
  by code_simp

section \<open>Witnesses\<close>

text \<open>A block with a match that overlaps itself, in memory beside its output buffer.\<close>

definition sample :: "seq list \<times> byte list" where
  "sample = ([Seq [1, 2, 3] 3 7], [4, 5, 6, 7, 8, 9, 10, 11, 12])"

definition sample_mem :: mem where
  "sample_mem = buffer 64 (encode sample) ++ buffer 128 (replicate 19 0)"

lemma sample_simps:
  "encode sample = [51, 1, 2, 3, 3, 0, 144, 4, 5, 6, 7, 8, 9, 10, 11, 12]" "block_size sample = 19"
  "valid_block 0 sample" "expand [] sample = [1, 2, 3, 1, 2, 3, 1, 2, 3, 1, 4, 5, 6, 7, 8, 9, 10, 11, 12]"
  by code_simp+

lemma sample_call:
  assumes "0 \<le> cap" "cap \<le> 19"
  shows "block_call \<lparr>little_endian = True, bits64 = True, sw_bitcount = False\<rparr> sample_mem 64 sample 128 cap"
proof -
  have "mapped sample_mem 128 (128 + 19)"
    using mapped_two [of 64 "encode sample" 128 "replicate 19 0"] by (simp add: sample_mem_def)
  then have "mapped sample_mem 128 (128 + cap)" using assms(2) by (auto elim: mapped_mono)
  moreover have "bytes_at sample_mem 64 (encode sample)"
    unfolding sample_mem_def by (rule bytes_at_two) (simp add: sample_simps)
  ultimately show ?thesis using assms by (simp add: block_call_def sample_simps size_mod_def)
qed

theorem LZ4_decompress_safe_decodes_witness:
  "ok (\<lambda>(r, m'). r = 19 \<and> bytes_at m' 128 [1, 2, 3, 1, 2, 3, 1, 2, 3, 1, 4, 5, 6, 7, 8, 9, 10, 11, 12])
     (LZ4_decompress_safe \<lparr>little_endian = True, bits64 = True, sw_bitcount = False\<rparr> sample_mem 64 128 16 19)"
  using LZ4_decompress_safe_decodes [OF sample_call [of 19] sample_simps(3)]
  by (auto simp: sample_simps elim: ok_mono)

lemma LZ4_decompress_fast_decodes_witness:
  "ok (\<lambda>(r, m'). r = 16 \<and> bytes_at m' 128 [1, 2, 3, 1, 2, 3, 1, 2, 3, 1, 4, 5, 6, 7, 8, 9, 10, 11, 12])
     (LZ4_decompress_fast \<lparr>little_endian = True, bits64 = True, sw_bitcount = False\<rparr> sample_mem 64 128 19)"
  using LZ4_decompress_fast_decodes [OF sample_call [of 19] sample_simps(3)]
  by (auto simp: sample_simps elim: ok_mono)

lemma moved_simps:
  "encode ([Seq [] 4 4], [9, 9, 9, 9, 9, 9, 9, 9]) = [0, 4, 0, 128, 9, 9, 9, 9, 9, 9, 9, 9]"
  "block_size ([Seq [] 4 4], [9, 9, 9, 9, 9, 9, 9, 9 :: byte]) = 12"
  "valid_block (Suc (Suc (Suc (Suc 0)))) ([Seq [] 4 4], [9, 9, 9, 9, 9, 9, 9, 9 :: byte])"
  "decoded [1, 2, 3, 4] ([Seq [] 4 4], [9, 9, 9, 9, 9, 9, 9, 9]) = [1, 2, 3, 4, 9, 9, 9, 9, 9, 9, 9, 9]"
  by code_simp+

lemma moved_at:
  "bytes_at moved_mem 64 [0, 4, 0, 128, 9, 9, 9, 9, 9, 9, 9, 9]" "bytes_at moved_mem 500 [1, 2, 3, 4]"
  "mapped moved_mem 900 912"
  by (auto simp: moved_mem_def moved_simps bytes_at_def buffer_def map_add_def mapped_def nth_Cons split: nat.splits)

lemma moved_call:
  "block_call \<lparr>little_endian = True, bits64 = True, sw_bitcount = False\<rparr> moved_mem 64
     ([Seq [] 4 4], [9, 9, 9, 9, 9, 9, 9, 9]) 900 12"
  using moved_at by (simp add: block_call_def moved_simps size_mod_def)

theorem LZ4_decompress_safe_usingDict_decodes_witness:
  "ok (\<lambda>(r, m'). r = 12 \<and> bytes_at m' 900 [1, 2, 3, 4, 9, 9, 9, 9, 9, 9, 9, 9])
     (LZ4_decompress_safe_usingDict \<lparr>little_endian = True, bits64 = True, sw_bitcount = False\<rparr>
        moved_mem 64 900 12 12 500 4)"
  using LZ4_decompress_safe_usingDict_decodes [OF moved_call, of "[1, 2, 3, 4]" 500] moved_at(2)
  by (auto simp: moved_simps elim: ok_mono)

theorem LZ4_decompress_safe_continue_decodes_witness:
  "ok (\<lambda>(r, m', sd'). r = 12 \<and> prefixEnd sd' = 912 \<and>
         (\<exists>dd' pre'. stream_repr sd' m' dd' pre' \<and>
            dd' @ pre' = [1, 2, 3, 4, 1, 2, 3, 4, 9, 9, 9, 9, 9, 9, 9, 9]))
     (LZ4_decompress_safe_continue \<lparr>little_endian = True, bits64 = True, sw_bitcount = False\<rparr>
        moved_mem moved_stream 64 900 12 12)"
proof -
  have "stream_repr moved_stream moved_mem [] [1, 2, 3, 4]"
    using moved_at(2) by (simp add: stream_repr_def moved_stream_def)
  from LZ4_decompress_safe_continue_decodes [OF moved_call this] show ?thesis
    by (auto simp: moved_simps moved_stream_def stream_hist_def elim!: ok_mono)
qed

end
