(* ===== verification/Lz4_Compress_Api.thy ===== *)
theory Lz4_Compress_Api
  imports Lz4_Compress_Correct Lz4_Decode_Api
begin

text \<open>
  The contract of a block compressor as a locale, with the round trip through
  \<open>LZ4_decompress_safe\<close> proved once in it; the one-shot entry points of the fast compressor as
  an instance; and the cases in which they depart from the contract.
\<close>

section \<open>What a block compressor promises\<close>

text \<open>\<open>r\<close> is returned and \<open>m'\<close> left after compressing \<open>src\<close> into \<open>cap\<close> bytes at \<open>dest\<close>: nothing else is
  written, and the output is an encoded block that expands to the input; zero means that it did not fit, which
  a buffer of \<open>LZ4_compressBound\<close> bytes rules out.\<close>

definition compressed :: "mem \<Rightarrow> mem \<Rightarrow> byte list \<Rightarrow> addr \<Rightarrow> int \<Rightarrow> int \<Rightarrow> bool" where
  "compressed m m' src dest cap r \<longleftrightarrow>
     frame m m' dest (dest + cap) \<and>
     (r = 0 \<and> cap < LZ4_compressBound (int (length src)) \<or>
      (\<exists>blk. valid_block 0 blk \<and> expand [] blk = src \<and> bytes_at m' dest (encode blk) \<and>
             r = int (length (encode blk)) \<and> r \<le> cap \<and> r \<le> LZ4_compressBound (int (length src))))"

locale block_compressor =
  fixes compress :: "mem \<Rightarrow> addr \<Rightarrow> addr \<Rightarrow> int \<Rightarrow> int \<Rightarrow> (int \<times> mem) option"
    and accepts :: "mem \<Rightarrow> addr \<Rightarrow> byte list \<Rightarrow> addr \<Rightarrow> int \<Rightarrow> bool"
  assumes compress_block:
    "accepts m source src dest cap \<Longrightarrow>
     ok (\<lambda>(r, m'). compressed m m' src dest cap r) (compress m source dest (int (length src)) cap)"
begin

text \<open>Compressing into a large enough buffer succeeds, and every successful result decompresses to the input.\<close>

lemma compress_succeeds:
  assumes "accepts m source src dest cap" "LZ4_compressBound (int (length src)) \<le> cap"
  shows "ok (\<lambda>(r, m'). 0 < r \<and> r \<le> LZ4_compressBound (int (length src))) (compress m source dest (int (length src)) cap)"
  by (rule ok_mono [OF compress_block [OF assms(1)]])
     (use assms(2) in \<open>auto simp: compressed_def encode_def enc_last_def\<close>)

lemma roundtrip:
  assumes A: "accepts m source src dest cap" and out: "mapped m back (back + n)" "int (length src) \<le> n" "n < 2 ^ 31"
    and apart: "dest + cap \<le> back \<or> back + n \<le> dest" and cap: "cap < 2 ^ 31"
    and space: "0 \<le> dest" "0 \<le> back" "dest + cap < size_mod a" "back + n < size_mod a"
  shows "ok (\<lambda>(r, m'). r = 0 \<and> cap < LZ4_compressBound (int (length src)) \<or>
            0 < r \<and> r \<le> cap \<and> ok (\<lambda>(k, m''). k = int (length src) \<and> bytes_at m'' back src) (LZ4_decompress_safe a m' dest back r n))
           (compress m source dest (int (length src)) cap)"
proof (rule ok_mono [OF compress_block [OF A]], clarify)
  fix r m' assume c: "compressed m m' src dest cap r"
    and h: "\<not> (0 < r \<and> r \<le> cap \<and> ok (\<lambda>(k, m''). k = int (length src) \<and> bytes_at m'' back src) (LZ4_decompress_safe a m' dest back r n))"
  have f: "frame m m' dest (dest + cap)" using c by (simp add: compressed_def)
  show "r = 0 \<and> cap < LZ4_compressBound (int (length src))"
  proof (rule ccontr)
    assume "\<not> ?thesis"
    with c obtain blk where blk: "valid_block 0 blk" "expand [] blk = src" "bytes_at m' dest (encode blk)"
      "r = int (length (encode blk))" "r \<le> cap" unfolding compressed_def by blast
    have bs: "block_size blk = length src" using blk(2) length_expand [of "[]" blk] by simp
    have "block_call a m' dest blk back n"
      using blk out apart cap space by (auto simp: block_call_def frame_mapped [OF f])
    from safe_decodes [OF this blk(1)] bs out
    have "ok (\<lambda>(k, m''). k = int (length src) \<and> bytes_at m'' back src) (LZ4_decompress_safe a m' dest back r n)"
      by (auto simp: blk elim: ok_mono)
    moreover have "0 < r" using blk(4) by (simp add: encode_def enc_last_def)
    ultimately show False using h blk(5) by blast
  qed
qed

end

section \<open>The fast compressor\<close>

text \<open>The conditions of a call of \<open>LZ4_compress_fast\<close>. The last two exclude the cases in which the code goes
  wrong: a limited buffer with an input of 64 KB or more (\<open>LZ4_compress_default_overflow\<close>), and an
  acceleration whose product with 64 wraps (\<open>LZ4_compress_fast_acceleration_wraps\<close>).\<close>

definition fast_call :: "int \<Rightarrow> mem \<Rightarrow> addr \<Rightarrow> byte list \<Rightarrow> addr \<Rightarrow> int \<Rightarrow> bool" where
  "fast_call acceleration m source src dest cap \<longleftrightarrow>
     bytes_at m source src \<and> mapped m dest (dest + cap) \<and>
     (source + int (length src) \<le> dest \<or> dest + cap \<le> source) \<and> 65536 \<le> source \<and>
     0 \<le> cap \<and> cap < 2 ^ 31 \<and> int (length src) \<le> LZ4_MAX_INPUT_SIZE \<and>
     (LZ4_compressBound (int (length src)) \<le> cap \<or> int (length src) < LZ4_64Klimit) \<and>
     acceleration \<le> 2 ^ 25"

lemma compressBound_eq:
  "n \<le> LZ4_MAX_INPUT_SIZE \<Longrightarrow> 0 \<le> n \<Longrightarrow> LZ4_compressBound n = n + n div 255 + 16"
  by (simp add: LZ4_compressBound_def)

lemma fast_generic_ok:
  assumes A: "fast_call acc m source src dest cap" and acc: "1 \<le> acc"
    and tt: "tt = byU16 \<longleftrightarrow> int (length src) < LZ4_64Klimit"
    and lim: "lim = notLimited \<and> LZ4_compressBound (int (length src)) \<le> cap \<or>
              lim = limitedOutput \<and> cap < LZ4_compressBound (int (length src)) \<and> mx = cap"
    and st: "st = LZ4_resetStream st0"
  shows "ok (\<lambda>(r, m', st'). compressed m m' src dest cap r)
           (LZ4_compress_generic a m st source dest (int (length src)) mx lim tt noDict noDictIssue acc)"
proof -
  let ?c = "LZ4_compress_ctx st source dest (int (length src)) mx lim tt noDict noDictIssue acc"
  have b: "LZ4_compressBound (int (length src)) = int (length src + length src div 255 + 16)"
    using A by (simp add: fast_call_def compressBound_eq zdiv_int)
  have E: "enc_env ?c [] src (dest + cap) m"
    using A acc tt b unfolding fast_call_def enc_env_def
    by (auto simp: LZ4_compress_ctx_def Let_def hist_mem_def hist_apart_def st LZ4_resetStream_def split: tableType_t.splits)
  have O: "enc_out ?c src (dest + cap)"
    using A lim b unfolding fast_call_def enc_out_def by (auto simp: LZ4_compress_ctx_def Let_def)
  have T: "tbl_ok ?c [] (source + 1) (hashTable st)"
    using A unfolding st by (auto simp: tbl_ok_def pos_ok_def pos_of_def LZ4_resetStream_def LZ4_compress_ctx_def Let_def fast_call_def)
  from LZ4_compress_generic_ok [OF refl E O T, of a] show ?thesis
  proof (rule ok_mono, clarify)
    fix r m' ctx'
    assume "comp_done ?c [] src (dest + cap) m r m'"
    then show "compressed m m' src dest cap r"
      using lim b unfolding comp_done_def compressed_def
      by (auto simp: LZ4_compress_ctx_def Let_def too_small_def)
  qed
qed

lemma LZ4_compress_fast_extState_ok:
  assumes A: "fast_call acc m source src dest cap"
  shows "ok (\<lambda>(r, m', st'). compressed m m' src dest cap r)
           (LZ4_compress_fast_extState a m state source dest (int (length src)) cap acc)"
proof -
  let ?acc = "if acc < 1 then 1 else acc"
  have A': "fast_call ?acc m source src dest cap" "1 \<le> ?acc" using A by (auto simp: fast_call_def)
  show ?thesis
    unfolding LZ4_compress_fast_extState_def Let_def
    using fast_generic_ok [OF A' _ _ refl] by (simp split: if_splits)
qed

lemma LZ4_compress_fast_ok:
  assumes "fast_call acc m source src dest cap"
  shows "ok (\<lambda>(r, m'). compressed m m' src dest cap r) (LZ4_compress_fast a m ctx source dest (int (length src)) cap acc)"
  using LZ4_compress_fast_extState_ok [OF assms, of a ctx] unfolding LZ4_compress_fast_def by (auto elim!: ok_mono)

interpretation fast: block_compressor
  "\<lambda>m source dest n cap. LZ4_compress_fast a m ctx source dest n cap acc" "fast_call acc" for a ctx acc
  by unfold_locales (rule LZ4_compress_fast_ok)

section \<open>Properties of the one-shot compressors\<close>

text \<open>C7: \<open>LZ4_compress_fast\<close> refines the block format. For an acceleration of at most 2^25 (zero and negative ones included) and an
  input outside the first 64 KB of memory, of at most \<open>LZ4_MAX_INPUT_SIZE\<close> bytes, with either a capacity of
  at least \<open>LZ4_compressBound\<close> or less than \<open>LZ4_64Klimit\<close> bytes of input and any capacity, it terminates, touches only
  its buffers, and returns either 0, only when the capacity is below \<open>LZ4_compressBound\<close>, or the size of an encoded
  valid block that expands to the input and fits the capacity. The restrictions exclude accelerations for which the code loses the
  input (\<open>LZ4_compress_fast_acceleration_wraps\<close>) and limited outputs past whose end it writes (\<open>LZ4_compress_default_overflow\<close>).\<close>

theorem LZ4_compress_fast_correct:
  assumes "fast_call acceleration m source src dest cap"
  shows "ok (\<lambda>(r, m'). frame m m' dest (dest + cap) \<and>
              (r = 0 \<and> cap < LZ4_compressBound (int (length src)) \<or>
               (\<exists>blk. valid_block 0 blk \<and> expand [] blk = src \<and> bytes_at m' dest (encode blk) \<and>
                      r = int (length (encode blk)) \<and> r \<le> cap)))
           (LZ4_compress_fast a m ctx source dest (int (length src)) cap acceleration)"
  by (rule ok_mono [OF fast.compress_block [OF assms]]) (auto simp: compressed_def)

text \<open>C19: Compressing with \<open>LZ4_compress_default\<close> into a buffer of \<open>LZ4_compressBound\<close> bytes always succeeds.\<close>

theorem LZ4_compress_default_bound:
  assumes "fast_call 1 m source src dest cap" "LZ4_compressBound (int (length src)) \<le> cap"
  shows "ok (\<lambda>(r, m'). 0 < r \<and> r \<le> LZ4_compressBound (int (length src)))
           (LZ4_compress_default a m ctx source dest (int (length src)) cap)"
  unfolding LZ4_compress_default_def by (rule fast.compress_succeeds [OF assms])

text \<open>C2: Round trip: whatever \<open>LZ4_compress_default\<close> produces for an input, on any target, \<open>LZ4_decompress_safe\<close>
  turns back into that input, on any target with room for it. A capacity below \<open>LZ4_compressBound\<close> is covered for inputs
  below 64 KB (\<open>fast_call\<close>).\<close>

theorem LZ4_roundtrip:
  assumes "fast_call 1 m source src dest cap" "mapped m back (back + n)" "int (length src) \<le> n" "n < 2 ^ 31"
    and "dest + cap \<le> back \<or> back + n \<le> dest" "0 \<le> dest" "0 \<le> back" "dest + cap < size_mod a'" "back + n < size_mod a'"
  shows "ok (\<lambda>(r, m'). r = 0 \<and> cap < LZ4_compressBound (int (length src)) \<or>
            0 < r \<and> r \<le> cap \<and>
            ok (\<lambda>(k, m''). k = int (length src) \<and> bytes_at m'' back src) (LZ4_decompress_safe a' m' dest back r n))
           (LZ4_compress_default a m ctx source dest (int (length src)) cap)"
  unfolding LZ4_compress_default_def
  by (rule fast.roundtrip [OF assms(1-5)]) (use assms in \<open>auto simp: fast_call_def\<close>)

definition small_mem :: mem where
  "small_mem = buffer 65536 [7, 7, 7] ++ buffer 70000 (replicate 64 0)"

definition fresh_stream :: LZ4_stream_t_internal where
  "fresh_stream = \<lparr>hashTable = (\<lambda>_. 0), currentOffset = 0, initCheck = 0, dictionary = 0, bufferStart = 0, dictSize = 0\<rparr>"

lemma small_call: "acc \<le> 2 ^ 25 \<Longrightarrow> fast_call acc small_mem 65536 [7, 7, 7] 70000 20" "mapped small_mem 70032 70035"
proof -
  have m: "mapped small_mem 70000 70064" "bytes_at small_mem 65536 [7, 7, 7]"
    using mapped_two [of 65536 "[7, 7, 7]" 70000 "replicate 64 0"] bytes_at_two [of 65536 "[7, 7, 7]" 70000 "replicate 64 0"]
    by (simp_all add: small_mem_def)
  then have "mapped small_mem 70000 70020" by (elim mapped_mono) auto
  with m show "acc \<le> 2 ^ 25 \<Longrightarrow> fast_call acc small_mem 65536 [7, 7, 7] 70000 20" by (simp add: fast_call_def)
  show "mapped small_mem 70032 70035" by (rule mapped_mono [OF m(1)]) auto
qed

theorem LZ4_compress_fast_correct_witness:
  "ok (\<lambda>(r, m'). frame small_mem m' 70000 70020 \<and>
        (\<exists>blk. valid_block 0 blk \<and> expand [] blk = [7, 7, 7] \<and> bytes_at m' 70000 (encode blk) \<and> r = int (length (encode blk)) \<and> r \<le> 20))
     (LZ4_compress_fast \<lparr>little_endian = True, bits64 = True, sw_bitcount = False\<rparr> small_mem fresh_stream 65536 70000 3 20 (- 4))"
  by (rule ok_mono [OF LZ4_compress_fast_correct [OF small_call(1) [of "- 4"], simplified]]) (auto simp: LZ4_compressBound_def)

theorem LZ4_compress_default_bound_witness:
  "ok (\<lambda>(r, m'). 0 < r \<and> r \<le> 19)
     (LZ4_compress_default \<lparr>little_endian = True, bits64 = True, sw_bitcount = False\<rparr> small_mem fresh_stream 65536 70000 3 20)"
  by (rule ok_mono [OF LZ4_compress_default_bound [OF small_call(1) [of 1], simplified]]) (auto simp: LZ4_compressBound_def)

theorem LZ4_roundtrip_witness:
  "ok (\<lambda>(r, m'). 0 < r \<and> r \<le> 20 \<and>
        ok (\<lambda>(k, m''). k = 3 \<and> bytes_at m'' 70032 [7, 7, 7])
          (LZ4_decompress_safe \<lparr>little_endian = False, bits64 = False, sw_bitcount = True\<rparr> m' 70000 70032 r 3))
     (LZ4_compress_default \<lparr>little_endian = True, bits64 = True, sw_bitcount = False\<rparr> small_mem fresh_stream 65536 70000 3 20)"
  by (rule ok_mono [OF LZ4_roundtrip [OF small_call(1) [of 1], of 70032 3 "\<lparr>little_endian = False, bits64 = False, sw_bitcount = True\<rparr>", simplified]])
     (use small_call(2) in \<open>auto simp: LZ4_compressBound_def size_mod_def\<close>)

section \<open>Where the fast compressor departs from its contract\<close>

definition distinct_mem :: mem where
  "distinct_mem = buffer 70000 [1, 2, 3, 4, 5, 6, 7, 8, 9, 10, 11, 12, 13, 14, 15, 16, 17, 18, 19, 20] ++ buffer 80000 (replicate 60 0)"

text \<open>With an acceleration of \<open>2 ^ 26\<close> the search step \<open>acceleration << LZ4_skipTrigger\<close> wraps to zero, the position is
  compared with itself, and a match of offset 0 is emitted: 20 distinct bytes are compressed to 9, from which they
  cannot be restored.\<close>

lemma LZ4_compress_fast_acceleration_wraps:
  "do { (r, m) \<leftarrow> LZ4_compress_fast \<lparr>little_endian = True, bits64 = True, sw_bitcount = False\<rparr> distinct_mem fresh_stream
                     70000 80000 20 36 (2 ^ 26);
        bs \<leftarrow> load_bytes m 80000 9;
        Some (r, bs) } = Some (9, [11, 0, 0, 80, 16, 17, 18, 19, 20])"
  by code_simp

text \<open>Writing a length faults when one of its bytes is not mapped.\<close>

lemma write_length_fault:
  "0 \<le> len \<Longrightarrow> i < length (len_ext (nat len)) \<Longrightarrow> m (op + int i) = None \<Longrightarrow> write_length m op len = None"
proof (induction m op len arbitrary: i rule: write_length.induct)
  case (1 m op len)
  show ?case
  proof (cases i)
    case 0
    with "1.prems" show ?thesis by (subst write_length.simps) (simp add: store8_def)
  next
    case (Suc j)
    have "len \<ge> 255" using "1.prems"(1,2) Suc by (simp add: length_len_ext)
    moreover have "write_length m' (op + 1) (len - 255) = None" if st: "store8 m op 255 = Some m'" for m'
    proof (rule "1.IH" [OF \<open>len \<ge> 255\<close> st])
      have "nat (len - 255) = nat len - 255" "255 \<le> nat len" using \<open>len \<ge> 255\<close> by auto
      then show "j < length (len_ext (nat (len - 255)))" using "1.prems"(2) Suc by (simp add: length_len_ext le_div_geq)
      have "m' (op + 1 + int j) = m (op + 1 + int j)" using st by (auto simp: store8_def split: option.splits)
      then show "m' (op + 1 + int j) = None" using "1.prems"(3) Suc by (simp add: algebra_simps)
    qed (use \<open>len \<ge> 255\<close> in simp)
    ultimately show ?thesis by (subst write_length.simps) (cases "store8 m op 255", auto)
  qed
qed

text \<open>400010 zero bytes at 70000 and an output buffer of 1572 bytes at 800000; nothing else is mapped.\<close>

definition zeros_mem :: mem where
  "zeros_mem = (\<lambda>x. if 70000 \<le> x \<and> x < 470010 \<or> 800000 \<le> x \<and> x < 801572 then Some 0 else None)"

abbreviation (input) x64 :: arch where "x64 \<equiv> \<lparr>little_endian = True, bits64 = True, sw_bitcount = False\<rparr>"

lemma zeros_hash: "70000 \<le> p \<Longrightarrow> p + 8 \<le> 470010 \<Longrightarrow> (\<And>x. 70000 \<le> x \<Longrightarrow> x < 470010 \<Longrightarrow> m x = Some 0) \<Longrightarrow> LZ4_hashPosition x64 m p byU32 = Some 0"
  by (simp add: LZ4_hashPosition_def LZ4_read_ARCH_def LZ4_64bits_def LZ4_read64_def numeral_eq_Suc native_val_def
     LZ4_hashSequenceT_def LZ4_hashSequence64_def Let_def)

definition zeros_ctx :: enc_ctx where
  "zeros_ctx = LZ4_compress_ctx (LZ4_resetStream fresh_stream) 70000 800000 400010 1572 limitedOutput byU32 noDict noDictIssue 1"

lemma zeros_ctx_simps:
  "e_source zeros_ctx = 70000" "e_dest zeros_ctx = 800000" "e_mflimit zeros_ctx = 469998" "e_matchlimit zeros_ctx = 470005"
  "e_olimit zeros_ctx = 801572" "e_base zeros_ctx = 70000" "e_lowLimit zeros_ctx = 70000" "e_outputLimited zeros_ctx = limitedOutput"
  "e_tableType zeros_ctx = byU32" "e_dict zeros_ctx = noDict" "e_dictIssue zeros_ctx = noDictIssue" "e_acceleration zeros_ctx = 1"
  by (simp_all add: zeros_ctx_def LZ4_compress_ctx_def Let_def)

lemma zeros_find:
  "LZ4_find_match x64 zeros_ctx zeros_mem (\<lambda>_. 0) 70001 1 64 0 = Some (Found 70001 70000 0 70000 ((\<lambda>_. 0)(0 := 1)) 0)"
proof -
  have z: "zeros_mem x = Some 0" if "70000 \<le> x" "x < 470010" for x using that by (simp add: zeros_mem_def)
  have h: "LZ4_hashPosition x64 zeros_mem p byU32 = Some 0" if "70000 \<le> p" "p + 8 \<le> 470010" for p
    by (rule zeros_hash [OF that z])
  have rd: "LZ4_read32 x64 zeros_mem p = Some 0" if "70000 \<le> p" "p + 4 \<le> 470010" for p
    using z that by (simp add: LZ4_read32_def numeral_eq_Suc native_val_def)
  show ?thesis
    by (subst LZ4_find_match.simps)
       (simp add: zeros_ctx_simps LZ4_getPositionOnHash_def LZ4_putPositionOnHash_def table_size_def enc_ref_def h rd)
qed

lemma zeros_literals:
  "ok (\<lambda>(m, r). r = Some 800002 \<and> frame zeros_mem m 800000 801572 \<and> m 800000 = Some 16)
     (LZ4_encode_literals zeros_ctx zeros_mem 70000 70001 800000)"
proof -
  let ?m = "zeros_mem(800000 \<mapsto> 16)"
  have f: "frame zeros_mem ?m 800000 800001" by (auto simp: frame_def zeros_mem_def)
  have s: "mapped ?m 70000 (70000 + max 8 (800002 - 800001 + 7))" "mapped ?m 800001 (800001 + max 8 (800002 - 800001 + 7))"
    by (auto simp: mapped_def zeros_mem_def)
  have "ok (\<lambda>m. frame zeros_mem m 800000 801572 \<and> m 800000 = Some 16) (LZ4_wildCopy ?m 800001 70000 800002)"
  proof (rule ok_mono [OF LZ4_wildCopy_ok [OF s]])
    fix m assume "frame ?m m 800001 (800001 + max 8 (800002 - 800001 + 7)) \<and>
      (800001 - 70000 \<ge> 8 \<or> 70000 - 800001 \<ge> max 8 (800002 - 800001 + 7) \<longrightarrow> copied m (800001 - 70000) 800001 (max (800001 + 8) 800002))"
    then have g: "frame ?m m 800001 800009" by simp
    have "frame zeros_mem m 800000 801572" by (rule frame_trans [OF frame_mono [OF f] frame_mono [OF g]]) auto
    moreover have "m 800000 = Some 16" using frame_eq [OF g, of 800000] by simp
    ultimately show "frame zeros_mem m 800000 801572 \<and> m 800000 = Some 16" by blast
  qed
  then show ?thesis
    by (auto simp: LZ4_encode_literals_def zeros_ctx_simps store8_def zeros_mem_def elim!: ok_mono)
qed

lemma zeros_match:
  assumes f: "frame zeros_mem m 800000 801572" and t: "m 800000 = Some 16"
  shows "LZ4_encode_match x64 zeros_ctx m 70001 70000 0 70000 800000 800002 = None"
proof -
  have mp: "mapped m 800002 (800002 + int (length [1 :: byte, 0]))"
    unfolding frame_mapped [OF f] by (auto simp: mapped_def zeros_mem_def)
  obtain m1 where w: "LZ4_writeLE16 x64 m 800002 1 = Some m1" and f1: "frame m m1 800002 800004"
    using okD [OF store_bytes_ok [OF mp]] by (auto simp: LZ4_writeLE16_eq)
  have f2: "frame zeros_mem m1 800000 801572" by (rule frame_trans [OF f frame_mono [OF f1]]) auto
  have z: "m1 x = Some 0" if "70000 \<le> x" "x < 470010" for x using frame_eq [OF f2, of x] that by (simp add: zeros_mem_def)
  have "ok (longest_common m1 70005 70004 470005) (LZ4_count x64 m1 70005 70004 470005)"
    by (rule LZ4_count_ok) (use z in \<open>auto simp: mapped_def\<close>)
  then obtain n where n: "LZ4_count x64 m1 70005 70004 470005 = Some n" "longest_common m1 70005 70004 470005 n" by (blast dest: okD)
  have "n = 400000"
    using n(2) z [of "70005 + n"] z [of "70004 + n"] by (auto simp: longest_common_def)
  with n have x: "LZ4_match_extent x64 zeros_ctx m1 70001 70000 0 70000 = Some (400000, 470005)"
    by (simp add: LZ4_match_extent_def zeros_ctx_simps)
  have t1: "m1 800000 = Some 16" using frame_eq [OF f1, of 800000] t by simp
  let ?m2 = "m1(800000 \<mapsto> 31)"
  have "?m2 (800004 + int 1568) = None" using frame_eq [OF f2, of 801572] by (simp add: zeros_mem_def)
  then have "write_match_length ?m2 800004 399985 = None"
    by (subst write_match_length_eq) (auto intro!: write_length_fault [where i = 1568] simp: length_len_ext)
  with w x t1 show ?thesis by (simp add: LZ4_encode_match_def zeros_ctx_simps store8_def)
qed

text \<open>C25: The test of the output limit counts one length byte per 256 bytes of match (\<open>matchLength>>8\<close>), the encoding
  takes one per 255: for 400010 zero bytes and a capacity of 1572 the test passes and \<open>LZ4_compress_default\<close> writes
  the last length byte past the end of the output buffer, a fault when nothing is mapped there.\<close>

theorem LZ4_compress_default_overflow:
  "LZ4_compress_default x64 zeros_mem fresh_stream 70000 800000 400010 1572 = None"
proof -
  obtain m where l: "LZ4_encode_literals zeros_ctx zeros_mem 70000 70001 800000 = Some (m, Some 800002)"
    and m: "frame zeros_mem m 800000 801572" "m 800000 = Some 16"
    using okD [OF zeros_literals] by auto
  have up: "LZ4_catch_up zeros_mem 70000 0 70000 70001 70000 = Some (70001, 70000)" by (subst LZ4_catch_up.simps) simp
  have "LZ4_next_match x64 zeros_ctx m tbl 70001 70000 0 70000 800000 800002 = None" for tbl
    by (subst LZ4_next_match.simps) (simp add: zeros_match [OF m])
  then have "LZ4_compress_step x64 zeros_ctx zeros_mem (\<lambda>_. 0) 70000 70001 800000 0 = None"
    by (simp add: LZ4_compress_step_def zeros_ctx_simps zeros_find up l)
  then have lp: "LZ4_compress_loop x64 zeros_ctx zeros_mem (\<lambda>_. 0) 70000 70001 800000 0 = None"
    by (subst LZ4_compress_loop.simps) simp
  have h: "LZ4_hashPosition x64 zeros_mem p byU32 = Some 0" if "70000 \<le> p" "p + 8 \<le> 470010" for p
    by (rule zeros_hash [OF that]) (simp add: zeros_mem_def)
  have "LZ4_compress_generic x64 zeros_mem (LZ4_resetStream fresh_stream) 70000 800000 400010 1572 limitedOutput byU32 noDict noDictIssue 1 = None"
    unfolding LZ4_compress_generic_def Let_def zeros_ctx_def [symmetric]
    by (simp add: LZ4_putPosition_def LZ4_putPositionOnHash_def h table_size_def zeros_ctx_simps LZ4_resetStream_def fun_upd_idem lp)
  then show ?thesis
    by (simp add: LZ4_compress_default_def LZ4_compress_fast_def LZ4_compress_fast_extState_def LZ4_compressBound_def LZ4_64bits_def Let_def)
qed

end
