(* ===== verification/Lz4_Stream.thy ===== *)
theory Lz4_Stream
  imports Lz4_Compress_Api
begin

text \<open>
  Streaming compression of \<^verbatim>\<open>src/src/lz4/lib/lz4.c\<close>: dictionaries, renormalising the table,
  \<open>LZ4_compress_fast_continue\<close> and the obsolete streaming functions; the invariant of a stream, the
  history it represents, and the round trip with the streaming decoder.
\<close>

abbreviation (input) GB :: int where "GB \<equiv> 2 ^ 30"

text \<open>\<open>HASH_UNIT\<close> is \<open>sizeof(size_t)\<close>, as \<open>STEPSIZE\<close>.\<close>

abbreviation (input) HASH_UNIT :: "arch \<Rightarrow> int" where "HASH_UNIT \<equiv> STEPSIZE"

section \<open>Loading a dictionary\<close>

function LZ4_loadDict_loop :: "arch \<Rightarrow> mem \<Rightarrow> htable \<Rightarrow> addr \<Rightarrow> addr \<Rightarrow> addr \<Rightarrow> htable option" where
  "LZ4_loadDict_loop a m tbl p dictEnd base =
     (if p \<le> dictEnd - HASH_UNIT a
      then do { tbl \<leftarrow> LZ4_putPosition a m p tbl byU32 base; LZ4_loadDict_loop a m tbl (p + 3) dictEnd base }
      else Some tbl)"
  by pat_completeness auto
termination
  by (relation "measure (\<lambda>(a, m, tbl, p, dictEnd, base). nat (dictEnd - p))") (auto simp: STEPSIZE_def split: if_splits)

declare LZ4_loadDict_loop.simps [simp del]

definition LZ4_loadDict ::
  "arch \<Rightarrow> mem \<Rightarrow> LZ4_stream_t_internal \<Rightarrow> addr \<Rightarrow> int \<Rightarrow> (int \<times> LZ4_stream_t_internal) option" where
  "LZ4_loadDict a m dict dictStart dictLen =
     (let p = dictStart; dictEnd = p + dictLen;
          dict = (if initCheck dict \<noteq> 0 \<or> currentOffset dict > 1 * GB then LZ4_resetStream dict else dict)
      in
      if dictLen < HASH_UNIT a then Some (0, dict\<lparr>dictionary := 0, dictSize := 0\<rparr>)
      else
      (let p = (if dictEnd - p > 64 * KB then dictEnd - 64 * KB else p);
           off = uns32 (currentOffset dict + 64 * KB);
           base = p - off;
           dict = dict\<lparr>dictionary := p, dictSize := uns32 (dictEnd - p), currentOffset := uns32 (off + uns32 (dictEnd - p))\<rparr>
       in
       do { tbl \<leftarrow> LZ4_loadDict_loop a m (hashTable dict) p dictEnd base;
            Some (dictSize dict, dict\<lparr>hashTable := tbl\<rparr>) }))"

section \<open>Streaming compression\<close>

definition LZ4_renormDictT :: "LZ4_stream_t_internal \<Rightarrow> addr \<Rightarrow> LZ4_stream_t_internal" where
  "LZ4_renormDictT dict src =
     (if currentOffset dict > 0x80000000 \<or> currentOffset dict > src
      then (let delta = uns32 (currentOffset dict - 64 * KB);
                dictEnd = dictionary dict + dictSize dict;
                tbl = (\<lambda>i. if 0 \<le> i \<and> i < HASH_SIZE_U32
                           then (if hashTable dict i < delta then 0 else hashTable dict i - delta)
                           else hashTable dict i);
                sz = (if dictSize dict > 64 * KB then 64 * KB else dictSize dict)
            in dict\<lparr>hashTable := tbl, currentOffset := 64 * KB, dictSize := sz, dictionary := dictEnd - sz\<rparr>)
      else dict)"

text \<open>The part of the dictionary that the input overwrites is given up.\<close>

definition LZ4_checkOverlap :: "LZ4_stream_t_internal \<Rightarrow> addr \<Rightarrow> addr \<Rightarrow> int \<Rightarrow> LZ4_stream_t_internal" where
  "LZ4_checkOverlap s dictEnd source inputSize =
     (let sourceEnd = source + inputSize in
      if sourceEnd > dictionary s \<and> sourceEnd < dictEnd
      then (let sz = uns32 (dictEnd - sourceEnd);
                sz = (if sz > 64 * KB then 64 * KB else sz);
                sz = (if sz < 4 then 0 else sz)
            in s\<lparr>dictSize := sz, dictionary := dictEnd - sz\<rparr>)
      else s)"

definition LZ4_compress_fast_continue ::
  "arch \<Rightarrow> mem \<Rightarrow> LZ4_stream_t_internal \<Rightarrow> addr \<Rightarrow> addr \<Rightarrow> int \<Rightarrow> int \<Rightarrow> int \<Rightarrow>
   (int \<times> mem \<times> LZ4_stream_t_internal) option" where
  "LZ4_compress_fast_continue a m s source dest inputSize maxOutputSize acceleration =
     (let dictEnd = dictionary s + dictSize s in
      if initCheck s \<noteq> 0 then Some (0, m, s)
      else
      (let smallest = (if dictSize s > 0 \<and> source > dictEnd then dictEnd else source);
           s = LZ4_renormDictT s smallest;
           acceleration = (if acceleration < 1 then ACCELERATION_DEFAULT else acceleration);
           s = LZ4_checkOverlap s dictEnd source inputSize;
           issue = (if dictSize s < 64 * KB \<and> dictSize s < currentOffset s then dictSmall else noDictIssue)
       in
       if dictEnd = source
       then do { (r, m, s) \<leftarrow> LZ4_compress_generic a m s source dest inputSize maxOutputSize limitedOutput byU32
                                withPrefix64k issue acceleration;
                 Some (r, m, s\<lparr>dictSize := uns32 (dictSize s + inputSize),
                                currentOffset := uns32 (currentOffset s + inputSize)\<rparr>) }
       else do { (r, m, s) \<leftarrow> LZ4_compress_generic a m s source dest inputSize maxOutputSize limitedOutput byU32
                                usingExtDict issue acceleration;
                 Some (r, m, s\<lparr>dictionary := source, dictSize := uns32 inputSize,
                                currentOffset := uns32 (currentOffset s + inputSize)\<rparr>) }))"

definition LZ4_compress_forceExtDict ::
  "arch \<Rightarrow> mem \<Rightarrow> LZ4_stream_t_internal \<Rightarrow> addr \<Rightarrow> addr \<Rightarrow> int \<Rightarrow> (int \<times> mem \<times> LZ4_stream_t_internal) option" where
  "LZ4_compress_forceExtDict a m s source dest inputSize =
     (let dictEnd = dictionary s + dictSize s;
          smallest = (if dictEnd > source then source else dictEnd);
          s = LZ4_renormDictT s smallest
      in
      do { (r, m, s) \<leftarrow> LZ4_compress_generic a m s source dest inputSize 0 notLimited byU32 usingExtDict noDictIssue 1;
           Some (r, m, s\<lparr>dictionary := source, dictSize := uns32 inputSize,
                          currentOffset := uns32 (currentOffset s + inputSize)\<rparr>) })"

definition LZ4_saveDict ::
  "mem \<Rightarrow> LZ4_stream_t_internal \<Rightarrow> addr \<Rightarrow> int \<Rightarrow> (int \<times> mem \<times> LZ4_stream_t_internal) option" where
  "LZ4_saveDict m dict safeBuffer n =
     (let previousDictEnd = dictionary dict + dictSize dict;
          n = (if uns32 n > 64 * KB then 64 * KB else n);
          n = (if uns32 n > dictSize dict then int32 (dictSize dict) else n)
      in
      do { m \<leftarrow> memcpy m safeBuffer (previousDictEnd - n) (nat n);
           Some (n, m, dict\<lparr>dictionary := safeBuffer, dictSize := uns32 n\<rparr>) })"

section \<open>Obsolete streaming functions\<close>

definition LZ4_compress_limitedOutput_continue ::
  "arch \<Rightarrow> mem \<Rightarrow> LZ4_stream_t_internal \<Rightarrow> addr \<Rightarrow> addr \<Rightarrow> int \<Rightarrow> int \<Rightarrow> (int \<times> mem \<times> LZ4_stream_t_internal) option" where
  "LZ4_compress_limitedOutput_continue a m s src dst srcSize maxDstSize =
     LZ4_compress_fast_continue a m s src dst srcSize maxDstSize 1"

definition LZ4_compress_continue ::
  "arch \<Rightarrow> mem \<Rightarrow> LZ4_stream_t_internal \<Rightarrow> addr \<Rightarrow> addr \<Rightarrow> int \<Rightarrow> (int \<times> mem \<times> LZ4_stream_t_internal) option" where
  "LZ4_compress_continue a m s source dest inputSize =
     LZ4_compress_fast_continue a m s source dest inputSize (LZ4_compressBound inputSize) 1"

definition LZ4_init :: "LZ4_stream_t_internal \<Rightarrow> addr \<Rightarrow> LZ4_stream_t_internal" where
  "LZ4_init lz4ds base = (LZ4_resetStream lz4ds)\<lparr>bufferStart := base\<rparr>"

text \<open>The state's own address matters for the alignment check only.\<close>

definition LZ4_resetStreamState ::
  "addr \<Rightarrow> LZ4_stream_t_internal \<Rightarrow> addr \<Rightarrow> int \<times> LZ4_stream_t_internal" where
  "LZ4_resetStreamState state s inputBuffer =
     (if state mod 4 \<noteq> 0 then (1, s) else (0, LZ4_init s inputBuffer))"

definition LZ4_slideInputBuffer ::
  "mem \<Rightarrow> LZ4_stream_t_internal \<Rightarrow> (addr \<times> mem \<times> LZ4_stream_t_internal) option" where
  "LZ4_slideInputBuffer m ctx =
     do { (n, m, ctx') \<leftarrow> LZ4_saveDict m ctx (bufferStart ctx) (64 * KB); Some (bufferStart ctx + n, m, ctx') }"

section \<open>The stream invariant\<close>

text \<open>The entries of the table are offsets of positions at least four bytes before the current offset, except in
  a fresh stream, where they are all zero.\<close>

definition offs_ok :: "int \<Rightarrow> htable \<Rightarrow> bool" where
  "offs_ok lim tbl \<longleftrightarrow> (\<forall>h. 0 \<le> h \<longrightarrow> h < HASH_SIZE_U32 \<longrightarrow> 0 \<le> tbl h \<and> tbl h + 4 \<le> lim)"

definition stream_ok :: "LZ4_stream_t_internal \<Rightarrow> bool" where
  "stream_ok s \<longleftrightarrow>
     initCheck s = 0 \<and> 0 \<le> dictSize s \<and> dictSize s \<le> currentOffset s \<and> currentOffset s < 2 ^ 32 \<and>
     (offs_ok (currentOffset s) (hashTable s) \<or>
      currentOffset s = 0 \<and> (\<forall>h. 0 \<le> h \<longrightarrow> h < HASH_SIZE_U32 \<longrightarrow> hashTable s h = 0))"

lemma offs_ok_mono: "offs_ok n tbl \<Longrightarrow> n \<le> n' \<Longrightarrow> offs_ok n' tbl"
  by (fastforce simp: offs_ok_def)

lemma offs_ok_upd: "offs_ok n tbl \<Longrightarrow> 0 \<le> v \<Longrightarrow> v + 4 \<le> n \<Longrightarrow> offs_ok n (tbl(h := v))"
  by (simp add: offs_ok_def)

lemma stream_ok_offs: "stream_ok s \<Longrightarrow> currentOffset s + 4 \<le> n \<Longrightarrow> offs_ok n (hashTable s)"
  by (auto simp: stream_ok_def offs_ok_def)

lemma stream_ok_reset [simp]: "stream_ok (LZ4_resetStream s)"
  by (simp add: stream_ok_def LZ4_resetStream_def)

lemma LZ4_loadDict_loop_ok:
  assumes "mapped m lo dictEnd" "lo \<le> p" "base \<le> lo" "dictEnd - base < 2 ^ 32" "offs_ok (dictEnd - base) tbl"
  shows "ok (offs_ok (dictEnd - base)) (LZ4_loadDict_loop a m tbl p dictEnd base)"
  using assms
proof (induction a m tbl p dictEnd base rule: LZ4_loadDict_loop.induct)
  case (1 a m tbl p dictEnd base)
  show ?case
  proof (cases "p \<le> dictEnd - STEPSIZE a")
    case True
    have "mapped m p (p + STEPSIZE a)" by (rule mapped_mono [OF "1.prems"(1)]) (use "1.prems" True in auto)
    then obtain h where h: "LZ4_hashPosition a m p byU32 = Some h" "0 \<le> h" "h < 4096"
      using okD [OF LZ4_hashPosition_unit, of m p a byU32] by (auto simp: table_size_def)
    have s: "4 \<le> STEPSIZE a" by (simp add: STEPSIZE_def)
    have v: "(p - base) mod 2 ^ 32 = p - base" using "1.prems" True s by simp
    have pp: "LZ4_putPosition a m p tbl byU32 base = Some (tbl(h := p - base))"
      using h v by (simp add: LZ4_putPosition_def LZ4_putPositionOnHash_def table_size_def)
    have off: "offs_ok (dictEnd - base) (tbl(h := p - base))" by (rule offs_ok_upd) (use "1.prems" True s in auto)
    have "ok (offs_ok (dictEnd - base)) (LZ4_loadDict_loop a m (tbl(h := p - base)) (p + 3) dictEnd base)"
      by (rule "1.IH" [OF True pp "1.prems"(1) _ "1.prems"(3,4) off]) (use "1.prems"(2) in simp)
    then show ?thesis using True by (subst LZ4_loadDict_loop.simps) (simp add: pp)
  next
    case False
    with "1.prems" show ?thesis by (subst LZ4_loadDict_loop.simps) simp
  qed
qed

lemma LZ4_loadDict_ok:
  assumes s: "stream_ok s" and d: "mapped m dictStart (dictStart + n)" "n < 2 ^ 31"
  shows "ok (\<lambda>(r, s'). stream_ok s' \<and> r = dictSize s' \<and> r = (if n < HASH_UNIT a then 0 else min n (64 * KB)) \<and>
              (0 < r \<longrightarrow> dictionary s' + r = dictStart + n))
           (LZ4_loadDict a m s dictStart n)"
proof -
  define s0 where "s0 = (if initCheck s \<noteq> 0 \<or> currentOffset s > 1 * GB then LZ4_resetStream s else s)"
  have s0: "stream_ok s0" "currentOffset s0 \<le> 2 ^ 30"
    using s by (auto simp: s0_def) (simp_all add: LZ4_resetStream_def)
  show ?thesis
  proof (cases "n < STEPSIZE a")
    case True
    with s0 show ?thesis unfolding LZ4_loadDict_def Let_def s0_def [symmetric] by (auto simp: stream_ok_def)
  next
    case False
    have st: "4 \<le> STEPSIZE a" by (simp add: STEPSIZE_def)
    let ?e = "dictStart + n"
    define p where "p = (if ?e - dictStart > 65536 then ?e - 65536 else dictStart)"
    have n: "?e - p = min n 65536" "dictStart \<le> p" "0 < min n 65536" using False st by (auto simp: p_def)
    let ?off = "currentOffset s0 + 65536"
    have o: "0 \<le> currentOffset s0" using s0 by (simp add: stream_ok_def)
    have u: "uns32 ?off = ?off" "uns32 (?e - p) = ?e - p" "uns32 (?off + (?e - p)) = ?off + (?e - p)"
      using s0 n o by auto
    have "offs_ok (?e - (p - ?off)) (hashTable s0)" by (rule stream_ok_offs [OF s0(1)]) (use n in auto)
    then have "ok (offs_ok (?e - (p - ?off))) (LZ4_loadDict_loop a m (hashTable s0) p ?e (p - ?off))"
      by (intro LZ4_loadDict_loop_ok [where lo = p] mapped_mono [OF d(1)]) (use n o s0 in auto)
    moreover have "?e - (p - ?off) = ?off + (?e - p)" by simp
    ultimately obtain tbl where t: "LZ4_loadDict_loop a m (hashTable s0) p ?e (p - ?off) = Some tbl" "offs_ok (?off + (?e - p)) tbl"
      by (auto dest: okD simp only:)
    let ?s = "s0\<lparr>dictionary := p, dictSize := ?e - p, currentOffset := ?off + (?e - p)\<rparr>"
    have "LZ4_loadDict a m s dictStart n = Some (?e - p, ?s\<lparr>hashTable := tbl\<rparr>)"
      using False t(1) u unfolding LZ4_loadDict_def Let_def unfolding s0_def [symmetric] by (auto simp: p_def split: if_splits)
    moreover have "stream_ok (?s\<lparr>hashTable := tbl\<rparr>)" using s0 t(2) n o by (simp add: stream_ok_def)
    ultimately show ?thesis using n False by simp
  qed
qed

text \<open>The window after renormalising.\<close>

lemma LZ4_renormDictT_ok:
  assumes "stream_ok s"
  shows "stream_ok (LZ4_renormDictT s src)" "currentOffset (LZ4_renormDictT s src) \<le> 2 ^ 31"
    "dictionary (LZ4_renormDictT s src) + dictSize (LZ4_renormDictT s src) = dictionary s + dictSize s"
    "dictSize (LZ4_renormDictT s src) \<le> dictSize s"
proof -
  let ?d = "uns32 (currentOffset s - 65536)"
  have o: "0 \<le> currentOffset s" "currentOffset s < 2 ^ 32" using assms by (auto simp: stream_ok_def)
  have d: "currentOffset s - 65536 \<le> ?d"
  proof (cases "65536 \<le> currentOffset s")
    case True
    then show ?thesis using o by simp
  next
    case False
    then show ?thesis using uns32_bounds [of "currentOffset s - 65536"] by linarith
  qed
  have "offs_ok 65536 (\<lambda>i. if 0 \<le> i \<and> i < HASH_SIZE_U32 then (if hashTable s i < ?d then 0 else hashTable s i - ?d) else hashTable s i)"
    unfolding offs_ok_def
  proof (intro allI impI)
    fix h :: int assume "0 \<le> h" "h < 4096"
    moreover from this have "0 \<le> hashTable s h" "hashTable s h + 4 \<le> currentOffset s \<or> hashTable s h = 0"
      using assms by (auto simp: stream_ok_def offs_ok_def)
    ultimately show "0 \<le> (if 0 \<le> h \<and> h < 4096 then (if hashTable s h < ?d then 0 else hashTable s h - ?d) else hashTable s h) \<and>
      (if 0 \<le> h \<and> h < 4096 then (if hashTable s h < ?d then 0 else hashTable s h - ?d) else hashTable s h) + 4 \<le> 65536"
      using d uns32_bounds [of "currentOffset s - 65536"] by auto
  qed
  then show "stream_ok (LZ4_renormDictT s src)"
    using assms by (simp add: LZ4_renormDictT_def Let_def) (auto simp: stream_ok_def)
  show "currentOffset (LZ4_renormDictT s src) \<le> 2 ^ 31" "dictSize (LZ4_renormDictT s src) \<le> dictSize s"
    "dictionary (LZ4_renormDictT s src) + dictSize (LZ4_renormDictT s src) = dictionary s + dictSize s"
    by (auto simp: LZ4_renormDictT_def Let_def)
qed

lemma LZ4_checkOverlap_ok:
  assumes "stream_ok s" "dictEnd = dictionary s + dictSize s"
  shows "stream_ok (LZ4_checkOverlap s dictEnd source n)" "currentOffset (LZ4_checkOverlap s dictEnd source n) = currentOffset s"
    "dictionary (LZ4_checkOverlap s dictEnd source n) + dictSize (LZ4_checkOverlap s dictEnd source n) = dictEnd"
    "hashTable (LZ4_checkOverlap s dictEnd source n) = hashTable s"
proof -
  have "uns32 (dictEnd - (source + n)) = dictEnd - (source + n)" if "dictionary s < source + n" "source + n < dictEnd"
    using that assms by (auto simp: stream_ok_def)
  then show "stream_ok (LZ4_checkOverlap s dictEnd source n)"
    using assms by (auto simp: LZ4_checkOverlap_def Let_def stream_ok_def)
  show "currentOffset (LZ4_checkOverlap s dictEnd source n) = currentOffset s"
    "dictionary (LZ4_checkOverlap s dictEnd source n) + dictSize (LZ4_checkOverlap s dictEnd source n) = dictEnd"
    "hashTable (LZ4_checkOverlap s dictEnd source n) = hashTable s"
    using assms(2) by (auto simp: LZ4_checkOverlap_def Let_def)
qed

section \<open>One block of a stream\<close>

text \<open>The stream as \<open>LZ4_compress_fast_continue\<close> sees it when it has renormalised the table and given up the part of
  the dictionary that the input overwrites.\<close>

definition stream_window :: "LZ4_stream_t_internal \<Rightarrow> addr \<Rightarrow> int \<Rightarrow> LZ4_stream_t_internal" where
  "stream_window s source n =
     (let dictEnd = dictionary s + dictSize s;
          smallest = (if dictSize s > 0 \<and> source > dictEnd then dictEnd else source)
      in LZ4_checkOverlap (LZ4_renormDictT s smallest) dictEnd source n)"

lemma stream_window_ok:
  assumes "stream_ok s"
  shows "stream_ok (stream_window s source n)" "currentOffset (stream_window s source n) \<le> 2 ^ 31"
    "dictionary (stream_window s source n) + dictSize (stream_window s source n) = dictionary s + dictSize s"
  using LZ4_renormDictT_ok [OF assms] LZ4_checkOverlap_ok [OF LZ4_renormDictT_ok(1) [OF assms] LZ4_renormDictT_ok(3) [OF assms, symmetric]]
  by (simp_all add: stream_window_def Let_def)

text \<open>A stream and a memory represent the history that the next block may refer to.\<close>

definition window_repr :: "LZ4_stream_t_internal \<Rightarrow> mem \<Rightarrow> byte list \<Rightarrow> bool" where
  "window_repr s m hist \<longleftrightarrow> dictSize s = int (length hist) \<and> bytes_at m (dictionary s) hist"

text \<open>The conditions of a call of \<open>LZ4_compress_fast_continue\<close>. Two of them exclude cases in which the code goes wrong: the stream has
  at least four bytes with the new block (after a first block of one to three bytes the empty entries of the table lead the code to
  compare bytes past the end of the dictionary), and the acceleration times 64 does not wrap. Blocks have at most 65546 bytes, so that a
  limited output is respected.\<close>

definition continue_call :: "mem \<Rightarrow> LZ4_stream_t_internal \<Rightarrow> addr \<Rightarrow> byte list \<Rightarrow> byte list \<Rightarrow> addr \<Rightarrow> int \<Rightarrow> int \<Rightarrow> bool" where
  "continue_call m s source hist src dest cap acceleration \<longleftrightarrow>
     (let w = stream_window s source (int (length src)) in
      stream_ok s \<and> window_repr w m hist \<and> bytes_at m source src \<and> src \<noteq> [] \<and> length src \<le> 65546 \<and>
      4 \<le> currentOffset w + int (length src) \<and>
      (dictionary w + dictSize w \<le> source \<or> source + int (length src) \<le> dictionary w) \<and>
      mapped m dest (dest + cap) \<and> 0 \<le> cap \<and> cap < 2 ^ 31 \<and>
      (source + int (length src) \<le> dest \<or> dest + cap \<le> source) \<and>
      (dictionary w + dictSize w \<le> dest \<or> dest + cap \<le> dictionary w) \<and> acceleration \<le> 2 ^ 25)"

text \<open>\<open>r\<close> bytes at \<open>dest\<close> are an encoded block that stands for \<open>src\<close> after \<open>hist\<close>.\<close>

definition block_written :: "byte list \<Rightarrow> byte list \<Rightarrow> mem \<Rightarrow> addr \<Rightarrow> int \<Rightarrow> int \<Rightarrow> bool" where
  "block_written hist src m dest cap r \<longleftrightarrow>
     (\<exists>blk. valid_block (length hist) blk \<and> expand hist blk = hist @ src \<and> bytes_at m dest (encode blk) \<and>
            r = int (length (encode blk)) \<and> r \<le> cap)"

lemma stream_table:
  assumes w: "stream_ok w" "dictSize w = int (length hist)"
    and c: "c = LZ4_compress_ctx w source dest n mx lim byU32 dict issue acc" and d: "dict = withPrefix64k \<or> dict = usingExtDict"
    and i: "issue = (if dictSize w < 64 * KB \<and> dictSize w < currentOffset w then dictSmall else noDictIssue)"
  shows "tbl_ok c hist (source + 1) (hashTable w)"
proof -
  have cc: "e_source c = source" "e_base c = source - currentOffset w" "e_tableType c = byU32" "e_dict c = dict" "e_dictIssue c = issue"
    using d by (auto simp: c LZ4_compress_ctx_def Let_def)
  have "pos_ok c hist (source + 1) (hashTable w h + e_base c)" if "0 \<le> h" "h < 4096" for h
  proof -
    have "0 \<le> hashTable w h" "hashTable w h + 4 \<le> currentOffset w \<or> hashTable w h = 0 \<and> currentOffset w = 0"
      using w(1) that by (auto simp: stream_ok_def offs_ok_def)
    then show ?thesis using w(2) by (auto simp: pos_ok_def cc i split: if_splits)
  qed
  then show ?thesis by (simp add: tbl_ok_def table_size_def pos_of_def cc)
qed

lemma stream_table_after:
  assumes "tbl_ok c hist lim tbl" "e_tableType c = byU32" "e_base c = source - co" "lim + 3 \<le> source + n"
  shows "offs_ok (co + n) tbl"
  unfolding offs_ok_def
proof (intro allI impI)
  fix h :: int assume "0 \<le> h" "h < 4096"
  then have "pos_ok c hist lim (tbl h + e_base c)" using assms(1,2) by (simp add: tbl_ok_def pos_of_def table_size_def)
  then show "0 \<le> tbl h \<and> tbl h + 4 \<le> co + n" using assms(2-) by (simp add: pos_ok_def)
qed

lemma continue_generic:
  assumes K: "continue_call m s source hist src dest cap acc" and w: "w = stream_window s source (int (length src))"
    and d: "dict = (if dictionary s + dictSize s = source then withPrefix64k else usingExtDict)" and acc: "1 \<le> acc"
    and i: "issue = (if dictSize w < 64 * KB \<and> dictSize w < currentOffset w then dictSmall else noDictIssue)"
  shows "ok (\<lambda>(r, m', w'). frame m m' dest (dest + cap) \<and>
            (r = 0 \<and> cap < LZ4_compressBound (int (length src)) \<or> block_written hist src m' dest cap r) \<and>
            (\<exists>tbl. w' = w\<lparr>hashTable := tbl\<rparr> \<and> offs_ok (currentOffset w + int (length src)) tbl))
         (LZ4_compress_generic a m w source dest (int (length src)) cap limitedOutput byU32 dict issue acc)"
proof -
  let ?n = "int (length src)"
  define c where "c = LZ4_compress_ctx w source dest ?n cap limitedOutput byU32 dict issue acc"
  have S: "stream_ok s" using K by (simp add: continue_call_def Let_def)
  have W: "stream_ok w" "currentOffset w \<le> 2 ^ 31" "dictionary w + dictSize w = dictionary s + dictSize s"
    using stream_window_ok [OF S] by (simp_all add: w)
  have k: "window_repr w m hist" "bytes_at m source src" "src \<noteq> []" "length src \<le> 65546" "4 \<le> currentOffset w + ?n"
      "dictionary w + dictSize w \<le> source \<or> source + ?n \<le> dictionary w"
      "mapped m dest (dest + cap)" "0 \<le> cap" "cap < 2 ^ 31" "source + ?n \<le> dest \<or> dest + cap \<le> source"
      "dictionary w + dictSize w \<le> dest \<or> dest + cap \<le> dictionary w" "acc \<le> 2 ^ 25"
    using K unfolding continue_call_def Let_def w [symmetric] by simp_all
  have o: "0 \<le> currentOffset w" using W(1) by (simp add: stream_ok_def)
  have cc: "e_source c = source" "e_dest c = dest" "e_iend c = source + ?n" "e_mflimit c = source + ?n - 12" "e_matchlimit c = source + ?n - 5"
    "e_base c = source - currentOffset w" "e_tableType c = byU32" "e_dict c = dict" "e_lowRefLimit c = source - dictSize w"
    "e_dictionary c = dictionary w" "e_dictEnd c = dictionary w + dictSize w" "e_dictDelta c = dictionary w + dictSize w - source"
    "e_acceleration c = acc" "e_lowLimit c = (if dict = withPrefix64k then source - dictSize w else source)"
    using d by (auto simp: c_def LZ4_compress_ctx_def Let_def)
  have h: "dictSize w = int (length hist)" "bytes_at m (dictionary w) hist" using k(1) by (auto simp: window_repr_def)
  have "hist_mem c m hist \<and> hist_apart c hist (dest + cap)"
  proof (cases "dictionary s + dictSize s = source")
    case True
    then have "dictionary w = source - int (length hist)" using W(3) h by simp
    with True d h k(11) show ?thesis by (simp add: hist_mem_def hist_apart_def cc)
  next
    case False
    have "dictionary w \<noteq> source" using False W(3) h k(3,6) by (cases hist) auto
    with False d h k(11) show ?thesis by (simp add: hist_mem_def hist_apart_def cc)
  qed
  then have E: "enc_env c hist src (dest + cap) m"
    using k acc o W(2) h(1) unfolding enc_env_def cc by simp
  have O: "enc_out c src (dest + cap)"
    using k by (simp add: enc_out_def c_def LZ4_compress_ctx_def Let_def)
  have T: "tbl_ok c hist (source + 1) (hashTable w)"
    by (rule stream_table [OF W(1) _ c_def _ i]) (use k d in \<open>auto simp: window_repr_def\<close>)
  from LZ4_compress_generic_ok [OF c_def E O T, of a] show ?thesis
  proof (rule ok_mono, clarify)
    fix r m' w' tbl
    assume C: "comp_done c hist src (dest + cap) m r m'" and t: "tbl = hashTable w \<or> tbl_ok c hist (e_iend c - 8) tbl"
    have "offs_ok (currentOffset w + ?n) tbl"
      using t
    proof
      assume "tbl = hashTable w"
      then show ?thesis using W(1) k(5) o by (auto simp: stream_ok_def offs_ok_def)
    next
      assume "tbl_ok c hist (e_iend c - 8) tbl"
      then show ?thesis
        by (rule stream_table_after [where source = source]) (simp_all add: cc)
    qed
    moreover have "frame m m' dest (dest + cap)" "r = 0 \<and> cap < LZ4_compressBound (int (length src)) \<or> block_written hist src m' dest cap r"
      using C k(4) by (auto simp: comp_done_def too_small_def cc block_written_def compressBound_eq zdiv_int)
    ultimately show "frame m m' dest (dest + cap) \<and>
            (r = 0 \<and> cap < LZ4_compressBound (int (length src)) \<or> block_written hist src m' dest cap r) \<and>
            (\<exists>tbl'. w\<lparr>hashTable := tbl\<rparr> = w\<lparr>hashTable := tbl'\<rparr> \<and> offs_ok (currentOffset w + int (length src)) tbl')" by blast
  qed
qed

lemma window_simps:
  "LZ4_compress_fast_continue a m s source dest n cap acceleration =
     (if initCheck s \<noteq> 0 then Some (0, m, s)
      else let w = stream_window s source n; acceleration = (if acceleration < 1 then 1 else acceleration);
               issue = (if dictSize w < 64 * KB \<and> dictSize w < currentOffset w then dictSmall else noDictIssue) in
       if dictionary s + dictSize s = source
       then do { (r, m, s) \<leftarrow> LZ4_compress_generic a m w source dest n cap limitedOutput byU32 withPrefix64k issue acceleration;
                 Some (r, m, s\<lparr>dictSize := uns32 (dictSize s + n), currentOffset := uns32 (currentOffset s + n)\<rparr>) }
       else do { (r, m, s) \<leftarrow> LZ4_compress_generic a m w source dest n cap limitedOutput byU32 usingExtDict issue acceleration;
                 Some (r, m, s\<lparr>dictionary := source, dictSize := uns32 n, currentOffset := uns32 (currentOffset s + n)\<rparr>) })"
  unfolding LZ4_compress_fast_continue_def stream_window_def Let_def by simp

lemma LZ4_compress_fast_continue_ok:
  assumes K: "continue_call m s source hist src dest cap acceleration"
  shows "ok (\<lambda>(r, m', s'). frame m m' dest (dest + cap) \<and> stream_ok s' \<and>
              (r = 0 \<and> cap < LZ4_compressBound (int (length src)) \<or> block_written hist src m' dest cap r) \<and>
              window_repr s' m' (if dictionary s + dictSize s = source then hist @ src else src) \<and>
              dictionary s' + dictSize s' = source + int (length src))
           (LZ4_compress_fast_continue a m s source dest (int (length src)) cap acceleration)"
proof -
  let ?n = "int (length src)"
  let ?acc = "if acceleration < 1 then 1 else acceleration"
  define w where "w = stream_window s source ?n"
  define issue where "issue = (if dictSize w < 64 * KB \<and> dictSize w < currentOffset w then dictSmall else noDictIssue)"
  let ?p = "dictionary s + dictSize s = source"
  let ?dict = "if ?p then withPrefix64k else usingExtDict"
  have k: "stream_ok s" "window_repr w m hist" "bytes_at m source src" "length src \<le> 65546"
      "source + ?n \<le> dest \<or> dest + cap \<le> source" "dictionary w + dictSize w \<le> dest \<or> dest + cap \<le> dictionary w"
    using K unfolding continue_call_def Let_def w_def by simp_all
  have W: "stream_ok w" "currentOffset w \<le> 2 ^ 31" "dictionary w + dictSize w = dictionary s + dictSize s"
    using stream_window_ok [OF k(1)] by (simp_all add: w_def)
  have o: "0 \<le> currentOffset w" "initCheck w = 0" "0 \<le> dictSize w" "dictSize w \<le> currentOffset w" using W(1) by (simp_all add: stream_ok_def)
  have u: "uns32 ?n = ?n" "uns32 (currentOffset w + ?n) = currentOffset w + ?n" "uns32 (dictSize w + ?n) = dictSize w + ?n"
    using k(4) o W(2) by simp_all
  have K': "continue_call m s source hist src dest cap ?acc" using K by (simp add: continue_call_def Let_def)
  have "ok (\<lambda>(r, m', w'). frame m m' dest (dest + cap) \<and>
            (r = 0 \<and> cap < LZ4_compressBound (int (length src)) \<or> block_written hist src m' dest cap r) \<and>
            (\<exists>tbl. w' = w\<lparr>hashTable := tbl\<rparr> \<and> offs_ok (currentOffset w + ?n) tbl))
         (LZ4_compress_generic a m w source dest ?n cap limitedOutput byU32 ?dict issue ?acc)"
    by (rule continue_generic [OF K' w_def refl _ issue_def]) simp
  then obtain r m' tbl where
    g: "LZ4_compress_generic a m w source dest ?n cap limitedOutput byU32 ?dict issue ?acc = Some (r, m', w\<lparr>hashTable := tbl\<rparr>)"
    and f: "frame m m' dest (dest + cap)"
    and r: "r = 0 \<and> cap < LZ4_compressBound (int (length src)) \<or> block_written hist src m' dest cap r"
    and t: "offs_ok (currentOffset w + ?n) tbl" by (auto dest!: okD)
  have h: "dictSize w = int (length hist)" "bytes_at m' (dictionary w) hist" "bytes_at m' source src"
    using k(2,3,5,6) by (auto simp: window_repr_def frame_bytes_at [OF f])
  let ?s = "if ?p then w\<lparr>hashTable := tbl, dictSize := dictSize w + ?n, currentOffset := currentOffset w + ?n\<rparr>
            else w\<lparr>hashTable := tbl, dictionary := source, dictSize := ?n, currentOffset := currentOffset w + ?n\<rparr>"
  have i0: "initCheck s = 0" using k(1) by (simp add: stream_ok_def)
  have res: "LZ4_compress_fast_continue a m s source dest ?n cap acceleration = Some (r, m', ?s)"
    unfolding window_simps Let_def w_def [symmetric] issue_def [symmetric] using g u i0 by (cases ?p) simp_all
  have "stream_ok ?s" using t o W(2) k(4) by (auto simp: stream_ok_def)
  moreover have "window_repr ?s m' (if ?p then hist @ src else src) \<and> dictionary ?s + dictSize ?s = source + ?n"
  proof (cases ?p)
    case True
    then have "dictionary w + int (length hist) = source" using W(3) h(1) by simp
    with True h show ?thesis by (simp add: window_repr_def bytes_at_append)
  qed (use h in \<open>simp add: window_repr_def\<close>)
  ultimately show ?thesis using res f r by simp
qed

section \<open>Properties\<close>

text \<open>C30: \<open>LZ4_compress_fast_continue\<close> keeps the stream's invariant and its history: it returns 0, only when the capacity is below
  \<open>LZ4_compressBound\<close>, or writes an encoded block that stands for the input after the bytes the stream represents, in prefix and in
  external-dictionary mode; the new state represents the input (after that history, when it follows it in memory). Covered are blocks of 1 to
  65546 bytes, accelerations of at most 2^25 and a stream that has at least four bytes with this block: after a first block of
  one to three bytes the code can write a wrong block (\<open>LZ4_compress_fast_continue_short_block\<close>).\<close>

theorem LZ4_compress_fast_continue_correct:
  assumes "continue_call m s source hist src dest cap acceleration"
  shows "ok (\<lambda>(r, m', s'). frame m m' dest (dest + cap) \<and> stream_ok s' \<and>
              (r = 0 \<and> cap < LZ4_compressBound (int (length src)) \<or> block_written hist src m' dest cap r) \<and>
              window_repr s' m' (if dictionary s + dictSize s = source then hist @ src else src) \<and>
              dictionary s' + dictSize s' = source + int (length src))
           (LZ4_compress_fast_continue a m s source dest (int (length src)) cap acceleration)"
  by (rule LZ4_compress_fast_continue_ok [OF assms])


text \<open>Every operation on the dictionary keeps the stream's invariant: \<open>LZ4_loadDict\<close> with any dictionary ends with the
  last 64 KB of it as the history (nothing, for one too small to be hashed).\<close>

lemma LZ4_loadDict_correct:
  assumes s: "stream_ok s" and d: "bytes_at m dictStart dd" "int (length dd) < 2 ^ 31"
  shows "ok (\<lambda>(r, s'). stream_ok s' \<and> r = int (min (length dd) 65536) \<and> window_repr s' m (drop (length dd - 65536) dd) \<or>
                       int (length dd) < STEPSIZE a \<and> stream_ok s' \<and> r = 0 \<and> window_repr s' m [])
           (LZ4_loadDict a m s dictStart (int (length dd)))"
proof -
  let ?n = "int (length dd)"
  have "ok (\<lambda>(r, s'). stream_ok s' \<and> r = dictSize s' \<and> r = (if ?n < STEPSIZE a then 0 else min ?n (64 * KB)) \<and>
              (0 < r \<longrightarrow> dictionary s' + r = dictStart + ?n)) (LZ4_loadDict a m s dictStart ?n)"
    by (rule LZ4_loadDict_ok [OF s bytes_at_mapped [OF d(1)] d(2)])
  then obtain s' where c: "LZ4_loadDict a m s dictStart ?n = Some (dictSize s', s')"
    and st: "stream_ok s'" and z: "dictSize s' = (if ?n < STEPSIZE a then 0 else min ?n (64 * KB))"
    and p: "0 < dictSize s' \<longrightarrow> dictionary s' + dictSize s' = dictStart + ?n" by (auto dest!: okD)
  show ?thesis
  proof (cases "?n < STEPSIZE a")
    case True
    with c st z show ?thesis by (simp add: window_repr_def)
  next
    case big: False
    then have l: "0 < length dd" by (auto simp: STEPSIZE_def split: if_splits)
    have r: "dictSize s' = int (min (length dd) 65536)" using z big by auto
    have dp: "dictionary s' = dictStart + int (length dd - 65536)" using p r l by (auto simp: min_def split: if_splits)
    have "bytes_at m (dictionary s') (drop (length dd - 65536) dd)"
      unfolding dp using bytes_at_split(2) [OF d(1), of "length dd - 65536"] by simp
    with c st r show ?thesis by (auto simp: window_repr_def)
  qed
qed

text \<open>C40: \<open>LZ4_saveDict\<close> moves the last bytes of the history to the given buffer, overlapping or not, and the stream goes on
  from there.\<close>

theorem LZ4_saveDict_correct:
  assumes s: "stream_ok s" and h: "window_repr s m hist" and n: "0 \<le> n" "n < 2 ^ 31" and b: "mapped m safeBuffer (safeBuffer + n)"
  shows "ok (\<lambda>(r, m', s'). r = min (min n 65536) (int (length hist)) \<and> frame m m' safeBuffer (safeBuffer + r) \<and> stream_ok s' \<and>
              dictionary s' = safeBuffer \<and> window_repr s' m' (drop (length hist - nat r) hist))
           (LZ4_saveDict m s safeBuffer n)"
proof -
  define r where "r = min (min n 65536) (int (length hist))"
  let ?k = "length hist - nat r"
  have h': "dictSize s = int (length hist)" "bytes_at m (dictionary s) hist" using h by (auto simp: window_repr_def)
  have r: "0 \<le> r" "r \<le> n" "r \<le> int (length hist)" using n by (auto simp: r_def)
  then have p: "dictionary s + dictSize s - r = dictionary s + int ?k" using h'(1) by auto
  have src: "bytes_at m (dictionary s + int ?k) (drop ?k hist)" using bytes_at_split(2) [OF h'(2), of ?k] by simp
  have len: "length (drop ?k hist) = nat r" using r by auto
  have "mapped m safeBuffer (safeBuffer + int (length (drop ?k hist)))"
    by (rule mapped_mono [OF b]) (use r len in auto)
  from okD [OF store_bytes_ok [OF this]] obtain m' where
    m': "store_bytes m safeBuffer (drop ?k hist) = Some m'" "frame m m' safeBuffer (safeBuffer + r)" "bytes_at m' safeBuffer (drop ?k hist)"
    unfolding len using r(1) by auto
  have cp: "memcpy m safeBuffer (dictionary s + dictSize s - r) (nat r) = Some m'"
    using load_bytes_eq [OF src] m'(1) len unfolding memcpy_def p by simp
  have "(let k = (if uns32 n > 64 * KB then 64 * KB else n) in if uns32 k > dictSize s then int32 (dictSize s) else k) = r"
    using n h'(1) by (auto simp: r_def Let_def)
  then have e: "LZ4_saveDict m s safeBuffer n = Some (r, m', s\<lparr>dictionary := safeBuffer, dictSize := r\<rparr>)"
    using cp r n unfolding LZ4_saveDict_def Let_def by simp
  have "stream_ok (s\<lparr>dictionary := safeBuffer, dictSize := r\<rparr>)" using s r h'(1) by (simp add: stream_ok_def)
  then show ?thesis unfolding e r_def [symmetric] using m' r len by (simp add: window_repr_def)
qed


section \<open>Instances\<close>

definition stream_mem :: mem where
  "stream_mem = buffer 65536 [7, 7, 7, 7, 7] ++ buffer 70000 (replicate 64 0)"

definition dec_fresh :: LZ4_streamDecode_t_internal where
  "dec_fresh = \<lparr>externalDict = 0, extDictSize = 0, prefixEnd = 0, prefixSize = 0\<rparr>"

definition loaded_stream :: LZ4_stream_t_internal where
  "loaded_stream = fresh_stream\<lparr>dictionary := 65536, dictSize := 5, currentOffset := 5\<rparr>"

lemma stream_mem_at: "bytes_at stream_mem 65536 [7, 7, 7, 7, 7]" "mapped stream_mem 70000 70021" "mapped stream_mem 70032 70037"
proof -
  have m: "mapped stream_mem 70000 70064"
    using mapped_two [of 65536 "[7, 7, 7, 7, 7]" 70000 "replicate 64 0"] by (simp add: stream_mem_def)
  show "bytes_at stream_mem 65536 [7, 7, 7, 7, 7]"
    using bytes_at_two [of 65536 "[7, 7, 7, 7, 7]" 70000 "replicate 64 0"] by (simp add: stream_mem_def)
  show "mapped stream_mem 70000 70021" "mapped stream_mem 70032 70037" by (rule mapped_mono [OF m]; simp)+
qed

lemma stream_ok_fresh: "stream_ok fresh_stream" "stream_ok loaded_stream"
  by (simp_all add: stream_ok_def fresh_stream_def loaded_stream_def offs_ok_def)

lemma fresh_continue: "continue_call stream_mem fresh_stream 65536 [] [7, 7, 7, 7, 7] 70000 21 1"
  using stream_mem_at stream_ok_fresh
  by (simp add: continue_call_def Let_def stream_window_def LZ4_checkOverlap_def LZ4_renormDictT_def fresh_stream_def window_repr_def)

abbreviation (input) be32 :: arch where "be32 \<equiv> \<lparr>little_endian = False, bits64 = False, sw_bitcount = True\<rparr>"

theorem LZ4_compress_fast_continue_correct_witness:
  "ok (\<lambda>(r, m', s'). stream_ok s' \<and> block_written [] [7, 7, 7, 7, 7] m' 70000 21 r \<and> window_repr s' m' [7, 7, 7, 7, 7])
     (LZ4_compress_fast_continue x64 stream_mem fresh_stream 65536 70000 5 21 1)"
proof -
  have "LZ4_compressBound (int (length [7, 7, 7, 7, 7 :: byte])) = 21" by (simp add: LZ4_compressBound_def)
  with LZ4_compress_fast_continue_correct [OF fresh_continue, of x64] show ?thesis
    by (simp add: fresh_stream_def) (erule ok_mono, clarify)
qed


lemma LZ4_loadDict_correct_witness:
  "ok (\<lambda>(r, s'). stream_ok s' \<and> r = 5 \<and> window_repr s' stream_mem [7, 7, 7, 7, 7]) (LZ4_loadDict be32 stream_mem fresh_stream 65536 5)"
  using LZ4_loadDict_correct [OF stream_ok_fresh(1) stream_mem_at(1), of be32] by (simp add: STEPSIZE_def LZ4_64bits_def)

theorem LZ4_saveDict_correct_witness:
  "ok (\<lambda>(r, m', s'). r = 3 \<and> stream_ok s' \<and> dictionary s' = 70000 \<and> window_repr s' m' [7, 7, 7])
     (LZ4_saveDict stream_mem loaded_stream 70000 3)"
proof -
  have "window_repr loaded_stream stream_mem [7, 7, 7, 7, 7]"
    using stream_mem_at(1) by (simp add: window_repr_def loaded_stream_def)
  moreover have "mapped stream_mem 70000 (70000 + 3)" by (rule mapped_mono [OF stream_mem_at(2)]) auto
  ultimately show ?thesis
    using LZ4_saveDict_correct [OF stream_ok_fresh(2), of stream_mem "[7, 7, 7, 7, 7]" 3 70000] by (auto elim!: ok_mono)
qed

section \<open>Where streaming compression departs from its contract\<close>

text \<open>A first block of three bytes, 1, 2 and 3 at address 70000, followed in memory by a 9 that is not part of it; a
  second block at 71000.\<close>

definition short_mem :: mem where
  "short_mem = buffer 70000 [1, 2, 3, 9] ++ buffer 71000 [5, 1, 2, 3, 9, 6, 7, 8, 10, 11, 12, 13, 14, 15, 16, 17, 18, 19] ++
     buffer 80000 (replicate 100 0)"

text \<open>After a first block of one to three bytes the empty entries of the hash table point into the dictionary closer
  than four bytes to its end: the comparison of four bytes reads past the dictionary, a match is found that the
  decoder does not see, and the second block is decoded to other bytes.\<close>

lemma LZ4_compress_fast_continue_short_block:
  "do { (r1, m, s) \<leftarrow> LZ4_compress_fast_continue x64 short_mem fresh_stream 70000 80000 3 20 1;
        (r2, m, s) \<leftarrow> LZ4_compress_fast_continue x64 m s 71000 80020 18 40 1;
        (k1, m, sd) \<leftarrow> LZ4_decompress_safe_continue x64 m dec_fresh 80000 80070 r1 3;
        (k2, m, sd) \<leftarrow> LZ4_decompress_safe_continue x64 m sd 80020 80073 r2 18;
        bs \<leftarrow> load_bytes m 80070 21;
        Some (r1, k1, k2, bs) } =
   Some (4, 3, 18, [1, 2, 3, 5, 1, 2, 3, 5, 6, 7, 8, 10, 11, 12, 13, 14, 15, 16, 17, 18, 19])"
  by code_simp

end
