(* ===== verification/Lz4_DestSize.thy ===== *)
theory Lz4_DestSize
  imports Lz4_Compress_Api
begin

text \<open>
  The variant of \<^verbatim>\<open>src/src/lz4/lib/lz4.c\<close> that fills a buffer of a given size with as much of the
  input as fits, and its correctness: the block it writes stands for the prefix of the input that
  it reports, keeps the parsing restrictions at the end of a block, and never exceeds the buffer.
\<close>

section \<open>Definitions\<close>

text \<open>The limits on the write position.\<close>

record dest_limits =
  l_oend :: addr
  l_oMaxLit :: addr
  l_oMaxMatch :: addr
  l_oMaxSeq :: addr

definition LZ4_dest_limits :: "addr \<Rightarrow> int \<Rightarrow> dest_limits" where
  "LZ4_dest_limits op targetDstSize =
     \<lparr>l_oend = op + targetDstSize, l_oMaxLit = op + targetDstSize - 2 - 8 - 1,
      l_oMaxMatch = op + targetDstSize - (LASTLITERALS + 1), l_oMaxSeq = op + targetDstSize - 2 - 8 - 1 - 1\<rparr>"

text \<open>The search for a match and the catching up are those of \<open>LZ4_compress_generic\<close> without a dictionary and with
  acceleration 1. \<open>None\<close> inside the result of the literals is the jump to \<^verbatim>\<open>_last_literals\<close> with the
  token not written.\<close>

definition LZ4_destSize_literals ::
  "dest_limits \<Rightarrow> mem \<Rightarrow> addr \<Rightarrow> addr \<Rightarrow> addr \<Rightarrow> (mem \<times> addr option) option" where
  "LZ4_destSize_literals l m anchor ip tok =
     (let litLength = uns32 (ip - anchor); op = tok + 1 in
      if op + (uns32 (litLength + 240) div 255) + litLength > l_oMaxLit l then Some (m, None)
      else
      do { (m, op) \<leftarrow>
             (if litLength \<ge> RUN_MASK
              then do { m \<leftarrow> store8 m tok (word_of_int (RUN_MASK * 16)); write_length m op (litLength - RUN_MASK) }
              else do { m \<leftarrow> store8 m tok (word_of_int (litLength * 16)); Some (m, op) });
           m \<leftarrow> LZ4_wildCopy m op anchor (op + litLength);
           Some (m, Some (op + litLength)) })"

definition LZ4_destSize_match ::
  "arch \<Rightarrow> enc_ctx \<Rightarrow> dest_limits \<Rightarrow> mem \<Rightarrow> addr \<Rightarrow> addr \<Rightarrow> addr \<Rightarrow> addr \<Rightarrow> (mem \<times> addr \<times> addr) option" where
  "LZ4_destSize_match a c l m ip mtch tok op =
     do { m \<leftarrow> LZ4_writeLE16 a m op (word_of_int (ip - mtch));
          let op = op + 2;
          matchLength \<leftarrow> LZ4_count a m (ip + MINMATCH) (mtch + MINMATCH) (e_matchlimit c);
          let matchLength = (if op + (matchLength + 240) div 255 > l_oMaxMatch l
                             then (15 - 1) + (l_oMaxMatch l - op) * 255 else matchLength);
          let ip = ip + (MINMATCH + matchLength);
          t \<leftarrow> m tok;
          if matchLength \<ge> ML_MASK
          then do { m \<leftarrow> store8 m tok (t + 15);
                    (m, op) \<leftarrow> write_length m op (matchLength - ML_MASK);
                    Some (m, op, ip) }
          else do { m \<leftarrow> store8 m tok (t + word_of_int matchLength); Some (m, op, ip) } }"

partial_function (option) LZ4_destSize_next ::
  "arch \<Rightarrow> enc_ctx \<Rightarrow> dest_limits \<Rightarrow> mem \<Rightarrow> htable \<Rightarrow> addr \<Rightarrow> addr \<Rightarrow> addr \<Rightarrow> addr \<Rightarrow> enc_outcome option" where
  "LZ4_destSize_next a c l m tbl ip mtch tok op =
     do { (m, op, ip) \<leftarrow> LZ4_destSize_match a c l m ip mtch tok op;
          if ip > e_mflimit c then Some (LastLiterals m tbl ip op)
          else if op > l_oMaxSeq l then Some (LastLiterals m tbl ip op)
          else
          do { tbl \<leftarrow> LZ4_putPosition a m (ip - 2) tbl (e_tableType c) (e_base c);
               mtch \<leftarrow> LZ4_getPosition a m ip tbl (e_tableType c) (e_base c);
               tbl \<leftarrow> LZ4_putPosition a m ip tbl (e_tableType c) (e_base c);
               again \<leftarrow>
                 (if mtch + MAX_DISTANCE \<ge> ip
                  then do { x \<leftarrow> LZ4_read32 a m mtch; y \<leftarrow> LZ4_read32 a m ip; Some (x = y) }
                  else Some False);
               if again
               then do { m \<leftarrow> store8 m op 0; LZ4_destSize_next a c l m tbl ip mtch op (op + 1) }
               else do { forwardH \<leftarrow> LZ4_hashPosition a m (ip + 1) (e_tableType c);
                         Some (Continue m tbl (ip + 1) op forwardH) } } }"

definition LZ4_destSize_step ::
  "arch \<Rightarrow> enc_ctx \<Rightarrow> dest_limits \<Rightarrow> mem \<Rightarrow> htable \<Rightarrow> addr \<Rightarrow> addr \<Rightarrow> addr \<Rightarrow> int \<Rightarrow> enc_outcome option" where
  "LZ4_destSize_step a c l m tbl anchor ip op forwardH =
     do { r \<leftarrow> LZ4_find_match a c m tbl ip 1 64 forwardH;
          case r of
            NotFound tbl \<Rightarrow> Some (LastLiterals m tbl anchor op)
          | Found ip mtch _ _ tbl _ \<Rightarrow>
              do { (ip, mtch) \<leftarrow> LZ4_catch_up m anchor 0 (e_lowLimit c) ip mtch;
                   (m, r) \<leftarrow> LZ4_destSize_literals l m anchor ip op;
                   case r of
                     None \<Rightarrow> Some (LastLiterals m tbl anchor op)
                   | Some op' \<Rightarrow> LZ4_destSize_next a c l m tbl ip mtch op op' } }"

text \<open>The last literals; the result is the size of the output, the memory and the position reached in the input.\<close>

definition LZ4_destSize_last ::
  "enc_ctx \<Rightarrow> dest_limits \<Rightarrow> mem \<Rightarrow> addr \<Rightarrow> addr \<Rightarrow> (int \<times> mem \<times> addr) option" where
  "LZ4_destSize_last c l m anchor op =
     (let lastRunSize = e_iend c - anchor;
          lastRunSize = (if op + 1 + (lastRunSize + 240) div 255 + lastRunSize > l_oend l
                         then (let n = (l_oend l - op) - 1 in n - (n + 240) div 255) else lastRunSize);
          ip = anchor + lastRunSize
      in
      do { (m, op) \<leftarrow>
             (if lastRunSize \<ge> RUN_MASK
              then do { m \<leftarrow> store8 m op (word_of_int (RUN_MASK * 16));
                        write_length m (op + 1) (lastRunSize - RUN_MASK) }
              else do { m \<leftarrow> store8 m op (word_of_int (lastRunSize * 16)); Some (m, op + 1) });
           m \<leftarrow> memcpy m op anchor (nat lastRunSize);
           Some (int32 (op + lastRunSize - e_dest c), m, ip) })"

partial_function (option) LZ4_destSize_loop ::
  "arch \<Rightarrow> enc_ctx \<Rightarrow> dest_limits \<Rightarrow> mem \<Rightarrow> htable \<Rightarrow> addr \<Rightarrow> addr \<Rightarrow> addr \<Rightarrow> int \<Rightarrow> (int \<times> mem \<times> addr \<times> htable) option" where
  "LZ4_destSize_loop a c l m tbl anchor ip op forwardH =
     do { r \<leftarrow> LZ4_destSize_step a c l m tbl anchor ip op forwardH;
          case r of
            Return0 m tbl \<Rightarrow> None
          | LastLiterals m tbl anchor op \<Rightarrow>
              do { (r, m, ip) \<leftarrow> LZ4_destSize_last c l m anchor op; Some (r, m, ip, tbl) }
          | Continue m tbl ip op forwardH \<Rightarrow> LZ4_destSize_loop a c l m tbl (ip - 1) ip op forwardH }"

declare LZ4_destSize_next.simps [code] LZ4_destSize_loop.simps [code]

text \<open>The result is the return value, the memory, the value left in \<open>*srcSizePtr\<close> and the state.\<close>

definition LZ4_compress_destSize_generic ::
  "arch \<Rightarrow> mem \<Rightarrow> LZ4_stream_t_internal \<Rightarrow> addr \<Rightarrow> addr \<Rightarrow> int \<Rightarrow> int \<Rightarrow> tableType_t \<Rightarrow>
   (int \<times> mem \<times> int \<times> LZ4_stream_t_internal) option" where
  "LZ4_compress_destSize_generic a m ctx src dst srcSize targetDstSize tableType =
     (let c = LZ4_compress_ctx ctx src dst srcSize targetDstSize notLimited tableType noDict noDictIssue 1;
          l = LZ4_dest_limits dst targetDstSize
      in
      if targetDstSize < 1 then Some (0, m, srcSize, ctx)
      else if uns32 srcSize > LZ4_MAX_INPUT_SIZE then Some (0, m, srcSize, ctx)
      else if tableType = byU16 \<and> srcSize \<ge> LZ4_64Klimit then Some (0, m, srcSize, ctx)
      else if srcSize < LZ4_minLength
      then do { (r, m, ip) \<leftarrow> LZ4_destSize_last c l m src dst; Some (r, m, int32 (ip - src), ctx) }
      else
      do { tbl \<leftarrow> LZ4_putPosition a m src (hashTable ctx) tableType (e_base c);
           forwardH \<leftarrow> LZ4_hashPosition a m (src + 1) tableType;
           (r, m, ip, tbl) \<leftarrow> LZ4_destSize_loop a c l m tbl src (src + 1) dst forwardH;
           Some (r, m, int32 (ip - src), ctx\<lparr>hashTable := tbl\<rparr>) })"

definition LZ4_compress_destSize_extState ::
  "arch \<Rightarrow> mem \<Rightarrow> LZ4_stream_t_internal \<Rightarrow> addr \<Rightarrow> addr \<Rightarrow> int \<Rightarrow> int \<Rightarrow>
   (int \<times> mem \<times> int \<times> LZ4_stream_t_internal) option" where
  "LZ4_compress_destSize_extState a m state src dst srcSize targetDstSize =
     (let state = LZ4_resetStream state in
      if targetDstSize \<ge> LZ4_compressBound srcSize
      then do { (r, m, state) \<leftarrow> LZ4_compress_fast_extState a m state src dst srcSize targetDstSize 1;
                Some (r, m, srcSize, state) }
      else if srcSize < LZ4_64Klimit
      then LZ4_compress_destSize_generic a m state src dst srcSize targetDstSize byU16
      else LZ4_compress_destSize_generic a m state src dst srcSize targetDstSize (if LZ4_64bits a then byU32 else byPtr))"

definition LZ4_compress_destSize ::
  "arch \<Rightarrow> mem \<Rightarrow> LZ4_stream_t_internal \<Rightarrow> addr \<Rightarrow> addr \<Rightarrow> int \<Rightarrow> int \<Rightarrow> (int \<times> mem \<times> int) option" where
  "LZ4_compress_destSize a m ctx src dst srcSize targetDstSize =
     do { (r, m, n, _) \<leftarrow> LZ4_compress_destSize_extState a m ctx src dst srcSize targetDstSize; Some (r, m, n) }"

section \<open>Correctness\<close>

definition dest_env :: "enc_ctx \<Rightarrow> dest_limits \<Rightarrow> byte list \<Rightarrow> addr \<Rightarrow> mem \<Rightarrow> bool" where
  "dest_env c l src oend m \<longleftrightarrow>
     enc_env c [] src oend m \<and> e_dict c = noDict \<and> e_dictIssue c = noDictIssue \<and> e_lowLimit c = e_source c \<and> e_acceleration c = 1 \<and>
     l_oend l = oend \<and> l_oMaxLit l = oend - 11 \<and> l_oMaxMatch l = oend - 6 \<and> l_oMaxSeq l = oend - 12 \<and>
     e_dest c < oend \<and> oend - e_dest c < 2 ^ 31"

lemma dest_env_frame: "frame m m' (e_dest c) oend \<Longrightarrow> dest_env c l src oend m \<Longrightarrow> dest_env c l src oend m'"
  unfolding dest_env_def using enc_env_frame by blast

lemma dest_ref: "dest_env c l src oend m \<Longrightarrow> enc_ref c mtch = (0, e_lowLimit c)"
  by (simp add: dest_env_def enc_ref_def)

text \<open>What is left of the buffer when the last literals are written: enough for the parsing restrictions at the end
  of the block.\<close>

definition dest_tail :: "addr \<Rightarrow> seq list \<Rightarrow> addr \<Rightarrow> bool" where
  "dest_tail oend ss op \<longleftrightarrow> ss = [] \<or> op + 9 \<le> oend \<or> op + 6 \<le> oend \<and> 19 \<le> mlen (last ss)"

lemma enc_len_room240: "0 \<le> n \<Longrightarrow> int (length (enc_len (nat n))) \<le> (n + 240) div 255"
proof -
  assume "0 \<le> n"
  moreover have "int (length (enc_len (nat n))) \<le> int ((nat n + 240) div 255)" using enc_len_bound240 [of "nat n"] by (rule zle_int [THEN iffD2])
  ultimately show ?thesis by (simp add: zdiv_int)
qed

lemma LZ4_destSize_literals_ok:
  assumes D: "dest_env c l src oend m" and a: "e_source c \<le> anchor" "anchor \<le> ip" "ip + 12 \<le> e_iend c"
    and tok: "e_dest c \<le> tok"
  shows "ok (\<lambda>(m', r). frame m m' tok oend \<and>
           (case r of None \<Rightarrow> True
            | Some op \<Rightarrow> op = tok + 1 + int (length (enc_len (nat (ip - anchor)))) + (ip - anchor) \<and> op + 11 \<le> oend \<and>
                bytes_at m' tok (token (nat (ip - anchor)) 0 # enc_len (nat (ip - anchor)) @ literals c src anchor ip)))
         (LZ4_destSize_literals l m anchor ip tok)"
proof -
  let ?n = "ip - anchor"
  let ?k = "int (length (enc_len (nat ?n)))"
  have E: "enc_env c [] src oend m" and l: "l_oMaxLit l = oend - 11" using D by (auto simp: dest_env_def)
  have "e_iend c = e_source c + int (length src)" "int (length src) \<le> LZ4_MAX_INPUT_SIZE" using E by (auto simp: enc_env_def)
  then have n: "uns32 ?n = ?n" "uns32 (?n + 240) = ?n + 240" "0 \<le> ?n" using a by auto
  show ?thesis
  proof (cases "tok + 1 + (?n + 240) div 255 + ?n > l_oMaxLit l")
    case True
    then show ?thesis by (simp add: LZ4_destSize_literals_def Let_def n)
  next
    case False
    have r: "tok + 1 + ?k + ?n + 11 \<le> oend" using False enc_len_room240 [OF n(3)] l by linarith
    then have r8: "tok + 1 + ?k + max 8 (?n + 7) \<le> oend" using n by auto
    show ?thesis
      unfolding LZ4_destSize_literals_def Let_def n if_not_P [OF False]
      by (rule ok_mono [OF copy_literals_ok [OF E a tok refl r8]]) (use r in auto)
  qed
qed

text \<open>The match, cut to the room that is left.\<close>

lemma LZ4_destSize_match_ok:
  assumes D: "dest_env c l src oend m" and C: "cand c [] ip mtch"
    and s: "same c [] src ip mtch 4" and ip: "e_source c \<le> ip" "ip + 12 \<le> e_iend c"
    and tok: "e_dest c \<le> tok" and op: "op = tok + 1 + int (length (enc_len (length L))) + int (length L)" "op + 11 \<le> oend"
    and b: "bytes_at m tok (token (length L) 0 # enc_len (length L) @ L)"
  shows "ok (\<lambda>(m', op', ip'). frame m m' tok oend \<and> 4 \<le> ip' - ip \<and> ip' \<le> e_matchlimit c \<and> same c [] src ip mtch (ip' - ip) \<and>
              op' = tok + int (length (enc_seq (Seq L (nat (ip - mtch)) (nat (ip' - ip))))) \<and>
              bytes_at m' tok (enc_seq (Seq L (nat (ip - mtch)) (nat (ip' - ip)))) \<and>
              op' + 6 \<le> oend \<and> (op' + 9 \<le> oend \<or> 19 \<le> ip' - ip) \<and> (op' + 6 < oend \<longrightarrow> extent c [] src ip mtch (ip' - ip)))
           (LZ4_destSize_match a c l m ip mtch tok op)"
proof -
  let ?D = "ip - mtch"
  have E: "enc_env c [] src oend m" and l: "l_oMaxMatch l = oend - 6" and nd: "e_dict c = noDict" using D by (auto simp: dest_env_def)
  have D': "0 \<le> ?D" "?D \<le> 65535" using C by (auto simp: cand_def)
  have mo: "mapped m (e_dest c) oend" using E by (simp add: enc_env_def)
  have "mapped m op (op + 2)" by (rule mapped_mono [OF mo]) (use tok op in auto)
  from write_offset_ok [OF D' this, of a] obtain m1 where
    w: "LZ4_writeLE16 a m op (word_of_int ?D) = Some m1" and f1: "frame m m1 op (op + 2)" and b1: "bytes_at m1 op (enc_off (nat ?D))" by blast
  have f1': "frame m m1 tok oend" by (rule frame_mono [OF f1]) (use op in auto)
  have E1: "enc_env c [] src oend m1" by (rule enc_env_frame [OF frame_mono [OF f1] E]) (use tok op in auto)
  have "(0, e_lowLimit c) = enc_ref c mtch" using dest_ref [OF D] by simp
  from okD [OF LZ4_match_extent_ok [OF E1 C this s ip, of a]] nd obtain ml where
    ml: "LZ4_count a m1 (ip + 4) (mtch + 4) (e_matchlimit c) = Some ml" "extent c [] src ip mtch (ml + 4)" "0 \<le> ml"
    by (fastforce simp: LZ4_match_extent_def bind_eq_Some_conv)
  define n where "n = (if op + 2 + (ml + 240) div 255 > l_oMaxMatch l then (15 - 1) + (l_oMaxMatch l - (op + 2)) * 255 else ml)"
  let ?k = "int (length (enc_len (nat n)))"
  have n: "0 \<le> n" "n \<le> ml" "op + 2 + ?k + 6 \<le> oend" "op + 2 + ?k + 9 \<le> oend \<or> 15 \<le> n" "op + 2 + ?k + 6 < oend \<longrightarrow> n = ml"
  proof -
    have "0 \<le> n \<and> n \<le> ml \<and> op + 2 + ?k + 6 \<le> oend \<and> (op + 2 + ?k + 9 \<le> oend \<or> 15 \<le> n) \<and> (op + 2 + ?k + 6 < oend \<longrightarrow> n = ml)"
    proof (cases "op + 2 + (ml + 240) div 255 > l_oMaxMatch l")
      case False
      then have "n = ml" by (simp add: n_def)
      moreover have "?k = 0" if "n < 15" using that by (simp add: enc_len_small)
      ultimately show ?thesis using False l ml(3) enc_len_room240 [OF ml(3)] op(2) by (cases "n < 15") auto
    next
      case True
      define K where "K = oend - 6 - (op + 2)"
      have K: "3 \<le> K" using op(2) by (simp add: K_def)
      have nK: "n = 14 + K * 255" using True l by (simp add: n_def K_def)
      have "K + 1 \<le> (ml + 240) div 255" using True l by (simp add: K_def)
      then have "n \<le> ml" using nK by linarith
      moreover have "?k = K"
      proof -
        have "nat n - 15 = 254 + 255 * (nat K - 1)" "1 \<le> nat K" using nK K by auto
        then have "length (enc_len (nat n)) = nat K" using nK K by (simp add: length_enc_len nat_le_iff)
        then show ?thesis using K by simp
      qed
      ultimately show ?thesis using nK K by (simp add: K_def)
    qed
    then show "0 \<le> n" "n \<le> ml" "op + 2 + ?k + 6 \<le> oend" "op + 2 + ?k + 9 \<le> oend \<or> 15 \<le> n" "op + 2 + ?k + 6 < oend \<longrightarrow> n = ml"
      by blast+
  qed
  have bt: "bytes_at m1 tok (token (length L) 0 # enc_len (length L) @ L)"
    using b by (subst frame_bytes_at [OF f1]) (auto simp: op)
  then have t: "m1 tok = Some (token (length L) 0)" by (simp add: bytes_at_Cons)
  have "mapped m1 (op + 2) (op + 2 + ?k)" unfolding frame_mapped [OF f1] by (rule mapped_mono [OF mo]) (use tok op n in auto)
  from finish_seq_ok [OF bt b1 op(1) n(1) this] obtain m2 where
    w2: "(if n \<ge> ML_MASK
          then do { m \<leftarrow> store8 m1 tok (token (length L) 0 + 15); write_match_length m (op + 2) (n - ML_MASK) }
          else do { m \<leftarrow> store8 m1 tok (token (length L) 0 + word_of_int n); Some (m, op + 2) }) =
            Some (m2, tok + int (length (enc_seq (Seq L (nat ?D) (nat (n + 4))))))"
    and f2: "frame m1 m2 tok (op + 2 + ?k)" and b2: "bytes_at m2 tok (enc_seq (Seq L (nat ?D) (nat (n + 4))))" by blast
  let ?op = "tok + int (length (enc_seq (Seq L (nat ?D) (nat (n + 4)))))"
  have o: "?op = op + 2 + ?k" using n(1) by (simp add: length_enc_seq op(1) nat_add_distrib)
  have "LZ4_destSize_match a c l m ip mtch tok op = Some (m2, ?op, ip + (4 + n))"
    using w2 n(1) unfolding LZ4_destSize_match_def Let_def w ml(1) bind.bind_lunit n_def [symmetric] t
    by (auto simp: bind_eq_Some_conv write_match_length_eq split: if_splits)
  moreover have "frame m m2 tok oend" by (rule frame_trans [OF f1' frame_mono [OF f2]]) (use n in auto)
  moreover have "same c [] src ip mtch (n + 4)" using ml(2) n(2) by (auto simp: extent_def same_def)
  moreover have "ip + (4 + n) - ip = n + 4" by simp
  ultimately show ?thesis using n ml(2) b2 o by (auto simp: extent_def add.commute)
qed

fun dest_post :: "enc_ctx \<Rightarrow> byte list \<Rightarrow> addr \<Rightarrow> mem \<Rightarrow> addr \<Rightarrow> enc_outcome \<Rightarrow> bool" where
  "dest_post c src oend m start (Return0 m' tbl) = False"
| "dest_post c src oend m start (LastLiterals m' tbl anchor op) =
     (frame m m' (e_dest c) oend \<and> op < oend \<and> (\<exists>ss. emitted c [] src oend ss anchor op m' \<and> dest_tail oend ss op))"
| "dest_post c src oend m start (Continue m' tbl ip op fh) =
     (frame m m' (e_dest c) oend \<and> tbl_ok c [] ip tbl \<and> op + 12 \<le> oend \<and> (\<exists>ss. emitted c [] src oend ss (ip - 1) op m') \<and>
      start < ip \<and> e_source c < ip \<and> ip \<le> e_mflimit c + 1 \<and> 0 \<le> fh \<and> fh < table_size (e_tableType c))"

lemma dest_post_trans:
  assumes "dest_post c src oend m' start' r" "frame m m' (e_dest c) oend" "start \<le> start'"
  shows "dest_post c src oend m start r"
  using assms by (cases r) (auto dest: frame_trans)

lemma LZ4_destSize_next_ok:
  assumes "dest_env c l src oend m" "emitted c [] src oend ss anchor tok m"
    and "cand c [] ip mtch" "same c [] src ip mtch k" "4 \<le> k" "ip + k + 5 \<le> e_iend c"
    and "tbl_ok c [] (ip + k - 3) tbl" "anchor \<le> ip" "ip + 12 \<le> e_iend c"
    and "op = tok + 1 + int (length (enc_len (nat (ip - anchor)))) + (ip - anchor)" "op + 11 \<le> oend"
    and "bytes_at m tok (token (nat (ip - anchor)) 0 # enc_len (nat (ip - anchor)) @ literals c src anchor ip)"
  shows "ok (dest_post c src oend m (ip + k)) (LZ4_destSize_next a c l m tbl ip mtch tok op)"
  using assms
proof (induction "nat (e_iend c - ip)" arbitrary: m ss anchor tok ip mtch k tbl op rule: less_induct)
  case less
  note D = less.prems(1) and M = less.prems(2) and C = less.prems(3)
  have E: "enc_env c [] src oend m" and l: "l_oMaxSeq l = oend - 12" and ns: "e_dictIssue c = noDictIssue" using D by (auto simp: dest_env_def)
  have e: "e_iend c = e_source c + int (length src)" "e_matchlimit c = e_iend c - 5" "e_mflimit c = e_iend c - 12"
    using E by (auto simp: enc_env_def)
  have an: "e_source c \<le> anchor" "e_dest c \<le> tok" using M by (auto simp: emitted_def)
  let ?L = "literals c src anchor ip"
  have L: "int (length ?L) = ip - anchor" by (rule literals_at [OF E an(1)]) (use less.prems in auto)
  then have L': "nat (ip - anchor) = length ?L" by simp
  have s4: "same c [] src ip mtch 4" using less.prems(4,5) by (auto simp: same_def)
  obtain m1 op' ip' where em: "LZ4_destSize_match a c l m ip mtch tok op = Some (m1, op', ip')"
    and f1: "frame m m1 tok oend" and x: "4 \<le> ip' - ip" "ip' \<le> e_matchlimit c" "same c [] src ip mtch (ip' - ip)"
    and op': "op' = tok + int (length (enc_seq (Seq ?L (nat (ip - mtch)) (nat (ip' - ip)))))"
      "bytes_at m1 tok (enc_seq (Seq ?L (nat (ip - mtch)) (nat (ip' - ip))))"
    and rm: "op' + 6 \<le> oend" "op' + 9 \<le> oend \<or> 19 \<le> ip' - ip" "op' + 6 < oend \<longrightarrow> extent c [] src ip mtch (ip' - ip)"
    using okD [OF LZ4_destSize_match_ok [OF D C s4 _ less.prems(9) an(2) _ less.prems(11), of ?L a]] less.prems(8,10,12) L L' an by fastforce
  let ?s = "Seq ?L (nat (ip - mtch)) (nat (ip' - ip))"
  have f1': "frame m m1 (e_dest c) oend" by (rule frame_mono [OF f1]) (use an in auto)
  have D1: "dest_env c l src oend m1" by (rule dest_env_frame [OF f1' D])
  have E1: "enc_env c [] src oend m1" using D1 by (simp add: dest_env_def)
  have M1: "emitted c [] src oend (ss @ [?s]) ip' op' m1"
    using emitted_step [OF E M f1 C x(1) _ x(3) less.prems(8,9) refl op'(2,1)] x rm by simp
  have t1: "dest_tail oend (ss @ [?s]) op'" using rm by (auto simp: dest_tail_def)
  show ?case
  proof (cases "ip' > e_mflimit c \<or> op' > l_oMaxSeq l")
    case True
    with em f1' M1 t1 rm(1) show ?thesis by (subst LZ4_destSize_next.simps) auto
  next
    case False
    then have o12: "op' + 12 \<le> oend" using l by simp
    then have "extent c [] src ip mtch (ip' - ip)" using rm(3) by simp
    then have ip': "ip + k \<le> ip'" "ip' + 5 \<le> e_iend c" "4 \<le> ip' - ip"
      using extent_max [OF _ less.prems(4), of "ip' - ip"] less.prems(6) e x by auto
    have i12: "ip' + 12 \<le> e_iend c" "e_source c \<le> ip' - 2" "e_source c \<le> ip'" using False e ip' an less.prems by auto
    have "tbl_ok c [] (ip' - 2 + 1) tbl" by (rule tbl_ok_mono [OF less.prems(7)]) (use ip' in auto)
    from okD [OF LZ4_putPosition_ok [OF E1 this, of a]] i12 obtain tbl1 where
      p1: "LZ4_putPosition a m1 (ip' - 2) tbl (e_tableType c) (e_base c) = Some tbl1" "tbl_ok c [] (ip' - 1) tbl1" by auto
    have T1: "tbl_ok c [] ip' tbl1" "tbl_ok c [] (ip' + 1) tbl1" by (rule tbl_ok_mono [OF p1(2)]; simp)+
    have "mapped m1 ip' (ip' + 8)" by (rule enc_env_mapped [OF E1]) (use i12 in auto)
    from okD [OF LZ4_hashPosition_ok [OF this, of "e_tableType c" a]] obtain h where
      h: "LZ4_hashPosition a m1 ip' (e_tableType c) = Some h" "0 \<le> h" "h < table_size (e_tableType c)" by blast
    from LZ4_getPositionOnHash_ok [OF T1(1) h(2,3)] h(1) obtain mtch' where
      g: "LZ4_getPosition a m1 ip' tbl1 (e_tableType c) (e_base c) = Some mtch'" "pos_ok c [] ip' mtch'" by (auto simp: LZ4_getPosition_def)
    from okD [OF LZ4_putPosition_ok [OF E1 T1(2) i12(3,1), of a]] obtain tbl2 where
      p2: "LZ4_putPosition a m1 ip' tbl1 (e_tableType c) (e_base c) = Some tbl2" "tbl_ok c [] (ip' + 1) tbl2" by blast
    obtain b where b: "(if mtch' + MAX_DISTANCE \<ge> ip'
            then do { x \<leftarrow> LZ4_read32 a m1 mtch'; y \<leftarrow> LZ4_read32 a m1 ip'; Some (x = y) }
            else Some False) = Some b" "b \<longrightarrow> cand c [] ip' mtch' \<and> same c [] src ip' mtch' 4"
      using next_test [OF E1 g(2) dest_ref [OF D1] i12(3,1), of a, unfolded add_0_right] ns by auto
    have "mapped m1 (ip' + 1) (ip' + 1 + 8)" by (rule enc_env_mapped [OF E1]) (use i12 in auto)
    from okD [OF LZ4_hashPosition_ok [OF this, of "e_tableType c" a]] obtain h' where
      h': "LZ4_hashPosition a m1 (ip' + 1) (e_tableType c) = Some h'" "0 \<le> h'" "h' < table_size (e_tableType c)" by blast
    have "m1 op' \<noteq> None" using E1 o12 M1 by (auto simp: enc_env_def emitted_def mapped_def)
    then have st: "store8 m1 op' 0 = Some (m1(op' \<mapsto> 0))" by (rule store8_ok)
    have unf: "LZ4_destSize_next a c l m tbl ip mtch tok op =
        (if b then LZ4_destSize_next a c l (m1(op' \<mapsto> 0)) tbl2 ip' mtch' op' (op' + 1)
         else Some (Continue m1 tbl2 (ip' + 1) op' h'))"
      using False em p1(1) g(1) p2(1) b(1) h'(1) st by (subst LZ4_destSize_next.simps) simp
    show ?thesis
    proof (cases b)
      case True
      let ?m2 = "m1(op' \<mapsto> 0)"
      have f2: "frame m1 ?m2 op' oend" using \<open>m1 op' \<noteq> None\<close> o12 by (auto simp: frame_def)
      then have f2': "frame m1 ?m2 (e_dest c) oend" by (rule frame_mono) (use M1 in \<open>auto simp: emitted_def\<close>)
      have "ok (dest_post c src oend ?m2 (ip' + 4)) (LZ4_destSize_next a c l ?m2 tbl2 ip' mtch' op' (op' + 1))"
      proof (rule less.hyps [OF _ dest_env_frame [OF f2' D1] emitted_frame [OF M1 f2]])
        show "bytes_at ?m2 op' (token (nat (ip' - ip')) 0 # enc_len (nat (ip' - ip')) @ literals c src ip' ip')"
          by (simp add: enc_len_small literals_def token_def bytes_at_Cons)
        show "tbl_ok c [] (ip' + 4 - 3) tbl2" by (rule tbl_ok_mono [OF p2(2)]) simp
      qed (use True b(2) ip' i12 o12 less.prems in \<open>auto simp: enc_len_small\<close>)
      then have "ok (dest_post c src oend m (ip + k)) (LZ4_destSize_next a c l ?m2 tbl2 ip' mtch' op' (op' + 1))"
        by (rule ok_mono) (erule dest_post_trans, use frame_trans [OF f1' f2'] ip' in auto)
      with True unf show ?thesis by simp
    next
      case nb: False
      with unf f1' p2(2) M1 ip' i12 False e h' an o12 less.prems show ?thesis by auto
    qed
  qed
qed

lemma LZ4_destSize_step_ok:
  assumes D: "dest_env c l src oend m" and M: "emitted c [] src oend ss anchor op m" and T: "tbl_ok c [] ip tbl"
    and t: "dest_tail oend ss op" "op < oend"
    and ip: "anchor \<le> ip" "ip \<le> e_mflimit c + 1" and fh: "0 \<le> fh" "fh < table_size (e_tableType c)"
  shows "ok (dest_post c src oend m ip) (LZ4_destSize_step a c l m tbl anchor ip op fh)"
proof -
  have E: "enc_env c [] src oend m" using D by (simp add: dest_env_def)
  have e: "e_iend c = e_source c + int (length src)" "e_matchlimit c = e_iend c - 5" "e_mflimit c = e_iend c - 12"
    "int (length src) \<le> LZ4_MAX_INPUT_SIZE" using E by (auto simp: enc_env_def)
  have an: "e_source c \<le> anchor" "e_dest c \<le> op" using M by (auto simp: emitted_def)
  have "ok (find_post c [] src ip) (LZ4_find_match a c m tbl ip 1 64 fh)"
    by (rule LZ4_find_match_ok [OF E T _ ip(2) _ _ _ fh]) (use e an ip in auto)
  then obtain r where r: "LZ4_find_match a c m tbl ip 1 64 fh = Some r" "find_post c [] src ip r"
    by (blast dest: okD)
  show ?thesis
  proof (cases r)
    case (NotFound tbl')
    with r(1) M t show ?thesis by (auto simp: LZ4_destSize_step_def)
  next
    case (Found ip1 mt rd lo tbl' fh')
    have F: "ip \<le> ip1" "ip1 + 1 \<le> e_mflimit c" "tbl_ok c [] (ip1 + 1) tbl'" "cand c [] ip1 mt" "same c [] src ip1 mt 4"
      using r(2) Found by auto
    have "ok (\<lambda>(ip', mtch'). anchor \<le> ip' \<and> ip' \<le> ip1 \<and> cand c [] ip' mtch' \<and> mtch' = mt - (ip1 - ip') \<and>
              (0, e_lowLimit c) = enc_ref c mtch' \<and> same c [] src ip' mtch' (ip1 - ip'))
           (LZ4_catch_up m anchor 0 (e_lowLimit c) ip1 mt)"
      by (rule LZ4_catch_up_ok [OF E F(4)]) (use e F an ip dest_ref [OF D] in auto)
    then obtain ip2 mt2 where cu: "LZ4_catch_up m anchor 0 (e_lowLimit c) ip1 mt = Some (ip2, mt2)"
      and C: "anchor \<le> ip2" "ip2 \<le> ip1" "cand c [] ip2 mt2" "mt2 = mt - (ip1 - ip2)" "same c [] src ip2 mt2 (ip1 - ip2)"
      by (auto dest: okD)
    let ?k = "ip1 - ip2 + 4"
    have "same c [] src (ip2 + (ip1 - ip2)) (mt2 + (ip1 - ip2)) 4" using F(5) C(4) by simp
    then have sk: "same c [] src ip2 mt2 ?k" by (rule same_append [OF C(5)])
    let ?L = "literals c src anchor ip2"
    have i12: "ip2 + 12 \<le> e_iend c" using C F e by simp
    from okD [OF LZ4_destSize_literals_ok [OF D an(1) C(1) i12 an(2)]] obtain m1 q where
      el: "LZ4_destSize_literals l m anchor ip2 op = Some (m1, q)" and f1: "frame m m1 op oend"
      and q: "case q of None \<Rightarrow> True
            | Some op' \<Rightarrow> op' = op + 1 + int (length (enc_len (nat (ip2 - anchor)))) + (ip2 - anchor) \<and> op' + 11 \<le> oend \<and>
                bytes_at m1 op (token (nat (ip2 - anchor)) 0 # enc_len (nat (ip2 - anchor)) @ ?L)" by fastforce
    have f1': "frame m m1 (e_dest c) oend" by (rule frame_mono [OF f1]) (use an in auto)
    show ?thesis
    proof (cases q)
      case None
      with Found r(1) cu el f1' t emitted_frame [OF M f1] show ?thesis by (auto simp: LZ4_destSize_step_def)
    next
      case (Some op')
      have "ok (dest_post c src oend m1 (ip2 + ?k)) (LZ4_destSize_next a c l m1 tbl' ip2 mt2 op op')"
        by (rule LZ4_destSize_next_ok [OF dest_env_frame [OF f1' D] emitted_frame [OF M f1] C(3) sk])
           (use q Some C F e in \<open>auto elim: tbl_ok_mono\<close>)
      then have "ok (dest_post c src oend m ip) (LZ4_destSize_next a c l m1 tbl' ip2 mt2 op op')"
        by (rule ok_mono) (erule dest_post_trans, use f1' F in auto)
      with Some Found r(1) cu el show ?thesis by (simp add: LZ4_destSize_step_def)
    qed
  qed
qed


text \<open>The parsing restrictions at the end of a shorter block depend on the last sequence only.\<close>

lemma end_ok_last:
  assumes "valid_seqs n0 (ss @ [s])" "pos + seqs_size ss + length (lits s) + 12 \<le> n" "pos + seqs_size ss + length (lits s) + mlen s + 5 \<le> n"
  shows "end_ok n pos (ss @ [s])"
  using assms
proof (induction ss arbitrary: n0 pos)
  case (Cons u ss)
  have "end_ok n (pos + length (lits u) + mlen u) (ss @ [s])" using Cons.prems by (intro Cons.IH [of "n0 + length (lits u) + mlen u"]) auto
  with Cons.prems show ?case by (auto simp: valid_seq_def)
qed simp

text \<open>\<open>k\<close> bytes of the input were consumed and \<open>r\<close> bytes written: they are a block that stands for that prefix of the
  input.\<close>

definition prefix_written :: "byte list \<Rightarrow> mem \<Rightarrow> addr \<Rightarrow> int \<Rightarrow> int \<Rightarrow> int \<Rightarrow> bool" where
  "prefix_written src m dest cap r k \<longleftrightarrow>
     0 \<le> k \<and> k \<le> int (length src) \<and>
     (\<exists>blk. valid_block 0 blk \<and> expand [] blk = take (nat k) src \<and> bytes_at m dest (encode blk) \<and>
            r = int (length (encode blk)) \<and> r \<le> cap)"

lemma last_run_fits:
  fixes R n :: int
  assumes "0 \<le> n" "n < R + (R + 240) div 255" "0 \<le> R"
  shows "0 \<le> n - (n + 240) div 255" "n - (n + 240) div 255 \<le> R" "n \<le> 14 \<Longrightarrow> n - (n + 240) div 255 = n"
    "14 \<le> n \<Longrightarrow> 14 \<le> n - (n + 240) div 255"
proof -
  show "n \<le> 14 \<Longrightarrow> n - (n + 240) div 255 = n" using assms(1) by (simp add: div_pos_pos_trivial)
  show c: "14 \<le> n \<Longrightarrow> 14 \<le> n - (n + 240) div 255" by linarith
  show "0 \<le> n - (n + 240) div 255" using assms(1) by linarith
  show "n - (n + 240) div 255 \<le> R"
  proof (rule ccontr)
    assume "\<not> ?thesis"
    then have g: "R + 1 \<le> n - (n + 240) div 255" by simp
    moreover have "0 \<le> (n + 240) div 255" using assms(1) by simp
    ultimately have "R + 240 \<le> n + 240" by linarith
    then have "(R + 240) div 255 \<le> (n + 240) div 255" by (rule zdiv_mono1) simp
    with g assms(2) show False by linarith
  qed
qed

lemma dest_last_run:
  assumes v: "valid_seqs 0 ss" "end_ok sz 0 ss" and t: "dest_tail oend ss op" "op < oend"
    and R: "int sz = int (seqs_size ss) + R \<and> 0 \<le> R"
    and n: "n = (if op + 1 + (R + 240) div 255 + R > oend then (oend - op - 1) - ((oend - op - 1) + 240) div 255 else R)"
  shows "0 \<le> n \<and> n \<le> R \<and> op + 1 + int (length (enc_len (nat n))) + n \<le> oend \<and> end_ok (seqs_size ss + nat n) 0 ss"
proof (cases "op + 1 + (R + 240) div 255 + R > oend")
  case False
  then have "n = R" using n by simp
  moreover have "sz = seqs_size ss + nat R" using R by linarith
  ultimately show ?thesis using False R v(2) enc_len_room240 [of R] by auto
next
  case True
  let ?N = "oend - op - 1"
  have N: "n = ?N - (?N + 240) div 255" "0 \<le> ?N" "?N < R + (R + 240) div 255" using True n t(2) by auto
  note f = last_run_fits [OF N(2,3), folded N(1)]
  have n1: "0 \<le> n" "n \<le> R" using f R by auto
  have "(n + 240) div 255 \<le> (?N + 240) div 255" by (rule zdiv_mono1) (use N(1,2) in auto)
  then have room: "op + 1 + int (length (enc_len (nat n))) + n \<le> oend" using enc_len_room240 [OF n1(1)] N(1) by linarith
  have "end_ok (seqs_size ss + nat n) 0 ss"
  proof (cases ss rule: rev_cases)
    case (snoc us u)
    have m4: "4 \<le> mlen u" using v(1) snoc by (auto simp: valid_seq_def)
    have "8 \<le> n \<or> 5 \<le> n \<and> 19 \<le> mlen u"
      using t(1) f(3,4) R snoc by (cases "?N \<le> 14") (auto simp: dest_tail_def)
    then have "12 \<le> mlen u + nat n" "5 \<le> nat n" using m4 by auto
    then show ?thesis unfolding snoc using v(1) snoc by (intro end_ok_last [of 0]) auto
  qed simp
  with n1 room show ?thesis by blast
qed

lemma LZ4_destSize_last_ok:
  assumes D: "dest_env c l src oend m" and M: "emitted c [] src oend ss anchor op m" and t: "dest_tail oend ss op" "op < oend"
  shows "ok (\<lambda>(r, m', ip). frame m m' (e_dest c) oend \<and> prefix_written src m' (e_dest c) (oend - e_dest c) r (ip - e_source c))
           (LZ4_destSize_last c l m anchor op)"
proof -
  have E: "enc_env c [] src oend m" and l: "l_oend l = oend" "oend - e_dest c < 2 ^ 31" using D by (auto simp: dest_env_def)
  have e: "e_iend c = e_source c + int (length src)" using E by (simp add: enc_env_def)
  have M': "e_source c \<le> anchor" "anchor \<le> e_iend c" "apply_seqs [] ss = take (nat (anchor - e_source c)) src"
    "valid_seqs 0 ss" "end_ok (length src) 0 ss" "op = e_dest c + int (length (enc_seqs ss))" using M by (auto simp: emitted_def)
  let ?R = "e_iend c - anchor"
  let ?N = "oend - op - 1"
  define n where "n = (if op + 1 + (?R + 240) div 255 + ?R > oend then ?N - (?N + 240) div 255 else ?R)"
  have sz: "int (seqs_size ss) = anchor - e_source c" by (rule emitted_size [OF E M])
  have n: "0 \<le> n" "n \<le> ?R" "op + 1 + int (length (enc_len (nat n))) + n \<le> oend" "end_ok (seqs_size ss + nat n) 0 ss"
    using dest_last_run [OF M'(4,5) t _ n_def] sz e M'(2) by auto
  let ?L = "literals c src anchor (anchor + n)"
  let ?k = "int (length (enc_len (nat n)))"
  obtain m1 m2 where
    w: "(if n \<ge> RUN_MASK
          then do { m \<leftarrow> store8 m op (word_of_int (RUN_MASK * 16)); write_length m (op + 1) (n - RUN_MASK) }
          else do { m \<leftarrow> store8 m op (word_of_int (n * 16)); Some (m, op + 1) }) = Some (m1, op + 1 + ?k)"
    and s: "memcpy m1 (op + 1 + ?k) anchor (nat n) = Some m2" and fr: "frame m m2 op oend" and b3: "bytes_at m2 op (enc_last ?L)"
    using write_last_ok [OF E M'(1) n(1), of op] M' n by auto
  have L: "length ?L = nat n" using literals_at(2) [OF E M'(1), of "anchor + n"] n by simp
  let ?blk = "(ss, ?L)"
  have V: "valid_block 0 ?blk" using M'(4) n(4) L by (simp add: valid_block_def block_size_def)
  have "take (nat (anchor - e_source c)) src @ ?L = take (nat (anchor + n - e_source c)) src"
    using M'(1) n(1) by (simp add: literals_def take_add [symmetric] nat_add_distrib [symmetric] diff_add_eq)
  then have X: "expand [] ?blk = take (nat (anchor + n - e_source c)) src" using M'(3) by (simp add: expand_def)
  have B: "bytes_at m2 (e_dest c) (encode ?blk)"
    using emitted_frame [OF M fr] b3 M'(6) by (simp add: encode_def bytes_at_append emitted_def)
  have len: "op + 1 + ?k + n - e_dest c = int (length (encode ?blk))"
    using M'(6) L n(1) by (simp add: encode_def length_enc_last)
  have i: "int32 (op + 1 + ?k + n - e_dest c) = op + 1 + ?k + n - e_dest c" using len n(3) l(2) by simp
  have "LZ4_destSize_last c l m anchor op = Some (int (length (encode ?blk)), m2, anchor + n)"
    unfolding LZ4_destSize_last_def Let_def l(1) n_def [symmetric] w using s i len by simp
  moreover have "frame m m2 (e_dest c) oend" by (rule frame_mono [OF fr]) (use M' in auto)
  moreover have "prefix_written src m2 (e_dest c) (oend - e_dest c) (int (length (encode ?blk))) (anchor + n - e_source c)"
    unfolding prefix_written_def using V X B len n e M'(1) by force
  ultimately show ?thesis by simp
qed


lemma LZ4_destSize_loop_ok:
  assumes "dest_env c l src oend m" "emitted c [] src oend ss anchor op m" "tbl_ok c [] ip tbl" "dest_tail oend ss op" "op < oend"
    and "anchor \<le> ip" "ip \<le> e_mflimit c + 1" "0 \<le> fh" "fh < table_size (e_tableType c)"
  shows "ok (\<lambda>(r, m', ip', tbl'). frame m m' (e_dest c) oend \<and> prefix_written src m' (e_dest c) (oend - e_dest c) r (ip' - e_source c))
           (LZ4_destSize_loop a c l m tbl anchor ip op fh)"
  using assms
proof (induction "nat (e_iend c - ip)" arbitrary: m ss anchor op ip tbl fh rule: less_induct)
  case less
  note D = less.prems(1)
  from okD [OF LZ4_destSize_step_ok [OF less.prems, of a]] obtain r where
    r: "LZ4_destSize_step a c l m tbl anchor ip op fh = Some r" "dest_post c src oend m ip r" by blast
  show ?case
  proof (cases r)
    case (Return0 m' tbl')
    with r show ?thesis by simp
  next
    case (LastLiterals m' tbl' anchor' op')
    then obtain ss' where M: "emitted c [] src oend ss' anchor' op' m'" "dest_tail oend ss' op'" "op' < oend" and f: "frame m m' (e_dest c) oend"
      using r(2) by auto
    have "ok (\<lambda>(r, m'', ip'). frame m m'' (e_dest c) oend \<and> prefix_written src m'' (e_dest c) (oend - e_dest c) r (ip' - e_source c))
        (LZ4_destSize_last c l m' anchor' op')"
      by (rule ok_mono [OF LZ4_destSize_last_ok [OF dest_env_frame [OF f D] M]]) (auto intro: frame_trans [OF f])
    with LastLiterals r(1) show ?thesis by (subst LZ4_destSize_loop.simps) (auto elim: ok_mono)
  next
    case (Continue m' tbl' ip' op' fh')
    then obtain ss' where M: "emitted c [] src oend ss' (ip' - 1) op' m'" and f: "frame m m' (e_dest c) oend"
      and p: "tbl_ok c [] ip' tbl'" "ip < ip'" "ip' \<le> e_mflimit c + 1" "0 \<le> fh'" "fh' < table_size (e_tableType c)" "op' + 12 \<le> oend"
      using r(2) by auto
    have e: "e_mflimit c = e_iend c - 12" using D by (simp add: dest_env_def enc_env_def)
    have "ok (\<lambda>(r, m'', ip'', tbl''). frame m' m'' (e_dest c) oend \<and> prefix_written src m'' (e_dest c) (oend - e_dest c) r (ip'' - e_source c))
           (LZ4_destSize_loop a c l m' tbl' (ip' - 1) ip' op' fh')"
      by (rule less.hyps [OF _ dest_env_frame [OF f D] M]) (use p e in \<open>auto simp: dest_tail_def\<close>)
    then have "ok (\<lambda>(r, m'', ip'', tbl''). frame m m'' (e_dest c) oend \<and> prefix_written src m'' (e_dest c) (oend - e_dest c) r (ip'' - e_source c))
           (LZ4_destSize_loop a c l m' tbl' (ip' - 1) ip' op' fh')"
      by (rule ok_mono) (auto intro: frame_trans [OF f])
    with Continue r(1) show ?thesis by (subst LZ4_destSize_loop.simps) simp
  qed
qed

definition dest_call :: "mem \<Rightarrow> addr \<Rightarrow> byte list \<Rightarrow> addr \<Rightarrow> int \<Rightarrow> bool" where
  "dest_call m source src dest cap \<longleftrightarrow>
     bytes_at m source src \<and> mapped m dest (dest + cap) \<and>
     (source + int (length src) \<le> dest \<or> dest + cap \<le> source) \<and> 65536 \<le> source \<and>
     1 \<le> cap \<and> cap < 2 ^ 31 \<and> int (length src) \<le> LZ4_MAX_INPUT_SIZE"

lemma LZ4_compress_destSize_generic_ok:
  assumes A: "dest_call m source src dest cap" and tt: "tt = byU16 \<longleftrightarrow> int (length src) < LZ4_64Klimit"
  shows "ok (\<lambda>(r, m', k, st). frame m m' dest (dest + cap) \<and> prefix_written src m' dest cap r k)
           (LZ4_compress_destSize_generic a m (LZ4_resetStream st0) source dest (int (length src)) cap tt)"
proof -
  let ?st = "LZ4_resetStream st0"
  let ?n = "int (length src)"
  define c where "c = LZ4_compress_ctx ?st source dest ?n cap notLimited tt noDict noDictIssue 1"
  define l where "l = LZ4_dest_limits dest cap"
  have cc: "e_source c = source" "e_dest c = dest" "e_iend c = source + ?n" "e_tableType c = tt" "e_mflimit c = source + ?n - 12"
    "e_matchlimit c = source + ?n - 5" "e_base c = source" "e_lowLimit c = source" "e_lowRefLimit c = source" "e_dict c = noDict"
    "e_dictIssue c = noDictIssue" "e_acceleration c = 1"
    by (simp_all add: c_def LZ4_compress_ctx_def Let_def LZ4_resetStream_def)
  note A' = A [unfolded dest_call_def]
  have "enc_env c [] src (dest + cap) m"
    using A' tt unfolding enc_env_def cc by (cases tt) (auto simp: hist_mem_def hist_apart_def cc)
  then have D: "dest_env c l src (dest + cap) m"
    using A' by (simp add: dest_env_def cc l_def LZ4_dest_limits_def)
  then have E: "enc_env c [] src (dest + cap) m" by (simp add: dest_env_def)
  have T: "tbl_ok c [] (source + 1) (hashTable ?st)"
    using A' by (auto simp: tbl_ok_def pos_ok_def pos_of_def LZ4_resetStream_def cc)
  have M0: "emitted c [] src (dest + cap) [] source dest m" using A' by (simp add: emitted_def cc)
  have t0: "dest_tail (dest + cap) [] dest" "dest < dest + cap" using A' by (simp_all add: dest_tail_def)
  have int: "int32 k = k" if "prefix_written src m' dest cap r k" for m' r k
    using that A' by (auto simp: prefix_written_def)
  have guard: "\<not> cap < 1" "\<not> uns32 ?n > LZ4_MAX_INPUT_SIZE" "\<not> (tt = byU16 \<and> ?n \<ge> LZ4_64Klimit)" using A' tt by auto
  show ?thesis
  proof (cases "?n < LZ4_minLength")
    case True
    have "ok (\<lambda>(r, m', ip). frame m m' dest (dest + cap) \<and> prefix_written src m' dest cap r (ip - source))
        (LZ4_destSize_last c l m source dest)"
      using LZ4_destSize_last_ok [OF D M0 t0] by (simp add: cc)
    then show ?thesis
      unfolding LZ4_compress_destSize_generic_def Let_def c_def [symmetric] l_def [symmetric]
      using True guard by (auto simp: int elim!: ok_mono)
  next
    case False
    from okD [OF LZ4_putPosition_ok [OF E, of source "hashTable ?st" a]] T False obtain tbl where
      p: "LZ4_putPosition a m source (hashTable ?st) tt (e_base c) = Some tbl" "tbl_ok c [] (source + 1) tbl" by (auto simp: cc)
    have "mapped m (source + 1) (source + 1 + 8)" by (rule enc_env_mapped [OF E]) (use False in \<open>auto simp: cc\<close>)
    from okD [OF LZ4_hashPosition_ok [OF this, of tt a]] obtain h where
      h: "LZ4_hashPosition a m (source + 1) tt = Some h" "0 \<le> h" "h < table_size tt" by blast
    have "ok (\<lambda>(r, m', ip', tbl'). frame m m' (e_dest c) (dest + cap) \<and> prefix_written src m' (e_dest c) (dest + cap - e_dest c) r (ip' - e_source c))
           (LZ4_destSize_loop a c l m tbl source (source + 1) dest h)"
      by (rule LZ4_destSize_loop_ok [OF D M0 p(2) t0]) (use False h in \<open>auto simp: cc\<close>)
    then show ?thesis
      unfolding LZ4_compress_destSize_generic_def Let_def c_def [symmetric] l_def [symmetric]
      using False guard p(1) h(1) by (auto simp: int cc elim!: ok_mono)
  qed
qed

section \<open>The property\<close>

text \<open>C31: \<open>LZ4_compress_destSize\<close> fills a buffer of any size: it writes the encoding of a valid block that stands for a
  prefix of the input, whose length it leaves in \<open>*srcSizePtr\<close>, and consumes all of the input when the buffer has
  \<open>LZ4_compressBound\<close> bytes.\<close>

theorem LZ4_compress_destSize_correct:
  assumes A: "dest_call m source src dest cap"
  shows "ok (\<lambda>(r, m', k). frame m m' dest (dest + cap) \<and> 0 < r \<and> prefix_written src m' dest cap r k \<and>
               (LZ4_compressBound (int (length src)) \<le> cap \<longrightarrow> k = int (length src)))
           (LZ4_compress_destSize a m ctx source dest (int (length src)) cap)"
proof -
  let ?n = "int (length src)"
  have pos: "0 < r" if "prefix_written src m' dest cap r k" for m' r k
    using that by (auto simp: prefix_written_def encode_def enc_last_def)
  show ?thesis
  proof (cases "cap \<ge> LZ4_compressBound ?n")
    case True
    have "fast_call 1 m source src dest cap" using A True by (simp add: dest_call_def fast_call_def)
    from LZ4_compress_fast_extState_ok [OF this, of a "LZ4_resetStream ctx"]
    have "ok (\<lambda>(r, m', st'). frame m m' dest (dest + cap) \<and> prefix_written src m' dest cap r ?n)
        (LZ4_compress_fast_extState a m (LZ4_resetStream ctx) source dest ?n cap 1)"
      by (rule ok_mono) (use True in \<open>auto simp: compressed_def prefix_written_def\<close>)
    with True pos show ?thesis
      unfolding LZ4_compress_destSize_def LZ4_compress_destSize_extState_def Let_def by (fastforce elim!: ok_mono)
  next
    case False
    define tt where "tt = (if ?n < LZ4_64Klimit then byU16 else if LZ4_64bits a then byU32 else byPtr)"
    have "tt = byU16 \<longleftrightarrow> ?n < LZ4_64Klimit" by (simp add: tt_def)
    from LZ4_compress_destSize_generic_ok [OF A this, of a ctx]
    have "ok (\<lambda>(r, m', k, st). frame m m' dest (dest + cap) \<and> prefix_written src m' dest cap r k)
        (LZ4_compress_destSize_extState a m ctx source dest ?n cap)"
      using False unfolding LZ4_compress_destSize_extState_def Let_def tt_def by (simp split: if_splits)
    with False pos show ?thesis unfolding LZ4_compress_destSize_def by (fastforce elim!: ok_mono)
  qed
qed

theorem LZ4_compress_destSize_correct_witness:
  "ok (\<lambda>(r, m', k). 0 < r \<and> prefix_written [7, 7, 7] m' 70000 2 r k)
     (LZ4_compress_destSize x64 small_mem fresh_stream 65536 70000 3 2)"
proof -
  have "mapped small_mem 70000 (70000 + 2)" using small_call(1) [of 1] by (auto simp: fast_call_def elim: mapped_mono)
  then have "dest_call small_mem 65536 [7, 7, 7] 70000 2" using small_call(1) [of 1] by (simp add: fast_call_def dest_call_def)
  from LZ4_compress_destSize_correct [OF this, of x64 fresh_stream] show ?thesis by (auto elim!: ok_mono)
qed

end
