(* ===== verification/Lz4_HC.thy ===== *)
theory Lz4_HC
  imports Lz4_Compress_Api
begin

text \<open>
  The high-compression encoder of \<^verbatim>\<open>lz4hc.c\<close>: hash chains over the positions of a stream, the two
  match searches, the lazy parser with its labels as control states, the one-shot, streaming and
  deprecated entry points. Positions are distances from \<open>base\<close>, kept in 32 bits.
\<close>

section \<open>State\<close>

text \<open>The tables are arrays, indexed by the 15-bit hash and by the low 16 bits of a position; positions are
  distances from \<open>base\<close>.\<close>

record LZ4HC_Data_Structure =
  hc_hashTable :: "int \<Rightarrow> int"
  chainTable :: "int \<Rightarrow> int"
  hc_end :: addr
  hc_base :: addr
  dictBase :: addr
  inputBuffer :: addr
  dictLimit :: int
  hc_lowLimit :: int
  nextToUpdate :: int
  compressionLevel :: int

abbreviation (input) HASH_LOG :: nat where "HASH_LOG \<equiv> 15"
abbreviation (input) OPTIMAL_ML :: int where "OPTIMAL_ML \<equiv> (15 - 1) + 4"
abbreviation (input) g_maxCompressionLevel :: int where "g_maxCompressionLevel \<equiv> 16"
abbreviation (input) LZ4HC_compressionLevel_default :: int where "LZ4HC_compressionLevel_default \<equiv> 9"

definition HASH_FUNCTION :: "u32 \<Rightarrow> u32" where
  "HASH_FUNCTION i = drop_bit (4 * 8 - HASH_LOG) (i * 2654435761)"

definition LZ4HC_hashPtr :: "arch \<Rightarrow> mem \<Rightarrow> addr \<Rightarrow> int option" where
  "LZ4HC_hashPtr a m p = do { x \<leftarrow> LZ4_read32 a m p; Some (uint (HASH_FUNCTION x)) }"

definition DELTANEXTU16 :: "LZ4HC_Data_Structure \<Rightarrow> int \<Rightarrow> int" where
  "DELTANEXTU16 hc4 p = chainTable hc4 (p mod 2 ^ 16)"

definition LZ4HC_init :: "LZ4HC_Data_Structure \<Rightarrow> addr \<Rightarrow> LZ4HC_Data_Structure" where
  "LZ4HC_init hc4 start =
     hc4\<lparr>hc_hashTable := (\<lambda>_. 0), chainTable := (\<lambda>_. 0xFFFF), nextToUpdate := 64 * KB, hc_base := start - 64 * KB,
         hc_end := start, dictBase := start - 64 * KB, dictLimit := 64 * KB, hc_lowLimit := 64 * KB\<rparr>"

section \<open>The chains\<close>

function LZ4HC_Insert_loop ::
  "arch \<Rightarrow> mem \<Rightarrow> LZ4HC_Data_Structure \<Rightarrow> int \<Rightarrow> int \<Rightarrow> LZ4HC_Data_Structure option" where
  "LZ4HC_Insert_loop a m hc4 idx target =
     (if idx < target
      then do { h \<leftarrow> LZ4HC_hashPtr a m (hc_base hc4 + idx);
                let delta = uns32 (idx - hc_hashTable hc4 h);
                let delta = (if delta > MAX_DISTANCE then MAX_DISTANCE else delta);
                LZ4HC_Insert_loop a m
                  (hc4\<lparr>chainTable := (chainTable hc4)(idx mod 2 ^ 16 := delta mod 2 ^ 16),
                       hc_hashTable := (hc_hashTable hc4)(h := idx)\<rparr>)
                  (idx + 1) target }
      else Some hc4)"
  by pat_completeness auto
termination
  by (relation "measure (\<lambda>(a, m, hc4, idx, target). nat (target - idx))") auto

declare LZ4HC_Insert_loop.simps [simp del]

definition LZ4HC_Insert :: "arch \<Rightarrow> mem \<Rightarrow> LZ4HC_Data_Structure \<Rightarrow> addr \<Rightarrow> LZ4HC_Data_Structure option" where
  "LZ4HC_Insert a m hc4 ip =
     (let target = uns32 (ip - hc_base hc4) in
      do { hc4 \<leftarrow> LZ4HC_Insert_loop a m hc4 (nextToUpdate hc4) target; Some (hc4\<lparr>nextToUpdate := target\<rparr>) })"

definition hc_search_low :: "LZ4HC_Data_Structure \<Rightarrow> addr \<Rightarrow> int" where
  "hc_search_low hc4 ip =
     (if uns32 (hc_lowLimit hc4 + 64 * KB) > uns32 (ip - hc_base hc4) then hc_lowLimit hc4
      else uns32 (uns32 (ip - hc_base hc4) - (64 * KB - 1)))"

section \<open>Searching\<close>

text \<open>The length of the match of \<open>ip\<close> with a position of the external dictionary, which may go on into the
  prefix.\<close>

definition LZ4HC_dict_match ::
  "arch \<Rightarrow> mem \<Rightarrow> LZ4HC_Data_Structure \<Rightarrow> addr \<Rightarrow> addr \<Rightarrow> int \<Rightarrow> addr \<Rightarrow> int option" where
  "LZ4HC_dict_match a m hc4 ip mtch matchIndex iLimit =
     (let vLimit = ip + uns32 (dictLimit hc4 - matchIndex);
          vLimit = (if vLimit > iLimit then iLimit else vLimit)
      in
      do { n \<leftarrow> LZ4_count a m (ip + MINMATCH) (mtch + MINMATCH) vLimit;
           let mlt = n + MINMATCH;
           if ip + mlt = vLimit \<and> vLimit < iLimit
           then do { n \<leftarrow> LZ4_count a m (ip + mlt) (hc_base hc4 + dictLimit hc4) iLimit; Some (mlt + n) }
           else Some mlt })"

text \<open>The loop of \<open>LZ4HC_InsertAndFindBestMatch\<close>: the length and the position of the best match.\<close>

fun LZ4HC_best_loop ::
  "arch \<Rightarrow> mem \<Rightarrow> LZ4HC_Data_Structure \<Rightarrow> addr \<Rightarrow> addr \<Rightarrow> int \<Rightarrow> nat \<Rightarrow> int \<Rightarrow> int \<Rightarrow> addr \<Rightarrow> (int \<times> addr) option" where
  "LZ4HC_best_loop a m hc4 ip iLimit lowLimit 0 matchIndex ml matchpos = Some (ml, matchpos)"
| "LZ4HC_best_loop a m hc4 ip iLimit lowLimit (Suc nbAttempts) matchIndex ml matchpos =
     (if matchIndex \<ge> lowLimit
      then do { (ml, matchpos) \<leftarrow>
                  (if matchIndex \<ge> dictLimit hc4
                   then (let mtch = hc_base hc4 + matchIndex in
                         do { x \<leftarrow> m (mtch + ml); y \<leftarrow> m (ip + ml);
                              if x = y
                              then do { u \<leftarrow> LZ4_read32 a m mtch; v \<leftarrow> LZ4_read32 a m ip;
                                        if u = v
                                        then do { n \<leftarrow> LZ4_count a m (ip + MINMATCH) (mtch + MINMATCH) iLimit;
                                                  let mlt = n + MINMATCH;
                                                  Some (if mlt > ml then (mlt, mtch) else (ml, matchpos)) }
                                        else Some (ml, matchpos) }
                              else Some (ml, matchpos) })
                   else (let mtch = dictBase hc4 + matchIndex in
                         do { u \<leftarrow> LZ4_read32 a m mtch; v \<leftarrow> LZ4_read32 a m ip;
                              if u = v
                              then do { mlt \<leftarrow> LZ4HC_dict_match a m hc4 ip mtch matchIndex iLimit;
                                        Some (if mlt > ml then (mlt, hc_base hc4 + matchIndex) else (ml, matchpos)) }
                              else Some (ml, matchpos) }));
                LZ4HC_best_loop a m hc4 ip iLimit lowLimit nbAttempts
                  (uns32 (matchIndex - DELTANEXTU16 hc4 matchIndex)) ml matchpos }
      else Some (ml, matchpos))"

definition LZ4HC_InsertAndFindBestMatch ::
  "arch \<Rightarrow> mem \<Rightarrow> LZ4HC_Data_Structure \<Rightarrow> addr \<Rightarrow> addr \<Rightarrow> addr \<Rightarrow> nat \<Rightarrow> (int \<times> addr \<times> LZ4HC_Data_Structure) option" where
  "LZ4HC_InsertAndFindBestMatch a m hc4 ip iLimit matchpos maxNbAttempts =
     (let lowLimit = hc_search_low hc4 ip in
      do { hc4 \<leftarrow> LZ4HC_Insert a m hc4 ip;
           h \<leftarrow> LZ4HC_hashPtr a m ip;
           (ml, matchpos) \<leftarrow> LZ4HC_best_loop a m hc4 ip iLimit lowLimit maxNbAttempts (hc_hashTable hc4 h) 0 matchpos;
           Some (ml, matchpos, hc4) })"

text \<open>How far the match can be extended backwards, as a non-positive number; \<open>lim\<close> is the lower end of the match's
  segment.\<close>

function LZ4HC_back :: "mem \<Rightarrow> addr \<Rightarrow> addr \<Rightarrow> addr \<Rightarrow> addr \<Rightarrow> int \<Rightarrow> int option" where
  "LZ4HC_back m ip iLowLimit matchPtr lim back =
     (if ip + back > iLowLimit \<and> matchPtr + back > lim
      then do { x \<leftarrow> m (ip + back - 1); y \<leftarrow> m (matchPtr + back - 1);
                if x = y then LZ4HC_back m ip iLowLimit matchPtr lim (back - 1) else Some back }
      else Some back)"
  by pat_completeness auto
termination
  by (relation "measure (\<lambda>(m, ip, iLowLimit, matchPtr, lim, back). nat (ip + back - iLowLimit))") auto

declare LZ4HC_back.simps [simp del]

fun LZ4HC_wider_loop ::
  "arch \<Rightarrow> mem \<Rightarrow> LZ4HC_Data_Structure \<Rightarrow> addr \<Rightarrow> addr \<Rightarrow> addr \<Rightarrow> int \<Rightarrow> nat \<Rightarrow> int \<Rightarrow> int \<Rightarrow> addr \<Rightarrow> addr \<Rightarrow>
   (int \<times> addr \<times> addr) option" where
  "LZ4HC_wider_loop a m hc4 ip iLowLimit iHighLimit lowLimit 0 matchIndex longest matchpos startpos =
     Some (longest, matchpos, startpos)"
| "LZ4HC_wider_loop a m hc4 ip iLowLimit iHighLimit lowLimit (Suc nbAttempts) matchIndex longest matchpos startpos =
     (if matchIndex \<ge> lowLimit
      then do { (longest, matchpos, startpos) \<leftarrow>
                  (if matchIndex \<ge> dictLimit hc4
                   then (let matchPtr = hc_base hc4 + matchIndex; delta = ip - iLowLimit in
                         do { x \<leftarrow> m (iLowLimit + longest); y \<leftarrow> m (matchPtr - delta + longest);
                              if x = y
                              then do { u \<leftarrow> LZ4_read32 a m matchPtr; v \<leftarrow> LZ4_read32 a m ip;
                                        if u = v
                                        then do { n \<leftarrow> LZ4_count a m (ip + MINMATCH) (matchPtr + MINMATCH) iHighLimit;
                                                  back \<leftarrow> LZ4HC_back m ip iLowLimit matchPtr (hc_base hc4 + dictLimit hc4) 0;
                                                  let mlt = MINMATCH + n - back;
                                                  Some (if mlt > longest then (mlt, matchPtr + back, ip + back)
                                                        else (longest, matchpos, startpos)) }
                                        else Some (longest, matchpos, startpos) }
                              else Some (longest, matchpos, startpos) })
                   else (let matchPtr = dictBase hc4 + matchIndex in
                         do { u \<leftarrow> LZ4_read32 a m matchPtr; v \<leftarrow> LZ4_read32 a m ip;
                              if u = v
                              then do { mlt \<leftarrow> LZ4HC_dict_match a m hc4 ip matchPtr matchIndex iHighLimit;
                                        back \<leftarrow> LZ4HC_back m ip iLowLimit matchPtr (dictBase hc4 + lowLimit) 0;
                                        let mlt = mlt - back;
                                        Some (if int32 mlt > longest then (int32 mlt, hc_base hc4 + matchIndex + back, ip + back)
                                              else (longest, matchpos, startpos)) }
                              else Some (longest, matchpos, startpos) }));
                LZ4HC_wider_loop a m hc4 ip iLowLimit iHighLimit lowLimit nbAttempts
                  (uns32 (matchIndex - DELTANEXTU16 hc4 matchIndex)) longest matchpos startpos }
      else Some (longest, matchpos, startpos))"

definition LZ4HC_InsertAndGetWiderMatch ::
  "arch \<Rightarrow> mem \<Rightarrow> LZ4HC_Data_Structure \<Rightarrow> addr \<Rightarrow> addr \<Rightarrow> addr \<Rightarrow> int \<Rightarrow> addr \<Rightarrow> addr \<Rightarrow> nat \<Rightarrow>
   (int \<times> addr \<times> addr \<times> LZ4HC_Data_Structure) option" where
  "LZ4HC_InsertAndGetWiderMatch a m hc4 ip iLowLimit iHighLimit longest matchpos startpos maxNbAttempts =
     (let lowLimit = hc_search_low hc4 ip in
      do { hc4 \<leftarrow> LZ4HC_Insert a m hc4 ip;
           h \<leftarrow> LZ4HC_hashPtr a m ip;
           (longest, matchpos, startpos) \<leftarrow>
             LZ4HC_wider_loop a m hc4 ip iLowLimit iHighLimit lowLimit maxNbAttempts (hc_hashTable hc4 h) longest matchpos startpos;
           Some (longest, matchpos, startpos, hc4) })"

section \<open>Emitting a sequence\<close>

text \<open>The limits of a call are those of \<open>enc_ctx\<close> (\<open>e_olimit\<close> is \<open>oend\<close>); \<open>noLimit\<close> of this file is \<open>notLimited\<close>. The
  result holds \<open>ip\<close>, \<open>op\<close> and \<open>anchor\<close>, or \<open>None\<close> where the function returns 1.\<close>

definition LZ4HC_encodeSequence ::
  "arch \<Rightarrow> enc_ctx \<Rightarrow> mem \<Rightarrow> addr \<Rightarrow> addr \<Rightarrow> addr \<Rightarrow> int \<Rightarrow> addr \<Rightarrow> (mem \<times> (addr \<times> addr \<times> addr) option) option" where
  "LZ4HC_encodeSequence a c m ip op anchor matchLength mtch =
     (let length = int32 (ip - anchor); tok = op; op = op + 1 in
      if e_outputLimited c = limitedOutput \<and> op + length div 256 + length + (2 + 1 + LASTLITERALS) > e_olimit c
      then Some (m, None)
      else
      do { (m, op) \<leftarrow>
             (if length \<ge> RUN_MASK
              then do { m \<leftarrow> store8 m tok (word_of_int (RUN_MASK * 16)); write_length m op (length - RUN_MASK) }
              else do { m \<leftarrow> store8 m tok (word_of_int (length * 16)); Some (m, op) });
           m \<leftarrow> LZ4_wildCopy m op anchor (op + length);
           let op = op + length;
           m \<leftarrow> LZ4_writeLE16 a m op (word_of_int (ip - mtch));
           let op = op + 2;
           let length = matchLength - MINMATCH;
           if e_outputLimited c = limitedOutput \<and> op + length div 256 + (1 + LASTLITERALS) > e_olimit c
           then Some (m, None)
           else
           do { t \<leftarrow> m tok;
                (m, op) \<leftarrow>
                  (if length \<ge> ML_MASK
                   then do { m \<leftarrow> store8 m tok (t + 15); write_match_length m op (length - ML_MASK) }
                   else do { m \<leftarrow> store8 m tok (t + word_of_int length); Some (m, op) });
                let ip = ip + matchLength;
                Some (m, Some (ip, op, ip)) } })"

section \<open>The parser\<close>

record hc_vars =
  v_m :: mem
  v_hc :: LZ4HC_Data_Structure
  v_ip :: addr
  v_op :: addr
  v_anchor :: addr
  v_ml :: int
  v_ref :: addr
  v_ml2 :: int
  v_start2 :: addr
  v_ref2 :: addr
  v_ml3 :: int
  v_start3 :: addr
  v_ref3 :: addr
  v_ml0 :: int
  v_start0 :: addr
  v_ref0 :: addr

text \<open>Where control goes: the head of the main loop, the two labels, the last literals, or \<open>return 0\<close>.\<close>

datatype hc_label = MainLoop | Search2 | Search3 | EncodeLast | ReturnZero

text \<open>A call of \<open>LZ4HC_encodeSequence\<close> on the variables of the function, with its result as a truth value.\<close>

definition hc_emit :: "arch \<Rightarrow> enc_ctx \<Rightarrow> hc_vars \<Rightarrow> int \<Rightarrow> addr \<Rightarrow> (bool \<times> hc_vars) option" where
  "hc_emit a c v ml ref =
     do { (m, r) \<leftarrow> LZ4HC_encodeSequence a c (v_m v) (v_ip v) (v_op v) (v_anchor v) ml ref;
          Some (case r of None \<Rightarrow> (True, v\<lparr>v_m := m\<rparr>)
                | Some (ip, op, anchor) \<Rightarrow> (False, v\<lparr>v_m := m, v_ip := ip, v_op := op, v_anchor := anchor\<rparr>)) }"

definition LZ4HC_main_step :: "arch \<Rightarrow> enc_ctx \<Rightarrow> nat \<Rightarrow> hc_vars \<Rightarrow> (hc_label \<times> hc_vars) option" where
  "LZ4HC_main_step a c nb v =
     (if v_ip v < e_mflimit c
      then do { (ml, ref, hc) \<leftarrow> LZ4HC_InsertAndFindBestMatch a (v_m v) (v_hc v) (v_ip v) (e_matchlimit c) (v_ref v) nb;
                let v = v\<lparr>v_ml := ml, v_ref := ref, v_hc := hc\<rparr>;
                Some (if ml = 0 then (MainLoop, v\<lparr>v_ip := v_ip v + 1\<rparr>)
                      else (Search2, v\<lparr>v_start0 := v_ip v, v_ref0 := ref, v_ml0 := ml\<rparr>)) }
      else Some (EncodeLast, v))"

definition LZ4HC_search2_step :: "arch \<Rightarrow> enc_ctx \<Rightarrow> nat \<Rightarrow> hc_vars \<Rightarrow> (hc_label \<times> hc_vars) option" where
  "LZ4HC_search2_step a c nb v =
     do { v \<leftarrow> (if v_ip v + v_ml v < e_mflimit c
                then do { (ml2, ref2, start2, hc) \<leftarrow>
                            LZ4HC_InsertAndGetWiderMatch a (v_m v) (v_hc v) (v_ip v + v_ml v - 2) (v_ip v + 1) (e_matchlimit c)
                              (v_ml v) (v_ref2 v) (v_start2 v) nb;
                          Some (v\<lparr>v_ml2 := ml2, v_ref2 := ref2, v_start2 := start2, v_hc := hc\<rparr>) }
                else Some (v\<lparr>v_ml2 := v_ml v\<rparr>));
          if v_ml2 v = v_ml v
          then do { (full, v) \<leftarrow> hc_emit a c v (v_ml v) (v_ref v); Some (if full then ReturnZero else MainLoop, v) }
          else
          (let v = (if v_start0 v < v_ip v \<and> v_start2 v < v_ip v + v_ml0 v
                    then v\<lparr>v_ip := v_start0 v, v_ref := v_ref0 v, v_ml := v_ml0 v\<rparr> else v)
           in
           if v_start2 v - v_ip v < 3
           then Some (Search2, v\<lparr>v_ml := v_ml2 v, v_ip := v_start2 v, v_ref := v_ref2 v\<rparr>)
           else Some (Search3, v)) }"

text \<open>Moving the start of match 2 forward to where match 1 should end.\<close>

definition hc_move2 :: "hc_vars \<Rightarrow> int \<Rightarrow> hc_vars" where
  "hc_move2 v correction =
     v\<lparr>v_start2 := v_start2 v + correction, v_ref2 := v_ref2 v + correction, v_ml2 := v_ml2 v - correction\<rparr>"

definition hc_new_ml :: "hc_vars \<Rightarrow> int" where
  "hc_new_ml v =
     (let new_ml = v_ml v;
          new_ml = (if new_ml > OPTIMAL_ML then OPTIMAL_ML else new_ml)
      in if v_ip v + new_ml > v_start2 v + v_ml2 v - MINMATCH then (v_start2 v - v_ip v) + v_ml2 v - MINMATCH else new_ml)"

definition hc_optimal :: "hc_vars \<Rightarrow> hc_vars" where
  "hc_optimal v =
     (if v_start2 v - v_ip v < OPTIMAL_ML
      then (let correction = hc_new_ml v - (v_start2 v - v_ip v) in if correction > 0 then hc_move2 v correction else v)
      else v)"

text \<open>Three ascending matches: the length of the first one, and the start of the second.\<close>

definition hc_ascending :: "hc_vars \<Rightarrow> hc_vars" where
  "hc_ascending v =
     (if v_start2 v < v_ip v + v_ml v
      then (if v_start2 v - v_ip v < ML_MASK
            then (let v = v\<lparr>v_ml := hc_new_ml v\<rparr>; correction = v_ml v - (v_start2 v - v_ip v)
                  in if correction > 0 then hc_move2 v correction else v)
            else v\<lparr>v_ml := v_start2 v - v_ip v\<rparr>)
      else v)"

definition LZ4HC_search3_step :: "arch \<Rightarrow> enc_ctx \<Rightarrow> nat \<Rightarrow> hc_vars \<Rightarrow> (hc_label \<times> hc_vars) option" where
  "LZ4HC_search3_step a c nb v0 =
     (let v = hc_optimal v0 in
      do { v \<leftarrow> (if v_start2 v + v_ml2 v < e_mflimit c
                 then do { (ml3, ref3, start3, hc) \<leftarrow>
                             LZ4HC_InsertAndGetWiderMatch a (v_m v) (v_hc v) (v_start2 v + v_ml2 v - 3) (v_start2 v) (e_matchlimit c)
                               (v_ml2 v) (v_ref3 v) (v_start3 v) nb;
                           Some (v\<lparr>v_ml3 := ml3, v_ref3 := ref3, v_start3 := start3, v_hc := hc\<rparr>) }
                 else Some (v\<lparr>v_ml3 := v_ml2 v\<rparr>));
           if v_ml3 v = v_ml2 v
           then (let v = (if v_start2 v < v_ip v + v_ml v then v\<lparr>v_ml := v_start2 v - v_ip v\<rparr> else v) in
                 do { (full, v) \<leftarrow> hc_emit a c v (v_ml v) (v_ref v);
                      if full then Some (ReturnZero, v)
                      else do { (full, v) \<leftarrow> hc_emit a c (v\<lparr>v_ip := v_start2 v\<rparr>) (v_ml2 v) (v_ref2 v);
                                Some (if full then ReturnZero else MainLoop, v) } })
           else if v_start3 v < v_ip v + v_ml v + 3
           then (if v_start3 v \<ge> v_ip v + v_ml v
                 then (let v = (if v_start2 v < v_ip v + v_ml v
                                then (let v = hc_move2 v (v_ip v + v_ml v - v_start2 v) in
                                      if v_ml2 v < MINMATCH
                                      then v\<lparr>v_start2 := v_start3 v, v_ref2 := v_ref3 v, v_ml2 := v_ml3 v\<rparr> else v)
                                else v)
                       in
                       do { (full, v) \<leftarrow> hc_emit a c v (v_ml v) (v_ref v);
                            Some (if full then (ReturnZero, v)
                                  else (Search2, v\<lparr>v_ip := v_start3 v, v_ref := v_ref3 v, v_ml := v_ml3 v,
                                                   v_start0 := v_start2 v, v_ref0 := v_ref2 v, v_ml0 := v_ml2 v\<rparr>)) })
                 else Some (Search3, v\<lparr>v_start2 := v_start3 v, v_ref2 := v_ref3 v, v_ml2 := v_ml3 v\<rparr>))
           else
           (let v = hc_ascending v in
            do { (full, v) \<leftarrow> hc_emit a c v (v_ml v) (v_ref v);
                 Some (if full then (ReturnZero, v)
                       else (Search3, v\<lparr>v_ip := v_start2 v, v_ref := v_ref2 v, v_ml := v_ml2 v,
                                        v_start2 := v_start3 v, v_ref2 := v_ref3 v, v_ml2 := v_ml3 v\<rparr>)) }) })"

fun LZ4HC_step :: "arch \<Rightarrow> enc_ctx \<Rightarrow> nat \<Rightarrow> hc_label \<Rightarrow> hc_vars \<Rightarrow> (hc_label \<times> hc_vars) option" where
  "LZ4HC_step a c nb MainLoop v = LZ4HC_main_step a c nb v"
| "LZ4HC_step a c nb Search2 v = LZ4HC_search2_step a c nb v"
| "LZ4HC_step a c nb Search3 v = LZ4HC_search3_step a c nb v"
| "LZ4HC_step a c nb EncodeLast v = Some (EncodeLast, v)"
| "LZ4HC_step a c nb ReturnZero v = Some (ReturnZero, v)"

partial_function (option) LZ4HC_loop ::
  "arch \<Rightarrow> enc_ctx \<Rightarrow> nat \<Rightarrow> hc_label \<Rightarrow> hc_vars \<Rightarrow> (hc_label \<times> hc_vars) option" where
  "LZ4HC_loop a c nb lab v =
     (if lab = EncodeLast \<or> lab = ReturnZero then Some (lab, v)
      else do { (lab, v) \<leftarrow> LZ4HC_step a c nb lab v; LZ4HC_loop a c nb lab v })"

declare LZ4HC_loop.simps [code]

text \<open>The constants of a call. The prefix of the stream ends where the input starts.\<close>

definition LZ4HC_ctx :: "LZ4HC_Data_Structure \<Rightarrow> addr \<Rightarrow> addr \<Rightarrow> int \<Rightarrow> int \<Rightarrow> limitedOutput_directive \<Rightarrow> enc_ctx" where
  "LZ4HC_ctx ctx source dest inputSize maxOutputSize limit =
     (let iend = source + inputSize in
      \<lparr>e_source = source, e_dest = dest, e_iend = iend, e_mflimit = iend - MFLIMIT, e_matchlimit = iend - LASTLITERALS,
       e_olimit = dest + maxOutputSize, e_maxOutputSize = maxOutputSize, e_base = hc_base ctx,
       e_lowLimit = hc_base ctx + dictLimit ctx, e_lowRefLimit = hc_base ctx + dictLimit ctx, e_dictionary = 0, e_dictEnd = 0, e_dictDelta = 0, e_outputLimited = limit, e_tableType = byPtr,
       e_dict = withPrefix64k, e_dictIssue = noDictIssue, e_acceleration = 1\<rparr>)"

text \<open>\<open>maxNbAttempts\<close> for a compression level.\<close>

definition LZ4HC_maxNbAttempts :: "int \<Rightarrow> nat" where
  "LZ4HC_maxNbAttempts level =
     (let level = (if level > g_maxCompressionLevel then g_maxCompressionLevel else level);
          level = (if level < 1 then LZ4HC_compressionLevel_default else level)
      in 2 ^ nat (level - 1))"

text \<open>The last literals are written as in \<open>LZ4_compress_generic\<close>; a negative \<open>inputSize\<close>, which is not rejected,
  makes the size passed to \<open>memcpy\<close> larger than any buffer.\<close>

definition LZ4HC_compress_generic ::
  "arch \<Rightarrow> mem \<Rightarrow> LZ4HC_Data_Structure \<Rightarrow> addr \<Rightarrow> addr \<Rightarrow> int \<Rightarrow> int \<Rightarrow> int \<Rightarrow> limitedOutput_directive \<Rightarrow>
   (int \<times> mem \<times> LZ4HC_Data_Structure) option" where
  "LZ4HC_compress_generic a m ctx source dest inputSize maxOutputSize level limit =
     (let c = LZ4HC_ctx ctx source dest inputSize maxOutputSize limit;
          ctx = ctx\<lparr>hc_end := hc_end ctx + inputSize\<rparr>;
          v = \<lparr>v_m = m, v_hc = ctx, v_ip = source + 1, v_op = dest, v_anchor = source, v_ml = 0, v_ref = 0, v_ml2 = 0,
               v_start2 = 0, v_ref2 = 0, v_ml3 = 0, v_start3 = 0, v_ref3 = 0, v_ml0 = 0, v_start0 = 0, v_ref0 = 0\<rparr>
      in
      do { (lab, v) \<leftarrow> LZ4HC_loop a c (LZ4HC_maxNbAttempts level) MainLoop v;
           if lab = ReturnZero then Some (0, v_m v, v_hc v)
           else if e_iend c < v_anchor v then None
           else do { (r, m) \<leftarrow> LZ4_last_literals c (v_m v) (v_anchor v) (v_op v); Some (r, m, v_hc v) } })"

section \<open>Entry points\<close>

text \<open>\<open>state\<close> is the address of the structure, which has to be aligned for pointers.\<close>

definition LZ4_compress_HC_extStateHC ::
  "arch \<Rightarrow> mem \<Rightarrow> addr \<Rightarrow> LZ4HC_Data_Structure \<Rightarrow> addr \<Rightarrow> addr \<Rightarrow> int \<Rightarrow> int \<Rightarrow> int \<Rightarrow>
   (int \<times> mem \<times> LZ4HC_Data_Structure) option" where
  "LZ4_compress_HC_extStateHC a m state hc src dst srcSize maxDstSize level =
     (if state mod STEPSIZE a \<noteq> 0 then Some (0, m, hc)
      else
      (let hc = LZ4HC_init hc src in
       if maxDstSize < LZ4_compressBound srcSize
       then LZ4HC_compress_generic a m hc src dst srcSize maxDstSize level limitedOutput
       else LZ4HC_compress_generic a m hc src dst srcSize maxDstSize level notLimited))"

definition LZ4_compress_HC ::
  "arch \<Rightarrow> mem \<Rightarrow> LZ4HC_Data_Structure \<Rightarrow> addr \<Rightarrow> addr \<Rightarrow> int \<Rightarrow> int \<Rightarrow> int \<Rightarrow> (int \<times> mem) option" where
  "LZ4_compress_HC a m hc src dst srcSize maxDstSize level =
     do { (r, m, _) \<leftarrow> LZ4_compress_HC_extStateHC a m 0 hc src dst srcSize maxDstSize level; Some (r, m) }"

definition LZ4_resetStreamHC :: "LZ4HC_Data_Structure \<Rightarrow> int \<Rightarrow> LZ4HC_Data_Structure" where
  "LZ4_resetStreamHC hc level = hc\<lparr>hc_base := 0, compressionLevel := uns32 level\<rparr>"

definition LZ4_loadDictHC ::
  "arch \<Rightarrow> mem \<Rightarrow> LZ4HC_Data_Structure \<Rightarrow> addr \<Rightarrow> int \<Rightarrow> (int \<times> LZ4HC_Data_Structure) option" where
  "LZ4_loadDictHC a m hc dictStart n =
     (let (dictStart, n) = (if n > 64 * KB then (dictStart + (n - 64 * KB), 64 * KB) else (dictStart, n));
          hc = LZ4HC_init hc dictStart
      in
      do { hc \<leftarrow> (if n \<ge> 4 then LZ4HC_Insert a m hc (dictStart + (n - 3)) else Some hc);
           Some (n, hc\<lparr>hc_end := dictStart + n\<rparr>) })"

definition LZ4HC_setExternalDict ::
  "arch \<Rightarrow> mem \<Rightarrow> LZ4HC_Data_Structure \<Rightarrow> addr \<Rightarrow> LZ4HC_Data_Structure option" where
  "LZ4HC_setExternalDict a m hc newBlock =
     do { hc \<leftarrow> (if hc_end hc \<ge> hc_base hc + 4 then LZ4HC_Insert a m hc (hc_end hc - 3) else Some hc);
          let limit = uns32 (hc_end hc - hc_base hc);
          Some (hc\<lparr>hc_lowLimit := dictLimit hc, dictLimit := limit, dictBase := hc_base hc, hc_base := newBlock - limit,
                   hc_end := newBlock, nextToUpdate := limit\<rparr>) }"

definition LZ4HC_checkOverlap :: "LZ4HC_Data_Structure \<Rightarrow> addr \<Rightarrow> int \<Rightarrow> LZ4HC_Data_Structure" where
  "LZ4HC_checkOverlap hc source inputSize =
     (let sourceEnd = source + inputSize; dictBegin = dictBase hc + hc_lowLimit hc; dictEnd = dictBase hc + dictLimit hc in
      if sourceEnd > dictBegin \<and> source < dictEnd
      then (let sourceEnd = (if sourceEnd > dictEnd then dictEnd else sourceEnd);
                low = uns32 (sourceEnd - dictBase hc)
            in hc\<lparr>hc_lowLimit := (if uns32 (dictLimit hc - low) < 4 then dictLimit hc else low)\<rparr>)
      else hc)"

definition LZ4_compressHC_continue_generic ::
  "arch \<Rightarrow> mem \<Rightarrow> LZ4HC_Data_Structure \<Rightarrow> addr \<Rightarrow> addr \<Rightarrow> int \<Rightarrow> int \<Rightarrow> limitedOutput_directive \<Rightarrow>
   (int \<times> mem \<times> LZ4HC_Data_Structure) option" where
  "LZ4_compressHC_continue_generic a m hc source dest inputSize maxOutputSize limit =
     (let hc = (if hc_base hc = 0 then LZ4HC_init hc source else hc) in
      do { hc \<leftarrow> (if (hc_end hc - hc_base hc) mod size_mod a > 2 * 2 ^ 30
                  then (let n = ((hc_end hc - hc_base hc) mod size_mod a - dictLimit hc) mod size_mod a;
                            n = (if n > 64 * KB then 64 * KB else n)
                        in do { (_, hc) \<leftarrow> LZ4_loadDictHC a m hc (hc_end hc - n) (int32 n); Some hc })
                  else Some hc);
           hc \<leftarrow> (if source \<noteq> hc_end hc then LZ4HC_setExternalDict a m hc source else Some hc);
           let hc = LZ4HC_checkOverlap hc source inputSize;
           LZ4HC_compress_generic a m hc source dest inputSize maxOutputSize (int32 (compressionLevel hc)) limit })"

definition LZ4_compress_HC_continue ::
  "arch \<Rightarrow> mem \<Rightarrow> LZ4HC_Data_Structure \<Rightarrow> addr \<Rightarrow> addr \<Rightarrow> int \<Rightarrow> int \<Rightarrow> (int \<times> mem \<times> LZ4HC_Data_Structure) option" where
  "LZ4_compress_HC_continue a m hc source dest inputSize maxOutputSize =
     (if maxOutputSize < LZ4_compressBound inputSize
      then LZ4_compressHC_continue_generic a m hc source dest inputSize maxOutputSize limitedOutput
      else LZ4_compressHC_continue_generic a m hc source dest inputSize maxOutputSize notLimited)"

definition LZ4_saveDictHC ::
  "mem \<Rightarrow> LZ4HC_Data_Structure \<Rightarrow> addr \<Rightarrow> int \<Rightarrow> (int \<times> mem \<times> LZ4HC_Data_Structure) option" where
  "LZ4_saveDictHC m hc safeBuffer n =
     (let prefixSize = int32 (hc_end hc - (hc_base hc + dictLimit hc));
          n = (if n > 64 * KB then 64 * KB else n);
          n = (if n < 4 then 0 else n);
          n = (if n > prefixSize then prefixSize else n)
      in
      do { m \<leftarrow> memcpy m safeBuffer (hc_end hc - n) (nat n);
           let endIndex = uns32 (hc_end hc - hc_base hc);
           let hc = hc\<lparr>hc_end := safeBuffer + n, hc_base := safeBuffer + n - endIndex, dictLimit := uns32 (endIndex - n),
                       hc_lowLimit := uns32 (endIndex - n)\<rparr>;
           Some (n, m, (if nextToUpdate hc < dictLimit hc then hc\<lparr>nextToUpdate := dictLimit hc\<rparr> else hc)) })"

section \<open>Deprecated functions\<close>

definition LZ4_compressHC ::
  "arch \<Rightarrow> mem \<Rightarrow> LZ4HC_Data_Structure \<Rightarrow> addr \<Rightarrow> addr \<Rightarrow> int \<Rightarrow> (int \<times> mem) option" where
  "LZ4_compressHC a m hc src dst srcSize = LZ4_compress_HC a m hc src dst srcSize (LZ4_compressBound srcSize) 0"

definition LZ4_compressHC_limitedOutput ::
  "arch \<Rightarrow> mem \<Rightarrow> LZ4HC_Data_Structure \<Rightarrow> addr \<Rightarrow> addr \<Rightarrow> int \<Rightarrow> int \<Rightarrow> (int \<times> mem) option" where
  "LZ4_compressHC_limitedOutput a m hc src dst srcSize maxDstSize = LZ4_compress_HC a m hc src dst srcSize maxDstSize 0"

definition LZ4_compressHC2 ::
  "arch \<Rightarrow> mem \<Rightarrow> LZ4HC_Data_Structure \<Rightarrow> addr \<Rightarrow> addr \<Rightarrow> int \<Rightarrow> int \<Rightarrow> (int \<times> mem) option" where
  "LZ4_compressHC2 a m hc src dst srcSize cLevel = LZ4_compress_HC a m hc src dst srcSize (LZ4_compressBound srcSize) cLevel"

definition LZ4_compressHC2_limitedOutput ::
  "arch \<Rightarrow> mem \<Rightarrow> LZ4HC_Data_Structure \<Rightarrow> addr \<Rightarrow> addr \<Rightarrow> int \<Rightarrow> int \<Rightarrow> int \<Rightarrow> (int \<times> mem) option" where
  "LZ4_compressHC2_limitedOutput a m hc src dst srcSize maxDstSize cLevel = LZ4_compress_HC a m hc src dst srcSize maxDstSize cLevel"

definition LZ4_compressHC_withStateHC ::
  "arch \<Rightarrow> mem \<Rightarrow> addr \<Rightarrow> LZ4HC_Data_Structure \<Rightarrow> addr \<Rightarrow> addr \<Rightarrow> int \<Rightarrow> (int \<times> mem \<times> LZ4HC_Data_Structure) option" where
  "LZ4_compressHC_withStateHC a m state hc src dst srcSize =
     LZ4_compress_HC_extStateHC a m state hc src dst srcSize (LZ4_compressBound srcSize) 0"

definition LZ4_compressHC_limitedOutput_withStateHC ::
  "arch \<Rightarrow> mem \<Rightarrow> addr \<Rightarrow> LZ4HC_Data_Structure \<Rightarrow> addr \<Rightarrow> addr \<Rightarrow> int \<Rightarrow> int \<Rightarrow> (int \<times> mem \<times> LZ4HC_Data_Structure) option" where
  "LZ4_compressHC_limitedOutput_withStateHC a m state hc src dst srcSize maxDstSize =
     LZ4_compress_HC_extStateHC a m state hc src dst srcSize maxDstSize 0"

definition LZ4_compressHC2_withStateHC ::
  "arch \<Rightarrow> mem \<Rightarrow> addr \<Rightarrow> LZ4HC_Data_Structure \<Rightarrow> addr \<Rightarrow> addr \<Rightarrow> int \<Rightarrow> int \<Rightarrow> (int \<times> mem \<times> LZ4HC_Data_Structure) option" where
  "LZ4_compressHC2_withStateHC a m state hc src dst srcSize cLevel =
     LZ4_compress_HC_extStateHC a m state hc src dst srcSize (LZ4_compressBound srcSize) cLevel"

definition LZ4_compressHC2_limitedOutput_withStateHC ::
  "arch \<Rightarrow> mem \<Rightarrow> addr \<Rightarrow> LZ4HC_Data_Structure \<Rightarrow> addr \<Rightarrow> addr \<Rightarrow> int \<Rightarrow> int \<Rightarrow> int \<Rightarrow>
   (int \<times> mem \<times> LZ4HC_Data_Structure) option" where
  "LZ4_compressHC2_limitedOutput_withStateHC a m state hc src dst srcSize maxDstSize cLevel =
     LZ4_compress_HC_extStateHC a m state hc src dst srcSize maxDstSize cLevel"

definition LZ4_compressHC_continue ::
  "arch \<Rightarrow> mem \<Rightarrow> LZ4HC_Data_Structure \<Rightarrow> addr \<Rightarrow> addr \<Rightarrow> int \<Rightarrow> (int \<times> mem \<times> LZ4HC_Data_Structure) option" where
  "LZ4_compressHC_continue a m ctx src dst srcSize = LZ4_compress_HC_continue a m ctx src dst srcSize (LZ4_compressBound srcSize)"

definition LZ4_compressHC_limitedOutput_continue ::
  "arch \<Rightarrow> mem \<Rightarrow> LZ4HC_Data_Structure \<Rightarrow> addr \<Rightarrow> addr \<Rightarrow> int \<Rightarrow> int \<Rightarrow> (int \<times> mem \<times> LZ4HC_Data_Structure) option" where
  "LZ4_compressHC_limitedOutput_continue a m ctx src dst srcSize maxDstSize = LZ4_compress_HC_continue a m ctx src dst srcSize maxDstSize"

definition LZ4_resetStreamStateHC ::
  "arch \<Rightarrow> addr \<Rightarrow> LZ4HC_Data_Structure \<Rightarrow> addr \<Rightarrow> int \<times> LZ4HC_Data_Structure" where
  "LZ4_resetStreamStateHC a state hc inputBuf =
     (if state mod STEPSIZE a \<noteq> 0 then (1, hc) else (0, (LZ4HC_init hc inputBuf)\<lparr>inputBuffer := inputBuf\<rparr>))"

definition LZ4_compressHC2_continue ::
  "arch \<Rightarrow> mem \<Rightarrow> LZ4HC_Data_Structure \<Rightarrow> addr \<Rightarrow> addr \<Rightarrow> int \<Rightarrow> int \<Rightarrow> (int \<times> mem \<times> LZ4HC_Data_Structure) option" where
  "LZ4_compressHC2_continue a m hc source dest inputSize level =
     LZ4HC_compress_generic a m hc source dest inputSize 0 level notLimited"

definition LZ4_compressHC2_limitedOutput_continue ::
  "arch \<Rightarrow> mem \<Rightarrow> LZ4HC_Data_Structure \<Rightarrow> addr \<Rightarrow> addr \<Rightarrow> int \<Rightarrow> int \<Rightarrow> int \<Rightarrow> (int \<times> mem \<times> LZ4HC_Data_Structure) option" where
  "LZ4_compressHC2_limitedOutput_continue a m hc source dest inputSize maxOutputSize level =
     LZ4HC_compress_generic a m hc source dest inputSize maxOutputSize level limitedOutput"

definition LZ4_slideInputBufferHC ::
  "mem \<Rightarrow> LZ4HC_Data_Structure \<Rightarrow> (addr \<times> mem \<times> LZ4HC_Data_Structure) option" where
  "LZ4_slideInputBufferHC m hc4 =
     do { (n, m, hc) \<leftarrow> LZ4_saveDictHC m hc4 (inputBuffer hc4) (64 * KB); Some (inputBuffer hc4 + n, m, hc) }"

end
