(* ===== verification/Lz4_HC_Correct.thy ===== *)
theory Lz4_HC_Correct
  imports Lz4_HC
begin

text \<open>
  Correctness of \<open>LZ4HC_compress_generic\<close> with the history directly before the input: the chains lead
  downwards and stay in range, the two searches return matches of the format, a sequence is
  emitted inside the buffer, the invariant of each label of the parser is kept, and the parser
  terminates.
\<close>

section \<open>The chains\<close>

text \<open>Both tables hold positions, or distances, that lead strictly downwards from \<open>idx\<close>; \<open>dictLimit\<close> is at least
  as large as a distance, so a chain never passes below zero.\<close>

definition chain_ok :: "LZ4HC_Data_Structure \<Rightarrow> int \<Rightarrow> bool" where
  "chain_ok hc idx \<longleftrightarrow>
     (\<forall>h. 0 \<le> hc_hashTable hc h \<and> hc_hashTable hc h < idx) \<and> (\<forall>i. 0 \<le> chainTable hc i \<and> chainTable hc i \<le> 65535)"

text \<open>A structure whose prefix is the history and the input, without an external dictionary, indexed below \<open>lim\<close>.\<close>

definition hc_ok :: "enc_ctx \<Rightarrow> byte list \<Rightarrow> addr \<Rightarrow> LZ4HC_Data_Structure \<Rightarrow> bool" where
  "hc_ok c hist lim hc \<longleftrightarrow>
     hc_base hc + dictLimit hc = vbase c hist \<and> hc_lowLimit hc = dictLimit hc \<and> 65535 \<le> dictLimit hc \<and>
     dictLimit hc \<le> nextToUpdate hc \<and> hc_base hc + nextToUpdate hc \<le> lim \<and> e_iend c - hc_base hc < 4294901760 \<and>
     chain_ok hc (nextToUpdate hc)"

text \<open>The fields a search does not change.\<close>

definition hc_kept :: "LZ4HC_Data_Structure \<Rightarrow> LZ4HC_Data_Structure \<Rightarrow> bool" where
  "hc_kept hc hc' \<longleftrightarrow>
     hc_base hc' = hc_base hc \<and> dictBase hc' = dictBase hc \<and> dictLimit hc' = dictLimit hc \<and> hc_lowLimit hc' = hc_lowLimit hc \<and>
     hc_end hc' = hc_end hc \<and> compressionLevel hc' = compressionLevel hc \<and> inputBuffer hc' = inputBuffer hc"

lemma hc_kept_refl [simp]: "hc_kept hc hc"
  by (simp add: hc_kept_def)

lemma hc_kept_trans: "hc_kept x y \<Longrightarrow> hc_kept y z \<Longrightarrow> hc_kept x z"
  by (simp add: hc_kept_def)

lemma hc_ok_mono: "hc_ok c hist lim hc \<Longrightarrow> lim \<le> lim' \<Longrightarrow> hc_ok c hist lim' hc"
  by (simp add: hc_ok_def)

text \<open>The hash indexes the table of \<open>2 ^ 15\<close> entries.\<close>

lemma HASH_FUNCTION_bound: "uint (HASH_FUNCTION x) < 2 ^ HASH_LOG"
proof -
  have "unat (HASH_FUNCTION x) < 2 ^ 15"
    unfolding HASH_FUNCTION_def by (rule unat_drop_bit_less) (use unsigned_less [where 'b = 32 and 'a = nat, of "x * 2654435761"] in simp)
  then have "int (unat (HASH_FUNCTION x)) < int (2 ^ 15)" by (simp only: of_nat_less_iff)
  then show ?thesis by simp
qed

lemma LZ4HC_hashPtr_ok:
  assumes "mapped m p (p + 4)"
  shows "\<exists>h. LZ4HC_hashPtr a m p = Some h"
proof -
  from okD [OF load_bytes_ok [of m p 4]] assms obtain bs where "load_bytes m p 4 = Some bs" by auto
  then show ?thesis by (simp add: LZ4HC_hashPtr_def LZ4_read32_def)
qed

lemma LZ4HC_Insert_loop_ok:
  assumes "mapped m (hc_base hc + idx) (hc_base hc + target + 3)" "0 \<le> idx" "idx \<le> target" "target < 4294967296" "chain_ok hc idx"
  shows "ok (\<lambda>hc'. chain_ok hc' target \<and> hc_kept hc hc') (LZ4HC_Insert_loop a m hc idx target)"
  using assms
proof (induction a m hc idx target rule: LZ4HC_Insert_loop.induct)
  case (1 a m hc idx target)
  show ?case
  proof (cases "idx < target")
    case False
    with "1.prems" show ?thesis by (subst LZ4HC_Insert_loop.simps) simp
  next
    case True
    have "mapped m (hc_base hc + idx) (hc_base hc + idx + 4)" by (rule mapped_mono [OF "1.prems"(1)]) (use True in auto)
    from LZ4HC_hashPtr_ok [OF this] obtain h where h: "LZ4HC_hashPtr a m (hc_base hc + idx) = Some h" by blast
    define d where "d = (if uns32 (idx - hc_hashTable hc h) > MAX_DISTANCE then MAX_DISTANCE else uns32 (idx - hc_hashTable hc h))"
    have d: "0 \<le> d" "d \<le> 65535" using uns32_bounds [of "idx - hc_hashTable hc h"] by (auto simp: d_def Let_def)
    define hc1 where "hc1 = hc\<lparr>chainTable := (chainTable hc)(idx mod 2 ^ 16 := d mod 2 ^ 16), hc_hashTable := (hc_hashTable hc)(h := idx)\<rparr>"
    have c1: "chain_ok hc1 (idx + 1)" using "1.prems"(2,5) d by (auto simp: chain_ok_def hc1_def less_imp_le intro: le_less_trans)
    have k1: "hc_kept hc hc1" "hc_base hc1 = hc_base hc" by (simp_all add: hc1_def hc_kept_def)
    have "ok (\<lambda>hc'. chain_ok hc' target \<and> hc_kept hc1 hc') (LZ4HC_Insert_loop a m hc1 (idx + 1) target)"
      unfolding hc1_def d_def
      by (rule "1.IH" [OF True h refl refl])
         (use "1.prems" True c1 [unfolded hc1_def d_def] in \<open>auto elim: mapped_mono simp: k1\<close>)
    then have "ok (\<lambda>hc'. chain_ok hc' target \<and> hc_kept hc hc') (LZ4HC_Insert_loop a m hc1 (idx + 1) target)"
      by (rule ok_mono) (use k1(1) hc_kept_trans in blast)
    then show ?thesis
      by (subst LZ4HC_Insert_loop.simps) (simp add: True h hc1_def d_def Let_def)
  qed
qed


lemma LZ4HC_Insert_ok:
  assumes I: "hc_ok c hist ip hc" and mp: "mapped m (vbase c hist) (e_iend c)" and ip: "ip + 4 \<le> e_iend c"
  shows "ok (\<lambda>hc'. hc_ok c hist ip hc' \<and> hc_kept hc hc' \<and> nextToUpdate hc' = ip - hc_base hc) (LZ4HC_Insert a m hc ip)"
proof -
  let ?t = "ip - hc_base hc"
  have t: "nextToUpdate hc \<le> ?t" "0 \<le> ?t" "?t < 4294967296" using I ip by (auto simp: hc_ok_def)
  have "ok (\<lambda>hc'. chain_ok hc' ?t \<and> hc_kept hc hc') (LZ4HC_Insert_loop a m hc (nextToUpdate hc) ?t)"
    by (rule LZ4HC_Insert_loop_ok) (use I t ip in \<open>auto simp: hc_ok_def intro: mapped_mono [OF mp]\<close>)
  then show ?thesis
    using I t by (auto simp: LZ4HC_Insert_def Let_def hc_ok_def hc_kept_def chain_ok_def elim!: ok_mono)
qed

text \<open>The lowest position that is searched: in the history, and not further away than a 16-bit offset.\<close>

lemma hc_search_low_ok:
  assumes "hc_ok c hist ip hc" "ip \<le> e_iend c"
  shows "dictLimit hc \<le> hc_search_low hc ip" "ip - hc_base hc - 65535 \<le> hc_search_low hc ip"
proof -
  have t: "0 \<le> ip - hc_base hc" "ip - hc_base hc < 4294967296" "uns32 (ip - hc_base hc) = ip - hc_base hc"
    using assms by (auto simp: hc_ok_def)
  show "dictLimit hc \<le> hc_search_low hc ip" "ip - hc_base hc - 65535 \<le> hc_search_low hc ip"
    using assms t uns32_bounds [of "dictLimit hc + 65536"]
    by (auto simp: hc_search_low_def hc_ok_def uns32_def)
qed

section \<open>The searches\<close>

text \<open>A match the encoder may use: \<open>l\<close> bytes at \<open>s\<close> repeat those at \<open>r\<close>.\<close>

definition hc_match :: "enc_ctx \<Rightarrow> byte list \<Rightarrow> byte list \<Rightarrow> addr \<Rightarrow> addr \<Rightarrow> int \<Rightarrow> bool" where
  "hc_match c hist src s r l \<longleftrightarrow>
     cand c hist s r \<and> 4 \<le> l \<and> s + l \<le> e_matchlimit c \<and> same c hist src s r l \<and> e_source c \<le> s"

text \<open>The environment of a search: the history directly before the input.\<close>

definition hc_env :: "enc_ctx \<Rightarrow> byte list \<Rightarrow> byte list \<Rightarrow> addr \<Rightarrow> mem \<Rightarrow> bool" where
  "hc_env c hist src oend m \<longleftrightarrow> enc_env c hist src oend m \<and> e_dict c = withPrefix64k"

lemma hc_env_read:
  assumes "hc_env c hist src oend m" "vbase c hist \<le> x" "x < e_iend c"
  shows "m x = Some (byte_of c hist src x)"
  using assms phys_read [of c hist src oend m x] by (simp add: hc_env_def phys_def)

lemma hc_env_mapped: "hc_env c hist src oend m \<Longrightarrow> mapped m (vbase c hist) (e_iend c)"
  by (rule mappedI) (simp add: hc_env_read)

lemma hc_env_limits: "hc_env c hist src oend m \<Longrightarrow> e_mflimit c = e_iend c - 12 \<and> e_matchlimit c = e_iend c - 5"
  by (simp add: hc_env_def enc_env_def)

text \<open>The common part of both searches: the four-byte test and the forward extension.\<close>

lemma hc_test_ok:
  assumes E: "hc_env c hist src oend m" and C: "cand c hist ip r" and ip: "e_source c \<le> ip" "ip \<le> e_mflimit c"
  shows "\<exists>x y n. LZ4_read32 a m r = Some x \<and> LZ4_read32 a m ip = Some y \<and>
           LZ4_count a m (ip + 4) (r + 4) (e_matchlimit c) = Some n \<and> 0 \<le> n \<and>
           (x = y \<longrightarrow> hc_match c hist src ip r (n + 4))"
proof -
  note lim = hc_env_limits [OF E]
  have E': "enc_env c hist src oend m" and dct: "e_dict c = withPrefix64k" using E by (simp_all add: hc_env_def)
  have ref: "enc_ref c r = (0, e_lowLimit c)" using dct by (simp add: enc_ref_def)
  have len: "e_iend c - e_source c < 4294967296" using E' by (simp add: enc_env_def)
  obtain x y where xy: "LZ4_read32 a m r = Some x" "LZ4_read32 a m ip = Some y" "x = y \<longrightarrow> same c hist src ip r 4"
    using read32_test [OF E' C ref ip(1), of a] ip lim by auto
  have r: "vbase c hist \<le> r" "r < ip" using C by (simp_all add: cand_def)
  have "ok (longest_common m (ip + 4) (r + 4) (e_matchlimit c)) (LZ4_count a m (ip + 4) (r + 4) (e_matchlimit c))"
    by (rule LZ4_count_ok) (use ip lim r len in \<open>auto intro: mapped_mono [OF hc_env_mapped [OF E]]\<close>)
  then obtain n where n: "LZ4_count a m (ip + 4) (r + 4) (e_matchlimit c) = Some n"
    "longest_common m (ip + 4) (r + 4) (e_matchlimit c) n" by (blast dest: okD)
  have n2: "0 \<le> n" "ip + 4 + n \<le> e_matchlimit c" "common m (ip + 4) (phys c (r + 4)) n"
    using n(2) dct by (auto simp: longest_common_def phys_def)
  have "same c hist src (ip + 4) (r + 4) n"
    by (rule common_same [OF E']) (use n2 ip r lim dct in auto)
  then have "same c hist src ip r (n + 4)" if "x = y" using xy(3) that same_append [of c hist src ip r 4 n] by (simp add: add.commute)
  then show ?thesis using xy n n2 C ip by (auto simp: hc_match_def)
qed

lemma hc_cand:
  assumes I: "hc_ok c hist ip hc" and i: "hc_search_low hc ip \<le> i" "i < ip - hc_base hc" and ip: "ip \<le> e_iend c" and E: "hc_env c hist src oend m"
  shows "cand c hist ip (hc_base hc + i)" "dictLimit hc \<le> i"
  using hc_search_low_ok [OF I ip] I i E by (auto simp: cand_def hc_ok_def hc_env_def)

text \<open>Following the chain leads downwards.\<close>

lemma hc_next_index:
  assumes I: "hc_ok c hist ip hc" and i: "dictLimit hc \<le> i" "i < ip - hc_base hc" and ip: "ip \<le> e_iend c"
  shows "uns32 (i - DELTANEXTU16 hc i) = i - DELTANEXTU16 hc i" "0 \<le> i - DELTANEXTU16 hc i" "i - DELTANEXTU16 hc i < ip - hc_base hc"
proof -
  have d: "0 \<le> DELTANEXTU16 hc i" "DELTANEXTU16 hc i \<le> 65535" using I by (auto simp: hc_ok_def chain_ok_def DELTANEXTU16_def)
  have b: "65535 \<le> dictLimit hc" "e_iend c - hc_base hc < 4294967296" using I by (auto simp: hc_ok_def)
  show "0 \<le> i - DELTANEXTU16 hc i" "i - DELTANEXTU16 hc i < ip - hc_base hc" using d b i by auto
  show "uns32 (i - DELTANEXTU16 hc i) = i - DELTANEXTU16 hc i" by (rule uns32_id) (use d b i ip in auto)
qed

lemma LZ4HC_best_loop_ok:
  assumes E: "hc_env c hist src oend m" and I: "hc_ok c hist ip hc" and ip: "e_source c \<le> ip" "ip \<le> e_mflimit c"
  shows "0 \<le> i \<Longrightarrow> i < ip - hc_base hc \<Longrightarrow> ml = 0 \<or> hc_match c hist src ip mp ml \<Longrightarrow>
    ok (\<lambda>(ml', mp'). ml' = 0 \<or> hc_match c hist src ip mp' ml')
       (LZ4HC_best_loop a m hc ip (e_matchlimit c) (hc_search_low hc ip) nb i ml mp)"
proof (induction nb arbitrary: i ml mp)
  case (Suc nb)
  note lim = hc_env_limits [OF E]
  have ipe: "ip \<le> e_iend c" using lim ip by simp
  show ?case
  proof (cases "hc_search_low hc ip \<le> i")
    case True
    let ?r = "hc_base hc + i"
    have C: "cand c hist ip ?r" "dictLimit hc \<le> i" using hc_cand [OF I True Suc.prems(2) ipe E] by auto
    then have r: "vbase c hist \<le> ?r" "?r < ip" by (simp_all add: cand_def)
    obtain x y n where t: "LZ4_read32 a m ?r = Some x" "LZ4_read32 a m ip = Some y"
        "LZ4_count a m (ip + 4) (?r + 4) (e_matchlimit c) = Some n" "0 \<le> n" "x = y \<longrightarrow> hc_match c hist src ip ?r (n + 4)"
      using hc_test_ok [OF E C(1) ip, of a] by blast
    have ml: "0 \<le> ml" "ip + ml < e_iend c" using Suc.prems(3) ip lim by (auto simp: hc_match_def)
    have rd: "m (?r + ml) = Some (byte_of c hist src (?r + ml))" "m (ip + ml) = Some (byte_of c hist src (ip + ml))"
      using r ml ip by (auto intro!: hc_env_read [OF E])
    note nx = hc_next_index [OF I C(2) Suc.prems(2) ipe]
    have IH: "ok (\<lambda>(ml', mp'). ml' = 0 \<or> hc_match c hist src ip mp' ml')
        (LZ4HC_best_loop a m hc ip (e_matchlimit c) (hc_search_low hc ip) nb (uns32 (i - DELTANEXTU16 hc i)) ml1 mp1)"
      if "ml1 = 0 \<or> hc_match c hist src ip mp1 ml1" for ml1 mp1
      unfolding nx(1) by (rule Suc.IH [OF nx(2,3) that])
    show ?thesis
      using True C(2) rd t IH [OF Suc.prems(3)] IH [of "n + 4" ?r] by (simp add: Let_def)
  next
    case False
    then show ?thesis using Suc.prems(3) by simp
  qed
qed simp

text \<open>Both searches start by inserting the positions before \<open>ip\<close> and looking up its hash.\<close>

lemma hc_start:
  assumes E: "hc_env c hist src oend m" and I: "hc_ok c hist ip hc" and ip: "e_source c \<le> ip" "ip \<le> e_mflimit c"
  obtains hc' h where "LZ4HC_Insert a m hc ip = Some hc'" "LZ4HC_hashPtr a m ip = Some h" "hc_ok c hist ip hc'" "hc_kept hc hc'"
    "hc_search_low hc ip = hc_search_low hc' ip" "0 \<le> hc_hashTable hc' h" "hc_hashTable hc' h < ip - hc_base hc'"
proof -
  have ip4: "ip + 4 \<le> e_iend c" using ip hc_env_limits [OF E] by simp
  obtain hc1 where i1: "LZ4HC_Insert a m hc ip = Some hc1" "hc_ok c hist ip hc1" "hc_kept hc hc1" "nextToUpdate hc1 = ip - hc_base hc"
    using okD [OF LZ4HC_Insert_ok [OF I hc_env_mapped [OF E] ip4, of a]] by blast
  have "mapped m ip (ip + 4)" by (rule mapped_mono [OF hc_env_mapped [OF E]]) (use ip ip4 in auto)
  then obtain h where h: "LZ4HC_hashPtr a m ip = Some h" using LZ4HC_hashPtr_ok by blast
  have "hc_search_low hc ip = hc_search_low hc1 ip" "hc_base hc1 = hc_base hc" using i1(3) by (simp_all add: hc_search_low_def hc_kept_def)
  with i1 h show ?thesis by (intro that [of hc1 h]) (auto simp: hc_ok_def chain_ok_def)
qed

lemma LZ4HC_InsertAndFindBestMatch_ok:
  assumes E: "hc_env c hist src oend m" and I: "hc_ok c hist ip hc" and ip: "e_source c \<le> ip" "ip \<le> e_mflimit c"
  shows "ok (\<lambda>(ml, ref, hc'). (ml = 0 \<or> hc_match c hist src ip ref ml) \<and> hc_ok c hist ip hc' \<and> hc_kept hc hc')
           (LZ4HC_InsertAndFindBestMatch a m hc ip (e_matchlimit c) ref0 nb)"
proof -
  from hc_start [OF E I ip, of a] obtain hc1 h where s: "LZ4HC_Insert a m hc ip = Some hc1" "LZ4HC_hashPtr a m ip = Some h"
    "hc_ok c hist ip hc1" "hc_kept hc hc1" "hc_search_low hc ip = hc_search_low hc1 ip"
    "0 \<le> hc_hashTable hc1 h" "hc_hashTable hc1 h < ip - hc_base hc1" .
  from LZ4HC_best_loop_ok [OF E s(3) ip s(6,7), of 0 ref0 a nb] s show ?thesis
    by (auto simp: LZ4HC_InsertAndFindBestMatch_def Let_def elim!: ok_mono)
qed

lemma LZ4HC_back_ok:
  assumes E: "hc_env c hist src oend m" and ip: "e_source c \<le> low" "ip < e_iend c" and C: "cand c hist ip r"
  shows "b \<le> 0 \<Longrightarrow> low \<le> ip + b \<Longrightarrow> vbase c hist \<le> r + b \<Longrightarrow> same c hist src (ip + b) (r + b) (- b) \<Longrightarrow>
    ok (\<lambda>b'. b' \<le> 0 \<and> low \<le> ip + b' \<and> vbase c hist \<le> r + b' \<and> same c hist src (ip + b') (r + b') (- b'))
       (LZ4HC_back m ip low r (vbase c hist) b)"
proof (induction "nat (ip + b - low)" arbitrary: b rule: less_induct)
  case less
  show ?case
  proof (cases "ip + b > low \<and> r + b > vbase c hist")
    case False
    then show ?thesis using less.prems by (subst LZ4HC_back.simps) auto
  next
    case True
    have "r < ip" using C by (simp add: cand_def)
    then have rd: "m (ip + b - 1) = Some (byte_of c hist src (ip + b - 1))" "m (r + b - 1) = Some (byte_of c hist src (r + b - 1))"
      using True ip less.prems by (auto intro!: hc_env_read [OF E])
    show ?thesis
    proof (cases "byte_of c hist src (ip + b - 1) = byte_of c hist src (r + b - 1)")
      case eq: True
      have "same c hist src (ip + (b - 1)) (r + (b - 1)) (1 + - b)"
        by (rule same_append) (use same_1 [of c hist src "ip + (b - 1)" "r + (b - 1)"] eq less.prems in \<open>simp_all add: algebra_simps\<close>)
      then have "ok (\<lambda>b'. b' \<le> 0 \<and> low \<le> ip + b' \<and> vbase c hist \<le> r + b' \<and> same c hist src (ip + b') (r + b') (- b'))
          (LZ4HC_back m ip low r (vbase c hist) (b - 1))"
        by (intro less.hyps) (use True less.prems in auto)
      then show ?thesis using True rd eq by (subst LZ4HC_back.simps) simp
    next
      case False
      then show ?thesis using True rd less.prems by (subst LZ4HC_back.simps) simp
    qed
  qed
qed

text \<open>What the second search returns: the arguments, or a longer match that starts at or after \<open>low\<close> and covers the
  four bytes at \<open>ip\<close>.\<close>

definition wider :: "enc_ctx \<Rightarrow> byte list \<Rightarrow> byte list \<Rightarrow> addr \<Rightarrow> addr \<Rightarrow> int \<times> addr \<times> addr \<Rightarrow> int \<times> addr \<times> addr \<Rightarrow> bool" where
  "wider c hist src low ip x0 x \<longleftrightarrow>
     x = x0 \<or> fst x0 < fst x \<and> hc_match c hist src (snd (snd x)) (fst (snd x)) (fst x) \<and>
       low \<le> snd (snd x) \<and> snd (snd x) \<le> ip \<and> ip + 4 \<le> snd (snd x) + fst x"

lemma hc_match_extend:
  assumes M: "hc_match c hist src ip r n" and b: "b \<le> 0" "e_source c \<le> ip + b" "vbase c hist \<le> r + b" "same c hist src (ip + b) (r + b) (- b)"
    and d: "e_dict c = withPrefix64k"
  shows "hc_match c hist src (ip + b) (r + b) (n - b)"
proof -
  have "same c hist src (ip + b) (r + b) (- b + n)"
    by (rule same_append [OF b(4)]) (use M in \<open>simp add: hc_match_def\<close>)
  then show ?thesis using M b d by (auto simp: hc_match_def cand_def)
qed

lemma LZ4HC_wider_loop_ok:
  assumes E: "hc_env c hist src oend m" and I: "hc_ok c hist ip hc" and ip: "e_source c \<le> low" "low \<le> ip" "ip \<le> e_mflimit c"
    and l0: "ip - low \<le> l0" "low + l0 < e_iend c"
  shows "0 \<le> i \<Longrightarrow> i < ip - hc_base hc \<Longrightarrow> wider c hist src low ip (l0, r0, s0) (l, r, s) \<Longrightarrow>
    ok (wider c hist src low ip (l0, r0, s0))
       (LZ4HC_wider_loop a m hc ip low (e_matchlimit c) (hc_search_low hc ip) nb i l r s)"
proof (induction nb arbitrary: i l r s)
  case (Suc nb)
  note lim = hc_env_limits [OF E]
  have ips: "e_source c \<le> ip" "ip < e_iend c" "ip \<le> e_iend c" using lim ip by auto
  show ?case
  proof (cases "hc_search_low hc ip \<le> i")
    case True
    let ?r = "hc_base hc + i"
    have C: "cand c hist ip ?r" "dictLimit hc \<le> i" using hc_cand [OF I True Suc.prems(2) ips(3) E] by auto
    then have rr: "vbase c hist \<le> ?r" "?r < ip" by (simp_all add: cand_def)
    obtain x y n where t: "LZ4_read32 a m ?r = Some x" "LZ4_read32 a m ip = Some y"
        "LZ4_count a m (ip + 4) (?r + 4) (e_matchlimit c) = Some n" "0 \<le> n" "x = y \<longrightarrow> hc_match c hist src ip ?r (n + 4)"
      using hc_test_ok [OF E C(1) ips(1) ip(3), of a] by blast
    have "low + l < e_iend c" "l0 \<le> l"
      using Suc.prems(3) l0 lim by (auto simp: wider_def hc_match_def)
    then have rd: "m (low + l) = Some (byte_of c hist src (low + l))"
        "m (?r - (ip - low) + l) = Some (byte_of c hist src (?r - (ip - low) + l))"
      using rr l0 ip by (auto intro!: hc_env_read [OF E])
    have "vbase c hist = hc_base hc + dictLimit hc" using I by (simp add: hc_ok_def)
    then obtain b where b: "LZ4HC_back m ip low ?r (hc_base hc + dictLimit hc) 0 = Some b" "b \<le> 0" "low \<le> ip + b"
        "vbase c hist \<le> ?r + b" "same c hist src (ip + b) (?r + b) (- b)"
      using okD [OF LZ4HC_back_ok [OF E ip(1) ips(2) C(1), of 0]] ip rr by (auto simp: same_def)
    have M: "wider c hist src low ip (l0, r0, s0) (4 + n - b, ?r + b, ip + b)" if "x = y" "4 + n - b > l"
    proof -
      have "hc_match c hist src (ip + b) (?r + b) (n + 4 - b)"
        by (rule hc_match_extend) (use that t(5) b ip E in \<open>auto simp: hc_env_def\<close>)
      then show ?thesis using that \<open>l0 \<le> l\<close> b t(4) by (auto simp: wider_def add.commute)
    qed
    note nx = hc_next_index [OF I C(2) Suc.prems(2) ips(3)]
    have IH: "ok (wider c hist src low ip (l0, r0, s0))
        (LZ4HC_wider_loop a m hc ip low (e_matchlimit c) (hc_search_low hc ip) nb (uns32 (i - DELTANEXTU16 hc i)) l1 r1 s1)"
      if "wider c hist src low ip (l0, r0, s0) (l1, r1, s1)" for l1 r1 s1
      unfolding nx(1) by (rule Suc.IH [OF nx(2,3) that])
    show ?thesis
      using True C(2) rd t(1-3) b(1) IH [OF Suc.prems(3)] IH [OF M] by (simp add: Let_def)
  next
    case False
    then show ?thesis using Suc.prems(3) by simp
  qed
qed simp

lemma LZ4HC_InsertAndGetWiderMatch_ok:
  assumes E: "hc_env c hist src oend m" and I: "hc_ok c hist ip hc" and ip: "e_source c \<le> low" "low \<le> ip" "ip \<le> e_mflimit c"
    and l0: "ip - low \<le> l0" "low + l0 < e_iend c"
  shows "ok (\<lambda>(l, r, s, hc'). wider c hist src low ip (l0, r0, s0) (l, r, s) \<and> hc_ok c hist ip hc' \<and> hc_kept hc hc')
           (LZ4HC_InsertAndGetWiderMatch a m hc ip low (e_matchlimit c) l0 r0 s0 nb)"
proof -
  have "e_source c \<le> ip" using ip by simp
  from hc_start [OF E I this ip(3), of a] obtain hc1 h where s: "LZ4HC_Insert a m hc ip = Some hc1" "LZ4HC_hashPtr a m ip = Some h"
    "hc_ok c hist ip hc1" "hc_kept hc hc1" "hc_search_low hc ip = hc_search_low hc1 ip"
    "0 \<le> hc_hashTable hc1 h" "hc_hashTable hc1 h < ip - hc_base hc1" .
  have "wider c hist src low ip (l0, r0, s0) (l0, r0, s0)" by (simp add: wider_def)
  from LZ4HC_wider_loop_ok [OF E s(3) ip l0 s(6,7) this, of a nb] s show ?thesis
    by (auto simp: LZ4HC_InsertAndGetWiderMatch_def Let_def elim!: ok_mono)
qed

section \<open>Emitting a sequence\<close>

text \<open>The size of the output buffer. \<open>LZ4HC_encodeSequence\<close> allows for one length byte per 256 literals, which is
  enough for the inputs named here when the output is limited.\<close>

definition hc_out :: "enc_ctx \<Rightarrow> byte list \<Rightarrow> addr \<Rightarrow> bool" where
  "hc_out c src oend \<longleftrightarrow> enc_out c src oend \<and> (e_outputLimited c = limitedOutput \<longrightarrow> length src \<le> 4094)"

lemma literal_limit_margin:
  assumes "n \<le> 4094"
  shows "length (enc_len n) \<le> n div 256 + 1"
proof (cases "n < 15")
  case False
  then have "length (enc_len n) = (n - 15) div 255 + 1" by (simp add: enc_len_def length_len_ext)
  moreover have "(n - 15) div 255 \<le> n div 256"
  proof -
    let ?q = "(n - 15) div 255"
    have "?q * 255 \<le> n - 15" "?q \<le> 4079 div 255" using assms by (simp_all add: div_le_mono)
    then have "?q * 256 \<le> n" using False by linarith
    then show ?thesis by (simp add: less_eq_div_iff_mult_less_eq)
  qed
  ultimately show ?thesis by simp
qed (simp add: enc_len_small)

text \<open>Room for the literals: by the test, or by the size of the buffer.\<close>

lemma hc_literal_room:
  assumes E: "enc_env c hist src oend m" and O: "hc_out c src oend" and M: "emitted c hist src oend ss anchor tok m"
    and s: "s = Seq (literals c src anchor ip) D (nat ml)" and ip: "anchor \<le> ip" "4 \<le> ml" "ip + ml \<le> e_iend c"
    and chk: "\<not> (e_outputLimited c = limitedOutput \<and> tok + 1 + (ip - anchor) div 256 + (ip - anchor) + (2 + 1 + 5) > e_olimit c)"
  shows "tok + 1 + int (length (enc_len (nat (ip - anchor)))) + max 8 (ip - anchor + 7) \<le> oend"
    and "e_outputLimited c = notLimited \<Longrightarrow> tok + int (length (enc_seq s)) + 16 \<le> oend"
proof -
  let ?n = "ip - anchor"
  have a: "e_source c \<le> anchor" "e_iend c = e_source c + int (length src)" using E M by (simp_all add: enc_env_def emitted_def)
  have L: "int (length (lits s)) = ?n" "mlen s = nat ml" using literals_at [OF E, of anchor ip] a ip by (simp_all add: s)
  show nl: "tok + int (length (enc_seq s)) + 16 \<le> oend" if "e_outputLimited c = notLimited"
    by (rule room_seq [OF E _ M that]) (use O L ip in \<open>auto simp: hc_out_def\<close>)
  show "tok + 1 + int (length (enc_len (nat ?n))) + max 8 (?n + 7) \<le> oend"
  proof (cases "e_outputLimited c")
    case notLimited
    have "length (enc_seq s) \<ge> 3 + length (enc_len (nat ?n)) + nat ?n"
      using L by (simp add: length_enc_seq nat_eq_iff flip: L(1))
    then show ?thesis using nl [OF notLimited] ip by simp
  next
    case limitedOutput
    then have "length src \<le> 4094" "e_olimit c = oend" using O by (simp_all add: hc_out_def enc_out_def)
    then have "int (length (enc_len (nat ?n))) \<le> int (nat ?n div 256 + 1)"
      using ip a by (intro zle_int [THEN iffD2] literal_limit_margin) auto
    then have "int (length (enc_len (nat ?n))) \<le> ?n div 256 + 1" using ip by (simp add: zdiv_int)
    moreover have "length (enc_len (nat ?n)) = 0" if "?n < 15" using that by (simp add: enc_len_small)
    ultimately show ?thesis using chk limitedOutput \<open>e_olimit c = oend\<close> ip by (cases "?n < 15") auto
  qed
qed


lemma hc_match_room:
  assumes E: "enc_env c hist src oend m" and O: "hc_out c src oend" and lim: "e_outputLimited c = limitedOutput"
    and chk: "op + 2 + n div 256 + (1 + 5) \<le> e_olimit c" and n: "0 \<le> n" "e_source c + n \<le> e_iend c"
  shows "op + 2 + int (length (enc_len (nat n))) \<le> oend"
proof -
  have "nat n \<le> 65546" "e_olimit c = oend" using E O lim n by (auto simp: enc_env_def hc_out_def enc_out_def)
  from match_limit_margin [OF this(1)] have "int (length (enc_len (nat n))) \<le> int (nat n div 256 + 2)" by (intro zle_int [THEN iffD2])
  then have "int (length (enc_len (nat n))) \<le> n div 256 + 2" using n by (simp add: zdiv_int)
  then show ?thesis using chk \<open>e_olimit c = oend\<close> by simp
qed

fun hc_seq_post :: "enc_ctx \<Rightarrow> byte list \<Rightarrow> byte list \<Rightarrow> addr \<Rightarrow> mem \<Rightarrow> addr \<Rightarrow> addr \<Rightarrow> mem \<times> (addr \<times> addr \<times> addr) option \<Rightarrow> bool" where
  "hc_seq_post c hist src oend m op e (m', None) = (frame m m' op oend \<and> e_outputLimited c = limitedOutput)"
| "hc_seq_post c hist src oend m op e (m', Some (ip', op', anchor')) =
     (frame m m' op oend \<and> ip' = e \<and> anchor' = e \<and> (\<exists>ss. emitted c hist src oend ss e op' m'))"

lemma LZ4HC_encodeSequence_ok:
  assumes E: "enc_env c hist src oend m" and O: "hc_out c src oend" and M: "emitted c hist src oend ss anchor op m"
    and H: "hc_match c hist src ip ref ml" and ip: "anchor \<le> ip" "ip \<le> e_mflimit c"
  shows "ok (hc_seq_post c hist src oend m op (ip + ml)) (LZ4HC_encodeSequence a c m ip op anchor ml ref)"
proof -
  define n where "n = ip - anchor"
  define L where "L = literals c src anchor ip"
  define s where "s = Seq L (nat (ip - ref)) (nat ml)"
  define k where "k = int (length (enc_len (nat n)))"
  have e: "e_iend c = e_source c + int (length src)" "int (length src) \<le> LZ4_MAX_INPUT_SIZE" "e_mflimit c = e_iend c - 12"
      "e_matchlimit c = e_iend c - 5" "mapped m (e_dest c) oend" using E by (simp_all add: enc_env_def)
  have a: "e_source c \<le> anchor" "e_dest c \<le> op" using M by (simp_all add: emitted_def)
  have C: "cand c hist ip ref" and x: "4 \<le> ml" "ip + ml \<le> e_matchlimit c" "same c hist src ip ref ml"
    using H by (simp_all add: hc_match_def)
  have D: "0 \<le> ip - ref" "ip - ref \<le> 65535" using C by (auto simp: cand_def)
  have n: "int32 (ip - anchor) = n" "0 \<le> n" "ip + 12 \<le> e_iend c" using a e ip by (auto simp: n_def)
  have L: "length L = nat n" using literals_at [OF E, of anchor ip] a n ip by (simp add: L_def n_def)
  show ?thesis
  proof (cases "e_outputLimited c = limitedOutput \<and> op + 1 + n div 256 + n + (2 + 1 + 5) > e_olimit c")
    case True
    then show ?thesis by (simp add: LZ4HC_encodeSequence_def n)
  next
    case chk: False
    have room: "op + 1 + k + max 8 (n + 7) \<le> oend" "e_outputLimited c = notLimited \<Longrightarrow> op + int (length (enc_seq s)) + 16 \<le> oend"
      using hc_literal_room [OF E O M s_def [unfolded L_def] ip(1) x(1) _ chk [unfolded n_def]] x e by (auto simp: k_def n_def)
    obtain m1 m2 where w1: "(if n \<ge> RUN_MASK
          then do { m \<leftarrow> store8 m op (word_of_int (RUN_MASK * 16)); write_length m (op + 1) (n - RUN_MASK) }
          else do { m \<leftarrow> store8 m op (word_of_int (n * 16)); Some (m, op + 1) }) = Some (m1, op + 1 + k)"
        "LZ4_wildCopy m1 (op + 1 + k) anchor (op + 1 + k + n) = Some m2" "frame m m2 op oend"
        "bytes_at m2 op (token (length L) 0 # enc_len (length L) @ L)"
      using copy_literals_ok [OF E a(1) ip(1) n(3) a(2) n_def room(1) [unfolded k_def]]
      by (auto simp: ok_iff bind_eq_Some_conv L L_def [symmetric] k_def)
    define op1 where "op1 = op + 1 + k + n"
    have op1: "op1 = op + 1 + int (length (enc_len (length L))) + int (length L)" "op1 + 2 \<le> oend"
      using room n by (auto simp: op1_def k_def L)
    have mo: "mapped m2 (e_dest c) oend" using e(5) frame_mapped [OF w1(3)] by simp
    have "mapped m2 op1 (op1 + 2)" by (rule mapped_mono [OF mo]) (use a op1 in auto)
    from write_offset_ok [OF D this, of a] obtain m3 where
      w3: "LZ4_writeLE16 a m2 op1 (word_of_int (ip - ref)) = Some m3" "frame m2 m3 op1 (op1 + 2)" "bytes_at m3 op1 (enc_off (nat (ip - ref)))" by blast
    have f3: "frame m m3 op oend" by (rule frame_trans [OF w1(3) frame_mono [OF w3(2)]]) (use op1 in auto)
    have b3: "bytes_at m3 op (token (length L) 0 # enc_len (length L) @ L)"
      using w1(4) by (subst frame_bytes_at [OF w3(2)]) (auto simp: op1)
    then have t: "m3 op = Some (token (length L) 0)" by (simp add: bytes_at_Cons)
    let ?k2 = "int (length (enc_len (nat (ml - 4))))"
    show ?thesis
    proof (cases "e_outputLimited c = limitedOutput \<and> op1 + 2 + (ml - 4) div 256 + (1 + 5) > e_olimit c")
      case True
      then show ?thesis
        using chk w1(1,2) w3(1) f3 by (auto simp: LZ4HC_encodeSequence_def n op1_def split: if_splits)
    next
      case chk2: False
      have rm: "op1 + 2 + ?k2 \<le> oend"
      proof (cases "e_outputLimited c")
        case limitedOutput
        then show ?thesis using chk2 x ip a by (intro hc_match_room [OF E O]) (auto simp: e)
      next
        case notLimited
        have "int (length (enc_seq s)) = 3 + k + n + ?k2" using n x by (simp add: length_enc_seq s_def L k_def nat_diff_distrib)
        with room(2) [OF notLimited] show ?thesis by (simp add: op1_def)
      qed
      have "mapped m3 (op1 + 2) (op1 + 2 + ?k2)"
        unfolding frame_mapped [OF w3(2)] by (rule mapped_mono [OF mo]) (use a op1 rm in auto)
      from finish_seq_ok [OF b3 w3(3) op1(1) _ this] x(1) obtain m4 where
        w4: "(if ml - 4 \<ge> ML_MASK
            then do { m \<leftarrow> store8 m3 op (token (length L) 0 + 15); write_match_length m (op1 + 2) (ml - 4 - ML_MASK) }
            else do { m \<leftarrow> store8 m3 op (token (length L) 0 + word_of_int (ml - 4)); Some (m, op1 + 2) }) =
              Some (m4, op + int (length (enc_seq s)))" "frame m3 m4 op (op1 + 2 + ?k2)" "bytes_at m4 op (enc_seq s)" 
        unfolding s_def by auto
      have f4: "frame m m4 op oend" by (rule frame_trans [OF f3 frame_mono [OF w4(2)]]) (use rm in auto)
      have "op + int (length (enc_seq s)) = op1 + 2 + ?k2"
        using n x by (simp add: length_enc_seq s_def L k_def op1_def nat_diff_distrib)
      then have "emitted c hist src oend (ss @ [s]) (ip + ml) (op + int (length (enc_seq s))) m4"
        using rm by (intro emitted_step [OF E M f4 C x ip(1) n(3) s_def [unfolded L_def] w4(3) refl]) auto
      moreover have "LZ4HC_encodeSequence a c m ip op anchor ml ref = Some (m4, Some (ip + ml, op + int (length (enc_seq s)), ip + ml))"
        unfolding LZ4HC_encodeSequence_def Let_def n using chk chk2 w1(1,2) w3(1) w4(1) t
        by (auto simp: op1_def bind_eq_Some_conv split: if_splits)
      ultimately show ?thesis using f4 by auto
    qed
  qed
qed

section \<open>The parser\<close>

text \<open>A match that can be emitted after \<open>anchor\<close>.\<close>

definition usable :: "enc_ctx \<Rightarrow> byte list \<Rightarrow> byte list \<Rightarrow> addr \<Rightarrow> addr \<Rightarrow> addr \<Rightarrow> int \<Rightarrow> bool" where
  "usable c hist src anchor s r l \<longleftrightarrow> hc_match c hist src s r l \<and> anchor \<le> s \<and> s \<le> e_mflimit c"

lemma usable_bounds:
  "usable c hist src anchor s r l \<Longrightarrow> 4 \<le> l \<and> anchor \<le> s \<and> s \<le> e_mflimit c \<and> s + l \<le> e_matchlimit c \<and> e_source c \<le> s"
  by (simp add: usable_def hc_match_def)

lemma usable_anchor: "usable c hist src anchor s r l \<Longrightarrow> anchor' \<le> s \<Longrightarrow> usable c hist src anchor' s r l"
  by (simp add: usable_def)

lemma usable_cut: "usable c hist src anchor s r l \<Longrightarrow> 4 \<le> l' \<Longrightarrow> l' \<le> l \<Longrightarrow> usable c hist src anchor s r l'"
  by (auto simp: usable_def hc_match_def same_def)

lemma usable_shift:
  assumes "usable c hist src anchor s r l" "0 \<le> k" "4 \<le> l - k" "s + k \<le> e_mflimit c" "e_dict c = withPrefix64k"
  shows "usable c hist src anchor (s + k) (r + k) (l - k)"
proof -
  have "byte_of c hist src (s + k + i) = byte_of c hist src (r + k + i)" if "0 \<le> i" "i < l - k" for i
  proof -
    have "same c hist src s r l" using assms(1) by (simp add: usable_def hc_match_def)
    then have "byte_of c hist src (s + (k + i)) = byte_of c hist src (r + (k + i))" using that assms(2) by (simp add: same_def)
    then show ?thesis by (simp add: add.assoc)
  qed
  then show ?thesis using assms by (auto simp: usable_def hc_match_def cand_def same_def)
qed

text \<open>What holds at every label: the sequences emitted so far, and the memory and structure otherwise as they were.\<close>

definition hc_base_inv :: "enc_ctx \<Rightarrow> byte list \<Rightarrow> byte list \<Rightarrow> addr \<Rightarrow> mem \<Rightarrow> LZ4HC_Data_Structure \<Rightarrow> hc_vars \<Rightarrow> bool" where
  "hc_base_inv c hist src oend m0 hc0 v \<longleftrightarrow>
     hc_env c hist src oend (v_m v) \<and> frame m0 (v_m v) (e_dest c) oend \<and> hc_kept hc0 (v_hc v) \<and>
     (\<exists>ss. emitted c hist src oend ss (v_anchor v) (v_op v) (v_m v))"

lemma hc_base_inv_cong:
  assumes "hc_base_inv c hist src oend m0 hc0 v" "v_m v' = v_m v" "v_op v' = v_op v" "v_anchor v' = v_anchor v" "hc_kept (v_hc v) (v_hc v')"
  shows "hc_base_inv c hist src oend m0 hc0 v'"
  using assms hc_kept_trans by (auto simp: hc_base_inv_def)

text \<open>The invariant of each label. The next search is never below the last one, so that no position at or after the
  current one is in the tables.\<close>

fun hc_inv :: "enc_ctx \<Rightarrow> byte list \<Rightarrow> byte list \<Rightarrow> addr \<Rightarrow> mem \<Rightarrow> LZ4HC_Data_Structure \<Rightarrow> hc_label \<Rightarrow> hc_vars \<Rightarrow> bool" where
  "hc_inv c hist src oend m0 hc0 MainLoop v =
     (hc_base_inv c hist src oend m0 hc0 v \<and> hc_ok c hist (v_ip v) (v_hc v) \<and> hc_ok c hist (e_iend c) (v_hc v) \<and> v_anchor v \<le> v_ip v)"
| "hc_inv c hist src oend m0 hc0 Search2 v =
     (hc_base_inv c hist src oend m0 hc0 v \<and> hc_ok c hist (v_ip v + v_ml v - 2) (v_hc v) \<and>
      usable c hist src (v_anchor v) (v_ip v) (v_ref v) (v_ml v) \<and> usable c hist src (v_anchor v) (v_start0 v) (v_ref0 v) (v_ml0 v) \<and>
      v_start0 v \<le> v_ip v \<and> v_ip v \<le> v_start0 v + 2 \<and> v_ml0 v \<le> v_ml v \<and> (v_start0 v < v_ip v \<longrightarrow> v_ml0 v < v_ml v))"
| "hc_inv c hist src oend m0 hc0 Search3 v =
     (hc_base_inv c hist src oend m0 hc0 v \<and> hc_ok c hist (v_start2 v + v_ml2 v - 3) (v_hc v) \<and>
      usable c hist src (v_anchor v) (v_ip v) (v_ref v) (v_ml v) \<and> usable c hist src (v_anchor v) (v_start2 v) (v_ref2 v) (v_ml2 v) \<and>
      v_ip v < v_start2 v \<and> v_start2 v \<le> v_ip v + v_ml v + 1 \<and> 8 \<le> v_start2 v - v_ip v + v_ml2 v \<and> 5 \<le> v_ml2 v \<and>
      (v_start2 v = v_ip v + v_ml v + 1 \<longrightarrow> 6 \<le> v_ml2 v) \<and> v_ip v + v_ml v < e_mflimit c)"
| "hc_inv c hist src oend m0 hc0 EncodeLast v = (hc_base_inv c hist src oend m0 hc0 v \<and> hc_ok c hist (e_iend c) (v_hc v))"
| "hc_inv c hist src oend m0 hc0 ReturnZero v =
     (frame m0 (v_m v) (e_dest c) oend \<and> hc_kept hc0 (v_hc v) \<and> hc_ok c hist (e_iend c) (v_hc v) \<and> e_outputLimited c = limitedOutput)"

text \<open>Progress: a sequence is emitted, or the label advances, or at the same label the position of the main loop or
  the end of the longest match found does.\<close>

fun hc_phase :: "hc_label \<Rightarrow> nat" where
  "hc_phase MainLoop = 3" | "hc_phase Search2 = 2" | "hc_phase Search3 = 1" | "hc_phase _ = 0"

fun hc_rest :: "enc_ctx \<Rightarrow> hc_label \<Rightarrow> hc_vars \<Rightarrow> nat" where
  "hc_rest c MainLoop v = nat (e_iend c - v_ip v)"
| "hc_rest c Search2 v = nat (e_iend c - e_source c - v_ml v)"
| "hc_rest c Search3 v = nat (e_iend c - (v_start2 v + v_ml2 v))"
| "hc_rest c _ v = 0"

definition hc_less :: "enc_ctx \<Rightarrow> ((hc_label \<times> hc_vars) \<times> hc_label \<times> hc_vars) set" where
  "hc_less c = measures [\<lambda>(lab, v). nat (e_iend c - v_anchor v), \<lambda>(lab, v). hc_phase lab, \<lambda>(lab, v). hc_rest c lab v]"

lemma hc_less_emit: "v_anchor v < v_anchor v' \<Longrightarrow> v_anchor v' \<le> e_iend c \<Longrightarrow> ((lab', v'), lab, v) \<in> hc_less c"
  by (simp add: hc_less_def)

lemma hc_less_phase: "v_anchor v' = v_anchor v \<Longrightarrow> hc_phase lab' < hc_phase lab \<Longrightarrow> ((lab', v'), lab, v) \<in> hc_less c"
  by (simp add: hc_less_def)

lemma hc_less_rest: "v_anchor v' = v_anchor v \<Longrightarrow> hc_rest c lab v' < hc_rest c lab v \<Longrightarrow> ((lab, v'), lab, v) \<in> hc_less c"
  by (simp add: hc_less_def)

lemma hc_emit_ok:
  assumes B: "hc_base_inv c hist src oend m0 hc0 v" and O: "hc_out c src oend"
    and U: "usable c hist src (v_anchor v) (v_ip v) ref ml"
  shows "ok (\<lambda>(full, v'). (full \<and> (\<exists>m. v' = v\<lparr>v_m := m\<rparr> \<and> frame m0 m (e_dest c) oend) \<and> e_outputLimited c = limitedOutput) \<or>
              (\<not> full \<and> (\<exists>m op. v' = v\<lparr>v_m := m, v_ip := v_ip v + ml, v_op := op, v_anchor := v_ip v + ml\<rparr>) \<and>
               hc_base_inv c hist src oend m0 hc0 v'))
           (hc_emit a c v ml ref)"
proof -
  from B obtain ss where E: "hc_env c hist src oend (v_m v)" and f: "frame m0 (v_m v) (e_dest c) oend" and K: "hc_kept hc0 (v_hc v)"
    and M: "emitted c hist src oend ss (v_anchor v) (v_op v) (v_m v)" by (auto simp: hc_base_inv_def)
  have E': "enc_env c hist src oend (v_m v)" using E by (simp add: hc_env_def)
  have op: "e_dest c \<le> v_op v" using M by (simp add: emitted_def)
  have U': "hc_match c hist src (v_ip v) ref ml" "v_anchor v \<le> v_ip v" "v_ip v \<le> e_mflimit c" using U by (auto simp: usable_def)
  obtain m r where w: "LZ4HC_encodeSequence a c (v_m v) (v_ip v) (v_op v) (v_anchor v) ml ref = Some (m, r)"
      "hc_seq_post c hist src oend (v_m v) (v_op v) (v_ip v + ml) (m, r)"
    using okD [OF LZ4HC_encodeSequence_ok [OF E' O M U', of a]] by auto
  have fm: "frame (v_m v) m (v_op v) oend" using w(2) by (cases r) auto
  have fm': "frame (v_m v) m (e_dest c) oend" by (rule frame_mono [OF fm]) (use op in auto)
  have f0: "frame m0 m (e_dest c) oend" by (rule frame_trans [OF f fm'])
  have Em: "hc_env c hist src oend m" using E enc_env_frame [OF fm' E'] by (simp add: hc_env_def)
  show ?thesis
  proof (cases r)
    case None
    then show ?thesis using w f0 by (auto simp: hc_emit_def)
  next
    case (Some r')
    with w obtain op where "r' = (v_ip v + ml, op, v_ip v + ml)" "\<exists>ss. emitted c hist src oend ss (v_ip v + ml) op m" by (cases r') auto
    then show ?thesis using w(1) Some f0 Em K by (auto simp: hc_emit_def hc_base_inv_def)
  qed
qed

lemma hc_inv_full:
  assumes "hc_base_inv c hist src oend m0 hc0 v" "frame m0 m (e_dest c) oend" "e_outputLimited c = limitedOutput" "hc_ok c hist (e_iend c) (v_hc v)"
  shows "hc_inv c hist src oend m0 hc0 ReturnZero (v\<lparr>v_m := m\<rparr>)"
  using assms by (simp add: hc_base_inv_def)

abbreviation hc_step_post where
  "hc_step_post c hist src oend m0 hc0 lab v \<equiv> \<lambda>(lab', v'). hc_inv c hist src oend m0 hc0 lab' v' \<and> ((lab', v'), lab, v) \<in> hc_less c"

lemma LZ4HC_main_step_ok:
  assumes O: "hc_out c src oend" and I: "hc_inv c hist src oend m0 hc0 MainLoop v"
  shows "ok (hc_step_post c hist src oend m0 hc0 MainLoop v) (LZ4HC_main_step a c nb v)"
proof (cases "v_ip v < e_mflimit c")
  case False
  then show ?thesis using I by (auto simp: LZ4HC_main_step_def intro: hc_less_phase)
next
  case True
  have B: "hc_base_inv c hist src oend m0 hc0 v" and a: "v_anchor v \<le> v_ip v" and hk: "hc_ok c hist (v_ip v) (v_hc v)" using I by auto
  then have E: "hc_env c hist src oend (v_m v)" and src: "e_source c \<le> v_ip v"
    by (auto simp: hc_base_inv_def emitted_def)
  note lim = hc_env_limits [OF E]
  obtain ml ref hc where s: "LZ4HC_InsertAndFindBestMatch a (v_m v) (v_hc v) (v_ip v) (e_matchlimit c) (v_ref v) nb = Some (ml, ref, hc)"
      "ml = 0 \<or> hc_match c hist src (v_ip v) ref ml" "hc_ok c hist (v_ip v) hc" "hc_kept (v_hc v) hc"
    using okD [OF LZ4HC_InsertAndFindBestMatch_ok [OF E hk src, of a "v_ref v" nb]] True by auto
  note B' = hc_base_inv_cong [OF B]
  have he: "hc_ok c hist lim hc" if "v_ip v \<le> lim" for lim using hc_ok_mono [OF s(3) that] .
  show ?thesis
  proof (cases "ml = 0")
    case z: True
    show ?thesis
      using True s(1,4) z a lim he [of "v_ip v + 1"] he [of "e_iend c"] by (simp add: LZ4HC_main_step_def hc_less_rest B')
  next
    case False
    then have U: "usable c hist src (v_anchor v) (v_ip v) ref ml" "4 \<le> ml" using s(2) a True by (auto simp: usable_def hc_match_def)
    then show ?thesis
      using True s(1,4) False he [of "v_ip v + ml - 2"] by (simp add: LZ4HC_main_step_def hc_less_phase B')
  qed
qed

text \<open>The search for a longer match, as both labels use it: it starts inside the match \<open>(s, l)\<close>, at \<open>back\<close> bytes before
  its end.\<close>

lemma hc_search_wider:
  assumes B: "hc_base_inv c hist src oend m0 hc0 v" and hk: "hc_ok c hist (s + l - back) (v_hc v)"
    and s: "v_anchor v \<le> s" "e_source c \<le> s" "4 \<le> l" "s + l < e_mflimit c" and b: "2 \<le> back" "back \<le> 3" "s \<le> low" "low \<le> s + 1"
  obtains l' r' s' hc' where
    "LZ4HC_InsertAndGetWiderMatch a (v_m v) (v_hc v) (s + l - back) low (e_matchlimit c) l r0 s0 nb = Some (l', r', s', hc')"
    "hc_ok c hist (s + l - back) hc'" "hc_kept (v_hc v) hc'"
    "l' = l \<or> l < l' \<and> usable c hist src (v_anchor v) s' r' l' \<and> low \<le> s' \<and> s' \<le> s + l - back \<and> s + l - back + 4 \<le> s' + l'"
proof -
  have E: "hc_env c hist src oend (v_m v)" using B by (simp add: hc_base_inv_def)
  note lim = hc_env_limits [OF E]
  have "ok (\<lambda>(l', r', s', hc'). wider c hist src low (s + l - back) (l, r0, s0) (l', r', s') \<and> hc_ok c hist (s + l - back) hc' \<and> hc_kept (v_hc v) hc')
      (LZ4HC_InsertAndGetWiderMatch a (v_m v) (v_hc v) (s + l - back) low (e_matchlimit c) l r0 s0 nb)"
    by (rule LZ4HC_InsertAndGetWiderMatch_ok [OF E hk]) (use s b lim in auto)
  then show ?thesis
    using s b by (elim okE) (auto simp: wider_def usable_def intro!: that)
qed

lemma hc_emit_cases:
  assumes B: "hc_base_inv c hist src oend m0 hc0 v" and O: "hc_out c src oend" and U: "usable c hist src (v_anchor v) (v_ip v) ref ml"
  obtains m where "hc_emit a c v ml ref = Some (True, v\<lparr>v_m := m\<rparr>)" "frame m0 m (e_dest c) oend" "e_outputLimited c = limitedOutput"
  | m op where "hc_emit a c v ml ref = Some (False, v\<lparr>v_m := m, v_ip := v_ip v + ml, v_op := op, v_anchor := v_ip v + ml\<rparr>)"
      "hc_base_inv c hist src oend m0 hc0 (v\<lparr>v_m := m, v_ip := v_ip v + ml, v_op := op, v_anchor := v_ip v + ml\<rparr>)"
  using hc_emit_ok [OF B O U, of a] by (fastforce simp: ok_iff)

text \<open>Emitting the first match and going on at \<open>lab'\<close>.\<close>

lemma hc_emit_step:
  assumes B: "hc_base_inv c hist src oend m0 hc0 v" and O: "hc_out c src oend" and U: "usable c hist src (v_anchor v) (v_ip v) ref ml"
    and he: "hc_ok c hist (e_iend c) (v_hc v)" and anc: "v_anchor v0 = v_anchor v"
    and nxt: "\<And>m op. hc_base_inv c hist src oend m0 hc0 (v\<lparr>v_m := m, v_ip := v_ip v + ml, v_op := op, v_anchor := v_ip v + ml\<rparr>) \<Longrightarrow>
        hc_inv c hist src oend m0 hc0 lab' (f (v\<lparr>v_m := m, v_ip := v_ip v + ml, v_op := op, v_anchor := v_ip v + ml\<rparr>))"
    and keep: "\<And>v. v_anchor (f v) = v_anchor v" and lab: "0 < hc_phase lab"
  shows "ok (hc_step_post c hist src oend m0 hc0 lab v0)
           (do { (full, v) \<leftarrow> hc_emit a c v ml ref; Some (if full then (ReturnZero, v) else (lab', f v)) })"
proof -
  have ub: "4 \<le> ml" "v_anchor v \<le> v_ip v" "v_ip v + ml \<le> e_matchlimit c" using usable_bounds [OF U] by auto
  have "e_matchlimit c \<le> e_iend c" using B hc_env_limits by (fastforce simp: hc_base_inv_def)
  with ub anc have less: "v_anchor v0 < v_ip v + ml" "v_ip v + ml \<le> e_iend c" by auto
  show ?thesis
  proof (rule hc_emit_cases [OF B O U, of a])
    fix m assume "hc_emit a c v ml ref = Some (True, v\<lparr>v_m := m\<rparr>)" "frame m0 m (e_dest c) oend" "e_outputLimited c = limitedOutput"
    then show ?thesis using hc_inv_full [OF B _ _ he] anc lab by (simp add: hc_less_phase del: hc_inv.simps)
  next
    fix m op assume "hc_emit a c v ml ref = Some (False, v\<lparr>v_m := m, v_ip := v_ip v + ml, v_op := op, v_anchor := v_ip v + ml\<rparr>)"
      "hc_base_inv c hist src oend m0 hc0 (v\<lparr>v_m := m, v_ip := v_ip v + ml, v_op := op, v_anchor := v_ip v + ml\<rparr>)"
    then show ?thesis using nxt less by (simp add: hc_less_emit keep del: hc_inv.simps)
  qed
qed


lemma hc_emit_main:
  assumes B: "hc_base_inv c hist src oend m0 hc0 v" and O: "hc_out c src oend" and U: "usable c hist src (v_anchor v) (v_ip v) ref ml"
    and hk: "hc_ok c hist (v_ip v + ml) (v_hc v)" and anc: "v_anchor v0 = v_anchor v" and lab: "0 < hc_phase lab"
  shows "ok (hc_step_post c hist src oend m0 hc0 lab v0)
           (do { (full, v) \<leftarrow> hc_emit a c v ml ref; Some (if full then ReturnZero else MainLoop, v) })"
proof -
  have "hc_env c hist src oend (v_m v)" using B by (simp add: hc_base_inv_def)
  with usable_bounds [OF U] have "v_ip v + ml \<le> e_iend c" using hc_env_limits by fastforce
  then have he: "hc_ok c hist (e_iend c) (v_hc v)" using hk hc_ok_mono by blast
  have e: "(if full then ReturnZero else MainLoop, v) = (if full then (ReturnZero, v) else (MainLoop, (\<lambda>v. v) v))" for full and v :: hc_vars by simp
  show ?thesis unfolding e by (rule hc_emit_step [OF B O U he anc _ _ lab]) (use hk he in auto)
qed

lemma LZ4HC_search2_step_ok:
  assumes O: "hc_out c src oend" and I: "hc_inv c hist src oend m0 hc0 Search2 v"
  shows "ok (hc_step_post c hist src oend m0 hc0 Search2 v) (LZ4HC_search2_step a c nb v)"
proof -
  have B: "hc_base_inv c hist src oend m0 hc0 v" and hk: "hc_ok c hist (v_ip v + v_ml v - 2) (v_hc v)"
    and U: "usable c hist src (v_anchor v) (v_ip v) (v_ref v) (v_ml v)" and U0: "usable c hist src (v_anchor v) (v_start0 v) (v_ref0 v) (v_ml0 v)"
    and s0: "v_start0 v \<le> v_ip v" "v_ip v \<le> v_start0 v + 2" "v_ml0 v \<le> v_ml v" "v_start0 v < v_ip v \<longrightarrow> v_ml0 v < v_ml v"
    using I by auto
  note b = usable_bounds [OF U] usable_bounds [OF U0]
  note B' = hc_base_inv_cong [OF B]
  have hk': "hc_ok c hist (v_ip v + v_ml v) hc" if "hc_ok c hist (v_ip v + v_ml v - 2) hc" for hc using hc_ok_mono [OF that] by simp
  show ?thesis
  proof (cases "v_ip v + v_ml v < e_mflimit c")
    case False
    have "ok (hc_step_post c hist src oend m0 hc0 Search2 v)
        (do { (full, v) \<leftarrow> hc_emit a c (v\<lparr>v_ml2 := v_ml v\<rparr>) (v_ml v) (v_ref v); Some (if full then ReturnZero else MainLoop, v) })"
      by (rule hc_emit_main [OF B' O]) (use U hk' [OF hk] in auto)
    then show ?thesis using False by (simp add: LZ4HC_search2_step_def)
  next
    case True
    obtain l r s hc where w:
        "LZ4HC_InsertAndGetWiderMatch a (v_m v) (v_hc v) (v_ip v + v_ml v - 2) (v_ip v + 1) (e_matchlimit c) (v_ml v) (v_ref2 v) (v_start2 v) nb = Some (l, r, s, hc)"
        "hc_ok c hist (v_ip v + v_ml v - 2) hc" "hc_kept (v_hc v) hc"
      and x: "l = v_ml v \<or> v_ml v < l \<and> usable c hist src (v_anchor v) s r l \<and> v_ip v + 1 \<le> s \<and>
           s \<le> v_ip v + v_ml v - 2 \<and> v_ip v + v_ml v - 2 + 4 \<le> s + l"
      by (rule hc_search_wider [OF B, of "v_ip v" "v_ml v" 2 "v_ip v + 1" a "v_ref2 v" "v_start2 v" nb]) (use hk b True in auto)
    define v1 where "v1 = v\<lparr>v_ml2 := l, v_ref2 := r, v_start2 := s, v_hc := hc\<rparr>"
    show ?thesis
    proof (cases "l = v_ml v")
      case eq: True
      have "ok (hc_step_post c hist src oend m0 hc0 Search2 v)
          (do { (full, v) \<leftarrow> hc_emit a c v1 (v_ml v) (v_ref v); Some (if full then ReturnZero else MainLoop, v) })"
        by (rule hc_emit_main [OF B' O]) (use U hk' [OF w(2)] w(3) in \<open>auto simp: v1_def\<close>)
      then show ?thesis using True w(1) eq by (simp add: LZ4HC_search2_step_def v1_def)
    next
      case False
      with x have x: "v_ml v < l" "usable c hist src (v_anchor v) s r l" "v_ip v + 1 \<le> s" "s \<le> v_ip v + v_ml v - 2" "v_ip v + v_ml v + 2 \<le> s + l"
        by auto
      note bx = usable_bounds [OF x(2)]
      define v2 where "v2 = (if v_start0 v < v_ip v \<and> s < v_ip v + v_ml0 v then v1\<lparr>v_ip := v_start0 v, v_ref := v_ref0 v, v_ml := v_ml0 v\<rparr> else v1)"
      have hs: "hc_ok c hist (s + l - 2) hc" "hc_ok c hist (s + l - 3) hc" using hc_ok_mono [OF w(2)] x(5) by auto
      have "hc_inv c hist src oend m0 hc0 Search2 (v2\<lparr>v_ml := l, v_ip := s, v_ref := r\<rparr>)" if "s - v_ip v2 < 3"
        using that hs(1) x U0 s0 w(3) b by (auto simp: v2_def v1_def B' split: if_splits)
      moreover have "hc_rest c Search2 (v2\<lparr>v_ml := l, v_ip := s, v_ref := r\<rparr>) < hc_rest c Search2 v"
        using x(1) bx b hc_env_limits [of c hist src oend "v_m v"] B by (auto simp: hc_base_inv_def)
      moreover have "hc_inv c hist src oend m0 hc0 Search3 v2" if "\<not> s - v_ip v2 < 3"
        using that hs(2) x U U0 s0 w(3) b True by (auto simp: v2_def v1_def B' split: if_splits)
      moreover have "v_anchor v2 = v_anchor v" "v_ml2 v2 = l" "v_start2 v2 = s" "v_ref2 v2 = r" by (simp_all add: v2_def v1_def)
      moreover have "LZ4HC_search2_step a c nb v =
          (if s - v_ip v2 < 3 then Some (Search2, v2\<lparr>v_ml := l, v_ip := s, v_ref := r\<rparr>) else Some (Search3, v2))"
        using True w(1) False by (simp add: LZ4HC_search2_step_def v1_def v2_def Let_def)
      ultimately show ?thesis by (simp add: hc_less_rest hc_less_phase del: hc_inv.simps hc_rest.simps)
    qed
  qed
qed

text \<open>Moving match 2 forward, and shortening match 1, in terms of the distance \<open>k\<close> and the length \<open>l\<close>.\<close>

lemma hc_optimal_move:
  assumes "4 \<le> v_ml v" "v_ip v < v_start2 v" "8 \<le> v_start2 v - v_ip v + v_ml2 v" "5 \<le> v_ml2 v"
  obtains k where "hc_optimal v = hc_move2 v k" "0 \<le> k" "4 \<le> v_ml2 v - k" "4 \<le> v_start2 v + k - v_ip v" "0 < k \<longrightarrow> v_start2 v + k \<le> v_ip v + v_ml v"
proof -
  let ?k = "hc_new_ml v - (v_start2 v - v_ip v)"
  have m0: "hc_move2 v 0 = v" by (simp add: hc_move2_def)
  show ?thesis
  proof (cases "v_start2 v - v_ip v < 18 \<and> 0 < ?k")
    case True
    then show ?thesis using assms by (intro that [of ?k]) (auto simp: hc_optimal_def Let_def hc_new_ml_def split: if_splits)
  next
    case False
    then show ?thesis using assms by (intro that [of 0]) (auto simp: m0 hc_optimal_def Let_def hc_new_ml_def split: if_splits)
  qed
qed

lemma hc_ascending_move:
  assumes "4 \<le> v_ml v" "4 \<le> v_ml2 v" "4 \<le> v_start2 v - v_ip v"
  obtains k l where "hc_ascending v = (hc_move2 v k)\<lparr>v_ml := l\<rparr>" "0 \<le> k" "4 \<le> v_ml2 v - k" "4 \<le> l" "l \<le> v_ml v"
    "v_ip v + l \<le> v_start2 v + k" "0 < k \<longrightarrow> v_start2 v + k \<le> v_ip v + v_ml v" "v_start2 v < v_ip v + v_ml v \<longrightarrow> v_start2 v + k \<le> v_ip v + v_ml v"
proof -
  let ?k = "hc_new_ml v - (v_start2 v - v_ip v)"
  have n: "4 \<le> hc_new_ml v" "hc_new_ml v \<le> v_ml v" "hc_new_ml v \<le> v_start2 v - v_ip v + v_ml2 v - 4"
    using assms by (auto simp: hc_new_ml_def Let_def)
  consider "v_ip v + v_ml v \<le> v_start2 v" | "v_start2 v < v_ip v + v_ml v" "15 \<le> v_start2 v - v_ip v"
    | "v_start2 v < v_ip v + v_ml v" "v_start2 v - v_ip v < 15" "?k \<le> 0"
    | "v_start2 v < v_ip v + v_ml v" "v_start2 v - v_ip v < 15" "0 < ?k" by linarith
  then show ?thesis
  proof cases
    case 1
    then show ?thesis using assms by (intro that [where k = 0 and l = "v_ml v"]) (auto simp: hc_ascending_def hc_move2_def)
  next
    case 2
    then show ?thesis using assms by (intro that [where k = 0 and l = "v_start2 v - v_ip v"]) (auto simp: hc_ascending_def hc_move2_def)
  next
    case 3
    then show ?thesis using assms n by (intro that [where k = 0 and l = "hc_new_ml v"]) (auto simp: hc_ascending_def hc_move2_def)
  next
    case 4
    then show ?thesis using assms n by (intro that [where k = ?k and l = "hc_new_ml v"]) (auto simp: hc_ascending_def hc_move2_def)
  qed
qed

text \<open>After the correction: two matches, the second of which ends where the search for a third one starts.\<close>

definition hc_two :: "enc_ctx \<Rightarrow> byte list \<Rightarrow> byte list \<Rightarrow> addr \<Rightarrow> mem \<Rightarrow> LZ4HC_Data_Structure \<Rightarrow> hc_vars \<Rightarrow> bool" where
  "hc_two c hist src oend m0 hc0 v \<longleftrightarrow>
     hc_base_inv c hist src oend m0 hc0 v \<and> hc_ok c hist (v_start2 v + v_ml2 v - 3) (v_hc v) \<and>
     usable c hist src (v_anchor v) (v_ip v) (v_ref v) (v_ml v) \<and> usable c hist src (v_anchor v) (v_start2 v) (v_ref2 v) (v_ml2 v) \<and>
     4 \<le> v_start2 v - v_ip v \<and> v_start2 v \<le> v_ip v + v_ml v + 1 \<and> (v_start2 v = v_ip v + v_ml v + 1 \<longrightarrow> 6 \<le> v_ml2 v) \<and>
     v_ip v + v_ml v < e_mflimit c"

definition hc_three :: "enc_ctx \<Rightarrow> byte list \<Rightarrow> byte list \<Rightarrow> hc_vars \<Rightarrow> bool" where
  "hc_three c hist src v \<longleftrightarrow>
     v_ml2 v < v_ml3 v \<and> usable c hist src (v_anchor v) (v_start3 v) (v_ref3 v) (v_ml3 v) \<and> v_start2 v \<le> v_start3 v \<and>
     v_start3 v \<le> v_start2 v + v_ml2 v - 3 \<and> v_start2 v + v_ml2 v + 1 \<le> v_start3 v + v_ml3 v \<and> v_start2 v + v_ml2 v < e_mflimit c"

lemma hc_two_optimal:
  assumes I: "hc_inv c hist src oend m0 hc0 Search3 v"
  shows "hc_two c hist src oend m0 hc0 (hc_optimal v)" "v_anchor (hc_optimal v) = v_anchor v"
    "v_start2 (hc_optimal v) + v_ml2 (hc_optimal v) = v_start2 v + v_ml2 v"
proof -
  have U: "usable c hist src (v_anchor v) (v_ip v) (v_ref v) (v_ml v)" and U2: "usable c hist src (v_anchor v) (v_start2 v) (v_ref2 v) (v_ml2 v)"
    and x: "v_ip v < v_start2 v" "v_start2 v \<le> v_ip v + v_ml v + 1" "8 \<le> v_start2 v - v_ip v + v_ml2 v" "5 \<le> v_ml2 v"
      "v_start2 v = v_ip v + v_ml v + 1 \<longrightarrow> 6 \<le> v_ml2 v" "v_ip v + v_ml v < e_mflimit c" and B: "hc_base_inv c hist src oend m0 hc0 v"
      and hk: "hc_ok c hist (v_start2 v + v_ml2 v - 3) (v_hc v)"
    using I by auto
  note b = usable_bounds [OF U] usable_bounds [OF U2]
  obtain k where k: "hc_optimal v = hc_move2 v k" "0 \<le> k" "4 \<le> v_ml2 v - k" "4 \<le> v_start2 v + k - v_ip v" "0 < k \<longrightarrow> v_start2 v + k \<le> v_ip v + v_ml v"
    using hc_optimal_move [of v] b x by blast
  have "e_dict c = withPrefix64k" using B by (simp add: hc_base_inv_def hc_env_def)
  then have "usable c hist src (v_anchor v) (v_start2 v + k) (v_ref2 v + k) (v_ml2 v - k)"
    using k x b by (intro usable_shift [OF U2]) (cases "k = 0", auto)
  moreover have "v_start2 v + k \<le> v_ip v + v_ml v + 1" "v_start2 v + k = v_ip v + v_ml v + 1 \<longrightarrow> k = 0" using k x by (cases "k = 0"; force)+
  ultimately show "hc_two c hist src oend m0 hc0 (hc_optimal v)"
    using k x U hk by (auto simp: hc_two_def hc_move2_def algebra_simps intro: hc_base_inv_cong [OF B])
  show "v_anchor (hc_optimal v) = v_anchor v" "v_start2 (hc_optimal v) + v_ml2 (hc_optimal v) = v_start2 v + v_ml2 v"
    by (simp_all add: k(1) hc_move2_def)
qed


text \<open>The four ways out of \<open>_Search3\<close>. No third match: both are emitted.\<close>

lemma hc_no_third:
  assumes T: "hc_two c hist src oend m0 hc0 v" and O: "hc_out c src oend" and anc: "v_anchor v0 = v_anchor v"
    and l: "l = (if v_start2 v < v_ip v + v_ml v then v_start2 v - v_ip v else v_ml v)" and v1: "v1 = v\<lparr>v_ml := l\<rparr>"
  shows "ok (hc_step_post c hist src oend m0 hc0 Search3 v0)
      (do { (full, v) \<leftarrow> hc_emit a c v1 l (v_ref v);
            if full then Some (ReturnZero, v)
            else do { (full, v) \<leftarrow> hc_emit a c (v\<lparr>v_ip := v_start2 v\<rparr>) (v_ml2 v) (v_ref2 v);
                      Some (if full then ReturnZero else MainLoop, v) } })"
proof -
  have B: "hc_base_inv c hist src oend m0 hc0 v" and hk: "hc_ok c hist (v_start2 v + v_ml2 v - 3) (v_hc v)"
    and U: "usable c hist src (v_anchor v) (v_ip v) (v_ref v) (v_ml v)" and U2: "usable c hist src (v_anchor v) (v_start2 v) (v_ref2 v) (v_ml2 v)"
    and x: "4 \<le> v_start2 v - v_ip v" using T by (auto simp: hc_two_def)
  note b = usable_bounds [OF U] usable_bounds [OF U2]
  have E: "hc_env c hist src oend (v_m v)" using B by (simp add: hc_base_inv_def)
  have ll: "4 \<le> l" "l \<le> v_ml v" "v_ip v + l \<le> v_start2 v" using x b l by auto
  have B1: "hc_base_inv c hist src oend m0 hc0 v1" by (rule hc_base_inv_cong [OF B]) (simp_all add: v1)
  have U1: "usable c hist src (v_anchor v1) (v_ip v1) (v_ref v) l" using usable_cut [OF U ll(1,2)] by (simp add: v1)
  have he: "hc_ok c hist (e_iend c) (v_hc v)" using hc_ok_mono [OF hk] b hc_env_limits [OF E] by auto
  show ?thesis
  proof (rule hc_emit_cases [OF B1 O U1, of a])
    fix m assume "hc_emit a c v1 l (v_ref v) = Some (True, v1\<lparr>v_m := m\<rparr>)" "frame m0 m (e_dest c) oend" "e_outputLimited c = limitedOutput"
    then show ?thesis using hc_inv_full [OF B1] he anc by (simp add: hc_less_phase v1 del: hc_inv.simps)
  next
    fix m op
    let ?v = "v1\<lparr>v_m := m, v_ip := v_ip v1 + l, v_op := op, v_anchor := v_ip v1 + l\<rparr>"
    let ?w = "?v\<lparr>v_ip := v_start2 v\<rparr>"
    assume e: "hc_emit a c v1 l (v_ref v) = Some (False, ?v)" and Bv: "hc_base_inv c hist src oend m0 hc0 ?v"
    have Bw: "hc_base_inv c hist src oend m0 hc0 ?w" by (rule hc_base_inv_cong [OF Bv]) simp_all
    have Uw: "usable c hist src (v_anchor ?w) (v_ip ?w) (v_ref2 v) (v_ml2 v)" using usable_anchor [OF U2] ll by (simp add: v1)
    have "ok (hc_step_post c hist src oend m0 hc0 Search3 ?w)
        (do { (full, v) \<leftarrow> hc_emit a c ?w (v_ml2 v) (v_ref2 v); Some (if full then ReturnZero else MainLoop, v) })"
      by (rule hc_emit_main [OF Bw O Uw]) (use hc_ok_mono [OF hk] in \<open>auto simp: v1\<close>)
    moreover have "(?w, v0) \<in> {(w, v). v_anchor v < v_anchor w \<and> v_anchor w \<le> e_iend c}"
      using ll b anc hc_env_limits [OF E] by (simp add: v1)
    then have "((lab', v'), Search3, v0) \<in> hc_less c" if "((lab', v'), Search3, ?w) \<in> hc_less c" for lab' v'
      using that by (auto simp: hc_less_def)
    ultimately show ?thesis using e by (auto simp: v1 simp del: hc_inv.simps elim!: ok_mono)
  qed
qed

text \<open>Match 2 has no room: match 1 is emitted and match 3 takes its place, match 2 being kept as match 0.\<close>

lemma hc_replace_first:
  assumes T: "hc_two c hist src oend m0 hc0 v" and H: "hc_three c hist src v" and O: "hc_out c src oend" and anc: "v_anchor v0 = v_anchor v"
    and s3: "v_ip v + v_ml v \<le> v_start3 v" "v_start3 v < v_ip v + v_ml v + 3"
    and v1: "v1 = (if v_start2 v < v_ip v + v_ml v
                   then (let v = hc_move2 v (v_ip v + v_ml v - v_start2 v)
                         in if v_ml2 v < 4 then v\<lparr>v_start2 := v_start3 v, v_ref2 := v_ref3 v, v_ml2 := v_ml3 v\<rparr> else v)
                   else v)"
  shows "ok (hc_step_post c hist src oend m0 hc0 Search3 v0)
      (do { (full, v) \<leftarrow> hc_emit a c v1 (v_ml v1) (v_ref v1);
            Some (if full then (ReturnZero, v)
                  else (Search2, v\<lparr>v_ip := v_start3 v, v_ref := v_ref3 v, v_ml := v_ml3 v,
                                   v_start0 := v_start2 v, v_ref0 := v_ref2 v, v_ml0 := v_ml2 v\<rparr>)) })"
proof -
  have B: "hc_base_inv c hist src oend m0 hc0 v" and hk: "hc_ok c hist (v_start2 v + v_ml2 v - 3) (v_hc v)"
    and U: "usable c hist src (v_anchor v) (v_ip v) (v_ref v) (v_ml v)" and U2: "usable c hist src (v_anchor v) (v_start2 v) (v_ref2 v) (v_ml2 v)"
    and x: "4 \<le> v_start2 v - v_ip v" "v_ip v + v_ml v < e_mflimit c" using T by (auto simp: hc_two_def)
  have U3: "usable c hist src (v_anchor v) (v_start3 v) (v_ref3 v) (v_ml3 v)"
    and y: "v_ml2 v < v_ml3 v" "v_start2 v \<le> v_start3 v" "v_start2 v + v_ml2 v + 1 \<le> v_start3 v + v_ml3 v"
    using H by (auto simp: hc_three_def)
  note b = usable_bounds [OF U] usable_bounds [OF U2] usable_bounds [OF U3]
  have E: "hc_env c hist src oend (v_m v)" and dct: "e_dict c = withPrefix64k" using B by (auto simp: hc_base_inv_def hc_env_def)
  have he: "hc_ok c hist (e_iend c) (v_hc v)" using hc_ok_mono [OF hk] b hc_env_limits [OF E] by auto
  have keep: "v_m v1 = v_m v" "v_op v1 = v_op v" "v_anchor v1 = v_anchor v" "v_hc v1 = v_hc v" "v_ip v1 = v_ip v" "v_ml v1 = v_ml v"
      "v_ref v1 = v_ref v" "v_start3 v1 = v_start3 v" "v_ml3 v1 = v_ml3 v" "v_ref3 v1 = v_ref3 v"
    by (simp_all add: v1 hc_move2_def Let_def)
  have B1: "hc_base_inv c hist src oend m0 hc0 v1" by (rule hc_base_inv_cong [OF B]) (simp_all add: keep)
  let ?k = "v_ip v + v_ml v - v_start2 v"
  have shift: "usable c hist src (v_anchor v) (v_start2 v + ?k) (v_ref2 v + ?k) (v_ml2 v - ?k)" if "0 \<le> ?k" "4 \<le> v_ml2 v - ?k"
    by (rule usable_shift [OF U2 that]) (use x dct in auto)
  have 0: "usable c hist src (v_ip v + v_ml v) (v_start2 v1) (v_ref2 v1) (v_ml2 v1)" "v_start2 v1 \<le> v_start3 v" "v_start3 v \<le> v_start2 v1 + 2"
      "v_ml2 v1 \<le> v_ml3 v" "v_start2 v1 < v_start3 v \<longrightarrow> v_ml2 v1 < v_ml3 v"
    using s3 y U2 U3 shift by (auto simp: v1 hc_move2_def Let_def intro: usable_anchor)
  have 3: "usable c hist src (v_ip v + v_ml v) (v_start3 v) (v_ref3 v) (v_ml3 v)" by (rule usable_anchor [OF U3 s3(1)])
  have hs: "hc_ok c hist (v_start3 v + v_ml3 v - 2) (v_hc v)" by (rule hc_ok_mono [OF hk]) (use y in auto)
  show ?thesis
  proof (rule hc_emit_step [OF B1 O])
    fix m op
    assume "hc_base_inv c hist src oend m0 hc0 (v1\<lparr>v_m := m, v_ip := v_ip v1 + v_ml v1, v_op := op, v_anchor := v_ip v1 + v_ml v1\<rparr>)"
    from hc_base_inv_cong [OF this] 0 3 hs
    show "hc_inv c hist src oend m0 hc0 Search2
        ((\<lambda>v. v\<lparr>v_ip := v_start3 v, v_ref := v_ref3 v, v_ml := v_ml3 v, v_start0 := v_start2 v, v_ref0 := v_ref2 v, v_ml0 := v_ml2 v\<rparr>)
          (v1\<lparr>v_m := m, v_ip := v_ip v1 + v_ml v1, v_op := op, v_anchor := v_ip v1 + v_ml v1\<rparr>))"
      by (simp add: keep)
  qed (use U he anc in \<open>simp_all add: keep\<close>)
qed

text \<open>Match 2 is dropped in favour of match 3.\<close>

lemma hc_replace_second:
  assumes T: "hc_two c hist src oend m0 hc0 v" and H: "hc_three c hist src v" and anc: "v_anchor v0 = v_anchor v"
    and e: "v_start2 v0 + v_ml2 v0 = v_start2 v + v_ml2 v" and s3: "v_start3 v < v_ip v + v_ml v"
  shows "hc_step_post c hist src oend m0 hc0 Search3 v0 (Search3, v\<lparr>v_start2 := v_start3 v, v_ref2 := v_ref3 v, v_ml2 := v_ml3 v\<rparr>)"
proof -
  have B: "hc_base_inv c hist src oend m0 hc0 v" using T by (simp add: hc_two_def)
  then have E: "hc_env c hist src oend (v_m v)" by (simp add: hc_base_inv_def)
  have hk: "hc_ok c hist (v_start3 v + v_ml3 v - 3) (v_hc v)"
    by (rule hc_ok_mono [of c hist "v_start2 v + v_ml2 v - 3"]) (use T H in \<open>auto simp: hc_two_def hc_three_def\<close>)
  have U3: "usable c hist src (v_anchor v) (v_start3 v) (v_ref3 v) (v_ml3 v)" using H by (simp add: hc_three_def)
  have "hc_inv c hist src oend m0 hc0 Search3 (v\<lparr>v_start2 := v_start3 v, v_ref2 := v_ref3 v, v_ml2 := v_ml3 v\<rparr>)"
    using T H hk s3 usable_bounds [of c hist src "v_anchor v" "v_start2 v" "v_ref2 v" "v_ml2 v"]
    by (auto simp: hc_two_def hc_three_def intro: hc_base_inv_cong [OF B])
  moreover have "hc_rest c Search3 (v\<lparr>v_start2 := v_start3 v, v_ref2 := v_ref3 v, v_ml2 := v_ml3 v\<rparr>) < hc_rest c Search3 v0"
    using H e usable_bounds [OF U3] hc_env_limits [OF E] by (auto simp: hc_three_def)
  ultimately show ?thesis using anc by (simp add: hc_less_rest del: hc_inv.simps hc_rest.simps)
qed

text \<open>Three ascending matches: the first is emitted.\<close>

lemma hc_ascend:
  assumes T: "hc_two c hist src oend m0 hc0 v" and H: "hc_three c hist src v" and O: "hc_out c src oend" and anc: "v_anchor v0 = v_anchor v"
    and s3: "v_ip v + v_ml v + 3 \<le> v_start3 v" and v1: "v1 = hc_ascending v"
  shows "ok (hc_step_post c hist src oend m0 hc0 Search3 v0)
      (do { (full, v) \<leftarrow> hc_emit a c v1 (v_ml v1) (v_ref v1);
            Some (if full then (ReturnZero, v)
                  else (Search3, v\<lparr>v_ip := v_start2 v, v_ref := v_ref2 v, v_ml := v_ml2 v,
                                   v_start2 := v_start3 v, v_ref2 := v_ref3 v, v_ml2 := v_ml3 v\<rparr>)) })"
proof -
  have B: "hc_base_inv c hist src oend m0 hc0 v" and hk: "hc_ok c hist (v_start2 v + v_ml2 v - 3) (v_hc v)"
    and U: "usable c hist src (v_anchor v) (v_ip v) (v_ref v) (v_ml v)" and U2: "usable c hist src (v_anchor v) (v_start2 v) (v_ref2 v) (v_ml2 v)"
    and x: "4 \<le> v_start2 v - v_ip v" "v_start2 v \<le> v_ip v + v_ml v + 1" "v_start2 v = v_ip v + v_ml v + 1 \<longrightarrow> 6 \<le> v_ml2 v"
      "v_ip v + v_ml v < e_mflimit c" using T by (auto simp: hc_two_def)
  have U3: "usable c hist src (v_anchor v) (v_start3 v) (v_ref3 v) (v_ml3 v)"
    and y: "v_ml2 v < v_ml3 v" "v_start2 v \<le> v_start3 v" "v_start3 v \<le> v_start2 v + v_ml2 v - 3"
      "v_start2 v + v_ml2 v + 1 \<le> v_start3 v + v_ml3 v" "v_start2 v + v_ml2 v < e_mflimit c"
    using H by (auto simp: hc_three_def)
  note b = usable_bounds [OF U] usable_bounds [OF U2] usable_bounds [OF U3]
  have E: "hc_env c hist src oend (v_m v)" and dct: "e_dict c = withPrefix64k" using B by (auto simp: hc_base_inv_def hc_env_def)
  obtain k l where k: "hc_ascending v = (hc_move2 v k)\<lparr>v_ml := l\<rparr>" "0 \<le> k" "4 \<le> v_ml2 v - k" "4 \<le> l" "l \<le> v_ml v"
      "v_ip v + l \<le> v_start2 v + k" "0 < k \<longrightarrow> v_start2 v + k \<le> v_ip v + v_ml v" "v_start2 v < v_ip v + v_ml v \<longrightarrow> v_start2 v + k \<le> v_ip v + v_ml v"
    using hc_ascending_move [of v] b x by blast
  have he: "hc_ok c hist (e_iend c) (v_hc v)" using hc_ok_mono [OF hk] b hc_env_limits [OF E] by auto
  have keep: "v_m v1 = v_m v" "v_op v1 = v_op v" "v_anchor v1 = v_anchor v" "v_hc v1 = v_hc v" "v_ip v1 = v_ip v" "v_ml v1 = l"
      "v_ref v1 = v_ref v" "v_start3 v1 = v_start3 v" "v_ml3 v1 = v_ml3 v" "v_ref3 v1 = v_ref3 v"
      "v_start2 v1 = v_start2 v + k" "v_ref2 v1 = v_ref2 v + k" "v_ml2 v1 = v_ml2 v - k"
    by (simp_all add: v1 k(1) hc_move2_def)
  have B1: "hc_base_inv c hist src oend m0 hc0 v1" by (rule hc_base_inv_cong [OF B]) (simp_all add: keep)
  have 2: "usable c hist src (v_ip v + l) (v_start2 v + k) (v_ref2 v + k) (v_ml2 v - k)"
    by (rule usable_anchor [OF usable_shift [OF U2 k(2,3)] k(6)]) (use k x b dct in \<open>cases "k = 0", auto\<close>)
  have 3: "usable c hist src (v_ip v + l) (v_start3 v) (v_ref3 v) (v_ml3 v)" by (rule usable_anchor [OF U3]) (use k s3 in auto)
  have hs: "hc_ok c hist (v_start3 v + v_ml3 v - 3) (v_hc v)" by (rule hc_ok_mono [OF hk]) (use y in auto)
  have lt: "v_start2 v + k < v_start3 v" "8 \<le> v_start3 v - (v_start2 v + k) + v_ml3 v" "5 \<le> v_ml3 v"
  proof -
    show five: "5 \<le> v_ml3 v" using b y(1) by linarith
    consider "v_start2 v + k \<le> v_ip v + v_ml v" | "k = 0" "v_start2 v = v_ip v + v_ml v + 1"
      using k(2,7,8) x(2) by linarith
    then show "v_start2 v + k < v_start3 v" "8 \<le> v_start3 v - (v_start2 v + k) + v_ml3 v"
      using x(3) y(1) s3 five by (cases; linarith)+
  qed
  show ?thesis
  proof (rule hc_emit_step [OF B1 O])
    fix m op
    assume "hc_base_inv c hist src oend m0 hc0 (v1\<lparr>v_m := m, v_ip := v_ip v1 + v_ml v1, v_op := op, v_anchor := v_ip v1 + v_ml v1\<rparr>)"
    from hc_base_inv_cong [OF this] 2 3 hs lt y
    show "hc_inv c hist src oend m0 hc0 Search3
        ((\<lambda>v. v\<lparr>v_ip := v_start2 v, v_ref := v_ref2 v, v_ml := v_ml2 v, v_start2 := v_start3 v, v_ref2 := v_ref3 v, v_ml2 := v_ml3 v\<rparr>)
          (v1\<lparr>v_m := m, v_ip := v_ip v1 + v_ml v1, v_op := op, v_anchor := v_ip v1 + v_ml v1\<rparr>))"
      by (simp add: keep)
  qed (use usable_cut [OF U k(4,5)] he anc in \<open>simp_all add: keep\<close>)
qed

lemma LZ4HC_search3_step_ok:
  assumes O: "hc_out c src oend" and I: "hc_inv c hist src oend m0 hc0 Search3 v0"
  shows "ok (hc_step_post c hist src oend m0 hc0 Search3 v0) (LZ4HC_search3_step a c nb v0)"
proof -
  define v where "v = hc_optimal v0"
  have T: "hc_two c hist src oend m0 hc0 v" and anc: "v_anchor v = v_anchor v0" and e: "v_start2 v + v_ml2 v = v_start2 v0 + v_ml2 v0"
    using hc_two_optimal [OF I] by (simp_all add: v_def)
  have B: "hc_base_inv c hist src oend m0 hc0 v" and hk: "hc_ok c hist (v_start2 v + v_ml2 v - 3) (v_hc v)"
    and U2: "usable c hist src (v_anchor v) (v_start2 v) (v_ref2 v) (v_ml2 v)" using T by (simp_all add: hc_two_def)
  note b = usable_bounds [OF U2]
  let ?l = "\<lambda>v. if v_start2 v < v_ip v + v_ml v then v_start2 v - v_ip v else v_ml v"
  have upd: "(if v_start2 v < v_ip v + v_ml v then v\<lparr>v_ml := v_start2 v - v_ip v\<rparr> else v) = v\<lparr>v_ml := ?l v\<rparr>" for v by simp
  have two: "hc_two c hist src oend m0 hc0 (v\<lparr>v_ml3 := l, v_ref3 := r, v_start3 := s, v_hc := hc\<rparr>)"
    if "hc_ok c hist (v_start2 v + v_ml2 v - 3) hc" "hc_kept (v_hc v) hc" for l r s hc
    using T that by (auto simp: hc_two_def intro: hc_base_inv_cong [OF B])
  show ?thesis
  proof (cases "v_start2 v + v_ml2 v < e_mflimit c")
    case False
    define w where "w = v\<lparr>v_ml3 := v_ml2 v\<rparr>"
    have "hc_two c hist src oend m0 hc0 w" using T by (auto simp: hc_two_def w_def intro: hc_base_inv_cong [OF B])
    from hc_no_third [OF this O _ refl refl, of v0 a] anc show ?thesis
      using False unfolding LZ4HC_search3_step_def Let_def v_def [symmetric] upd by (simp add: w_def cong: if_cong)
  next
    case True
    obtain l r s hc where w:
        "LZ4HC_InsertAndGetWiderMatch a (v_m v) (v_hc v) (v_start2 v + v_ml2 v - 3) (v_start2 v) (e_matchlimit c) (v_ml2 v) (v_ref3 v) (v_start3 v) nb = Some (l, r, s, hc)"
        "hc_ok c hist (v_start2 v + v_ml2 v - 3) hc" "hc_kept (v_hc v) hc"
      and x: "l = v_ml2 v \<or> v_ml2 v < l \<and> usable c hist src (v_anchor v) s r l \<and> v_start2 v \<le> s \<and>
           s \<le> v_start2 v + v_ml2 v - 3 \<and> v_start2 v + v_ml2 v - 3 + 4 \<le> s + l"
      by (rule hc_search_wider [OF B, of "v_start2 v" "v_ml2 v" 3 "v_start2 v" a "v_ref3 v" "v_start3 v" nb]) (use hk b True in auto)
    define w where "w = v\<lparr>v_ml3 := l, v_ref3 := r, v_start3 := s, v_hc := hc\<rparr>"
    have T': "hc_two c hist src oend m0 hc0 w" unfolding w_def by (rule two [OF w(2,3)])
    have step: "LZ4HC_search3_step a c nb v0 =
        (if v_ml3 w = v_ml2 w
         then do { (full, v) \<leftarrow> hc_emit a c (w\<lparr>v_ml := ?l w\<rparr>) (?l w) (v_ref w);
                   if full then Some (ReturnZero, v)
                   else do { (full, v) \<leftarrow> hc_emit a c (v\<lparr>v_ip := v_start2 v\<rparr>) (v_ml2 v) (v_ref2 v);
                             Some (if full then ReturnZero else MainLoop, v) } }
         else if v_start3 w < v_ip w + v_ml w + 3
         then (if v_start3 w \<ge> v_ip w + v_ml w
               then (let v = (if v_start2 w < v_ip w + v_ml w
                              then (let v = hc_move2 w (v_ip w + v_ml w - v_start2 w)
                                    in if v_ml2 v < 4 then v\<lparr>v_start2 := v_start3 v, v_ref2 := v_ref3 v, v_ml2 := v_ml3 v\<rparr> else v)
                              else w) in
                     do { (full, v) \<leftarrow> hc_emit a c v (v_ml v) (v_ref v);
                          Some (if full then (ReturnZero, v)
                                else (Search2, v\<lparr>v_ip := v_start3 v, v_ref := v_ref3 v, v_ml := v_ml3 v,
                                                 v_start0 := v_start2 v, v_ref0 := v_ref2 v, v_ml0 := v_ml2 v\<rparr>)) })
               else Some (Search3, w\<lparr>v_start2 := v_start3 w, v_ref2 := v_ref3 w, v_ml2 := v_ml3 w\<rparr>))
         else (let v = hc_ascending w in
               do { (full, v) \<leftarrow> hc_emit a c v (v_ml v) (v_ref v);
                    Some (if full then (ReturnZero, v)
                          else (Search3, v\<lparr>v_ip := v_start2 v, v_ref := v_ref2 v, v_ml := v_ml2 v,
                                           v_start2 := v_start3 v, v_ref2 := v_ref3 v, v_ml2 := v_ml3 v\<rparr>)) }))"
      unfolding LZ4HC_search3_step_def Let_def v_def [symmetric] upd using True w(1) by (simp add: w_def)
    have anc': "v_anchor v0 = v_anchor w" and e': "v_start2 v0 + v_ml2 v0 = v_start2 w + v_ml2 w" using anc e by (simp_all add: w_def)
    show ?thesis
    proof (cases "l = v_ml2 v")
      case True
      then show ?thesis unfolding step using hc_no_third [OF T' O anc' refl refl, of a] by (simp add: w_def)
    next
      case False
      then have H: "hc_three c hist src w" using x True by (auto simp: hc_three_def w_def)
      have ne: "v_ml3 w \<noteq> v_ml2 w" using False by (simp add: w_def)
      show ?thesis
      proof (cases "v_start3 w < v_ip w + v_ml w + 3")
        case lt: True
        show ?thesis
        proof (cases "v_start3 w \<ge> v_ip w + v_ml w")
          case ge: True
          show ?thesis
            using hc_replace_first [OF T' H O anc' ge lt refl, of a] unfolding step if_not_P [OF ne] if_P [OF lt] if_P [OF ge] Let_def .
        next
          case False
          then show ?thesis
            using hc_replace_second [OF T' H anc' e'] unfolding step if_not_P [OF ne] if_P [OF lt] if_not_P [OF False] by (simp del: hc_inv.simps)
        qed
      next
        case False
        then show ?thesis
          using hc_ascend [OF T' H O anc' _ refl, of a] unfolding step if_not_P [OF ne] if_not_P [OF False] Let_def by simp
      qed
    qed
  qed
qed


lemma LZ4HC_step_ok:
  assumes "hc_out c src oend" "hc_inv c hist src oend m0 hc0 lab v" "lab \<noteq> EncodeLast" "lab \<noteq> ReturnZero"
  shows "ok (hc_step_post c hist src oend m0 hc0 lab v) (LZ4HC_step a c nb lab v)"
  using assms LZ4HC_main_step_ok LZ4HC_search2_step_ok LZ4HC_search3_step_ok by (cases lab) (simp_all del: hc_inv.simps)

lemma wf_hc_less: "wf (hc_less c)"
  by (simp add: hc_less_def)

text \<open>The parser ends at the last literals or at \<open>return 0\<close>.\<close>

lemma LZ4HC_loop_ok:
  assumes O: "hc_out c src oend" and "hc_inv c hist src oend m0 hc0 lab v"
  shows "ok (\<lambda>(lab', v'). (lab' = EncodeLast \<or> lab' = ReturnZero) \<and> hc_inv c hist src oend m0 hc0 lab' v') (LZ4HC_loop a c nb lab v)"
  using assms(2)
proof (induction "(lab, v)" arbitrary: lab v rule: wf_induct_rule [OF wf_hc_less [of c]])
  case (1 lab v)
  show ?case
  proof (cases "lab = EncodeLast \<or> lab = ReturnZero")
    case True
    with "1.prems" show ?thesis by (subst LZ4HC_loop.simps) simp
  next
    case False
    from okD [OF LZ4HC_step_ok [OF O "1.prems", of a nb]] False obtain lab' v' where
      s: "LZ4HC_step a c nb lab v = Some (lab', v')" "hc_inv c hist src oend m0 hc0 lab' v'" "((lab', v'), lab, v) \<in> hc_less c" by auto
    from "1.hyps" [OF s(3,2)] s(1) False show ?thesis by (subst LZ4HC_loop.simps) simp
  qed
qed

text \<open>The whole function, with the history directly before the input.\<close>

lemma LZ4HC_compress_generic_ok:
  assumes c: "c = LZ4HC_ctx ctx source dest (int (length src)) maxOutputSize limit"
    and E: "hc_env c hist src oend m" and O: "hc_out c src oend" and hk: "hc_ok c hist source ctx"
  shows "ok (\<lambda>(r, m', ctx'). comp_post c hist src oend m r m' \<and> hc_ok c hist (source + int (length src)) ctx' \<and>
                hc_kept (ctx\<lparr>hc_end := hc_end ctx + int (length src)\<rparr>) ctx')
           (LZ4HC_compress_generic a m ctx source dest (int (length src)) maxOutputSize level limit)"
proof -
  define v where "v = \<lparr>v_m = m, v_hc = ctx\<lparr>hc_end := hc_end ctx + int (length src)\<rparr>, v_ip = source + 1, v_op = dest, v_anchor = source, v_ml = 0, v_ref = 0, v_ml2 = 0,
               v_start2 = 0, v_ref2 = 0, v_ml3 = 0, v_start3 = 0, v_ref3 = 0, v_ml0 = 0, v_start0 = 0, v_ref0 = 0\<rparr>"
  have e: "e_source c = source" "e_dest c = dest" "e_iend c = source + int (length src)" by (simp_all add: c LZ4HC_ctx_def Let_def)
  have E': "enc_env c hist src oend m" and O': "enc_out c src oend" using E O by (simp_all add: hc_env_def hc_out_def)
  have "dest \<le> oend" using O' by (auto simp: enc_out_def e split: if_splits)
  then have "emitted c hist src oend [] source dest m" by (simp add: emitted_def e)
  moreover have hk': "hc_ok c hist x (ctx\<lparr>hc_end := hc_end ctx + int (length src)\<rparr>)" if "source \<le> x" for x
    using hk that by (simp add: hc_ok_def chain_ok_def)
  ultimately have "hc_inv c hist src oend m (ctx\<lparr>hc_end := hc_end ctx + int (length src)\<rparr>) MainLoop v"
    using E by (auto simp: v_def hc_base_inv_def e intro: hk')
  from okD [OF LZ4HC_loop_ok [OF O this, of a "LZ4HC_maxNbAttempts level"]] obtain lab v' where
    l: "LZ4HC_loop a c (LZ4HC_maxNbAttempts level) MainLoop v = Some (lab, v')" "lab = EncodeLast \<or> lab = ReturnZero"
      "hc_inv c hist src oend m (ctx\<lparr>hc_end := hc_end ctx + int (length src)\<rparr>) lab v'" by auto
  have g: "LZ4HC_compress_generic a m ctx source dest (int (length src)) maxOutputSize level limit =
      (if lab = ReturnZero then Some (0, v_m v', v_hc v') else if e_iend c < v_anchor v' then None
       else do { (r, m) \<leftarrow> LZ4_last_literals c (v_m v') (v_anchor v') (v_op v'); Some (r, m, v_hc v') })"
    using l(1) by (simp add: LZ4HC_compress_generic_def Let_def v_def c)
  show ?thesis
  proof (cases "lab = ReturnZero")
    case True
    then show ?thesis using l(3) g by (auto simp: comp_post_def e)
  next
    case False
    with l have B: "hc_base_inv c hist src oend m (ctx\<lparr>hc_end := hc_end ctx + int (length src)\<rparr>) v'" and h: "hc_ok c hist (e_iend c) (v_hc v')" by auto
    then obtain ss where M: "emitted c hist src oend ss (v_anchor v') (v_op v') (v_m v')" and En: "enc_env c hist src oend (v_m v')"
      and f: "frame m (v_m v') (e_dest c) oend" by (auto simp: hc_base_inv_def hc_env_def)
    have "v_anchor v' \<le> e_iend c" using M by (simp add: emitted_def)
    then show ?thesis
      using False g B h LZ4_last_literals_post [OF En O' M] comp_post_trans [OF _ f] by (auto simp: e hc_base_inv_def elim!: ok_mono)
  qed
qed

end
