(* ===== verification/Lz4_HC_Api.thy ===== *)
theory Lz4_HC_Api
  imports Lz4_HC_Correct Lz4_Stream
begin

text \<open>
  The entry points of \<^verbatim>\<open>lz4hc.c\<close>: one-shot compression as an instance of the block compressor,
  streams whose blocks follow each other in memory, loading and saving the dictionary, and the
  literal run for which the output limit is tested wrongly.
\<close>

section \<open>One-shot compression\<close>

text \<open>The conditions of a call of \<open>LZ4_compress_HC\<close>; the last one excludes the limited buffers for which the test of
  the output limit is too weak (\<open>LZ4HC_encodeSequence_overflow\<close>): inputs of more than 4094 bytes with less than \<open>LZ4_compressBound\<close>.\<close>

definition hc_call :: "mem \<Rightarrow> addr \<Rightarrow> byte list \<Rightarrow> addr \<Rightarrow> int \<Rightarrow> bool" where
  "hc_call m source src dest cap \<longleftrightarrow>
     bytes_at m source src \<and> mapped m dest (dest + cap) \<and> (source + int (length src) \<le> dest \<or> dest + cap \<le> source) \<and>
     0 \<le> cap \<and> cap < 2 ^ 31 \<and> int (length src) \<le> LZ4_MAX_INPUT_SIZE \<and>
     (LZ4_compressBound (int (length src)) \<le> cap \<or> length src \<le> 4094)"

text \<open>A call with the history directly before the input, in a buffer that is apart from both.\<close>

lemma hc_ctx_env:
  assumes K: "hc_call m source src dest cap" and c: "c = LZ4HC_ctx ctx source dest (int (length src)) cap limit"
    and hist: "bytes_at m (source - int (length hist)) hist" "source \<le> dest \<or> dest + cap \<le> source - int (length hist)"
    and b: "hc_base ctx + dictLimit ctx = source - int (length hist)"
    and lim: "limit = (if cap < LZ4_compressBound (int (length src)) then limitedOutput else notLimited)"
  shows "hc_env c hist src (dest + cap) m" "hc_out c src (dest + cap)"
proof -
  have bd: "LZ4_compressBound (int (length src)) = int (length src + length src div 255 + 16)"
    using K by (simp add: hc_call_def compressBound_eq zdiv_int)
  show "hc_env c hist src (dest + cap) m"
    using K hist b unfolding hc_env_def enc_env_def hc_call_def c
    by (auto simp: LZ4HC_ctx_def Let_def hist_mem_def hist_apart_def)
  show "hc_out c src (dest + cap)"
    using K lim bd unfolding hc_out_def enc_out_def hc_call_def c by (auto simp: LZ4HC_ctx_def Let_def)
qed

lemma hc_ok_init:
  assumes "int (length src) \<le> LZ4_MAX_INPUT_SIZE"
  shows "hc_ok (LZ4HC_ctx (LZ4HC_init hc source) source dest (int (length src)) cap limit) [] source (LZ4HC_init hc source)"
  using assms by (simp add: hc_ok_def chain_ok_def LZ4HC_init_def LZ4HC_ctx_def Let_def)

lemma comp_post_compressed:
  assumes P: "comp_post c [] src (dest + cap) m r m'" and c: "e_dest c = dest" and n: "int (length src) \<le> LZ4_MAX_INPUT_SIZE"
    and lim: "e_outputLimited c = limitedOutput \<Longrightarrow> cap < LZ4_compressBound (int (length src))"
  shows "compressed m m' src dest cap r"
proof -
  have bd: "LZ4_compressBound (int (length src)) = int (length src + length src div 255 + 16)"
    using n by (simp add: compressBound_eq zdiv_int)
  from P consider "r = 0" "e_outputLimited c = limitedOutput"
    | blk where "valid_block 0 blk" "expand [] blk = src" "bytes_at m' dest (encode blk)" "r = int (length (encode blk))" "dest + r \<le> dest + cap"
        "r \<le> int (length src + length src div 255 + 2)"
    unfolding comp_post_def c by auto
  then show ?thesis
  proof cases
    case 2
    then have "r \<le> cap" "r \<le> LZ4_compressBound (int (length src))" using bd by auto
    with 2 P show ?thesis unfolding compressed_def comp_post_def c by blast
  qed (use P lim c in \<open>auto simp: compressed_def comp_post_def\<close>)
qed

lemma LZ4_compress_HC_extStateHC_ok:
  assumes K: "hc_call m source src dest cap" and st: "state mod STEPSIZE a = 0"
  shows "ok (\<lambda>(r, m', st'). compressed m m' src dest cap r)
           (LZ4_compress_HC_extStateHC a m state hc source dest (int (length src)) cap level)"
proof -
  define limit where "limit = (if cap < LZ4_compressBound (int (length src)) then limitedOutput else notLimited)"
  define ctx where "ctx = LZ4HC_init hc source"
  define c where "c = LZ4HC_ctx ctx source dest (int (length src)) cap limit"
  have b: "hc_base ctx + dictLimit ctx = source - int (length ([] :: byte list))" by (simp add: ctx_def LZ4HC_init_def)
  have E: "hc_env c [] src (dest + cap) m" "hc_out c src (dest + cap)"
    by (rule hc_ctx_env [OF K c_def _ _ b limit_def]; use K in \<open>auto simp: hc_call_def\<close>)+
  have hk: "hc_ok c [] source ctx" unfolding c_def ctx_def by (rule hc_ok_init) (use K in \<open>simp add: hc_call_def\<close>)
  have e: "e_dest c = dest" "e_outputLimited c = limit" by (simp_all add: c_def LZ4HC_ctx_def Let_def)
  have "ok (\<lambda>(r, m', st'). compressed m m' src dest cap r) (LZ4HC_compress_generic a m ctx source dest (int (length src)) cap level limit)"
    by (rule ok_mono [OF LZ4HC_compress_generic_ok [OF c_def E hk]], clarify, rule comp_post_compressed)
       (use K in \<open>auto simp: e limit_def hc_call_def split: if_splits\<close>)
  then show ?thesis using st by (simp add: LZ4_compress_HC_extStateHC_def Let_def ctx_def limit_def split: if_splits)
qed

lemma LZ4_compress_HC_ok:
  assumes "hc_call m source src dest cap"
  shows "ok (\<lambda>(r, m'). compressed m m' src dest cap r) (LZ4_compress_HC a m hc source dest (int (length src)) cap level)"
  using LZ4_compress_HC_extStateHC_ok [OF assms, of 0 a hc level] unfolding LZ4_compress_HC_def by (auto elim!: ok_mono)

interpretation hc: block_compressor
  "\<lambda>m source dest n cap. LZ4_compress_HC a m st source dest n cap level" hc_call for a st level
  by unfold_locales (rule LZ4_compress_HC_ok)

text \<open>C9: \<open>LZ4_compress_HC\<close> refines the block format at every compression level. With a capacity of at least \<open>LZ4_compressBound\<close>, or
  with any capacity for an input of at most 4094 bytes, it terminates, touches only its buffers, and returns either 0, only when the
  capacity is below \<open>LZ4_compressBound\<close>, or the size of an encoded valid block that expands to the input and fits the capacity.
  Smaller buffers for longer inputs are excluded, because the code's limit test lets it write past the end of the
  buffer (\<open>LZ4HC_encodeSequence_overflow\<close>).\<close>

theorem LZ4_compress_HC_correct:
  assumes "hc_call m source src dest cap"
  shows "ok (\<lambda>(r, m'). frame m m' dest (dest + cap) \<and>
              (r = 0 \<and> cap < LZ4_compressBound (int (length src)) \<or>
               (\<exists>blk. valid_block 0 blk \<and> expand [] blk = src \<and> bytes_at m' dest (encode blk) \<and>
                      r = int (length (encode blk)) \<and> r \<le> cap)))
           (LZ4_compress_HC a m hc source dest (int (length src)) cap level)"
  by (rule ok_mono [OF hc.compress_block [OF assms]]) (auto simp: compressed_def)

text \<open>C8: Round trip of the high-compression encoder: what \<open>LZ4_compress_HC\<close> produces at any level \<open>LZ4_decompress_safe\<close>
  turns back into the input; with a capacity of \<open>LZ4_compressBound\<close> it always produces something. A smaller capacity is covered for
  inputs of at most 4094 bytes (\<open>hc_call\<close>).\<close>

theorem LZ4_HC_roundtrip:
  assumes "hc_call m source src dest cap" "mapped m back (back + n)" "int (length src) \<le> n" "n < 2 ^ 31"
    and "dest + cap \<le> back \<or> back + n \<le> dest" "0 \<le> dest" "0 \<le> back" "dest + cap < size_mod a'" "back + n < size_mod a'"
  shows "ok (\<lambda>(r, m'). r = 0 \<and> cap < LZ4_compressBound (int (length src)) \<or>
            0 < r \<and> r \<le> cap \<and>
            ok (\<lambda>(k, m''). k = int (length src) \<and> bytes_at m'' back src) (LZ4_decompress_safe a' m' dest back r n))
           (LZ4_compress_HC a m hc source dest (int (length src)) cap level)"
  by (rule hc.roundtrip [OF assms(1-5)]) (use assms in \<open>auto simp: hc_call_def\<close>)

definition fresh_hc :: LZ4HC_Data_Structure where
  "fresh_hc = \<lparr>hc_hashTable = (\<lambda>_. 0), chainTable = (\<lambda>_. 0), hc_end = 0, hc_base = 0, dictBase = 0, inputBuffer = 0,
     dictLimit = 0, hc_lowLimit = 0, nextToUpdate = 0, compressionLevel = 0\<rparr>"

lemma small_hc_call: "hc_call small_mem 65536 [7, 7, 7] 70000 20"
  using small_call(1) [of 1] by (simp add: fast_call_def hc_call_def)

theorem LZ4_compress_HC_correct_witness:
  "ok (\<lambda>(r, m'). frame small_mem m' 70000 70020 \<and>
        (\<exists>blk. valid_block 0 blk \<and> expand [] blk = [7, 7, 7] \<and> bytes_at m' 70000 (encode blk) \<and> r = int (length (encode blk)) \<and> r \<le> 20))
     (LZ4_compress_HC x64 small_mem fresh_hc 65536 70000 3 20 9)"
  by (rule ok_mono [OF LZ4_compress_HC_correct [OF small_hc_call, simplified]]) (auto simp: LZ4_compressBound_def)

theorem LZ4_HC_roundtrip_witness:
  "ok (\<lambda>(r, m'). 0 < r \<and> r \<le> 20 \<and>
        ok (\<lambda>(k, m''). k = 3 \<and> bytes_at m'' 70032 [7, 7, 7])
          (LZ4_decompress_safe \<lparr>little_endian = False, bits64 = False, sw_bitcount = True\<rparr> m' 70000 70032 r 3))
     (LZ4_compress_HC x64 small_mem fresh_hc 65536 70000 3 20 9)"
  by (rule ok_mono [OF LZ4_HC_roundtrip [OF small_hc_call, of 70032 3 "\<lparr>little_endian = False, bits64 = False, sw_bitcount = True\<rparr>", simplified]])
     (use small_call(2) in \<open>auto simp: LZ4_compressBound_def size_mod_def\<close>)

section \<open>Streaming\<close>

text \<open>A structure whose prefix holds the bytes \<open>h\<close>, with no external dictionary.\<close>

definition hc_repr :: "mem \<Rightarrow> byte list \<Rightarrow> LZ4HC_Data_Structure \<Rightarrow> bool" where
  "hc_repr m h hc \<longleftrightarrow>
     bytes_at m (hc_end hc - int (length h)) h \<and> hc_base hc + dictLimit hc = hc_end hc - int (length h) \<and>
     hc_lowLimit hc = dictLimit hc \<and> 65535 \<le> dictLimit hc \<and> dictLimit hc \<le> nextToUpdate hc \<and>
     hc_base hc + nextToUpdate hc \<le> hc_end hc \<and> hc_end hc - hc_base hc < 4294901760 \<and> chain_ok hc (nextToUpdate hc)"


lemma LZ4_loadDictHC_ok:
  assumes d: "bytes_at m dictStart dd" "int (length dd) < 2147483648"
  shows "ok (\<lambda>(r, hc'). r = int (min (length dd) 65536) \<and> hc_end hc' = dictStart + int (length dd) \<and>
              hc_repr m (drop (length dd - 65536) dd) hc' \<and> hc_end hc' - hc_base hc' \<le> 131072 \<and> 0 \<le> hc_end hc' - hc_base hc')
           (LZ4_loadDictHC a m hc dictStart (int (length dd)))"
proof -
  define k where "k = length dd - 65536"
  define s where "s = dictStart + int k"
  define n where "n = int (length (drop k dd))"
  have n: "0 \<le> n" "n \<le> 65536" "n = int (min (length dd) 65536)" "s + n = dictStart + int (length dd)"
    by (auto simp: n_def k_def s_def)
  have b: "bytes_at m s (drop k dd)" using bytes_at_split(2) [OF d(1), of k] by (simp add: s_def k_def)
  define hc1 where "hc1 = LZ4HC_init hc s"
  have h1: "hc_base hc1 = s - 65536" "nextToUpdate hc1 = 65536" "dictLimit hc1 = 65536" "hc_lowLimit hc1 = 65536"
      "chain_ok hc1 65536" by (simp_all add: hc1_def LZ4HC_init_def chain_ok_def)
  have sel: "(if int (length dd) > 64 * KB then (dictStart + (int (length dd) - 64 * KB), 64 * KB) else (dictStart, int (length dd))) = (s, n)"
    by (auto simp: s_def n_def k_def)
  have "ok (\<lambda>hc'. chain_ok hc' (nextToUpdate hc') \<and> hc_kept hc1 hc' \<and> 65536 \<le> nextToUpdate hc' \<and> nextToUpdate hc' \<le> 65536 + n)
          (if n \<ge> 4 then LZ4HC_Insert a m hc1 (s + (n - 3)) else Some hc1)"
  proof (cases "n \<ge> 4")
    case True
    have "ok (\<lambda>hc'. chain_ok hc' (65536 + n - 3) \<and> hc_kept hc1 hc') (LZ4HC_Insert_loop a m hc1 65536 (65536 + n - 3))"
      by (rule LZ4HC_Insert_loop_ok) (use True n h1 in \<open>auto intro!: mapped_mono [OF bytes_at_mapped [OF b]] simp: n_def\<close>)
    moreover have "uns32 (s + (n - 3) - hc_base hc1) = 65536 + n - 3" using n True by (simp add: h1)
    ultimately show ?thesis using True h1
      by (auto simp: LZ4HC_Insert_def Let_def hc_kept_def chain_ok_def elim!: ok_mono)
  qed (use n h1 in auto)
  then obtain hc2 where i: "(if n \<ge> 4 then LZ4HC_Insert a m hc1 (s + (n - 3)) else Some hc1) = Some hc2"
    "chain_ok hc2 (nextToUpdate hc2)" "hc_kept hc1 hc2" "65536 \<le> nextToUpdate hc2" "nextToUpdate hc2 \<le> 65536 + n" by (blast dest: okD)
  have e: "LZ4_loadDictHC a m hc dictStart (int (length dd)) = Some (n, hc2\<lparr>hc_end := s + n\<rparr>)"
    unfolding LZ4_loadDictHC_def sel Let_def prod.case hc1_def [symmetric] i(1) by simp
  have "hc_repr m (drop k dd) (hc2\<lparr>hc_end := s + n\<rparr>)"
    using b i n(1,2) h1 unfolding hc_repr_def n_def [symmetric] by (auto simp: hc_kept_def chain_ok_def)
  then show ?thesis unfolding e k_def [symmetric] using n i(3) h1 by (simp add: hc_kept_def)
qed







text \<open>The operations on the dictionary of a high-compression stream keep its invariant: \<open>LZ4_loadDictHC\<close> ends with the
  last 64 KB of the dictionary as the prefix, ready for a block that follows it.\<close>

lemma LZ4_loadDictHC_correct:
  assumes "bytes_at m dictStart dd" "int (length dd) < 2 ^ 31"
  shows "ok (\<lambda>(r, hc'). r = int (min (length dd) 65536) \<and> hc_end hc' = dictStart + int (length dd) \<and>
              hc_repr m (drop (length dd - 65536) dd) hc')
           (LZ4_loadDictHC a m hc dictStart (int (length dd)))"
  by (rule ok_mono [OF LZ4_loadDictHC_ok]) (use assms in auto)

lemma hc_saved_size:
  assumes "0 \<le> n" "n < 2 ^ 31"
  shows "(let n = (if n > 64 * KB then 64 * KB else n); n = (if n < 4 then 0 else n) in if n > p then p else n) =
         min (if n < 4 then 0 else min n 65536) p"
  using assms by (auto simp: Let_def)

text \<open>\<open>LZ4_saveDictHC\<close> moves the last bytes of the prefix (at most 64 KB, nothing when fewer than four are asked for) to
  the given buffer, overlapping or not, and the stream goes on from there.\<close>

lemma LZ4_saveDictHC_correct:
  assumes h: "hc_repr m hist hc" "int (length hist) < 2 ^ 31" and n: "0 \<le> n" "n < 2 ^ 31" and b: "mapped m safeBuffer (safeBuffer + n)"
  shows "ok (\<lambda>(r, m', hc'). r = min (if n < 4 then 0 else min n 65536) (int (length hist)) \<and> frame m m' safeBuffer (safeBuffer + r) \<and>
              hc_end hc' = safeBuffer + r \<and> hc_repr m' (drop (length hist - nat r) hist) hc')
           (LZ4_saveDictHC m hc safeBuffer n)"
proof -
  define r where "r = min (if n < 4 then 0 else min n 65536) (int (length hist))"
  let ?k = "length hist - nat r"
  have h': "bytes_at m (hc_end hc - int (length hist)) hist" "hc_base hc + dictLimit hc = hc_end hc - int (length hist)"
    "65535 \<le> dictLimit hc" "hc_end hc - hc_base hc < 4294901760" "dictLimit hc \<le> nextToUpdate hc" "hc_base hc + nextToUpdate hc \<le> hc_end hc"
    "chain_ok hc (nextToUpdate hc)" using h by (auto simp: hc_repr_def)
  have r: "0 \<le> r" "r \<le> n" "r \<le> int (length hist)" using n by (auto simp: r_def)
  have p: "hc_end hc - int (length hist) + int ?k = hc_end hc - r" "int32 (hc_end hc - (hc_base hc + dictLimit hc)) = int (length hist)"
    using r h(2) h'(2) by auto
  have src: "bytes_at m (hc_end hc - r) (drop ?k hist)" using bytes_at_split(2) [OF h'(1), of ?k] unfolding p by simp
  have len: "length (drop ?k hist) = nat r" using r by auto
  have "mapped m safeBuffer (safeBuffer + int (length (drop ?k hist)))"
    by (rule mapped_mono [OF b]) (use r len in auto)
  from okD [OF store_bytes_ok [OF this]] obtain m' where
    m': "store_bytes m safeBuffer (drop ?k hist) = Some m'" "frame m m' safeBuffer (safeBuffer + r)" "bytes_at m' safeBuffer (drop ?k hist)"
    unfolding len using r(1) by auto
  have cp: "memcpy m safeBuffer (hc_end hc - r) (nat r) = Some m'"
    using load_bytes_eq [OF src] m'(1) len unfolding memcpy_def by simp
  have sz: "(let n = (if n > 64 * KB then 64 * KB else n); n = (if n < 4 then 0 else n) in if n > int (length hist) then int (length hist) else n) = r"
    unfolding r_def by (rule hc_saved_size [OF n])
  define x where "x = hc_end hc - hc_base hc"
  have x: "uns32 x = x" "uns32 (x - r) = x - r" "x - r = dictLimit hc + (int (length hist) - r)" using h' r by (auto simp: x_def)
  define hc1 where "hc1 = hc\<lparr>hc_end := safeBuffer + r, hc_base := safeBuffer + r - x, dictLimit := x - r, hc_lowLimit := x - r\<rparr>"
  define hc2 where "hc2 = (if nextToUpdate hc1 < dictLimit hc1 then hc1\<lparr>nextToUpdate := dictLimit hc1\<rparr> else hc1)"
  have e: "LZ4_saveDictHC m hc safeBuffer n = Some (r, m', hc2)"
    unfolding LZ4_saveDictHC_def p(2) Let_def sz [unfolded Let_def] x_def [symmetric] cp
    by (simp add: x(1,2) hc2_def hc1_def)
  have "chain_ok hc2 (nextToUpdate hc2)" using h'(7) by (auto simp: hc2_def hc1_def chain_ok_def intro: less_trans)
  then have "hc_repr m' (drop ?k hist) hc2"
    using h' r m'(3) x len unfolding hc_repr_def by (auto simp: hc2_def hc1_def x_def)
  then show ?thesis unfolding e r_def [symmetric] using m'(2) by (auto simp: hc2_def hc1_def)
qed


section \<open>Instances\<close>

definition loaded_hc :: LZ4HC_Data_Structure where
  "loaded_hc = (LZ4HC_init fresh_hc 65536)\<lparr>hc_end := 65541\<rparr>"

lemma loaded_hc_repr: "hc_repr stream_mem [7, 7, 7, 7, 7] loaded_hc"
  using stream_mem_at(1) by (simp add: hc_repr_def loaded_hc_def LZ4HC_init_def chain_ok_def)


lemma LZ4_loadDictHC_correct_witness:
  "ok (\<lambda>(r, hc'). r = 5 \<and> hc_end hc' = 65541 \<and> hc_repr stream_mem [7, 7, 7, 7, 7] hc') (LZ4_loadDictHC be32 stream_mem fresh_hc 65536 5)"
  using LZ4_loadDictHC_correct [OF stream_mem_at(1), of be32 fresh_hc] by (auto elim!: ok_mono)

lemma LZ4_saveDictHC_correct_witness:
  "ok (\<lambda>(r, m', hc'). r = 4 \<and> hc_end hc' = 70004 \<and> hc_repr m' [7, 7, 7, 7] hc') (LZ4_saveDictHC stream_mem loaded_hc 70000 4)"
proof -
  have "mapped stream_mem 70000 (70000 + 4)" by (rule mapped_mono [OF stream_mem_at(2)]) auto
  from LZ4_saveDictHC_correct [OF loaded_hc_repr _ _ _ this] show ?thesis by (auto elim!: ok_mono)
qed

section \<open>Where the encoder departs from its contract\<close>

lemma store_bytes_Some: "store_bytes m p bs = Some m' \<Longrightarrow> mapped m p (p + int (length bs)) \<and> dom m' = dom m"
proof (induction bs arbitrary: m p)
  case (Cons b bs)
  then obtain m1 where m1: "store8 m p b = Some m1" "store_bytes m1 (p + 1) bs = Some m'" by (auto simp: bind_eq_Some_conv)
  then have p: "m p \<noteq> None" "dom m1 = dom m" by (auto simp: store8_def split: option.splits if_splits)
  show ?case unfolding mapped_dom
  proof (intro conjI subsetI)
    fix x assume "x \<in> {p..<p + int (length (b # bs))}"
    then show "x \<in> dom m" using Cons.IH [OF m1(2)] p subsetD [of "{p + 1..<p + 1 + int (length bs)}" "dom m" x]
      by (cases "x = p") (auto simp: mapped_dom simp del: not_None_eq)
  qed (use Cons.IH [OF m1(2)] p in simp)
qed (simp add: mapped_def)

lemma copy8_Some: "LZ4_copy8 m d s = Some m' \<Longrightarrow> mapped m d (d + 8) \<and> dom m' = dom m"
  by (auto simp: LZ4_copy8_def memcpy_def bind_eq_Some_conv load_bytes_Some dest!: store_bytes_Some)

lemma wildCopy_fault: "d + 8 * int k < e \<or> k = 0 \<Longrightarrow> m (d + 8 * int k + 7) = None \<Longrightarrow> LZ4_wildCopy m d s e = None"
proof (induction k arbitrary: m d s)
  case 0
  then have "LZ4_copy8 m d s = None"
    by (cases "LZ4_copy8 m d s") (auto dest!: copy8_Some mappedD [where x = "d + 7"])
  then show ?case by (subst LZ4_wildCopy.simps) simp
next
  case (Suc k)
  show ?case
  proof (cases "LZ4_copy8 m d s")
    case (Some m')
    have "d + 8 + 8 * int k + 7 \<notin> dom m" using Suc.prems(2) by (simp add: domIff algebra_simps)
    then have "m' (d + 8 + 8 * int k + 7) = None" using copy8_Some [OF Some] by (metis domIff)
    then have "LZ4_wildCopy m' (d + 8) (s + 8) e = None" by (rule Suc.IH [rotated]) (use Suc.prems(1) in auto)
    moreover have "d + 8 < e" using Suc.prems(1) by simp
    ultimately show ?thesis using Some by (subst LZ4_wildCopy.simps) simp
  qed (subst LZ4_wildCopy.simps, simp)
qed

text \<open>6000 bytes of input at 0 and an output buffer of 5655 bytes at 10000; nothing else is mapped.\<close>

definition tight_mem :: mem where
  "tight_mem = (\<lambda>x. if 0 \<le> x \<and> x < 6000 \<or> 10000 \<le> x \<and> x < 15655 then Some 0 else None)"

text \<open>C37: The test of the output limit in \<open>LZ4HC_encodeSequence\<close> counts one length byte per 256 literals (\<open>length>>8\<close>), the
  encoding takes one per 255: for a run of 5625 literals the test passes with a buffer of 5655 bytes, and the copy of
  the literals writes one byte past its end, a fault when nothing is mapped there.\<close>

theorem LZ4HC_encodeSequence_overflow:
  "\<not> 10000 + 1 + 5625 div 256 + 5625 + (2 + 1 + 5) > e_olimit (LZ4HC_ctx hc 0 10000 6000 5655 limitedOutput) \<and>
   LZ4HC_encodeSequence x64 (LZ4HC_ctx hc 0 10000 6000 5655 limitedOutput) tight_mem 5625 10000 0 8 5000 = None"
proof -
  let ?m = "tight_mem(10000 \<mapsto> 240)"
  have dom: "dom ?m = dom tight_mem" by (auto simp: tight_mem_def split: if_splits)
  have len: "int (length (len_ext (nat 5610))) = 23" by (simp add: length_len_ext)
  have "mapped ?m 10001 (10001 + int (length (len_ext (nat 5610))))" unfolding len by (auto simp: mapped_def tight_mem_def)
  from okD [OF write_length_ok [OF _ this]] obtain m1 where
    m1: "write_length ?m 10001 5610 = Some (m1, 10024)" "frame ?m m1 10001 10024" unfolding len by auto
  have "m1 (10024 + 8 * int 703 + 7) = None" using frame_eq [OF m1(2), of 15655] by (simp add: tight_mem_def)
  then have "LZ4_wildCopy m1 10024 0 15649 = None" by (rule wildCopy_fault [rotated]) simp
  then show ?thesis
    using m1(1) by (simp add: LZ4HC_encodeSequence_def LZ4HC_ctx_def Let_def store8_def tight_mem_def)
qed

end
