(* ===== verification/Xxhash.thy ===== *)
theory Xxhash
  imports C_Prelude
begin

text \<open>
  The xxHash library, \<^verbatim>\<open>src/src/lz4/lib/xxhash.c\<close>: the one-shot functions
  \<open>XXH32\<close> and \<open>XXH64\<close>, and the streaming interface (reset, update, digest)
  with its internal 16- or 32-byte buffer. Every read of the input is a load from the
  partial memory of \<open>C_Prelude\<close>; the byte order and the build switch
  \<open>XXH_USE_UNALIGNED_ACCESS\<close> are parameters.

  The functions \<open>xxh32\<close> and \<open>xxh64\<close> on byte lists follow the description of the algorithm. The two
  code paths are shown to compute them, so that hashing does not depend on the byte order,
  on the alignment of the input or on how the input is cut into updates.
\<close>

section \<open>Types, constants and byte access\<close>

datatype XXH_endianess = XXH_bigEndian | XXH_littleEndian
datatype XXH_alignment = XXH_aligned | XXH_unaligned
datatype XXH_errorcode = XXH_OK | XXH_ERROR

definition PRIME32_1 :: u32 where "PRIME32_1 = 2654435761"
definition PRIME32_2 :: u32 where "PRIME32_2 = 2246822519"
definition PRIME32_3 :: u32 where "PRIME32_3 = 3266489917"
definition PRIME32_4 :: u32 where "PRIME32_4 = 668265263"
definition PRIME32_5 :: u32 where "PRIME32_5 = 374761393"

definition PRIME64_1 :: u64 where "PRIME64_1 = 11400714785074694791"
definition PRIME64_2 :: u64 where "PRIME64_2 = 14029467366897019727"
definition PRIME64_3 :: u64 where "PRIME64_3 = 1609587929392839161"
definition PRIME64_4 :: u64 where "PRIME64_4 = 9650029242287828579"
definition PRIME64_5 :: u64 where "PRIME64_5 = 2870177450012600261"

definition XXH_read32 :: "arch \<Rightarrow> mem \<Rightarrow> addr \<Rightarrow> u32 option" where
  "XXH_read32 a m p = do { bs \<leftarrow> load_bytes m p 4; Some (word_of_int (native_val a bs)) }"

definition XXH_read64 :: "arch \<Rightarrow> mem \<Rightarrow> addr \<Rightarrow> u64 option" where
  "XXH_read64 a m p = do { bs \<leftarrow> load_bytes m p 8; Some (word_of_int (native_val a bs)) }"

text \<open>\<open>*(const U32* )ptr\<close> and \<open>*(const U64* )ptr\<close>: a native access, which needs an
  aligned address.\<close>

definition deref32 :: "arch \<Rightarrow> mem \<Rightarrow> addr \<Rightarrow> u32 option" where
  "deref32 a m p = (if p mod 4 = 0 then XXH_read32 a m p else None)"

definition deref64 :: "arch \<Rightarrow> mem \<Rightarrow> addr \<Rightarrow> u64 option" where
  "deref64 a m p = (if p mod 8 = 0 then XXH_read64 a m p else None)"

definition XXH_rotl32 :: "u32 \<Rightarrow> nat \<Rightarrow> u32" where
  "XXH_rotl32 x r = push_bit r x OR drop_bit (32 - r) x"

definition XXH_rotl64 :: "u64 \<Rightarrow> nat \<Rightarrow> u64" where
  "XXH_rotl64 x r = push_bit r x OR drop_bit (64 - r) x"

definition XXH_swap32 :: "u32 \<Rightarrow> u32" where
  "XXH_swap32 x =
     (push_bit 24 x AND 0xff000000) OR
     (push_bit 8 x AND 0x00ff0000) OR
     (drop_bit 8 x AND 0x0000ff00) OR
     (drop_bit 24 x AND 0x000000ff)"

definition XXH_swap64 :: "u64 \<Rightarrow> u64" where
  "XXH_swap64 x =
     (push_bit 56 x AND 0xff00000000000000) OR
     (push_bit 40 x AND 0x00ff000000000000) OR
     (push_bit 24 x AND 0x0000ff0000000000) OR
     (push_bit 8 x AND 0x000000ff00000000) OR
     (drop_bit 8 x AND 0x00000000ff000000) OR
     (drop_bit 24 x AND 0x0000000000ff0000) OR
     (drop_bit 40 x AND 0x000000000000ff00) OR
     (drop_bit 56 x AND 0x00000000000000ff)"

definition XXH_readLE32_align ::
  "arch \<Rightarrow> mem \<Rightarrow> addr \<Rightarrow> XXH_endianess \<Rightarrow> XXH_alignment \<Rightarrow> u32 option" where
  "XXH_readLE32_align a m p endian align =
     (if align = XXH_unaligned
      then do { v \<leftarrow> XXH_read32 a m p; Some (if endian = XXH_littleEndian then v else XXH_swap32 v) }
      else do { v \<leftarrow> deref32 a m p; Some (if endian = XXH_littleEndian then v else XXH_swap32 v) })"

definition XXH_readLE32 :: "arch \<Rightarrow> mem \<Rightarrow> addr \<Rightarrow> XXH_endianess \<Rightarrow> u32 option" where
  "XXH_readLE32 a m p endian = XXH_readLE32_align a m p endian XXH_unaligned"

definition XXH_readLE64_align ::
  "arch \<Rightarrow> mem \<Rightarrow> addr \<Rightarrow> XXH_endianess \<Rightarrow> XXH_alignment \<Rightarrow> u64 option" where
  "XXH_readLE64_align a m p endian align =
     (if align = XXH_unaligned
      then do { v \<leftarrow> XXH_read64 a m p; Some (if endian = XXH_littleEndian then v else XXH_swap64 v) }
      else do { v \<leftarrow> deref64 a m p; Some (if endian = XXH_littleEndian then v else XXH_swap64 v) })"

definition XXH_readLE64 :: "arch \<Rightarrow> mem \<Rightarrow> addr \<Rightarrow> XXH_endianess \<Rightarrow> u64 option" where
  "XXH_readLE64 a m p endian = XXH_readLE64_align a m p endian XXH_unaligned"

definition XXH_CPU_LITTLE_ENDIAN :: "arch \<Rightarrow> XXH_endianess" where
  "XXH_CPU_LITTLE_ENDIAN a = (if little_endian a then XXH_littleEndian else XXH_bigEndian)"

section \<open>XXH32\<close>

subsection \<open>One shot\<close>

type_synonym lanes32 = "u32 \<times> u32 \<times> u32 \<times> u32"

text \<open>\<open>v += word * PRIME32_2; v = rotl(v, 13); v *= PRIME32_1\<close>.\<close>

definition XXH32_round :: "u32 \<Rightarrow> u32 \<Rightarrow> u32" where
  "XXH32_round v w = XXH_rotl32 (v + w * PRIME32_2) 13 * PRIME32_1"

definition XXH32_init :: "u32 \<Rightarrow> lanes32" where
  "XXH32_init seed = (seed + PRIME32_1 + PRIME32_2, seed + PRIME32_2, seed + 0, seed - PRIME32_1)"

text \<open>The body of the stripe loop, reading four words at \<open>p\<close>.\<close>

definition XXH32_stripe ::
  "arch \<Rightarrow> mem \<Rightarrow> XXH_endianess \<Rightarrow> XXH_alignment \<Rightarrow> addr \<Rightarrow> lanes32 \<Rightarrow> lanes32 option" where
  "XXH32_stripe a m endian align p v =
     (case v of (v1, v2, v3, v4) \<Rightarrow>
      do { w1 \<leftarrow> XXH_readLE32_align a m p endian align;
           w2 \<leftarrow> XXH_readLE32_align a m (p + 4) endian align;
           w3 \<leftarrow> XXH_readLE32_align a m (p + 8) endian align;
           w4 \<leftarrow> XXH_readLE32_align a m (p + 12) endian align;
           Some (XXH32_round v1 w1, XXH32_round v2 w2, XXH32_round v3 w3, XXH32_round v4 w4) })"

text \<open>\<open>do { stripe; p += 16 } while (p <= limit)\<close>.\<close>

function XXH32_stripes ::
  "arch \<Rightarrow> mem \<Rightarrow> XXH_endianess \<Rightarrow> XXH_alignment \<Rightarrow> addr \<Rightarrow> addr \<Rightarrow> lanes32 \<Rightarrow> (addr \<times> lanes32) option" where
  "XXH32_stripes a m endian align p limit v =
     do { v' \<leftarrow> XXH32_stripe a m endian align p v;
          if p + 16 \<le> limit then XXH32_stripes a m endian align (p + 16) limit v'
          else Some (p + 16, v') }"
  by pat_completeness auto
termination
  by (relation "measure (\<lambda>(a, m, e, al, p, limit, v). nat (limit - p + 16))") auto

declare XXH32_stripes.simps [simp del]

definition XXH32_merge :: "lanes32 \<Rightarrow> u32" where
  "XXH32_merge v = (case v of (v1, v2, v3, v4) \<Rightarrow>
     XXH_rotl32 v1 1 + XXH_rotl32 v2 7 + XXH_rotl32 v3 12 + XXH_rotl32 v4 18)"

text \<open>\<open>while (p+4<=bEnd) { ... p += 4 }\<close>.\<close>

function XXH32_words ::
  "arch \<Rightarrow> mem \<Rightarrow> XXH_endianess \<Rightarrow> XXH_alignment \<Rightarrow> addr \<Rightarrow> addr \<Rightarrow> u32 \<Rightarrow> (addr \<times> u32) option" where
  "XXH32_words a m endian align p bEnd h32 =
     (if p + 4 \<le> bEnd
      then do { w \<leftarrow> XXH_readLE32_align a m p endian align;
                XXH32_words a m endian align (p + 4) bEnd (XXH_rotl32 (h32 + w * PRIME32_3) 17 * PRIME32_4) }
      else Some (p, h32))"
  by pat_completeness auto
termination
  by (relation "measure (\<lambda>(a, m, e, al, p, bEnd, h). nat (bEnd - p))") auto

declare XXH32_words.simps [simp del]

text \<open>\<open>while (p<bEnd) { ... p++ }\<close>.\<close>

function XXH32_bytes :: "mem \<Rightarrow> addr \<Rightarrow> addr \<Rightarrow> u32 \<Rightarrow> u32 option" where
  "XXH32_bytes m p bEnd h32 =
     (if p < bEnd
      then do { b \<leftarrow> m p;
                XXH32_bytes m (p + 1) bEnd (XXH_rotl32 (h32 + ucast b * PRIME32_5) 11 * PRIME32_1) }
      else Some h32)"
  by pat_completeness auto
termination
  by (relation "measure (\<lambda>(m, p, bEnd, h). nat (bEnd - p))") auto

declare XXH32_bytes.simps [simp del]

definition XXH32_avalanche :: "u32 \<Rightarrow> u32" where
  "XXH32_avalanche h =
     (let h = h XOR drop_bit 15 h; h = h * PRIME32_2;
          h = h XOR drop_bit 13 h; h = h * PRIME32_3
      in h XOR drop_bit 16 h)"

definition XXH32_endian_align ::
  "arch \<Rightarrow> mem \<Rightarrow> addr \<Rightarrow> int \<Rightarrow> u32 \<Rightarrow> XXH_endianess \<Rightarrow> XXH_alignment \<Rightarrow> u32 option" where
  "XXH32_endian_align a m input len seed endian align =
     (let bEnd = input + len in
      do { (p, h32) \<leftarrow>
             (if len \<ge> 16
              then do { (p, v) \<leftarrow> XXH32_stripes a m endian align input (bEnd - 16) (XXH32_init seed);
                        Some (p, XXH32_merge v) }
              else Some (input, seed + PRIME32_5));
           (p, h32) \<leftarrow> XXH32_words a m endian align p bEnd (h32 + word_of_int len);
           h32 \<leftarrow> XXH32_bytes m p bEnd h32;
           Some (XXH32_avalanche h32) })"

text \<open>\<open>unaligned_access\<close> is the build switch \<open>XXH_USE_UNALIGNED_ACCESS\<close>.\<close>

definition XXH32 :: "arch \<Rightarrow> bool \<Rightarrow> mem \<Rightarrow> addr \<Rightarrow> int \<Rightarrow> u32 \<Rightarrow> u32 option" where
  "XXH32 a unaligned_access m input len seed =
     (let endian_detected = XXH_CPU_LITTLE_ENDIAN a in
      if \<not> unaligned_access \<and> input mod 4 = 0
      then (if endian_detected = XXH_littleEndian
            then XXH32_endian_align a m input len seed XXH_littleEndian XXH_aligned
            else XXH32_endian_align a m input len seed XXH_bigEndian XXH_aligned)
      else (if endian_detected = XXH_littleEndian
            then XXH32_endian_align a m input len seed XXH_littleEndian XXH_unaligned
            else XXH32_endian_align a m input len seed XXH_bigEndian XXH_unaligned))"

subsection \<open>Streaming\<close>

record XXH_istate32_t =
  total_len32 :: u64
  seed32 :: u32
  v1_32 :: u32
  v2_32 :: u32
  v3_32 :: u32
  v4_32 :: u32
  mem32 :: "byte list"   \<comment> \<open>the 16 bytes of \<open>mem32[4]\<close>\<close>
  memsize32 :: int

definition lanes32_of :: "XXH_istate32_t \<Rightarrow> lanes32" where
  "lanes32_of s = (v1_32 s, v2_32 s, v3_32 s, v4_32 s)"

definition set_lanes32 :: "lanes32 \<Rightarrow> XXH_istate32_t \<Rightarrow> XXH_istate32_t" where
  "set_lanes32 v s = (case v of (v1, v2, v3, v4) \<Rightarrow>
     s\<lparr>v1_32 := v1, v2_32 := v2, v3_32 := v3, v4_32 := v4\<rparr>)"

definition XXH32_reset :: "XXH_istate32_t \<Rightarrow> u32 \<Rightarrow> XXH_errorcode \<times> XXH_istate32_t" where
  "XXH32_reset state seed =
     (XXH_OK, state\<lparr>seed32 := seed,
        v1_32 := seed + PRIME32_1 + PRIME32_2,
        v2_32 := seed + PRIME32_2,
        v3_32 := seed + 0,
        v4_32 := seed - PRIME32_1,
        total_len32 := 0,
        memsize32 := 0\<rparr>)"

text \<open>The three parts of an update that completes at least one block: finish the buffered
  block, absorb the full blocks of the input, keep the remaining bytes.\<close>

definition XXH32_update_fill ::
  "arch \<Rightarrow> mem \<Rightarrow> XXH_istate32_t \<Rightarrow> addr \<Rightarrow> XXH_endianess \<Rightarrow> (XXH_istate32_t \<times> addr) option" where
  "XXH32_update_fill a m state input endian =
     (if memsize32 state \<noteq> 0
      then do { bs \<leftarrow> load_bytes m input (nat (16 - memsize32 state));
                buf \<leftarrow> splice (mem32 state) (nat (memsize32 state)) bs;
                v \<leftarrow> XXH32_stripe a (buffer 0 buf) endian XXH_unaligned 0 (lanes32_of state);
                Some ((set_lanes32 v state)\<lparr>mem32 := buf, memsize32 := 0\<rparr>,
                      input + (16 - memsize32 state)) }
      else Some (state, input))"

definition XXH32_update_bulk ::
  "arch \<Rightarrow> mem \<Rightarrow> XXH_istate32_t \<Rightarrow> addr \<Rightarrow> addr \<Rightarrow> XXH_endianess \<Rightarrow> (XXH_istate32_t \<times> addr) option" where
  "XXH32_update_bulk a m state p bEnd endian =
     (if p \<le> bEnd - 16
      then do { (p, v) \<leftarrow> XXH32_stripes a m endian XXH_unaligned p (bEnd - 16) (lanes32_of state);
                Some (set_lanes32 v state, p) }
      else Some (state, p))"

definition XXH32_update_store ::
  "mem \<Rightarrow> XXH_istate32_t \<Rightarrow> addr \<Rightarrow> addr \<Rightarrow> XXH_istate32_t option" where
  "XXH32_update_store m state p bEnd =
     (if p < bEnd
      then do { bs \<leftarrow> load_bytes m p (nat (bEnd - p));
                buf \<leftarrow> splice (mem32 state) 0 bs;
                Some (state\<lparr>mem32 := buf, memsize32 := uns32 (int32 (bEnd - p))\<rparr>) }
      else Some state)"

definition XXH32_update_endian ::
  "arch \<Rightarrow> mem \<Rightarrow> XXH_istate32_t \<Rightarrow> addr \<Rightarrow> int \<Rightarrow> XXH_endianess \<Rightarrow> (XXH_errorcode \<times> XXH_istate32_t) option" where
  "XXH32_update_endian a m state input len endian =
     (let bEnd = input + len;
          state = state\<lparr>total_len32 := total_len32 state + word_of_int len\<rparr>
      in
      if (memsize32 state + len) mod size_mod a < 16
      then do { bs \<leftarrow> load_bytes m input (nat len);
                buf \<leftarrow> splice (mem32 state) (nat (memsize32 state)) bs;
                Some (XXH_OK, state\<lparr>mem32 := buf, memsize32 := uns32 (memsize32 state + uns32 len)\<rparr>) }
      else
      do { (state, p) \<leftarrow> XXH32_update_fill a m state input endian;
           (state, p) \<leftarrow> XXH32_update_bulk a m state p bEnd endian;
           state \<leftarrow> XXH32_update_store m state p bEnd;
           Some (XXH_OK, state) })"

definition XXH32_update ::
  "arch \<Rightarrow> mem \<Rightarrow> XXH_istate32_t \<Rightarrow> addr \<Rightarrow> int \<Rightarrow> (XXH_errorcode \<times> XXH_istate32_t) option" where
  "XXH32_update a m state input len =
     (if XXH_CPU_LITTLE_ENDIAN a = XXH_littleEndian
      then XXH32_update_endian a m state input len XXH_littleEndian
      else XXH32_update_endian a m state input len XXH_bigEndian)"

definition XXH32_digest_endian :: "arch \<Rightarrow> XXH_istate32_t \<Rightarrow> XXH_endianess \<Rightarrow> u32 option" where
  "XXH32_digest_endian a state endian =
     (let m = buffer 0 (mem32 state);
          bEnd = memsize32 state;
          h32 = (if total_len32 state \<ge> 16 then XXH32_merge (lanes32_of state)
                 else seed32 state + PRIME32_5)
      in
      do { (p, h32) \<leftarrow> XXH32_words a m endian XXH_unaligned 0 bEnd (h32 + ucast (total_len32 state));
           h32 \<leftarrow> XXH32_bytes m p bEnd h32;
           Some (XXH32_avalanche h32) })"

definition XXH32_digest :: "arch \<Rightarrow> XXH_istate32_t \<Rightarrow> u32 option" where
  "XXH32_digest a state =
     (if XXH_CPU_LITTLE_ENDIAN a = XXH_littleEndian
      then XXH32_digest_endian a state XXH_littleEndian
      else XXH32_digest_endian a state XXH_bigEndian)"

section \<open>XXH64\<close>

subsection \<open>One shot\<close>

type_synonym lanes64 = "u64 \<times> u64 \<times> u64 \<times> u64"

definition XXH64_round :: "u64 \<Rightarrow> u64 \<Rightarrow> u64" where
  "XXH64_round v w = XXH_rotl64 (v + w * PRIME64_2) 31 * PRIME64_1"

definition XXH64_init :: "u64 \<Rightarrow> lanes64" where
  "XXH64_init seed = (seed + PRIME64_1 + PRIME64_2, seed + PRIME64_2, seed + 0, seed - PRIME64_1)"

definition XXH64_stripe ::
  "arch \<Rightarrow> mem \<Rightarrow> XXH_endianess \<Rightarrow> XXH_alignment \<Rightarrow> addr \<Rightarrow> lanes64 \<Rightarrow> lanes64 option" where
  "XXH64_stripe a m endian align p v =
     (case v of (v1, v2, v3, v4) \<Rightarrow>
      do { w1 \<leftarrow> XXH_readLE64_align a m p endian align;
           w2 \<leftarrow> XXH_readLE64_align a m (p + 8) endian align;
           w3 \<leftarrow> XXH_readLE64_align a m (p + 16) endian align;
           w4 \<leftarrow> XXH_readLE64_align a m (p + 24) endian align;
           Some (XXH64_round v1 w1, XXH64_round v2 w2, XXH64_round v3 w3, XXH64_round v4 w4) })"

function XXH64_stripes ::
  "arch \<Rightarrow> mem \<Rightarrow> XXH_endianess \<Rightarrow> XXH_alignment \<Rightarrow> addr \<Rightarrow> addr \<Rightarrow> lanes64 \<Rightarrow> (addr \<times> lanes64) option" where
  "XXH64_stripes a m endian align p limit v =
     do { v' \<leftarrow> XXH64_stripe a m endian align p v;
          if p + 32 \<le> limit then XXH64_stripes a m endian align (p + 32) limit v'
          else Some (p + 32, v') }"
  by pat_completeness auto
termination
  by (relation "measure (\<lambda>(a, m, e, al, p, limit, v). nat (limit - p + 32))") auto

declare XXH64_stripes.simps [simp del]

text \<open>One of the four merge steps: \<open>v *= PRIME64_2; v = rotl(v, 31); v *= PRIME64_1;
  h64 ^= v; h64 = h64 * PRIME64_1 + PRIME64_4\<close>.\<close>

definition XXH64_mergeRound :: "u64 \<Rightarrow> u64 \<Rightarrow> u64" where
  "XXH64_mergeRound h64 v = (h64 XOR (XXH_rotl64 (v * PRIME64_2) 31 * PRIME64_1)) * PRIME64_1 + PRIME64_4"

definition XXH64_merge :: "lanes64 \<Rightarrow> u64" where
  "XXH64_merge v = (case v of (v1, v2, v3, v4) \<Rightarrow>
     let h64 = XXH_rotl64 v1 1 + XXH_rotl64 v2 7 + XXH_rotl64 v3 12 + XXH_rotl64 v4 18;
         h64 = XXH64_mergeRound h64 v1;
         h64 = XXH64_mergeRound h64 v2;
         h64 = XXH64_mergeRound h64 v3
     in XXH64_mergeRound h64 v4)"

definition XXH64_word8 :: "u64 \<Rightarrow> u64 \<Rightarrow> u64" where
  "XXH64_word8 h64 w =
     (let k1 = w * PRIME64_2; k1 = XXH_rotl64 k1 31; k1 = k1 * PRIME64_1
      in XXH_rotl64 (h64 XOR k1) 27 * PRIME64_1 + PRIME64_4)"

definition XXH64_word4 :: "u64 \<Rightarrow> u32 \<Rightarrow> u64" where
  "XXH64_word4 h64 w = XXH_rotl64 (h64 XOR (ucast w * PRIME64_1)) 23 * PRIME64_2 + PRIME64_3"

function XXH64_words ::
  "arch \<Rightarrow> mem \<Rightarrow> XXH_endianess \<Rightarrow> XXH_alignment \<Rightarrow> addr \<Rightarrow> addr \<Rightarrow> u64 \<Rightarrow> (addr \<times> u64) option" where
  "XXH64_words a m endian align p bEnd h64 =
     (if p + 8 \<le> bEnd
      then do { w \<leftarrow> XXH_readLE64_align a m p endian align;
                XXH64_words a m endian align (p + 8) bEnd (XXH64_word8 h64 w) }
      else Some (p, h64))"
  by pat_completeness auto
termination
  by (relation "measure (\<lambda>(a, m, e, al, p, bEnd, h). nat (bEnd - p))") auto

declare XXH64_words.simps [simp del]

function XXH64_bytes :: "mem \<Rightarrow> addr \<Rightarrow> addr \<Rightarrow> u64 \<Rightarrow> u64 option" where
  "XXH64_bytes m p bEnd h64 =
     (if p < bEnd
      then do { b \<leftarrow> m p;
                XXH64_bytes m (p + 1) bEnd (XXH_rotl64 (h64 XOR (ucast b * PRIME64_5)) 11 * PRIME64_1) }
      else Some h64)"
  by pat_completeness auto
termination
  by (relation "measure (\<lambda>(m, p, bEnd, h). nat (bEnd - p))") auto

declare XXH64_bytes.simps [simp del]

definition XXH64_avalanche :: "u64 \<Rightarrow> u64" where
  "XXH64_avalanche h =
     (let h = h XOR drop_bit 33 h; h = h * PRIME64_2;
          h = h XOR drop_bit 29 h; h = h * PRIME64_3
      in h XOR drop_bit 32 h)"

text \<open>The tail of both the one-shot function and the digest: 8-byte words, at most one
  4-byte word, single bytes.\<close>

definition XXH64_tail ::
  "arch \<Rightarrow> mem \<Rightarrow> XXH_endianess \<Rightarrow> XXH_alignment \<Rightarrow> addr \<Rightarrow> addr \<Rightarrow> u64 \<Rightarrow> u64 option" where
  "XXH64_tail a m endian align p bEnd h64 =
     do { (p, h64) \<leftarrow> XXH64_words a m endian align p bEnd h64;
          (p, h64) \<leftarrow>
            (if p + 4 \<le> bEnd
             then do { w \<leftarrow> XXH_readLE32_align a m p endian align; Some (p + 4, XXH64_word4 h64 w) }
             else Some (p, h64));
          h64 \<leftarrow> XXH64_bytes m p bEnd h64;
          Some (XXH64_avalanche h64) }"

definition XXH64_endian_align ::
  "arch \<Rightarrow> mem \<Rightarrow> addr \<Rightarrow> int \<Rightarrow> u64 \<Rightarrow> XXH_endianess \<Rightarrow> XXH_alignment \<Rightarrow> u64 option" where
  "XXH64_endian_align a m input len seed endian align =
     (let bEnd = input + len in
      do { (p, h64) \<leftarrow>
             (if len \<ge> 32
              then do { (p, v) \<leftarrow> XXH64_stripes a m endian align input (bEnd - 32) (XXH64_init seed);
                        Some (p, XXH64_merge v) }
              else Some (input, seed + PRIME64_5));
           XXH64_tail a m endian align p bEnd (h64 + word_of_int len) })"

definition XXH64 :: "arch \<Rightarrow> bool \<Rightarrow> mem \<Rightarrow> addr \<Rightarrow> int \<Rightarrow> u64 \<Rightarrow> u64 option" where
  "XXH64 a unaligned_access m input len seed =
     (let endian_detected = XXH_CPU_LITTLE_ENDIAN a in
      if \<not> unaligned_access \<and> input mod 8 = 0
      then (if endian_detected = XXH_littleEndian
            then XXH64_endian_align a m input len seed XXH_littleEndian XXH_aligned
            else XXH64_endian_align a m input len seed XXH_bigEndian XXH_aligned)
      else (if endian_detected = XXH_littleEndian
            then XXH64_endian_align a m input len seed XXH_littleEndian XXH_unaligned
            else XXH64_endian_align a m input len seed XXH_bigEndian XXH_unaligned))"

subsection \<open>Streaming\<close>

record XXH_istate64_t =
  total_len64 :: u64
  seed64 :: u64
  v1_64 :: u64
  v2_64 :: u64
  v3_64 :: u64
  v4_64 :: u64
  mem64 :: "byte list"   \<comment> \<open>the 32 bytes of \<open>mem64[4]\<close>\<close>
  memsize64 :: int

definition lanes64_of :: "XXH_istate64_t \<Rightarrow> lanes64" where
  "lanes64_of s = (v1_64 s, v2_64 s, v3_64 s, v4_64 s)"

definition set_lanes64 :: "lanes64 \<Rightarrow> XXH_istate64_t \<Rightarrow> XXH_istate64_t" where
  "set_lanes64 v s = (case v of (v1, v2, v3, v4) \<Rightarrow>
     s\<lparr>v1_64 := v1, v2_64 := v2, v3_64 := v3, v4_64 := v4\<rparr>)"

definition XXH64_reset :: "XXH_istate64_t \<Rightarrow> u64 \<Rightarrow> XXH_errorcode \<times> XXH_istate64_t" where
  "XXH64_reset state seed =
     (XXH_OK, state\<lparr>seed64 := seed,
        v1_64 := seed + PRIME64_1 + PRIME64_2,
        v2_64 := seed + PRIME64_2,
        v3_64 := seed + 0,
        v4_64 := seed - PRIME64_1,
        total_len64 := 0,
        memsize64 := 0\<rparr>)"

text \<open>The three parts of an update that completes at least one block: finish the buffered
  block, absorb the full blocks of the input, keep the remaining bytes.\<close>

definition XXH64_update_fill ::
  "arch \<Rightarrow> mem \<Rightarrow> XXH_istate64_t \<Rightarrow> addr \<Rightarrow> XXH_endianess \<Rightarrow> (XXH_istate64_t \<times> addr) option" where
  "XXH64_update_fill a m state input endian =
     (if memsize64 state \<noteq> 0
      then do { bs \<leftarrow> load_bytes m input (nat (32 - memsize64 state));
                buf \<leftarrow> splice (mem64 state) (nat (memsize64 state)) bs;
                v \<leftarrow> XXH64_stripe a (buffer 0 buf) endian XXH_unaligned 0 (lanes64_of state);
                Some ((set_lanes64 v state)\<lparr>mem64 := buf, memsize64 := 0\<rparr>,
                      input + (32 - memsize64 state)) }
      else Some (state, input))"

definition XXH64_update_bulk ::
  "arch \<Rightarrow> mem \<Rightarrow> XXH_istate64_t \<Rightarrow> addr \<Rightarrow> addr \<Rightarrow> XXH_endianess \<Rightarrow> (XXH_istate64_t \<times> addr) option" where
  "XXH64_update_bulk a m state p bEnd endian =
     (if p + 32 \<le> bEnd
      then do { (p, v) \<leftarrow> XXH64_stripes a m endian XXH_unaligned p (bEnd - 32) (lanes64_of state);
                Some (set_lanes64 v state, p) }
      else Some (state, p))"

definition XXH64_update_store ::
  "mem \<Rightarrow> XXH_istate64_t \<Rightarrow> addr \<Rightarrow> addr \<Rightarrow> XXH_istate64_t option" where
  "XXH64_update_store m state p bEnd =
     (if p < bEnd
      then do { bs \<leftarrow> load_bytes m p (nat (bEnd - p));
                buf \<leftarrow> splice (mem64 state) 0 bs;
                Some (state\<lparr>mem64 := buf, memsize64 := uns32 (int32 (bEnd - p))\<rparr>) }
      else Some state)"

definition XXH64_update_endian ::
  "arch \<Rightarrow> mem \<Rightarrow> XXH_istate64_t \<Rightarrow> addr \<Rightarrow> int \<Rightarrow> XXH_endianess \<Rightarrow> (XXH_errorcode \<times> XXH_istate64_t) option" where
  "XXH64_update_endian a m state input len endian =
     (let bEnd = input + len;
          state = state\<lparr>total_len64 := total_len64 state + word_of_int len\<rparr>
      in
      if (memsize64 state + len) mod size_mod a < 32
      then do { bs \<leftarrow> load_bytes m input (nat len);
                buf \<leftarrow> splice (mem64 state) (nat (memsize64 state)) bs;
                Some (XXH_OK, state\<lparr>mem64 := buf, memsize64 := uns32 (memsize64 state + uns32 len)\<rparr>) }
      else
      do { (state, p) \<leftarrow> XXH64_update_fill a m state input endian;
           (state, p) \<leftarrow> XXH64_update_bulk a m state p bEnd endian;
           state \<leftarrow> XXH64_update_store m state p bEnd;
           Some (XXH_OK, state) })"

definition XXH64_update ::
  "arch \<Rightarrow> mem \<Rightarrow> XXH_istate64_t \<Rightarrow> addr \<Rightarrow> int \<Rightarrow> (XXH_errorcode \<times> XXH_istate64_t) option" where
  "XXH64_update a m state input len =
     (if XXH_CPU_LITTLE_ENDIAN a = XXH_littleEndian
      then XXH64_update_endian a m state input len XXH_littleEndian
      else XXH64_update_endian a m state input len XXH_bigEndian)"

definition XXH64_digest_endian :: "arch \<Rightarrow> XXH_istate64_t \<Rightarrow> XXH_endianess \<Rightarrow> u64 option" where
  "XXH64_digest_endian a state endian =
     (let m = buffer 0 (mem64 state);
          bEnd = memsize64 state;
          h64 = (if total_len64 state \<ge> 32 then XXH64_merge (lanes64_of state)
                 else seed64 state + PRIME64_5)
      in XXH64_tail a m endian XXH_unaligned 0 bEnd (h64 + total_len64 state))"

definition XXH64_digest :: "arch \<Rightarrow> XXH_istate64_t \<Rightarrow> u64 option" where
  "XXH64_digest a state =
     (if XXH_CPU_LITTLE_ENDIAN a = XXH_littleEndian
      then XXH64_digest_endian a state XXH_littleEndian
      else XXH64_digest_endian a state XXH_bigEndian)"

section \<open>The hashes of a list of bytes\<close>

text \<open>The algorithms as the description of xxHash gives them, on lists of bytes and with the constants
  and rotations written out: nothing of the code's own arithmetic is used. \<open>stripes n f\<close> folds
  \<open>f\<close> over the full pieces of \<open>n\<close> bytes, \<open>rest n\<close> is what remains after them.\<close>

definition le32 :: "byte list \<Rightarrow> u32" where
  "le32 bs = word_of_int (le_val bs)"

definition le64 :: "byte list \<Rightarrow> u64" where
  "le64 bs = word_of_int (le_val bs)"

definition xxh32_round :: "u32 \<Rightarrow> u32 \<Rightarrow> u32" where
  "xxh32_round acc lane = word_rotl 13 (acc + lane * 0x85EBCA77) * 0x9E3779B1"

definition xxh32_start :: "u32 \<Rightarrow> lanes32" where
  "xxh32_start seed = (seed + 0x9E3779B1 + 0x85EBCA77, seed + 0x85EBCA77, seed, seed - 0x9E3779B1)"

definition xxh32_step :: "lanes32 \<Rightarrow> byte list \<Rightarrow> lanes32" where
  "xxh32_step v bs = (case v of (v1, v2, v3, v4) \<Rightarrow>
     (xxh32_round v1 (le32 (take 4 bs)), xxh32_round v2 (le32 (take 4 (drop 4 bs))),
      xxh32_round v3 (le32 (take 4 (drop 8 bs))), xxh32_round v4 (le32 (take 4 (drop 12 bs)))))"

definition xxh32_converge :: "lanes32 \<Rightarrow> u32" where
  "xxh32_converge v = (case v of (v1, v2, v3, v4) \<Rightarrow>
     word_rotl 1 v1 + word_rotl 7 v2 + word_rotl 12 v3 + word_rotl 18 v4)"

definition xxh32_mix :: "u32 \<Rightarrow> u32" where
  "xxh32_mix h =
     (let h = (h XOR drop_bit 15 h) * 0x85EBCA77; h = (h XOR drop_bit 13 h) * 0xC2B2AE3D in h XOR drop_bit 16 h)"

definition xxh32_tail :: "u32 \<Rightarrow> byte list \<Rightarrow> u32" where
  "xxh32_tail h bs =
     xxh32_mix
       (foldl (\<lambda>h b. word_rotl 11 (h + ucast b * 0x165667B1) * 0x9E3779B1)
         (stripes 4 (\<lambda>h w. word_rotl 17 (h + le32 w * 0xC2B2AE3D) * 0x27D4EB2F) h bs)
         (rest 4 bs))"

definition xxh32 :: "u32 \<Rightarrow> byte list \<Rightarrow> u32" where
  "xxh32 seed bs =
     xxh32_tail
       ((if 16 \<le> length bs then xxh32_converge (stripes 16 xxh32_step (xxh32_start seed) bs)
         else seed + 0x165667B1) + of_nat (length bs))
       (rest 16 bs)"

definition xxh64_round :: "u64 \<Rightarrow> u64 \<Rightarrow> u64" where
  "xxh64_round acc lane = word_rotl 31 (acc + lane * 0xC2B2AE3D27D4EB4F) * 0x9E3779B185EBCA87"

definition xxh64_start :: "u64 \<Rightarrow> lanes64" where
  "xxh64_start seed =
     (seed + 0x9E3779B185EBCA87 + 0xC2B2AE3D27D4EB4F, seed + 0xC2B2AE3D27D4EB4F, seed, seed - 0x9E3779B185EBCA87)"

definition xxh64_step :: "lanes64 \<Rightarrow> byte list \<Rightarrow> lanes64" where
  "xxh64_step v bs = (case v of (v1, v2, v3, v4) \<Rightarrow>
     (xxh64_round v1 (le64 (take 8 bs)), xxh64_round v2 (le64 (take 8 (drop 8 bs))),
      xxh64_round v3 (le64 (take 8 (drop 16 bs))), xxh64_round v4 (le64 (take 8 (drop 24 bs)))))"

definition xxh64_converge :: "lanes64 \<Rightarrow> u64" where
  "xxh64_converge v = (case v of (v1, v2, v3, v4) \<Rightarrow>
     foldl (\<lambda>h acc. (h XOR xxh64_round 0 acc) * 0x9E3779B185EBCA87 + 0x85EBCA77C2B2AE63)
       (word_rotl 1 v1 + word_rotl 7 v2 + word_rotl 12 v3 + word_rotl 18 v4) [v1, v2, v3, v4])"

definition xxh64_mix :: "u64 \<Rightarrow> u64" where
  "xxh64_mix h =
     (let h = (h XOR drop_bit 33 h) * 0xC2B2AE3D27D4EB4F; h = (h XOR drop_bit 29 h) * 0x165667B19E3779F9
      in h XOR drop_bit 32 h)"

definition xxh64_tail :: "u64 \<Rightarrow> byte list \<Rightarrow> u64" where
  "xxh64_tail h bs =
     (let h = stripes 8 (\<lambda>h w. word_rotl 27 (h XOR xxh64_round 0 (le64 w)) * 0x9E3779B185EBCA87 + 0x85EBCA77C2B2AE63) h bs;
          t = rest 8 bs;
          h = stripes 4 (\<lambda>h w. word_rotl 23 (h XOR (ucast (le32 w) * 0x9E3779B185EBCA87)) * 0xC2B2AE3D27D4EB4F +
                                 0x165667B19E3779F9) h t
      in xxh64_mix
           (foldl (\<lambda>h b. word_rotl 11 (h XOR (ucast b * 0x27D4EB2F165667C5)) * 0x9E3779B185EBCA87) h (rest 4 t)))"

definition xxh64 :: "u64 \<Rightarrow> byte list \<Rightarrow> u64" where
  "xxh64 seed bs =
     xxh64_tail
       ((if 32 \<le> length bs then xxh64_converge (stripes 32 xxh64_step (xxh64_start seed) bs)
         else seed + 0x27D4EB2F165667C5) + of_nat (length bs))
       (rest 32 bs)"

section \<open>What a streaming state stands for\<close>

text \<open>A state represents the bytes it has been fed: the lanes have absorbed the full blocks,
  the buffer holds the rest.\<close>

definition xxh32_repr :: "u32 \<Rightarrow> XXH_istate32_t \<Rightarrow> byte list \<Rightarrow> bool" where
  "xxh32_repr seed s xs \<longleftrightarrow>
     seed32 s = seed \<and> total_len32 s = of_nat (length xs) \<and>
     lanes32_of s = stripes 16 xxh32_step (xxh32_start seed) xs \<and>
     length (mem32 s) = 16 \<and> memsize32 s = int (length xs mod 16) \<and>
     take (length xs mod 16) (mem32 s) = rest 16 xs"

definition xxh64_repr :: "u64 \<Rightarrow> XXH_istate64_t \<Rightarrow> byte list \<Rightarrow> bool" where
  "xxh64_repr seed s xs \<longleftrightarrow>
     seed64 s = seed \<and> total_len64 s = of_nat (length xs) \<and>
     lanes64_of s = stripes 32 xxh64_step (xxh64_start seed) xs \<and>
     length (mem64 s) = 32 \<and> memsize64 s = int (length xs mod 32) \<and>
     take (length xs mod 32) (mem64 s) = rest 32 xs"

text \<open>Feeding a sequence of input pieces, each given by the memory at the time of the call, its
  address and its length.\<close>

fun feed ::
  "(mem \<Rightarrow> 's \<Rightarrow> addr \<Rightarrow> int \<Rightarrow> (XXH_errorcode \<times> 's) option) \<Rightarrow> 's \<Rightarrow> (mem \<times> addr \<times> int) list \<Rightarrow> 's option" where
  "feed update s [] = Some s"
| "feed update s ((m, p, n) # cs) =
     do { (e, s') \<leftarrow> update m s p n; if e = XXH_OK then feed update s' cs else None }"

abbreviation piece :: "mem \<times> addr \<times> byte list \<Rightarrow> mem \<times> addr \<times> int" where
  "piece c \<equiv> (case c of (m, p, bs) \<Rightarrow> (m, p, int (length bs)))"

abbreviation piece_bytes :: "mem \<times> addr \<times> byte list \<Rightarrow> byte list" where
  "piece_bytes c \<equiv> (case c of (m, p, bs) \<Rightarrow> bs)"

text \<open>The precondition of the aligned access path.\<close>

definition aligned :: "XXH_alignment \<Rightarrow> int \<Rightarrow> addr \<Rightarrow> bool" where
  "aligned align k p \<longleftrightarrow> align = XXH_unaligned \<or> k dvd p"

section \<open>The code's arithmetic\<close>

lemmas prime32_defs = PRIME32_1_def PRIME32_2_def PRIME32_3_def PRIME32_4_def PRIME32_5_def

lemmas prime64_defs = PRIME64_1_def PRIME64_2_def PRIME64_3_def PRIME64_4_def PRIME64_5_def

lemma XXH_rotl32_word: "0 < r \<Longrightarrow> r < 32 \<Longrightarrow> XXH_rotl32 x r = word_rotl r x"
proof (rule bit_eqI)
  fix n assume r: "0 < r" "r < 32" and "possible_bit TYPE(u32) n"
  then have n: "n < 32" by simp
  show "bit (XXH_rotl32 x r) n = bit (word_rotl r x) n"
  proof (cases "r \<le> n")
    case True
    then have "(n + (32 - r)) mod 32 = n - r" using r n by (simp add: mod_if)
    with True r n show ?thesis by (auto simp: XXH_rotl32_def bit_word_rotl_iff bit_simps dest: bit_imp_le_length)
  next
    case False
    then show ?thesis using r n by (simp add: XXH_rotl32_def bit_word_rotl_iff bit_simps add.commute [of n])
  qed
qed

lemma XXH_rotl64_word: "0 < r \<Longrightarrow> r < 64 \<Longrightarrow> XXH_rotl64 x r = word_rotl r x"
proof (rule bit_eqI)
  fix n assume r: "0 < r" "r < 64" and "possible_bit TYPE(u64) n"
  then have n: "n < 64" by simp
  show "bit (XXH_rotl64 x r) n = bit (word_rotl r x) n"
  proof (cases "r \<le> n")
    case True
    then have "(n + (64 - r)) mod 64 = n - r" using r n by (simp add: mod_if)
    with True r n show ?thesis by (auto simp: XXH_rotl64_def bit_word_rotl_iff bit_simps dest: bit_imp_le_length)
  next
    case False
    then show ?thesis using r n by (simp add: XXH_rotl64_def bit_word_rotl_iff bit_simps add.commute [of n])
  qed
qed

text \<open>The hashes in terms of the rounds, merges and constants of the code.\<close>

lemma xxh32_round_code: "xxh32_round = XXH32_round"
  by (intro ext) (simp add: xxh32_round_def XXH32_round_def XXH_rotl32_word prime32_defs)

lemma xxh32_start_code: "xxh32_start = XXH32_init"
  by (intro ext) (simp add: xxh32_start_def XXH32_init_def prime32_defs)

lemma xxh32_converge_code: "xxh32_converge = XXH32_merge"
  by (intro ext) (simp add: xxh32_converge_def XXH32_merge_def XXH_rotl32_word)

lemma xxh32_mix_code: "xxh32_mix = XXH32_avalanche"
  by (intro ext) (simp add: xxh32_mix_def XXH32_avalanche_def Let_def prime32_defs)

lemma xxh32_step_code:
  "xxh32_step v bs = (case v of (v1, v2, v3, v4) \<Rightarrow>
     (XXH32_round v1 (le32 (take 4 bs)), XXH32_round v2 (le32 (take 4 (drop 4 bs))),
      XXH32_round v3 (le32 (take 4 (drop 8 bs))), XXH32_round v4 (le32 (take 4 (drop 12 bs)))))"
  unfolding xxh32_step_def xxh32_round_code ..

lemma xxh32_tail_code:
  "xxh32_tail h bs =
     XXH32_avalanche
       (foldl (\<lambda>h b. XXH_rotl32 (h + ucast b * PRIME32_5) 11 * PRIME32_1)
         (stripes 4 (\<lambda>h w. XXH_rotl32 (h + le32 w * PRIME32_3) 17 * PRIME32_4) h bs)
         (rest 4 bs))"
  by (simp add: xxh32_tail_def xxh32_mix_code XXH_rotl32_word prime32_defs)

lemma xxh32_code:
  "xxh32 seed bs =
     xxh32_tail
       ((if 16 \<le> length bs then XXH32_merge (stripes 16 xxh32_step (XXH32_init seed) bs)
         else seed + PRIME32_5) + of_nat (length bs))
       (rest 16 bs)"
  by (simp add: xxh32_def xxh32_converge_code xxh32_start_code prime32_defs)

lemma xxh64_round_code: "xxh64_round = XXH64_round"
  by (intro ext) (simp add: xxh64_round_def XXH64_round_def XXH_rotl64_word prime64_defs)

lemma xxh64_start_code: "xxh64_start = XXH64_init"
  by (intro ext) (simp add: xxh64_start_def XXH64_init_def prime64_defs)

lemma xxh64_converge_code: "xxh64_converge = XXH64_merge"
  by (intro ext) (simp add: xxh64_converge_def XXH64_merge_def XXH64_mergeRound_def xxh64_round_def
    XXH_rotl64_word Let_def prime64_defs)

lemma xxh64_mix_code: "xxh64_mix = XXH64_avalanche"
  by (intro ext) (simp add: xxh64_mix_def XXH64_avalanche_def Let_def prime64_defs)

lemma xxh64_step_code:
  "xxh64_step v bs = (case v of (v1, v2, v3, v4) \<Rightarrow>
     (XXH64_round v1 (le64 (take 8 bs)), XXH64_round v2 (le64 (take 8 (drop 8 bs))),
      XXH64_round v3 (le64 (take 8 (drop 16 bs))), XXH64_round v4 (le64 (take 8 (drop 24 bs)))))"
  unfolding xxh64_step_def xxh64_round_code ..

lemma xxh64_tail_code:
  "xxh64_tail h bs =
     (let h = stripes 8 (\<lambda>h w. XXH64_word8 h (le64 w)) h bs;
          t = rest 8 bs;
          h = stripes 4 (\<lambda>h w. XXH64_word4 h (le32 w)) h t
      in XXH64_avalanche
           (foldl (\<lambda>h b. XXH_rotl64 (h XOR (ucast b * PRIME64_5)) 11 * PRIME64_1) h (rest 4 t)))"
  by (simp add: xxh64_tail_def xxh64_mix_code XXH64_word8_def XXH64_word4_def xxh64_round_def XXH_rotl64_word
    Let_def prime64_defs)

lemma xxh64_code:
  "xxh64 seed bs =
     xxh64_tail
       ((if 32 \<le> length bs then XXH64_merge (stripes 32 xxh64_step (XXH64_init seed) bs)
         else seed + PRIME64_5) + of_nat (length bs))
       (rest 32 bs)"
  by (simp add: xxh64_def xxh64_converge_code xxh64_start_code prime64_defs)

lemma xxh32_repr_code:
  "xxh32_repr seed s xs \<longleftrightarrow>
     seed32 s = seed \<and> total_len32 s = of_nat (length xs) \<and>
     lanes32_of s = stripes 16 xxh32_step (XXH32_init seed) xs \<and>
     length (mem32 s) = 16 \<and> memsize32 s = int (length xs mod 16) \<and>
     take (length xs mod 16) (mem32 s) = rest 16 xs"
  by (simp add: xxh32_repr_def xxh32_start_code)

lemma xxh64_repr_code:
  "xxh64_repr seed s xs \<longleftrightarrow>
     seed64 s = seed \<and> total_len64 s = of_nat (length xs) \<and>
     lanes64_of s = stripes 32 xxh64_step (XXH64_init seed) xs \<and>
     length (mem64 s) = 32 \<and> memsize64 s = int (length xs mod 32) \<and>
     take (length xs mod 32) (mem64 s) = rest 32 xs"
  by (simp add: xxh64_repr_def xxh64_start_code)

section \<open>The code reads little endian words\<close>

lemma XXH_swap32_masks: "XXH_swap32 x =
     (push_bit 24 x AND push_bit 24 (mask 8)) OR
     (push_bit 8 x AND push_bit 16 (mask 8)) OR
     (drop_bit 8 x AND push_bit 8 (mask 8)) OR
     (drop_bit 24 x AND mask 8)"
  by (simp add: XXH_swap32_def mask_eq_exp_minus_1 push_bit_eq_mult)

lemma XXH_swap64_masks: "XXH_swap64 x =
     (push_bit 56 x AND push_bit 56 (mask 8)) OR
     (push_bit 40 x AND push_bit 48 (mask 8)) OR
     (push_bit 24 x AND push_bit 40 (mask 8)) OR
     (push_bit 8 x AND push_bit 32 (mask 8)) OR
     (drop_bit 8 x AND push_bit 24 (mask 8)) OR
     (drop_bit 24 x AND push_bit 16 (mask 8)) OR
     (drop_bit 40 x AND push_bit 8 (mask 8)) OR
     (drop_bit 56 x AND mask 8)"
  by (simp add: XXH_swap64_def mask_eq_exp_minus_1 push_bit_eq_mult)

text \<open>Byte swapping a big-endian load gives the little-endian value.\<close>

lemma XXH_swap32_rev:
  assumes "length bs = 4"
  shows "XXH_swap32 (word_of_int (le_val (rev bs))) = le32 bs"
proof -
  from assms obtain b0 b1 b2 b3 where bs: "bs = [b0, b1, b2, b3]"
    by (auto simp: length_Suc_conv numeral_eq_Suc)
  have "bit (XXH_swap32 (word_of_int (le_val (rev bs)))) n = bit (le32 bs) n" if "n < 32" for n
  proof -
    consider "n < 8" | "8 \<le> n" "n < 16" | "16 \<le> n" "n < 24" | "24 \<le> n" by linarith
    then show ?thesis using that
      by cases (auto simp: bs le32_def le_val_Cons_word XXH_swap32_masks bit_simps byte_bit_ge simp del: le_val.simps(2))
  qed
  then show ?thesis by (intro bit_word_eqI) auto
qed

lemma XXH_swap64_rev:
  assumes "length bs = 8"
  shows "XXH_swap64 (word_of_int (le_val (rev bs))) = le64 bs"
proof -
  from assms obtain b0 b1 b2 b3 b4 b5 b6 b7 where bs: "bs = [b0, b1, b2, b3, b4, b5, b6, b7]"
    by (auto simp: length_Suc_conv numeral_eq_Suc)
  have "bit (XXH_swap64 (word_of_int (le_val (rev bs)))) n = bit (le64 bs) n" if "n < 64" for n
  proof -
    consider "n < 8" | "8 \<le> n" "n < 16" | "16 \<le> n" "n < 24" | "24 \<le> n" "n < 32"
      | "32 \<le> n" "n < 40" | "40 \<le> n" "n < 48" | "48 \<le> n" "n < 56" | "56 \<le> n" by linarith
    then show ?thesis using that
      by cases (auto simp: bs le64_def le_val_Cons_word XXH_swap64_masks bit_simps byte_bit_ge simp del: le_val.simps(2))
  qed
  then show ?thesis by (intro bit_word_eqI) auto
qed

lemma aligned_unaligned [simp]: "aligned XXH_unaligned k p"
  by (simp add: aligned_def)

lemma aligned_add: "aligned align k p \<Longrightarrow> k dvd q \<Longrightarrow> aligned align k (p + q)"
  by (auto simp: aligned_def)

lemma readLE32_align_eq:
  assumes "bytes_at m p bs" "length bs = 4" "aligned align 4 p"
  shows "XXH_readLE32_align a m p (XXH_CPU_LITTLE_ENDIAN a) align = Some (le32 bs)"
proof -
  have "load_bytes m p 4 = Some bs" using assms(1,2) load_bytes_eq by fastforce
  then show ?thesis
    using assms(2,3) XXH_swap32_rev [of bs]
    by (auto simp: XXH_readLE32_align_def XXH_read32_def deref32_def aligned_def mod_0_imp_dvd XXH_CPU_LITTLE_ENDIAN_def
        native_val_def le32_def)
qed

lemma readLE64_align_eq:
  assumes "bytes_at m p bs" "length bs = 8" "aligned align 8 p"
  shows "XXH_readLE64_align a m p (XXH_CPU_LITTLE_ENDIAN a) align = Some (le64 bs)"
proof -
  have "load_bytes m p 8 = Some bs" using assms(1,2) load_bytes_eq by fastforce
  then show ?thesis
    using assms(2,3) XXH_swap64_rev [of bs]
    by (auto simp: XXH_readLE64_align_def XXH_read64_def deref64_def aligned_def mod_0_imp_dvd XXH_CPU_LITTLE_ENDIAN_def
        native_val_def le64_def)
qed

lemma XXH32_stripe_eq:
  assumes b: "bytes_at m p bs" "16 \<le> length bs" and al: "aligned align 4 p"
  shows "XXH32_stripe a m (XXH_CPU_LITTLE_ENDIAN a) align p v = Some (xxh32_step v bs)"
proof -
  have rd: "XXH_readLE32_align a m (p + int i) (XXH_CPU_LITTLE_ENDIAN a) align = Some (le32 (take 4 (drop i bs)))"
    if "i + 4 \<le> length bs" "i mod 4 = 0" for i
  proof (rule readLE32_align_eq)
    show "bytes_at m (p + int i) (take 4 (drop i bs))" using b(1) that(1) by (rule bytes_at_sub)
    show "aligned align 4 (p + int i)" using al that(2)
      by (intro aligned_add) (auto simp: int_dvd_int_iff [of 4, simplified])
  qed (use that in simp)
  show ?thesis using b(2) rd [of 0] rd [of 4] rd [of 8] rd [of 12]
    by (cases v) (simp add: XXH32_stripe_def xxh32_step_code)
qed

lemma XXH32_stripes_eq:
  assumes "bytes_at m p bs" "16 \<le> length bs" "aligned align 4 p"
  shows "XXH32_stripes a m (XXH_CPU_LITTLE_ENDIAN a) align p (p + int (length bs) - 16) v
       = Some (p + int (length bs - length (rest 16 bs)), stripes 16 xxh32_step v bs)"
  using assms
proof (induction "length bs" arbitrary: bs p v rule: less_induct)
  case less
  have st: "XXH32_stripe a m (XXH_CPU_LITTLE_ENDIAN a) align p v = Some (xxh32_step v (take 16 bs))"
    using less.prems bytes_at_sub [of m p bs 0 16] by (intro XXH32_stripe_eq) auto
  show ?case
  proof (cases "32 \<le> length bs")
    case True
    let ?bs = "drop 16 bs"
    have "bytes_at m (p + 16) ?bs"
      using bytes_at_append [of m p "take 16 bs" "drop 16 bs"] less.prems(1) True by (simp add: min_def)
    moreover have "aligned align 4 (p + 16)" using less.prems(3) by (rule aligned_add) simp
    ultimately have "XXH32_stripes a m (XXH_CPU_LITTLE_ENDIAN a) align (p + 16) (p + 16 + int (length ?bs) - 16) (xxh32_step v (take 16 bs))
       = Some (p + 16 + int (length ?bs - length (rest 16 ?bs)), stripes 16 xxh32_step (xxh32_step v (take 16 bs)) ?bs)"
      using less.prems True by (intro less.hyps) auto
    then show ?thesis
      using True st by (subst XXH32_stripes.simps)
        (simp add: stripes_step [of 16 bs] rest_step [of 16 bs] of_nat_diff algebra_simps)
  next
    case False
    with less.prems have "length bs mod 16 = length bs - 16" by (simp add: mod_if)
    with False less.prems show ?thesis
      by (subst XXH32_stripes.simps) (simp add: st stripes_step [of 16 bs] stripes_short)
  qed
qed

section \<open>XXH32 computes the hash\<close>

lemma XXH32_words_eq:
  assumes "bytes_at m p bs" "aligned align 4 p"
  shows "XXH32_words a m (XXH_CPU_LITTLE_ENDIAN a) align p (p + int (length bs)) h
       = Some (p + int (length bs - length (rest 4 bs)),
               stripes 4 (\<lambda>h w. XXH_rotl32 (h + le32 w * PRIME32_3) 17 * PRIME32_4) h bs)"
  using assms
proof (induction "length bs" arbitrary: bs p h rule: less_induct)
  case less
  show ?case
  proof (cases "4 \<le> length bs")
    case True
    let ?bs = "drop 4 bs"
    have spl: "bytes_at m p (take 4 bs)" "bytes_at m (p + 4) ?bs"
      using bytes_at_split [OF less.prems(1) True] by simp_all
    have rd: "XXH_readLE32_align a m p (XXH_CPU_LITTLE_ENDIAN a) align = Some (le32 (take 4 bs))"
      using spl less.prems(2) True by (intro readLE32_align_eq) auto
    have "aligned align 4 (p + 4)" using less.prems(2) by (rule aligned_add) simp
    note less.hyps [of ?bs "p + 4" "XXH_rotl32 (h + le32 (take 4 bs) * PRIME32_3) 17 * PRIME32_4", OF _ _ this]
    with True spl rd show ?thesis
      by (subst XXH32_words.simps)
        (simp add: stripes_step [of 4 bs] rest_step [of 4 bs] of_nat_diff algebra_simps)
  next
    case False
    then show ?thesis
      by (subst XXH32_words.simps) (simp add: stripes_short)
  qed
qed

lemma XXH32_bytes_eq:
  "bytes_at m p bs \<Longrightarrow> XXH32_bytes m p (p + int (length bs)) h
     = Some (foldl (\<lambda>h b. XXH_rotl32 (h + ucast b * PRIME32_5) 11 * PRIME32_1) h bs)"
proof (induction bs arbitrary: p h)
  case (Cons b bs)
  then have b: "m p = Some b" "bytes_at m (p + 1) bs" by (simp_all add: bytes_at_Cons)
  with Cons.IH [OF b(2)] show ?case
    by (subst XXH32_bytes.simps) (simp add: algebra_simps)
qed (subst XXH32_bytes.simps, simp)

lemma aligned_rest:
  assumes "aligned align j p" "j dvd int k"
  shows "aligned align j (p + int (length bs - length (rest k bs)))"
  using assms by (intro aligned_add) (auto simp: minus_mod_eq_mult_div intro: dvd_mult2)

text \<open>The part after the stripes, as the one-shot function and the digest run it.\<close>

lemma XXH32_finish_eq:
  assumes "bytes_at m p bs" "aligned align 4 p" and that: "b = p"
  shows "(do { (p, h32) \<leftarrow> XXH32_words a m (XXH_CPU_LITTLE_ENDIAN a) align p (p + int (length bs)) h;
               h32 \<leftarrow> XXH32_bytes m p (b + int (length bs)) h32;
               Some (XXH32_avalanche h32) }) = Some (xxh32_tail h bs)"
proof -
  have e: "p + int (length bs) = p + int (length bs - length (rest 4 bs)) + int (length (rest 4 bs))"
    using rest_end [of bs 4] by linarith
  have "XXH32_bytes m (p + int (length bs - length (rest 4 bs))) (p + int (length bs)) h'
     = Some (foldl (\<lambda>h b. XXH_rotl32 (h + ucast b * PRIME32_5) 11 * PRIME32_1) h' (rest 4 bs))" for h'
    unfolding e by (rule XXH32_bytes_eq [OF bytes_at_rest [OF assms(1)]])
  then show ?thesis
    using that by (simp add: XXH32_words_eq [OF assms(1,2)] xxh32_tail_code del: length_rest)
qed

lemma XXH32_endian_align_eq:
  assumes "bytes_at m p bs" "aligned align 4 p"
  shows "XXH32_endian_align a m p (int (length bs)) seed (XXH_CPU_LITTLE_ENDIAN a) align = Some (xxh32 seed bs)"
proof -
  let ?q = "p + int (length bs - length (rest 16 bs))"
  have e: "p + int (length bs) = ?q + int (length (rest 16 bs))"
    using rest_end [of bs 16] by linarith
  have b: "bytes_at m ?q (rest 16 bs)" by (rule bytes_at_rest [OF assms(1)])
  have al: "aligned align 4 ?q" using assms(2) by (rule aligned_rest) simp
  show ?thesis
  proof (cases "16 \<le> length bs")
    case True
    then show ?thesis
      using XXH32_stripes_eq [OF assms(1) True assms(2)] XXH32_finish_eq [OF b al refl]
      by (simp add: XXH32_endian_align_def xxh32_code Let_def e [symmetric] del: length_rest)
  next
    case False
    then have "?q = p" "rest 16 bs = bs" by auto
    with False show ?thesis
      using XXH32_finish_eq [OF assms refl]
      by (simp add: XXH32_endian_align_def xxh32_code Let_def)
  qed
qed

lemma XXH32_eq:
  assumes "bytes_at m input bs"
  shows "XXH32 a unaligned_access m input (int (length bs)) seed = Some (xxh32 seed bs)"
proof -
  have "XXH32_endian_align a m input (int (length bs)) seed (XXH_CPU_LITTLE_ENDIAN a) align = Some (xxh32 seed bs)"
    if "align = XXH_unaligned \<or> input mod 4 = 0" for align
    using assms that by (intro XXH32_endian_align_eq) (auto simp: aligned_def)
  then show ?thesis
    by (auto simp: XXH32_def Let_def XXH_CPU_LITTLE_ENDIAN_def)
qed

section \<open>XXH32 streaming\<close>

lemma lanes32_set [simp]: "lanes32_of (set_lanes32 v s) = v"
  by (cases v) (simp add: lanes32_of_def set_lanes32_def)

lemma set_lanes32_fields [simp]:
  "seed32 (set_lanes32 v s) = seed32 s" "total_len32 (set_lanes32 v s) = total_len32 s"
  "mem32 (set_lanes32 v s) = mem32 s" "memsize32 (set_lanes32 v s) = memsize32 s"
  by (cases v; simp add: set_lanes32_def)+

lemma lanes32_of_frame [simp]:
  "lanes32_of (s\<lparr>mem32 := b\<rparr>) = lanes32_of s" "lanes32_of (s\<lparr>memsize32 := n\<rparr>) = lanes32_of s"
  "lanes32_of (s\<lparr>total_len32 := t\<rparr>) = lanes32_of s" "lanes32_of (s\<lparr>seed32 := sd\<rparr>) = lanes32_of s"
  by (simp_all add: lanes32_of_def)

lemma XXH32_update_fill_ok:
  assumes ys: "bytes_at m input ys" and buf: "take (length buf) (mem32 s) = buf" "length (mem32 s) = 16"
    "memsize32 s = int (length buf)" "length buf < 16" "16 \<le> length (buf @ ys)"
  shows "ok (\<lambda>(s', p). \<exists>ys'. bytes_at m p ys' \<and> p + int (length ys') = input + int (length ys) \<and>
           stripes 16 xxh32_step (lanes32_of s) (buf @ ys) = stripes 16 xxh32_step (lanes32_of s') ys' \<and>
           rest 16 (buf @ ys) = rest 16 ys' \<and> memsize32 s' = 0 \<and> length (mem32 s') = 16 \<and>
           seed32 s' = seed32 s \<and> total_len32 s' = total_len32 s)
         (XXH32_update_fill a m s input (XXH_CPU_LITTLE_ENDIAN a))"
proof (cases "buf = []")
  case True
  with assms show ?thesis by (auto simp: XXH32_update_fill_def)
next
  case False
  let ?n = "16 - length buf"
  have n: "nat (16 - int (length buf)) = ?n" "?n \<le> length ys" "16 - int (length buf) = int ?n"
    using buf by auto
  note spl = bytes_at_split [OF ys n(2)]
  have ld: "load_bytes m input ?n = Some (take ?n ys)"
    using load_bytes_eq [OF spl(1)] n(2) by (simp add: min.absorb2)
  have sp: "splice (mem32 s) (length buf) (take ?n ys) = Some (buf @ take ?n ys)"
    using buf n(2) by (auto simp: splice_def min.absorb2)
  have st: "XXH32_stripe a (buffer 0 (buf @ take ?n ys)) (XXH_CPU_LITTLE_ENDIAN a) XXH_unaligned 0 (lanes32_of s)
      = Some (xxh32_step (lanes32_of s) (buf @ take ?n ys))"
    using bytes_at_buffer buf n(2) by (intro XXH32_stripe_eq) auto
  have "XXH32_update_fill a m s input (XXH_CPU_LITTLE_ENDIAN a)
      = Some ((set_lanes32 (xxh32_step (lanes32_of s) (buf @ take ?n ys)) s)\<lparr>mem32 := buf @ take ?n ys, memsize32 := 0\<rparr>,
              input + int ?n)"
    unfolding XXH32_update_fill_def buf(3) n(1) nat_int ld
    by (simp add: sp st False n(3) del: of_nat_diff)
  with spl(2) n(2) stripes_fill [OF False buf(4), of ys] buf show ?thesis
    by (auto intro!: exI [of _ "drop ?n ys"])
qed

lemma XXH32_update_bulk_ok:
  assumes "bytes_at m p ys"
  shows "ok (\<lambda>(s', p'). bytes_at m p' (rest 16 ys) \<and> p' + int (length (rest 16 ys)) = p + int (length ys) \<and>
           lanes32_of s' = stripes 16 xxh32_step (lanes32_of s) ys \<and> memsize32 s' = memsize32 s \<and>
           mem32 s' = mem32 s \<and> seed32 s' = seed32 s \<and> total_len32 s' = total_len32 s)
         (XXH32_update_bulk a m s p (p + int (length ys)) (XXH_CPU_LITTLE_ENDIAN a))"
proof (cases "16 \<le> length ys")
  case True
  from XXH32_stripes_eq [OF assms True aligned_unaligned, of a "lanes32_of s"] True
    bytes_at_rest [OF assms, of 16] rest_end [of ys 16]
  show ?thesis by (auto simp: XXH32_update_bulk_def)
next
  case False
  with assms show ?thesis by (auto simp: XXH32_update_bulk_def stripes_short)
qed

lemma XXH32_update_store_ok:
  assumes "bytes_at m p r" "length r < 16" "length (mem32 s) = 16" "memsize32 s = 0"
  shows "ok (\<lambda>s'. take (length r) (mem32 s') = r \<and> memsize32 s' = int (length r) \<and> length (mem32 s') = 16 \<and>
           lanes32_of s' = lanes32_of s \<and> seed32 s' = seed32 s \<and> total_len32 s' = total_len32 s)
         (XXH32_update_store m s p (p + int (length r)))"
  using assms load_bytes_eq [OF assms(1)] by (auto simp: XXH32_update_store_def splice_def)

lemma XXH32_update_ok:
  assumes r: "xxh32_repr seed s xs" and ys: "bytes_at m input ys" and fits: "int (length ys) + 16 \<le> size_mod a"
  shows "ok (\<lambda>(e, s'). e = XXH_OK \<and> xxh32_repr seed s' (xs @ ys)) (XXH32_update a m s input (int (length ys)))"
proof -
  let ?buf = "rest 16 xs" and ?E = "XXH_CPU_LITTLE_ENDIAN a"
  let ?s = "s\<lparr>total_len32 := total_len32 s + word_of_int (int (length ys))\<rparr>"
  have s: "take (length ?buf) (mem32 s) = ?buf" "length (mem32 s) = 16"
    "memsize32 s = int (length ?buf)" "length ?buf < 16"
    using r by (auto simp: xxh32_repr_code)
  have md: "(int (length ?buf) + int (length ys)) mod size_mod a = int (length (?buf @ ys))"
    using s(4) fits by (simp del: length_rest)
  have st: "stripes 16 xxh32_step (XXH32_init seed) (xs @ ys) = stripes 16 xxh32_step (lanes32_of s) (?buf @ ys)"
    using r stripes_rest [of 16 xxh32_step _ xs ys] by (simp add: xxh32_repr_code)
  have lm: "(length xs + length ys) mod 16 = length (rest 16 (?buf @ ys))"
    using rest_rest [of 16 xs ys] by (metis length_append length_rest)
  have repr: "xxh32_repr seed s' (xs @ ys)"
    if "seed32 s' = seed32 s" "total_len32 s' = total_len32 ?s"
      "lanes32_of s' = stripes 16 xxh32_step (lanes32_of s) (?buf @ ys)" "length (mem32 s') = 16"
      "memsize32 s' = int (length (rest 16 (?buf @ ys)))"
      "take (length (rest 16 (?buf @ ys))) (mem32 s') = rest 16 (?buf @ ys)" for s'
    using that r by (simp add: xxh32_repr_code st lm rest_rest [of 16 xs ys] del: length_rest)
  have "ok (\<lambda>(e, s'). e = XXH_OK \<and> xxh32_repr seed s' (xs @ ys))
          (XXH32_update_endian a m s input (int (length ys)) ?E)"
  proof (cases "length (?buf @ ys) < 16")
    case True
    let ?b = "?buf @ ys @ drop (length ?buf + length ys) (mem32 s)"
    have "splice (mem32 s) (length ?buf) ys = Some ?b"
      using True s by (simp add: splice_def del: length_rest)
    then have "XXH32_update_endian a m s input (int (length ys)) ?E =
          Some (XXH_OK, ?s\<lparr>mem32 := ?b, memsize32 := int (length (?buf @ ys))\<rparr>)"
      using True load_bytes_eq [OF ys]
      by (simp add: XXH32_update_endian_def s(3) md Let_def del: length_rest)
    then show ?thesis using True s(2)
      by (auto intro!: repr simp: stripes_short simp del: length_rest)
  next
    case False
    obtain s1 p1 ys1 where 1: "XXH32_update_fill a m ?s input ?E = Some (s1, p1)"
      "bytes_at m p1 ys1" "p1 + int (length ys1) = input + int (length ys)"
      "stripes 16 xxh32_step (lanes32_of s) (?buf @ ys) = stripes 16 xxh32_step (lanes32_of s1) ys1"
      "rest 16 (?buf @ ys) = rest 16 ys1" "memsize32 s1 = 0" "length (mem32 s1) = 16"
      "seed32 s1 = seed32 s" "total_len32 s1 = total_len32 ?s"
      using okD [OF XXH32_update_fill_ok [where a = a and buf = ?buf and s = ?s, OF ys]] s False
      by (auto simp del: length_rest)
    obtain s2 p2 where 2: "XXH32_update_bulk a m s1 p1 (input + int (length ys)) ?E = Some (s2, p2)"
      "bytes_at m p2 (rest 16 ys1)" "p2 + int (length (rest 16 ys1)) = input + int (length ys)"
      "lanes32_of s2 = stripes 16 xxh32_step (lanes32_of s1) ys1" "memsize32 s2 = memsize32 s1"
      "mem32 s2 = mem32 s1" "seed32 s2 = seed32 s1" "total_len32 s2 = total_len32 s1"
      using okD [OF XXH32_update_bulk_ok [OF 1(2), of s1 a]] 1(3) by (auto simp del: length_rest)
    have l16: "length (rest 16 ys1) < 16" by simp
    obtain s3 where 3: "XXH32_update_store m s2 p2 (input + int (length ys)) = Some s3"
      "take (length (rest 16 ys1)) (mem32 s3) = rest 16 ys1" "memsize32 s3 = int (length (rest 16 ys1))"
      "length (mem32 s3) = 16" "lanes32_of s3 = lanes32_of s2" "seed32 s3 = seed32 s2" "total_len32 s3 = total_len32 s2"
      using okD [OF XXH32_update_store_ok [OF 2(2) l16, of s2]] 1 2(3,5,6) by (auto simp del: length_rest)
    have "XXH32_update_endian a m s input (int (length ys)) ?E = Some (XXH_OK, s3)"
      using False 1(1) 2(1) 3(1) by (simp add: XXH32_update_endian_def s(3) md Let_def del: length_rest)
    then show ?thesis using 1 2 3 by (auto intro!: repr simp del: length_rest)
  qed
  then show ?thesis by (auto simp: XXH32_update_def XXH_CPU_LITTLE_ENDIAN_def)
qed

lemma XXH32_reset_repr:
  "length (mem32 s) = 16 \<Longrightarrow> fst (XXH32_reset s seed) = XXH_OK \<and> xxh32_repr seed (snd (XXH32_reset s seed)) []"
  by (simp add: XXH32_reset_def xxh32_repr_code lanes32_of_def XXH32_init_def stripes_short)

lemma XXH32_digest_ok:
  assumes r: "xxh32_repr seed s xs" and len: "length xs < 2 ^ 64"
  shows "XXH32_digest a s = Some (xxh32 seed xs)"
proof -
  let ?h = "(if 16 \<le> length xs then XXH32_merge (stripes 16 xxh32_step (XXH32_init seed) xs)
             else seed + PRIME32_5) + of_nat (length xs)"
  have "mem32 s = rest 16 xs @ drop (length xs mod 16) (mem32 s)"
    using r by (metis append_take_drop_id xxh32_repr_code)
  then have b: "bytes_at (buffer 0 (mem32 s)) 0 (rest 16 xs)"
    by (metis bytes_at_append bytes_at_buffer)
  have "(of_nat (length xs) :: u64) \<ge> 16 \<longleftrightarrow> 16 \<le> length xs"
    using len by (simp add: word_le_nat_alt unat_of_nat)
  moreover have "(ucast (of_nat (length xs) :: u64) :: u32) = of_nat (length xs)"
    by (simp add: unsigned_of_nat word_of_nat_eq_iff)
  moreover have "memsize32 s = int (length (rest 16 xs))" "total_len32 s = of_nat (length xs)"
    "lanes32_of s = stripes 16 xxh32_step (XXH32_init seed) xs" "seed32 s = seed"
    using r by (simp_all add: xxh32_repr_code)
  ultimately have "XXH32_digest_endian a s (XXH_CPU_LITTLE_ENDIAN a) = Some (xxh32 seed xs)"
    using XXH32_finish_eq [OF b aligned_unaligned refl, of a ?h]
    by (simp add: XXH32_digest_endian_def xxh32_code Let_def del: length_rest split del: if_split cong: if_cong)
  then show ?thesis by (auto simp: XXH32_digest_def XXH_CPU_LITTLE_ENDIAN_def)
qed
section \<open>XXH64 computes the hash\<close>

lemma XXH64_stripe_eq:
  assumes b: "bytes_at m p bs" "32 \<le> length bs" and al: "aligned align 8 p"
  shows "XXH64_stripe a m (XXH_CPU_LITTLE_ENDIAN a) align p v = Some (xxh64_step v bs)"
proof -
  have rd: "XXH_readLE64_align a m (p + int i) (XXH_CPU_LITTLE_ENDIAN a) align = Some (le64 (take 8 (drop i bs)))"
    if "i + 8 \<le> length bs" "i mod 8 = 0" for i
  proof (rule readLE64_align_eq)
    show "bytes_at m (p + int i) (take 8 (drop i bs))" using b(1) that(1) by (rule bytes_at_sub)
    show "aligned align 8 (p + int i)" using al that(2)
      by (intro aligned_add) (auto simp: int_dvd_int_iff [of 8, simplified])
  qed (use that in simp)
  show ?thesis using b(2) rd [of 0] rd [of 8] rd [of 16] rd [of 24]
    by (cases v) (simp add: XXH64_stripe_def xxh64_step_code)
qed

lemma XXH64_stripes_eq:
  assumes "bytes_at m p bs" "32 \<le> length bs" "aligned align 8 p"
  shows "XXH64_stripes a m (XXH_CPU_LITTLE_ENDIAN a) align p (p + int (length bs) - 32) v
       = Some (p + int (length bs - length (rest 32 bs)), stripes 32 xxh64_step v bs)"
  using assms
proof (induction "length bs" arbitrary: bs p v rule: less_induct)
  case less
  note spl = bytes_at_split [OF less.prems(1,2)]
  have st: "XXH64_stripe a m (XXH_CPU_LITTLE_ENDIAN a) align p v = Some (xxh64_step v (take 32 bs))"
    using less.prems spl(1) by (intro XXH64_stripe_eq) auto
  show ?case
  proof (cases "64 \<le> length bs")
    case True
    let ?bs = "drop 32 bs"
    have "aligned align 8 (p + 32)" using less.prems(3) by (rule aligned_add) simp
    with spl(2) True less.prems(2)
    have "XXH64_stripes a m (XXH_CPU_LITTLE_ENDIAN a) align (p + 32) (p + 32 + int (length ?bs) - 32) (xxh64_step v (take 32 bs))
       = Some (p + 32 + int (length ?bs - length (rest 32 ?bs)), stripes 32 xxh64_step (xxh64_step v (take 32 bs)) ?bs)"
      by (intro less.hyps) auto
    then show ?thesis
      using True st by (subst XXH64_stripes.simps)
        (simp add: stripes_step [of 32 bs] rest_step [of 32 bs] of_nat_diff algebra_simps)
  next
    case False
    with less.prems have "length bs mod 32 = length bs - 32" by (simp add: mod_if)
    with False less.prems show ?thesis
      by (subst XXH64_stripes.simps) (simp add: st stripes_step [of 32 bs] stripes_short)
  qed
qed

lemma XXH64_words_eq:
  assumes "bytes_at m p bs" "aligned align 8 p"
  shows "XXH64_words a m (XXH_CPU_LITTLE_ENDIAN a) align p (p + int (length bs)) h
       = Some (p + int (length bs - length (rest 8 bs)), stripes 8 (\<lambda>h w. XXH64_word8 h (le64 w)) h bs)"
  using assms
proof (induction "length bs" arbitrary: bs p h rule: less_induct)
  case less
  show ?case
  proof (cases "8 \<le> length bs")
    case True
    note spl = bytes_at_split [OF less.prems(1) True]
    have rd: "XXH_readLE64_align a m p (XXH_CPU_LITTLE_ENDIAN a) align = Some (le64 (take 8 bs))"
      using spl less.prems(2) True by (intro readLE64_align_eq) auto
    have "aligned align 8 (p + 8)" using less.prems(2) by (rule aligned_add) simp
    note less.hyps [of "drop 8 bs" "p + 8" "XXH64_word8 h (le64 (take 8 bs))", OF _ _ this]
    with True spl rd show ?thesis
      by (subst XXH64_words.simps)
        (simp add: stripes_step [of 8 bs] rest_step [of 8 bs] of_nat_diff algebra_simps)
  next
    case False
    then show ?thesis by (subst XXH64_words.simps) (simp add: stripes_short)
  qed
qed

lemma XXH64_bytes_eq:
  "bytes_at m p bs \<Longrightarrow> XXH64_bytes m p (p + int (length bs)) h
     = Some (foldl (\<lambda>h b. XXH_rotl64 (h XOR (ucast b * PRIME64_5)) 11 * PRIME64_1) h bs)"
proof (induction bs arbitrary: p h)
  case (Cons b bs)
  then have b: "m p = Some b" "bytes_at m (p + 1) bs" by (simp_all add: bytes_at_Cons)
  with Cons.IH [OF b(2)] show ?case
    by (subst XXH64_bytes.simps) (simp add: algebra_simps)
qed (subst XXH64_bytes.simps, simp)

text \<open>At most one 4-byte word remains after the 8-byte words.\<close>

lemma XXH64_word4_eq:
  assumes "bytes_at m p bs" "aligned align 4 p" "length bs < 8"
  shows "(if p + 4 \<le> p + int (length bs)
          then do { w \<leftarrow> XXH_readLE32_align a m p (XXH_CPU_LITTLE_ENDIAN a) align; Some (p + 4, XXH64_word4 h w) }
          else Some (p, h))
       = Some (p + int (length bs - length (rest 4 bs)), stripes 4 (\<lambda>h w. XXH64_word4 h (le32 w)) h bs)"
proof (cases "4 \<le> length bs")
  case True
  have "XXH_readLE32_align a m p (XXH_CPU_LITTLE_ENDIAN a) align = Some (le32 (take 4 bs))"
    using bytes_at_split [OF assms(1) True] assms(2) True by (intro readLE32_align_eq) auto
  moreover have "length bs - 4 < 4" using assms(3) by simp
  ultimately show ?thesis using True
    by (simp add: stripes_step [of 4 bs] stripes_short mod_if)
qed (simp add: stripes_short)

lemma XXH64_tail_eq:
  assumes b: "bytes_at m p bs" and al: "aligned align 8 p"
  shows "XXH64_tail a m (XXH_CPU_LITTLE_ENDIAN a) align p (p + int (length bs)) h = Some (xxh64_tail h bs)"
proof -
  let ?t = "rest 8 bs"
  let ?p = "p + int (length bs - length ?t)"
  let ?q = "?p + int (length ?t - length (rest 4 ?t))"
  have e: "p + int (length bs) = ?p + int (length ?t)" "p + int (length bs) = ?q + int (length (rest 4 ?t))"
    using rest_end [of bs 8] rest_end [of ?t 4] by linarith+
  have t: "bytes_at m ?p ?t" "bytes_at m ?q (rest 4 ?t)"
    using bytes_at_rest [OF b] bytes_at_rest [OF bytes_at_rest [OF b]] by simp_all
  have "aligned align 4 p" using al by (auto simp: aligned_def intro: dvd_trans [of 4 8])
  then have a4: "aligned align 4 ?p" by (rule aligned_rest) simp
  have l: "length ?t < 8" by simp
  show ?thesis
    using XXH64_words_eq [OF assms] XXH64_word4_eq [OF t(1) a4 l] XXH64_bytes_eq [OF t(2)]
    by (simp add: XXH64_tail_def xxh64_tail_code Let_def e(1) [symmetric] e(2) [symmetric] del: length_rest)
qed

lemma XXH64_endian_align_eq:
  assumes "bytes_at m p bs" "aligned align 8 p"
  shows "XXH64_endian_align a m p (int (length bs)) seed (XXH_CPU_LITTLE_ENDIAN a) align = Some (xxh64 seed bs)"
proof -
  let ?q = "p + int (length bs - length (rest 32 bs))"
  have e: "p + int (length bs) = ?q + int (length (rest 32 bs))"
    using rest_end [of bs 32] by linarith
  have b: "bytes_at m ?q (rest 32 bs)" by (rule bytes_at_rest [OF assms(1)])
  have al: "aligned align 8 ?q" using assms(2) by (rule aligned_rest) simp
  show ?thesis
  proof (cases "32 \<le> length bs")
    case True
    then show ?thesis
      using XXH64_stripes_eq [OF assms(1) True assms(2)] XXH64_tail_eq [OF b al]
      by (simp add: XXH64_endian_align_def xxh64_code Let_def e [symmetric] del: length_rest)
  next
    case False
    then have "?q = p" "rest 32 bs = bs" by auto
    with False show ?thesis
      using XXH64_tail_eq [OF assms] by (simp add: XXH64_endian_align_def xxh64_code Let_def)
  qed
qed

lemma XXH64_eq:
  assumes "bytes_at m input bs"
  shows "XXH64 a unaligned_access m input (int (length bs)) seed = Some (xxh64 seed bs)"
proof -
  have "XXH64_endian_align a m input (int (length bs)) seed (XXH_CPU_LITTLE_ENDIAN a) align = Some (xxh64 seed bs)"
    if "align = XXH_unaligned \<or> input mod 8 = 0" for align
    using assms that by (intro XXH64_endian_align_eq) (auto simp: aligned_def)
  then show ?thesis
    by (auto simp: XXH64_def Let_def XXH_CPU_LITTLE_ENDIAN_def)
qed

section \<open>XXH64 streaming\<close>

lemma lanes64_set [simp]: "lanes64_of (set_lanes64 v s) = v"
  by (cases v) (simp add: lanes64_of_def set_lanes64_def)

lemma set_lanes64_fields [simp]:
  "seed64 (set_lanes64 v s) = seed64 s" "total_len64 (set_lanes64 v s) = total_len64 s"
  "mem64 (set_lanes64 v s) = mem64 s" "memsize64 (set_lanes64 v s) = memsize64 s"
  by (cases v; simp add: set_lanes64_def)+

lemma lanes64_of_frame [simp]:
  "lanes64_of (s\<lparr>mem64 := b\<rparr>) = lanes64_of s" "lanes64_of (s\<lparr>memsize64 := n\<rparr>) = lanes64_of s"
  "lanes64_of (s\<lparr>total_len64 := t\<rparr>) = lanes64_of s" "lanes64_of (s\<lparr>seed64 := sd\<rparr>) = lanes64_of s"
  by (simp_all add: lanes64_of_def)

lemma XXH64_update_fill_ok:
  assumes ys: "bytes_at m input ys" and buf: "take (length buf) (mem64 s) = buf" "length (mem64 s) = 32"
    "memsize64 s = int (length buf)" "length buf < 32" "32 \<le> length (buf @ ys)"
  shows "ok (\<lambda>(s', p). \<exists>ys'. bytes_at m p ys' \<and> p + int (length ys') = input + int (length ys) \<and>
           stripes 32 xxh64_step (lanes64_of s) (buf @ ys) = stripes 32 xxh64_step (lanes64_of s') ys' \<and>
           rest 32 (buf @ ys) = rest 32 ys' \<and> memsize64 s' = 0 \<and> length (mem64 s') = 32 \<and>
           seed64 s' = seed64 s \<and> total_len64 s' = total_len64 s)
         (XXH64_update_fill a m s input (XXH_CPU_LITTLE_ENDIAN a))"
proof (cases "buf = []")
  case True
  with assms show ?thesis by (auto simp: XXH64_update_fill_def)
next
  case False
  let ?n = "32 - length buf"
  have n: "nat (32 - int (length buf)) = ?n" "?n \<le> length ys" "32 - int (length buf) = int ?n"
    using buf by auto
  note spl = bytes_at_split [OF ys n(2)]
  have ld: "load_bytes m input ?n = Some (take ?n ys)"
    using load_bytes_eq [OF spl(1)] n(2) by (simp add: min.absorb2)
  have sp: "splice (mem64 s) (length buf) (take ?n ys) = Some (buf @ take ?n ys)"
    using buf n(2) by (auto simp: splice_def min.absorb2)
  have st: "XXH64_stripe a (buffer 0 (buf @ take ?n ys)) (XXH_CPU_LITTLE_ENDIAN a) XXH_unaligned 0 (lanes64_of s)
      = Some (xxh64_step (lanes64_of s) (buf @ take ?n ys))"
    using bytes_at_buffer buf n(2) by (intro XXH64_stripe_eq) auto
  have "XXH64_update_fill a m s input (XXH_CPU_LITTLE_ENDIAN a)
      = Some ((set_lanes64 (xxh64_step (lanes64_of s) (buf @ take ?n ys)) s)\<lparr>mem64 := buf @ take ?n ys, memsize64 := 0\<rparr>,
              input + int ?n)"
    unfolding XXH64_update_fill_def buf(3) n(1) nat_int ld
    by (simp add: sp st False n(3) del: of_nat_diff)
  with spl(2) n(2) stripes_fill [OF False buf(4), of ys] buf show ?thesis
    by (auto intro!: exI [of _ "drop ?n ys"])
qed

lemma XXH64_update_bulk_ok:
  assumes "bytes_at m p ys"
  shows "ok (\<lambda>(s', p'). bytes_at m p' (rest 32 ys) \<and> p' + int (length (rest 32 ys)) = p + int (length ys) \<and>
           lanes64_of s' = stripes 32 xxh64_step (lanes64_of s) ys \<and> memsize64 s' = memsize64 s \<and>
           mem64 s' = mem64 s \<and> seed64 s' = seed64 s \<and> total_len64 s' = total_len64 s)
         (XXH64_update_bulk a m s p (p + int (length ys)) (XXH_CPU_LITTLE_ENDIAN a))"
proof (cases "32 \<le> length ys")
  case True
  from XXH64_stripes_eq [OF assms True aligned_unaligned, of a "lanes64_of s"] True
    bytes_at_rest [OF assms, of 32] rest_end [of ys 32]
  show ?thesis by (auto simp: XXH64_update_bulk_def)
next
  case False
  with assms show ?thesis by (auto simp: XXH64_update_bulk_def stripes_short)
qed

lemma XXH64_update_store_ok:
  assumes "bytes_at m p r" "length r < 32" "length (mem64 s) = 32" "memsize64 s = 0"
  shows "ok (\<lambda>s'. take (length r) (mem64 s') = r \<and> memsize64 s' = int (length r) \<and> length (mem64 s') = 32 \<and>
           lanes64_of s' = lanes64_of s \<and> seed64 s' = seed64 s \<and> total_len64 s' = total_len64 s)
         (XXH64_update_store m s p (p + int (length r)))"
  using assms load_bytes_eq [OF assms(1)] by (auto simp: XXH64_update_store_def splice_def)

lemma XXH64_update_ok:
  assumes r: "xxh64_repr seed s xs" and ys: "bytes_at m input ys" and fits: "int (length ys) + 32 \<le> size_mod a"
  shows "ok (\<lambda>(e, s'). e = XXH_OK \<and> xxh64_repr seed s' (xs @ ys)) (XXH64_update a m s input (int (length ys)))"
proof -
  let ?buf = "rest 32 xs" and ?E = "XXH_CPU_LITTLE_ENDIAN a"
  let ?s = "s\<lparr>total_len64 := total_len64 s + word_of_int (int (length ys))\<rparr>"
  have s: "take (length ?buf) (mem64 s) = ?buf" "length (mem64 s) = 32"
    "memsize64 s = int (length ?buf)" "length ?buf < 32"
    using r by (auto simp: xxh64_repr_code)
  have md: "(int (length ?buf) + int (length ys)) mod size_mod a = int (length (?buf @ ys))"
    using s(4) fits by (simp del: length_rest)
  have st: "stripes 32 xxh64_step (XXH64_init seed) (xs @ ys) = stripes 32 xxh64_step (lanes64_of s) (?buf @ ys)"
    using r stripes_rest [of 32 xxh64_step _ xs ys] by (simp add: xxh64_repr_code)
  have lm: "(length xs + length ys) mod 32 = length (rest 32 (?buf @ ys))"
    using rest_rest [of 32 xs ys] by (metis length_append length_rest)
  have repr: "xxh64_repr seed s' (xs @ ys)"
    if "seed64 s' = seed64 s" "total_len64 s' = total_len64 ?s"
      "lanes64_of s' = stripes 32 xxh64_step (lanes64_of s) (?buf @ ys)" "length (mem64 s') = 32"
      "memsize64 s' = int (length (rest 32 (?buf @ ys)))"
      "take (length (rest 32 (?buf @ ys))) (mem64 s') = rest 32 (?buf @ ys)" for s'
    using that r by (simp add: xxh64_repr_code st lm rest_rest [of 32 xs ys] del: length_rest)
  have "ok (\<lambda>(e, s'). e = XXH_OK \<and> xxh64_repr seed s' (xs @ ys))
          (XXH64_update_endian a m s input (int (length ys)) ?E)"
  proof (cases "length (?buf @ ys) < 32")
    case True
    let ?b = "?buf @ ys @ drop (length ?buf + length ys) (mem64 s)"
    have "splice (mem64 s) (length ?buf) ys = Some ?b"
      using True s by (simp add: splice_def del: length_rest)
    then have "XXH64_update_endian a m s input (int (length ys)) ?E =
          Some (XXH_OK, ?s\<lparr>mem64 := ?b, memsize64 := int (length (?buf @ ys))\<rparr>)"
      using True load_bytes_eq [OF ys]
      by (simp add: XXH64_update_endian_def s(3) md Let_def del: length_rest)
    then show ?thesis using True s(2)
      by (auto intro!: repr simp: stripes_short simp del: length_rest)
  next
    case False
    obtain s1 p1 ys1 where 1: "XXH64_update_fill a m ?s input ?E = Some (s1, p1)"
      "bytes_at m p1 ys1" "p1 + int (length ys1) = input + int (length ys)"
      "stripes 32 xxh64_step (lanes64_of s) (?buf @ ys) = stripes 32 xxh64_step (lanes64_of s1) ys1"
      "rest 32 (?buf @ ys) = rest 32 ys1" "memsize64 s1 = 0" "length (mem64 s1) = 32"
      "seed64 s1 = seed64 s" "total_len64 s1 = total_len64 ?s"
      using okD [OF XXH64_update_fill_ok [where a = a and buf = ?buf and s = ?s, OF ys]] s False
      by (auto simp del: length_rest)
    obtain s2 p2 where 2: "XXH64_update_bulk a m s1 p1 (input + int (length ys)) ?E = Some (s2, p2)"
      "bytes_at m p2 (rest 32 ys1)" "p2 + int (length (rest 32 ys1)) = input + int (length ys)"
      "lanes64_of s2 = stripes 32 xxh64_step (lanes64_of s1) ys1" "memsize64 s2 = memsize64 s1"
      "mem64 s2 = mem64 s1" "seed64 s2 = seed64 s1" "total_len64 s2 = total_len64 s1"
      using okD [OF XXH64_update_bulk_ok [OF 1(2), of s1 a]] 1(3) by (auto simp del: length_rest)
    have l32: "length (rest 32 ys1) < 32" by simp
    obtain s3 where 3: "XXH64_update_store m s2 p2 (input + int (length ys)) = Some s3"
      "take (length (rest 32 ys1)) (mem64 s3) = rest 32 ys1" "memsize64 s3 = int (length (rest 32 ys1))"
      "length (mem64 s3) = 32" "lanes64_of s3 = lanes64_of s2" "seed64 s3 = seed64 s2" "total_len64 s3 = total_len64 s2"
      using okD [OF XXH64_update_store_ok [OF 2(2) l32, of s2]] 1 2(3,5,6) by (auto simp del: length_rest)
    have "XXH64_update_endian a m s input (int (length ys)) ?E = Some (XXH_OK, s3)"
      using False 1(1) 2(1) 3(1) by (simp add: XXH64_update_endian_def s(3) md Let_def del: length_rest)
    then show ?thesis using 1 2 3 by (auto intro!: repr simp del: length_rest)
  qed
  then show ?thesis by (auto simp: XXH64_update_def XXH_CPU_LITTLE_ENDIAN_def)
qed

lemma XXH64_reset_repr:
  "length (mem64 s) = 32 \<Longrightarrow> fst (XXH64_reset s seed) = XXH_OK \<and> xxh64_repr seed (snd (XXH64_reset s seed)) []"
  by (simp add: XXH64_reset_def xxh64_repr_code lanes64_of_def XXH64_init_def stripes_short)

lemma XXH64_digest_ok:
  assumes r: "xxh64_repr seed s xs" and len: "length xs < 2 ^ 64"
  shows "XXH64_digest a s = Some (xxh64 seed xs)"
proof -
  let ?h = "(if 32 \<le> length xs then XXH64_merge (stripes 32 xxh64_step (XXH64_init seed) xs)
             else seed + PRIME64_5) + of_nat (length xs)"
  have "mem64 s = rest 32 xs @ drop (length xs mod 32) (mem64 s)"
    using r by (metis append_take_drop_id xxh64_repr_code)
  then have b: "bytes_at (buffer 0 (mem64 s)) 0 (rest 32 xs)"
    by (metis bytes_at_append bytes_at_buffer)
  have "(of_nat (length xs) :: u64) \<ge> 32 \<longleftrightarrow> 32 \<le> length xs"
    using len by (simp add: word_le_nat_alt unat_of_nat)
  moreover have "memsize64 s = int (length (rest 32 xs))" "total_len64 s = of_nat (length xs)"
    "lanes64_of s = stripes 32 xxh64_step (XXH64_init seed) xs" "seed64 s = seed"
    using r by (simp_all add: xxh64_repr_code)
  ultimately have "XXH64_digest_endian a s (XXH_CPU_LITTLE_ENDIAN a) = Some (xxh64 seed xs)"
    using XXH64_tail_eq [OF b aligned_unaligned, of a ?h]
    by (simp add: XXH64_digest_endian_def xxh64_code Let_def del: length_rest split del: if_split cong: if_cong)
  then show ?thesis by (auto simp: XXH64_digest_def XXH_CPU_LITTLE_ENDIAN_def)
qed

section \<open>The streaming interface\<close>

text \<open>
  What a client of a streaming hash relies on: an update extends the represented input, a
  digest is the hash of the represented input. Feeding the input in any pieces then gives
  the hash of the whole.
\<close>

locale streaming_hash =
  fixes update :: "mem \<Rightarrow> 's \<Rightarrow> addr \<Rightarrow> int \<Rightarrow> (XXH_errorcode \<times> 's) option"
    and digest :: "'s \<Rightarrow> 'h option"
    and repr :: "'s \<Rightarrow> byte list \<Rightarrow> bool"
    and hash :: "byte list \<Rightarrow> 'h"
    and limit :: int
  assumes update_repr: "repr s xs \<Longrightarrow> bytes_at m p ys \<Longrightarrow> int (length ys) \<le> limit \<Longrightarrow>
      ok (\<lambda>(e, s'). e = XXH_OK \<and> repr s' (xs @ ys)) (update m s p (int (length ys)))"
    and digest_repr: "repr s xs \<Longrightarrow> length xs < 2 ^ 64 \<Longrightarrow> digest s = Some (hash xs)"
begin

lemma feed_repr:
  assumes "repr s xs" and "\<forall>(m, p, ys) \<in> set cs. bytes_at m p ys \<and> int (length ys) \<le> limit"
  shows "ok (\<lambda>s'. repr s' (xs @ concat (map piece_bytes cs))) (feed update s (map piece cs))"
  using assms
proof (induction cs arbitrary: s xs)
  case (Cons c cs)
  obtain m p ys where c: "c = (m, p, ys)" by (cases c)
  with Cons.prems have "ok (\<lambda>(e, s'). e = XXH_OK \<and> repr s' (xs @ ys)) (update m s p (int (length ys)))"
    by (intro update_repr) auto
  then show ?case
  proof (rule okE)
    fix r assume r: "update m s p (int (length ys)) = Some r" "case r of (e, s') \<Rightarrow> e = XXH_OK \<and> repr s' (xs @ ys)"
    then have "repr (snd r) (xs @ ys)" by (cases r) auto
    from Cons.IH [OF this] Cons.prems(2) r show ?thesis by (cases r) (auto simp: c)
  qed
qed simp

lemma feed_digest:
  assumes "repr s []" and "\<forall>(m, p, ys) \<in> set cs. bytes_at m p ys \<and> int (length ys) \<le> limit"
    and "length (concat (map piece_bytes cs)) < 2 ^ 64"
  shows "do { s' \<leftarrow> feed update s (map piece cs); digest s' } = Some (hash (concat (map piece_bytes cs)))"
  using feed_repr [OF assms(1,2)] assms(3) by (auto simp: ok_iff digest_repr)

end

interpretation xxh32_stream:
  streaming_hash "XXH32_update a" "XXH32_digest a" "xxh32_repr seed" "xxh32 seed" "size_mod a - 16" for a seed
  by unfold_locales (auto intro: XXH32_update_ok XXH32_digest_ok)

interpretation xxh64_stream:
  streaming_hash "XXH64_update a" "XXH64_digest a" "xxh64_repr seed" "xxh64 seed" "size_mod a - 32" for a seed
  by unfold_locales (auto intro: XXH64_update_ok XXH64_digest_ok)

section \<open>The properties of the hashes\<close>

lemma XXH32_abc: "xxh32 0 [97, 98, 99] = 0x32D153FF"
  by code_simp

lemma XXH64_abc: "xxh64 0 [97, 98, 99] = 0x44BC2CF5AD770999"
  by code_simp

text \<open>A published test vector that is longer than a stripe: \<open>Nobody inspects the spammish repetition\<close>.\<close>

lemma xxh_spammish:
  fixes bs :: "byte list"
  defines "bs \<equiv> [78, 111, 98, 111, 100, 121, 32, 105, 110, 115, 112, 101, 99, 116, 115, 32, 116, 104, 101, 
    32, 115, 112, 97, 109, 109, 105, 115, 104, 32, 114, 101, 112, 101, 116, 105, 116, 105, 111, 110]"
  shows "xxh32 0 bs = 0xE2293B2F" and "xxh64 0 bs = 0xFBCEA83C8A378BF1"
  unfolding bs_def by code_simp+

text \<open>C34: On every target (either byte order, aligned or unaligned input, either build switch), the one-shot
  \<open>XXH32\<close> of any mapped input terminates, reads only the input, and returns the hash
  that the description of the algorithm gives for the bytes.\<close>

theorem XXH32_correct:
  assumes "bytes_at m input bs"
  shows "XXH32 a unaligned_access m input (int (length bs)) seed = Some (xxh32 seed bs)"
  using assms by (rule XXH32_eq)

theorem XXH32_correct_witness:
  "XXH32 \<lparr>little_endian = False, bits64 = True, sw_bitcount = False\<rparr> False (buffer 4 [97, 98, 99]) 4 3 0 = Some 0x32D153FF"
  using XXH32_correct [OF bytes_at_buffer [of 4 "[97, 98, 99]"], of "\<lparr>little_endian = False, bits64 = True, sw_bitcount = False\<rparr>" False 0]
  by (simp add: XXH32_abc)

text \<open>C32: Feeding an input to the streaming \<open>XXH32\<close> in any pieces, each from its own buffer and
  memory, gives after a reset of any state the digest that the one-shot function computes on the
  whole input.\<close>

theorem XXH32_streaming:
  assumes "length (mem32 s) = 16"
    and "\<forall>(m, p, ys) \<in> set cs. bytes_at m p ys \<and> int (length ys) \<le> size_mod a - 16"
    and "bytes_at m input (concat (map piece_bytes cs))"
    and "length (concat (map piece_bytes cs)) < 2 ^ 64"
  shows "do { s' \<leftarrow> feed (XXH32_update a) (snd (XXH32_reset s seed)) (map piece cs); XXH32_digest a s' }
       = XXH32 a unaligned_access m input (int (length (concat (map piece_bytes cs)))) seed"
  unfolding XXH32_eq [OF assms(3)]
  by (rule xxh32_stream.feed_digest [OF XXH32_reset_repr [OF assms(1), THEN conjunct2] assms(2,4)])

theorem XXH32_streaming_witness:
  "do { s' \<leftarrow> feed (XXH32_update \<lparr>little_endian = True, bits64 = True, sw_bitcount = False\<rparr>)
               (snd (XXH32_reset \<lparr>total_len32 = 7, seed32 = 1, v1_32 = 0, v2_32 = 0, v3_32 = 0, v4_32 = 0,
                                    mem32 = replicate 16 5, memsize32 = 3\<rparr> 0))
               [(buffer 4 [97], 4, 1), (buffer 9 [98, 99], 9, 2)];
         XXH32_digest \<lparr>little_endian = True, bits64 = True, sw_bitcount = False\<rparr> s' } =
   XXH32 \<lparr>little_endian = True, bits64 = True, sw_bitcount = False\<rparr> True (buffer 0 [97, 98, 99]) 0 3 0"
  using XXH32_streaming [of "\<lparr>total_len32 = 7, seed32 = 1, v1_32 = 0, v2_32 = 0, v3_32 = 0, v4_32 = 0,
        mem32 = replicate 16 5, memsize32 = 3\<rparr>" "[(buffer 4 [97], 4, [97]), (buffer 9 [98, 99], 9, [98, 99])]"
        "\<lparr>little_endian = True, bits64 = True, sw_bitcount = False\<rparr>" "buffer 0 [97, 98, 99]" 0 0 True]
  by (simp add: bytes_at_buffer size_mod_def)

text \<open>C35: On every target (either byte order, aligned or unaligned input, either build switch), the one-shot
  \<open>XXH64\<close> of any mapped input terminates, reads only the input, and returns the hash
  that the description of the algorithm gives for the bytes.\<close>

theorem XXH64_correct:
  assumes "bytes_at m input bs"
  shows "XXH64 a unaligned_access m input (int (length bs)) seed = Some (xxh64 seed bs)"
  using assms by (rule XXH64_eq)

theorem XXH64_correct_witness:
  "XXH64 \<lparr>little_endian = False, bits64 = True, sw_bitcount = False\<rparr> False (buffer 4 [97, 98, 99]) 4 3 0 = Some 0x44BC2CF5AD770999"
  using XXH64_correct [OF bytes_at_buffer [of 4 "[97, 98, 99]"], of "\<lparr>little_endian = False, bits64 = True, sw_bitcount = False\<rparr>" False 0]
  by (simp add: XXH64_abc)

text \<open>C33: Feeding an input to the streaming \<open>XXH64\<close> in any pieces, each from its own buffer and
  memory, gives after a reset of any state the digest that the one-shot function computes on the
  whole input.\<close>

theorem XXH64_streaming:
  assumes "length (mem64 s) = 32"
    and "\<forall>(m, p, ys) \<in> set cs. bytes_at m p ys \<and> int (length ys) \<le> size_mod a - 32"
    and "bytes_at m input (concat (map piece_bytes cs))"
    and "length (concat (map piece_bytes cs)) < 2 ^ 64"
  shows "do { s' \<leftarrow> feed (XXH64_update a) (snd (XXH64_reset s seed)) (map piece cs); XXH64_digest a s' }
       = XXH64 a unaligned_access m input (int (length (concat (map piece_bytes cs)))) seed"
  unfolding XXH64_eq [OF assms(3)]
  by (rule xxh64_stream.feed_digest [OF XXH64_reset_repr [OF assms(1), THEN conjunct2] assms(2,4)])

theorem XXH64_streaming_witness:
  "do { s' \<leftarrow> feed (XXH64_update \<lparr>little_endian = True, bits64 = True, sw_bitcount = False\<rparr>)
               (snd (XXH64_reset \<lparr>total_len64 = 7, seed64 = 1, v1_64 = 0, v2_64 = 0, v3_64 = 0, v4_64 = 0,
                                    mem64 = replicate 32 5, memsize64 = 3\<rparr> 0))
               [(buffer 4 [97], 4, 1), (buffer 9 [98, 99], 9, 2)];
         XXH64_digest \<lparr>little_endian = True, bits64 = True, sw_bitcount = False\<rparr> s' } =
   XXH64 \<lparr>little_endian = True, bits64 = True, sw_bitcount = False\<rparr> True (buffer 0 [97, 98, 99]) 0 3 0"
  using XXH64_streaming [of "\<lparr>total_len64 = 7, seed64 = 1, v1_64 = 0, v2_64 = 0, v3_64 = 0, v4_64 = 0,
        mem64 = replicate 32 5, memsize64 = 3\<rparr>" "[(buffer 4 [97], 4, [97]), (buffer 9 [98, 99], 9, [98, 99])]"
        "\<lparr>little_endian = True, bits64 = True, sw_bitcount = False\<rparr>" "buffer 0 [97, 98, 99]" 0 0 True]
  by (simp add: bytes_at_buffer size_mod_def)

end
