(* ===== verification/Lz4_Frame.thy ===== *)
theory Lz4_Frame
  imports Lz4_HC_Api Xxhash
begin

text \<open>
  The frame format of \<open>lz4frame.c\<close>, compression side: types, errors, bounds, headers, block compression, the buffered
  \<open>LZ4F_compressUpdate\<close>, \<open>LZ4F_flush\<close> and \<open>LZ4F_compressEnd\<close>, the one-call \<open>LZ4F_compressFrame\<close> and the contexts.
\<close>

section \<open>Types\<close>

text \<open>Enumerations and unsigned fields are integers: the code computes with their values.\<close>

record LZ4F_frameInfo_t =
  blockSizeID :: int
  blockMode :: int
  contentChecksumFlag :: int
  frameType :: int
  contentSize :: int

record LZ4F_preferences_t =
  frameInfo :: LZ4F_frameInfo_t
  p_compressionLevel :: int
  autoFlush :: int

abbreviation (input) LZ4F_max64KB :: int where "LZ4F_max64KB \<equiv> 4"
abbreviation (input) LZ4F_BLOCKSIZEID_DEFAULT :: int where "LZ4F_BLOCKSIZEID_DEFAULT \<equiv> 4"
abbreviation (input) LZ4F_blockLinked :: int where "LZ4F_blockLinked \<equiv> 0"
abbreviation (input) LZ4F_blockIndependent :: int where "LZ4F_blockIndependent \<equiv> 1"
abbreviation (input) LZ4F_contentChecksumEnabled :: int where "LZ4F_contentChecksumEnabled \<equiv> 1"
abbreviation (input) LZ4F_frame :: int where "LZ4F_frame \<equiv> 0"
abbreviation (input) LZ4F_skippableFrame :: int where "LZ4F_skippableFrame \<equiv> 1"
abbreviation (input) LZ4F_MAGIC_SKIPPABLE_START :: int where "LZ4F_MAGIC_SKIPPABLE_START \<equiv> 0x184D2A50"
abbreviation (input) LZ4F_MAGICNUMBER :: int where "LZ4F_MAGICNUMBER \<equiv> 0x184D2204"
abbreviation (input) LZ4F_BLOCKUNCOMPRESSED_FLAG :: int where "LZ4F_BLOCKUNCOMPRESSED_FLAG \<equiv> 0x80000000"
abbreviation (input) minFHSize :: int where "minFHSize \<equiv> 7"
abbreviation (input) maxFHSize :: int where "maxFHSize \<equiv> 15"
abbreviation (input) BHSize :: int where "BHSize \<equiv> 4"
abbreviation (input) minHClevel :: int where "minHClevel \<equiv> 3"
abbreviation (input) LZ4F_VERSION :: int where "LZ4F_VERSION \<equiv> 100"
abbreviation (input) MB :: int where "MB \<equiv> 1048576"

text \<open>The target, the switch \<open>XXH_USE_UNALIGNED_ACCESS\<close>, and the allocator of the C library: \<open>calloc\<close> gives an address, 0
  when it fails, and the memory with the new region; \<open>free\<close> gives the memory without it.\<close>

record lz4f_env =
  env_arch :: arch
  env_unaligned :: bool
  env_calloc :: "mem \<Rightarrow> int \<Rightarrow> addr \<times> mem"
  env_free :: "mem \<Rightarrow> addr \<Rightarrow> mem"

definition FREEMEM :: "lz4f_env \<Rightarrow> mem \<Rightarrow> addr \<Rightarrow> mem" where
  "FREEMEM e m p = (if p = 0 then m else env_free e m p)"

text \<open>The block compressor's state: its address and its contents as a \<open>LZ4_stream_t\<close> or a \<open>LZ4_streamHC_t\<close>. Each use starts
  with a reset, so that what one leaves for the other does not matter.\<close>

record lz4_ctx =
  ctx_ptr :: addr
  ctx_stream :: LZ4_stream_t_internal
  ctx_streamHC :: LZ4HC_Data_Structure

record LZ4F_cctx_t =
  prefs :: LZ4F_preferences_t
  c_version :: int
  cStage :: int
  c_maxBlockSize :: int
  c_maxBufferSize :: int
  tmpBuff :: addr
  c_tmpIn :: addr
  c_tmpInSize :: int
  totalInSize :: int
  c_xxh :: XXH_istate32_t
  lz4Ctx :: lz4_ctx
  lz4CtxLevel :: int

section \<open>Errors\<close>

datatype LZ4F_errorCodes =
  OK_NoError | ERROR_GENERIC | ERROR_maxBlockSize_invalid | ERROR_blockMode_invalid | ERROR_contentChecksumFlag_invalid
| ERROR_compressionLevel_invalid | ERROR_headerVersion_wrong | ERROR_blockChecksum_unsupported | ERROR_reservedFlag_set
| ERROR_allocation_failed | ERROR_srcSize_tooLarge | ERROR_dstMaxSize_tooSmall | ERROR_frameHeader_incomplete
| ERROR_frameType_unknown | ERROR_frameSize_wrong | ERROR_srcPtr_wrong | ERROR_decompressionFailed
| ERROR_headerChecksum_invalid | ERROR_contentChecksum_invalid | ERROR_maxCode

fun LZ4F_code :: "LZ4F_errorCodes \<Rightarrow> int" where
  "LZ4F_code OK_NoError = 0"
| "LZ4F_code ERROR_GENERIC = 1"
| "LZ4F_code ERROR_maxBlockSize_invalid = 2"
| "LZ4F_code ERROR_blockMode_invalid = 3"
| "LZ4F_code ERROR_contentChecksumFlag_invalid = 4"
| "LZ4F_code ERROR_compressionLevel_invalid = 5"
| "LZ4F_code ERROR_headerVersion_wrong = 6"
| "LZ4F_code ERROR_blockChecksum_unsupported = 7"
| "LZ4F_code ERROR_reservedFlag_set = 8"
| "LZ4F_code ERROR_allocation_failed = 9"
| "LZ4F_code ERROR_srcSize_tooLarge = 10"
| "LZ4F_code ERROR_dstMaxSize_tooSmall = 11"
| "LZ4F_code ERROR_frameHeader_incomplete = 12"
| "LZ4F_code ERROR_frameType_unknown = 13"
| "LZ4F_code ERROR_frameSize_wrong = 14"
| "LZ4F_code ERROR_srcPtr_wrong = 15"
| "LZ4F_code ERROR_decompressionFailed = 16"
| "LZ4F_code ERROR_headerChecksum_invalid = 17"
| "LZ4F_code ERROR_contentChecksum_invalid = 18"
| "LZ4F_code ERROR_maxCode = 19"

text \<open>\<open>(size_t)-code\<close>.\<close>

definition LZ4F_error :: "arch \<Rightarrow> LZ4F_errorCodes \<Rightarrow> int" where
  "LZ4F_error a c = (- LZ4F_code c) mod size_mod a"

definition LZ4F_isError :: "arch \<Rightarrow> int \<Rightarrow> bool" where
  "LZ4F_isError a code = (code > LZ4F_error a ERROR_maxCode)"

definition LZ4F_errorStrings :: "string list" where
  "LZ4F_errorStrings =
     [''OK_NoError'', ''ERROR_GENERIC'', ''ERROR_maxBlockSize_invalid'', ''ERROR_blockMode_invalid'',
      ''ERROR_contentChecksumFlag_invalid'', ''ERROR_compressionLevel_invalid'', ''ERROR_headerVersion_wrong'',
      ''ERROR_blockChecksum_unsupported'', ''ERROR_reservedFlag_set'', ''ERROR_allocation_failed'', ''ERROR_srcSize_tooLarge'',
      ''ERROR_dstMaxSize_tooSmall'', ''ERROR_frameHeader_incomplete'', ''ERROR_frameType_unknown'', ''ERROR_frameSize_wrong'',
      ''ERROR_srcPtr_wrong'', ''ERROR_decompressionFailed'', ''ERROR_headerChecksum_invalid'', ''ERROR_contentChecksum_invalid'',
      ''ERROR_maxCode'']"

definition LZ4F_getErrorName :: "arch \<Rightarrow> int \<Rightarrow> string option" where
  "LZ4F_getErrorName a code =
     (if LZ4F_isError a code
      then (let i = - int32 code in
            if 0 \<le> i \<and> nat i < length LZ4F_errorStrings then Some (LZ4F_errorStrings ! nat i) else None)
      else Some ''Unspecified error code'')"

section \<open>Private functions\<close>

definition LZ4F_getBlockSize :: "arch \<Rightarrow> int \<Rightarrow> int" where
  "LZ4F_getBlockSize a bid =
     (let bid = (if bid = 0 then LZ4F_BLOCKSIZEID_DEFAULT else bid);
          bid = uns32 (bid - 4)
      in if bid > 3 then LZ4F_error a ERROR_maxBlockSize_invalid
         else [64 * KB, 256 * KB, 1 * MB, 4 * MB] ! nat bid)"

definition LZ4F_readLE32 :: "mem \<Rightarrow> addr \<Rightarrow> int option" where
  "LZ4F_readLE32 m p =
     do { b0 \<leftarrow> m p; b1 \<leftarrow> m (p + 1); b2 \<leftarrow> m (p + 2); b3 \<leftarrow> m (p + 3);
          Some (uint b0 + uint b1 * 2 ^ 8 + uint b2 * 2 ^ 16 + uint b3 * 2 ^ 24) }"

definition LZ4F_writeLE32 :: "mem \<Rightarrow> addr \<Rightarrow> int \<Rightarrow> mem option" where
  "LZ4F_writeLE32 m p v =
     do { m \<leftarrow> store8 m p (word_of_int v); m \<leftarrow> store8 m (p + 1) (word_of_int (v div 2 ^ 8));
          m \<leftarrow> store8 m (p + 2) (word_of_int (v div 2 ^ 16)); store8 m (p + 3) (word_of_int (v div 2 ^ 24)) }"

definition LZ4F_readLE64 :: "mem \<Rightarrow> addr \<Rightarrow> int option" where
  "LZ4F_readLE64 m p =
     do { b0 \<leftarrow> m p; b1 \<leftarrow> m (p + 1); b2 \<leftarrow> m (p + 2); b3 \<leftarrow> m (p + 3);
          b4 \<leftarrow> m (p + 4); b5 \<leftarrow> m (p + 5); b6 \<leftarrow> m (p + 6); b7 \<leftarrow> m (p + 7);
          Some (uint b0 + uint b1 * 2 ^ 8 + uint b2 * 2 ^ 16 + uint b3 * 2 ^ 24 +
                uint b4 * 2 ^ 32 + uint b5 * 2 ^ 40 + uint b6 * 2 ^ 48 + uint b7 * 2 ^ 56) }"

definition LZ4F_writeLE64 :: "mem \<Rightarrow> addr \<Rightarrow> int \<Rightarrow> mem option" where
  "LZ4F_writeLE64 m p v =
     do { m \<leftarrow> store8 m p (word_of_int v); m \<leftarrow> store8 m (p + 1) (word_of_int (v div 2 ^ 8));
          m \<leftarrow> store8 m (p + 2) (word_of_int (v div 2 ^ 16)); m \<leftarrow> store8 m (p + 3) (word_of_int (v div 2 ^ 24));
          m \<leftarrow> store8 m (p + 4) (word_of_int (v div 2 ^ 32)); m \<leftarrow> store8 m (p + 5) (word_of_int (v div 2 ^ 40));
          m \<leftarrow> store8 m (p + 6) (word_of_int (v div 2 ^ 48)); store8 m (p + 7) (word_of_int (v div 2 ^ 56)) }"

definition LZ4F_headerChecksum :: "lz4f_env \<Rightarrow> mem \<Rightarrow> addr \<Rightarrow> int \<Rightarrow> byte option" where
  "LZ4F_headerChecksum e m header len =
     do { xxh \<leftarrow> XXH32 (env_arch e) (env_unaligned e) m header len 0; Some (word_of_int (uint xxh div 2 ^ 8)) }"

section \<open>Bounds\<close>

function LZ4F_optimalBSID_loop :: "arch \<Rightarrow> int \<Rightarrow> int \<Rightarrow> int \<Rightarrow> int \<Rightarrow> int" where
  "LZ4F_optimalBSID_loop a requestedBSID srcSize proposedBSID maxBlockSize =
     (if requestedBSID > proposedBSID
      then (if srcSize \<le> maxBlockSize then proposedBSID
            else LZ4F_optimalBSID_loop a requestedBSID srcSize (proposedBSID + 1) (maxBlockSize * 4 mod size_mod a))
      else requestedBSID)"
  by pat_completeness auto
termination
  by (relation "measure (\<lambda>(a, requestedBSID, srcSize, proposedBSID, maxBlockSize). nat (requestedBSID - proposedBSID))") auto

declare LZ4F_optimalBSID_loop.simps [simp del]

definition LZ4F_optimalBSID :: "arch \<Rightarrow> int \<Rightarrow> int \<Rightarrow> int" where
  "LZ4F_optimalBSID a requestedBSID srcSize = LZ4F_optimalBSID_loop a requestedBSID srcSize LZ4F_max64KB (64 * KB)"

definition prefNull :: LZ4F_preferences_t where
  "prefNull = \<lparr>frameInfo = \<lparr>blockSizeID = 0, blockMode = 0, contentChecksumFlag = 0, frameType = 0, contentSize = 0\<rparr>,
     p_compressionLevel = 0, autoFlush = 0\<rparr>"

text \<open>A null pointer to the preferences is \<open>None\<close>.\<close>

definition LZ4F_compressBound :: "arch \<Rightarrow> int \<Rightarrow> LZ4F_preferences_t option \<Rightarrow> int" where
  "LZ4F_compressBound a srcSize preferencesPtr =
     (let prefsNull = prefNull\<lparr>frameInfo := (frameInfo prefNull)\<lparr>contentChecksumFlag := LZ4F_contentChecksumEnabled\<rparr>\<rparr>;
          p = (case preferencesPtr of None \<Rightarrow> prefsNull | Some p \<Rightarrow> p);
          blockSize = LZ4F_getBlockSize a (blockSizeID (frameInfo p));
          nbBlocks = uns32 (uns32 (srcSize div blockSize) + 1);
          lastBlockSize = (if autoFlush p \<noteq> 0 then srcSize mod blockSize else blockSize);
          blockInfo = 4;
          frameEnd = 4 + contentChecksumFlag (frameInfo p) * 4
      in (blockInfo * nbBlocks + blockSize * uns32 (nbBlocks - 1) + lastBlockSize + frameEnd) mod size_mod a)"

definition LZ4F_compressFrameBound :: "arch \<Rightarrow> int \<Rightarrow> LZ4F_preferences_t option \<Rightarrow> int" where
  "LZ4F_compressFrameBound a srcSize preferencesPtr =
     (let p = (case preferencesPtr of None \<Rightarrow> prefNull | Some p \<Rightarrow> p);
          p = p\<lparr>frameInfo := (frameInfo p)\<lparr>blockSizeID := LZ4F_optimalBSID a (blockSizeID (frameInfo p)) srcSize\<rparr>\<rparr>;
          p = p\<lparr>autoFlush := 1\<rparr>
      in (maxFHSize + LZ4F_compressBound a srcSize (Some p)) mod size_mod a)"

section \<open>Starting a frame\<close>

text \<open>\<open>LZ4_createStream\<close> resets what \<open>calloc\<close> gives it without testing it. The contents of a stream are in \<open>lz4_ctx\<close>, so that the
  \<open>malloc\<close> of \<open>LZ4_createStreamHC\<close> is the same allocation.\<close>

definition LZ4F_createStream :: "lz4f_env \<Rightarrow> mem \<Rightarrow> (addr \<times> mem) option" where
  "LZ4F_createStream e m = (let (p, m) = env_calloc e m 16416 in if p = 0 then None else Some (p, m))"

definition LZ4F_createStreamHC :: "lz4f_env \<Rightarrow> mem \<Rightarrow> (addr \<times> mem) option" where
  "LZ4F_createStreamHC e m = Some (env_calloc e m 262192)"

definition LZ4F_begin_ctx :: "lz4f_env \<Rightarrow> mem \<Rightarrow> LZ4F_cctx_t \<Rightarrow> (mem \<times> LZ4F_cctx_t) option" where
  "LZ4F_begin_ctx e m cctx =
     (let tableID = (if p_compressionLevel (prefs cctx) < minHClevel then 1 else 2) in
      if lz4CtxLevel cctx < tableID
      then do { let m = FREEMEM e m (ctx_ptr (lz4Ctx cctx));
                (p, m) \<leftarrow> (if p_compressionLevel (prefs cctx) < minHClevel then LZ4F_createStream e m else LZ4F_createStreamHC e m);
                Some (m, cctx\<lparr>lz4Ctx := (lz4Ctx cctx)\<lparr>ctx_ptr := p\<rparr>, lz4CtxLevel := tableID\<rparr>) }
      else Some (m, cctx))"

text \<open>The buffer; \<open>autoflush\<close> is the field of the argument. The flag tells that an allocation failed.\<close>

definition LZ4F_begin_buffer :: "lz4f_env \<Rightarrow> mem \<Rightarrow> LZ4F_cctx_t \<Rightarrow> int \<Rightarrow> bool \<times> mem \<times> LZ4F_cctx_t" where
  "LZ4F_begin_buffer e m cctx autoflush =
     (let fi = frameInfo (prefs cctx);
          fi = (if blockSizeID fi = 0 then fi\<lparr>blockSizeID := LZ4F_BLOCKSIZEID_DEFAULT\<rparr> else fi);
          cctx = cctx\<lparr>prefs := (prefs cctx)\<lparr>frameInfo := fi\<rparr>\<rparr>;
          cctx = cctx\<lparr>c_maxBlockSize := LZ4F_getBlockSize (env_arch e) (blockSizeID fi)\<rparr>;
          linked = (if blockMode fi = LZ4F_blockLinked then 1 else 0);
          requiredBuffSize = (c_maxBlockSize cctx + linked * (128 * KB)) mod size_mod (env_arch e);
          requiredBuffSize = (if autoflush \<noteq> 0 then linked * (64 * KB) else requiredBuffSize)
      in
      if c_maxBufferSize cctx < requiredBuffSize
      then (let cctx = cctx\<lparr>c_maxBufferSize := requiredBuffSize\<rparr>;
                m = FREEMEM e m (tmpBuff cctx);
                (p, m) = env_calloc e m requiredBuffSize
            in (p = 0, m, cctx\<lparr>tmpBuff := p\<rparr>))
      else (False, m, cctx))"

definition LZ4F_begin_reset :: "LZ4F_cctx_t \<Rightarrow> LZ4F_cctx_t option" where
  "LZ4F_begin_reset cctx =
     (let cctx = cctx\<lparr>c_tmpIn := tmpBuff cctx, c_tmpInSize := 0, c_xxh := snd (XXH32_reset (c_xxh cctx) 0)\<rparr>;
          ctx = lz4Ctx cctx
      in
      if ctx_ptr ctx = 0 then None
      else if p_compressionLevel (prefs cctx) < minHClevel
      then Some (cctx\<lparr>lz4Ctx := ctx\<lparr>ctx_stream := LZ4_resetStream (ctx_stream ctx)\<rparr>\<rparr>)
      else Some (cctx\<lparr>lz4Ctx := ctx\<lparr>ctx_streamHC := LZ4_resetStreamHC (ctx_streamHC ctx) (p_compressionLevel (prefs cctx))\<rparr>\<rparr>))"

definition LZ4F_FLG :: "LZ4F_frameInfo_t \<Rightarrow> int" where
  "LZ4F_FLG fi =
     1 * 2 ^ 6 + (blockMode fi mod 2) * 2 ^ 5 + (contentChecksumFlag fi mod 2) * 2 ^ 2 + (if contentSize fi > 0 then 2 ^ 3 else 0)"

definition LZ4F_BD :: "LZ4F_frameInfo_t \<Rightarrow> int" where
  "LZ4F_BD fi = (blockSizeID fi mod 8) * 2 ^ 4"

text \<open>The header itself, and the address after it.\<close>

definition LZ4F_write_header :: "lz4f_env \<Rightarrow> mem \<Rightarrow> LZ4F_frameInfo_t \<Rightarrow> addr \<Rightarrow> (mem \<times> addr) option" where
  "LZ4F_write_header e m fi dstPtr =
     do { m \<leftarrow> LZ4F_writeLE32 m dstPtr LZ4F_MAGICNUMBER;
          let headerStart = dstPtr + 4;
          m \<leftarrow> store8 m headerStart (word_of_int (LZ4F_FLG fi));
          m \<leftarrow> store8 m (headerStart + 1) (word_of_int (LZ4F_BD fi));
          let dstPtr = headerStart + 2;
          (m, dstPtr) \<leftarrow>
            (if contentSize fi \<noteq> 0 then do { m \<leftarrow> LZ4F_writeLE64 m dstPtr (contentSize fi); Some (m, dstPtr + 8) }
             else Some (m, dstPtr));
          crc \<leftarrow> LZ4F_headerChecksum e m headerStart (dstPtr - headerStart);
          m \<leftarrow> store8 m dstPtr crc;
          Some (m, dstPtr + 1) }"

definition LZ4F_compressBegin ::
  "lz4f_env \<Rightarrow> mem \<Rightarrow> LZ4F_cctx_t \<Rightarrow> addr \<Rightarrow> int \<Rightarrow> LZ4F_preferences_t option \<Rightarrow> (int \<times> mem \<times> LZ4F_cctx_t) option" where
  "LZ4F_compressBegin e m cctx dstBuffer dstMaxSize preferencesPtr =
     (if dstMaxSize < maxFHSize then Some (LZ4F_error (env_arch e) ERROR_dstMaxSize_tooSmall, m, cctx)
      else if cStage cctx \<noteq> 0 then Some (LZ4F_error (env_arch e) ERROR_GENERIC, m, cctx)
      else
      (let p = (case preferencesPtr of None \<Rightarrow> prefNull | Some p \<Rightarrow> p) in
       do { (m, cctx) \<leftarrow> LZ4F_begin_ctx e m (cctx\<lparr>prefs := p\<rparr>);
            let (failed, m, cctx) = LZ4F_begin_buffer e m cctx (autoFlush p);
            if failed then Some (LZ4F_error (env_arch e) ERROR_allocation_failed, m, cctx)
            else
            do { cctx \<leftarrow> LZ4F_begin_reset cctx;
                 (m, dstPtr) \<leftarrow> LZ4F_write_header e m (frameInfo (prefs cctx)) dstBuffer;
                 let cctx = (if contentSize (frameInfo (prefs cctx)) \<noteq> 0 then cctx\<lparr>totalInSize := 0\<rparr> else cctx);
                 Some (dstPtr - dstBuffer, m, cctx\<lparr>cStage := 1\<rparr>) } }))"

section \<open>Compressing blocks\<close>

type_synonym compressFunc_t = "mem \<Rightarrow> lz4_ctx \<Rightarrow> addr \<Rightarrow> addr \<Rightarrow> int \<Rightarrow> int \<Rightarrow> int \<Rightarrow> (int \<times> mem \<times> lz4_ctx) option"

definition LZ4F_compressBlock ::
  "mem \<Rightarrow> addr \<Rightarrow> addr \<Rightarrow> int \<Rightarrow> compressFunc_t \<Rightarrow> lz4_ctx \<Rightarrow> int \<Rightarrow> (int \<times> mem \<times> lz4_ctx) option" where
  "LZ4F_compressBlock m dst src srcSize compress ctx level =
     do { (r, m, ctx) \<leftarrow> compress m ctx src (dst + 4) (int32 srcSize) (int32 (srcSize - 1)) level;
          let cSize = uns32 r;
          m \<leftarrow> LZ4F_writeLE32 m dst cSize;
          if cSize = 0
          then do { let cSize = uns32 srcSize;
                    m \<leftarrow> LZ4F_writeLE32 m dst (uns32 (cSize + LZ4F_BLOCKUNCOMPRESSED_FLAG));
                    m \<leftarrow> memcpy m (dst + 4) src (nat srcSize);
                    Some (uns32 (cSize + 4), m, ctx) }
          else Some (uns32 (cSize + 4), m, ctx) }"

definition LZ4F_localLZ4_compress_limitedOutput_withState :: "arch \<Rightarrow> compressFunc_t" where
  "LZ4F_localLZ4_compress_limitedOutput_withState a m ctx src dst srcSize dstSize level =
     do { (r, m, s) \<leftarrow> LZ4_compress_limitedOutput_withState a m (ctx_stream ctx) src dst srcSize dstSize;
          Some (r, m, ctx\<lparr>ctx_stream := s\<rparr>) }"

definition LZ4F_localLZ4_compress_limitedOutput_continue :: "arch \<Rightarrow> compressFunc_t" where
  "LZ4F_localLZ4_compress_limitedOutput_continue a m ctx src dst srcSize dstSize level =
     do { (r, m, s) \<leftarrow> LZ4_compress_limitedOutput_continue a m (ctx_stream ctx) src dst srcSize dstSize;
          Some (r, m, ctx\<lparr>ctx_stream := s\<rparr>) }"

definition LZ4F_localLZ4_compressHC_limitedOutput_continue :: "arch \<Rightarrow> compressFunc_t" where
  "LZ4F_localLZ4_compressHC_limitedOutput_continue a m ctx src dst srcSize dstSize level =
     do { (r, m, s) \<leftarrow> LZ4_compress_HC_continue a m (ctx_streamHC ctx) src dst srcSize dstSize;
          Some (r, m, ctx\<lparr>ctx_streamHC := s\<rparr>) }"

definition LZ4F_compress_HC_extStateHC :: "arch \<Rightarrow> compressFunc_t" where
  "LZ4F_compress_HC_extStateHC a m ctx src dst srcSize dstSize level =
     do { (r, m, s) \<leftarrow> LZ4_compress_HC_extStateHC a m (ctx_ptr ctx) (ctx_streamHC ctx) src dst srcSize dstSize level;
          Some (r, m, ctx\<lparr>ctx_streamHC := s\<rparr>) }"

definition LZ4F_selectCompression :: "arch \<Rightarrow> int \<Rightarrow> int \<Rightarrow> compressFunc_t" where
  "LZ4F_selectCompression a bmode level =
     (if level < minHClevel
      then (if bmode = LZ4F_blockIndependent then LZ4F_localLZ4_compress_limitedOutput_withState a
            else LZ4F_localLZ4_compress_limitedOutput_continue a)
      else if bmode = LZ4F_blockIndependent then LZ4F_compress_HC_extStateHC a
      else LZ4F_localLZ4_compressHC_limitedOutput_continue a)"

definition LZ4F_localSaveDict :: "mem \<Rightarrow> LZ4F_cctx_t \<Rightarrow> (int \<times> mem \<times> LZ4F_cctx_t) option" where
  "LZ4F_localSaveDict m cctx =
     (let ctx = lz4Ctx cctx in
      if p_compressionLevel (prefs cctx) < minHClevel
      then do { (r, m, s) \<leftarrow> LZ4_saveDict m (ctx_stream ctx) (tmpBuff cctx) (64 * KB);
                Some (r, m, cctx\<lparr>lz4Ctx := ctx\<lparr>ctx_stream := s\<rparr>\<rparr>) }
      else do { (r, m, s) \<leftarrow> LZ4_saveDictHC m (ctx_streamHC ctx) (tmpBuff cctx) (64 * KB);
                Some (r, m, cctx\<lparr>lz4Ctx := ctx\<lparr>ctx_streamHC := s\<rparr>\<rparr>) })"

section \<open>Update\<close>

datatype LZ4F_lastBlockStatus = notDone | fromTmpBuffer | fromSrcBuffer

record LZ4F_update_vars =
  u_m :: mem
  u_cctx :: LZ4F_cctx_t
  u_srcPtr :: addr
  u_dstPtr :: addr
  u_last :: LZ4F_lastBlockStatus

text \<open>Compressing the block of \<open>n\<close> bytes at \<open>src\<close> to \<open>dstPtr\<close>.\<close>

definition LZ4F_update_block :: "compressFunc_t \<Rightarrow> LZ4F_update_vars \<Rightarrow> addr \<Rightarrow> int \<Rightarrow> LZ4F_update_vars option" where
  "LZ4F_update_block compress u src n =
     do { (r, m, ctx) \<leftarrow> LZ4F_compressBlock (u_m u) (u_dstPtr u) src n compress (lz4Ctx (u_cctx u)) (p_compressionLevel (prefs (u_cctx u)));
          Some (u\<lparr>u_m := m, u_dstPtr := u_dstPtr u + r, u_cctx := (u_cctx u)\<lparr>lz4Ctx := ctx\<rparr>\<rparr>) }"

text \<open>Completing the buffered block.\<close>

definition LZ4F_update_tmp :: "compressFunc_t \<Rightarrow> LZ4F_update_vars \<Rightarrow> addr \<Rightarrow> int \<Rightarrow> LZ4F_update_vars option" where
  "LZ4F_update_tmp compress u srcBuffer srcSize =
     (let cctx = u_cctx u; blockSize = c_maxBlockSize cctx in
      if c_tmpInSize cctx > 0
      then (let sizeToCopy = blockSize - c_tmpInSize cctx in
            if sizeToCopy > srcSize
            then do { m \<leftarrow> memcpy (u_m u) (c_tmpIn cctx + c_tmpInSize cctx) srcBuffer (nat srcSize);
                      Some (u\<lparr>u_m := m, u_srcPtr := srcBuffer + srcSize, u_cctx := cctx\<lparr>c_tmpInSize := c_tmpInSize cctx + srcSize\<rparr>\<rparr>) }
            else do { m \<leftarrow> memcpy (u_m u) (c_tmpIn cctx + c_tmpInSize cctx) srcBuffer (nat sizeToCopy);
                      u \<leftarrow> LZ4F_update_block compress (u\<lparr>u_m := m, u_srcPtr := u_srcPtr u + sizeToCopy, u_last := fromTmpBuffer\<rparr>) (c_tmpIn cctx) blockSize;
                      let cctx = u_cctx u;
                      let cctx = (if blockMode (frameInfo (prefs cctx)) = LZ4F_blockLinked then cctx\<lparr>c_tmpIn := c_tmpIn cctx + blockSize\<rparr> else cctx);
                      Some (u\<lparr>u_cctx := cctx\<lparr>c_tmpInSize := 0\<rparr>\<rparr>) })
      else Some u)"

partial_function (option) LZ4F_update_blocks :: "compressFunc_t \<Rightarrow> LZ4F_update_vars \<Rightarrow> addr \<Rightarrow> int \<Rightarrow> LZ4F_update_vars option" where
  "LZ4F_update_blocks compress u srcEnd blockSize =
     (if srcEnd - u_srcPtr u \<ge> blockSize
      then do { u \<leftarrow> LZ4F_update_block compress (u\<lparr>u_last := fromSrcBuffer\<rparr>) (u_srcPtr u) blockSize;
                LZ4F_update_blocks compress (u\<lparr>u_srcPtr := u_srcPtr u + blockSize\<rparr>) srcEnd blockSize }
      else Some u)"

declare LZ4F_update_blocks.simps [code]

definition LZ4F_update_flush :: "compressFunc_t \<Rightarrow> LZ4F_update_vars \<Rightarrow> addr \<Rightarrow> LZ4F_update_vars option" where
  "LZ4F_update_flush compress u srcEnd =
     (if autoFlush (prefs (u_cctx u)) \<noteq> 0 \<and> u_srcPtr u < srcEnd
      then do { u \<leftarrow> LZ4F_update_block compress (u\<lparr>u_last := fromSrcBuffer\<rparr>) (u_srcPtr u) (srcEnd - u_srcPtr u);
                Some (u\<lparr>u_srcPtr := srcEnd\<rparr>) }
      else Some u)"

text \<open>Preserving the dictionary; the flag tells that nothing could be saved, which is an error.\<close>

definition LZ4F_update_dict :: "LZ4F_update_vars \<Rightarrow> int \<Rightarrow> (bool \<times> LZ4F_update_vars) option" where
  "LZ4F_update_dict u stableSrc =
     (let cctx = u_cctx u in
      if blockMode (frameInfo (prefs cctx)) = LZ4F_blockLinked \<and> u_last u = fromSrcBuffer
      then (if stableSrc \<noteq> 0 then Some (False, u\<lparr>u_cctx := cctx\<lparr>c_tmpIn := tmpBuff cctx\<rparr>\<rparr>)
            else do { (realDictSize, m, cctx) \<leftarrow> LZ4F_localSaveDict (u_m u) cctx;
                      if realDictSize = 0 then Some (True, u\<lparr>u_m := m, u_cctx := cctx\<rparr>)
                      else Some (False, u\<lparr>u_m := m, u_cctx := cctx\<lparr>c_tmpIn := tmpBuff cctx + realDictSize\<rparr>\<rparr>) })
      else Some (False, u))"

definition LZ4F_update_limits :: "LZ4F_update_vars \<Rightarrow> int \<Rightarrow> LZ4F_update_vars option" where
  "LZ4F_update_limits u blockSize =
     (let cctx = u_cctx u in
      if c_tmpIn cctx + blockSize > tmpBuff cctx + c_maxBufferSize cctx \<and> autoFlush (prefs cctx) = 0
      then do { (realDictSize, m, cctx) \<leftarrow> LZ4F_localSaveDict (u_m u) cctx;
                Some (u\<lparr>u_m := m, u_cctx := cctx\<lparr>c_tmpIn := tmpBuff cctx + realDictSize\<rparr>\<rparr>) }
      else Some u)"

definition LZ4F_update_rest :: "LZ4F_update_vars \<Rightarrow> addr \<Rightarrow> LZ4F_update_vars option" where
  "LZ4F_update_rest u srcEnd =
     (if u_srcPtr u < srcEnd
      then do { let sizeToCopy = srcEnd - u_srcPtr u;
                m \<leftarrow> memcpy (u_m u) (c_tmpIn (u_cctx u)) (u_srcPtr u) (nat sizeToCopy);
                Some (u\<lparr>u_m := m, u_cctx := (u_cctx u)\<lparr>c_tmpInSize := sizeToCopy\<rparr>\<rparr>) }
      else Some u)"

text \<open>\<open>stableSrc\<close> is the option of that name, 0 for a null pointer.\<close>

definition LZ4F_compressUpdate ::
  "lz4f_env \<Rightarrow> mem \<Rightarrow> LZ4F_cctx_t \<Rightarrow> addr \<Rightarrow> int \<Rightarrow> addr \<Rightarrow> int \<Rightarrow> int \<Rightarrow> (int \<times> mem \<times> LZ4F_cctx_t) option" where
  "LZ4F_compressUpdate e m cctx dstBuffer dstMaxSize srcBuffer srcSize stableSrc =
     (let a = env_arch e; blockSize = c_maxBlockSize cctx; srcEnd = srcBuffer + srcSize;
          compress = LZ4F_selectCompression a (blockMode (frameInfo (prefs cctx))) (p_compressionLevel (prefs cctx)) in
      if cStage cctx \<noteq> 1 then Some (LZ4F_error a ERROR_GENERIC, m, cctx)
      else if dstMaxSize < LZ4F_compressBound a srcSize (Some (prefs cctx))
      then Some (LZ4F_error a ERROR_dstMaxSize_tooSmall, m, cctx)
      else
      do { u \<leftarrow> LZ4F_update_tmp compress \<lparr>u_m = m, u_cctx = cctx, u_srcPtr = srcBuffer, u_dstPtr = dstBuffer, u_last = notDone\<rparr>
                 srcBuffer srcSize;
           u \<leftarrow> LZ4F_update_blocks compress u srcEnd blockSize;
           u \<leftarrow> LZ4F_update_flush compress u srcEnd;
           (failed, u) \<leftarrow> LZ4F_update_dict u stableSrc;
           if failed then Some (LZ4F_error a ERROR_GENERIC, u_m u, u_cctx u)
           else
           do { u \<leftarrow> LZ4F_update_limits u blockSize;
                u \<leftarrow> LZ4F_update_rest u srcEnd;
                let cctx = u_cctx u;
                cctx \<leftarrow> (if contentChecksumFlag (frameInfo (prefs cctx)) = LZ4F_contentChecksumEnabled
                          then do { (_, s) \<leftarrow> XXH32_update a (u_m u) (c_xxh cctx) srcBuffer srcSize; Some (cctx\<lparr>c_xxh := s\<rparr>) }
                          else Some cctx);
                Some (u_dstPtr u - dstBuffer, u_m u, cctx\<lparr>totalInSize := (totalInSize cctx + srcSize) mod 2 ^ 64\<rparr>) } })"

section \<open>Ending a frame\<close>

definition LZ4F_flush ::
  "lz4f_env \<Rightarrow> mem \<Rightarrow> LZ4F_cctx_t \<Rightarrow> addr \<Rightarrow> int \<Rightarrow> (int \<times> mem \<times> LZ4F_cctx_t) option" where
  "LZ4F_flush e m cctx dstBuffer dstMaxSize =
     (let a = env_arch e in
      if c_tmpInSize cctx = 0 then Some (0, m, cctx)
      else if cStage cctx \<noteq> 1 then Some (LZ4F_error a ERROR_GENERIC, m, cctx)
      else if dstMaxSize < c_tmpInSize cctx + 8 then Some (LZ4F_error a ERROR_dstMaxSize_tooSmall, m, cctx)
      else
      (let compress = LZ4F_selectCompression a (blockMode (frameInfo (prefs cctx))) (p_compressionLevel (prefs cctx)) in
       do { (r, m, ctx) \<leftarrow> LZ4F_compressBlock m dstBuffer (c_tmpIn cctx) (c_tmpInSize cctx) compress (lz4Ctx cctx) (p_compressionLevel (prefs cctx));
            let cctx = cctx\<lparr>lz4Ctx := ctx\<rparr>;
            let cctx = (if blockMode (frameInfo (prefs cctx)) = LZ4F_blockLinked then cctx\<lparr>c_tmpIn := c_tmpIn cctx + c_tmpInSize cctx\<rparr> else cctx);
            let cctx = cctx\<lparr>c_tmpInSize := 0\<rparr>;
            if c_tmpIn cctx + c_maxBlockSize cctx > tmpBuff cctx + c_maxBufferSize cctx
            then do { (realDictSize, m, cctx) \<leftarrow> LZ4F_localSaveDict m cctx;
                      Some (r, m, cctx\<lparr>c_tmpIn := tmpBuff cctx + realDictSize\<rparr>) }
            else Some (r, m, cctx) }))"

definition LZ4F_compressEnd ::
  "lz4f_env \<Rightarrow> mem \<Rightarrow> LZ4F_cctx_t \<Rightarrow> addr \<Rightarrow> int \<Rightarrow> (int \<times> mem \<times> LZ4F_cctx_t) option" where
  "LZ4F_compressEnd e m cctx dstBuffer dstMaxSize =
     (let a = env_arch e in
      do { (errorCode, m, cctx) \<leftarrow> LZ4F_flush e m cctx dstBuffer dstMaxSize;
           if LZ4F_isError a errorCode then Some (errorCode, m, cctx)
           else
           do { let dstPtr = dstBuffer + errorCode;
                m \<leftarrow> LZ4F_writeLE32 m dstPtr 0;
                let dstPtr = dstPtr + 4;
                (m, dstPtr) \<leftarrow>
                  (if contentChecksumFlag (frameInfo (prefs cctx)) = LZ4F_contentChecksumEnabled
                   then do { xxh \<leftarrow> XXH32_digest a (c_xxh cctx);
                             m \<leftarrow> LZ4F_writeLE32 m dstPtr (uint xxh);
                             Some (m, dstPtr + 4) }
                   else Some (m, dstPtr));
                let cctx = cctx\<lparr>cStage := 0\<rparr>;
                if contentSize (frameInfo (prefs cctx)) \<noteq> 0 \<and> contentSize (frameInfo (prefs cctx)) \<noteq> totalInSize cctx
                then Some (LZ4F_error a ERROR_frameSize_wrong, m, cctx)
                else Some (dstPtr - dstBuffer, m, cctx) } })"

section \<open>A whole frame\<close>

text \<open>\<open>cctxI\<close> and \<open>lz4ctx\<close> are local variables: the first is zeroed, the contents of the second, and its address \<open>ctxPtr\<close>,
  are arbitrary. \<open>zero_xxh\<close> is a zeroed hash state.\<close>

definition zero_xxh :: XXH_istate32_t where
  "zero_xxh = \<lparr>total_len32 = 0, seed32 = 0, v1_32 = 0, v2_32 = 0, v3_32 = 0, v4_32 = 0, mem32 = replicate 16 0, memsize32 = 0\<rparr>"

definition LZ4F_frame_cctx :: "addr \<Rightarrow> lz4_ctx \<Rightarrow> int \<Rightarrow> LZ4F_cctx_t" where
  "LZ4F_frame_cctx ctxPtr lz4ctx level =
     \<lparr>prefs = prefNull, c_version = LZ4F_VERSION, cStage = 0, c_maxBlockSize = 0, c_maxBufferSize = 5 * MB, tmpBuff = 0, c_tmpIn = 0,
      c_tmpInSize = 0, totalInSize = 0, c_xxh = zero_xxh, lz4Ctx = lz4ctx\<lparr>ctx_ptr := (if level < minHClevel then ctxPtr else 0)\<rparr>,
      lz4CtxLevel = (if level < minHClevel then 1 else 0)\<rparr>"

definition LZ4F_frame_prefs :: "arch \<Rightarrow> LZ4F_preferences_t option \<Rightarrow> int \<Rightarrow> LZ4F_preferences_t" where
  "LZ4F_frame_prefs a preferencesPtr srcSize =
     (let p = (case preferencesPtr of None \<Rightarrow> prefNull | Some p \<Rightarrow> p);
          fi = frameInfo p;
          fi = (if contentSize fi \<noteq> 0 then fi\<lparr>contentSize := srcSize\<rparr> else fi);
          fi = fi\<lparr>blockSizeID := LZ4F_optimalBSID a (blockSizeID fi) srcSize\<rparr>;
          fi = (if srcSize \<le> LZ4F_getBlockSize a (blockSizeID fi) then fi\<lparr>blockMode := LZ4F_blockIndependent\<rparr> else fi)
      in p\<lparr>frameInfo := fi, autoFlush := 1\<rparr>)"

definition LZ4F_compressFrame ::
  "lz4f_env \<Rightarrow> mem \<Rightarrow> addr \<Rightarrow> lz4_ctx \<Rightarrow> addr \<Rightarrow> int \<Rightarrow> addr \<Rightarrow> int \<Rightarrow> LZ4F_preferences_t option \<Rightarrow> (int \<times> mem) option" where
  "LZ4F_compressFrame e m ctxPtr lz4ctx dstBuffer dstMaxSize srcBuffer srcSize preferencesPtr =
     (let a = env_arch e; dstEnd = dstBuffer + dstMaxSize;
          p = LZ4F_frame_prefs a preferencesPtr srcSize;
          cctxI = LZ4F_frame_cctx ctxPtr lz4ctx (p_compressionLevel p)
      in
      if dstMaxSize < LZ4F_compressFrameBound a srcSize (Some p) then Some (LZ4F_error a ERROR_dstMaxSize_tooSmall, m)
      else
      do { (errorCode, m, cctxI) \<leftarrow> LZ4F_compressBegin e m cctxI dstBuffer dstMaxSize (Some p);
           if LZ4F_isError a errorCode then Some (errorCode, m)
           else
           do { let dstPtr = dstBuffer + errorCode;
                (errorCode, m, cctxI) \<leftarrow> LZ4F_compressUpdate e m cctxI dstPtr (dstEnd - dstPtr) srcBuffer srcSize 1;
                if LZ4F_isError a errorCode then Some (errorCode, m)
                else
                do { let dstPtr = dstPtr + errorCode;
                     (errorCode, m, cctxI) \<leftarrow> LZ4F_compressEnd e m cctxI dstPtr (dstEnd - dstPtr);
                     if LZ4F_isError a errorCode then Some (errorCode, m)
                     else
                     do { let dstPtr = dstPtr + errorCode;
                          let m = (if p_compressionLevel p \<ge> minHClevel then FREEMEM e m (ctx_ptr (lz4Ctx cctxI)) else m);
                          Some (dstPtr - dstBuffer, m) } } } })"

section \<open>Compression contexts\<close>

text \<open>Creating and releasing contexts; the sizes of the structures are arguments. The result is the code, the address and the
  structure that \<open>calloc\<close> has zeroed.\<close>

definition LZ4F_createCompressionContext ::
  "lz4f_env \<Rightarrow> mem \<Rightarrow> int \<Rightarrow> lz4_ctx \<Rightarrow> int \<Rightarrow> int \<times> addr \<times> mem \<times> LZ4F_cctx_t option" where
  "LZ4F_createCompressionContext e m cctxSize noCtx version =
     (let (p, m) = env_calloc e m cctxSize in
      if p = 0 then (LZ4F_error (env_arch e) ERROR_allocation_failed, p, m, None)
      else (LZ4F_error (env_arch e) OK_NoError, p, m,
            Some \<lparr>prefs = prefNull, c_version = version, cStage = 0, c_maxBlockSize = 0, c_maxBufferSize = 0, tmpBuff = 0, c_tmpIn = 0,
                  c_tmpInSize = 0, totalInSize = 0, c_xxh = zero_xxh, lz4Ctx = noCtx\<lparr>ctx_ptr := 0\<rparr>, lz4CtxLevel = 0\<rparr>))"

definition LZ4F_freeCompressionContext :: "lz4f_env \<Rightarrow> mem \<Rightarrow> addr \<Rightarrow> LZ4F_cctx_t \<Rightarrow> int \<times> mem" where
  "LZ4F_freeCompressionContext e m p cctx =
     (if p \<noteq> 0
      then (LZ4F_error (env_arch e) OK_NoError,
            FREEMEM e (FREEMEM e (FREEMEM e m (ctx_ptr (lz4Ctx cctx))) (tmpBuff cctx)) p)
      else (LZ4F_error (env_arch e) OK_NoError, m))"

end
