(* ===== verification/Lz4_Frame_Decompress.thy ===== *)
theory Lz4_Frame_Decompress
  imports Lz4_Frame
begin

text \<open>
  The frame format of \<open>lz4frame.c\<close>, decompression side: contexts, the frame header, the dictionary of linked blocks, and
  \<open>LZ4F_decompress\<close> as the state machine it is written as.
\<close>

section \<open>Types and contexts\<close>

datatype dStage_t =
  dstage_getHeader | dstage_storeHeader | dstage_getCBlockSize | dstage_storeCBlockSize | dstage_copyDirect | dstage_getCBlock
| dstage_storeCBlock | dstage_decodeCBlock | dstage_decodeCBlock_intoDst | dstage_decodeCBlock_intoTmp | dstage_flushOut
| dstage_getSuffix | dstage_storeSuffix | dstage_getSFrameSize | dstage_storeSFrameSize | dstage_skipSkippable

text \<open>The value of a stage in the enumeration.\<close>

fun dstage_value :: "dStage_t \<Rightarrow> int" where
  "dstage_value dstage_getHeader = 0"
| "dstage_value dstage_storeHeader = 1"
| "dstage_value dstage_getCBlockSize = 2"
| "dstage_value dstage_storeCBlockSize = 3"
| "dstage_value dstage_copyDirect = 4"
| "dstage_value dstage_getCBlock = 5"
| "dstage_value dstage_storeCBlock = 6"
| "dstage_value dstage_decodeCBlock = 7"
| "dstage_value dstage_decodeCBlock_intoDst = 8"
| "dstage_value dstage_decodeCBlock_intoTmp = 9"
| "dstage_value dstage_flushOut = 10"
| "dstage_value dstage_getSuffix = 11"
| "dstage_value dstage_storeSuffix = 12"
| "dstage_value dstage_getSFrameSize = 13"
| "dstage_value dstage_storeSFrameSize = 14"
| "dstage_value dstage_skipSkippable = 15"

text \<open>\<open>x_header\<close> is the address of the array \<open>header[16]\<close> inside the structure.\<close>

record LZ4F_dctx_t =
  x_frameInfo :: LZ4F_frameInfo_t
  x_version :: int
  dStage :: dStage_t
  frameRemainingSize :: int
  x_maxBlockSize :: int
  x_maxBufferSize :: int
  srcExpect :: addr
  x_tmpIn :: addr
  x_tmpInSize :: int
  tmpInTarget :: int
  tmpOutBuffer :: addr
  x_dict :: addr
  x_dictSize :: int
  tmpOut :: addr
  tmpOutSize :: int
  tmpOutStart :: int
  x_xxh :: XXH_istate32_t
  x_header :: addr

definition LZ4F_createDecompressionContext ::
  "lz4f_env \<Rightarrow> mem \<Rightarrow> int \<Rightarrow> int \<Rightarrow> int \<Rightarrow> int \<times> addr \<times> mem \<times> LZ4F_dctx_t option" where
  "LZ4F_createDecompressionContext e m dctxSize headerOffset versionNumber =
     (let (p, m) = env_calloc e m dctxSize in
      if p = 0 then (LZ4F_error (env_arch e) ERROR_GENERIC, p, m, None)
      else (LZ4F_error (env_arch e) OK_NoError, p, m,
            Some \<lparr>x_frameInfo = frameInfo prefNull, x_version = versionNumber, dStage = dstage_getHeader, frameRemainingSize = 0,
                  x_maxBlockSize = 0, x_maxBufferSize = 0, srcExpect = 0, x_tmpIn = 0, x_tmpInSize = 0, tmpInTarget = 0,
                  tmpOutBuffer = 0, x_dict = 0, x_dictSize = 0, tmpOut = 0, tmpOutSize = 0, tmpOutStart = 0, x_xxh = zero_xxh,
                  x_header = p + headerOffset\<rparr>))"

definition LZ4F_freeDecompressionContext :: "lz4f_env \<Rightarrow> mem \<Rightarrow> addr \<Rightarrow> LZ4F_dctx_t \<Rightarrow> int \<times> mem" where
  "LZ4F_freeDecompressionContext e m p dctx =
     (if p \<noteq> 0
      then (dstage_value (dStage dctx), FREEMEM e (FREEMEM e (FREEMEM e m (x_tmpIn dctx)) (tmpOutBuffer dctx)) p)
      else (LZ4F_error (env_arch e) OK_NoError, m))"

section \<open>The frame header\<close>

text \<open>The temporary buffers; the flag tells that an allocation failed.\<close>

definition LZ4F_header_alloc :: "lz4f_env \<Rightarrow> mem \<Rightarrow> LZ4F_dctx_t \<Rightarrow> bool \<times> mem \<times> LZ4F_dctx_t" where
  "LZ4F_header_alloc e m dctx =
     (let bufferNeeded = x_maxBlockSize dctx + (if blockMode (x_frameInfo dctx) = LZ4F_blockLinked then 128 * KB else 0) in
      if bufferNeeded > x_maxBufferSize dctx
      then (let m = FREEMEM e (FREEMEM e m (x_tmpIn dctx)) (tmpOutBuffer dctx);
                dctx = dctx\<lparr>x_maxBufferSize := bufferNeeded\<rparr>;
                (p, m) = env_calloc e m (x_maxBlockSize dctx);
                dctx = dctx\<lparr>x_tmpIn := p\<rparr>
            in
            if p = 0 then (True, m, dctx)
            else (let (p, m) = env_calloc e m (x_maxBufferSize dctx) in (p = 0, m, dctx\<lparr>tmpOutBuffer := p\<rparr>)))
      else (False, m, dctx))"

definition LZ4F_header_init :: "LZ4F_dctx_t \<Rightarrow> LZ4F_dctx_t" where
  "LZ4F_header_init dctx =
     dctx\<lparr>x_tmpInSize := 0, tmpInTarget := 0, x_dict := tmpOutBuffer dctx, x_dictSize := 0, tmpOut := tmpOutBuffer dctx,
          tmpOutStart := 0, tmpOutSize := 0, dStage := dstage_getCBlockSize\<rparr>"

text \<open>The tests of the two flag bytes, in the order of the code.\<close>

definition LZ4F_validate :: "int \<Rightarrow> int \<Rightarrow> LZ4F_errorCodes option" where
  "LZ4F_validate FLG BD =
     (if FLG div 2 ^ 6 mod 4 \<noteq> 1 then Some ERROR_headerVersion_wrong
      else if FLG div 2 ^ 4 mod 2 \<noteq> 0 then Some ERROR_blockChecksum_unsupported
      else if FLG mod 4 \<noteq> 0 then Some ERROR_reservedFlag_set
      else if BD div 2 ^ 7 mod 2 \<noteq> 0 then Some ERROR_reservedFlag_set
      else if BD div 2 ^ 4 mod 8 < 4 then Some ERROR_maxBlockSize_invalid
      else if BD mod 16 \<noteq> 0 then Some ERROR_reservedFlag_set
      else None)"

text \<open>From a complete header of \<open>frameHeaderSize\<close> bytes on: validation, checksum, fields, buffers.\<close>

definition LZ4F_header_fields ::
  "lz4f_env \<Rightarrow> mem \<Rightarrow> LZ4F_dctx_t \<Rightarrow> addr \<Rightarrow> int \<Rightarrow> int \<Rightarrow> (int \<times> mem \<times> LZ4F_dctx_t) option" where
  "LZ4F_header_fields e m dctx srcPtr FLG frameHeaderSize =
     (let a = env_arch e in
      do { BD \<leftarrow> m (srcPtr + 5);
           let BD = uint BD;
           let bsid = BD div 2 ^ 4 mod 8;
           case LZ4F_validate FLG BD of
             Some err \<Rightarrow> Some (LZ4F_error a err, m, dctx)
           | None \<Rightarrow>
           do { HC \<leftarrow> LZ4F_headerChecksum e m (srcPtr + 4) (frameHeaderSize - 5);
                c \<leftarrow> m (srcPtr + frameHeaderSize - 1);
                if HC \<noteq> c then Some (LZ4F_error a ERROR_headerChecksum_invalid, m, dctx)
                else
                do { let dctx = dctx\<lparr>x_frameInfo := (x_frameInfo dctx)\<lparr>blockMode := FLG div 2 ^ 5 mod 2,
                             contentChecksumFlag := FLG div 2 ^ 2 mod 2, blockSizeID := bsid\<rparr>,
                           x_maxBlockSize := LZ4F_getBlockSize a bsid\<rparr>;
                     dctx \<leftarrow> (if FLG div 2 ^ 3 mod 2 \<noteq> 0
                               then do { n \<leftarrow> LZ4F_readLE64 m (srcPtr + 6);
                                         Some (dctx\<lparr>frameRemainingSize := n, x_frameInfo := (x_frameInfo dctx)\<lparr>contentSize := n\<rparr>\<rparr>) }
                               else Some dctx);
                     let dctx = (if FLG div 2 ^ 2 mod 2 \<noteq> 0 then dctx\<lparr>x_xxh := snd (XXH32_reset (x_xxh dctx) 0)\<rparr> else dctx);
                     let (failed, m, dctx) = LZ4F_header_alloc e m dctx;
                     Some (if failed then (LZ4F_error a ERROR_GENERIC, m, dctx)
                           else (frameHeaderSize, m, LZ4F_header_init dctx)) } } })"

definition LZ4F_decodeHeader ::
  "lz4f_env \<Rightarrow> mem \<Rightarrow> LZ4F_dctx_t \<Rightarrow> addr \<Rightarrow> int \<Rightarrow> (int \<times> mem \<times> LZ4F_dctx_t) option" where
  "LZ4F_decodeHeader e m dctx srcPtr srcSize =
     (let a = env_arch e in
      if srcSize < minFHSize then Some (LZ4F_error a ERROR_frameHeader_incomplete, m, dctx)
      else
      do { let dctx = dctx\<lparr>x_frameInfo := frameInfo prefNull\<rparr>;
           magic \<leftarrow> LZ4F_readLE32 m srcPtr;
           if magic - magic mod 16 = LZ4F_MAGIC_SKIPPABLE_START
           then (let dctx = dctx\<lparr>x_frameInfo := (x_frameInfo dctx)\<lparr>frameType := LZ4F_skippableFrame\<rparr>\<rparr> in
                 if srcPtr = x_header dctx
                 then Some (srcSize, m, dctx\<lparr>x_tmpInSize := srcSize, tmpInTarget := 8, dStage := dstage_storeSFrameSize\<rparr>)
                 else Some (4, m, dctx\<lparr>dStage := dstage_getSFrameSize\<rparr>))
           else if magic \<noteq> LZ4F_MAGICNUMBER then Some (LZ4F_error a ERROR_frameType_unknown, m, dctx)
           else
           do { let dctx = dctx\<lparr>x_frameInfo := (x_frameInfo dctx)\<lparr>frameType := LZ4F_frame\<rparr>\<rparr>;
                FLG \<leftarrow> m (srcPtr + 4);
                let frameHeaderSize = (if uint FLG div 2 ^ 3 mod 2 \<noteq> 0 then maxFHSize else minFHSize);
                if srcSize < frameHeaderSize
                then do { m \<leftarrow> (if srcPtr \<noteq> x_header dctx then memcpy m (x_header dctx) srcPtr (nat srcSize) else Some m);
                          Some (srcSize, m, dctx\<lparr>x_tmpInSize := srcSize, tmpInTarget := frameHeaderSize, dStage := dstage_storeHeader\<rparr>) }
                else LZ4F_header_fields e m dctx srcPtr (uint FLG) frameHeaderSize } })"

section \<open>The dictionary of a frame\<close>

definition LZ4F_updateDict ::
  "mem \<Rightarrow> LZ4F_dctx_t \<Rightarrow> addr \<Rightarrow> int \<Rightarrow> addr \<Rightarrow> bool \<Rightarrow> (mem \<times> LZ4F_dctx_t) option" where
  "LZ4F_updateDict m dctx dstPtr dstSize dstPtr0 withinTmp =
     (let dctx = (if x_dictSize dctx = 0 then dctx\<lparr>x_dict := dstPtr\<rparr> else dctx) in
      if x_dict dctx + x_dictSize dctx = dstPtr then Some (m, dctx\<lparr>x_dictSize := x_dictSize dctx + dstSize\<rparr>)
      else if dstPtr - dstPtr0 + dstSize \<ge> 64 * KB
      then Some (m, dctx\<lparr>x_dict := dstPtr0, x_dictSize := dstPtr - dstPtr0 + dstSize\<rparr>)
      else if withinTmp \<and> x_dict dctx = tmpOutBuffer dctx then Some (m, dctx\<lparr>x_dictSize := x_dictSize dctx + dstSize\<rparr>)
      else if withinTmp
      then (let preserveSize = tmpOut dctx - tmpOutBuffer dctx;
                oldDictEnd = x_dict dctx + x_dictSize dctx - tmpOutStart dctx;
                copySize = (if tmpOutSize dctx > 64 * KB then 0 else 64 * KB - tmpOutSize dctx);
                copySize = (if copySize > preserveSize then preserveSize else copySize)
            in
            do { m \<leftarrow> memcpy m (tmpOutBuffer dctx + preserveSize - copySize) (oldDictEnd - copySize) (nat copySize);
                 Some (m, dctx\<lparr>x_dict := tmpOutBuffer dctx, x_dictSize := preserveSize + tmpOutStart dctx + dstSize\<rparr>) })
      else if x_dict dctx = tmpOutBuffer dctx
      then do { (m, dctx) \<leftarrow>
                  (if x_dictSize dctx + dstSize > x_maxBufferSize dctx
                   then (let preserveSize = 64 * KB - dstSize in
                         do { m \<leftarrow> memcpy m (tmpOutBuffer dctx) (x_dict dctx + x_dictSize dctx - preserveSize) (nat preserveSize);
                              Some (m, dctx\<lparr>x_dictSize := preserveSize\<rparr>) })
                   else Some (m, dctx));
                m \<leftarrow> memcpy m (tmpOutBuffer dctx + x_dictSize dctx) dstPtr (nat dstSize);
                Some (m, dctx\<lparr>x_dictSize := x_dictSize dctx + dstSize\<rparr>) }
      else
      (let preserveSize = 64 * KB - dstSize;
           preserveSize = (if preserveSize > x_dictSize dctx then x_dictSize dctx else preserveSize)
       in
       do { m \<leftarrow> memcpy m (tmpOutBuffer dctx) (x_dict dctx + x_dictSize dctx - preserveSize) (nat preserveSize);
            m \<leftarrow> memcpy m (tmpOutBuffer dctx + preserveSize) dstPtr (nat dstSize);
            Some (m, dctx\<lparr>x_dict := tmpOutBuffer dctx, x_dictSize := preserveSize + dstSize\<rparr>) }))"

section \<open>The state machine of the decoder\<close>

text \<open>The variables of \<open>LZ4F_decompress\<close>; \<open>w_again\<close> is \<open>doAnotherStage\<close>, \<open>w_hint\<close> is \<open>nextSrcSizeHint\<close>. A stage gives the
  code of an error return, if it returns, and the variables; \<open>None\<close> is an access outside the mapped memory.\<close>

record LZ4F_vars =
  w_m :: mem
  w_dctx :: LZ4F_dctx_t
  w_srcPtr :: addr
  w_dstPtr :: addr
  selectedIn :: addr
  w_again :: bool
  w_hint :: int

text \<open>The constants of the call.\<close>

record LZ4F_call =
  w_env :: lz4f_env
  w_srcEnd :: addr
  w_dstStart :: addr
  w_dstEnd :: addr

type_synonym stage_result = "(int option \<times> LZ4F_vars) option"

definition size_sub :: "arch \<Rightarrow> int \<Rightarrow> int \<Rightarrow> int" where
  "size_sub a x y = (x - y) mod size_mod a"

text \<open>What the stages that collect input share: copying to \<open>buf + tmpInSize\<close> until there are \<open>target\<close> bytes, or as many as the
  input has.\<close>

definition LZ4F_collect :: "LZ4F_call \<Rightarrow> LZ4F_vars \<Rightarrow> addr \<Rightarrow> int \<Rightarrow> LZ4F_vars option" where
  "LZ4F_collect k v buf target =
     (let d = w_dctx v;
          sizeToCopy = size_sub (env_arch (w_env k)) target (x_tmpInSize d);
          sizeToCopy = (if sizeToCopy > w_srcEnd k - w_srcPtr v then w_srcEnd k - w_srcPtr v else sizeToCopy)
      in
      do { m \<leftarrow> memcpy (w_m v) (buf + x_tmpInSize d) (w_srcPtr v) (nat sizeToCopy);
           Some (v\<lparr>w_m := m, w_srcPtr := w_srcPtr v + sizeToCopy, w_dctx := d\<lparr>x_tmpInSize := x_tmpInSize d + sizeToCopy\<rparr>\<rparr>) })"

text \<open>Leaving the loop with a hint.\<close>

definition LZ4F_stop :: "LZ4F_vars \<Rightarrow> int \<Rightarrow> stage_result" where
  "LZ4F_stop v hint = Some (None, v\<lparr>w_hint := hint, w_again := False\<rparr>)"

definition LZ4F_goto :: "LZ4F_vars \<Rightarrow> dStage_t \<Rightarrow> LZ4F_vars" where
  "LZ4F_goto v s = v\<lparr>w_dctx := (w_dctx v)\<lparr>dStage := s\<rparr>\<rparr>"

subsection \<open>Header\<close>

definition LZ4F_stage_storeHeader :: "LZ4F_call \<Rightarrow> LZ4F_vars \<Rightarrow> stage_result" where
  "LZ4F_stage_storeHeader k v =
     (let a = env_arch (w_env k) in
      do { v \<leftarrow> LZ4F_collect k v (x_header (w_dctx v)) (tmpInTarget (w_dctx v));
           let d = w_dctx v;
           if x_tmpInSize d < tmpInTarget d
           then LZ4F_stop v (tmpInTarget d - x_tmpInSize d + BHSize)
           else do { (errorCode, m, d) \<leftarrow> LZ4F_decodeHeader (w_env k) (w_m v) d (x_header d) (tmpInTarget d);
                     let v = v\<lparr>w_m := m, w_dctx := d\<rparr>;
                     if LZ4F_isError a errorCode then Some (Some errorCode, v) else Some (None, v) } })"

definition LZ4F_stage_getHeader :: "LZ4F_call \<Rightarrow> LZ4F_vars \<Rightarrow> stage_result" where
  "LZ4F_stage_getHeader k v =
     (let a = env_arch (w_env k) in
      if w_srcEnd k - w_srcPtr v \<ge> maxFHSize
      then do { (errorCode, m, d) \<leftarrow> LZ4F_decodeHeader (w_env k) (w_m v) (w_dctx v) (w_srcPtr v) (w_srcEnd k - w_srcPtr v);
                let v = v\<lparr>w_m := m, w_dctx := d\<rparr>;
                if LZ4F_isError a errorCode then Some (Some errorCode, v)
                else Some (None, v\<lparr>w_srcPtr := w_srcPtr v + errorCode\<rparr>) }
      else LZ4F_stage_storeHeader k
             (v\<lparr>w_dctx := (w_dctx v)\<lparr>x_tmpInSize := 0, tmpInTarget := minFHSize, dStage := dstage_storeHeader\<rparr>\<rparr>))"

subsection \<open>Block size\<close>

definition LZ4F_stage_decodeCBlockSize :: "LZ4F_call \<Rightarrow> LZ4F_vars \<Rightarrow> stage_result" where
  "LZ4F_stage_decodeCBlockSize k v =
     do { h \<leftarrow> LZ4F_readLE32 (w_m v) (selectedIn v);
          let nextCBlockSize = h mod 2 ^ 31;
          if nextCBlockSize = 0 then Some (None, LZ4F_goto v dstage_getSuffix)
          else if nextCBlockSize > x_maxBlockSize (w_dctx v)
          then Some (Some (LZ4F_error (env_arch (w_env k)) ERROR_GENERIC), v)
          else
          do { let v = v\<lparr>w_dctx := (w_dctx v)\<lparr>tmpInTarget := nextCBlockSize\<rparr>\<rparr>;
               if h \<ge> LZ4F_BLOCKUNCOMPRESSED_FLAG then Some (None, LZ4F_goto v dstage_copyDirect)
               else
               do { let v = LZ4F_goto v dstage_getCBlock;
                    if w_dstPtr v = w_dstEnd k then LZ4F_stop v (nextCBlockSize + BHSize)
                    else Some (None, v) } } }"

definition LZ4F_stage_storeCBlockSize :: "LZ4F_call \<Rightarrow> LZ4F_vars \<Rightarrow> stage_result" where
  "LZ4F_stage_storeCBlockSize k v =
     do { v \<leftarrow> LZ4F_collect k v (x_tmpIn (w_dctx v)) BHSize;
          if x_tmpInSize (w_dctx v) < BHSize then LZ4F_stop v (BHSize - x_tmpInSize (w_dctx v))
          else LZ4F_stage_decodeCBlockSize k (v\<lparr>selectedIn := x_tmpIn (w_dctx v)\<rparr>) }"

definition LZ4F_stage_getCBlockSize :: "LZ4F_call \<Rightarrow> LZ4F_vars \<Rightarrow> stage_result" where
  "LZ4F_stage_getCBlockSize k v =
     (if w_srcEnd k - w_srcPtr v \<ge> BHSize
      then LZ4F_stage_decodeCBlockSize k (v\<lparr>selectedIn := w_srcPtr v, w_srcPtr := w_srcPtr v + BHSize\<rparr>)
      else LZ4F_stage_storeCBlockSize k (v\<lparr>w_dctx := (w_dctx v)\<lparr>x_tmpInSize := 0, dStage := dstage_storeCBlockSize\<rparr>\<rparr>))"

subsection \<open>Blocks\<close>

text \<open>What follows the arrival of \<open>n\<close> bytes of content at \<open>p\<close>: the checksum, and the size that remains.\<close>

definition LZ4F_content :: "arch \<Rightarrow> mem \<Rightarrow> LZ4F_dctx_t \<Rightarrow> addr \<Rightarrow> int \<Rightarrow> LZ4F_dctx_t option" where
  "LZ4F_content a m d p n =
     do { d \<leftarrow> (if contentChecksumFlag (x_frameInfo d) \<noteq> 0
                then do { (_, s) \<leftarrow> XXH32_update a m (x_xxh d) p n; Some (d\<lparr>x_xxh := s\<rparr>) }
                else Some d);
          Some (if contentSize (x_frameInfo d) \<noteq> 0
                then d\<lparr>frameRemainingSize := (frameRemainingSize d - n) mod 2 ^ 64\<rparr> else d) }"

definition LZ4F_linkDict :: "mem \<Rightarrow> LZ4F_dctx_t \<Rightarrow> addr \<Rightarrow> int \<Rightarrow> addr \<Rightarrow> bool \<Rightarrow> (mem \<times> LZ4F_dctx_t) option" where
  "LZ4F_linkDict m d dstPtr dstSize dstStart withinTmp =
     (if blockMode (x_frameInfo d) = LZ4F_blockLinked then LZ4F_updateDict m d dstPtr dstSize dstStart withinTmp
      else Some (m, d))"

definition LZ4F_stage_copyDirect :: "LZ4F_call \<Rightarrow> LZ4F_vars \<Rightarrow> stage_result" where
  "LZ4F_stage_copyDirect k v =
     (let d = w_dctx v;
          sizeToCopy = tmpInTarget d;
          sizeToCopy = (if w_srcEnd k - w_srcPtr v < sizeToCopy then w_srcEnd k - w_srcPtr v else sizeToCopy);
          sizeToCopy = (if w_dstEnd k - w_dstPtr v < sizeToCopy then w_dstEnd k - w_dstPtr v else sizeToCopy)
      in
      do { m \<leftarrow> memcpy (w_m v) (w_dstPtr v) (w_srcPtr v) (nat sizeToCopy);
           d \<leftarrow> LZ4F_content (env_arch (w_env k)) m d (w_srcPtr v) sizeToCopy;
           (m, d) \<leftarrow> LZ4F_linkDict m d (w_dstPtr v) sizeToCopy (w_dstStart k) False;
           let v = v\<lparr>w_m := m, w_dctx := d, w_srcPtr := w_srcPtr v + sizeToCopy, w_dstPtr := w_dstPtr v + sizeToCopy\<rparr>;
           if sizeToCopy = tmpInTarget d then Some (None, LZ4F_goto v dstage_getCBlockSize)
           else do { let d = d\<lparr>tmpInTarget := tmpInTarget d - sizeToCopy\<rparr>;
                     LZ4F_stop (v\<lparr>w_dctx := d\<rparr>) (tmpInTarget d + BHSize) } })"

definition LZ4F_stage_getCBlock :: "LZ4F_call \<Rightarrow> LZ4F_vars \<Rightarrow> stage_result" where
  "LZ4F_stage_getCBlock k v =
     (let d = w_dctx v in
      if w_srcEnd k - w_srcPtr v < tmpInTarget d
      then Some (None, v\<lparr>w_dctx := d\<lparr>x_tmpInSize := 0, dStage := dstage_storeCBlock\<rparr>\<rparr>)
      else Some (None, LZ4F_goto (v\<lparr>selectedIn := w_srcPtr v, w_srcPtr := w_srcPtr v + tmpInTarget d\<rparr>) dstage_decodeCBlock))"

definition LZ4F_stage_storeCBlock :: "LZ4F_call \<Rightarrow> LZ4F_vars \<Rightarrow> stage_result" where
  "LZ4F_stage_storeCBlock k v =
     do { v \<leftarrow> LZ4F_collect k v (x_tmpIn (w_dctx v)) (tmpInTarget (w_dctx v));
          let d = w_dctx v;
          if x_tmpInSize d < tmpInTarget d then LZ4F_stop v (tmpInTarget d - x_tmpInSize d + BHSize)
          else Some (None, LZ4F_goto (v\<lparr>selectedIn := x_tmpIn d\<rparr>) dstage_decodeCBlock) }"

definition LZ4F_stage_decodeCBlock :: "LZ4F_call \<Rightarrow> LZ4F_vars \<Rightarrow> stage_result" where
  "LZ4F_stage_decodeCBlock k v =
     (if w_dstEnd k - w_dstPtr v < x_maxBlockSize (w_dctx v) then Some (None, LZ4F_goto v dstage_decodeCBlock_intoTmp)
      else Some (None, LZ4F_goto v dstage_decodeCBlock_intoDst))"

definition LZ4F_decompress_safe :: "arch \<Rightarrow> mem \<Rightarrow> addr \<Rightarrow> addr \<Rightarrow> int \<Rightarrow> int \<Rightarrow> addr \<Rightarrow> int \<Rightarrow> (int \<times> mem) option" where
  "LZ4F_decompress_safe a m source dest compressedSize maxDecompressedSize dictStart dSize =
     LZ4_decompress_safe a m source dest compressedSize maxDecompressedSize"

definition LZ4F_decoder :: "arch \<Rightarrow> mem \<Rightarrow> LZ4F_dctx_t \<Rightarrow> addr \<Rightarrow> addr \<Rightarrow> (int \<times> mem) option" where
  "LZ4F_decoder a m d source dest =
     (if blockMode (x_frameInfo d) = LZ4F_blockLinked then LZ4_decompress_safe_usingDict else LZ4F_decompress_safe)
       a m source dest (int32 (tmpInTarget d)) (int32 (x_maxBlockSize d)) (x_dict d) (int32 (x_dictSize d))"

definition LZ4F_stage_intoDst :: "LZ4F_call \<Rightarrow> LZ4F_vars \<Rightarrow> stage_result" where
  "LZ4F_stage_intoDst k v =
     (let a = env_arch (w_env k); d = w_dctx v in
      do { (decodedSize, m) \<leftarrow> LZ4F_decoder a (w_m v) d (selectedIn v) (w_dstPtr v);
           if decodedSize < 0 then Some (Some (LZ4F_error a ERROR_GENERIC), v\<lparr>w_m := m\<rparr>)
           else
           do { d \<leftarrow> LZ4F_content a m d (w_dstPtr v) decodedSize;
                (m, d) \<leftarrow> LZ4F_linkDict m d (w_dstPtr v) decodedSize (w_dstStart k) False;
                Some (None, LZ4F_goto (v\<lparr>w_m := m, w_dctx := d, w_dstPtr := w_dstPtr v + decodedSize\<rparr>) dstage_getCBlockSize) } })"

text \<open>Ensuring enough place for \<open>tmpOut\<close>.\<close>

definition LZ4F_placeTmpOut :: "mem \<Rightarrow> LZ4F_dctx_t \<Rightarrow> (mem \<times> LZ4F_dctx_t) option" where
  "LZ4F_placeTmpOut m d =
     (if blockMode (x_frameInfo d) = LZ4F_blockLinked
      then (if x_dict d = tmpOutBuffer d
            then do { (m, d) \<leftarrow>
                        (if x_dictSize d > 128 * KB
                         then do { m \<leftarrow> memcpy m (tmpOutBuffer d) (x_dict d + x_dictSize d - 64 * KB) (nat (64 * KB));
                                   Some (m, d\<lparr>x_dictSize := 64 * KB\<rparr>) }
                         else Some (m, d));
                      Some (m, d\<lparr>tmpOut := tmpOutBuffer d + x_dictSize d\<rparr>) }
            else (let reservedDictSpace = (if x_dictSize d > 64 * KB then 64 * KB else x_dictSize d) in
                  Some (m, d\<lparr>tmpOut := tmpOutBuffer d + reservedDictSpace\<rparr>)))
      else Some (m, d))"

definition LZ4F_stage_intoTmp :: "LZ4F_call \<Rightarrow> LZ4F_vars \<Rightarrow> stage_result" where
  "LZ4F_stage_intoTmp k v =
     (let a = env_arch (w_env k) in
      do { (m, d) \<leftarrow> LZ4F_placeTmpOut (w_m v) (w_dctx v);
           (decodedSize, m) \<leftarrow> LZ4F_decoder a m d (selectedIn v) (tmpOut d);
           if decodedSize < 0 then Some (Some (LZ4F_error a ERROR_decompressionFailed), v\<lparr>w_m := m, w_dctx := d\<rparr>)
           else
           do { d \<leftarrow> LZ4F_content a m d (tmpOut d) decodedSize;
                Some (None, LZ4F_goto (v\<lparr>w_m := m, w_dctx := d\<lparr>tmpOutSize := decodedSize, tmpOutStart := 0\<rparr>\<rparr>) dstage_flushOut) } })"

definition LZ4F_stage_flushOut :: "LZ4F_call \<Rightarrow> LZ4F_vars \<Rightarrow> stage_result" where
  "LZ4F_stage_flushOut k v =
     (let d = w_dctx v;
          sizeToCopy = size_sub (env_arch (w_env k)) (tmpOutSize d) (tmpOutStart d);
          sizeToCopy = (if sizeToCopy > w_dstEnd k - w_dstPtr v then w_dstEnd k - w_dstPtr v else sizeToCopy)
      in
      do { m \<leftarrow> memcpy (w_m v) (w_dstPtr v) (tmpOut d + tmpOutStart d) (nat sizeToCopy);
           (m, d) \<leftarrow> LZ4F_linkDict m d (w_dstPtr v) sizeToCopy (w_dstStart k) True;
           let d = d\<lparr>tmpOutStart := tmpOutStart d + sizeToCopy\<rparr>;
           let v = v\<lparr>w_m := m, w_dctx := d, w_dstPtr := w_dstPtr v + sizeToCopy\<rparr>;
           if tmpOutStart d = tmpOutSize d then Some (None, LZ4F_goto v dstage_getCBlockSize)
           else LZ4F_stop v BHSize })"

subsection \<open>Suffix\<close>

definition LZ4F_stage_checkSuffix :: "LZ4F_call \<Rightarrow> LZ4F_vars \<Rightarrow> stage_result" where
  "LZ4F_stage_checkSuffix k v =
     (let a = env_arch (w_env k) in
      do { readCRC \<leftarrow> LZ4F_readLE32 (w_m v) (selectedIn v);
           resultCRC \<leftarrow> XXH32_digest a (x_xxh (w_dctx v));
           if readCRC \<noteq> uint resultCRC then Some (Some (LZ4F_error a ERROR_contentChecksum_invalid), v)
           else LZ4F_stop (LZ4F_goto v dstage_getHeader) 0 })"

definition LZ4F_stage_storeSuffix :: "LZ4F_call \<Rightarrow> LZ4F_vars \<Rightarrow> stage_result" where
  "LZ4F_stage_storeSuffix k v =
     do { v \<leftarrow> LZ4F_collect k v (x_tmpIn (w_dctx v)) 4;
          if x_tmpInSize (w_dctx v) < 4 then LZ4F_stop v (4 - x_tmpInSize (w_dctx v))
          else LZ4F_stage_checkSuffix k (v\<lparr>selectedIn := x_tmpIn (w_dctx v)\<rparr>) }"

definition LZ4F_stage_getSuffix :: "LZ4F_call \<Rightarrow> LZ4F_vars \<Rightarrow> stage_result" where
  "LZ4F_stage_getSuffix k v =
     (let d = w_dctx v; suffixSize = contentChecksumFlag (x_frameInfo d) * 4 in
      if frameRemainingSize d \<noteq> 0 then Some (Some (LZ4F_error (env_arch (w_env k)) ERROR_frameSize_wrong), v)
      else if suffixSize = 0 then LZ4F_stop (LZ4F_goto v dstage_getHeader) 0
      else if w_srcEnd k - w_srcPtr v < 4
      then LZ4F_stage_storeSuffix k (v\<lparr>w_dctx := d\<lparr>x_tmpInSize := 0, dStage := dstage_storeSuffix\<rparr>\<rparr>)
      else LZ4F_stage_checkSuffix k (v\<lparr>selectedIn := w_srcPtr v, w_srcPtr := w_srcPtr v + 4\<rparr>))"

subsection \<open>Skippable frames\<close>

definition LZ4F_stage_decodeSFrameSize :: "LZ4F_call \<Rightarrow> LZ4F_vars \<Rightarrow> stage_result" where
  "LZ4F_stage_decodeSFrameSize k v =
     do { SFrameSize \<leftarrow> LZ4F_readLE32 (w_m v) (selectedIn v);
          let d = w_dctx v;
          Some (None, v\<lparr>w_dctx := d\<lparr>x_frameInfo := (x_frameInfo d)\<lparr>contentSize := SFrameSize\<rparr>, tmpInTarget := SFrameSize,
                        dStage := dstage_skipSkippable\<rparr>\<rparr>) }"

definition LZ4F_stage_storeSFrameSize :: "LZ4F_call \<Rightarrow> LZ4F_vars \<Rightarrow> stage_result" where
  "LZ4F_stage_storeSFrameSize k v =
     do { v \<leftarrow> LZ4F_collect k v (x_header (w_dctx v)) (tmpInTarget (w_dctx v));
          let d = w_dctx v;
          if x_tmpInSize d < tmpInTarget d then LZ4F_stop v (tmpInTarget d - x_tmpInSize d)
          else LZ4F_stage_decodeSFrameSize k (v\<lparr>selectedIn := x_header d + 4\<rparr>) }"

definition LZ4F_stage_getSFrameSize :: "LZ4F_call \<Rightarrow> LZ4F_vars \<Rightarrow> stage_result" where
  "LZ4F_stage_getSFrameSize k v =
     (if w_srcEnd k - w_srcPtr v \<ge> 4
      then LZ4F_stage_decodeSFrameSize k (v\<lparr>selectedIn := w_srcPtr v, w_srcPtr := w_srcPtr v + 4\<rparr>)
      else LZ4F_stage_storeSFrameSize k
             (v\<lparr>w_dctx := (w_dctx v)\<lparr>x_tmpInSize := 4, tmpInTarget := 8, dStage := dstage_storeSFrameSize\<rparr>\<rparr>))"

definition LZ4F_stage_skipSkippable :: "LZ4F_call \<Rightarrow> LZ4F_vars \<Rightarrow> stage_result" where
  "LZ4F_stage_skipSkippable k v =
     (let d = w_dctx v;
          skipSize = (if tmpInTarget d > w_srcEnd k - w_srcPtr v then w_srcEnd k - w_srcPtr v else tmpInTarget d);
          d = d\<lparr>tmpInTarget := tmpInTarget d - skipSize\<rparr>;
          v = v\<lparr>w_srcPtr := w_srcPtr v + skipSize, w_dctx := d\<rparr>
      in LZ4F_stop (if tmpInTarget d \<noteq> 0 then v else LZ4F_goto v dstage_getHeader) (tmpInTarget d))"

subsection \<open>The loop\<close>

definition LZ4F_stage :: "LZ4F_call \<Rightarrow> LZ4F_vars \<Rightarrow> stage_result" where
  "LZ4F_stage k v =
     (case dStage (w_dctx v) of
        dstage_getHeader \<Rightarrow> LZ4F_stage_getHeader k v
      | dstage_storeHeader \<Rightarrow> LZ4F_stage_storeHeader k v
      | dstage_getCBlockSize \<Rightarrow> LZ4F_stage_getCBlockSize k v
      | dstage_storeCBlockSize \<Rightarrow> LZ4F_stage_storeCBlockSize k v
      | dstage_copyDirect \<Rightarrow> LZ4F_stage_copyDirect k v
      | dstage_getCBlock \<Rightarrow> LZ4F_stage_getCBlock k v
      | dstage_storeCBlock \<Rightarrow> LZ4F_stage_storeCBlock k v
      | dstage_decodeCBlock \<Rightarrow> LZ4F_stage_decodeCBlock k v
      | dstage_decodeCBlock_intoDst \<Rightarrow> LZ4F_stage_intoDst k v
      | dstage_decodeCBlock_intoTmp \<Rightarrow> LZ4F_stage_intoTmp k v
      | dstage_flushOut \<Rightarrow> LZ4F_stage_flushOut k v
      | dstage_getSuffix \<Rightarrow> LZ4F_stage_getSuffix k v
      | dstage_storeSuffix \<Rightarrow> LZ4F_stage_storeSuffix k v
      | dstage_getSFrameSize \<Rightarrow> LZ4F_stage_getSFrameSize k v
      | dstage_storeSFrameSize \<Rightarrow> LZ4F_stage_storeSFrameSize k v
      | dstage_skipSkippable \<Rightarrow> LZ4F_stage_skipSkippable k v)"

partial_function (option) LZ4F_loop :: "LZ4F_call \<Rightarrow> LZ4F_vars \<Rightarrow> stage_result" where
  "LZ4F_loop k v =
     (if w_again v
      then do { (r, v) \<leftarrow> LZ4F_stage k v;
                case r of Some errorCode \<Rightarrow> Some (Some errorCode, v) | None \<Rightarrow> LZ4F_loop k v }
      else Some (None, v))"

declare LZ4F_loop.simps [code]

text \<open>Preserving the dictionary within \<open>tmpOutBuffer\<close>.\<close>

definition LZ4F_preserveDict :: "mem \<Rightarrow> LZ4F_dctx_t \<Rightarrow> int \<Rightarrow> (mem \<times> LZ4F_dctx_t) option" where
  "LZ4F_preserveDict m d stableDst =
     (if blockMode (x_frameInfo d) = LZ4F_blockLinked \<and> x_dict d \<noteq> tmpOutBuffer d \<and> stableDst = 0 \<and>
         uns32 (dstage_value (dStage d) - 1) < uns32 (dstage_value dstage_getSuffix - 1)
      then (if dStage d = dstage_flushOut
            then (let preserveSize = tmpOut d - tmpOutBuffer d;
                      oldDictEnd = x_dict d + x_dictSize d - tmpOutStart d;
                      copySize = (if tmpOutSize d > 64 * KB then 0 else 64 * KB - tmpOutSize d);
                      copySize = (if copySize > preserveSize then preserveSize else copySize)
                  in
                  do { m \<leftarrow> memcpy m (tmpOutBuffer d + preserveSize - copySize) (oldDictEnd - copySize) (nat copySize);
                       Some (m, d\<lparr>x_dict := tmpOutBuffer d, x_dictSize := preserveSize + tmpOutStart d\<rparr>) })
            else (let newDictSize = (if x_dictSize d > 64 * KB then 64 * KB else x_dictSize d);
                      oldDictEnd = x_dict d + x_dictSize d
                  in
                  do { m \<leftarrow> memcpy m (tmpOutBuffer d) (oldDictEnd - newDictSize) (nat newDictSize);
                       Some (m, d\<lparr>x_dict := tmpOutBuffer d, x_dictSize := newDictSize, tmpOut := tmpOutBuffer d + newDictSize\<rparr>) }))
      else Some (m, d))"

text \<open>The result is the returned value, \<open>*dstSizePtr\<close>, \<open>*srcSizePtr\<close>, the memory and the context; \<open>stableDst\<close> is the option of that
  name, 0 for a null pointer.\<close>

definition LZ4F_decompress ::
  "lz4f_env \<Rightarrow> mem \<Rightarrow> LZ4F_dctx_t \<Rightarrow> addr \<Rightarrow> int \<Rightarrow> addr \<Rightarrow> int \<Rightarrow> int \<Rightarrow> (int \<times> int \<times> int \<times> mem \<times> LZ4F_dctx_t) option" where
  "LZ4F_decompress e m dctx dstBuffer dstSize srcBuffer srcSize stableDst =
     (let k = \<lparr>w_env = e, w_srcEnd = srcBuffer + srcSize, w_dstStart = dstBuffer, w_dstEnd = dstBuffer + dstSize\<rparr> in
      if srcExpect dctx \<noteq> 0 \<and> srcBuffer \<noteq> srcExpect dctx
      then Some (LZ4F_error (env_arch e) ERROR_srcPtr_wrong, 0, 0, m, dctx)
      else
      do { (r, v) \<leftarrow> LZ4F_loop k \<lparr>w_m = m, w_dctx = dctx, w_srcPtr = srcBuffer, w_dstPtr = dstBuffer, selectedIn = 0,
                                  w_again = True, w_hint = 1\<rparr>;
           case r of
             Some errorCode \<Rightarrow> Some (errorCode, 0, 0, w_m v, w_dctx v)
           | None \<Rightarrow>
           do { (m, d) \<leftarrow> LZ4F_preserveDict (w_m v) (w_dctx v) stableDst;
                let d = d\<lparr>srcExpect := (if w_srcPtr v < w_srcEnd k then w_srcPtr v else 0)\<rparr>;
                Some (w_hint v, w_dstPtr v - dstBuffer, w_srcPtr v - srcBuffer, m, d) } })"

text \<open>The frame information, \<open>None\<close> when \<open>*frameInfoPtr\<close> is not written; then the value, \<open>*srcSizePtr\<close>, the memory and the
  context.\<close>

definition LZ4F_getFrameInfo ::
  "lz4f_env \<Rightarrow> mem \<Rightarrow> LZ4F_dctx_t \<Rightarrow> addr \<Rightarrow> int \<Rightarrow> (int \<times> LZ4F_frameInfo_t option \<times> int \<times> mem \<times> LZ4F_dctx_t) option" where
  "LZ4F_getFrameInfo e m dctx srcBuffer srcSize =
     (if dstage_value (dStage dctx) > dstage_value dstage_storeHeader
      then do { (r, _, _, m, d) \<leftarrow> LZ4F_decompress e m dctx 0 0 0 0 0;
                Some (r, Some (x_frameInfo dctx), 0, m, d) }
      else do { (nextSrcSize, _, n, m, d) \<leftarrow> LZ4F_decompress e m dctx 0 0 srcBuffer srcSize 0;
                if dstage_value (dStage d) \<le> dstage_value dstage_storeHeader
                then Some (LZ4F_error (env_arch e) ERROR_frameHeader_incomplete, None, n, m, d)
                else Some (nextSrcSize, Some (x_frameInfo d), n, m, d) })"

end
