(* ===== verification/Lz4_Frame_Format.thy ===== *)
theory Lz4_Frame_Format
  imports Lz4_Frame_Decompress
begin

text \<open>
  The header of a frame as bytes: little-endian fields, descriptor and checksum. \<open>LZ4F_write_header\<close> writes these bytes and
  \<open>LZ4F_decodeHeader\<close> reads them.
\<close>

section \<open>Little-endian fields\<close>

fun le_bytes :: "nat \<Rightarrow> int \<Rightarrow> byte list" where
  "le_bytes 0 v = []"
| "le_bytes (Suc n) v = word_of_int v # le_bytes n (v div 256)"

lemma length_le_bytes [simp]: "length (le_bytes n v) = n"
  by (induction n arbitrary: v) auto

lemma uint_byte_of_int: "uint (word_of_int v :: byte) = v mod 256"
  by (simp add: uint_word_of_int)

lemma le_val_le_bytes: "le_val (le_bytes n v) = v mod 256 ^ n"
proof (induction n arbitrary: v)
  case (Suc n)
  have "v mod (256 * 256 ^ n) = 256 * (v div 256 mod 256 ^ n) + v mod 256"
    by (rule zmod_zmult2_eq) simp
  with Suc show ?case by (simp add: uint_byte_of_int)
qed simp

lemma le_val_id: "0 \<le> v \<Longrightarrow> v < 256 ^ n \<Longrightarrow> le_val (le_bytes n v) = v"
  by (simp add: le_val_le_bytes)

lemma LZ4F_writeLE32_eq: "LZ4F_writeLE32 m p v = store_bytes m p (le_bytes 4 v)"
  by (simp add: LZ4F_writeLE32_def numeral_eq_Suc add.assoc zdiv_zmult2_eq [symmetric])

lemma LZ4F_writeLE64_eq: "LZ4F_writeLE64 m p v = store_bytes m p (le_bytes 8 v)"
  by (simp add: LZ4F_writeLE64_def numeral_eq_Suc add.assoc zdiv_zmult2_eq [symmetric])

lemma LZ4F_readLE32_eq: "bytes_at m p bs \<Longrightarrow> length bs = 4 \<Longrightarrow> LZ4F_readLE32 m p = Some (le_val bs)"
  by (auto simp: LZ4F_readLE32_def numeral_eq_Suc length_Suc_conv bytes_at_Cons add.assoc)

lemma LZ4F_readLE64_eq: "bytes_at m p bs \<Longrightarrow> length bs = 8 \<Longrightarrow> LZ4F_readLE64 m p = Some (le_val bs)"
  by (auto simp: LZ4F_readLE64_def numeral_eq_Suc length_Suc_conv bytes_at_Cons add.assoc)

lemma LZ4F_readLE32_ok: "mapped m p (p + 4) \<Longrightarrow> ok (\<lambda>v. 0 \<le> v \<and> v < 4294967296) (LZ4F_readLE32 m p)"
proof -
  assume "mapped m p (p + 4)"
  then have "mapped m p (p + int 4)" by simp
  then obtain bs where "length bs = 4" "bytes_at m p bs" using okD [OF load_bytes_ok] by blast
  with le_val_bound [of bs] show ?thesis by (simp add: LZ4F_readLE32_eq)
qed

text \<open>Writing a list of bytes piece by piece.\<close>

lemma store_bytes_append: "store_bytes m p (xs @ ys) = do { m \<leftarrow> store_bytes m p xs; store_bytes m (p + int (length xs)) ys }"
  by (induction xs arbitrary: m p) (simp_all add: add.assoc add.commute bind_assoc)

lemma store_bytes_single: "store_bytes m p [b] = store8 m p b"
  by simp

section \<open>The frame header\<close>

definition header_desc :: "LZ4F_frameInfo_t \<Rightarrow> byte list" where
  "header_desc fi = [word_of_int (LZ4F_FLG fi), word_of_int (LZ4F_BD fi)] @ (if contentSize fi \<noteq> 0 then le_bytes 8 (contentSize fi) else [])"

definition header_crc :: "byte list \<Rightarrow> byte" where
  "header_crc bs = word_of_int (uint (xxh32 0 bs) div 2 ^ 8)"

definition header_bytes :: "LZ4F_frameInfo_t \<Rightarrow> byte list" where
  "header_bytes fi = le_bytes 4 LZ4F_MAGICNUMBER @ header_desc fi @ [header_crc (header_desc fi)]"

lemma length_header_bytes: "length (header_bytes fi) = (if contentSize fi \<noteq> 0 then 15 else 7)"
  by (simp add: header_bytes_def header_desc_def)

lemma LZ4F_headerChecksum_eq:
  "bytes_at m p bs \<Longrightarrow> n = int (length bs) \<Longrightarrow> LZ4F_headerChecksum e m p n = Some (header_crc bs)"
  by (simp add: LZ4F_headerChecksum_def XXH32_eq header_crc_def)

lemma LZ4F_write_header_ok:
  assumes "mapped m p (p + int (length (header_bytes fi)))"
  shows "ok (\<lambda>(m', q). q = p + int (length (header_bytes fi)) \<and> frame m m' p q \<and> bytes_at m' p (header_bytes fi)) (LZ4F_write_header e m fi p)"
proof -
  let ?mg = "le_bytes 4 LZ4F_MAGICNUMBER" and ?d = "header_desc fi" and ?c = "[header_crc (header_desc fi)]"
  let ?n = "int (length ?d)"
  have len: "int (length (header_bytes fi)) = 4 + ?n + 1" by (simp add: header_bytes_def)
  have m1: "mapped m p (p + int (length (?mg @ ?d)))" by (rule mapped_mono [OF assms]) (simp_all add: len)
  from okD [OF store_bytes_ok [OF m1]] obtain m2 where m2: "store_bytes m p (?mg @ ?d) = Some m2"
    "frame m m2 p (p + int (length (?mg @ ?d)))" "bytes_at m2 p (?mg @ ?d)" by blast
  have bd: "bytes_at m2 (p + 4) ?d" using m2(3) by (simp add: bytes_at_append)
  have q: "p + 4 + ?n - (p + 4) = ?n" by simp
  have mp: "m2 (p + 4 + ?n) \<noteq> None"
    using assms frame_mapped [OF m2(2), of p "p + int (length (header_bytes fi))"] by (auto simp: mapped_def len)
  have f: "frame m2 (m2(p + 4 + ?n \<mapsto> header_crc ?d)) (p + 4 + ?n) (p + 4 + ?n + 1)" using mp by (auto simp: frame_def)
  have eq: "LZ4F_write_header e m fi p = Some (m2(p + 4 + ?n \<mapsto> header_crc ?d), p + 4 + ?n + 1)"
  proof (cases "contentSize fi = 0")
    case True
    then have "?n = 2" by (simp add: header_desc_def)
    with m2(1) LZ4F_headerChecksum_eq [OF bd refl, of e] store8_ok [of m2 "p + 4 + ?n", OF mp] True show ?thesis
      unfolding LZ4F_write_header_def LZ4F_writeLE32_eq LZ4F_writeLE64_eq
      by (auto simp: store_bytes_append header_desc_def add.assoc bind_eq_Some_conv)
  next
    case False
    then have "?n = 10" by (simp add: header_desc_def)
    with m2(1) LZ4F_headerChecksum_eq [OF bd refl, of e] store8_ok [of m2 "p + 4 + ?n", OF mp] False show ?thesis
      unfolding LZ4F_write_header_def LZ4F_writeLE32_eq LZ4F_writeLE64_eq
      by (auto simp: store_bytes_append header_desc_def add.assoc bind_eq_Some_conv)
  qed
  have "frame m (m2(p + 4 + ?n \<mapsto> header_crc ?d)) p (p + 4 + ?n + 1)"
    by (rule frame_trans [OF frame_mono [OF m2(2)] frame_mono [OF f]]) simp_all
  moreover have "bytes_at (m2(p + 4 + ?n \<mapsto> header_crc ?d)) p (header_bytes fi)"
    using frame_bytes_at [OF f, of p "?mg @ ?d"] m2(3) by (simp add: header_bytes_def bytes_at_append bytes_at_Cons add.assoc)
  ultimately show ?thesis by (simp add: eq len add.assoc)
qed

section \<open>Decoding a header\<close>

text \<open>The frame descriptions that a header can carry.\<close>

definition info_ok :: "LZ4F_frameInfo_t \<Rightarrow> bool" where
  "info_ok fi \<longleftrightarrow> blockSizeID fi \<in> {4..7} \<and> blockMode fi \<in> {0, 1} \<and> contentChecksumFlag fi \<in> {0, 1} \<and> frameType fi = LZ4F_frame \<and>
     0 \<le> contentSize fi \<and> contentSize fi < 2 ^ 64"

lemma FLG_cases:
  assumes "info_ok fi"
  shows "LZ4F_FLG fi = 64 + blockMode fi * 32 + (if contentSize fi \<noteq> 0 then 8 else 0) + contentChecksumFlag fi * 4"
  using assms by (auto simp: info_ok_def LZ4F_FLG_def)

lemma uint_FLG:
  assumes "info_ok fi"
  shows "uint (word_of_int (LZ4F_FLG fi) :: byte) = LZ4F_FLG fi"
  using assms by (auto simp: uint_byte_of_int FLG_cases info_ok_def)

lemma FLG_bits:
  assumes "info_ok fi"
  shows "LZ4F_FLG fi div 2 ^ 5 mod 2 = blockMode fi" "LZ4F_FLG fi div 2 ^ 3 mod 2 = (if contentSize fi \<noteq> 0 then 1 else 0)"
    "LZ4F_FLG fi div 2 ^ 2 mod 2 = contentChecksumFlag fi"
  using assms by (auto simp: FLG_cases info_ok_def)

lemma BD_bits:
  assumes "info_ok fi"
  shows "uint (word_of_int (LZ4F_BD fi) :: byte) = LZ4F_BD fi" "LZ4F_BD fi div 2 ^ 4 mod 8 = blockSizeID fi"
  unfolding uint_byte_of_int using assms by (auto simp: LZ4F_BD_def info_ok_def)

lemma validate_header: "info_ok fi \<Longrightarrow> LZ4F_validate (LZ4F_FLG fi) (LZ4F_BD fi) = None"
  unfolding LZ4F_validate_def FLG_cases by (auto simp: LZ4F_BD_def info_ok_def)

text \<open>The context after the header has been read, before the buffers are allocated.\<close>

definition header_dctx :: "arch \<Rightarrow> LZ4F_dctx_t \<Rightarrow> LZ4F_frameInfo_t \<Rightarrow> LZ4F_dctx_t" where
  "header_dctx a d fi =
     d\<lparr>x_frameInfo := fi, x_maxBlockSize := LZ4F_getBlockSize a (blockSizeID fi),
       frameRemainingSize := (if contentSize fi \<noteq> 0 then contentSize fi else frameRemainingSize d),
       x_xxh := (if contentChecksumFlag fi \<noteq> 0 then snd (XXH32_reset (x_xxh d) 0) else x_xxh d)\<rparr>"

lemma header_parts:
  assumes "bytes_at m p (header_bytes fi)"
  shows "LZ4F_readLE32 m p = Some LZ4F_MAGICNUMBER" "m (p + 4) = Some (word_of_int (LZ4F_FLG fi))"
    "m (p + 5) = Some (word_of_int (LZ4F_BD fi))" "bytes_at m (p + 4) (header_desc fi)"
    "m (p + int (length (header_bytes fi)) - 1) = Some (header_crc (header_desc fi))"
    "contentSize fi \<noteq> 0 \<Longrightarrow> bytes_at m (p + 6) (le_bytes 8 (contentSize fi))"
proof -
  have b: "bytes_at m p (le_bytes 4 LZ4F_MAGICNUMBER)" "bytes_at m (p + 4) (header_desc fi @ [header_crc (header_desc fi)])"
    using assms by (simp_all add: header_bytes_def bytes_at_append)
  show "LZ4F_readLE32 m p = Some LZ4F_MAGICNUMBER"
    using LZ4F_readLE32_eq [OF b(1)] by (simp add: le_val_id)
  show d: "bytes_at m (p + 4) (header_desc fi)" using b(2) by (simp add: bytes_at_append)
  then show "m (p + 4) = Some (word_of_int (LZ4F_FLG fi))" "m (p + 5) = Some (word_of_int (LZ4F_BD fi))"
    by (simp_all add: header_desc_def bytes_at_Cons bytes_at_append add.assoc)
  show "m (p + int (length (header_bytes fi)) - 1) = Some (header_crc (header_desc fi))"
    using b(2) by (simp add: bytes_at_append bytes_at_Cons header_bytes_def algebra_simps)
  assume "contentSize fi \<noteq> 0"
  then show "bytes_at m (p + 6) (le_bytes 8 (contentSize fi))"
    using d by (simp add: header_desc_def bytes_at_Cons bytes_at_append add.assoc)
qed

lemma LZ4F_decodeHeader_eq:
  assumes fi: "info_ok fi" and h: "bytes_at m p (header_bytes fi)" and n: "int (length (header_bytes fi)) \<le> n"
  shows "LZ4F_decodeHeader e m d p n =
     (case LZ4F_header_alloc e m (header_dctx (env_arch e) d fi) of (failed, m', d') \<Rightarrow>
        Some (if failed then (LZ4F_error (env_arch e) ERROR_GENERIC, m', d')
              else (int (length (header_bytes fi)), m', LZ4F_header_init d')))"
proof -
  note P = header_parts [OF h]
  let ?N = "int (length (header_bytes fi))"
  have len: "(if contentSize fi \<noteq> 0 then maxFHSize else minFHSize) = ?N" by (simp add: length_header_bytes)
  have n7: "\<not> n < minFHSize" "\<not> n < ?N" using n by (auto simp: length_header_bytes split: if_splits)
  have skip: "LZ4F_MAGICNUMBER - LZ4F_MAGICNUMBER mod 16 \<noteq> LZ4F_MAGIC_SKIPPABLE_START" by simp
  have crc: "LZ4F_headerChecksum e m (p + 4) (?N - 5) = Some (header_crc (header_desc fi))"
    by (rule LZ4F_headerChecksum_eq [OF P(4)]) (simp add: header_bytes_def)
  have ft: "frameType fi = 0" "frameInfo prefNull = \<lparr>blockSizeID = 0, blockMode = 0, contentChecksumFlag = 0, frameType = 0, contentSize = 0\<rparr>"
    using fi by (simp_all add: info_ok_def prefNull_def)
  have cs: "LZ4F_readLE64 m (p + 6) = Some (contentSize fi)" if "contentSize fi \<noteq> 0"
    using LZ4F_readLE64_eq [OF P(6) [OF that]] fi by (simp add: le_val_id info_ok_def)
  have fi_eq: "b = blockSizeID fi \<Longrightarrow> d = blockMode fi \<Longrightarrow> c = contentChecksumFlag fi \<Longrightarrow> n = contentSize fi \<Longrightarrow>
      \<lparr>blockSizeID = b, blockMode = d, contentChecksumFlag = c, frameType = 0, contentSize = n\<rparr> = fi" for b d c n
    using ft by simp
  have P': "m (p + ?N - 1) = Some (header_crc (header_desc fi))" by (rule P(5))
  show ?thesis
  proof (cases "contentSize fi = 0")
    case True
    then have N: "?N = 7" by (simp add: length_header_bytes)
    show ?thesis
      unfolding LZ4F_decodeHeader_def LZ4F_header_fields_def Let_def P(1)
      using n7 P(2,3) P' crc True unfolding N
      by (simp add: FLG_bits [OF fi, simplified] BD_bits [OF fi, simplified] uint_FLG [OF fi] validate_header [OF fi] header_dctx_def ft fi_eq)
  next
    case False
    then have N: "?N = 15" by (simp add: length_header_bytes)
    show ?thesis
      unfolding LZ4F_decodeHeader_def LZ4F_header_fields_def Let_def P(1)
      using n7 P(2,3) P' crc False cs [OF False] unfolding N
      by (cases d) (simp add: FLG_bits [OF fi, simplified] BD_bits [OF fi, simplified] uint_FLG [OF fi] validate_header [OF fi] header_dctx_def ft fi_eq)
  qed
qed

end
