(* ===== verification/Lz4_Frame_Header.thy ===== *)
theory Lz4_Frame_Header
  imports Lz4_Frame_Format
begin

text \<open>
  The header decoder of \<open>lz4frame.c\<close> on any input: the contract of the allocator, the buffers of a context, the contexts that are
  ready for blocks, and the round trip of headers.
\<close>

section \<open>Memory of the caller and of the context\<close>

text \<open>\<open>K\<close> is the memory of the caller: the buffers it passes and the context structure. The buffers that the context allocates are
  outside it. Addresses below the last two gigabytes of the address space are low: pointer arithmetic on them with any \<open>int\<close> does not
  wrap.\<close>

definition low :: "arch \<Rightarrow> addr \<Rightarrow> bool" where
  "low a x \<longleftrightarrow> x + 2147483648 \<le> size_mod a"

text \<open>What the C standard says of \<open>calloc\<close>: it returns null and changes nothing, or a block of memory that was no one's, zeroed, with
  its end an address of the program; all other memory is left alone.\<close>

definition calloc_contract :: "lz4f_env \<Rightarrow> bool" where
  "calloc_contract e \<longleftrightarrow> (\<forall>m n p m'. 0 \<le> n \<longrightarrow> env_calloc e m n = (p, m') \<longrightarrow>
     p = 0 \<and> m' = m \<or>
     0 < p \<and> p + n < size_mod (env_arch e) \<and>
       (\<forall>x. if p \<le> x \<and> x < p + n then m x = None \<and> m' x = Some 0 else m' x = m x))"

text \<open>What the frame decoder needs beyond that of the place where a block is put, which the C standard does not promise. The end of a block
  is low: on 64-bit targets the addresses of a process are, on 32-bit targets this is a restriction to the lower half. And no object
  starts where a block ends: the allocators in use keep their own data between blocks. Without it \<open>LZ4F_updateDict\<close> could take an output
  buffer that starts there for the continuation of \<open>tmpOutBuffer\<close>, since it compares addresses only.\<close>

definition calloc_placement :: "lz4f_env \<Rightarrow> bool" where
  "calloc_placement e \<longleftrightarrow> (\<forall>m n p m'. 0 \<le> n \<longrightarrow> env_calloc e m n = (p, m') \<longrightarrow> p \<noteq> 0 \<longrightarrow>
     low (env_arch e) (p + n) \<and> m (p + n) = None)"

definition calloc_ok :: "lz4f_env \<Rightarrow> bool" where
  "calloc_ok e \<longleftrightarrow> calloc_contract e \<and> calloc_placement e"

text \<open>Releasing a block that is not the caller's leaves the caller's memory alone.\<close>

definition free_ok :: "lz4f_env \<Rightarrow> addr set \<Rightarrow> bool" where
  "free_ok e K \<longleftrightarrow> (\<forall>m p x. x \<in> K \<longrightarrow> p \<notin> K \<longrightarrow> env_free e m p x = m x)"

definition region :: "arch \<Rightarrow> addr set \<Rightarrow> mem \<Rightarrow> addr \<Rightarrow> int \<Rightarrow> bool" where
  "region a K m p n \<longleftrightarrow> 0 < p \<and> low a (p + n) \<and> mapped m p (p + n) \<and> {p..p + n} \<inter> K = {}"

text \<open>What an operation leaves of the caller's memory: everything stays mapped, and nothing changes outside \<open>W\<close>.\<close>

definition kept :: "addr set \<Rightarrow> addr set \<Rightarrow> mem \<Rightarrow> mem \<Rightarrow> bool" where
  "kept K W m m' \<longleftrightarrow> (\<forall>x \<in> K. m x \<noteq> None \<longrightarrow> m' x \<noteq> None) \<and> (\<forall>x \<in> K - W. m' x = m x)"

lemma kept_refl [simp]: "kept K W m m"
  by (simp add: kept_def)

lemma kept_trans: "kept K W m m' \<Longrightarrow> kept K W m' m'' \<Longrightarrow> kept K W m m''"
  by (simp add: kept_def)

lemma kept_mono: "kept K W m m' \<Longrightarrow> W \<subseteq> W' \<Longrightarrow> kept K W' m m'"
  by (auto simp: kept_def)

lemma kept_dom: "kept K W m m' \<Longrightarrow> K \<subseteq> dom m \<Longrightarrow> K \<subseteq> dom m'"
  by (auto simp: kept_def)

lemma kept_frame: "frame m m' lo hi \<Longrightarrow> {lo..<hi} \<inter> K \<subseteq> W \<Longrightarrow> kept K W m m'"
proof -
  assume f: "frame m m' lo hi" and w: "{lo..<hi} \<inter> K \<subseteq> W"
  have "m' x = m x" if "x \<in> K - W" for x
  proof (rule frame_eq [OF f])
    from that have "x \<notin> {lo..<hi}" using w by blast
    then show "x < lo \<or> hi \<le> x" by auto
  qed
  moreover have "m x \<noteq> None \<longrightarrow> m' x \<noteq> None" for x using frame_dom [OF f] by blast
  ultimately show ?thesis by (simp add: kept_def)
qed

lemma memcpy_kept:
  assumes "mapped m s (s + n)" "mapped m d (d + n)" "0 \<le> n" "{d..<d + n} \<inter> K \<subseteq> W"
  shows "ok (\<lambda>m'. frame m m' d (d + n) \<and> dom m' = dom m \<and> kept K W m m') (memcpy m d s (nat n))"
proof (rule ok_mono)
  show "ok (\<lambda>m'. frame m m' d (d + int (nat n)) \<and> (\<forall>x. d \<le> x \<and> x < d + int (nat n) \<longrightarrow> m' x = m (x - d + s))) (memcpy m d s (nat n))"
    by (rule memcpy_ok) (use assms in simp_all)
  fix m' assume "frame m m' d (d + int (nat n)) \<and> (\<forall>x. d \<le> x \<and> x < d + int (nat n) \<longrightarrow> m' x = m (x - d + s))"
  then have f: "frame m m' d (d + n)" using assms(3) by simp
  from frame_dom [OF f] kept_frame [OF f assms(4)] f show "frame m m' d (d + n) \<and> dom m' = dom m \<and> kept K W m m'" by blast
qed

lemma region_cong: "dom m' = dom m \<Longrightarrow> region a K m' p n = region a K m p n"
  unfolding region_def by (simp only: mapped_dom)

lemma region_out: "region a K m p n \<Longrightarrow> p \<le> x \<Longrightarrow> x \<le> p + n \<Longrightarrow> x \<notin> K"
  unfolding region_def by fastforce

lemma region_kept: "region a K m p n \<Longrightarrow> lo \<ge> p \<Longrightarrow> hi \<le> p + n \<Longrightarrow> {lo..<hi} \<inter> K \<subseteq> W"
  using region_out by fastforce

lemma region_mono: "region a K m p n \<Longrightarrow> k \<le> n \<Longrightarrow> region a K m p k"
proof -
  assume r: "region a K m p n" and k: "k \<le> n"
  then have "{p..p + k} \<subseteq> {p..p + n}" by auto
  with r have "{p..p + k} \<inter> K = {}" unfolding region_def by blast
  moreover have "mapped m p (p + k)" using r k unfolding region_def by (auto elim: mapped_mono)
  ultimately show ?thesis using r k by (simp add: region_def low_def)
qed

definition block_sizes :: "int set" where
  "block_sizes = {65536, 262144, 1048576, 4194304}"

lemma getBlockSize_ok: "bid \<in> {4..7} \<Longrightarrow> LZ4F_getBlockSize a bid \<in> block_sizes"
proof -
  assume "bid \<in> {4..7}"
  then consider "bid = 4" | "bid = 5" | "bid = 6" | "bid = 7" by fastforce
  then show ?thesis by cases (simp_all add: LZ4F_getBlockSize_def Let_def block_sizes_def)
qed

text \<open>The buffers of a context: \<open>tmpIn\<close> has the size \<open>t\<close> of a block of the frame for which it was allocated.\<close>

definition bufs_ok :: "arch \<Rightarrow> addr set \<Rightarrow> mem \<Rightarrow> LZ4F_dctx_t \<Rightarrow> bool" where
  "bufs_ok a K m d \<longleftrightarrow> (\<exists>t \<in> block_sizes. x_maxBufferSize d \<in> {t, t + 131072} \<and> region a K m (x_tmpIn d) t \<and>
     region a K m (tmpOutBuffer d) (x_maxBufferSize d) \<and>
     (x_tmpIn d + t \<le> tmpOutBuffer d \<or> tmpOutBuffer d + x_maxBufferSize d \<le> x_tmpIn d))"

definition alloc_ok :: "arch \<Rightarrow> addr set \<Rightarrow> mem \<Rightarrow> LZ4F_dctx_t \<Rightarrow> bool" where
  "alloc_ok a K m d \<longleftrightarrow> x_maxBufferSize d = 0 \<and> x_tmpIn d = 0 \<and> tmpOutBuffer d = 0 \<or> bufs_ok a K m d"

lemma bufs_cong: "dom m' = dom m \<Longrightarrow> bufs_ok a K m' d = bufs_ok a K m d"
  unfolding bufs_ok_def by (simp only: region_cong [of m' m])

text \<open>Only the buffers have to stay mapped.\<close>

lemma region_dom: "region a K m p n \<Longrightarrow> dom m \<subseteq> dom m' \<Longrightarrow> region a K m' p n"
  by (auto simp: region_def mapped_def subset_iff domIff)

lemma bufs_dom: "bufs_ok a K m d \<Longrightarrow> dom m \<subseteq> dom m' \<Longrightarrow> bufs_ok a K m' d"
  unfolding bufs_ok_def using region_dom [of a K m _ _ m'] by blast

lemma alloc_cong: "dom m' = dom m \<Longrightarrow> alloc_ok a K m' d = alloc_ok a K m d"
  unfolding alloc_ok_def by (simp only: bufs_cong [of m' m])

text \<open>A later frame may have larger blocks without a new allocation only when they still fit \<open>tmpIn\<close>.\<close>

lemma bufs_in:
  assumes "bufs_ok a K m d" "s \<in> block_sizes" "s \<le> x_maxBufferSize d"
  shows "region a K m (x_tmpIn d) s" "region a K m (tmpOutBuffer d) (x_maxBufferSize d)" "65536 \<le> s" "s \<le> 4194304"
    "x_tmpIn d + s \<le> tmpOutBuffer d \<or> tmpOutBuffer d + x_maxBufferSize d \<le> x_tmpIn d" "x_maxBufferSize d \<le> 4325376"
proof -
  from assms(1) obtain t where t: "t \<in> block_sizes" "x_maxBufferSize d \<in> {t, t + 131072}" "region a K m (x_tmpIn d) t"
    "region a K m (tmpOutBuffer d) (x_maxBufferSize d)"
    "x_tmpIn d + t \<le> tmpOutBuffer d \<or> tmpOutBuffer d + x_maxBufferSize d \<le> x_tmpIn d" by (auto simp: bufs_ok_def)
  have st: "s \<le> t" using t(1,2) assms(2,3) by (auto simp: block_sizes_def)
  show "region a K m (x_tmpIn d) s" by (rule region_mono [OF t(3) st])
  show "region a K m (tmpOutBuffer d) (x_maxBufferSize d)" by (rule t(4))
  show "65536 \<le> s" "s \<le> 4194304" using assms(2) by (auto simp: block_sizes_def)
  show "x_tmpIn d + s \<le> tmpOutBuffer d \<or> tmpOutBuffer d + x_maxBufferSize d \<le> x_tmpIn d" using t(5) st by linarith
  show "x_maxBufferSize d \<le> 4325376" using t(1,2) by (auto simp: block_sizes_def)
qed

lemma FREEMEM_keeps: "free_ok e K \<Longrightarrow> p \<notin> K \<or> p = 0 \<Longrightarrow> x \<in> K \<Longrightarrow> FREEMEM e m p x = m x"
  by (auto simp: FREEMEM_def free_ok_def)

lemma calloc_cases:
  assumes "calloc_ok e" "0 \<le> n" "env_calloc e m n = (p, m')"
  shows "p = 0 \<and> m' = m \<or>
     0 < p \<and> low (env_arch e) (p + n) \<and> mapped m' p (p + n) \<and> (\<forall>x. p \<le> x \<and> x \<le> p + n \<longrightarrow> m x = None) \<and>
       (\<forall>x. x < p \<or> p + n \<le> x \<longrightarrow> m' x = m x)"
proof -
  consider "p = 0" "m' = m" | "0 < p" "low (env_arch e) (p + n)" "m (p + n) = None"
      "\<forall>x. if p \<le> x \<and> x < p + n then m x = None \<and> m' x = Some 0 else m' x = m x"
    using assms(1) assms(2,3) unfolding calloc_ok_def calloc_contract_def calloc_placement_def by (metis less_irrefl)
  then show ?thesis
  proof cases
    case 2
    then have "m' x \<noteq> None" "m x = None" if "p \<le> x" "x < p + n" for x using 2(4) [rule_format, of x] that by auto
    moreover have "m' x = m x" if "x < p \<or> p + n \<le> x" for x using 2(4) [rule_format, of x] that by auto
    ultimately show ?thesis using 2(1-3) by (auto simp: mapped_def order_le_less)
  qed simp
qed

lemma calloc_region:
  assumes "calloc_ok e" "0 \<le> n" "env_calloc e m n = (p, m')" "p \<noteq> 0" "K \<subseteq> dom m"
  shows "region (env_arch e) K m' p n" "\<And>x. x \<in> K \<Longrightarrow> m' x = m x"
    "\<And>q k. region (env_arch e) K m q k \<Longrightarrow> region (env_arch e) K m' q k"
    "\<And>q k. mapped m q k \<Longrightarrow> q < k \<Longrightarrow> 0 < n \<Longrightarrow> p + n \<le> q \<or> k \<le> p"
proof -
  have c: "0 < p" "low (env_arch e) (p + n)" "mapped m' p (p + n)" "\<And>x. p \<le> x \<Longrightarrow> x \<le> p + n \<Longrightarrow> m x = None"
    "\<And>x. x < p \<or> p + n \<le> x \<Longrightarrow> m' x = m x"
    using calloc_cases [OF assms(1-3)] assms(4) by auto
  have out: "x < p \<or> p + n \<le> x" if "m x \<noteq> None" for x using c(4) [of x] that by fastforce
  show "m' x = m x" if "x \<in> K" for x by (rule c(5), rule out) (use that assms(5) in auto)
  have "{p..p + n} \<inter> K = {}" using c(4) assms(5) by fastforce
  then show "region (env_arch e) K m' p n" using c(1-3) by (simp add: region_def)
  show "region (env_arch e) K m' q k" if "region (env_arch e) K m q k" for q k
    using that out c(5) unfolding region_def mapped_def by metis
  show "p + n \<le> q \<or> k \<le> p" if mq: "mapped m q k" and h: "q < k" "0 < n" for q k
  proof (rule ccontr)
    assume "\<not> (p + n \<le> q \<or> k \<le> p)"
    then have "max p q < p + n" "p \<le> max p q" "q \<le> max p q" "max p q < k" using h by auto
    with mappedD [OF mq, of "max p q"] c(4) [of "max p q"] show False by auto
  qed
qed

lemma header_alloc_ok:
  assumes c: "calloc_ok e" and f: "free_ok e K" and A: "alloc_ok (env_arch e) K m d" and K: "K \<subseteq> dom m"
    and s: "x_maxBlockSize d \<in> block_sizes"
  shows "\<exists>failed m' d'. LZ4F_header_alloc e m d = (failed, m', d') \<and> (\<forall>x \<in> K. m' x = m x) \<and> x_header d' = x_header d \<and>
    (\<not> failed \<longrightarrow> bufs_ok (env_arch e) K m' d' \<and> (\<exists>p q n. d' = d\<lparr>x_maxBufferSize := n, x_tmpIn := p, tmpOutBuffer := q\<rparr>) \<and>
       x_maxBlockSize d + (if blockMode (x_frameInfo d) = 0 then 131072 else 0) \<le> x_maxBufferSize d')"
proof -
  let ?a = "env_arch e" and ?n = "x_maxBlockSize d + (if blockMode (x_frameInfo d) = LZ4F_blockLinked then 128 * KB else 0)"
  show ?thesis
  proof (cases "?n > x_maxBufferSize d")
    case False
    then have "bufs_ok ?a K m d" using A s by (auto simp: alloc_ok_def block_sizes_def split: if_splits)
    moreover have "LZ4F_header_alloc e m d = (False, m, d)" using False by (auto simp: LZ4F_header_alloc_def Let_def)
    moreover have "\<exists>p q n. d = d\<lparr>x_maxBufferSize := n, x_tmpIn := p, tmpOutBuffer := q\<rparr>"
      by (rule exI [of _ "x_tmpIn d"], rule exI [of _ "tmpOutBuffer d"], rule exI [of _ "x_maxBufferSize d"]) simp
    ultimately show ?thesis using False by (intro exI [of _ False] exI [of _ m] exI [of _ d]) (simp split: if_splits)
  next
    case True
    define n where "n = x_maxBlockSize d + (if blockMode (x_frameInfo d) = 0 then 131072 else 0)"
    define m1 where "m1 = FREEMEM e (FREEMEM e m (x_tmpIn d)) (tmpOutBuffer d)"
    obtain p1 m2 where p1: "env_calloc e m1 (x_maxBlockSize d) = (p1, m2)" by fastforce
    obtain p2 m3 where p2: "env_calloc e m2 n = (p2, m3)" by fastforce
    have n: "0 < x_maxBlockSize d" "0 < n" "n \<in> {x_maxBlockSize d, x_maxBlockSize d + 131072}" using s by (auto simp: n_def block_sizes_def)
    have out: "x_tmpIn d \<notin> K \<or> x_tmpIn d = 0" "tmpOutBuffer d \<notin> K \<or> tmpOutBuffer d = 0"
    proof -
      have "p \<notin> K" if "region ?a K m p k" "0 < k" for p k using that by (fastforce simp: region_def disjoint_iff)
      then show "x_tmpIn d \<notin> K \<or> x_tmpIn d = 0" "tmpOutBuffer d \<notin> K \<or> tmpOutBuffer d = 0"
        using A unfolding alloc_ok_def bufs_ok_def by (fastforce simp: block_sizes_def)+
    qed
    have k1: "m1 x = m x" if "x \<in> K" for x unfolding m1_def using FREEMEM_keeps [OF f out(1) that] FREEMEM_keeps [OF f out(2) that] by simp
    then have d1: "K \<subseteq> dom m1" using K by (auto simp: dom_def)
    have eq: "LZ4F_header_alloc e m d =
      (if p1 = 0 then (True, m2, d\<lparr>x_maxBufferSize := n, x_tmpIn := p1\<rparr>)
       else (p2 = 0, m3, d\<lparr>x_maxBufferSize := n, x_tmpIn := p1, tmpOutBuffer := p2\<rparr>))"
      using True p1 p2 by (auto simp: LZ4F_header_alloc_def Let_def m1_def n_def)
    consider "p1 = 0" | "p1 \<noteq> 0" "p2 = 0" | "p1 \<noteq> 0" "p2 \<noteq> 0" by blast
    then show ?thesis
    proof cases
      case 1
      then have "m2 = m1" using calloc_cases [OF c _ p1] n by auto
      with 1 k1 eq show ?thesis by auto
    next
      case 2
      then have "m3 = m2" using calloc_cases [OF c _ p2] n by auto
      with 2 k1 show ?thesis
        using calloc_region(2) [OF c _ p1 _ d1] n eq by auto
    next
      case 3
      note R = calloc_region [OF c less_imp_le [OF n(1)] p1 3(1) d1]
      have d2: "K \<subseteq> dom m2" using R(2) d1 by (auto simp: dom_def)
      note S = calloc_region [OF c less_imp_le [OF n(2)] p2 3(2) d2]
      have "mapped m2 p1 (p1 + x_maxBlockSize d)" using R(1) by (simp add: region_def)
      from S(4) [OF this _ n(2)] n have ap: "p1 + x_maxBlockSize d \<le> p2 \<or> p2 + n \<le> p1" by auto
      have b: "bufs_ok ?a K m3 (d\<lparr>x_maxBufferSize := n, x_tmpIn := p1, tmpOutBuffer := p2\<rparr>)"
        unfolding bufs_ok_def using s n(3) S(3) [OF R(1)] S(1) ap by auto
      show ?thesis
        using eq 3 b k1 R(2) S(2) by (auto simp: n_def)
    qed
  qed
qed

section \<open>Error codes\<close>

lemma LZ4F_isError_error: "c \<noteq> OK_NoError \<Longrightarrow> c \<noteq> ERROR_maxCode \<Longrightarrow> LZ4F_isError a (LZ4F_error a c)"
proof -
  have b: "0 < LZ4F_code c \<and> LZ4F_code c < 19" if "c \<noteq> OK_NoError" "c \<noteq> ERROR_maxCode" using that by (cases c) auto
  have m: "(- i) mod size_mod a = size_mod a - i" if "0 < i" "i < 4294967296" for i
    using that size_mod_ge [of a] by (simp add: zmod_zminus1_eq_if)
  assume "c \<noteq> OK_NoError" "c \<noteq> ERROR_maxCode"
  with b have "0 < LZ4F_code c" "LZ4F_code c < 19" by auto
  then show ?thesis by (simp add: LZ4F_isError_def LZ4F_error_def m)
qed

section \<open>A context within a frame\<close>

text \<open>The state of a context whose header has been read.\<close>

definition frame_ready :: "arch \<Rightarrow> addr set \<Rightarrow> mem \<Rightarrow> LZ4F_dctx_t \<Rightarrow> bool" where
  "frame_ready a K m d \<longleftrightarrow>
     bufs_ok a K m d \<and> x_maxBlockSize d \<in> block_sizes \<and>
     x_maxBlockSize d + (if blockMode (x_frameInfo d) = LZ4F_blockLinked then 131072 else 0) \<le> x_maxBufferSize d \<and>
     (contentChecksumFlag (x_frameInfo d) \<noteq> 0 \<longrightarrow> (\<exists>xs. xxh32_repr 0 (x_xxh d) xs)) \<and>
     (blockMode (x_frameInfo d) \<noteq> LZ4F_blockLinked \<longrightarrow> tmpOut d = tmpOutBuffer d)"

lemma ready_cong: "dom m' = dom m \<Longrightarrow> frame_ready a K m' d = frame_ready a K m d"
  unfolding frame_ready_def by (simp only: bufs_cong [of m' m])

lemma ready_bufs:
  assumes "frame_ready a K m d"
  shows "region a K m (x_tmpIn d) (x_maxBlockSize d)" "region a K m (tmpOutBuffer d) (x_maxBufferSize d)" "65536 \<le> x_maxBlockSize d"
    "x_maxBlockSize d \<le> 4194304" "x_maxBlockSize d \<le> x_maxBufferSize d" "x_maxBufferSize d \<le> 4325376"
    "blockMode (x_frameInfo d) = LZ4F_blockLinked \<Longrightarrow> x_maxBlockSize d + 131072 \<le> x_maxBufferSize d"
    "x_tmpIn d + x_maxBlockSize d \<le> tmpOutBuffer d \<or> tmpOutBuffer d + x_maxBufferSize d \<le> x_tmpIn d"
proof -
  have r: "bufs_ok a K m d" "x_maxBlockSize d \<in> block_sizes" and s: "x_maxBlockSize d \<le> x_maxBufferSize d"
    using assms by (auto simp: frame_ready_def split: if_splits)
  note B = bufs_in [OF r s]
  show "region a K m (x_tmpIn d) (x_maxBlockSize d)" "region a K m (tmpOutBuffer d) (x_maxBufferSize d)" "65536 \<le> x_maxBlockSize d"
    "x_maxBlockSize d \<le> 4194304" "x_maxBlockSize d \<le> x_maxBufferSize d" "x_maxBufferSize d \<le> 4325376"
    "x_tmpIn d + x_maxBlockSize d \<le> tmpOutBuffer d \<or> tmpOutBuffer d + x_maxBufferSize d \<le> x_tmpIn d" by (fact B s)+
  show "x_maxBlockSize d + 131072 \<le> x_maxBufferSize d" if "blockMode (x_frameInfo d) = LZ4F_blockLinked"
    using assms that by (simp add: frame_ready_def)
qed

section \<open>The header of any input\<close>

text \<open>What the decoder of headers leaves: a skippable frame, a request for more input, or a context ready for blocks.\<close>

definition header_result :: "arch \<Rightarrow> addr set \<Rightarrow> mem \<Rightarrow> LZ4F_dctx_t \<Rightarrow> addr \<Rightarrow> int \<Rightarrow> int \<Rightarrow> mem \<Rightarrow> LZ4F_dctx_t \<Rightarrow> bool" where
  "header_result a K m d p n r m' d' \<longleftrightarrow>
     alloc_ok a K m' d' \<and> length (mem32 (x_xxh d')) = 16 \<and>
     (dStage d' = dstage_storeSFrameSize \<and> p = x_header d \<and> r = n \<and> x_tmpInSize d' = n \<and> tmpInTarget d' = 8 \<and>
        LZ4F_readLE32 m p \<noteq> Some LZ4F_MAGICNUMBER \<or>
      dStage d' = dstage_getSFrameSize \<and> p \<noteq> x_header d \<and> r = 4 \<or>
      dStage d' = dstage_storeHeader \<and> n < 15 \<and> r = n \<and> x_tmpInSize d' = n \<and> tmpInTarget d' = 15 \<and> x_dict d' = x_dict d \<and> tmpOutBuffer d' = tmpOutBuffer d \<and>
        (p = x_header d \<longrightarrow> LZ4F_readLE32 m' p = Some LZ4F_MAGICNUMBER) \<or>
      dStage d' = dstage_getCBlockSize \<and> r \<in> {7, 15} \<and> r \<le> n \<and> frame_ready a K m' d' \<and> x_dict d' = tmpOutBuffer d' \<and> x_dictSize d' = 0)"

definition header_post :: "arch \<Rightarrow> addr set \<Rightarrow> mem \<Rightarrow> LZ4F_dctx_t \<Rightarrow> addr \<Rightarrow> int \<Rightarrow> int \<times> mem \<times> LZ4F_dctx_t \<Rightarrow> bool" where
  "header_post a K m d p n = (\<lambda>(r, m', d').
     kept K {x_header d..<x_header d + 16} m m' \<and> x_header d' = x_header d \<and> (LZ4F_isError a r \<or> header_result a K m d p n r m' d'))"

lemma header_post_error:
  "c \<noteq> OK_NoError \<Longrightarrow> c \<noteq> ERROR_maxCode \<Longrightarrow> (\<And>x. x \<in> K \<Longrightarrow> m' x = m x) \<Longrightarrow> x_header d' = x_header d \<Longrightarrow>
   header_post a K m d p n (LZ4F_error a c, m', d')"
  by (simp add: header_post_def LZ4F_isError_error kept_def)

lemma validate_error: "LZ4F_validate FLG BD = Some c \<Longrightarrow> c \<noteq> OK_NoError \<and> c \<noteq> ERROR_maxCode"
  unfolding LZ4F_validate_def by (auto simp only: option.inject option.distinct LZ4F_errorCodes.distinct split: if_split_asm)

lemma validate_bsid: "LZ4F_validate FLG BD = None \<Longrightarrow> BD div 2 ^ 4 mod 8 \<in> {4..7}"
proof -
  assume "LZ4F_validate FLG BD = None"
  then have "\<not> BD div 2 ^ 4 mod 8 < 4" unfolding LZ4F_validate_def by (simp only: option.distinct split: if_split_asm) blast
  moreover have "BD div 2 ^ 4 mod 8 < 8" by simp
  ultimately show ?thesis by simp
qed

lemma headerChecksum_ok: "mapped m p (p + n) \<Longrightarrow> 0 \<le> n \<Longrightarrow> \<exists>c. LZ4F_headerChecksum e m p n = Some c"
  using okD [OF load_bytes_ok [of m p "nat n"]] LZ4F_headerChecksum_eq [of m p _ n e] by force

lemma header_ready:
  assumes c: "calloc_ok e" and f: "free_ok e K" and A: "alloc_ok (env_arch e) K m d" and K: "K \<subseteq> dom m"
    and s: "x_maxBlockSize d \<in> block_sizes" and l: "length (mem32 (x_xxh d)) = 16"
    and x: "contentChecksumFlag (x_frameInfo d) \<noteq> 0 \<longrightarrow> (\<exists>xs. xxh32_repr 0 (x_xxh d) xs)"
    and r: "r \<in> {7, 15}" "r \<le> n" and h: "x_header d = x_header d0"
  shows "header_post (env_arch e) K m d0 p n
     (case LZ4F_header_alloc e m d of (failed, m', d') \<Rightarrow>
        if failed then (LZ4F_error (env_arch e) ERROR_GENERIC, m', d') else (r, m', LZ4F_header_init d'))"
proof -
  obtain failed m' d' where R: "LZ4F_header_alloc e m d = (failed, m', d')" "\<forall>x \<in> K. m' x = m x" "x_header d' = x_header d"
    "\<not> failed \<longrightarrow> bufs_ok (env_arch e) K m' d' \<and> (\<exists>p q n. d' = d\<lparr>x_maxBufferSize := n, x_tmpIn := p, tmpOutBuffer := q\<rparr>) \<and>
       x_maxBlockSize d + (if blockMode (x_frameInfo d) = 0 then 131072 else 0) \<le> x_maxBufferSize d'"
    using header_alloc_ok [OF c f A K s] by blast
  show ?thesis
  proof (cases failed)
    case True
    then show ?thesis using R(2,3) h by (simp add: R(1) header_post_error)
  next
    case False
    with R(4) obtain p' q' n' where d': "bufs_ok (env_arch e) K m' d'" "d' = d\<lparr>x_maxBufferSize := n', x_tmpIn := p', tmpOutBuffer := q'\<rparr>"
      "x_maxBlockSize d + (if blockMode (x_frameInfo d) = 0 then 131072 else 0) \<le> x_maxBufferSize d'" by blast
    have b: "bufs_ok (env_arch e) K m' (LZ4F_header_init d')" using d'(1) by (simp add: bufs_ok_def LZ4F_header_init_def)
    then have "frame_ready (env_arch e) K m' (LZ4F_header_init d')"
      using d'(2,3) s x by (auto simp: frame_ready_def LZ4F_header_init_def)
    with b have "header_result (env_arch e) K m d0 p n r m' (LZ4F_header_init d')"
      using r l by (auto simp: header_result_def alloc_ok_def LZ4F_header_init_def d'(2))
    moreover have "kept K W m m'" for W using R(2) by (simp add: kept_def)
    ultimately show ?thesis using R(1,3) h False by (simp add: header_post_def) (simp add: LZ4F_header_init_def)
  qed
qed

lemma alloc_fields:
  "x_maxBufferSize d' = x_maxBufferSize d \<Longrightarrow> x_tmpIn d' = x_tmpIn d \<Longrightarrow> tmpOutBuffer d' = tmpOutBuffer d \<Longrightarrow>
   alloc_ok a K m d' = alloc_ok a K m d"
  by (simp add: alloc_ok_def bufs_ok_def)

lemma header_fields_ok:
  assumes c: "calloc_ok e" and f: "free_ok e K" and A: "alloc_ok (env_arch e) K m d" and K: "K \<subseteq> dom m"
    and l: "length (mem32 (x_xxh d)) = 16" and src: "mapped m p (p + N)" "N = (if FLG div 2 ^ 3 mod 2 \<noteq> 0 then 15 else 7)" "N \<le> n"
    and h: "x_header d = x_header d0"
  shows "ok (header_post (env_arch e) K m d0 p n) (LZ4F_header_fields e m d p FLG N)"
proof -
  let ?a = "env_arch e"
  have N: "N \<in> {7, 15}" using src(2) by simp
  obtain bb where bb: "m (p + 5) = Some bb" using mappedD [OF src(1), of "p + 5"] N by auto
  have crc: "mapped m (p + 4) (p + 4 + (N - 5))" by (rule mapped_mono [OF src(1)]) auto
  obtain HC where HC: "LZ4F_headerChecksum e m (p + 4) (N - 5) = Some HC" using headerChecksum_ok [OF crc, of e] N by auto
  obtain b where b: "m (p + N - 1) = Some b" using mappedD [OF src(1), of "p + N - 1"] N by auto
  define d1 where "d1 = d\<lparr>x_frameInfo := (x_frameInfo d)\<lparr>blockMode := FLG div 2 ^ 5 mod 2, contentChecksumFlag := FLG div 2 ^ 2 mod 2,
       blockSizeID := uint bb div 2 ^ 4 mod 8\<rparr>, x_maxBlockSize := LZ4F_getBlockSize ?a (uint bb div 2 ^ 4 mod 8)\<rparr>"
  obtain cs where cs: "N = 15 \<Longrightarrow> LZ4F_readLE64 m (p + 6) = Some cs"
  proof (cases "N = 15")
    case True
    have "mapped m (p + 6) (p + 6 + int 8)" by (rule mapped_mono [OF src(1)]) (use True in auto)
    from okD [OF load_bytes_ok [OF this]] obtain bs where "length bs = 8" "bytes_at m (p + 6) bs" by blast
    with LZ4F_readLE64_eq that show ?thesis by metis
  qed (use that in simp)
  define d2 where "d2 = (if FLG div 2 ^ 3 mod 2 \<noteq> 0 then d1\<lparr>frameRemainingSize := cs, x_frameInfo := (x_frameInfo d1)\<lparr>contentSize := cs\<rparr>\<rparr> else d1)"
  define d3 where "d3 = (if FLG div 2 ^ 2 mod 2 \<noteq> 0 then d2\<lparr>x_xxh := snd (XXH32_reset (x_xxh d2) 0)\<rparr> else d2)"
  have d2: "x_maxBlockSize d2 = LZ4F_getBlockSize ?a (uint bb div 2 ^ 4 mod 8)" "contentChecksumFlag (x_frameInfo d2) = FLG div 2 ^ 2 mod 2"
    "x_xxh d2 = x_xxh d" "x_maxBufferSize d2 = x_maxBufferSize d" "x_tmpIn d2 = x_tmpIn d" "tmpOutBuffer d2 = tmpOutBuffer d" "x_header d2 = x_header d"
    by (simp_all add: d2_def d1_def)
  have x: "xxh32_repr 0 (snd (XXH32_reset (x_xxh d) 0)) []" using XXH32_reset_repr [OF l, of 0] by blast
  then have l': "length (mem32 (snd (XXH32_reset (x_xxh d) 0))) = 16" by (simp add: xxh32_repr_def)
  have d3: "x_maxBlockSize d3 = LZ4F_getBlockSize ?a (uint bb div 2 ^ 4 mod 8)" "length (mem32 (x_xxh d3)) = 16" "x_header d3 = x_header d"
    "contentChecksumFlag (x_frameInfo d3) \<noteq> 0 \<longrightarrow> (\<exists>xs. xxh32_repr 0 (x_xxh d3) xs)"
    "alloc_ok ?a K m d3"
    using d2 l l' x A alloc_fields [of d3 d ?a K m] by (auto simp: d3_def)
  have rd: "(if FLG div 2 ^ 3 mod 2 \<noteq> 0
             then do { n \<leftarrow> LZ4F_readLE64 m (p + 6); Some (d1\<lparr>frameRemainingSize := n, x_frameInfo := (x_frameInfo d1)\<lparr>contentSize := n\<rparr>\<rparr>) }
             else Some d1) = Some d2"
    using cs src(2) by (auto simp: d2_def)
  show ?thesis
  proof (cases "LZ4F_validate FLG (uint bb)")
    case (Some err)
    then show ?thesis using validate_error [OF Some] h by (simp add: LZ4F_header_fields_def bb header_post_error)
  next
    case None
    have "header_post ?a K m d0 p n
     (case LZ4F_header_alloc e m d3 of (failed, m', d') \<Rightarrow>
        if failed then (LZ4F_error ?a ERROR_GENERIC, m', d') else (N, m', LZ4F_header_init d'))"
      by (rule header_ready [OF c f d3(5) K _ d3(2,4) N src(3)]) (use d3 h getBlockSize_ok [OF validate_bsid [OF None]] in auto)
    then have "ok (header_post ?a K m d0 p n) (do { let (failed, m, dctx) = LZ4F_header_alloc e m d3;
        Some (if failed then (LZ4F_error ?a ERROR_GENERIC, m, dctx) else (N, m, LZ4F_header_init dctx)) })"
      by (cases "LZ4F_header_alloc e m d3") simp
    with None h show ?thesis
      unfolding LZ4F_header_fields_def Let_def bb bind.bind_lunit None option.case HC b d1_def [symmetric] rd d3_def [symmetric]
      by (auto simp: header_post_error)
  qed
qed

lemma decodeHeader_ok:
  assumes c: "calloc_ok e" and f: "free_ok e K" and A: "alloc_ok (env_arch e) K m d" and K: "K \<subseteq> dom m"
    and l: "length (mem32 (x_xxh d)) = 16" and src: "mapped m p (p + n)" "7 \<le> n" and h: "{x_header d..<x_header d + 16} \<subseteq> K"
  shows "ok (header_post (env_arch e) K m d p n) (LZ4F_decodeHeader e m d p n)"
proof -
  let ?a = "env_arch e" and ?d0 = "d\<lparr>x_frameInfo := frameInfo prefNull\<rparr>"
  have mp: "mapped m p (p + k)" if "k \<le> n" for k by (rule mapped_mono [OF src(1)]) (use that in auto)
  obtain magic where magic: "LZ4F_readLE32 m p = Some magic" using LZ4F_readLE32_ok [OF mp [of 4]] src(2) by (auto dest: okD)
  have al: "alloc_ok ?a K m d'" if "x_maxBufferSize d' = x_maxBufferSize d" "x_tmpIn d' = x_tmpIn d" "tmpOutBuffer d' = tmpOutBuffer d" for d'
    using A alloc_fields [OF that, of ?a K m] by simp
  show ?thesis
  proof (cases "magic - magic mod 16 = LZ4F_MAGIC_SKIPPABLE_START")
    case True
    then have "magic \<noteq> LZ4F_MAGICNUMBER" by auto
    with True show ?thesis using src(2) magic
      by (auto simp: LZ4F_decodeHeader_def Let_def magic header_post_def header_result_def l intro!: al)
  next
    case nskip: False
    show ?thesis
    proof (cases "magic = LZ4F_MAGICNUMBER")
      case False
      then show ?thesis using src(2) nskip
        by (auto simp: LZ4F_decodeHeader_def Let_def magic intro!: header_post_error)
    next
      case True
      obtain fb where fb: "m (p + 4) = Some fb" using mappedD [OF src(1), of "p + 4"] src(2) by auto
      obtain bb where bb: "m (p + 5) = Some bb" using mappedD [OF src(1), of "p + 5"] src(2) by auto
      define N where "N = (if uint fb div 2 ^ 3 mod 2 \<noteq> 0 then 15 else 7 :: int)"
      have eq: "LZ4F_decodeHeader e m d p n =
        (if n < N then do { m \<leftarrow> (if p \<noteq> x_header d then memcpy m (x_header d) p (nat n) else Some m);
                            Some (n, m, ?d0\<lparr>x_tmpInSize := n, tmpInTarget := N, dStage := dstage_storeHeader\<rparr>) }
         else LZ4F_header_fields e m ?d0 p (uint fb) N)"
        using src(2) True fb magic by (simp add: LZ4F_decodeHeader_def N_def prefNull_def)
      show ?thesis
      proof (cases "n < N")
        case True
        then have N: "N = 15" "n < 15" using src(2) by (auto simp: N_def split: if_splits)
        have mh: "mapped m (x_header d) (x_header d + n)"
          unfolding mapped_dom using h K N src(2) by fastforce
        have "ok (\<lambda>m'. kept K {x_header d..<x_header d + 16} m m' \<and> dom m' = dom m) (memcpy m (x_header d) p (nat n))"
          by (rule ok_mono [OF memcpy_kept [OF src(1) mh, where K = K and W = "{x_header d..<x_header d + 16}"]]) (use N src in auto)
        moreover have "alloc_ok ?a K m' d'" if "dom m' = dom m" "x_maxBufferSize d' = x_maxBufferSize d" "x_tmpIn d' = x_tmpIn d" "tmpOutBuffer d' = tmpOutBuffer d" for m' d'
          using al [OF that(2-4)] alloc_cong [OF that(1)] by blast
        ultimately show ?thesis
          unfolding eq if_P [OF True] using N l magic \<open>magic = LZ4F_MAGICNUMBER\<close>
          by (auto simp: header_post_def header_result_def elim!: ok_mono)
      next
        case False
        have "ok (header_post ?a K m d p n) (LZ4F_header_fields e m ?d0 p (uint fb) N)"
          by (rule header_fields_ok [OF c f _ K]) (use False l in \<open>auto simp: N_def intro!: al mp\<close>)
        then show ?thesis unfolding eq if_not_P [OF False] .
      qed
    qed
  qed
qed

section \<open>Properties of the header\<close>

text \<open>A concrete allocator for the witnesses: it takes the first of two places that is free.\<close>

definition take_region :: "mem \<Rightarrow> addr \<Rightarrow> int \<Rightarrow> mem" where
  "take_region m p n = (\<lambda>x. if p \<le> x \<and> x < p + n then Some 0 else m x)"

definition two_places :: "mem \<Rightarrow> int \<Rightarrow> addr \<times> mem" where
  "two_places m n =
     (if n \<le> 67108864 \<and> (\<forall>x \<in> {16777216..16777216 + n}. m x = None) then (16777216, take_region m 16777216 n)
      else if n \<le> 67108864 \<and> (\<forall>x \<in> {134217728..134217728 + n}. m x = None) then (134217728, take_region m 134217728 n)
      else (0, m))"

definition env_example :: lz4f_env where
  "env_example = \<lparr>env_arch = \<lparr>little_endian = True, bits64 = True, sw_bitcount = False\<rparr>, env_unaligned = True,
     env_calloc = two_places, env_free = (\<lambda>m p. m)\<rparr>"

lemma env_example_ok: "calloc_ok env_example" "free_ok env_example K"
  by (auto simp: calloc_ok_def calloc_contract_def calloc_placement_def free_ok_def env_example_def two_places_def take_region_def low_def size_mod_def split: if_splits)

text \<open>A zeroed context whose header is at address 100, in a memory with a header, an output and an input.\<close>

definition dctx_example :: LZ4F_dctx_t where
  "dctx_example = \<lparr>x_frameInfo = frameInfo prefNull, x_version = 100, dStage = dstage_getHeader, frameRemainingSize = 0,
     x_maxBlockSize = 0, x_maxBufferSize = 0, srcExpect = 0, x_tmpIn = 0, x_tmpInSize = 0, tmpInTarget = 0,
     tmpOutBuffer = 0, x_dict = 0, x_dictSize = 0, tmpOut = 0, tmpOutSize = 0, tmpOutStart = 0, x_xxh = zero_xxh, x_header = 100\<rparr>"

definition mem_example :: mem where
  "mem_example = (\<lambda>x. if 100 \<le> x \<and> x < 1000 then Some (word_of_int x) else None)"

lemma example_ok:
  "alloc_ok (env_arch env_example) {100..<1000} mem_example dctx_example" "{100..<1000} \<subseteq> dom mem_example" "length (mem32 (x_xxh dctx_example)) = 16"
  by (auto simp: alloc_ok_def dctx_example_def mem_example_def zero_xxh_def)

text \<open>C24: On any seven or more bytes the header decoder returns an error or a well-formed context: one that skips a skippable frame, one
  that asks for the rest of the header, or one ready for blocks, with a block size of the format, buffers of that size apart from
  each other and from the caller's memory, and a fresh checksum and dictionary. Only the context's header is written.\<close>
theorem LZ4F_decodeHeader_wellformed:
  assumes "calloc_ok e" "free_ok e K" "alloc_ok (env_arch e) K m d" "K \<subseteq> dom m" "length (mem32 (x_xxh d)) = 16"
    "mapped m p (p + n)" "7 \<le> n" "{x_header d..<x_header d + 16} \<subseteq> K"
  shows "\<exists>r m' d'. LZ4F_decodeHeader e m d p n = Some (r, m', d') \<and>
     (\<forall>x \<in> K - {x_header d..<x_header d + 16}. m' x = m x) \<and>
     (LZ4F_isError (env_arch e) r \<or> header_result (env_arch e) K m d p n r m' d')"
  using okD [OF decodeHeader_ok [OF assms]] by (fastforce simp: header_post_def kept_def)

theorem LZ4F_decodeHeader_wellformed_witness:
  "\<exists>r m' d'. LZ4F_decodeHeader env_example mem_example dctx_example 600 20 = Some (r, m', d') \<and>
     (LZ4F_isError (env_arch env_example) r \<or> header_result (env_arch env_example) {100..<1000} mem_example dctx_example 600 20 r m' d')"
proof -
  have "mapped mem_example 600 (600 + 20)" "{x_header dctx_example..<x_header dctx_example + 16} \<subseteq> {100..<1000}"
    by (simp_all add: mapped_def mem_example_def dctx_example_def)
  from LZ4F_decodeHeader_wellformed [OF env_example_ok example_ok this(1) _ this(2)] show ?thesis by fastforce
qed

lemma header_decoded:
  assumes c: "calloc_ok e" "free_ok e K" and A: "alloc_ok (env_arch e) K m d" "K \<subseteq> dom m" "length (mem32 (x_xxh d)) = 16"
    and fi: "info_ok fi" and h: "bytes_at m p (header_bytes fi)" "int (length (header_bytes fi)) \<le> n"
  shows "ok (\<lambda>(r, m', d'). kept K {} m m' \<and> x_header d' = x_header d \<and>
     (if fst (LZ4F_header_alloc e m (header_dctx (env_arch e) d fi)) then r = LZ4F_error (env_arch e) ERROR_GENERIC
      else r = int (length (header_bytes fi)) \<and> x_frameInfo d' = fi \<and> x_maxBlockSize d' = LZ4F_getBlockSize (env_arch e) (blockSizeID fi) \<and>
      dStage d' = dstage_getCBlockSize \<and> frame_ready (env_arch e) K m' d' \<and> x_dict d' = tmpOutBuffer d' \<and> x_dictSize d' = 0 \<and>
      length (mem32 (x_xxh d')) = 16 \<and>
      (contentChecksumFlag fi \<noteq> 0 \<longrightarrow> xxh32_repr 0 (x_xxh d') []) \<and>
      frameRemainingSize d' = (if contentSize fi \<noteq> 0 then contentSize fi else frameRemainingSize d) \<and> srcExpect d' = srcExpect d))
     (LZ4F_decodeHeader e m d p n)"
proof -
  let ?a = "env_arch e" and ?d = "header_dctx (env_arch e) d fi"
  have bs: "x_maxBlockSize ?d \<in> block_sizes" using getBlockSize_ok fi by (simp add: header_dctx_def info_ok_def)
  have x: "xxh32_repr 0 (snd (XXH32_reset (x_xxh d) 0)) []" using XXH32_reset_repr [OF A(3), of 0] by blast
  have al: "alloc_ok ?a K m ?d" using A(1) by (simp add: header_dctx_def alloc_ok_def bufs_ok_def)
  have xh: "x_header ?d = x_header d" by (simp add: header_dctx_def)
  obtain failed m' d' where R: "LZ4F_header_alloc e m ?d = (failed, m', d')" "\<forall>x \<in> K. m' x = m x" "x_header d' = x_header d"
    "\<not> failed \<longrightarrow> bufs_ok ?a K m' d' \<and> (\<exists>p q n. d' = ?d\<lparr>x_maxBufferSize := n, x_tmpIn := p, tmpOutBuffer := q\<rparr>) \<and>
       x_maxBlockSize ?d + (if blockMode (x_frameInfo ?d) = 0 then 131072 else 0) \<le> x_maxBufferSize d'"
    using header_alloc_ok [OF c al A(2) bs, unfolded xh] by blast
  have k: "kept K {} m m'" using R(2) by (simp add: kept_def)
  show ?thesis
  proof (cases failed)
    case True
    then show ?thesis using k R(3) by (simp add: LZ4F_decodeHeader_eq [OF fi h] R(1))
  next
    case False
    with R(4) obtain p' q' n' where d': "bufs_ok ?a K m' d'" "d' = ?d\<lparr>x_maxBufferSize := n', x_tmpIn := p', tmpOutBuffer := q'\<rparr>"
      "x_maxBlockSize ?d + (if blockMode (x_frameInfo ?d) = 0 then 131072 else 0) \<le> x_maxBufferSize d'" by blast
    have b: "bufs_ok ?a K m' (LZ4F_header_init d')" using d'(1) by (simp add: bufs_ok_def LZ4F_header_init_def)
    then have "frame_ready ?a K m' (LZ4F_header_init d')"
      using d'(2,3) bs x by (auto simp: frame_ready_def LZ4F_header_init_def header_dctx_def)
    then show ?thesis using False k R(3) x A(3) 
      by (simp add: LZ4F_decodeHeader_eq [OF fi h] R(1)) (auto simp: LZ4F_header_init_def header_dctx_def d'(2) XXH32_reset_def)
  qed
qed

text \<open>C23: The header that \<open>LZ4F_compressBegin\<close> writes for a frame description is decoded back to that description, with its block
  size, for every description the format has, unless the allocation of the buffers fails, which is reported.\<close>
theorem LZ4F_header_roundtrip:
  assumes "calloc_ok e" "free_ok e K" "alloc_ok (env_arch e) K m d" "K \<subseteq> dom m" "length (mem32 (x_xxh d)) = 16"
    and fi: "info_ok fi" and p: "{p..<p + 15} \<subseteq> K"
  shows "\<exists>m1 q. LZ4F_write_header e m fi p = Some (m1, q) \<and> q - p = (if contentSize fi \<noteq> 0 then 15 else 7) \<and>
     (\<exists>r m2 d2. LZ4F_decodeHeader e m1 d p (q - p) = Some (r, m2, d2) \<and>
       (if fst (LZ4F_header_alloc e m1 (header_dctx (env_arch e) d fi)) then r = LZ4F_error (env_arch e) ERROR_GENERIC
        else r = q - p \<and> x_frameInfo d2 = fi \<and> x_maxBlockSize d2 = LZ4F_getBlockSize (env_arch e) (blockSizeID fi) \<and>
        dStage d2 = dstage_getCBlockSize))"
proof -
  have "mapped m p (p + int (length (header_bytes fi)))"
    unfolding mapped_dom using assms(4) p by (fastforce simp: length_header_bytes split: if_splits)
  from okD [OF LZ4F_write_header_ok [OF this, of e]] obtain m1 q where
    w: "LZ4F_write_header e m fi p = Some (m1, q)" "q = p + int (length (header_bytes fi))" "frame m m1 p q" "bytes_at m1 p (header_bytes fi)" by auto
  have dm: "dom m1 = dom m" by (rule frame_dom [OF w(3)])
  have "alloc_ok (env_arch e) K m1 d" "K \<subseteq> dom m1" using assms(3,4) unfolding alloc_cong [OF dm] dm by auto
  from okD [OF header_decoded [OF assms(1,2) this assms(5) fi w(4), of "q - p"]] w(2) obtain r m2 d2 where
    "LZ4F_decodeHeader e m1 d p (q - p) = Some (r, m2, d2)"
    "if fst (LZ4F_header_alloc e m1 (header_dctx (env_arch e) d fi)) then r = LZ4F_error (env_arch e) ERROR_GENERIC
     else r = q - p \<and> x_frameInfo d2 = fi \<and> x_maxBlockSize d2 = LZ4F_getBlockSize (env_arch e) (blockSizeID fi) \<and> dStage d2 = dstage_getCBlockSize"
    by (auto split: if_splits)
  with w(1,2) show ?thesis by (auto simp: length_header_bytes)
qed

definition info_example :: LZ4F_frameInfo_t where
  "info_example = \<lparr>blockSizeID = 5, blockMode = 0, contentChecksumFlag = 1, frameType = 0, contentSize = 12345678901\<rparr>"

lemma example_alloc:
  assumes "dom m = dom mem_example"
  shows "\<not> fst (LZ4F_header_alloc env_example m (header_dctx (env_arch env_example) dctx_example info_example))"
proof -
  have n: "m x = None" if "1000 \<le> x" for x
  proof -
    have "mem_example x = None" using that by (simp add: mem_example_def)
    then show ?thesis using assms by (metis domIff)
  qed
  have "LZ4F_getBlockSize (env_arch env_example) 5 = 262144" by (simp add: LZ4F_getBlockSize_def)
  then show ?thesis using n
    by (simp add: LZ4F_header_alloc_def header_dctx_def info_example_def dctx_example_def Let_def FREEMEM_def env_example_def two_places_def take_region_def)
qed

theorem LZ4F_header_roundtrip_witness:
  "\<exists>m1 m2 d2. LZ4F_write_header env_example mem_example info_example 200 = Some (m1, 215) \<and>
     LZ4F_decodeHeader env_example m1 dctx_example 200 15 = Some (15, m2, d2) \<and> x_frameInfo d2 = info_example"
proof -
  have i: "info_ok info_example" "{200..<200 + 15} \<subseteq> {100..<1000::int}" "contentSize info_example \<noteq> 0" by (auto simp: info_ok_def info_example_def)
  have "mapped mem_example 200 (200 + int (length (header_bytes info_example)))"
    using i(3) by (simp add: length_header_bytes mapped_def mem_example_def)
  from okD [OF LZ4F_write_header_ok [OF this, of env_example]] obtain m1 where
    w: "LZ4F_write_header env_example mem_example info_example 200 = Some (m1, 215)" "frame mem_example m1 200 215"
    using i(3) by (auto simp: length_header_bytes)
  from LZ4F_header_roundtrip [OF env_example_ok example_ok i(1,2)] i(3) w(1) example_alloc [OF frame_dom [OF w(2)]]
  show ?thesis by auto
qed

end
