(* ===== verification/Lz4_Frame_Stages.thy ===== *)
theory Lz4_Frame_Stages
  imports Lz4_Frame_Header
begin

text \<open>
  The stages of \<open>LZ4F_decompress\<close>: the invariant of its state machine, the measure that its loop decreases, and that every stage keeps
  the one and decreases the other on any input.
\<close>

section \<open>The decoders of a block\<close>

text \<open>The two decoders of a block, with one readable byte after it.\<close>

definition block_in :: "arch \<Rightarrow> mem \<Rightarrow> addr \<Rightarrow> addr \<Rightarrow> int \<Rightarrow> int \<Rightarrow> bool" where
  "block_in a m src dst n cap \<longleftrightarrow>
     1 \<le> n \<and> n \<le> 4194304 \<and> 0 \<le> src \<and> 0 \<le> dst \<and> 1 \<le> cap \<and> cap < 2 ^ 31 \<and> src + n + 2147483648 \<le> size_mod a \<and> dst + cap + 2147483648 \<le> size_mod a \<and>
     mapped m src (src + max n 2) \<and> mapped m dst (dst + cap)"

lemma block_in_call: "block_in a m src dst n cap \<Longrightarrow> n \<noteq> 1 \<Longrightarrow> call_ok a m src dst n cap"
  unfolding block_in_def call_ok_def by (auto elim: mapped_mono)

lemma block_in_one:
  assumes "block_in a m src dst 1 cap"
  shows "mapped m src (src + 2)" "0 \<le> src" "src + 300 < size_mod a" "0 \<le> dst" "dst + cap + 300 < size_mod a" "0 \<le> cap" "cap < 2 ^ 31" "1 \<le> cap"
  using assms by (auto simp: block_in_def add.commute)

lemma LZ4_decompress_safe_any:
  assumes "block_in a m src dst n cap"
  shows "ok (\<lambda>(r, m'). frame m m' dst (dst + cap) \<and> r \<le> cap) (LZ4_decompress_safe a m src dst n cap)"
proof (cases "n = 1")
  case True
  note b = block_in_one [OF assms(1) [unfolded True]]
  show ?thesis unfolding LZ4_decompress_safe_def True
    by (rule ok_mono [OF short_input_safe [OF order_refl b(1-7)]]) (use b(8) in auto)
next
  case False
  show ?thesis by (rule ok_mono [OF safe_memory_safe [OF block_in_call [OF assms False]]]) auto
qed

lemma LZ4_decompress_safe_usingDict_any:
  assumes "block_in a m src dst n cap" "0 \<le> dsz" "mapped m ds (ds + dsz)" "dsz = 0 \<or> ds + dsz \<le> dst \<or> dst + cap \<le> ds"
  shows "ok (\<lambda>(r, m'). frame m m' dst (dst + cap) \<and> r \<le> cap) (LZ4_decompress_safe_usingDict a m src dst n cap ds dsz)"
proof (cases "n = 1")
  case True
  note b = block_in_one [OF assms(1) [unfolded True]]
  have o: "ok (\<lambda>(r, m'). frame m m' dst (dst + cap) \<and> r \<le> cap)
      (LZ4_decompress_generic a m src dst 1 cap endOnInputSize full 0 dd lp d1 d2)" for dd lp d1 d2
    by (rule ok_mono [OF short_input_safe [OF order_refl b(1-7)]]) (use b(8) in auto)
  show ?thesis unfolding True
    by (simp add: LZ4_decompress_safe_usingDict_def LZ4_decompress_usingDict_generic_def o)
next
  case False
  note c = safe_usingDict_memory_safe [OF block_in_call [OF assms(1) False]]
  show ?thesis
  proof (cases "dsz = 0")
    case True
    have "ok (\<lambda>(r, m'). frame m m' dst (dst + cap) \<and> - n - 1 \<le> r \<and> r \<le> cap) (LZ4_decompress_safe_usingDict a m src dst n cap dst 0)"
      by (rule c) (auto simp: mapped_def)
    then show ?thesis unfolding True
      by (auto simp: LZ4_decompress_safe_usingDict_def LZ4_decompress_usingDict_generic_def elim!: ok_mono)
  qed (use assms in \<open>auto intro!: ok_mono [OF c]\<close>)
qed

section \<open>The checksum state\<close>

lemma XXH32_digest_total:
  assumes r: "xxh32_repr seed s xs"
  shows "\<exists>h. XXH32_digest a s = Some h"
proof -
  have "mem32 s = rest 16 xs @ drop (length xs mod 16) (mem32 s)"
    using r by (metis append_take_drop_id xxh32_repr_def)
  then have b: "bytes_at (buffer 0 (mem32 s)) 0 (rest 16 xs)"
    by (metis bytes_at_append bytes_at_buffer)
  have "memsize32 s = int (length (rest 16 xs))" using r by (simp add: xxh32_repr_def)
  with XXH32_finish_eq [OF b aligned_unaligned refl, of a]
  have "\<exists>h. XXH32_digest_endian a s (XXH_CPU_LITTLE_ENDIAN a) = Some h"
    by (simp add: XXH32_digest_endian_def Let_def del: length_rest)
  then show ?thesis by (auto simp: XXH32_digest_def XXH_CPU_LITTLE_ENDIAN_def)
qed

section \<open>The invariant of the state machine\<close>

definition call_inv :: "LZ4F_call \<Rightarrow> addr set \<Rightarrow> addr \<Rightarrow> bool" where
  "call_inv k K h \<longleftrightarrow>
     calloc_ok (w_env k) \<and> free_ok (w_env k) K \<and> 0 \<le> w_dstStart k \<and> w_dstStart k \<le> w_dstEnd k \<and> w_dstEnd k - w_dstStart k < 2147483648 \<and>
     low (env_arch (w_env k)) (w_dstEnd k) \<and> low (env_arch (w_env k)) (w_srcEnd k) \<and> {w_dstStart k..<w_dstEnd k} \<subseteq> K \<and> {h..<h + 16} \<subseteq> K"

definition written :: "LZ4F_call \<Rightarrow> addr \<Rightarrow> addr set" where
  "written k h = {w_dstStart k..<w_dstEnd k} \<union> {h..<h + 16}"

text \<open>The rest of the input, with the byte after it, belongs to the caller and is apart from the context's header.\<close>

definition core_inv :: "LZ4F_call \<Rightarrow> addr set \<Rightarrow> mem \<Rightarrow> LZ4F_dctx_t \<Rightarrow> addr \<Rightarrow> addr \<Rightarrow> bool" where
  "core_inv k K m d sp dp \<longleftrightarrow>
     call_inv k K (x_header d) \<and> K \<subseteq> dom m \<and> 0 \<le> sp \<and> sp \<le> w_srcEnd k \<and>
     (sp < w_srcEnd k \<longrightarrow> {sp..w_srcEnd k} \<subseteq> K \<and> (w_srcEnd k \<le> x_header d \<or> x_header d + 16 \<le> sp)) \<and>
     w_dstStart k \<le> dp \<and> dp \<le> w_dstEnd k \<and> length (mem32 (x_xxh d)) = 16 \<and> alloc_ok (env_arch (w_env k)) K m d"

text \<open>The dictionary of linked blocks is in \<open>tmpOutBuffer\<close>, or it is the last part of what this call has written.\<close>

definition dict_inv :: "addr \<Rightarrow> addr \<Rightarrow> LZ4F_dctx_t \<Rightarrow> bool" where
  "dict_inv lo hi d \<longleftrightarrow> (blockMode (x_frameInfo d) = LZ4F_blockLinked \<longrightarrow>
     0 \<le> x_dictSize d \<and> (if x_dict d = tmpOutBuffer d then x_dictSize d \<le> x_maxBufferSize d else lo \<le> x_dict d \<and> x_dict d + x_dictSize d = hi))"

definition flush_inv :: "LZ4F_dctx_t \<Rightarrow> bool" where
  "flush_inv d \<longleftrightarrow>
     0 \<le> tmpOutStart d \<and> tmpOutStart d \<le> tmpOutSize d \<and> tmpOutBuffer d \<le> tmpOut d \<and> tmpOut d + tmpOutSize d \<le> tmpOutBuffer d + x_maxBufferSize d \<and>
     (blockMode (x_frameInfo d) = LZ4F_blockLinked \<longrightarrow>
       (if x_dict d = tmpOutBuffer d then x_dict d + x_dictSize d = tmpOut d + tmpOutStart d
        else tmpOutSize d > 65536 \<or> min (tmpOut d - tmpOutBuffer d) (65536 - tmpOutSize d) \<le> x_dictSize d - tmpOutStart d))"

definition input_inv :: "arch \<Rightarrow> mem \<Rightarrow> addr \<Rightarrow> int \<Rightarrow> bool" where
  "input_inv a m p n \<longleftrightarrow> 0 \<le> p \<and> low a (p + n) \<and> mapped m p (p + max n 2)"

fun stage_inv :: "LZ4F_call \<Rightarrow> addr set \<Rightarrow> mem \<Rightarrow> LZ4F_dctx_t \<Rightarrow> addr \<Rightarrow> addr \<Rightarrow> dStage_t \<Rightarrow> bool" where
  "stage_inv k K m d dp s dstage_getHeader = True"
| "stage_inv k K m d dp s dstage_storeHeader =
     (0 \<le> x_tmpInSize d \<and> x_tmpInSize d < tmpInTarget d \<and> x_dict d = tmpOutBuffer d \<and>
      (tmpInTarget d = 7 \<or> tmpInTarget d = 15 \<and> 7 \<le> x_tmpInSize d \<and> LZ4F_readLE32 m (x_header d) = Some LZ4F_MAGICNUMBER))"
| "stage_inv k K m d dp s dstage_getCBlockSize = (frame_ready (env_arch (w_env k)) K m d \<and> dict_inv (w_dstStart k) dp d)"
| "stage_inv k K m d dp s dstage_storeCBlockSize =
     (frame_ready (env_arch (w_env k)) K m d \<and> dict_inv (w_dstStart k) dp d \<and> 0 \<le> x_tmpInSize d \<and> x_tmpInSize d < 4)"
| "stage_inv k K m d dp s dstage_copyDirect =
     (frame_ready (env_arch (w_env k)) K m d \<and> dict_inv (w_dstStart k) dp d \<and> 0 < tmpInTarget d \<and> tmpInTarget d \<le> x_maxBlockSize d)"
| "stage_inv k K m d dp s dstage_getCBlock =
     (frame_ready (env_arch (w_env k)) K m d \<and> dict_inv (w_dstStart k) dp d \<and> 0 < tmpInTarget d \<and> tmpInTarget d \<le> x_maxBlockSize d)"
| "stage_inv k K m d dp s dstage_storeCBlock =
     (frame_ready (env_arch (w_env k)) K m d \<and> dict_inv (w_dstStart k) dp d \<and> 0 < tmpInTarget d \<and> tmpInTarget d \<le> x_maxBlockSize d \<and>
      0 \<le> x_tmpInSize d \<and> x_tmpInSize d < tmpInTarget d)"
| "stage_inv k K m d dp s dstage_decodeCBlock =
     (frame_ready (env_arch (w_env k)) K m d \<and> dict_inv (w_dstStart k) dp d \<and> 0 < tmpInTarget d \<and> tmpInTarget d \<le> x_maxBlockSize d \<and>
      input_inv (env_arch (w_env k)) m s (tmpInTarget d))"
| "stage_inv k K m d dp s dstage_decodeCBlock_intoDst =
     (frame_ready (env_arch (w_env k)) K m d \<and> dict_inv (w_dstStart k) dp d \<and> 0 < tmpInTarget d \<and> tmpInTarget d \<le> x_maxBlockSize d \<and>
      input_inv (env_arch (w_env k)) m s (tmpInTarget d) \<and> x_maxBlockSize d \<le> w_dstEnd k - dp)"
| "stage_inv k K m d dp s dstage_decodeCBlock_intoTmp =
     (frame_ready (env_arch (w_env k)) K m d \<and> dict_inv (w_dstStart k) dp d \<and> 0 < tmpInTarget d \<and> tmpInTarget d \<le> x_maxBlockSize d \<and>
      input_inv (env_arch (w_env k)) m s (tmpInTarget d))"
| "stage_inv k K m d dp s dstage_flushOut =
     (frame_ready (env_arch (w_env k)) K m d \<and> dict_inv (w_dstStart k) dp d \<and> flush_inv d)"
| "stage_inv k K m d dp s dstage_getSuffix = frame_ready (env_arch (w_env k)) K m d"
| "stage_inv k K m d dp s dstage_storeSuffix =
     (frame_ready (env_arch (w_env k)) K m d \<and> 0 \<le> x_tmpInSize d \<and> x_tmpInSize d < 4 \<and> contentChecksumFlag (x_frameInfo d) \<noteq> 0)"
| "stage_inv k K m d dp s dstage_getSFrameSize = True"
| "stage_inv k K m d dp s dstage_storeSFrameSize = (tmpInTarget d = 8 \<and> 4 \<le> x_tmpInSize d \<and> x_tmpInSize d < 8)"
| "stage_inv k K m d dp s dstage_skipSkippable = (0 \<le> tmpInTarget d)"

text \<open>The stages that a call never stops in.\<close>

definition transient :: "dStage_t \<Rightarrow> bool" where
  "transient s \<longleftrightarrow> s \<in> {dstage_decodeCBlock, dstage_decodeCBlock_intoDst, dstage_decodeCBlock_intoTmp, dstage_getSuffix}"

definition loop_inv :: "LZ4F_call \<Rightarrow> addr set \<Rightarrow> LZ4F_vars \<Rightarrow> bool" where
  "loop_inv k K v \<longleftrightarrow>
     core_inv k K (w_m v) (w_dctx v) (w_srcPtr v) (w_dstPtr v) \<and>
     stage_inv k K (w_m v) (w_dctx v) (w_dstPtr v) (selectedIn v) (dStage (w_dctx v)) \<and>
     (transient (dStage (w_dctx v)) \<longrightarrow> w_again v) \<and>
     (dStage (w_dctx v) = dstage_getHeader \<longrightarrow> w_again v \<longrightarrow> w_srcEnd k - w_srcPtr v < 15 \<longrightarrow> x_dict (w_dctx v) = tmpOutBuffer (w_dctx v))"

text \<open>Every stage consumes input, stops the loop, or moves on to a stage of lower rank.\<close>

fun stage_rank :: "dStage_t \<Rightarrow> nat" where
  "stage_rank dstage_getCBlock = 5"
| "stage_rank dstage_storeCBlock = 4"
| "stage_rank dstage_decodeCBlock = 3"
| "stage_rank dstage_decodeCBlock_intoDst = 2"
| "stage_rank dstage_decodeCBlock_intoTmp = 2"
| "stage_rank dstage_flushOut = 1"
| "stage_rank _ = 0"

definition loop_measure :: "LZ4F_call \<Rightarrow> LZ4F_vars \<Rightarrow> nat" where
  "loop_measure k v = nat (w_srcEnd k - w_srcPtr v) * 8 + stage_rank (dStage (w_dctx v))"

text \<open>When the loop stops, the input is used up, the output is full, or a frame has been completed, and the hint tells which.\<close>

definition stop_inv :: "LZ4F_call \<Rightarrow> LZ4F_vars \<Rightarrow> bool" where
  "stop_inv k v \<longleftrightarrow>
     (dStage (w_dctx v) = dstage_getHeader \<or> w_srcPtr v = w_srcEnd k \<or> w_dstPtr v = w_dstEnd k) \<and>
     (w_hint v = 0 \<longleftrightarrow> dStage (w_dctx v) = dstage_getHeader)"

definition step_post :: "LZ4F_call \<Rightarrow> addr set \<Rightarrow> LZ4F_vars \<Rightarrow> int option \<times> LZ4F_vars \<Rightarrow> bool" where
  "step_post k K v = (\<lambda>(r, v').
     kept K (written k (x_header (w_dctx v))) (w_m v) (w_m v') \<and> x_header (w_dctx v') = x_header (w_dctx v) \<and>
     (case r of None \<Rightarrow> loop_inv k K v' \<and> w_srcPtr v \<le> w_srcPtr v' \<and>
         (if w_again v' then loop_measure k v' < loop_measure k v else stop_inv k v')
      | Some c \<Rightarrow> LZ4F_isError (env_arch (w_env k)) c))"

lemma measure_consumed:
  assumes "w_srcPtr v < w_srcPtr v'" "w_srcPtr v' \<le> w_srcEnd k"
  shows "loop_measure k v' < loop_measure k v"
proof -
  have "nat (w_srcEnd k - w_srcPtr v') < nat (w_srcEnd k - w_srcPtr v)" using assms by simp
  moreover have "stage_rank (dStage (w_dctx v')) < 8" by (cases "dStage (w_dctx v')") auto
  ultimately show ?thesis unfolding loop_measure_def by linarith
qed

lemma measure_rank:
  assumes "w_srcPtr v \<le> w_srcPtr v'" "w_srcPtr v' \<le> w_srcEnd k" "stage_rank (dStage (w_dctx v')) < stage_rank (dStage (w_dctx v))"
  shows "loop_measure k v' < loop_measure k v"
proof -
  have "nat (w_srcEnd k - w_srcPtr v') \<le> nat (w_srcEnd k - w_srcPtr v)" using assms by simp
  with assms(3) show ?thesis unfolding loop_measure_def by linarith
qed

lemma step_postI:
  assumes "kept K (written k (x_header (w_dctx v))) (w_m v) (w_m v')" "x_header (w_dctx v') = x_header (w_dctx v)"
    "core_inv k K (w_m v') (w_dctx v') (w_srcPtr v') (w_dstPtr v')"
    "stage_inv k K (w_m v') (w_dctx v') (w_dstPtr v') (selectedIn v') (dStage (w_dctx v'))"
    "w_again v' \<and> dStage (w_dctx v') \<noteq> dstage_getHeader \<and> loop_measure k v' < loop_measure k v \<or> \<not> w_again v' \<and> \<not> transient (dStage (w_dctx v')) \<and> stop_inv k v'"
    "w_srcPtr v \<le> w_srcPtr v'"
  shows "step_post k K v (None, v')"
  using assms by (auto simp: step_post_def loop_inv_def)

lemma step_post_error:
  assumes "kept K (written k (x_header (w_dctx v))) (w_m v) (w_m v')" "x_header (w_dctx v') = x_header (w_dctx v)"
    "c \<noteq> OK_NoError" "c \<noteq> ERROR_maxCode"
  shows "step_post k K v (Some (LZ4F_error (env_arch (w_env k)) c), v')"
  using assms by (simp add: step_post_def LZ4F_isError_error)

lemma step_post_from:
  assumes "w_m v0 = w_m v" "x_header (w_dctx v0) = x_header (w_dctx v)" "w_srcPtr v \<le> w_srcPtr v0" "w_srcPtr v0 \<le> w_srcEnd k"
    "stage_rank (dStage (w_dctx v0)) \<le> stage_rank (dStage (w_dctx v))"
    and "ok (step_post k K v0) x"
  shows "ok (step_post k K v) x"
proof (rule ok_mono [OF assms(6)])
  have "loop_measure k v0 \<le> loop_measure k v"
    using assms(3-5) unfolding loop_measure_def by (intro add_mono mult_le_mono1) auto
  then show "step_post k K v r" if "step_post k K v0 r" for r
    using that assms(1-3) by (auto simp: step_post_def split: prod.splits option.splits if_splits)
qed

lemma ready_dict0: "frame_ready a K m d \<Longrightarrow> x_dict d = tmpOutBuffer d \<Longrightarrow> x_dictSize d = 0 \<Longrightarrow> dict_inv lo hi d"
  using ready_bufs(3,5) [of a K m d] by (simp add: dict_inv_def)

text \<open>The common part survives every change of the memory that keeps its domain, and progress of the two pointers.\<close>

lemma core_step:
  assumes "core_inv k K m d sp dp" "dom m' = dom m" "sp \<le> sp'" "sp' \<le> w_srcEnd k" "dp \<le> dp'" "dp' \<le> w_dstEnd k"
    "x_header d' = x_header d" "length (mem32 (x_xxh d')) = 16" "x_maxBufferSize d' = x_maxBufferSize d" "x_tmpIn d' = x_tmpIn d" "tmpOutBuffer d' = tmpOutBuffer d"
  shows "core_inv k K m' d' sp' dp'"
proof -
  have "alloc_ok (env_arch (w_env k)) K m' d'"
    using assms(1) alloc_cong [OF assms(2)] alloc_fields [OF assms(9-11)] by (simp add: core_inv_def)
  moreover have "sp' < w_srcEnd k \<longrightarrow> {sp'..w_srcEnd k} \<subseteq> K \<and> (w_srcEnd k \<le> x_header d' \<or> x_header d' + 16 \<le> sp')"
  proof
    assume s: "sp' < w_srcEnd k"
    then have "{sp..w_srcEnd k} \<subseteq> K" "w_srcEnd k \<le> x_header d \<or> x_header d + 16 \<le> sp"
      using assms(1,3) by (auto simp: core_inv_def)
    moreover have "{sp'..w_srcEnd k} \<subseteq> {sp..w_srcEnd k}" using assms(3) by auto
    ultimately show "{sp'..w_srcEnd k} \<subseteq> K \<and> (w_srcEnd k \<le> x_header d' \<or> x_header d' + 16 \<le> sp')"
      using assms(3,7) by auto
  qed
  moreover have "call_inv k K (x_header d')" "K \<subseteq> dom m'" "0 \<le> sp'" "w_dstStart k \<le> dp'"
    using assms(1-3,5,7) by (auto simp: core_inv_def)
  ultimately show ?thesis using assms(4,6,8) by (simp add: core_inv_def)
qed

lemma core_bounds:
  assumes "core_inv k K m d sp dp"
  shows "0 \<le> sp" "sp \<le> w_srcEnd k" "w_dstStart k \<le> dp" "dp \<le> w_dstEnd k" "length (mem32 (x_xxh d)) = 16" "K \<subseteq> dom m" "0 \<le> dp"
    "{w_dstStart k..<w_dstEnd k} \<subseteq> K" "low (env_arch (w_env k)) (w_dstEnd k)" "low (env_arch (w_env k)) (w_srcEnd k)" "w_dstEnd k - w_dstStart k < 2147483648" "0 \<le> w_dstStart k"
  using assms by (auto simp: core_inv_def call_inv_def)

lemma core_same:
  assumes "core_inv k K m d sp dp" "x_header d' = x_header d" "x_xxh d' = x_xxh d" "x_maxBufferSize d' = x_maxBufferSize d" "x_tmpIn d' = x_tmpIn d" "tmpOutBuffer d' = tmpOutBuffer d"
  shows "core_inv k K m d' sp dp"
  by (rule core_step [OF assms(1) refl]) (use assms core_bounds [OF assms(1)] in simp_all)

lemma core_mapped:
  assumes "core_inv k K m d sp dp"
  shows "mapped m sp (w_srcEnd k)" "sp < w_srcEnd k \<Longrightarrow> mapped m sp (w_srcEnd k + 1)" "mapped m (w_dstStart k) (w_dstEnd k)" "mapped m (x_header d) (x_header d + 16)"
proof -
  have K: "K \<subseteq> dom m" and d: "{w_dstStart k..<w_dstEnd k} \<subseteq> K" "{x_header d..<x_header d + 16} \<subseteq> K"
    and s: "sp < w_srcEnd k \<longrightarrow> {sp..w_srcEnd k} \<subseteq> K"
    using assms unfolding core_inv_def call_inv_def by blast+
  show "mapped m (w_dstStart k) (w_dstEnd k)" "mapped m (x_header d) (x_header d + 16)" unfolding mapped_dom using K d by blast+
  show m1: "mapped m sp (w_srcEnd k + 1)" if "sp < w_srcEnd k"
  proof -
    have "{sp..<w_srcEnd k + 1} = {sp..w_srcEnd k}" by auto
    with that s K show ?thesis unfolding mapped_dom by blast
  qed
  show "mapped m sp (w_srcEnd k)"
  proof (cases "sp < w_srcEnd k")
    case True
    show ?thesis by (rule mapped_mono [OF m1 [OF True]]) auto
  qed (simp add: mapped_def)
qed

section \<open>Stages that collect input\<close>

lemma collect_ok:
  assumes C: "core_inv k K (w_m v) (w_dctx v) (w_srcPtr v) (w_dstPtr v)"
    and t: "0 \<le> x_tmpInSize (w_dctx v)" "x_tmpInSize (w_dctx v) < target" "target < 4294967296"
    and buf: "mapped (w_m v) buf (buf + target)" "{buf..<buf + target} \<inter> K \<subseteq> W"
  obtains n m' where
    "LZ4F_collect k v buf target = Some (v\<lparr>w_m := m', w_srcPtr := w_srcPtr v + n, w_dctx := (w_dctx v)\<lparr>x_tmpInSize := x_tmpInSize (w_dctx v) + n\<rparr>\<rparr>)"
    "0 \<le> n" "w_srcPtr v + n \<le> w_srcEnd k" "x_tmpInSize (w_dctx v) + n \<le> target"
    "x_tmpInSize (w_dctx v) + n < target \<longrightarrow> w_srcPtr v + n = w_srcEnd k" "dom m' = dom (w_m v)" "kept K W (w_m v) m'"
    "frame (w_m v) m' (buf + x_tmpInSize (w_dctx v)) (buf + target)"
proof -
  let ?d = "w_dctx v"
  define n where "n = min (target - x_tmpInSize ?d) (w_srcEnd k - w_srcPtr v)"
  have s: "w_srcPtr v \<le> w_srcEnd k" using C by (simp add: core_inv_def)
  have n: "0 \<le> n" "w_srcPtr v + n \<le> w_srcEnd k" "x_tmpInSize ?d + n \<le> target" "x_tmpInSize ?d + n < target \<longrightarrow> w_srcPtr v + n = w_srcEnd k"
    using t s by (auto simp: n_def)
  have sub: "size_sub (env_arch (w_env k)) target (x_tmpInSize ?d) = target - x_tmpInSize ?d"
    using t size_mod_ge [of "env_arch (w_env k)"] by (simp add: size_sub_def)
  have eq: "LZ4F_collect k v buf target = do { m \<leftarrow> memcpy (w_m v) (buf + x_tmpInSize ?d) (w_srcPtr v) (nat n);
       Some (v\<lparr>w_m := m, w_srcPtr := w_srcPtr v + n, w_dctx := ?d\<lparr>x_tmpInSize := x_tmpInSize ?d + n\<rparr>\<rparr>) }"
    by (simp add: LZ4F_collect_def sub Let_def n_def min_def)
  have m: "mapped (w_m v) (w_srcPtr v) (w_srcPtr v + n)" "mapped (w_m v) (buf + x_tmpInSize ?d) (buf + x_tmpInSize ?d + n)"
    by (rule mapped_mono [OF core_mapped(1) [OF C]], (use n in auto)[2]) (rule mapped_mono [OF buf(1)], use n t in auto)
  have w: "{buf + x_tmpInSize ?d..<buf + x_tmpInSize ?d + n} \<inter> K \<subseteq> W"
    using buf(2) n(3) t(1) by (auto simp: subset_iff)
  from okD [OF memcpy_kept [OF m n(1) w]] obtain m' where "memcpy (w_m v) (buf + x_tmpInSize ?d) (w_srcPtr v) (nat n) = Some m'"
    "dom m' = dom (w_m v)" "kept K W (w_m v) m'" "frame (w_m v) m' (buf + x_tmpInSize ?d) (buf + x_tmpInSize ?d + n)" by blast
  moreover from this(4) have "frame (w_m v) m' (buf + x_tmpInSize ?d) (buf + target)" by (rule frame_mono) (use n in auto)
  ultimately show ?thesis using n eq by (intro that [of n m']) simp_all
qed

lemma stage_storeHeader_ok:
  assumes C: "core_inv k K (w_m v) (w_dctx v) (w_srcPtr v) (w_dstPtr v)" and S: "dStage (w_dctx v) = dstage_storeHeader"
    "stage_inv k K (w_m v) (w_dctx v) (w_dstPtr v) (selectedIn v) dstage_storeHeader" and A: "w_again v"
  shows "ok (step_post k K v) (LZ4F_stage_storeHeader k v)"
proof -
  let ?d = "w_dctx v" and ?a = "env_arch (w_env k)" and ?h = "x_header (w_dctx v)"
  have t: "tmpInTarget ?d \<in> {7, 15}" "0 \<le> x_tmpInSize ?d" "x_tmpInSize ?d < tmpInTarget ?d" "x_dict ?d = tmpOutBuffer ?d"
    "tmpInTarget ?d = 7 \<or> tmpInTarget ?d = 15 \<and> 7 \<le> x_tmpInSize ?d \<and> LZ4F_readLE32 (w_m v) ?h = Some LZ4F_MAGICNUMBER" using S(2) by auto
  have K: "call_inv k K ?h" "K \<subseteq> dom (w_m v)" using C by (auto simp: core_inv_def)
  have buf: "mapped (w_m v) ?h (?h + tmpInTarget ?d)" "{?h..<?h + tmpInTarget ?d} \<inter> K \<subseteq> written k ?h"
    by (rule mapped_mono [OF core_mapped(4) [OF C]]) (use t in \<open>auto simp: written_def\<close>)
  obtain n m1 where c: "LZ4F_collect k v ?h (tmpInTarget ?d) = Some (v\<lparr>w_m := m1, w_srcPtr := w_srcPtr v + n, w_dctx := ?d\<lparr>x_tmpInSize := x_tmpInSize ?d + n\<rparr>\<rparr>)"
    "0 \<le> n" "w_srcPtr v + n \<le> w_srcEnd k" "x_tmpInSize ?d + n \<le> tmpInTarget ?d"
    "x_tmpInSize ?d + n < tmpInTarget ?d \<longrightarrow> w_srcPtr v + n = w_srcEnd k" "dom m1 = dom (w_m v)" "kept K (written k ?h) (w_m v) m1"
    "frame (w_m v) m1 (?h + x_tmpInSize ?d) (?h + tmpInTarget ?d)"
    by (rule collect_ok [OF C t(2,3) _ buf]) (use t(1) in auto)
  define v1 where "v1 = v\<lparr>w_m := m1, w_srcPtr := w_srcPtr v + n, w_dctx := ?d\<lparr>x_tmpInSize := x_tmpInSize ?d + n\<rparr>\<rparr>"
  have C1: "core_inv k K m1 (?d\<lparr>x_tmpInSize := x_tmpInSize ?d + n\<rparr>) (w_srcPtr v + n) (w_dstPtr v)"
    by (rule core_step [OF C c(6)]) (use c C in \<open>auto simp: core_inv_def\<close>)
  have mg: "tmpInTarget ?d = 7 \<or> tmpInTarget ?d = 15 \<and> 7 \<le> x_tmpInSize ?d + n \<and> LZ4F_readLE32 m1 ?h = Some LZ4F_MAGICNUMBER"
    using t(5) c(2) frame_eq [OF c(8)] by (auto simp: LZ4F_readLE32_def)
  show ?thesis
  proof (cases "x_tmpInSize ?d + n < tmpInTarget ?d")
    case True
    show ?thesis unfolding LZ4F_stage_storeHeader_def Let_def
      using True S(1) t(1-4) mg c C1 by (auto simp: c(1) LZ4F_stop_def transient_def stop_inv_def intro!: step_postI)
  next
    case False
    let ?d1 = "?d\<lparr>x_tmpInSize := x_tmpInSize ?d + n\<rparr>"
    have n: "0 < n" using False t(3) by simp
    have "mapped m1 ?h (?h + tmpInTarget ?d)" using buf(1) mapped_cong [OF c(6)] by blast
    then have "ok (header_post ?a K m1 ?d1 ?h (tmpInTarget ?d)) (LZ4F_decodeHeader (w_env k) m1 ?d1 ?h (tmpInTarget ?d))"
      using C1 t(1) K unfolding core_inv_def call_inv_def by (intro decodeHeader_ok) auto
    then obtain r m2 d2 where dh: "LZ4F_decodeHeader (w_env k) m1 ?d1 ?h (tmpInTarget ?d) = Some (r, m2, d2)"
      "header_post ?a K m1 ?d1 ?h (tmpInTarget ?d) (r, m2, d2)" by (auto dest!: okD)
    have kp: "kept K (written k ?h) (w_m v) m2" "x_header d2 = ?h"
      using dh(2) c(7) by (auto simp: header_post_def written_def intro: kept_trans kept_mono)
    have "step_post k K v (None, v1\<lparr>w_m := m2, w_dctx := d2\<rparr>)" if R: "header_result ?a K m1 ?d1 ?h (tmpInTarget ?d) r m2 d2"
    proof (rule step_postI)
      have "K \<subseteq> dom m2" using kept_dom [OF kp(1) K(2)] .
      moreover have "alloc_ok ?a K m2 d2" "length (mem32 (x_xxh d2)) = 16" using R by (simp_all add: header_result_def)
      ultimately show "core_inv k K (w_m (v1\<lparr>w_m := m2, w_dctx := d2\<rparr>)) (w_dctx (v1\<lparr>w_m := m2, w_dctx := d2\<rparr>))
          (w_srcPtr (v1\<lparr>w_m := m2, w_dctx := d2\<rparr>)) (w_dstPtr (v1\<lparr>w_m := m2, w_dctx := d2\<rparr>))"
        using C1 kp(2) by (simp add: v1_def core_inv_def)
      show "w_again (v1\<lparr>w_m := m2, w_dctx := d2\<rparr>) \<and> dStage (w_dctx (v1\<lparr>w_m := m2, w_dctx := d2\<rparr>)) \<noteq> dstage_getHeader \<and> loop_measure k (v1\<lparr>w_m := m2, w_dctx := d2\<rparr>) < loop_measure k v \<or>
          \<not> w_again (v1\<lparr>w_m := m2, w_dctx := d2\<rparr>) \<and> \<not> transient (dStage (w_dctx (v1\<lparr>w_m := m2, w_dctx := d2\<rparr>))) \<and> stop_inv k (v1\<lparr>w_m := m2, w_dctx := d2\<rparr>)"
        using A c n R by (auto simp: v1_def header_result_def intro!: measure_consumed)
      have "tmpInTarget ?d = 7" if "dStage d2 = dstage_storeSFrameSize" using that R mg by (auto simp: header_result_def)
      then show "stage_inv k K (w_m (v1\<lparr>w_m := m2, w_dctx := d2\<rparr>)) (w_dctx (v1\<lparr>w_m := m2, w_dctx := d2\<rparr>))
          (w_dstPtr (v1\<lparr>w_m := m2, w_dctx := d2\<rparr>)) (selectedIn (v1\<lparr>w_m := m2, w_dctx := d2\<rparr>)) (dStage (w_dctx (v1\<lparr>w_m := m2, w_dctx := d2\<rparr>)))"
        using R t kp(2) by (auto simp: header_result_def intro: ready_dict0)
    qed (use kp n in \<open>auto simp: v1_def\<close>)
    then have "step_post k K v (if LZ4F_isError ?a r then Some r else None, v1\<lparr>w_m := m2, w_dctx := d2\<rparr>)"
      using dh(2) kp by (auto simp: step_post_def header_post_def)
    with False dh(1) show ?thesis unfolding LZ4F_stage_storeHeader_def Let_def c(1) by (simp add: v1_def split: if_splits)
  qed
qed

lemma stage_getHeader_ok:
  assumes I: "loop_inv k K v" and S: "dStage (w_dctx v) = dstage_getHeader" and A: "w_again v"
  shows "ok (step_post k K v) (LZ4F_stage_getHeader k v)"
proof -
  let ?d = "w_dctx v" and ?a = "env_arch (w_env k)" and ?h = "x_header (w_dctx v)"
  have C: "core_inv k K (w_m v) ?d (w_srcPtr v) (w_dstPtr v)" using I by (simp add: loop_inv_def)
  show ?thesis
  proof (cases "w_srcEnd k - w_srcPtr v \<ge> 15")
    case False
    define v0 where "v0 = v\<lparr>w_dctx := ?d\<lparr>x_tmpInSize := 0, tmpInTarget := minFHSize, dStage := dstage_storeHeader\<rparr>\<rparr>"
    have "core_inv k K (w_m v0) (w_dctx v0) (w_srcPtr v0) (w_dstPtr v0)"
      unfolding v0_def by (auto intro: core_same [OF C])
    moreover have "stage_inv k K (w_m v0) (w_dctx v0) (w_dstPtr v0) (selectedIn v0) dstage_storeHeader"
      using I S A False by (simp add: v0_def loop_inv_def)
    ultimately have "ok (step_post k K v0) (LZ4F_stage_storeHeader k v0)"
      by (intro stage_storeHeader_ok) (simp_all add: v0_def A)
    from step_post_from [OF _ _ _ _ _ this] show ?thesis
      using False S core_bounds [OF C] by (simp add: LZ4F_stage_getHeader_def v0_def)
  next
    case True
    let ?n = "w_srcEnd k - w_srcPtr v"
    have K: "call_inv k K ?h" "K \<subseteq> dom (w_m v)" "w_srcPtr v \<noteq> ?h" using C True by (auto simp: core_inv_def)
    have "ok (header_post ?a K (w_m v) ?d (w_srcPtr v) ?n) (LZ4F_decodeHeader (w_env k) (w_m v) ?d (w_srcPtr v) ?n)"
      using C core_mapped(1) [OF C] True unfolding core_inv_def call_inv_def by (intro decodeHeader_ok) auto
    then obtain r m2 d2 where dh: "LZ4F_decodeHeader (w_env k) (w_m v) ?d (w_srcPtr v) ?n = Some (r, m2, d2)"
      "header_post ?a K (w_m v) ?d (w_srcPtr v) ?n (r, m2, d2)" by (auto dest!: okD)
    have kp: "kept K (written k ?h) (w_m v) m2" "x_header d2 = ?h"
      using dh(2) by (auto simp: header_post_def written_def intro: kept_mono)
    have "step_post k K v (None, v\<lparr>w_m := m2, w_dctx := d2, w_srcPtr := w_srcPtr v + r\<rparr>)"
      if R: "header_result ?a K (w_m v) ?d (w_srcPtr v) ?n r m2 d2"
    proof -
      have r: "0 < r" "r \<le> ?n" using R K(3) True by (auto simp: header_result_def)
      have "K \<subseteq> dom m2" using kept_dom [OF kp(1) K(2)] .
      moreover have "alloc_ok ?a K m2 d2" "length (mem32 (x_xxh d2)) = 16" using R by (simp_all add: header_result_def)
      ultimately have "core_inv k K m2 (d2\<lparr>dStage := dStage d2\<rparr>) (w_srcPtr v) (w_dstPtr v)"
        using C kp(2) by (simp add: core_inv_def)
      then have "core_inv k K m2 d2 (w_srcPtr v + r) (w_dstPtr v)"
        by (rule core_step) (use r C in \<open>auto simp: core_inv_def\<close>, use R in \<open>auto simp: header_result_def\<close>)
      with kp R r K(3) True A show ?thesis
        by (intro step_postI) (auto simp: header_result_def intro: ready_dict0 intro!: measure_consumed)
    qed
    then have "step_post k K v (if LZ4F_isError ?a r then (Some r, v\<lparr>w_m := m2, w_dctx := d2\<rparr>) else (None, v\<lparr>w_m := m2, w_dctx := d2, w_srcPtr := w_srcPtr v + r\<rparr>))"
      using dh(2) kp by (auto simp: step_post_def header_post_def)
    with True dh(1) show ?thesis by (simp add: LZ4F_stage_getHeader_def split: if_splits)
  qed
qed

section \<open>Block sizes, input of blocks, suffix and skippable frames\<close>

text \<open>The fields that a stage changes without touching the buffers.\<close>

lemma inv_updates [simp]:
  "frame_ready a K m (d\<lparr>dStage := s\<rparr>) = frame_ready a K m d" "frame_ready a K m (d\<lparr>tmpInTarget := n\<rparr>) = frame_ready a K m d"
  "frame_ready a K m (d\<lparr>x_tmpInSize := n\<rparr>) = frame_ready a K m d"
  "dict_inv lo hi (d\<lparr>dStage := s\<rparr>) = dict_inv lo hi d" "dict_inv lo hi (d\<lparr>tmpInTarget := n\<rparr>) = dict_inv lo hi d"
  "dict_inv lo hi (d\<lparr>x_tmpInSize := n\<rparr>) = dict_inv lo hi d"
  "core_inv k K m (d\<lparr>dStage := s\<rparr>) sp dp = core_inv k K m d sp dp" "core_inv k K m (d\<lparr>tmpInTarget := n\<rparr>) sp dp = core_inv k K m d sp dp"
  "core_inv k K m (d\<lparr>x_tmpInSize := n\<rparr>) sp dp = core_inv k K m d sp dp"
  "core_inv k K m (d\<lparr>x_frameInfo := i\<rparr>) sp dp = core_inv k K m d sp dp"
  by (simp_all add: frame_ready_def bufs_ok_def dict_inv_def core_inv_def alloc_ok_def)

lemma goto_simps [simp]:
  "w_m (LZ4F_goto v s) = w_m v" "w_srcPtr (LZ4F_goto v s) = w_srcPtr v" "w_dstPtr (LZ4F_goto v s) = w_dstPtr v"
  "selectedIn (LZ4F_goto v s) = selectedIn v" "w_again (LZ4F_goto v s) = w_again v" "w_dctx (LZ4F_goto v s) = (w_dctx v)\<lparr>dStage := s\<rparr>"
  by (simp_all add: LZ4F_goto_def)

lemma stop_post: "ok (step_post k K v) (LZ4F_stop v' h) = step_post k K v (None, v'\<lparr>w_hint := h, w_again := False\<rparr>)"
  by (simp add: LZ4F_stop_def)

lemma decodeCBlockSize_ok:
  assumes C: "core_inv k K (w_m v) (w_dctx v) (w_srcPtr v) (w_dstPtr v)" and R: "frame_ready (env_arch (w_env k)) K (w_m v) (w_dctx v)"
    and D: "dict_inv (w_dstStart k) (w_dstPtr v) (w_dctx v)" and M: "mapped (w_m v) (selectedIn v) (selectedIn v + 4)" and A: "w_again v"
    and kp: "kept K (written k (x_header (w_dctx v0))) (w_m v0) (w_m v)" "x_header (w_dctx v) = x_header (w_dctx v0)" "w_srcPtr v0 < w_srcPtr v"
  shows "ok (step_post k K v0) (LZ4F_stage_decodeCBlockSize k v)"
proof -
  obtain h where h: "LZ4F_readLE32 (w_m v) (selectedIn v) = Some h" "0 \<le> h" "h < 4294967296"
    using LZ4F_readLE32_ok [OF M] by (auto dest: okD)
  define n where "n = h mod 2147483648"
  have n: "0 \<le> n" by (simp add: n_def)
  have lt: "loop_measure k v' < loop_measure k v0" if "w_srcPtr v' = w_srcPtr v" for v'
    by (rule measure_consumed) (use that kp core_bounds [OF C] in auto)
  consider "n = 0" | "n \<noteq> 0" "n > x_maxBlockSize (w_dctx v)" | "n \<noteq> 0" "n \<le> x_maxBlockSize (w_dctx v)" by linarith
  then show ?thesis
  proof cases
    case 1
    then show ?thesis unfolding LZ4F_stage_decodeCBlockSize_def
      using h C R A kp by (auto simp: n_def intro!: step_postI lt)
  next
    case 2
    then show ?thesis unfolding LZ4F_stage_decodeCBlockSize_def
      using h kp by (auto simp: n_def intro!: step_post_error)
  next
    case 3
    then show ?thesis unfolding LZ4F_stage_decodeCBlockSize_def
      using h n C R D A kp by (auto simp: n_def [symmetric] Let_def stop_post transient_def stop_inv_def intro!: step_postI lt)
  qed
qed

text \<open>Collecting into \<open>tmpIn\<close>.\<close>

lemma collect_tmp:
  assumes C: "core_inv k K (w_m v) (w_dctx v) (w_srcPtr v) (w_dstPtr v)" and R: "frame_ready (env_arch (w_env k)) K (w_m v) (w_dctx v)"
    and t: "0 \<le> x_tmpInSize (w_dctx v)" "x_tmpInSize (w_dctx v) < target" "target \<le> x_maxBlockSize (w_dctx v)"
  obtains n m1 where
    "LZ4F_collect k v (x_tmpIn (w_dctx v)) target = Some (v\<lparr>w_m := m1, w_srcPtr := w_srcPtr v + n, w_dctx := (w_dctx v)\<lparr>x_tmpInSize := x_tmpInSize (w_dctx v) + n\<rparr>\<rparr>)"
    "0 \<le> n" "w_srcPtr v + n \<le> w_srcEnd k" "x_tmpInSize (w_dctx v) + n \<le> target"
    "x_tmpInSize (w_dctx v) + n < target \<longrightarrow> w_srcPtr v + n = w_srcEnd k" "kept K (written k (x_header (w_dctx v))) (w_m v) m1"
    "core_inv k K m1 (w_dctx v) (w_srcPtr v + n) (w_dstPtr v)" "frame_ready (env_arch (w_env k)) K m1 (w_dctx v)"
    "region (env_arch (w_env k)) K m1 (x_tmpIn (w_dctx v)) (x_maxBlockSize (w_dctx v))"
proof -
  let ?d = "w_dctx v" and ?W = "written k (x_header (w_dctx v))"
  note B = ready_bufs [OF R]
  have buf: "mapped (w_m v) (x_tmpIn ?d) (x_tmpIn ?d + target)" "{x_tmpIn ?d..<x_tmpIn ?d + target} \<inter> K \<subseteq> ?W"
    using region_mono [OF B(1) t(3)] region_kept [OF B(1) order_refl, of "x_tmpIn ?d + target"] t(3) by (auto simp: region_def)
  obtain n m1 where c: "LZ4F_collect k v (x_tmpIn ?d) target = Some (v\<lparr>w_m := m1, w_srcPtr := w_srcPtr v + n, w_dctx := ?d\<lparr>x_tmpInSize := x_tmpInSize ?d + n\<rparr>\<rparr>)"
    "0 \<le> n" "w_srcPtr v + n \<le> w_srcEnd k" "x_tmpInSize ?d + n \<le> target" "x_tmpInSize ?d + n < target \<longrightarrow> w_srcPtr v + n = w_srcEnd k" "dom m1 = dom (w_m v)" "kept K ?W (w_m v) m1"
    by (rule collect_ok [OF C t(1,2) _ buf]) (use B(4) t in auto)
  have "core_inv k K m1 ?d (w_srcPtr v + n) (w_dstPtr v)"
    by (rule core_step [OF C c(6)]) (use c core_bounds [OF C] in auto)
  moreover have R1: "frame_ready (env_arch (w_env k)) K m1 ?d" using R ready_cong [OF c(6)] by blast
  ultimately show ?thesis using c ready_bufs(1) [OF R1] by (intro that) auto
qed

lemma stage_storeCBlockSize_ok:
  assumes C: "core_inv k K (w_m v) (w_dctx v) (w_srcPtr v) (w_dstPtr v)" and S: "dStage (w_dctx v) = dstage_storeCBlockSize"
    "stage_inv k K (w_m v) (w_dctx v) (w_dstPtr v) (selectedIn v) dstage_storeCBlockSize" and A: "w_again v"
  shows "ok (step_post k K v) (LZ4F_stage_storeCBlockSize k v)"
proof -
  let ?d = "w_dctx v" and ?W = "written k (x_header (w_dctx v))" and ?a = "env_arch (w_env k)"
  have R: "frame_ready ?a K (w_m v) ?d" and D: "dict_inv (w_dstStart k) (w_dstPtr v) ?d"
    and t: "0 \<le> x_tmpInSize ?d" "x_tmpInSize ?d < 4" using S by auto
  obtain n m1 where c: "LZ4F_collect k v (x_tmpIn ?d) 4 = Some (v\<lparr>w_m := m1, w_srcPtr := w_srcPtr v + n, w_dctx := ?d\<lparr>x_tmpInSize := x_tmpInSize ?d + n\<rparr>\<rparr>)"
    "0 \<le> n" "w_srcPtr v + n \<le> w_srcEnd k" "x_tmpInSize ?d + n \<le> 4" "x_tmpInSize ?d + n < 4 \<longrightarrow> w_srcPtr v + n = w_srcEnd k" "kept K ?W (w_m v) m1"
    and C1: "core_inv k K m1 ?d (w_srcPtr v + n) (w_dstPtr v)" and R1: "frame_ready ?a K m1 ?d" and T: "region ?a K m1 (x_tmpIn ?d) (x_maxBlockSize ?d)"
    by (rule collect_tmp [OF C R t]) (use ready_bufs(3) [OF R] in auto)
  show ?thesis
  proof (cases "x_tmpInSize ?d + n < 4")
    case True
    then show ?thesis unfolding LZ4F_stage_storeCBlockSize_def
      using S t c C1 R1 D by (auto simp: stop_post transient_def stop_inv_def intro!: step_postI)
  next
    case False
    have m1: "mapped m1 (x_tmpIn ?d) (x_tmpIn ?d + 4)" using region_mono [OF T, of 4] ready_bufs(3) [OF R] by (simp add: region_def)
    have "ok (step_post k K v) (LZ4F_stage_decodeCBlockSize k (v\<lparr>w_m := m1, w_srcPtr := w_srcPtr v + n, w_dctx := ?d\<lparr>x_tmpInSize := x_tmpInSize ?d + n\<rparr>, selectedIn := x_tmpIn ?d\<rparr>))"
      by (rule decodeCBlockSize_ok) (use C1 R1 D m1 A c t False in auto)
    with False show ?thesis by (simp add: LZ4F_stage_storeCBlockSize_def c(1))
  qed
qed

lemma stage_getCBlockSize_ok:
  assumes C: "core_inv k K (w_m v) (w_dctx v) (w_srcPtr v) (w_dstPtr v)" and S: "dStage (w_dctx v) = dstage_getCBlockSize"
    "stage_inv k K (w_m v) (w_dctx v) (w_dstPtr v) (selectedIn v) dstage_getCBlockSize" and A: "w_again v"
  shows "ok (step_post k K v) (LZ4F_stage_getCBlockSize k v)"
proof (cases "w_srcEnd k - w_srcPtr v \<ge> 4")
  case True
  have "mapped (w_m v) (w_srcPtr v) (w_srcPtr v + 4)" by (rule mapped_mono [OF core_mapped(1) [OF C]]) (use True in auto)
  moreover have "core_inv k K (w_m v) (w_dctx v) (w_srcPtr v + 4) (w_dstPtr v)"
    by (rule core_step [OF C refl]) (use True core_bounds [OF C] in auto)
  ultimately have "ok (step_post k K v) (LZ4F_stage_decodeCBlockSize k (v\<lparr>selectedIn := w_srcPtr v, w_srcPtr := w_srcPtr v + 4\<rparr>))"
    by (intro decodeCBlockSize_ok) (use S A in auto)
  with True show ?thesis by (simp add: LZ4F_stage_getCBlockSize_def)
next
  case False
  define v0 where "v0 = v\<lparr>w_dctx := (w_dctx v)\<lparr>x_tmpInSize := 0, dStage := dstage_storeCBlockSize\<rparr>\<rparr>"
  have "ok (step_post k K v0) (LZ4F_stage_storeCBlockSize k v0)"
    by (rule stage_storeCBlockSize_ok) (use C S A in \<open>auto simp: v0_def\<close>)
  from step_post_from [OF _ _ _ _ _ this] show ?thesis
    using False S core_bounds [OF C] by (simp add: LZ4F_stage_getCBlockSize_def v0_def)
qed

lemma stage_getCBlock_ok:
  assumes C: "core_inv k K (w_m v) (w_dctx v) (w_srcPtr v) (w_dstPtr v)" and S: "dStage (w_dctx v) = dstage_getCBlock"
    "stage_inv k K (w_m v) (w_dctx v) (w_dstPtr v) (selectedIn v) dstage_getCBlock" and A: "w_again v"
  shows "ok (step_post k K v) (LZ4F_stage_getCBlock k v)"
proof (cases "w_srcEnd k - w_srcPtr v < tmpInTarget (w_dctx v)")
  case True
  then show ?thesis using C S A core_bounds [OF C]
    by (auto simp: LZ4F_stage_getCBlock_def intro!: step_postI measure_rank)
next
  case False
  let ?t = "tmpInTarget (w_dctx v)"
  have t: "0 < ?t" using S by simp
  have C1: "core_inv k K (w_m v) (w_dctx v) (w_srcPtr v + ?t) (w_dstPtr v)"
    by (rule core_step [OF C refl]) (use False t core_bounds [OF C] in auto)
  have "mapped (w_m v) (w_srcPtr v) (w_srcPtr v + max ?t 2)"
    by (rule mapped_mono [OF core_mapped(2) [OF C]]) (use False t in auto)
  then have "input_inv (env_arch (w_env k)) (w_m v) (w_srcPtr v) ?t"
    using False core_bounds [OF C] by (auto simp: input_inv_def low_def)
  with C1 False S A core_bounds [OF C1] show ?thesis
    by (auto simp: LZ4F_stage_getCBlock_def intro!: step_postI measure_consumed)
qed

lemma stage_storeCBlock_ok:
  assumes C: "core_inv k K (w_m v) (w_dctx v) (w_srcPtr v) (w_dstPtr v)" and S: "dStage (w_dctx v) = dstage_storeCBlock"
    "stage_inv k K (w_m v) (w_dctx v) (w_dstPtr v) (selectedIn v) dstage_storeCBlock" and A: "w_again v"
  shows "ok (step_post k K v) (LZ4F_stage_storeCBlock k v)"
proof -
  let ?d = "w_dctx v" and ?W = "written k (x_header (w_dctx v))" and ?a = "env_arch (w_env k)" and ?t = "tmpInTarget (w_dctx v)"
  have R: "frame_ready ?a K (w_m v) ?d" and D: "dict_inv (w_dstStart k) (w_dstPtr v) ?d"
    and t: "0 \<le> x_tmpInSize ?d" "x_tmpInSize ?d < ?t" "0 < ?t" "?t \<le> x_maxBlockSize ?d" using S by auto
  obtain n m1 where c: "LZ4F_collect k v (x_tmpIn ?d) ?t = Some (v\<lparr>w_m := m1, w_srcPtr := w_srcPtr v + n, w_dctx := ?d\<lparr>x_tmpInSize := x_tmpInSize ?d + n\<rparr>\<rparr>)"
    "0 \<le> n" "w_srcPtr v + n \<le> w_srcEnd k" "x_tmpInSize ?d + n \<le> ?t" "x_tmpInSize ?d + n < ?t \<longrightarrow> w_srcPtr v + n = w_srcEnd k" "kept K ?W (w_m v) m1"
    and C1: "core_inv k K m1 ?d (w_srcPtr v + n) (w_dstPtr v)" and R1: "frame_ready ?a K m1 ?d" and T: "region ?a K m1 (x_tmpIn ?d) (x_maxBlockSize ?d)"
    by (rule collect_tmp [OF C R t(1,2,4)])
  have "region ?a K m1 (x_tmpIn ?d) (max ?t 2)"
    by (rule region_mono [OF T]) (use t ready_bufs(3) [OF R] in auto)
  then have I1: "input_inv ?a m1 (x_tmpIn ?d) ?t" unfolding input_inv_def region_def low_def by auto
  show ?thesis
  proof (cases "x_tmpInSize ?d + n < ?t")
    case True
    then show ?thesis unfolding LZ4F_stage_storeCBlock_def
      using S t c C1 R1 D by (auto simp: stop_post transient_def stop_inv_def intro!: step_postI)
  next
    case False
    then show ?thesis unfolding LZ4F_stage_storeCBlock_def
      using S t c C1 R1 D A I1 by (auto intro!: step_postI measure_rank)
  qed
qed

lemma stage_decodeCBlock_ok:
  assumes C: "core_inv k K (w_m v) (w_dctx v) (w_srcPtr v) (w_dstPtr v)" and S: "dStage (w_dctx v) = dstage_decodeCBlock"
    "stage_inv k K (w_m v) (w_dctx v) (w_dstPtr v) (selectedIn v) dstage_decodeCBlock" and A: "w_again v"
  shows "ok (step_post k K v) (LZ4F_stage_decodeCBlock k v)"
  using assms core_bounds [OF C] by (auto simp: LZ4F_stage_decodeCBlock_def intro!: step_postI measure_rank)

text \<open>Suffix.\<close>

lemma checkSuffix_ok:
  assumes C: "core_inv k K (w_m v) (w_dctx v) (w_srcPtr v) (w_dstPtr v)" and R: "frame_ready (env_arch (w_env k)) K (w_m v) (w_dctx v)"
    and X: "contentChecksumFlag (x_frameInfo (w_dctx v)) \<noteq> 0" and M: "mapped (w_m v) (selectedIn v) (selectedIn v + 4)"
    and kp: "kept K (written k (x_header (w_dctx v0))) (w_m v0) (w_m v)" "x_header (w_dctx v) = x_header (w_dctx v0)" "w_srcPtr v0 \<le> w_srcPtr v"
  shows "ok (step_post k K v0) (LZ4F_stage_checkSuffix k v)"
proof -
  obtain h where h: "LZ4F_readLE32 (w_m v) (selectedIn v) = Some h" using LZ4F_readLE32_ok [OF M] by (auto dest: okD)
  obtain xs where "xxh32_repr 0 (x_xxh (w_dctx v)) xs" using R X by (auto simp: frame_ready_def)
  with XXH32_digest_total obtain c where c: "XXH32_digest (env_arch (w_env k)) (x_xxh (w_dctx v)) = Some c" by blast
  show ?thesis unfolding LZ4F_stage_checkSuffix_def
    using h c C kp by (auto simp: stop_post transient_def stop_inv_def intro!: step_postI step_post_error)
qed

lemma stage_storeSuffix_ok:
  assumes C: "core_inv k K (w_m v) (w_dctx v) (w_srcPtr v) (w_dstPtr v)" and S: "dStage (w_dctx v) = dstage_storeSuffix"
    "stage_inv k K (w_m v) (w_dctx v) (w_dstPtr v) (selectedIn v) dstage_storeSuffix"
  shows "ok (step_post k K v) (LZ4F_stage_storeSuffix k v)"
proof -
  let ?d = "w_dctx v" and ?W = "written k (x_header (w_dctx v))" and ?a = "env_arch (w_env k)"
  have R: "frame_ready ?a K (w_m v) ?d" and t: "0 \<le> x_tmpInSize ?d" "x_tmpInSize ?d < 4" and X: "contentChecksumFlag (x_frameInfo ?d) \<noteq> 0" using S by auto
  obtain n m1 where c: "LZ4F_collect k v (x_tmpIn ?d) 4 = Some (v\<lparr>w_m := m1, w_srcPtr := w_srcPtr v + n, w_dctx := ?d\<lparr>x_tmpInSize := x_tmpInSize ?d + n\<rparr>\<rparr>)"
    "0 \<le> n" "w_srcPtr v + n \<le> w_srcEnd k" "x_tmpInSize ?d + n \<le> 4" "x_tmpInSize ?d + n < 4 \<longrightarrow> w_srcPtr v + n = w_srcEnd k" "kept K ?W (w_m v) m1"
    and C1: "core_inv k K m1 ?d (w_srcPtr v + n) (w_dstPtr v)" and R1: "frame_ready ?a K m1 ?d" and T: "region ?a K m1 (x_tmpIn ?d) (x_maxBlockSize ?d)"
    by (rule collect_tmp [OF C R t]) (use ready_bufs(3) [OF R] in auto)
  show ?thesis
  proof (cases "x_tmpInSize ?d + n < 4")
    case True
    then show ?thesis unfolding LZ4F_stage_storeSuffix_def
      using S t c C1 R1 by (auto simp: stop_post transient_def stop_inv_def intro!: step_postI)
  next
    case False
    have m1: "mapped m1 (x_tmpIn ?d) (x_tmpIn ?d + 4)" using region_mono [OF T, of 4] ready_bufs(3) [OF R] by (simp add: region_def)
    have "ok (step_post k K v) (LZ4F_stage_checkSuffix k (v\<lparr>w_m := m1, w_srcPtr := w_srcPtr v + n, w_dctx := ?d\<lparr>x_tmpInSize := x_tmpInSize ?d + n\<rparr>, selectedIn := x_tmpIn ?d\<rparr>))"
      by (rule checkSuffix_ok) (use C1 R1 m1 c X in auto)
    with False show ?thesis by (simp add: LZ4F_stage_storeSuffix_def c(1))
  qed
qed

lemma stage_getSuffix_ok:
  assumes C: "core_inv k K (w_m v) (w_dctx v) (w_srcPtr v) (w_dstPtr v)" and S: "dStage (w_dctx v) = dstage_getSuffix"
    "stage_inv k K (w_m v) (w_dctx v) (w_dstPtr v) (selectedIn v) dstage_getSuffix"
  shows "ok (step_post k K v) (LZ4F_stage_getSuffix k v)"
proof -
  let ?d = "w_dctx v"
  consider "frameRemainingSize ?d \<noteq> 0" | "frameRemainingSize ?d = 0" "contentChecksumFlag (x_frameInfo ?d) = 0"
    | "frameRemainingSize ?d = 0" "contentChecksumFlag (x_frameInfo ?d) \<noteq> 0" "w_srcEnd k - w_srcPtr v < 4"
    | "frameRemainingSize ?d = 0" "contentChecksumFlag (x_frameInfo ?d) \<noteq> 0" "\<not> w_srcEnd k - w_srcPtr v < 4" by blast
  then show ?thesis
  proof cases
    case 1
    then show ?thesis by (auto simp: LZ4F_stage_getSuffix_def intro!: step_post_error)
  next
    case 2
    then show ?thesis using C by (auto simp: LZ4F_stage_getSuffix_def stop_post transient_def stop_inv_def intro!: step_postI)
  next
    case 3
    define v0 where "v0 = v\<lparr>w_dctx := ?d\<lparr>x_tmpInSize := 0, dStage := dstage_storeSuffix\<rparr>\<rparr>"
    have "ok (step_post k K v0) (LZ4F_stage_storeSuffix k v0)"
      by (rule stage_storeSuffix_ok) (use C S 3 in \<open>auto simp: v0_def\<close>)
    from step_post_from [OF _ _ _ _ _ this] show ?thesis
      using 3 S core_bounds [OF C] by (simp add: LZ4F_stage_getSuffix_def v0_def)
  next
    case 4
    have "mapped (w_m v) (w_srcPtr v) (w_srcPtr v + 4)" by (rule mapped_mono [OF core_mapped(1) [OF C]]) (use 4 in auto)
    moreover have "core_inv k K (w_m v) ?d (w_srcPtr v + 4) (w_dstPtr v)"
      by (rule core_step [OF C refl]) (use 4 core_bounds [OF C] in auto)
    ultimately have "ok (step_post k K v) (LZ4F_stage_checkSuffix k (v\<lparr>selectedIn := w_srcPtr v, w_srcPtr := w_srcPtr v + 4\<rparr>))"
      by (intro checkSuffix_ok) (use S 4 in auto)
    with 4 show ?thesis by (simp add: LZ4F_stage_getSuffix_def)
  qed
qed

text \<open>Skippable frames.\<close>

lemma decodeSFrameSize_ok:
  assumes C: "core_inv k K (w_m v) (w_dctx v) (w_srcPtr v) (w_dstPtr v)" and M: "mapped (w_m v) (selectedIn v) (selectedIn v + 4)" and A: "w_again v"
    and kp: "kept K (written k (x_header (w_dctx v0))) (w_m v0) (w_m v)" "x_header (w_dctx v) = x_header (w_dctx v0)" "w_srcPtr v0 < w_srcPtr v"
  shows "ok (step_post k K v0) (LZ4F_stage_decodeSFrameSize k v)"
proof -
  obtain h where h: "LZ4F_readLE32 (w_m v) (selectedIn v) = Some h" "0 \<le> h" using LZ4F_readLE32_ok [OF M] by (auto dest: okD)
  show ?thesis unfolding LZ4F_stage_decodeSFrameSize_def Let_def
    using h C kp A core_bounds [OF C] by (auto intro!: step_postI measure_consumed)
qed

lemma stage_storeSFrameSize_ok:
  assumes C: "core_inv k K (w_m v) (w_dctx v) (w_srcPtr v) (w_dstPtr v)" and S: "dStage (w_dctx v) = dstage_storeSFrameSize"
    "stage_inv k K (w_m v) (w_dctx v) (w_dstPtr v) (selectedIn v) dstage_storeSFrameSize" and A: "w_again v"
  shows "ok (step_post k K v) (LZ4F_stage_storeSFrameSize k v)"
proof -
  let ?d = "w_dctx v" and ?h = "x_header (w_dctx v)"
  have t: "0 \<le> x_tmpInSize ?d" "x_tmpInSize ?d < tmpInTarget ?d" "tmpInTarget ?d = 8" "4 \<le> x_tmpInSize ?d" using S by auto
  have buf: "mapped (w_m v) ?h (?h + tmpInTarget ?d)" "{?h..<?h + tmpInTarget ?d} \<inter> K \<subseteq> written k ?h"
    by (rule mapped_mono [OF core_mapped(4) [OF C]]) (use t in \<open>auto simp: written_def\<close>)
  obtain n m1 where c: "LZ4F_collect k v ?h (tmpInTarget ?d) = Some (v\<lparr>w_m := m1, w_srcPtr := w_srcPtr v + n, w_dctx := ?d\<lparr>x_tmpInSize := x_tmpInSize ?d + n\<rparr>\<rparr>)"
    "0 \<le> n" "w_srcPtr v + n \<le> w_srcEnd k" "x_tmpInSize ?d + n \<le> tmpInTarget ?d"
    "x_tmpInSize ?d + n < tmpInTarget ?d \<longrightarrow> w_srcPtr v + n = w_srcEnd k" "dom m1 = dom (w_m v)" "kept K (written k ?h) (w_m v) m1"
    by (rule collect_ok [OF C t(1,2) _ buf]) (use t in auto)
  have C1: "core_inv k K m1 ?d (w_srcPtr v + n) (w_dstPtr v)"
    by (rule core_step [OF C c(6)]) (use c core_bounds [OF C] in auto)
  show ?thesis
  proof (cases "x_tmpInSize ?d + n < tmpInTarget ?d")
    case True
    then show ?thesis unfolding LZ4F_stage_storeSFrameSize_def
      using S t c C1 by (auto simp: stop_post transient_def stop_inv_def intro!: step_postI)
  next
    case False
    have m1: "mapped m1 (?h + 4) (?h + 4 + 4)" using core_mapped(4) [OF C1] by (rule mapped_mono) auto
    have "ok (step_post k K v) (LZ4F_stage_decodeSFrameSize k (v\<lparr>w_m := m1, w_srcPtr := w_srcPtr v + n, w_dctx := ?d\<lparr>x_tmpInSize := x_tmpInSize ?d + n\<rparr>, selectedIn := ?h + 4\<rparr>))"
      by (rule decodeSFrameSize_ok) (use C1 m1 A c t False in auto)
    with False show ?thesis by (simp add: LZ4F_stage_storeSFrameSize_def c(1))
  qed
qed

lemma stage_getSFrameSize_ok:
  assumes C: "core_inv k K (w_m v) (w_dctx v) (w_srcPtr v) (w_dstPtr v)" and S: "dStage (w_dctx v) = dstage_getSFrameSize" and A: "w_again v"
  shows "ok (step_post k K v) (LZ4F_stage_getSFrameSize k v)"
proof (cases "w_srcEnd k - w_srcPtr v \<ge> 4")
  case True
  have "mapped (w_m v) (w_srcPtr v) (w_srcPtr v + 4)" by (rule mapped_mono [OF core_mapped(1) [OF C]]) (use True in auto)
  moreover have "core_inv k K (w_m v) (w_dctx v) (w_srcPtr v + 4) (w_dstPtr v)"
    by (rule core_step [OF C refl]) (use True core_bounds [OF C] in auto)
  ultimately have "ok (step_post k K v) (LZ4F_stage_decodeSFrameSize k (v\<lparr>selectedIn := w_srcPtr v, w_srcPtr := w_srcPtr v + 4\<rparr>))"
    by (intro decodeSFrameSize_ok) (use A in auto)
  with True show ?thesis by (simp add: LZ4F_stage_getSFrameSize_def)
next
  case False
  define v0 where "v0 = v\<lparr>w_dctx := (w_dctx v)\<lparr>x_tmpInSize := 4, tmpInTarget := 8, dStage := dstage_storeSFrameSize\<rparr>\<rparr>"
  have "ok (step_post k K v0) (LZ4F_stage_storeSFrameSize k v0)"
    by (rule stage_storeSFrameSize_ok) (use C S A in \<open>auto simp: v0_def\<close>)
  from step_post_from [OF _ _ _ _ _ this] show ?thesis
    using False S core_bounds [OF C] by (simp add: LZ4F_stage_getSFrameSize_def v0_def)
qed

lemma stage_skipSkippable_ok:
  assumes C: "core_inv k K (w_m v) (w_dctx v) (w_srcPtr v) (w_dstPtr v)" and S: "dStage (w_dctx v) = dstage_skipSkippable"
    "stage_inv k K (w_m v) (w_dctx v) (w_dstPtr v) (selectedIn v) dstage_skipSkippable"
  shows "ok (step_post k K v) (LZ4F_stage_skipSkippable k v)"
proof -
  let ?n = "min (tmpInTarget (w_dctx v)) (w_srcEnd k - w_srcPtr v)"
  have "core_inv k K (w_m v) (w_dctx v) (w_srcPtr v + ?n) (w_dstPtr v)"
    by (rule core_step [OF C refl]) (use S core_bounds [OF C] in auto)
  then show ?thesis using S core_bounds [OF C]
    by (auto simp: LZ4F_stage_skipSkippable_def Let_def stop_post transient_def stop_inv_def min_def not_less split: if_splits intro!: step_postI)
qed

section \<open>Content and dictionary\<close>

lemma content_ok:
  assumes R: "frame_ready a K m d" and M: "mapped m p (p + n)" and n: "0 \<le> n" "n < 2147483648" and l: "length (mem32 (x_xxh d)) = 16"
  obtains s r where "LZ4F_content a m d p n = Some (d\<lparr>x_xxh := s, frameRemainingSize := r\<rparr>)" "length (mem32 s) = 16"
    "contentChecksumFlag (x_frameInfo d) \<noteq> 0 \<longrightarrow> (\<exists>xs. xxh32_repr 0 s xs)"
proof -
  define fr where "fr = (if contentSize (x_frameInfo d) \<noteq> 0 then (frameRemainingSize d - n) mod 2 ^ 64 else frameRemainingSize d)"
  have "\<exists>s. LZ4F_content a m d p n = Some (d\<lparr>x_xxh := s, frameRemainingSize := fr\<rparr>) \<and> length (mem32 s) = 16 \<and>
            (contentChecksumFlag (x_frameInfo d) \<noteq> 0 \<longrightarrow> (\<exists>xs. xxh32_repr 0 s xs))"
  proof (cases "contentChecksumFlag (x_frameInfo d) = 0")
    case True
    then show ?thesis using l by (intro exI [of _ "x_xxh d"]) (simp add: LZ4F_content_def fr_def)
  next
    case False
    with R obtain xs where xs: "xxh32_repr 0 (x_xxh d) xs" by (auto simp: frame_ready_def)
    from M n have "mapped m p (p + int (nat n))" by simp
    from okD [OF load_bytes_ok [OF this]] obtain bs where bs: "length bs = nat n" "bytes_at m p bs" by blast
    have "int (length bs) + 16 \<le> size_mod a" using bs n size_mod_ge [of a] by simp
    from okD [OF XXH32_update_ok [OF xs bs(2) this]] bs(1) n(1) obtain c s where
      s: "XXH32_update a m (x_xxh d) p n = Some (c, s)" "xxh32_repr 0 s (xs @ bs)" by auto
    then have "length (mem32 s) = 16" by (simp add: xxh32_repr_def)
    with s False show ?thesis by (intro exI [of _ s]) (auto simp: LZ4F_content_def fr_def)
  qed
  then show ?thesis using that by blast
qed

lemma ready_content:
  "frame_ready a K m d \<Longrightarrow> (contentChecksumFlag (x_frameInfo d) \<noteq> 0 \<longrightarrow> (\<exists>xs. xxh32_repr 0 s xs)) \<Longrightarrow>
   frame_ready a K m (d\<lparr>x_xxh := s, frameRemainingSize := r\<rparr>)"
  by (simp add: frame_ready_def bufs_ok_def)

lemma dict_updates [simp]:
  "dict_inv lo hi (d\<lparr>x_xxh := s\<rparr>) = dict_inv lo hi d" "dict_inv lo hi (d\<lparr>frameRemainingSize := r\<rparr>) = dict_inv lo hi d"
  "dict_inv lo hi (d\<lparr>tmpOutSize := n\<rparr>) = dict_inv lo hi d" "dict_inv lo hi (d\<lparr>tmpOutStart := n\<rparr>) = dict_inv lo hi d"
  "frame_ready a K m (d\<lparr>tmpOutSize := n\<rparr>) = frame_ready a K m d" "frame_ready a K m (d\<lparr>tmpOutStart := n\<rparr>) = frame_ready a K m d"
  "frame_ready a K m (d\<lparr>x_dict := p\<rparr>) = frame_ready a K m d" "frame_ready a K m (d\<lparr>x_dictSize := n\<rparr>) = frame_ready a K m d"
  by (simp_all add: dict_inv_def frame_ready_def bufs_ok_def)

text \<open>Two disjoint intervals lie one after the other.\<close>

lemma intervals_apart: "{p..q} \<inter> K = {} \<Longrightarrow> {a..<b} \<subseteq> K \<Longrightarrow> p \<le> q \<Longrightarrow> a < b \<Longrightarrow> q < a \<or> b \<le> (p :: int)"
proof (rule ccontr)
  assume h: "{p..q} \<inter> K = {}" "{a..<b} \<subseteq> K" "p \<le> q" "a < b" "\<not> (q < a \<or> b \<le> p)"
  then have "max p a \<in> {p..q}" "max p a \<in> {a..<b}" by auto
  with h(1,2) show False by blast
qed

text \<open>\<open>LZ4F_updateDict\<close> for \<open>n\<close> bytes that have been written at \<open>dp\<close>. Inside a call the dictionary is contiguous with the output
  unless it is in \<open>tmpOutBuffer\<close>.\<close>

lemma updateDict_ok:
  assumes R: "frame_ready a K m d" and L: "blockMode (x_frameInfo d) = LZ4F_blockLinked" and D: "dict_inv lo dp d"
    and dst: "{lo..<hi} \<subseteq> K" "lo \<le> dp" "dp + n \<le> hi" "0 \<le> n" "mapped m lo hi"
    and F: "within \<Longrightarrow> flush_inv d \<and> n \<le> tmpOutSize d - tmpOutStart d"
  obtains m' p s where "LZ4F_updateDict m d dp n lo within = Some (m', d\<lparr>x_dict := p, x_dictSize := s\<rparr>)"
    "dict_inv lo (dp + n) (d\<lparr>x_dict := p, x_dictSize := s\<rparr>)" "dom m' = dom m" "kept K W m m'"
    "within \<longrightarrow> tmpOutStart d + n < tmpOutSize d \<longrightarrow> flush_inv (d\<lparr>x_dict := p, x_dictSize := s, tmpOutStart := tmpOutStart d + n\<rparr>)"
proof -
  note B = ready_bufs [OF R]
  have big: "196608 \<le> x_maxBufferSize d" using B(3) B(7) [OF L] by linarith
  have D': "0 \<le> x_dictSize d" "x_dict d = tmpOutBuffer d \<Longrightarrow> x_dictSize d \<le> x_maxBufferSize d"
    "x_dict d \<noteq> tmpOutBuffer d \<Longrightarrow> lo \<le> x_dict d \<and> x_dict d + x_dictSize d = dp"
    using D L by (auto simp: dict_inv_def split: if_splits)
  have out: "n = 0" if "tmpOutBuffer d \<le> dp" "dp \<le> tmpOutBuffer d + x_maxBufferSize d"
  proof (rule ccontr)
    assume "n \<noteq> 0"
    then have "dp \<in> {lo..<hi}" using dst by auto
    with region_out [OF B(2) that] dst(1) show False by blast
  qed
  have lo: "lo \<noteq> tmpOutBuffer d" if "lo < hi" using region_out [OF B(2), of lo] dst(1) that big by force
  consider (A) "x_dictSize d = 0" | (B) "x_dictSize d \<noteq> 0" "x_dict d + x_dictSize d = dp"
    | (C) "x_dictSize d \<noteq> 0" "x_dict d + x_dictSize d \<noteq> dp" "x_dict d = tmpOutBuffer d" using D'(3) by blast
  then show ?thesis
  proof cases
    case A
    then have "LZ4F_updateDict m d dp n lo within = Some (m, d\<lparr>x_dict := dp, x_dictSize := n\<rparr>)" by (simp add: LZ4F_updateDict_def Let_def)
    moreover have "dict_inv lo (dp + n) (d\<lparr>x_dict := dp, x_dictSize := n\<rparr>)"
      using dst out big by (auto simp: dict_inv_def)
    moreover have "flush_inv (d\<lparr>x_dict := dp, x_dictSize := n, tmpOutStart := tmpOutStart d + n\<rparr>)" if within
      using F [OF that] A D'(3) out dst L by (auto simp: flush_inv_def split: if_splits)
    ultimately show ?thesis by (intro that) auto
  next
    case B
    then have "LZ4F_updateDict m d dp n lo within = Some (m, d\<lparr>x_dict := x_dict d, x_dictSize := x_dictSize d + n\<rparr>)" by (simp add: LZ4F_updateDict_def Let_def)
    moreover have "dict_inv lo (dp + n) (d\<lparr>x_dict := x_dict d, x_dictSize := x_dictSize d + n\<rparr>)"
      using dst out B D' by (auto simp: dict_inv_def)
    moreover have "flush_inv (d\<lparr>x_dict := x_dict d, x_dictSize := x_dictSize d + n, tmpOutStart := tmpOutStart d + n\<rparr>)" if within
      using F [OF that] dst L by (auto simp: flush_inv_def split: if_splits)
    ultimately show ?thesis by (intro that [OF _ _ refl kept_refl]) blast+
  next
    case C
    show ?thesis
    proof (cases "dp - lo + n \<ge> 65536")
      case True
      then have "LZ4F_updateDict m d dp n lo within = Some (m, d\<lparr>x_dict := lo, x_dictSize := dp - lo + n\<rparr>)"
        using C by (simp add: LZ4F_updateDict_def Let_def)
      moreover have "dict_inv lo (dp + n) (d\<lparr>x_dict := lo, x_dictSize := dp - lo + n\<rparr>)"
        using True lo dst by (auto simp: dict_inv_def)
      moreover have "flush_inv (d\<lparr>x_dict := lo, x_dictSize := dp - lo + n, tmpOutStart := tmpOutStart d + n\<rparr>)" if within "tmpOutStart d + n < tmpOutSize d"
        using F [OF that(1)] that(2) True lo dst by (auto simp: flush_inv_def)
      ultimately show ?thesis by (intro that) auto
    next
      case small: False
      show ?thesis
      proof (cases within)
        case True
        note G = F [OF True]
        have "LZ4F_updateDict m d dp n lo within = Some (m, d\<lparr>x_dict := x_dict d, x_dictSize := x_dictSize d + n\<rparr>)"
          using C small True by (simp add: LZ4F_updateDict_def Let_def)
        moreover have "dict_inv lo (dp + n) (d\<lparr>x_dict := x_dict d, x_dictSize := x_dictSize d + n\<rparr>)"
          using C D' G L dst by (auto simp: dict_inv_def flush_inv_def)
        moreover have "flush_inv (d\<lparr>x_dict := x_dict d, x_dictSize := x_dictSize d + n, tmpOutStart := tmpOutStart d + n\<rparr>)"
          using G C dst L by (auto simp: flush_inv_def split: if_splits)
        ultimately show ?thesis by (intro that [OF _ _ refl kept_refl]) blast+
      next
        case False
        define pre where "pre = (if x_dictSize d + n > x_maxBufferSize d then 65536 - n else x_dictSize d)"
        have pre: "0 \<le> pre" "pre \<le> x_dictSize d" "pre + n \<le> x_maxBufferSize d"
          using D' C small dst big by (auto simp: pre_def)
        let ?q = "tmpOutBuffer d"
        have reg: "mapped m x y" "{x..<y} \<inter> K \<subseteq> W" if "?q \<le> x" "y \<le> ?q + x_maxBufferSize d" for x y
          using that B(2) region_kept [OF B(2) that] by (auto simp: region_def elim: mapped_mono)
        have 1: "ok (\<lambda>(m', d'). d' = d\<lparr>x_dictSize := pre\<rparr> \<and> dom m' = dom m \<and> kept K W m m')
            (if x_dictSize d + n > x_maxBufferSize d
             then do { m \<leftarrow> memcpy m ?q (x_dict d + x_dictSize d - (65536 - n)) (nat (65536 - n)); Some (m, d\<lparr>x_dictSize := 65536 - n\<rparr>) }
             else Some (m, d))"
        proof (cases "x_dictSize d + n > x_maxBufferSize d")
          case True
          have p: "pre = 65536 - n" using True by (simp add: pre_def)
          have s: "x_dict d + x_dictSize d - (65536 - n) + (65536 - n) = x_dict d + x_dictSize d" by simp
          have "ok (\<lambda>m'. frame m m' ?q (?q + (65536 - n)) \<and> dom m' = dom m \<and> kept K W m m')
              (memcpy m ?q (x_dict d + x_dictSize d - (65536 - n)) (nat (65536 - n)))"
            by (rule memcpy_kept) (use pre p D' C big reg in auto)
          then show ?thesis unfolding if_P [OF True] by (auto simp: p elim!: ok_mono)
        next
          case False
          then show ?thesis by (auto simp: pre_def)
        qed
        have 2: "ok (\<lambda>m''. frame m' m'' (?q + pre) (?q + pre + n) \<and> dom m'' = dom m' \<and> kept K W m' m'') (memcpy m' (?q + pre) dp (nat n))"
          if dm: "dom m' = dom m" for m'
        proof (rule memcpy_kept)
          show "mapped m' dp (dp + n)" unfolding mapped_cong [OF dm] by (rule mapped_mono [OF dst(5)]) (use dst in auto)
          show "mapped m' (?q + pre) (?q + pre + n)" unfolding mapped_cong [OF dm] by (rule reg) (use pre in auto)
          show "{?q + pre..<?q + pre + n} \<inter> K \<subseteq> W" by (rule reg) (use pre in auto)
        qed (use dst in simp)
        have eq: "LZ4F_updateDict m d dp n lo within =
          do { (m, d) \<leftarrow> (if x_dictSize d + n > x_maxBufferSize d
                 then do { m \<leftarrow> memcpy m ?q (x_dict d + x_dictSize d - (65536 - n)) (nat (65536 - n)); Some (m, d\<lparr>x_dictSize := 65536 - n\<rparr>) }
                 else Some (m, d));
               m \<leftarrow> memcpy m (tmpOutBuffer d + x_dictSize d) dp (nat n);
               Some (m, d\<lparr>x_dictSize := x_dictSize d + n\<rparr>) }"
          using C small False by (simp add: LZ4F_updateDict_def Let_def)
        from okD [OF 1] obtain m1 where m1: "(if x_dictSize d + n > x_maxBufferSize d
             then do { m \<leftarrow> memcpy m ?q (x_dict d + x_dictSize d - (65536 - n)) (nat (65536 - n)); Some (m, d\<lparr>x_dictSize := 65536 - n\<rparr>) }
             else Some (m, d)) = Some (m1, d\<lparr>x_dictSize := pre\<rparr>)" "dom m1 = dom m" "kept K W m m1" by auto
        from okD [OF 2 [OF m1(2)]] obtain m2 where m2: "memcpy m1 (?q + pre) dp (nat n) = Some m2" "dom m2 = dom m1" "kept K W m1 m2" by auto
        have "LZ4F_updateDict m d dp n lo within = Some (m2, d\<lparr>x_dict := x_dict d, x_dictSize := pre + n\<rparr>)"
          unfolding eq m1(1) by (simp add: m2(1))
        moreover have "dict_inv lo (dp + n) (d\<lparr>x_dict := x_dict d, x_dictSize := pre + n\<rparr>)"
          using C pre dst by (auto simp: dict_inv_def)
        moreover have "dom m2 = dom m" "kept K W m m2" using m1 m2 kept_trans by auto
        ultimately show ?thesis by (rule that) (use False in simp)
      qed
    qed
  qed
qed

lemma linkDict_ok:
  assumes R: "frame_ready a K m d" and D: "dict_inv lo dp d"
    and dst: "{lo..<hi} \<subseteq> K" "lo \<le> dp" "dp + n \<le> hi" "0 \<le> n" "mapped m lo hi"
    and F: "within \<Longrightarrow> flush_inv d \<and> n \<le> tmpOutSize d - tmpOutStart d"
  obtains m' p s where "LZ4F_linkDict m d dp n lo within = Some (m', d\<lparr>x_dict := p, x_dictSize := s\<rparr>)"
    "dict_inv lo (dp + n) (d\<lparr>x_dict := p, x_dictSize := s\<rparr>)" "dom m' = dom m" "kept K W m m'"
    "within \<longrightarrow> tmpOutStart d + n < tmpOutSize d \<longrightarrow> flush_inv (d\<lparr>x_dict := p, x_dictSize := s, tmpOutStart := tmpOutStart d + n\<rparr>)"
proof (cases "blockMode (x_frameInfo d) = LZ4F_blockLinked")
  case True
  obtain m' p s where "LZ4F_updateDict m d dp n lo within = Some (m', d\<lparr>x_dict := p, x_dictSize := s\<rparr>)"
    "dict_inv lo (dp + n) (d\<lparr>x_dict := p, x_dictSize := s\<rparr>)" "dom m' = dom m" "kept K W m m'"
    "within \<longrightarrow> tmpOutStart d + n < tmpOutSize d \<longrightarrow> flush_inv (d\<lparr>x_dict := p, x_dictSize := s, tmpOutStart := tmpOutStart d + n\<rparr>)"
    by (rule updateDict_ok [OF R True D dst F, where W = W])
  with True show ?thesis by (intro that) (simp_all add: LZ4F_linkDict_def)
next
  case False
  then have "LZ4F_linkDict m d dp n lo within = Some (m, d\<lparr>x_dict := x_dict d, x_dictSize := x_dictSize d\<rparr>)" by (simp add: LZ4F_linkDict_def)
  then show ?thesis
    by (rule that [OF _ _ refl kept_refl]) (use False dst(4) F in \<open>auto simp: dict_inv_def flush_inv_def\<close>)
qed

lemma core_content: "core_inv k K m d sp dp \<Longrightarrow> length (mem32 s) = 16 \<Longrightarrow> core_inv k K m (d\<lparr>x_xxh := s, frameRemainingSize := r\<rparr>) sp dp"
  by (simp add: core_inv_def alloc_ok_def bufs_ok_def)

lemma core_updates [simp]:
  "core_inv k K m (d\<lparr>x_dict := p\<rparr>) sp dp = core_inv k K m d sp dp" "core_inv k K m (d\<lparr>x_dictSize := n\<rparr>) sp dp = core_inv k K m d sp dp"
  "core_inv k K m (d\<lparr>tmpOut := p\<rparr>) sp dp = core_inv k K m d sp dp" "core_inv k K m (d\<lparr>tmpOutStart := n\<rparr>) sp dp = core_inv k K m d sp dp"
  "core_inv k K m (d\<lparr>tmpOutSize := n\<rparr>) sp dp = core_inv k K m d sp dp"
  by (simp_all add: core_inv_def alloc_ok_def bufs_ok_def)

text \<open>What happens to \<open>n\<close> bytes of content at \<open>q\<close> that have arrived in the output at \<open>dp\<close>.\<close>

lemma arrived:
  assumes C: "core_inv k K m d sp dp" and R: "frame_ready (env_arch (w_env k)) K m d" and D: "dict_inv (w_dstStart k) dp d"
    and n: "0 \<le> n" "dp + n \<le> w_dstEnd k" and M: "mapped m q (q + n)"
  obtains d1 m' d' where
    "LZ4F_content (env_arch (w_env k)) m d q n = Some d1" "LZ4F_linkDict m d1 dp n (w_dstStart k) False = Some (m', d')"
    "kept K W m m'" "core_inv k K m' d' sp (dp + n)" "frame_ready (env_arch (w_env k)) K m' d'" "dict_inv (w_dstStart k) (dp + n) d'"
    "x_header d' = x_header d" "tmpInTarget d' = tmpInTarget d" "x_maxBlockSize d' = x_maxBlockSize d" "dStage d' = dStage d"
proof -
  note b = core_bounds [OF C]
  obtain s r where s: "LZ4F_content (env_arch (w_env k)) m d q n = Some (d\<lparr>x_xxh := s, frameRemainingSize := r\<rparr>)" "length (mem32 s) = 16"
    "contentChecksumFlag (x_frameInfo d) \<noteq> 0 \<longrightarrow> (\<exists>xs. xxh32_repr 0 s xs)"
    by (rule content_ok [OF R M n(1) _ b(5)]) (use b n in auto)
  let ?d = "d\<lparr>x_xxh := s, frameRemainingSize := r\<rparr>"
  have R1: "frame_ready (env_arch (w_env k)) K m ?d" by (rule ready_content [OF R s(3)])
  have D1: "dict_inv (w_dstStart k) dp ?d" using D by simp
  obtain m' p z where l: "LZ4F_linkDict m ?d dp n (w_dstStart k) False = Some (m', ?d\<lparr>x_dict := p, x_dictSize := z\<rparr>)"
    "dict_inv (w_dstStart k) (dp + n) (?d\<lparr>x_dict := p, x_dictSize := z\<rparr>)" "dom m' = dom m" "kept K W m m'"
    by (rule linkDict_ok [OF R1 D1 b(8) b(3) n(2,1) core_mapped(3) [OF C], where within = False and W = W]) blast+
  have "core_inv k K m' ?d sp (dp + n)"
    by (rule core_step [OF core_content [OF C s(2)] l(3)]) (use b n s in auto)
  moreover have "frame_ready (env_arch (w_env k)) K m' ?d" using R1 ready_cong [OF l(3)] by blast
  ultimately have c: "core_inv k K m' (?d\<lparr>x_dict := p, x_dictSize := z\<rparr>) sp (dp + n)" "frame_ready (env_arch (w_env k)) K m' (?d\<lparr>x_dict := p, x_dictSize := z\<rparr>)"
    by (simp_all only: core_updates dict_updates)
  show ?thesis by (rule that [OF s(1) l(1,4) c l(2)]) simp_all
qed

lemma stage_copyDirect_ok:
  assumes C: "core_inv k K (w_m v) (w_dctx v) (w_srcPtr v) (w_dstPtr v)" and S: "dStage (w_dctx v) = dstage_copyDirect"
    "stage_inv k K (w_m v) (w_dctx v) (w_dstPtr v) (selectedIn v) dstage_copyDirect" and A: "w_again v"
  shows "ok (step_post k K v) (LZ4F_stage_copyDirect k v)"
proof -
  let ?d = "w_dctx v" and ?a = "env_arch (w_env k)" and ?W = "written k (x_header (w_dctx v))"
  note b = core_bounds [OF C]
  have R: "frame_ready ?a K (w_m v) ?d" and D: "dict_inv (w_dstStart k) (w_dstPtr v) ?d" and t: "0 < tmpInTarget ?d" "tmpInTarget ?d \<le> x_maxBlockSize ?d"
    using S by auto
  define n where "n = min (tmpInTarget ?d) (min (w_srcEnd k - w_srcPtr v) (w_dstEnd k - w_dstPtr v))"
  have n: "0 \<le> n" "n \<le> tmpInTarget ?d" "w_srcPtr v + n \<le> w_srcEnd k" "w_dstPtr v + n \<le> w_dstEnd k" using t b by (auto simp: n_def)
  have src: "mapped (w_m v) (w_srcPtr v) (w_srcPtr v + n)" by (rule mapped_mono [OF core_mapped(1) [OF C]]) (use n in auto)
  have dst: "mapped (w_m v) (w_dstPtr v) (w_dstPtr v + n)" by (rule mapped_mono [OF core_mapped(3) [OF C]]) (use n b in auto)
  have "{w_dstPtr v..<w_dstPtr v + n} \<inter> K \<subseteq> ?W" using n b by (auto simp: written_def)
  from okD [OF memcpy_kept [OF src dst n(1) this]] obtain m1 where m1: "memcpy (w_m v) (w_dstPtr v) (w_srcPtr v) (nat n) = Some m1"
    "dom m1 = dom (w_m v)" "kept K ?W (w_m v) m1" by auto
  have C1: "core_inv k K m1 ?d (w_srcPtr v + n) (w_dstPtr v)" by (rule core_step [OF C m1(2)]) (use n b in auto)
  have R1: "frame_ready ?a K m1 ?d" using R ready_cong [OF m1(2)] by blast
  have src1: "mapped m1 (w_srcPtr v) (w_srcPtr v + n)" using src mapped_cong [OF m1(2)] by blast
  obtain d1 m2 d2 where e: "LZ4F_content ?a m1 ?d (w_srcPtr v) n = Some d1" "LZ4F_linkDict m1 d1 (w_dstPtr v) n (w_dstStart k) False = Some (m2, d2)"
    and r: "kept K ?W m1 m2" "core_inv k K m2 d2 (w_srcPtr v + n) (w_dstPtr v + n)" "frame_ready ?a K m2 d2" "dict_inv (w_dstStart k) (w_dstPtr v + n) d2"
    "x_header d2 = x_header ?d" "tmpInTarget d2 = tmpInTarget ?d" "x_maxBlockSize d2 = x_maxBlockSize ?d" "dStage d2 = dStage ?d"
    by (rule arrived [OF C1 R1 D n(1,4) src1])
  have kp: "kept K ?W (w_m v) m2" using m1(3) r(1) by (rule kept_trans)
  define v' where "v' = v\<lparr>w_m := m2, w_dctx := d2, w_srcPtr := w_srcPtr v + n, w_dstPtr := w_dstPtr v + n\<rparr>"
  have eq: "LZ4F_stage_copyDirect k v =
     (if n = tmpInTarget ?d then Some (None, LZ4F_goto v' dstage_getCBlockSize)
      else LZ4F_stop (v'\<lparr>w_dctx := d2\<lparr>tmpInTarget := tmpInTarget d2 - n\<rparr>\<rparr>) (tmpInTarget d2 - n + BHSize))"
  proof -
    have nn: "(if w_dstEnd k - w_dstPtr v < (if w_srcEnd k - w_srcPtr v < tmpInTarget ?d then w_srcEnd k - w_srcPtr v else tmpInTarget ?d)
        then w_dstEnd k - w_dstPtr v else if w_srcEnd k - w_srcPtr v < tmpInTarget ?d then w_srcEnd k - w_srcPtr v else tmpInTarget ?d) = n"
      by (simp add: n_def min_def)
    show ?thesis unfolding LZ4F_stage_copyDirect_def Let_def nn m1(1) bind.bind_lunit e
      by (simp add: v'_def r(6))
  qed
  show ?thesis
  proof (cases "n = tmpInTarget ?d")
    case True
    then show ?thesis unfolding eq using r kp t A n b
      by (auto simp: v'_def intro!: step_postI measure_consumed)
  next
    case False
    then have "n < tmpInTarget ?d" using n by simp
    then have "w_srcPtr v + n = w_srcEnd k \<or> w_dstPtr v + n = w_dstEnd k" by (auto simp: n_def)
    with False \<open>n < tmpInTarget ?d\<close> show ?thesis unfolding eq using r kp t n b S(1)
      by (auto simp: v'_def stop_post transient_def stop_inv_def intro!: step_postI)
  qed
qed

section \<open>Decoding a block\<close>

lemma decoder_ok:
  assumes R: "frame_ready a K m d" and t: "0 < tmpInTarget d" "tmpInTarget d \<le> x_maxBlockSize d" and I: "input_inv a m src (tmpInTarget d)"
    and dst: "0 \<le> dest" "low a (dest + x_maxBlockSize d)" "mapped m dest (dest + x_maxBlockSize d)"
    and D: "blockMode (x_frameInfo d) = LZ4F_blockLinked \<Longrightarrow> 0 \<le> x_dictSize d \<and> x_dictSize d < 2147483648 \<and> mapped m (x_dict d) (x_dict d + x_dictSize d) \<and>
         (x_dictSize d = 0 \<or> x_dict d + x_dictSize d \<le> dest \<or> dest + x_maxBlockSize d \<le> x_dict d)"
  obtains r m' where "LZ4F_decoder a m d src dest = Some (r, m')" "frame m m' dest (dest + x_maxBlockSize d)" "r \<le> x_maxBlockSize d"
proof -
  note B = ready_bufs [OF R]
  have b: "block_in a m src dest (tmpInTarget d) (x_maxBlockSize d)"
    using t B I dst by (auto simp: block_in_def input_inv_def low_def)
  have i: "int32 (tmpInTarget d) = tmpInTarget d" "int32 (x_maxBlockSize d) = x_maxBlockSize d" using t B by auto
  have "ok (\<lambda>(r, m'). frame m m' dest (dest + x_maxBlockSize d) \<and> r \<le> x_maxBlockSize d) (LZ4F_decoder a m d src dest)"
  proof (cases "blockMode (x_frameInfo d) = LZ4F_blockLinked")
    case True
    have "int32 (x_dictSize d) = x_dictSize d" using D [OF True] by auto
    with LZ4_decompress_safe_usingDict_any [OF b, of "x_dictSize d" "x_dict d"] D [OF True] True i show ?thesis
      by (simp add: LZ4F_decoder_def)
  next
    case False
    with LZ4_decompress_safe_any [OF b] i show ?thesis by (simp add: LZ4F_decoder_def LZ4F_decompress_safe_def)
  qed
  from okD [OF this] that show ?thesis by auto
qed

text \<open>The dictionary of linked blocks is apart from the place where the block is decoded.\<close>

lemma dict_apart:
  assumes C: "core_inv k K m d sp dp" and R: "frame_ready (env_arch (w_env k)) K m d" and D: "dict_inv (w_dstStart k) dp d"
    and L: "blockMode (x_frameInfo d) = LZ4F_blockLinked"
  shows "0 \<le> x_dictSize d" "x_dictSize d < 2147483648" "mapped m (x_dict d) (x_dict d + x_dictSize d)"
    "x_maxBlockSize d \<le> w_dstEnd k - dp \<Longrightarrow> x_dict d + x_dictSize d \<le> dp \<or> dp + x_maxBlockSize d \<le> x_dict d"
    "x_dict d \<noteq> tmpOutBuffer d \<Longrightarrow> x_dictSize d = 0 \<or> x_dict d + x_dictSize d \<le> tmpOutBuffer d \<or> tmpOutBuffer d + x_maxBufferSize d \<le> x_dict d"
proof -
  note b = core_bounds [OF C] and B = ready_bufs [OF R]
  have D': "0 \<le> x_dictSize d" "x_dict d = tmpOutBuffer d \<Longrightarrow> x_dictSize d \<le> x_maxBufferSize d"
    "x_dict d \<noteq> tmpOutBuffer d \<Longrightarrow> w_dstStart k \<le> x_dict d \<and> x_dict d + x_dictSize d = dp"
    using D L by (auto simp: dict_inv_def split: if_splits)
  show "0 \<le> x_dictSize d" by (rule D')
  show "x_dictSize d < 2147483648" using D' b B by (cases "x_dict d = tmpOutBuffer d") auto
  show "mapped m (x_dict d) (x_dict d + x_dictSize d)"
  proof (cases "x_dict d = tmpOutBuffer d")
    case True
    then show ?thesis using B(2) D'(2) unfolding region_def by (auto elim: mapped_mono)
  next
    case False
    then show ?thesis using core_mapped(3) [OF C] D'(3) b by (auto elim!: mapped_mono)
  qed
  have ap: "tmpOutBuffer d + x_maxBufferSize d < w_dstStart k \<or> w_dstEnd k \<le> tmpOutBuffer d" if "w_dstStart k < w_dstEnd k"
    using B(2,3,5) b(8) that by (intro intervals_apart [where K = K]) (auto simp: region_def)
  show "x_dict d + x_dictSize d \<le> dp \<or> dp + x_maxBlockSize d \<le> x_dict d" if "x_maxBlockSize d \<le> w_dstEnd k - dp"
    using ap that B(3) b D' by (cases "x_dict d = tmpOutBuffer d") auto
  show "x_dictSize d = 0 \<or> x_dict d + x_dictSize d \<le> tmpOutBuffer d \<or> tmpOutBuffer d + x_maxBufferSize d \<le> x_dict d" if "x_dict d \<noteq> tmpOutBuffer d"
    using ap D'(1) D'(3) [OF that] b by (cases "w_dstStart k < w_dstEnd k") auto
qed

lemma stage_intoDst_ok:
  assumes C: "core_inv k K (w_m v) (w_dctx v) (w_srcPtr v) (w_dstPtr v)" and S: "dStage (w_dctx v) = dstage_decodeCBlock_intoDst"
    "stage_inv k K (w_m v) (w_dctx v) (w_dstPtr v) (selectedIn v) dstage_decodeCBlock_intoDst" and A: "w_again v"
  shows "ok (step_post k K v) (LZ4F_stage_intoDst k v)"
proof -
  let ?d = "w_dctx v" and ?a = "env_arch (w_env k)" and ?W = "written k (x_header (w_dctx v))"
  note b = core_bounds [OF C]
  have R: "frame_ready ?a K (w_m v) ?d" and D: "dict_inv (w_dstStart k) (w_dstPtr v) ?d" and t: "0 < tmpInTarget ?d" "tmpInTarget ?d \<le> x_maxBlockSize ?d"
    and I: "input_inv ?a (w_m v) (selectedIn v) (tmpInTarget ?d)" and room: "x_maxBlockSize ?d \<le> w_dstEnd k - w_dstPtr v" using S by auto
  have dst: "mapped (w_m v) (w_dstPtr v) (w_dstPtr v + x_maxBlockSize ?d)" by (rule mapped_mono [OF core_mapped(3) [OF C]]) (use room b in auto)
  have lo: "low ?a (w_dstPtr v + x_maxBlockSize ?d)" using b room by (simp add: low_def)
  obtain r m1 where m1: "LZ4F_decoder ?a (w_m v) ?d (selectedIn v) (w_dstPtr v) = Some (r, m1)"
    "frame (w_m v) m1 (w_dstPtr v) (w_dstPtr v + x_maxBlockSize ?d)" "r \<le> x_maxBlockSize ?d"
    by (rule decoder_ok [OF R t I b(7) lo dst]) (use dict_apart [OF C R D] room in blast)
  have k1: "kept K ?W (w_m v) m1" by (rule kept_frame [OF m1(2)]) (use b room in \<open>auto simp: written_def\<close>)
  note dm = frame_dom [OF m1(2)]
  show ?thesis
  proof (cases "r < 0")
    case True
    then show ?thesis using k1 by (auto simp: LZ4F_stage_intoDst_def m1(1) intro!: step_post_error)
  next
    case False
    have C1: "core_inv k K m1 ?d (w_srcPtr v) (w_dstPtr v)" by (rule core_step [OF C dm]) (use b in auto)
    have R1: "frame_ready ?a K m1 ?d" using R ready_cong [OF dm] by blast
    have n: "0 \<le> r" "w_dstPtr v + r \<le> w_dstEnd k" using False m1(3) room by auto
    have M: "mapped m1 (w_dstPtr v) (w_dstPtr v + r)" unfolding mapped_cong [OF dm] by (rule mapped_mono [OF dst]) (use m1(3) in auto)
    obtain d1 m2 d2 where e: "LZ4F_content ?a m1 ?d (w_dstPtr v) r = Some d1" "LZ4F_linkDict m1 d1 (w_dstPtr v) r (w_dstStart k) False = Some (m2, d2)"
      and q: "kept K ?W m1 m2" "core_inv k K m2 d2 (w_srcPtr v) (w_dstPtr v + r)" "frame_ready ?a K m2 d2" "dict_inv (w_dstStart k) (w_dstPtr v + r) d2"
      "x_header d2 = x_header ?d"
      by (rule arrived [OF C1 R1 D n M])
    have kp: "kept K ?W (w_m v) m2" using k1 q(1) by (rule kept_trans)
    have "step_post k K v (None, LZ4F_goto (v\<lparr>w_m := m2, w_dctx := d2, w_dstPtr := w_dstPtr v + r\<rparr>) dstage_getCBlockSize)"
      using q kp A b S(1) by (intro step_postI) (auto intro!: measure_rank)
    then show ?thesis using False by (simp add: LZ4F_stage_intoDst_def m1(1) e)
  qed
qed

section \<open>Decoding into the temporary buffer\<close>

lemma placeTmpOut_ok:
  assumes R: "frame_ready a K m d" and D: "dict_inv lo dp d"
  obtains m' p s where "LZ4F_placeTmpOut m d = Some (m', d\<lparr>x_dictSize := s, tmpOut := p\<rparr>)" "dom m' = dom m" "kept K W m m'"
    "tmpOutBuffer d \<le> p" "p + x_maxBlockSize d \<le> tmpOutBuffer d + x_maxBufferSize d"
    "blockMode (x_frameInfo d) \<noteq> LZ4F_blockLinked \<longrightarrow> p = tmpOutBuffer d"
    "blockMode (x_frameInfo d) = LZ4F_blockLinked \<longrightarrow>
       (if x_dict d = tmpOutBuffer d then 0 \<le> s \<and> s \<le> x_dictSize d \<and> p = x_dict d + s else s = x_dictSize d \<and> p - tmpOutBuffer d \<le> s)"
proof -
  note B = ready_bufs [OF R]
  let ?L = "blockMode (x_frameInfo d) = LZ4F_blockLinked"
  have D': "0 \<le> x_dictSize d" "x_dict d = tmpOutBuffer d \<Longrightarrow> x_dictSize d \<le> x_maxBufferSize d" if ?L
    using D that by (auto simp: dict_inv_def split: if_splits)
  consider (u) "\<not> ?L" | (b) ?L "x_dict d = tmpOutBuffer d" "x_dictSize d > 131072" | (s) ?L "x_dict d = tmpOutBuffer d" "x_dictSize d \<le> 131072"
    | (o) ?L "x_dict d \<noteq> tmpOutBuffer d" by linarith
  then show ?thesis
  proof cases
    case u
    have "LZ4F_placeTmpOut m d = Some (m, d\<lparr>x_dictSize := x_dictSize d, tmpOut := tmpOutBuffer d\<rparr>)"
      using u R by (simp add: LZ4F_placeTmpOut_def frame_ready_def)
    then show ?thesis by (rule that) (use u B in auto)
  next
    case b
    have m: "mapped m x y" "{x..<y} \<inter> K \<subseteq> W" if "tmpOutBuffer d \<le> x" "y \<le> tmpOutBuffer d + x_maxBufferSize d" for x y
      using that B(2) region_kept [OF B(2) that] by (auto simp: region_def elim: mapped_mono)
    have "ok (\<lambda>m'. frame m m' (tmpOutBuffer d) (tmpOutBuffer d + 65536) \<and> dom m' = dom m \<and> kept K W m m')
        (memcpy m (tmpOutBuffer d) (x_dict d + x_dictSize d - 65536) (nat 65536))"
      by (rule memcpy_kept) (use b D' B m in auto)
    then obtain m' where m': "memcpy m (tmpOutBuffer d) (x_dict d + x_dictSize d - 65536) (nat 65536) = Some m'" "dom m' = dom m" "kept K W m m'"
      by (auto dest: okD)
    have "LZ4F_placeTmpOut m d = Some (m', d\<lparr>x_dictSize := 65536, tmpOut := tmpOutBuffer d + 65536\<rparr>)"
      using b m'(1) by (simp add: LZ4F_placeTmpOut_def)
    then show ?thesis by (rule that [OF _ m'(2,3)]) (use b B(7) in auto)
  next
    case s
    have "LZ4F_placeTmpOut m d = Some (m, d\<lparr>x_dictSize := x_dictSize d, tmpOut := tmpOutBuffer d + x_dictSize d\<rparr>)"
      using s by (simp add: LZ4F_placeTmpOut_def)
    then show ?thesis by (rule that) (use s B(7) D' in auto)
  next
    case o
    have "LZ4F_placeTmpOut m d = Some (m, d\<lparr>x_dictSize := x_dictSize d, tmpOut := tmpOutBuffer d + min 65536 (x_dictSize d)\<rparr>)"
      using o by (simp add: LZ4F_placeTmpOut_def min_def)
    then show ?thesis by (rule that) (use o B(7) D' in auto)
  qed
qed

lemma stage_intoTmp_ok:
  assumes C: "core_inv k K (w_m v) (w_dctx v) (w_srcPtr v) (w_dstPtr v)" and S: "dStage (w_dctx v) = dstage_decodeCBlock_intoTmp"
    "stage_inv k K (w_m v) (w_dctx v) (w_dstPtr v) (selectedIn v) dstage_decodeCBlock_intoTmp" and A: "w_again v"
  shows "ok (step_post k K v) (LZ4F_stage_intoTmp k v)"
proof -
  let ?d = "w_dctx v" and ?a = "env_arch (w_env k)" and ?W = "written k (x_header (w_dctx v))" and ?q = "tmpOutBuffer (w_dctx v)"
  note b = core_bounds [OF C]
  have R: "frame_ready ?a K (w_m v) ?d" and D: "dict_inv (w_dstStart k) (w_dstPtr v) ?d" and t: "0 < tmpInTarget ?d" "tmpInTarget ?d \<le> x_maxBlockSize ?d"
    and I: "input_inv ?a (w_m v) (selectedIn v) (tmpInTarget ?d)" using S by auto
  obtain m0 p s where P: "LZ4F_placeTmpOut (w_m v) ?d = Some (m0, ?d\<lparr>x_dictSize := s, tmpOut := p\<rparr>)" "dom m0 = dom (w_m v)" "kept K ?W (w_m v) m0"
    "?q \<le> p" "p + x_maxBlockSize ?d \<le> ?q + x_maxBufferSize ?d" "blockMode (x_frameInfo ?d) \<noteq> LZ4F_blockLinked \<longrightarrow> p = ?q"
    "blockMode (x_frameInfo ?d) = LZ4F_blockLinked \<longrightarrow>
       (if x_dict ?d = ?q then 0 \<le> s \<and> s \<le> x_dictSize ?d \<and> p = x_dict ?d + s else s = x_dictSize ?d \<and> p - ?q \<le> s)"
    by (rule placeTmpOut_ok [OF R D])
  define d0 where "d0 = ?d\<lparr>x_dictSize := s, tmpOut := p\<rparr>"
  have C0: "core_inv k K m0 d0 (w_srcPtr v) (w_dstPtr v)" unfolding d0_def by (rule core_step [OF C P(2)]) (use b in auto)
  have R0: "frame_ready ?a K m0 d0" using R P(6) unfolding ready_cong [OF P(2)] by (simp add: d0_def frame_ready_def bufs_ok_def)
  have D0: "dict_inv (w_dstStart k) (w_dstPtr v) d0" using D P(7) by (auto simp: d0_def dict_inv_def split: if_splits)
  have I0: "input_inv ?a m0 (selectedIn v) (tmpInTarget d0)" using I mapped_cong [OF P(2)] by (simp add: input_inv_def d0_def)
  have f: "x_maxBlockSize d0 = x_maxBlockSize ?d" "tmpInTarget d0 = tmpInTarget ?d" "x_frameInfo d0 = x_frameInfo ?d" "x_dict d0 = x_dict ?d"
    "x_dictSize d0 = s" "tmpOutBuffer d0 = ?q" "x_maxBufferSize d0 = x_maxBufferSize ?d" "tmpOut d0 = p" "x_header d0 = x_header ?d" "dStage d0 = dStage ?d"
    by (simp_all add: d0_def)
  note B = ready_bufs [OF R0, unfolded f]
  have reg: "0 \<le> p" "low ?a (p + x_maxBlockSize d0)" "mapped m0 p (p + x_maxBlockSize d0)"
    using B(2) P(4,5) by (auto simp: region_def low_def f elim: mapped_mono)
  have t0: "0 < tmpInTarget d0" "tmpInTarget d0 \<le> x_maxBlockSize d0" using t by (simp_all add: f)
  obtain r m1 where m1: "LZ4F_decoder ?a m0 d0 (selectedIn v) p = Some (r, m1)" "frame m0 m1 p (p + x_maxBlockSize d0)" "r \<le> x_maxBlockSize d0"
  proof (rule decoder_ok [OF R0 t0 I0 reg])
    assume L: "blockMode (x_frameInfo d0) = LZ4F_blockLinked"
    note da = dict_apart [OF C0 R0 D0 L, unfolded f]
    have "s = 0 \<or> x_dict ?d + s \<le> p \<or> p + x_maxBlockSize ?d \<le> x_dict ?d"
      using P(4,5,7) da(5) L f by (cases "x_dict ?d = ?q") auto
    with da(1-3) show "0 \<le> x_dictSize d0 \<and> x_dictSize d0 < 2147483648 \<and> mapped m0 (x_dict d0) (x_dict d0 + x_dictSize d0) \<and>
         (x_dictSize d0 = 0 \<or> x_dict d0 + x_dictSize d0 \<le> p \<or> p + x_maxBlockSize d0 \<le> x_dict d0)" by (simp add: f)
  qed (use that in blast)
  have k1: "kept K ?W (w_m v) m1"
    by (rule kept_trans [OF P(3) kept_frame [OF m1(2) region_kept [OF B(2)]]]) (use P(4,5) f in auto)
  note dm = frame_dom [OF m1(2)]
  have C1: "core_inv k K m1 d0 (w_srcPtr v) (w_dstPtr v)" by (rule core_step [OF C0 dm]) (use core_bounds [OF C0] in auto)
  have R1: "frame_ready ?a K m1 d0" using R0 ready_cong [OF dm] by blast
  show ?thesis
  proof (cases "r < 0")
    case True
    then show ?thesis using k1 P(1) m1(1)
      by (auto simp: LZ4F_stage_intoTmp_def d0_def [symmetric] f intro!: step_post_error)
  next
    case False
    have M: "mapped m1 p (p + r)" unfolding mapped_cong [OF dm] by (rule mapped_mono [OF reg(3)]) (use m1(3) in auto)
    obtain z u where c: "LZ4F_content ?a m1 d0 p r = Some (d0\<lparr>x_xxh := z, frameRemainingSize := u\<rparr>)" "length (mem32 z) = 16"
      "contentChecksumFlag (x_frameInfo d0) \<noteq> 0 \<longrightarrow> (\<exists>xs. xxh32_repr 0 z xs)"
      by (rule content_ok [OF R1 M _ _ core_bounds(5) [OF C1]]) (use False m1(3) B(4) f in auto)
    let ?d2 = "d0\<lparr>x_xxh := z, frameRemainingSize := u\<rparr>"
    have fl: "flush_inv (?d2\<lparr>tmpOutSize := r, tmpOutStart := 0, dStage := dstage_flushOut\<rparr>)"
      using False m1(3) P(4,5,7) by (auto simp: flush_inv_def f split: if_splits)
    have "step_post k K v (None, LZ4F_goto (v\<lparr>w_m := m1, w_dctx := ?d2\<lparr>tmpOutSize := r, tmpOutStart := 0\<rparr>\<rparr>) dstage_flushOut)"
      using core_content [OF C1 c(2)] ready_content [OF R1 c(3)] D0 fl k1 A S(1) b
      by (intro step_postI) (auto simp: f intro!: measure_rank)
    then show ?thesis using False P(1) m1(1) c(1) by (simp add: LZ4F_stage_intoTmp_def d0_def [symmetric] f)
  qed
qed

lemma stage_flushOut_ok:
  assumes C: "core_inv k K (w_m v) (w_dctx v) (w_srcPtr v) (w_dstPtr v)" and S: "dStage (w_dctx v) = dstage_flushOut"
    "stage_inv k K (w_m v) (w_dctx v) (w_dstPtr v) (selectedIn v) dstage_flushOut" and A: "w_again v"
  shows "ok (step_post k K v) (LZ4F_stage_flushOut k v)"
proof -
  let ?d = "w_dctx v" and ?a = "env_arch (w_env k)" and ?W = "written k (x_header (w_dctx v))"
  note b = core_bounds [OF C]
  have R: "frame_ready ?a K (w_m v) ?d" and D: "dict_inv (w_dstStart k) (w_dstPtr v) ?d" and F: "flush_inv ?d" using S by auto
  note B = ready_bufs [OF R]
  have o: "0 \<le> tmpOutStart ?d" "tmpOutStart ?d \<le> tmpOutSize ?d" "tmpOutBuffer ?d \<le> tmpOut ?d" "tmpOut ?d + tmpOutSize ?d \<le> tmpOutBuffer ?d + x_maxBufferSize ?d"
    using F by (auto simp: flush_inv_def)
  define n where "n = min (tmpOutSize ?d - tmpOutStart ?d) (w_dstEnd k - w_dstPtr v)"
  have n: "0 \<le> n" "n \<le> tmpOutSize ?d - tmpOutStart ?d" "w_dstPtr v + n \<le> w_dstEnd k" using o b by (auto simp: n_def)
  have sub: "size_sub ?a (tmpOutSize ?d) (tmpOutStart ?d) = tmpOutSize ?d - tmpOutStart ?d"
    using o B(6) size_mod_ge [of ?a] by (simp add: size_sub_def)
  have src: "mapped (w_m v) (tmpOut ?d + tmpOutStart ?d) (tmpOut ?d + tmpOutStart ?d + n)"
    using B(2) o n unfolding region_def by (auto elim!: mapped_mono)
  have dst: "mapped (w_m v) (w_dstPtr v) (w_dstPtr v + n)" by (rule mapped_mono [OF core_mapped(3) [OF C]]) (use n b in auto)
  have "{w_dstPtr v..<w_dstPtr v + n} \<inter> K \<subseteq> ?W" using n b by (auto simp: written_def)
  from okD [OF memcpy_kept [OF src dst n(1) this]] obtain m1 where m1: "memcpy (w_m v) (w_dstPtr v) (tmpOut ?d + tmpOutStart ?d) (nat n) = Some m1"
    "dom m1 = dom (w_m v)" "kept K ?W (w_m v) m1" by auto
  have C1: "core_inv k K m1 ?d (w_srcPtr v) (w_dstPtr v)" by (rule core_step [OF C m1(2)]) (use b in auto)
  have R1: "frame_ready ?a K m1 ?d" using R ready_cong [OF m1(2)] by blast
  obtain m2 p s where l: "LZ4F_linkDict m1 ?d (w_dstPtr v) n (w_dstStart k) True = Some (m2, ?d\<lparr>x_dict := p, x_dictSize := s\<rparr>)"
    "dict_inv (w_dstStart k) (w_dstPtr v + n) (?d\<lparr>x_dict := p, x_dictSize := s\<rparr>)" "dom m2 = dom m1" "kept K ?W m1 m2"
    "True \<longrightarrow> tmpOutStart ?d + n < tmpOutSize ?d \<longrightarrow> flush_inv (?d\<lparr>x_dict := p, x_dictSize := s, tmpOutStart := tmpOutStart ?d + n\<rparr>)"
    by (rule linkDict_ok [OF R1 D b(8) b(3) n(3,1) core_mapped(3) [OF C1], where within = True and W = ?W]) (use F n(2) in blast)+
  have kp: "kept K ?W (w_m v) m2" using m1(3) l(4) by (rule kept_trans)
  let ?d2 = "?d\<lparr>x_dict := p, x_dictSize := s, tmpOutStart := tmpOutStart ?d + n\<rparr>"
  have C2: "core_inv k K m2 ?d2 (w_srcPtr v) (w_dstPtr v + n)" by (rule core_step [OF C1 l(3)]) (use b n in auto)
  have R2: "frame_ready ?a K m2 ?d2" using R1 unfolding ready_cong [OF l(3)] by simp
  have eq: "LZ4F_stage_flushOut k v =
     (if tmpOutStart ?d + n = tmpOutSize ?d
      then Some (None, LZ4F_goto (v\<lparr>w_m := m2, w_dctx := ?d2, w_dstPtr := w_dstPtr v + n\<rparr>) dstage_getCBlockSize)
      else LZ4F_stop (v\<lparr>w_m := m2, w_dctx := ?d2, w_dstPtr := w_dstPtr v + n\<rparr>) BHSize)"
  proof -
    have nn: "(if tmpOutSize ?d - tmpOutStart ?d > w_dstEnd k - w_dstPtr v then w_dstEnd k - w_dstPtr v else tmpOutSize ?d - tmpOutStart ?d) = n"
      by (simp add: n_def min_def)
    show ?thesis unfolding LZ4F_stage_flushOut_def Let_def sub nn m1(1) l(1) bind.bind_lunit by simp
  qed
  show ?thesis
  proof (cases "tmpOutStart ?d + n = tmpOutSize ?d")
    case True
    then show ?thesis unfolding eq using C2 R2 l(2) kp A S(1) b
      by (auto intro!: step_postI measure_rank)
  next
    case False
    with n have "flush_inv ?d2" "w_dstPtr v + n = w_dstEnd k" using l(5) by (auto simp: n_def)
    with False show ?thesis unfolding eq using C2 R2 l(2) kp S(1)
      by (auto simp: stop_post transient_def stop_inv_def intro!: step_postI)
  qed
qed

end
