(* ===== verification/Lz4_Frame_Safe.thy ===== *)
theory Lz4_Frame_Safe
  imports Lz4_Frame_Stages
begin

text \<open>
  Calls of \<open>LZ4F_decompress\<close>: the loop terminates, the dictionary is preserved between calls, and a call is memory safe and makes
  progress on any input.
\<close>

section \<open>The loop\<close>

lemma stage_ok:
  assumes I: "loop_inv k K v" and A: "w_again v"
  shows "ok (step_post k K v) (LZ4F_stage k v)"
proof -
  have C: "core_inv k K (w_m v) (w_dctx v) (w_srcPtr v) (w_dstPtr v)"
    and S: "stage_inv k K (w_m v) (w_dctx v) (w_dstPtr v) (selectedIn v) (dStage (w_dctx v))" using I by (auto simp: loop_inv_def)
  show ?thesis
  proof (cases "dStage (w_dctx v)")
    case dstage_getHeader
    then show ?thesis using stage_getHeader_ok [OF I _ A] by (simp add: LZ4F_stage_def)
  next
    case dstage_storeHeader
    then show ?thesis using stage_storeHeader_ok [OF C _ _ A] S by (simp add: LZ4F_stage_def)
  next
    case dstage_getCBlockSize
    then show ?thesis using stage_getCBlockSize_ok [OF C _ _ A] S by (simp add: LZ4F_stage_def)
  next
    case dstage_storeCBlockSize
    then show ?thesis using stage_storeCBlockSize_ok [OF C _ _ A] S by (simp add: LZ4F_stage_def)
  next
    case dstage_copyDirect
    then show ?thesis using stage_copyDirect_ok [OF C _ _ A] S by (simp add: LZ4F_stage_def)
  next
    case dstage_getCBlock
    then show ?thesis using stage_getCBlock_ok [OF C _ _ A] S by (simp add: LZ4F_stage_def)
  next
    case dstage_storeCBlock
    then show ?thesis using stage_storeCBlock_ok [OF C _ _ A] S by (simp add: LZ4F_stage_def)
  next
    case dstage_decodeCBlock
    then show ?thesis using stage_decodeCBlock_ok [OF C _ _ A] S by (simp add: LZ4F_stage_def)
  next
    case dstage_decodeCBlock_intoDst
    then show ?thesis using stage_intoDst_ok [OF C _ _ A] S by (simp add: LZ4F_stage_def)
  next
    case dstage_decodeCBlock_intoTmp
    then show ?thesis using stage_intoTmp_ok [OF C _ _ A] S by (simp add: LZ4F_stage_def)
  next
    case dstage_flushOut
    then show ?thesis using stage_flushOut_ok [OF C _ _ A] S by (simp add: LZ4F_stage_def)
  next
    case dstage_getSuffix
    then show ?thesis using stage_getSuffix_ok [OF C] S by (simp add: LZ4F_stage_def)
  next
    case dstage_storeSuffix
    then show ?thesis using stage_storeSuffix_ok [OF C] S by (simp add: LZ4F_stage_def)
  next
    case dstage_getSFrameSize
    then show ?thesis using stage_getSFrameSize_ok [OF C _ A] by (simp add: LZ4F_stage_def)
  next
    case dstage_storeSFrameSize
    then show ?thesis using stage_storeSFrameSize_ok [OF C _ _ A] S by (simp add: LZ4F_stage_def)
  next
    case dstage_skipSkippable
    then show ?thesis using stage_skipSkippable_ok [OF C] S by (simp add: LZ4F_stage_def)
  qed
qed

definition loop_post :: "LZ4F_call \<Rightarrow> addr set \<Rightarrow> LZ4F_vars \<Rightarrow> int option \<times> LZ4F_vars \<Rightarrow> bool" where
  "loop_post k K v = (\<lambda>(r, v').
     kept K (written k (x_header (w_dctx v))) (w_m v) (w_m v') \<and> x_header (w_dctx v') = x_header (w_dctx v) \<and>
     (case r of None \<Rightarrow> loop_inv k K v' \<and> \<not> w_again v' \<and> stop_inv k v' \<and> w_srcPtr v \<le> w_srcPtr v' | Some c \<Rightarrow> LZ4F_isError (env_arch (w_env k)) c))"

lemma loop_ok: "loop_inv k K v \<Longrightarrow> w_again v \<Longrightarrow> ok (loop_post k K v) (LZ4F_loop k v)"
proof (induction "loop_measure k v" arbitrary: v rule: less_induct)
  case less
  from okD [OF stage_ok [OF less.prems]] obtain r v1 where st: "LZ4F_stage k v = Some (r, v1)" "step_post k K v (r, v1)" by auto
  show ?case
  proof (cases r)
    case (Some c)
    then show ?thesis using less.prems st by (subst LZ4F_loop.simps) (simp add: loop_post_def step_post_def)
  next
    case None
    have p: "kept K (written k (x_header (w_dctx v))) (w_m v) (w_m v1)" "x_header (w_dctx v1) = x_header (w_dctx v)" "loop_inv k K v1" "w_srcPtr v \<le> w_srcPtr v1"
      "if w_again v1 then loop_measure k v1 < loop_measure k v else stop_inv k v1" using st(2) None by (auto simp: step_post_def)
    have "ok (loop_post k K v1) (LZ4F_loop k v1)"
    proof (cases "w_again v1")
      case True
      with p less.hyps show ?thesis by simp
    next
      case False
      then show ?thesis using p(3,5) by (subst LZ4F_loop.simps) (simp add: loop_post_def)
    qed
    then have "ok (loop_post k K v) (LZ4F_loop k v1)"
      by (rule ok_mono) (use p kept_trans in \<open>auto simp: loop_post_def split: prod.splits option.splits\<close>)
    then show ?thesis using less.prems st None by (subst LZ4F_loop.simps) simp
  qed
qed

section \<open>Between calls\<close>

text \<open>The invariant of a context between calls: its buffers, the progress of the stage it waits in, and, within the blocks of a
  frame with linked blocks, a dictionary in \<open>tmpOutBuffer\<close>.\<close>

definition dctx_inv :: "lz4f_env \<Rightarrow> addr set \<Rightarrow> mem \<Rightarrow> LZ4F_dctx_t \<Rightarrow> bool" where
  "dctx_inv e K m d \<longleftrightarrow>
     length (mem32 (x_xxh d)) = 16 \<and> alloc_ok (env_arch e) K m d \<and> \<not> transient (dStage d) \<and>
     stage_inv \<lparr>w_env = e, w_srcEnd = 0, w_dstStart = 0, w_dstEnd = 0\<rparr> K m d 0 0 (dStage d) \<and>
     (blockMode (x_frameInfo d) = LZ4F_blockLinked \<and> 2 \<le> dstage_value (dStage d) \<and> dstage_value (dStage d) \<le> 10 \<longrightarrow> x_dict d = tmpOutBuffer d)"

lemma dict_inv_tmp:
  "dict_inv lo hi d \<Longrightarrow> (blockMode (x_frameInfo d) = LZ4F_blockLinked \<longrightarrow> x_dict d = tmpOutBuffer d) \<Longrightarrow> dict_inv lo' hi' d"
  by (simp add: dict_inv_def)

lemma stage_inv_entry: "dctx_inv e K m d \<Longrightarrow> w_env k = e \<Longrightarrow> stage_inv k K m d dp s (dStage d)"
  unfolding dctx_inv_def transient_def
  by (cases "dStage d") (auto intro: dict_inv_tmp)






lemma srcExpect_updates [simp]:
  "frame_ready a K m (d\<lparr>srcExpect := p\<rparr>) = frame_ready a K m d" "dict_inv lo hi (d\<lparr>srcExpect := p\<rparr>) = dict_inv lo hi d"
  "flush_inv (d\<lparr>srcExpect := p\<rparr>) = flush_inv d" "alloc_ok a K m (d\<lparr>srcExpect := p\<rparr>) = alloc_ok a K m d"
  by (simp_all add: frame_ready_def bufs_ok_def dict_inv_def flush_inv_def alloc_ok_def)

section \<open>A call\<close>

text \<open>The buffers of a call: they, the byte after the input and the context belong to the caller and lie below the last two gigabytes;
  the input is apart from the context's header.\<close>

definition call_buffers :: "lz4f_env \<Rightarrow> addr set \<Rightarrow> mem \<Rightarrow> LZ4F_dctx_t \<Rightarrow> addr \<Rightarrow> int \<Rightarrow> addr \<Rightarrow> int \<Rightarrow> bool" where
  "call_buffers e K m d dst n src k \<longleftrightarrow>
     K \<subseteq> dom m \<and> 0 \<le> dst \<and> 0 \<le> n \<and> n < 2147483648 \<and> 0 \<le> src \<and> 0 \<le> k \<and>
     low (env_arch e) (dst + n) \<and> low (env_arch e) (src + k) \<and>
     {dst..<dst + n} \<subseteq> K \<and> {x_header d..<x_header d + 16} \<subseteq> K \<and>
     (0 < k \<longrightarrow> {src..src + k} \<subseteq> K \<and> (src + k \<le> x_header d \<or> x_header d + 16 \<le> src))"

text \<open>The conditions of a call: the allocator, the buffers and the invariant of the context. In the stage \<open>dstage_getHeader\<close> with less
  than a full header, the dictionary must not be one of an earlier frame in a buffer of the caller: the stage test
  before the copy to \<open>tmpOutBuffer\<close> at the end of \<open>LZ4F_decompress\<close> lets that copy read it (\<open>LZ4F_decompress_stale_dictionary\<close> in \<open>Lz4_Frame_Limits\<close>).\<close>

definition decompress_call :: "lz4f_env \<Rightarrow> addr set \<Rightarrow> mem \<Rightarrow> LZ4F_dctx_t \<Rightarrow> addr \<Rightarrow> int \<Rightarrow> addr \<Rightarrow> int \<Rightarrow> bool" where
  "decompress_call e K m d dst n src k \<longleftrightarrow>
     calloc_ok e \<and> free_ok e K \<and> call_buffers e K m d dst n src k \<and> dctx_inv e K m d \<and>
     (dStage d = dstage_getHeader \<and> k < 15 \<longrightarrow> x_dict d = tmpOutBuffer d)"

lemmas decompress_call_defs = decompress_call_def call_buffers_def



section \<open>Memory safety and progress of \<open>LZ4F_decompress\<close>\<close>

lemma decompress_call_example:
  "decompress_call env_example {100..<1000} mem_example dctx_example 200 300 600 20"
  "decompress_call env_example {100..<1000} mem_example dctx_example 200 300 600 3"
  using env_example_ok
  by (auto simp: decompress_call_defs dctx_inv_def mem_example_def dctx_example_def alloc_ok_def transient_def zero_xxh_def
      low_def size_mod_def env_example_def split: if_splits)






text \<open>The loop, with a bound on the number of its stages.\<close>

fun stages :: "nat \<Rightarrow> LZ4F_call \<Rightarrow> LZ4F_vars \<Rightarrow> stage_result" where
  "stages 0 k v = None"
| "stages (Suc n) k v =
     (if w_again v
      then do { (r, v) \<leftarrow> LZ4F_stage k v; case r of Some errorCode \<Rightarrow> Some (Some errorCode, v) | None \<Rightarrow> stages n k v }
      else Some (None, v))"

lemma stages_ok: "loop_inv k K v \<Longrightarrow> w_again v \<Longrightarrow> loop_measure k v + 2 \<le> n \<Longrightarrow> stages n k v = LZ4F_loop k v"
proof (induction n arbitrary: v)
  case (Suc n)
  from okD [OF stage_ok [OF Suc.prems(1,2)]] obtain r v1 where st: "LZ4F_stage k v = Some (r, v1)" "step_post k K v (r, v1)" by auto
  have "stages n k v1 = LZ4F_loop k v1" if "r = None"
  proof (cases "w_again v1")
    case True
    then have "loop_inv k K v1" "loop_measure k v1 < loop_measure k v" using st(2) that by (auto simp: step_post_def)
    then show ?thesis using True Suc.IH Suc.prems(3) by simp
  next
    case False
    obtain n' where "n = Suc n'" using Suc.prems(3) by (cases n) auto
    then show ?thesis using False by (simp add: LZ4F_loop.simps)
  qed
  then show ?case using Suc.prems(2) st(1) by (subst LZ4F_loop.simps) (auto split: option.splits)
qed simp

text \<open>C21: The loop of \<open>LZ4F_decompress\<close> ends after a number of stages that is linear in the size of its input, whatever the input: at most
  eight for every byte, and eight.\<close>
theorem LZ4F_decompress_terminates:
  assumes "decompress_call e K m d dst n src k"
  defines "c \<equiv> \<lparr>w_env = e, w_srcEnd = src + k, w_dstStart = dst, w_dstEnd = dst + n\<rparr>"
  defines "v \<equiv> \<lparr>w_m = m, w_dctx = d, w_srcPtr = src, w_dstPtr = dst, selectedIn = 0, w_again = True, w_hint = 1\<rparr>"
  shows "stages (8 * nat k + 8) c v = LZ4F_loop c v \<and> LZ4F_loop c v \<noteq> None"
proof -
  have I: "loop_inv c K v" "w_again v"
    using assms(1) stage_inv_entry [of e K m d c dst 0]
    by (auto simp: decompress_call_defs loop_inv_def core_inv_def call_inv_def c_def v_def dctx_inv_def)
  have "stage_rank (dStage d) \<le> 5" by (cases "dStage d") auto
  then have "loop_measure c v + 2 \<le> 8 * nat k + 8" by (simp add: loop_measure_def c_def v_def)
  with I show ?thesis using stages_ok [OF I] okD [OF loop_ok [OF I]] by auto
qed

theorem LZ4F_decompress_terminates_witness:
  "\<exists>r. stages 168 \<lparr>w_env = env_example, w_srcEnd = 620, w_dstStart = 200, w_dstEnd = 500\<rparr>
     \<lparr>w_m = mem_example, w_dctx = dctx_example, w_srcPtr = 600, w_dstPtr = 200, selectedIn = 0, w_again = True, w_hint = 1\<rparr> = Some r"
  using LZ4F_decompress_terminates [OF decompress_call_example(1)] by auto

end
