(* ===== verification/Lz4_Frame_Spec.thy ===== *)
theory Lz4_Frame_Spec
  imports Lz4_Frame_Format
begin

text \<open>
  The frame format: blocks, their content, and whole frames as bytes.
\<close>

section \<open>Copying bytes\<close>

lemma memcpy_bytes:
  assumes "bytes_at m s bs" "mapped m d (d + int (length bs))"
  shows "ok (\<lambda>m'. frame m m' d (d + int (length bs)) \<and> bytes_at m' d bs) (memcpy m d s (length bs))"
  by (rule ok_mono [OF memcpy_ok [OF bytes_at_mapped [OF assms(1)] assms(2)]])
     (use assms(1) in \<open>auto simp: bytes_at_def add.commute\<close>)

section \<open>Frames\<close>

text \<open>A block of a frame: stored bytes, or a compressed block. In a frame of linked blocks (\<open>L\<close>) a block may refer to all the
  content before it.\<close>

datatype fblock = Stored "byte list" | Packed "seq list \<times> byte list"

fun fblock_data :: "fblock \<Rightarrow> byte list" where
  "fblock_data (Stored xs) = xs"
| "fblock_data (Packed blk) = encode blk"

fun fblock_flag :: "fblock \<Rightarrow> int" where
  "fblock_flag (Stored xs) = LZ4F_BLOCKUNCOMPRESSED_FLAG"
| "fblock_flag (Packed blk) = 0"

definition fblock_bytes :: "fblock \<Rightarrow> byte list" where
  "fblock_bytes b = le_bytes 4 (int (length (fblock_data b)) + fblock_flag b) @ fblock_data b"

fun fblock_out :: "bool \<Rightarrow> byte list \<Rightarrow> fblock \<Rightarrow> byte list" where
  "fblock_out L hist (Stored xs) = xs"
| "fblock_out L hist (Packed blk) = decoded (if L then hist else []) blk"

fun fblock_ok :: "bool \<Rightarrow> nat \<Rightarrow> nat \<Rightarrow> fblock \<Rightarrow> bool" where
  "fblock_ok L B h (Stored xs) = (xs \<noteq> [] \<and> length xs \<le> B)"
| "fblock_ok L B h (Packed blk) =
     (valid_block (if L then h else 0) blk \<and> length (encode blk) \<le> B \<and> 0 < block_size blk \<and> block_size blk \<le> B)"

text \<open>The content of a list of blocks after \<open>hist\<close>.\<close>

fun blocks_out :: "bool \<Rightarrow> byte list \<Rightarrow> fblock list \<Rightarrow> byte list" where
  "blocks_out L hist [] = []"
| "blocks_out L hist (b # bs) = fblock_out L hist b @ blocks_out L (hist @ fblock_out L hist b) bs"

fun blocks_ok :: "bool \<Rightarrow> nat \<Rightarrow> byte list \<Rightarrow> fblock list \<Rightarrow> bool" where
  "blocks_ok L B hist [] = True"
| "blocks_ok L B hist (b # bs) = (fblock_ok L B (length hist) b \<and> blocks_ok L B (hist @ fblock_out L hist b) bs)"

definition blocks_bytes :: "fblock list \<Rightarrow> byte list" where
  "blocks_bytes bs = concat (map fblock_bytes bs)"

text \<open>What follows the blocks: the end mark, and the checksum of the content.\<close>

definition end_bytes :: "LZ4F_frameInfo_t \<Rightarrow> byte list \<Rightarrow> byte list" where
  "end_bytes fi xs = le_bytes 4 0 @ (if contentChecksumFlag fi \<noteq> 0 then le_bytes 4 (uint (xxh32 0 xs)) else [])"

definition frame_content :: "LZ4F_frameInfo_t \<Rightarrow> fblock list \<Rightarrow> byte list" where
  "frame_content fi bs = blocks_out (blockMode fi = LZ4F_blockLinked) [] bs"

definition frame_bytes :: "LZ4F_frameInfo_t \<Rightarrow> fblock list \<Rightarrow> byte list" where
  "frame_bytes fi bs = header_bytes fi @ blocks_bytes bs @ end_bytes fi (frame_content fi bs)"

definition frame_ok :: "arch \<Rightarrow> LZ4F_frameInfo_t \<Rightarrow> fblock list \<Rightarrow> bool" where
  "frame_ok a fi bs \<longleftrightarrow> info_ok fi \<and>
     blocks_ok (blockMode fi = LZ4F_blockLinked) (nat (LZ4F_getBlockSize a (blockSizeID fi))) [] bs \<and>
     (contentSize fi = 0 \<or> contentSize fi = int (length (frame_content fi bs)))"

lemma length_fblock_bytes [simp]: "length (fblock_bytes b) = 4 + length (fblock_data b)"
  by (simp add: fblock_bytes_def)

lemma blocks_bytes_simps [simp]: "blocks_bytes [] = []" "blocks_bytes (b # bs) = fblock_bytes b @ blocks_bytes bs"
  by (simp_all add: blocks_bytes_def)

lemma length_end_bytes: "length (end_bytes fi xs) = (if contentChecksumFlag fi \<noteq> 0 then 8 else 4)"
  by (simp add: end_bytes_def)

lemma fblock_data_nonempty: "fblock_ok L B h b \<Longrightarrow> fblock_data b \<noteq> []"
  by (cases b) (simp_all add: encode_def enc_last_def)

lemma fblock_data_size: "fblock_ok L B h b \<Longrightarrow> length (fblock_data b) \<le> B"
  by (cases b) simp_all

lemma fblock_out_nonempty: "fblock_ok L B h b \<Longrightarrow> fblock_out L hist b \<noteq> []"
  by (cases b) (auto simp: simp flip: length_greater_0_conv)

lemma fblock_out_size: "fblock_ok L B h b \<Longrightarrow> length (fblock_out L hist b) \<le> B"
  by (cases b) (simp_all add: length_decoded)

end
