(* ===== verification/Lz4_Frame_Decode.thy ===== *)
theory Lz4_Frame_Decode
  imports Lz4_Frame_Safe Lz4_Frame_Spec
begin

text \<open>
  \<open>LZ4F_decompress\<close> on valid frames: what each block adds to the output, the checksum and the dictionary, the end of a frame, and a whole
  frame in one call.
\<close>

section \<open>The decoder on valid frames\<close>

text \<open>The context after the content \<open>out\<close> has been written from \<open>lo\<close> on: the checksum, the size that remains, and for linked blocks
  the dictionary, are those of \<open>out\<close>.\<close>

definition dec_ctx :: "arch \<Rightarrow> LZ4F_frameInfo_t \<Rightarrow> addr \<Rightarrow> byte list \<Rightarrow> LZ4F_dctx_t \<Rightarrow> bool" where
  "dec_ctx a fi lo out d \<longleftrightarrow>
     x_frameInfo d = fi \<and> x_maxBlockSize d = LZ4F_getBlockSize a (blockSizeID fi) \<and>
     (contentChecksumFlag fi \<noteq> 0 \<longrightarrow> xxh32_repr 0 (x_xxh d) out) \<and>
     frameRemainingSize d = (if contentSize fi \<noteq> 0 then contentSize fi - int (length out) else 0) \<and>
     (blockMode fi = LZ4F_blockLinked \<longrightarrow> x_dictSize d = int (length out) \<and> x_dict d = (if out = [] then tmpOutBuffer d else lo))"

lemma content_bytes:
  assumes f: "x_frameInfo d = fi" "contentChecksumFlag fi \<noteq> 0 \<longrightarrow> xxh32_repr 0 (x_xxh d) out"
      "frameRemainingSize d = (if contentSize fi \<noteq> 0 then contentSize fi - int (length out) else 0)"
    and c: "contentSize fi = 0 \<or> int (length out + length ys) \<le> contentSize fi \<and> contentSize fi < 2 ^ 64"
    and y: "bytes_at m p ys" "length ys < 2147483648" and l: "length (mem32 (x_xxh d)) = 16"
  obtains s where "LZ4F_content a m d p (int (length ys)) =
       Some (d\<lparr>x_xxh := s, frameRemainingSize := (if contentSize fi \<noteq> 0 then contentSize fi - int (length (out @ ys)) else 0)\<rparr>)"
    "contentChecksumFlag fi \<noteq> 0 \<longrightarrow> xxh32_repr 0 s (out @ ys)" "length (mem32 s) = 16"
proof -
  have r: "contentSize fi \<noteq> 0 \<Longrightarrow> (contentSize fi - int (length out) - int (length ys)) mod 2 ^ 64 = contentSize fi - int (length (out @ ys))"
    using c by (subst mod_pos_pos_trivial) auto
  have r': "contentSize fi = 0 \<Longrightarrow> d'\<lparr>frameRemainingSize := 0\<rparr> = d'" if "frameRemainingSize d' = frameRemainingSize d" for d'
    using f(3) that by (metis LZ4F_dctx_t.surjective LZ4F_dctx_t.update_convs(4) LZ4F_dctx_t.select_convs(4))
  show ?thesis
  proof (cases "contentChecksumFlag fi = 0")
    case True
    have "LZ4F_content a m d p (int (length ys)) =
       Some (d\<lparr>x_xxh := x_xxh d, frameRemainingSize := (if contentSize fi \<noteq> 0 then contentSize fi - int (length (out @ ys)) else 0)\<rparr>)"
      using True f r r' [of d] by (simp add: LZ4F_content_def)
    with that True l show ?thesis by blast
  next
    case False
    then have "xxh32_repr 0 (x_xxh d) out" using f(2) by simp
    from okD [OF XXH32_update_ok [OF this y(1), of a]] y(2) size_mod_ge [of a] obtain s where
      s: "XXH32_update a m (x_xxh d) p (int (length ys)) = Some (XXH_OK, s)" "xxh32_repr 0 s (out @ ys)" by auto
    have "LZ4F_content a m d p (int (length ys)) =
       Some (d\<lparr>x_xxh := s, frameRemainingSize := (if contentSize fi \<noteq> 0 then contentSize fi - int (length (out @ ys)) else 0)\<rparr>)"
      using False f s(1) r r' [of "d\<lparr>x_xxh := s\<rparr>"] by (simp add: LZ4F_content_def)
    with that s(2) show ?thesis by (auto simp: xxh32_repr_def)
  qed
qed

lemma linkDict_bytes:
  assumes "blockMode (x_frameInfo d) = LZ4F_blockLinked \<longrightarrow> x_dictSize d = int (length out) \<and> (out \<noteq> [] \<longrightarrow> x_dict d = lo)"
  shows "LZ4F_linkDict m d (lo + int (length out)) n lo w =
     Some (m, if blockMode (x_frameInfo d) = LZ4F_blockLinked then d\<lparr>x_dict := lo, x_dictSize := int (length out) + n\<rparr> else d)"
  using assms by (cases "out = []") (auto simp: LZ4F_linkDict_def LZ4F_updateDict_def Let_def)

text \<open>The state of the loop between two blocks.\<close>

definition dec_state :: "LZ4F_call \<Rightarrow> addr set \<Rightarrow> LZ4F_frameInfo_t \<Rightarrow> byte list \<Rightarrow> LZ4F_vars \<Rightarrow> bool" where
  "dec_state k K fi out v \<longleftrightarrow>
     core_inv k K (w_m v) (w_dctx v) (w_srcPtr v) (w_dstPtr v) \<and> frame_ready (env_arch (w_env k)) K (w_m v) (w_dctx v) \<and>
     w_again v \<and> dStage (w_dctx v) = dstage_getCBlockSize \<and> dec_ctx (env_arch (w_env k)) fi (w_dstStart k) out (w_dctx v) \<and>
     w_dstPtr v = w_dstStart k + int (length out) \<and> bytes_at (w_m v) (w_dstStart k) out \<and>
     (w_srcEnd k \<le> w_dstStart k \<or> w_dstEnd k \<le> w_srcPtr v)"

lemma loop_step: "w_again v \<Longrightarrow> LZ4F_stage k v = Some (None, v') \<Longrightarrow> LZ4F_loop k v = LZ4F_loop k v'"
  by (subst LZ4F_loop.simps) simp

text \<open>The size of the next block.\<close>

lemma block_header:
  assumes b: "bytes_at m p (fblock_bytes b)" and s: "fblock_ok L B h b" "B \<le> 4194304"
  shows "LZ4F_readLE32 m p = Some (int (length (fblock_data b)) + fblock_flag b)" "bytes_at m (p + 4) (fblock_data b)"
    "(int (length (fblock_data b)) + fblock_flag b) mod 2 ^ 31 = int (length (fblock_data b))"
    "0 < int (length (fblock_data b))" "int (length (fblock_data b)) \<le> int B"
proof -
  have n: "0 < int (length (fblock_data b))" "int (length (fblock_data b)) \<le> int B" "int (length (fblock_data b)) < 2147483648"
    using fblock_data_nonempty [OF s(1)] fblock_data_size [OF s(1)] s(2) by auto
  then show "0 < int (length (fblock_data b))" "int (length (fblock_data b)) \<le> int B" by simp_all
  show "bytes_at m (p + 4) (fblock_data b)" using b by (simp add: fblock_bytes_def bytes_at_append)
  have "bytes_at m p (le_bytes 4 (int (length (fblock_data b)) + fblock_flag b))" using b by (simp add: fblock_bytes_def bytes_at_append)
  from LZ4F_readLE32_eq [OF this] n show "LZ4F_readLE32 m p = Some (int (length (fblock_data b)) + fblock_flag b)"
    by (cases b) (simp_all add: le_val_id)
  show "(int (length (fblock_data b)) + fblock_flag b) mod 2 ^ 31 = int (length (fblock_data b))"
    using n by (cases b) simp_all
qed

lemma kept_bytes:
  assumes "kept K W m m'" "bytes_at m p xs" "{p..<p + int (length xs)} \<subseteq> K - W"
  shows "bytes_at m' p xs"
  unfolding bytes_at_def
proof (intro allI impI)
  fix i assume i: "i < length xs"
  then have "p + int i \<in> {p..<p + int (length xs)}" by simp
  with assms(1,3) have "m' (p + int i) = m (p + int i)" unfolding kept_def by blast
  with bytes_at_nth [OF assms(2) i] show "m' (p + int i) = Some (xs ! i)" by simp
qed

lemma frame_kept: "frame m m' lo hi \<Longrightarrow> {lo..<hi} \<inter> K \<subseteq> W \<Longrightarrow> kept K W m m'"
  unfolding kept_def frame_def by (metis Diff_iff IntI atLeastLessThan_iff domIff not_less subsetD)

lemma ready_same:
  assumes "frame_ready a K m d" "dom m' = dom m" "x_maxBufferSize d' = x_maxBufferSize d" "x_tmpIn d' = x_tmpIn d" "tmpOutBuffer d' = tmpOutBuffer d"
    "x_maxBlockSize d' = x_maxBlockSize d" "x_frameInfo d' = x_frameInfo d"
    "contentChecksumFlag (x_frameInfo d) \<noteq> 0 \<longrightarrow> (\<exists>xs. xxh32_repr 0 (x_xxh d') xs)" "blockMode (x_frameInfo d) \<noteq> LZ4F_blockLinked \<longrightarrow> tmpOut d' = tmpOut d"
  shows "frame_ready a K m' d'"
  using assms unfolding ready_cong [OF assms(2)] by (simp add: frame_ready_def bufs_ok_def)

definition block_done :: "LZ4F_call \<Rightarrow> addr set \<Rightarrow> LZ4F_frameInfo_t \<Rightarrow> byte list \<Rightarrow> int \<Rightarrow> LZ4F_vars \<Rightarrow> LZ4F_vars \<Rightarrow> bool" where
  "block_done k K fi out n v v' \<longleftrightarrow>
     LZ4F_loop k v = LZ4F_loop k v' \<and> dec_state k K fi out v' \<and> w_srcPtr v' = w_srcPtr v + n \<and>
     kept K {w_dstStart k..<w_dstEnd k} (w_m v) (w_m v') \<and> x_header (w_dctx v') = x_header (w_dctx v)"

text \<open>What a block of the frame has room for, and what its content adds up to.\<close>

definition block_fits :: "LZ4F_call \<Rightarrow> LZ4F_frameInfo_t \<Rightarrow> byte list \<Rightarrow> byte list \<Rightarrow> LZ4F_vars \<Rightarrow> fblock \<Rightarrow> bool" where
  "block_fits k fi out ys v b \<longleftrightarrow>
     bytes_at (w_m v) (w_srcPtr v) (fblock_bytes b) \<and> w_srcPtr v + int (length (fblock_bytes b)) \<le> w_srcEnd k \<and>
     fblock_ok (blockMode fi = LZ4F_blockLinked) (nat (LZ4F_getBlockSize (env_arch (w_env k)) (blockSizeID fi))) (length out) b \<and>
     fblock_out (blockMode fi = LZ4F_blockLinked) out b = ys \<and> info_ok fi \<and>
     int (length (out @ ys)) \<le> w_dstEnd k - w_dstStart k \<and> (contentSize fi = 0 \<or> int (length (out @ ys)) \<le> contentSize fi)"

text \<open>After the end of a block: the state between blocks again.\<close>

lemma dec_state_next:
  assumes S: "dec_state k K fi out v" and m: "dom m' = dom (w_m v)" and b: "bytes_at m' (w_dstStart k) (out @ ys)"
    and n: "w_srcPtr v \<le> sp" "sp \<le> w_srcEnd k" "int (length (out @ ys)) \<le> w_dstEnd k - w_dstStart k" "ys \<noteq> []"
    and x: "contentChecksumFlag fi \<noteq> 0 \<longrightarrow> xxh32_repr 0 s (out @ ys)" "length (mem32 s) = 16"
    and d': "x_header d' = x_header (w_dctx v)" "x_maxBufferSize d' = x_maxBufferSize (w_dctx v)" "x_tmpIn d' = x_tmpIn (w_dctx v)"
      "tmpOutBuffer d' = tmpOutBuffer (w_dctx v)" "x_maxBlockSize d' = x_maxBlockSize (w_dctx v)" "x_frameInfo d' = fi" "x_xxh d' = s"
      "frameRemainingSize d' = (if contentSize fi \<noteq> 0 then contentSize fi - int (length (out @ ys)) else 0)" "dStage d' = dstage_getCBlockSize"
      "blockMode fi \<noteq> LZ4F_blockLinked \<longrightarrow> tmpOut d' = tmpOut (w_dctx v)"
      "blockMode fi = LZ4F_blockLinked \<longrightarrow> x_dict d' = w_dstStart k \<and> x_dictSize d' = int (length (out @ ys))"
    and v': "w_m v' = m'" "w_dctx v' = d'" "w_srcPtr v' = sp" "w_dstPtr v' = w_dstStart k + int (length (out @ ys))" "w_again v'"
  shows "dec_state k K fi (out @ ys) v'"
proof -
  let ?d = "w_dctx v" and ?a = "env_arch (w_env k)"
  have C: "core_inv k K (w_m v) ?d (w_srcPtr v) (w_dstPtr v)" and R: "frame_ready ?a K (w_m v) ?d" and D: "dec_ctx ?a fi (w_dstStart k) out ?d"
    and p: "w_dstPtr v = w_dstStart k + int (length out)" "w_srcEnd k \<le> w_dstStart k \<or> w_dstEnd k \<le> w_srcPtr v"
    using S unfolding dec_state_def by blast+
  have fi: "x_frameInfo ?d = fi" using D by (simp add: dec_ctx_def)
  have "core_inv k K m' d' sp (w_dstPtr v')"
    by (rule core_step [OF C m n(1,2)]) (use n(3) p(1) x(2) d' v'(4) in auto)
  moreover have "frame_ready ?a K m' d'"
    by (rule ready_same [OF R m d'(2-5)]) (use fi x(1) d' in auto)
  moreover have "dec_ctx ?a fi (w_dstStart k) (out @ ys) d'" using D x(1) d' n(4) by (simp add: dec_ctx_def)
  ultimately show ?thesis using p(2) n(1) b v' d'(9) by (auto simp: dec_state_def)
qed

lemma stored_step:
  assumes S: "dec_state k K fi out v" and F: "block_fits k fi out ys v (Stored ys)"
  shows "\<exists>v'. block_done k K fi (out @ ys) (4 + int (length ys)) v v'"
proof -
  let ?a = "env_arch (w_env k)" and ?d = "w_dctx v" and ?m = "w_m v" and ?sp = "w_srcPtr v" and ?n = "int (length ys)" and ?lo = "w_dstStart k"
  have C: "core_inv k K ?m ?d ?sp (w_dstPtr v)" and R: "frame_ready ?a K ?m ?d" and D: "dec_ctx ?a fi ?lo out ?d"
    and p: "w_dstPtr v = ?lo + int (length out)" "w_srcEnd k \<le> ?lo \<or> w_dstEnd k \<le> ?sp" "bytes_at ?m ?lo out" "w_again v" "dStage ?d = dstage_getCBlockSize"
    using S unfolding dec_state_def by blast+
  have f: "bytes_at ?m ?sp (fblock_bytes (Stored ys))" "?sp + 4 + ?n \<le> w_srcEnd k" "fblock_ok (blockMode fi = 0) (nat (x_maxBlockSize ?d)) (length out) (Stored ys)"
    "int (length (out @ ys)) \<le> w_dstEnd k - ?lo" "contentSize fi = 0 \<or> int (length (out @ ys)) \<le> contentSize fi \<and> contentSize fi < 2 ^ 64" "ys \<noteq> []"
    using F D by (auto simp: block_fits_def dec_ctx_def info_ok_def)
  note B = ready_bufs [OF R] and cb = core_bounds [OF C]
  have nB: "nat (x_maxBlockSize ?d) \<le> 4194304" using B(4) by simp
  note h = block_header [OF f(1,3) nB, simplified]
  have fi: "x_frameInfo ?d = fi" "contentChecksumFlag fi \<noteq> 0 \<longrightarrow> xxh32_repr 0 (x_xxh ?d) out"
    "frameRemainingSize ?d = (if contentSize fi \<noteq> 0 then contentSize fi - int (length out) else 0)" using D by (simp_all add: dec_ctx_def)
  let ?d1 = "?d\<lparr>tmpInTarget := ?n, dStage := dstage_copyDirect\<rparr>"
  let ?v1 = "v\<lparr>selectedIn := ?sp, w_srcPtr := ?sp + 4, w_dctx := ?d1\<rparr>"
  have nle: "?n \<le> x_maxBlockSize ?d" "0 < ?n" "?n < 2147483648" using h(4,5) B(3,4) by auto
  have s1: "LZ4F_stage k v = Some (None, ?v1)"
    using p(5) h f(2) nle by (simp add: LZ4F_stage_def LZ4F_stage_getCBlockSize_def LZ4F_stage_decodeCBlockSize_def LZ4F_goto_def)
  have dm: "mapped ?m (w_dstPtr v) (w_dstPtr v + ?n)" by (rule mapped_mono [OF core_mapped(3) [OF C]]) (use p(1) f(4) in auto)
  from okD [OF memcpy_bytes [OF h(2) dm]] obtain m' where
    m': "memcpy ?m (w_dstPtr v) (?sp + 4) (length ys) = Some m'" "frame ?m m' (w_dstPtr v) (w_dstPtr v + ?n)" "bytes_at m' (w_dstPtr v) ys" by blast
  have in': "?lo \<le> w_dstPtr v" "w_dstPtr v + ?n \<le> w_dstEnd k" using p(1) f(4) by auto
  have ys: "bytes_at m' (?sp + 4) ys" using h(2) frame_bytes_at [OF m'(2), of "?sp + 4" ys] p(2) in' f(2) by auto
  have out: "bytes_at m' ?lo (out @ ys)" using p(1,3) m'(3) frame_bytes_at [OF m'(2), of ?lo out] by (simp add: bytes_at_append)
  obtain s where s: "LZ4F_content ?a m' ?d1 (?sp + 4) ?n =
       Some (?d1\<lparr>x_xxh := s, frameRemainingSize := (if contentSize fi \<noteq> 0 then contentSize fi - int (length (out @ ys)) else 0)\<rparr>)"
    "contentChecksumFlag fi \<noteq> 0 \<longrightarrow> xxh32_repr 0 s (out @ ys)" "length (mem32 s) = 16"
    by (rule content_bytes [where d = ?d1 and fi = fi and out = out and ys = ys and m = m' and p = "?sp + 4" and a = ?a])
       (use fi f(5) ys nle cb(5) in auto)
  let ?d2 = "?d1\<lparr>x_xxh := s, frameRemainingSize := (if contentSize fi \<noteq> 0 then contentSize fi - int (length (out @ ys)) else 0)\<rparr>"
  define d3 where "d3 = (if blockMode fi = LZ4F_blockLinked then ?d2\<lparr>x_dict := ?lo, x_dictSize := int (length out) + ?n\<rparr> else ?d2)"
  have link: "LZ4F_linkDict m' ?d2 (w_dstPtr v) ?n ?lo False = Some (m', d3)"
    unfolding p(1) d3_def using linkDict_bytes [of ?d2 out ?lo m' ?n False] D fi(1) by (simp add: dec_ctx_def)
  let ?v2 = "?v1\<lparr>w_m := m', w_dctx := d3\<lparr>dStage := dstage_getCBlockSize\<rparr>, w_srcPtr := ?sp + 4 + ?n, w_dstPtr := w_dstPtr v + ?n\<rparr>"
  have t3: "tmpInTarget d3 = ?n" by (simp add: d3_def)
  have s2: "LZ4F_stage k ?v1 = Some (None, ?v2)"
    using m'(1) s(1) link t3 f(2) in' by (simp add: LZ4F_stage_def LZ4F_stage_copyDirect_def LZ4F_goto_def Let_def)
  have "LZ4F_loop k v = LZ4F_loop k ?v2" using loop_step [OF p(4) s1] loop_step [OF _ s2] p(4) by simp
  moreover have "dec_state k K fi (out @ ys) ?v2"
    by (rule dec_state_next [OF S frame_dom [OF m'(2)] out _ f(2) f(4,6) s(2,3), where d' = "d3\<lparr>dStage := dstage_getCBlockSize\<rparr>"])
       (use fi(1) p in \<open>auto simp: d3_def\<close>)
  moreover have "kept K {?lo..<w_dstEnd k} ?m m'"
    by (rule frame_kept [OF m'(2)]) (use in' in auto)
  ultimately show ?thesis unfolding block_done_def by (intro exI [of _ ?v2]) (simp add: d3_def)
qed

lemma dec_stateD:
  assumes "dec_state k K fi out v"
  shows "core_inv k K (w_m v) (w_dctx v) (w_srcPtr v) (w_dstPtr v)" "frame_ready (env_arch (w_env k)) K (w_m v) (w_dctx v)"
    "dec_ctx (env_arch (w_env k)) fi (w_dstStart k) out (w_dctx v)" "w_dstPtr v = w_dstStart k + int (length out)"
    "w_srcEnd k \<le> w_dstStart k \<or> w_dstEnd k \<le> w_srcPtr v" "bytes_at (w_m v) (w_dstStart k) out" "w_again v" "dStage (w_dctx v) = dstage_getCBlockSize"
  using assms unfolding dec_state_def by blast+

lemma dec_ctxD:
  assumes "dec_ctx a fi lo out d"
  shows "x_frameInfo d = fi" "x_maxBlockSize d = LZ4F_getBlockSize a (blockSizeID fi)" "contentChecksumFlag fi \<noteq> 0 \<longrightarrow> xxh32_repr 0 (x_xxh d) out"
    "frameRemainingSize d = (if contentSize fi \<noteq> 0 then contentSize fi - int (length out) else 0)"
    "blockMode fi = LZ4F_blockLinked \<longrightarrow> x_dictSize d = int (length out) \<and> x_dict d = (if out = [] then tmpOutBuffer d else lo)"
  using assms by (simp_all add: dec_ctx_def)

lemma block_fitsD:
  assumes "block_fits k fi out ys v b"
  shows "bytes_at (w_m v) (w_srcPtr v) (fblock_bytes b)" "w_srcPtr v + 4 + int (length (fblock_data b)) \<le> w_srcEnd k"
    "fblock_ok (blockMode fi = LZ4F_blockLinked) (nat (LZ4F_getBlockSize (env_arch (w_env k)) (blockSizeID fi))) (length out) b"
    "fblock_out (blockMode fi = LZ4F_blockLinked) out b = ys" "int (length (out @ ys)) \<le> w_dstEnd k - w_dstStart k"
    "contentSize fi = 0 \<or> int (length (out @ ys)) \<le> contentSize fi \<and> contentSize fi < 2 ^ 64" "ys \<noteq> []"
  using assms fblock_out_nonempty by (auto simp: block_fits_def info_ok_def)

text \<open>The block decoder on a valid block, independent or after the dictionary \<open>out\<close>.\<close>

lemma decoder_bytes:
  assumes d: "x_frameInfo d = fi" "tmpInTarget d = int (length (encode blk))" "x_maxBlockSize d = B" "0 \<le> B" "B < 2147483648"
    and b: "fblock_ok (blockMode fi = LZ4F_blockLinked) (nat B) (length out) (Packed blk)" "bytes_at m src (encode blk)"
    and r: "0 \<le> src" "src + int (length (encode blk)) < size_mod a" "0 \<le> dest" "dest + B < size_mod a" "mapped m dest (dest + B)"
      "src + int (length (encode blk)) \<le> dest \<or> dest + B \<le> src"
    and D: "blockMode fi = LZ4F_blockLinked \<Longrightarrow> x_dictSize d = int (length out) \<and> length out < 2147483648 \<and> bytes_at m (x_dict d) out \<and>
         (x_dict d + int (length out) \<le> dest \<or> dest + B \<le> x_dict d)"
  obtains m' where "LZ4F_decoder a m d src dest = Some (int (block_size blk), m')" "frame m m' dest (dest + B)"
    "bytes_at m' dest (fblock_out (blockMode fi = LZ4F_blockLinked) out (Packed blk))"
proof -
  have v: "valid_block (if blockMode fi = LZ4F_blockLinked then length out else 0) blk" "int (block_size blk) \<le> B" "int (length (encode blk)) \<le> B"
    using b(1) d(4) by auto
  have c: "block_call a m src blk dest B" using b(2) r v(3) d(4,5) by (simp add: block_call_def)
  have i: "int32 (tmpInTarget d) = int (length (encode blk))" "int32 (x_maxBlockSize d) = B" using d(2-5) v(3) by simp_all
  have "ok (\<lambda>(r, m'). r = int (block_size blk) \<and> frame m m' dest (dest + B) \<and>
            bytes_at m' dest (fblock_out (blockMode fi = LZ4F_blockLinked) out (Packed blk))) (LZ4F_decoder a m d src dest)"
  proof (cases "blockMode fi = LZ4F_blockLinked")
    case True
    have D': "x_dictSize d = int (length out)" "length out < 2147483648" "bytes_at m (x_dict d) out"
      "x_dict d + int (length out) \<le> dest \<or> dest + B \<le> x_dict d" using D [OF True] by auto
    have vb: "valid_block (length out) blk" using v(1) True by simp
    have id: "int32 (x_dictSize d) = int (length out)" using D'(1,2) by simp
    show ?thesis
      using safe_usingDict_decodes [OF c vb v(2) D'(3,4)] unfolding LZ4F_decoder_def d(1) i id using True by simp
  next
    case False
    have vb: "valid_block 0 blk" using v(1) False by simp
    show ?thesis
      using safe_decodes [OF c vb v(2)] unfolding LZ4F_decoder_def d(1) i using False by (simp add: LZ4F_decompress_safe_def decoded_def)
  qed
  then show ?thesis using that unfolding ok_iff by auto
qed

text \<open>A compressed block arrives.\<close>

definition packed_vars :: "LZ4F_vars \<Rightarrow> seq list \<times> byte list \<Rightarrow> dStage_t \<Rightarrow> LZ4F_vars" where
  "packed_vars v blk st =
     v\<lparr>selectedIn := w_srcPtr v + 4, w_srcPtr := w_srcPtr v + 4 + int (length (encode blk)),
       w_dctx := (w_dctx v)\<lparr>tmpInTarget := int (length (encode blk)), dStage := st\<rparr>\<rparr>"

lemma packed_start:
  assumes S: "dec_state k K fi out v" and F: "block_fits k fi out ys v (Packed blk)"
  shows "LZ4F_loop k v = LZ4F_loop k (packed_vars v blk
      (if w_dstEnd k - w_dstPtr v < x_maxBlockSize (w_dctx v) then dstage_decodeCBlock_intoTmp else dstage_decodeCBlock_intoDst))"
proof -
  let ?d = "w_dctx v" and ?sp = "w_srcPtr v" and ?n = "int (length (encode blk))"
  note s = dec_stateD [OF S] and f = block_fitsD [OF F]
  note B = ready_bufs [OF s(2)] and D = dec_ctxD [OF s(3)]
  have ok: "fblock_ok (blockMode fi = 0) (nat (x_maxBlockSize ?d)) (length out) (Packed blk)" "nat (x_maxBlockSize ?d) \<le> 4194304"
    using f(3) D(2) B(4) by simp_all
  note h = block_header [OF f(1) ok, simplified]
  have n: "?n \<le> x_maxBlockSize ?d" "0 < ?n" "\<not> 2147483648 \<le> length (encode blk)" using h(4,5) B(3,4) by auto
  have ne: "w_dstPtr v \<noteq> w_dstEnd k" using f(5,7) s(4) by (cases ys) auto
  let ?d1 = "?d\<lparr>tmpInTarget := ?n, dStage := dstage_getCBlock\<rparr>"
  let ?v1 = "v\<lparr>selectedIn := ?sp, w_srcPtr := ?sp + 4, w_dctx := ?d1\<rparr>"
  have s1: "LZ4F_stage k v = Some (None, ?v1)"
    using s(8) h f(2) n ne by (simp add: LZ4F_stage_def LZ4F_stage_getCBlockSize_def LZ4F_stage_decodeCBlockSize_def LZ4F_goto_def Let_def)
  have s2: "LZ4F_stage k ?v1 = Some (None, packed_vars v blk dstage_decodeCBlock)"
    using f(2) by (simp add: LZ4F_stage_def LZ4F_stage_getCBlock_def LZ4F_goto_def packed_vars_def)
  have s3: "LZ4F_stage k (packed_vars v blk dstage_decodeCBlock) = Some (None, packed_vars v blk
      (if w_dstEnd k - w_dstPtr v < x_maxBlockSize ?d then dstage_decodeCBlock_intoTmp else dstage_decodeCBlock_intoDst))"
    by (simp add: LZ4F_stage_def LZ4F_stage_decodeCBlock_def LZ4F_goto_def packed_vars_def)
  have ag: "w_again v" "w_again ?v1" "w_again (packed_vars v blk dstage_decodeCBlock)" using s(7) by (simp_all add: packed_vars_def)
  show ?thesis unfolding loop_step [OF ag(1) s1] loop_step [OF ag(2) s2] loop_step [OF ag(3) s3] ..
qed

text \<open>The memory that holds the block is apart from every region of the context.\<close>

lemma block_source:
  assumes S: "dec_state k K fi out v" and F: "block_fits k fi out ys v b"
  shows "bytes_at (w_m v) (w_srcPtr v + 4) (fblock_data b)" "0 \<le> w_srcPtr v + 4"
    "w_srcPtr v + 4 + int (length (fblock_data b)) < size_mod (env_arch (w_env k))"
    "\<And>p n. region (env_arch (w_env k)) K (w_m v) p n \<Longrightarrow> 0 \<le> n \<Longrightarrow> w_srcPtr v + 4 + int (length (fblock_data b)) \<le> p \<or> p + n \<le> w_srcPtr v + 4"
proof -
  note s = dec_stateD [OF S] and f = block_fitsD [OF F]
  note cb = core_bounds [OF s(1)]
  show "bytes_at (w_m v) (w_srcPtr v + 4) (fblock_data b)" using f(1) by (simp add: fblock_bytes_def bytes_at_append)
  show "0 \<le> w_srcPtr v + 4" "w_srcPtr v + 4 + int (length (fblock_data b)) < size_mod (env_arch (w_env k))"
    using cb(1,10) f(2) by (auto simp: low_def)
  fix p n assume r: "region (env_arch (w_env k)) K (w_m v) p n" "0 \<le> n"
  have sK: "{w_srcPtr v..w_srcEnd k} \<subseteq> K" using s(1) f(2) by (auto simp: core_inv_def)
  have "p + n < w_srcPtr v \<or> w_srcEnd k + 1 \<le> p"
    by (rule intervals_apart [where K = K]) (use r sK f(2) in \<open>auto simp: region_def\<close>)
  then show "w_srcPtr v + 4 + int (length (fblock_data b)) \<le> p \<or> p + n \<le> w_srcPtr v + 4" using f(2) by auto
qed

lemma intoDst_step:
  assumes S: "dec_state k K fi out v" and F: "block_fits k fi out ys v (Packed blk)" and room: "x_maxBlockSize (w_dctx v) \<le> w_dstEnd k - w_dstPtr v"
  shows "\<exists>v'. block_done k K fi (out @ ys) (4 + int (length (encode blk))) v v'"
proof -
  let ?a = "env_arch (w_env k)" and ?d = "w_dctx v" and ?m = "w_m v" and ?lo = "w_dstStart k" and ?B = "x_maxBlockSize (w_dctx v)"
  let ?n = "int (length ys)" and ?sp = "w_srcPtr v"
  note s = dec_stateD [OF S] and f = block_fitsD [OF F] and bs = block_source [OF S F, simplified]
  note B = ready_bufs [OF s(2)] and D = dec_ctxD [OF s(3)] and cb = core_bounds [OF s(1)]
  let ?v1 = "packed_vars v blk dstage_decodeCBlock_intoDst"
  let ?d1 = "?d\<lparr>tmpInTarget := int (length (encode blk)), dStage := dstage_decodeCBlock_intoDst\<rparr>"
  have v1: "w_dctx ?v1 = ?d1" "w_m ?v1 = ?m" "selectedIn ?v1 = ?sp + 4" "w_dstPtr ?v1 = w_dstPtr v" by (simp_all add: packed_vars_def)
  have n: "?n = int (block_size blk)" "?n < 2147483648" using f(3,4) D(2) B(4) by auto
  have dm: "mapped ?m (w_dstPtr v) (w_dstPtr v + ?B)" by (rule mapped_mono [OF core_mapped(3) [OF s(1)]]) (use room s(4) in auto)
  obtain m' where m': "LZ4F_decoder ?a ?m ?d1 (?sp + 4) (w_dstPtr v) = Some (?n, m')" "frame ?m m' (w_dstPtr v) (w_dstPtr v + ?B)" "bytes_at m' (w_dstPtr v) ys"
  proof (rule decoder_bytes [where d = ?d1 and blk = blk and B = ?B and out = out and fi = fi and m = ?m and src = "?sp + 4" and dest = "w_dstPtr v" and a = ?a])
    show "fblock_ok (blockMode fi = 0) (nat ?B) (length out) (Packed blk)" using f(3) D(2) by simp
    show "w_dstPtr v + ?B < size_mod ?a" using room cb(9) by (simp add: low_def)
    show "?sp + 4 + int (length (encode blk)) \<le> w_dstPtr v \<or> w_dstPtr v + ?B \<le> ?sp + 4" using s(4,5) f(2) room by auto
    show "x_dictSize ?d1 = int (length out) \<and> length out < 2147483648 \<and> bytes_at ?m (x_dict ?d1) out \<and>
         (x_dict ?d1 + int (length out) \<le> w_dstPtr v \<or> w_dstPtr v + ?B \<le> x_dict ?d1)" if L: "blockMode fi = LZ4F_blockLinked"
    proof (cases "out = []")
      case True
      have "{w_dstPtr v..<w_dstPtr v + ?B} \<subseteq> {?lo..<w_dstEnd k}" using s(4) room by auto
      then have "tmpOutBuffer ?d \<notin> {w_dstPtr v..<w_dstPtr v + ?B}" using B(2,5) B(3) cb(8) by (fastforce simp: region_def)
      then show ?thesis using True L D(5) by auto
    next
      case False
      then show ?thesis using L D(5) s(4,6) f(5) cb(11) by auto
    qed
  qed (use that D(1) B bs cb(7) dm n f(4) in auto)
  have out: "bytes_at m' ?lo (out @ ys)" using s(4,6) m'(3) frame_bytes_at [OF m'(2), of ?lo out] by (simp add: bytes_at_append)
  define r where "r = (if contentSize fi \<noteq> 0 then contentSize fi - int (length (out @ ys)) else 0)"
  obtain x where x: "LZ4F_content ?a m' ?d1 (w_dstPtr v) ?n = Some (?d1\<lparr>x_xxh := x, frameRemainingSize := r\<rparr>)"
    "contentChecksumFlag fi \<noteq> 0 \<longrightarrow> xxh32_repr 0 x (out @ ys)" "length (mem32 x) = 16" unfolding r_def
    by (rule content_bytes [where d = ?d1 and fi = fi and out = out and ys = ys and m = m' and p = "w_dstPtr v" and a = ?a])
       (use D f(6) m'(3) n cb(5) in auto)
  let ?d2 = "?d1\<lparr>x_xxh := x, frameRemainingSize := r\<rparr>"
  define d3 where "d3 = (if blockMode fi = LZ4F_blockLinked then ?d2\<lparr>x_dict := ?lo, x_dictSize := int (length out) + ?n\<rparr> else ?d2)"
  have link: "LZ4F_linkDict m' ?d2 (w_dstPtr v) ?n ?lo False = Some (m', d3)"
    unfolding s(4) d3_def using linkDict_bytes [of ?d2 out ?lo m' ?n False] D by simp
  let ?v2 = "?v1\<lparr>w_m := m', w_dctx := d3\<lparr>dStage := dstage_getCBlockSize\<rparr>, w_dstPtr := w_dstPtr v + ?n\<rparr>"
  have s2: "LZ4F_stage k ?v1 = Some (None, ?v2)"
    using m'(1) x(1) link by (simp add: LZ4F_stage_def v1 LZ4F_stage_intoDst_def LZ4F_goto_def)
  have ag: "w_again ?v1" using s(7) by (simp add: packed_vars_def)
  have "LZ4F_loop k v = LZ4F_loop k ?v2" using packed_start [OF S F] loop_step [OF ag s2] room by simp
  moreover have "dec_state k K fi (out @ ys) ?v2"
    by (rule dec_state_next [OF S frame_dom [OF m'(2)] out _ f(2) f(5,7) x(2,3), where d' = "d3\<lparr>dStage := dstage_getCBlockSize\<rparr>"])
       (use D(1) s in \<open>auto simp: d3_def r_def packed_vars_def\<close>)
  moreover have "kept K {?lo..<w_dstEnd k} ?m m'"
    by (rule frame_kept [OF m'(2)]) (use s(4) room in auto)
  ultimately show ?thesis unfolding block_done_def by (intro exI [of _ ?v2]) (simp add: packed_vars_def d3_def)
qed

lemma place_bytes:
  assumes S: "dec_state k K fi out v" and d1: "d1 = (w_dctx v)\<lparr>tmpInTarget := n, dStage := st\<rparr>" and room: "int (length out) \<le> w_dstEnd k - w_dstStart k"
  obtains t where "LZ4F_placeTmpOut m d1 = Some (m, d1\<lparr>tmpOut := t\<rparr>)" "region (env_arch (w_env k)) K (w_m v) t (x_maxBlockSize (w_dctx v))"
    "blockMode fi \<noteq> LZ4F_blockLinked \<longrightarrow> t = tmpOut (w_dctx v)" "out = [] \<longrightarrow> t = tmpOutBuffer (w_dctx v)"
proof -
  let ?d = "w_dctx v" and ?a = "env_arch (w_env k)"
  note s = dec_stateD [OF S]
  note B = ready_bufs [OF s(2)] and D = dec_ctxD [OF s(3)] and cb = core_bounds [OF s(1)]
  define t where "t = (if blockMode fi = LZ4F_blockLinked then tmpOutBuffer ?d + min (int (length out)) 65536 else tmpOut ?d)"
  have tl: "blockMode fi \<noteq> LZ4F_blockLinked \<Longrightarrow> t = tmpOutBuffer ?d" using s(2) D(1) by (simp add: t_def frame_ready_def)
  have t: "tmpOutBuffer ?d \<le> t" "t + x_maxBlockSize ?d \<le> tmpOutBuffer ?d + x_maxBufferSize ?d"
    using tl B(5,7) D(1) by (cases "blockMode fi = LZ4F_blockLinked"; auto simp: t_def)+
  have reg: "region ?a K (w_m v) t (x_maxBlockSize ?d)"
  proof -
    have "{t..t + x_maxBlockSize ?d} \<subseteq> {tmpOutBuffer ?d..tmpOutBuffer ?d + x_maxBufferSize ?d}" using t by auto
    moreover have "mapped (w_m v) t (t + x_maxBlockSize ?d)" by (rule mapped_mono [of _ "tmpOutBuffer ?d" "tmpOutBuffer ?d + x_maxBufferSize ?d"]) (use B(2) t in \<open>auto simp: region_def\<close>)
    moreover have "{tmpOutBuffer ?d..tmpOutBuffer ?d + x_maxBufferSize ?d} \<inter> K = {}" "0 < t" "low ?a (t + x_maxBlockSize ?d)"
      using B(2) t by (auto simp: region_def low_def)
    ultimately show ?thesis unfolding region_def by blast
  qed
  have ne: "w_dstStart k \<noteq> tmpOutBuffer ?d" if "out \<noteq> []"
  proof -
    have "w_dstStart k \<in> {w_dstStart k..<w_dstEnd k}" using that room by (cases out) auto
    moreover have "tmpOutBuffer ?d \<notin> K" using B(2,3,5) by (fastforce simp: region_def)
    ultimately show ?thesis using cb(8) by (metis subsetD)
  qed
  have o: "d1\<lparr>tmpOut := tmpOut ?d\<rparr> = d1" by (simp add: d1)
  have eq: "LZ4F_placeTmpOut m d1 = Some (m, d1\<lparr>tmpOut := t\<rparr>)"
  proof (cases "blockMode fi = LZ4F_blockLinked")
    case True
    then have "x_dictSize d1 = int (length out)" "x_dict d1 = (if out = [] then tmpOutBuffer ?d else w_dstStart k)" "blockMode (x_frameInfo d1) = LZ4F_blockLinked"
      using D by (simp_all add: d1)
    then show ?thesis using True ne by (cases "out = []") (auto simp: LZ4F_placeTmpOut_def t_def d1 min_def)
  next
    case False
    then show ?thesis using D(1) o by (simp add: LZ4F_placeTmpOut_def t_def d1)
  qed
  show ?thesis by (rule that [OF eq reg]) (use tl in \<open>auto simp: t_def\<close>)
qed

lemma intoTmp_step:
  assumes S: "dec_state k K fi out v" and F: "block_fits k fi out ys v (Packed blk)" and room: "w_dstEnd k - w_dstPtr v < x_maxBlockSize (w_dctx v)"
  shows "\<exists>v'. block_done k K fi (out @ ys) (4 + int (length (encode blk))) v v'"
proof -
  let ?a = "env_arch (w_env k)" and ?d = "w_dctx v" and ?m = "w_m v" and ?lo = "w_dstStart k" and ?B = "x_maxBlockSize (w_dctx v)"
  let ?n = "int (length ys)" and ?sp = "w_srcPtr v"
  note s = dec_stateD [OF S] and f = block_fitsD [OF F] and bs = block_source [OF S F, simplified]
  note B = ready_bufs [OF s(2)] and D = dec_ctxD [OF s(3)] and cb = core_bounds [OF s(1)]
  let ?v1 = "packed_vars v blk dstage_decodeCBlock_intoTmp"
  let ?d1 = "?d\<lparr>tmpInTarget := int (length (encode blk)), dStage := dstage_decodeCBlock_intoTmp\<rparr>"
  have v1: "w_dctx ?v1 = ?d1" "w_m ?v1 = ?m" "selectedIn ?v1 = ?sp + 4" "w_dstPtr ?v1 = w_dstPtr v" by (simp_all add: packed_vars_def)
  have n: "?n = int (block_size blk)" "?n < 2147483648" "?n \<le> ?B" using f(3,4) D(2) B(3,4) by auto
  have lout: "int (length out) \<le> w_dstEnd k - ?lo" "length out < 2147483648" using f(5) cb(11) by auto
  obtain t where t: "LZ4F_placeTmpOut ?m ?d1 = Some (?m, ?d1\<lparr>tmpOut := t\<rparr>)" "region ?a K ?m t ?B"
    "blockMode fi \<noteq> LZ4F_blockLinked \<longrightarrow> t = tmpOut ?d" "out = [] \<longrightarrow> t = tmpOutBuffer ?d" by (rule place_bytes [OF S refl lout(1)])
  have r: "0 < t" "low ?a (t + ?B)" "mapped ?m t (t + ?B)" "{t..t + ?B} \<inter> K = {}" using t(2) by (simp_all add: region_def)
  obtain m' where m': "LZ4F_decoder ?a ?m (?d1\<lparr>tmpOut := t\<rparr>) (?sp + 4) t = Some (?n, m')" "frame ?m m' t (t + ?B)" "bytes_at m' t ys"
  proof (rule decoder_bytes [where d = "?d1\<lparr>tmpOut := t\<rparr>" and blk = blk and B = ?B and out = out and fi = fi and m = ?m and src = "?sp + 4" and dest = t and a = ?a])
    show "fblock_ok (blockMode fi = 0) (nat ?B) (length out) (Packed blk)" using f(3) D(2) by simp
    show "x_dictSize (?d1\<lparr>tmpOut := t\<rparr>) = int (length out) \<and> length out < 2147483648 \<and> bytes_at ?m (x_dict (?d1\<lparr>tmpOut := t\<rparr>)) out \<and>
         (x_dict (?d1\<lparr>tmpOut := t\<rparr>) + int (length out) \<le> t \<or> t + ?B \<le> x_dict (?d1\<lparr>tmpOut := t\<rparr>))" if L: "blockMode fi = LZ4F_blockLinked"
    proof (cases "out = []")
      case False
      have "{?lo..<?lo + int (length out)} \<subseteq> {?lo..<w_dstEnd k}" using lout(1) by auto
      then have "t + ?B < ?lo \<or> ?lo + int (length out) \<le> t"
        by (intro intervals_apart [OF r(4)]) (use cb(8) B(3) False in auto)
      then show ?thesis using L D(5) s(6) lout(2) False by auto
    qed (use L D(5) t(4) in auto)
    show "?sp + 4 + int (length (encode blk)) \<le> t \<or> t + ?B \<le> ?sp + 4" by (rule bs(4) [OF t(2)]) (use B(3) in auto)
  qed (use that D(1) B bs r n f(4) in \<open>auto simp: low_def\<close>)
  define q where "q = (if contentSize fi \<noteq> 0 then contentSize fi - int (length (out @ ys)) else 0)"
  obtain x where x: "LZ4F_content ?a m' (?d1\<lparr>tmpOut := t\<rparr>) t ?n = Some (?d1\<lparr>tmpOut := t, x_xxh := x, frameRemainingSize := q\<rparr>)"
    "contentChecksumFlag fi \<noteq> 0 \<longrightarrow> xxh32_repr 0 x (out @ ys)" "length (mem32 x) = 16" unfolding q_def
    by (rule content_bytes [where d = "?d1\<lparr>tmpOut := t\<rparr>" and fi = fi and out = out and ys = ys and m = m' and p = t and a = ?a])
       (use D f(6) m'(3) n cb(5) in auto)
  let ?d2 = "?d1\<lparr>tmpOut := t, x_xxh := x, frameRemainingSize := q, tmpOutSize := ?n, tmpOutStart := 0, dStage := dstage_flushOut\<rparr>"
  let ?v2 = "?v1\<lparr>w_m := m', w_dctx := ?d2\<rparr>"
  have s2: "LZ4F_stage k ?v1 = Some (None, ?v2)"
    using t(1) m'(1) x(1) by (simp add: LZ4F_stage_def v1 LZ4F_stage_intoTmp_def LZ4F_goto_def)
  have km: "kept K {?lo..<w_dstEnd k} ?m m'"
    by (rule frame_kept [OF m'(2) region_kept [OF t(2)]]) simp_all
  have dm: "mapped m' (w_dstPtr v) (w_dstPtr v + ?n)"
    unfolding frame_mapped [OF m'(2)] by (rule mapped_mono [OF core_mapped(3) [OF s(1)]]) (use f(5) s(4) in auto)
  from okD [OF memcpy_bytes [OF m'(3) dm]] obtain m2 where
    m2: "memcpy m' (w_dstPtr v) t (length ys) = Some m2" "frame m' m2 (w_dstPtr v) (w_dstPtr v + ?n)" "bytes_at m2 (w_dstPtr v) ys" by blast
  have in': "?lo \<le> w_dstPtr v" "w_dstPtr v + ?n \<le> w_dstEnd k" using s(4) f(5) by auto
  define d3 where "d3 = (if blockMode fi = LZ4F_blockLinked then ?d2\<lparr>x_dict := ?lo, x_dictSize := int (length out) + ?n\<rparr> else ?d2)"
  have link: "LZ4F_linkDict m2 ?d2 (w_dstPtr v) ?n ?lo True = Some (m2, d3)"
    unfolding s(4) d3_def using linkDict_bytes [of ?d2 out ?lo m2 ?n True] D by simp
  let ?d4 = "d3\<lparr>tmpOutStart := ?n, dStage := dstage_getCBlockSize\<rparr>"
  let ?v3 = "?v2\<lparr>w_m := m2, w_dctx := ?d4, w_dstPtr := w_dstPtr v + ?n\<rparr>"
  have d3: "tmpOutStart d3 = 0" "tmpOutSize d3 = ?n" by (simp_all add: d3_def)
  have sz: "size_sub ?a ?n 0 = ?n" using n(2) size_mod_ge [of ?a] by (simp add: size_sub_def)
  have s3: "LZ4F_stage k ?v2 = Some (None, ?v3)"
    using m2(1) link d3 sz in' by (simp add: LZ4F_stage_def LZ4F_stage_flushOut_def LZ4F_goto_def packed_vars_def Let_def)
  have ag: "w_again ?v1" "w_again ?v2" using s(7) by (simp_all add: packed_vars_def)
  have "LZ4F_loop k v = LZ4F_loop k ?v3" using packed_start [OF S F] loop_step [OF ag(1) s2] loop_step [OF ag(2) s3] room by simp
  moreover have "dec_state k K fi (out @ ys) ?v3"
  proof (rule dec_state_next [OF S _ _ _ f(2) f(5,7) x(2,3), where m' = m2 and d' = ?d4])
    show "dom m2 = dom ?m" using frame_dom [OF m'(2)] frame_dom [OF m2(2)] by simp
    have "{?lo..<?lo + int (length out)} \<subseteq> {?lo..<w_dstEnd k}" using lout(1) by auto
    then have "{?lo..<?lo + int (length out)} \<subseteq> K" using cb(8) by blast
    moreover have "kept K {} ?m m'" by (rule frame_kept [OF m'(2) region_kept [OF t(2)]]) simp_all
    ultimately have "bytes_at m' ?lo out" using kept_bytes s(6) by blast
    then show "bytes_at m2 ?lo (out @ ys)" using m2(3) frame_bytes_at [OF m2(2), of ?lo out] s(4) by (simp add: bytes_at_append)
  qed (use D(1) s t(3) in \<open>auto simp: d3_def q_def packed_vars_def\<close>)
  moreover have "kept K {?lo..<w_dstEnd k} ?m m2"
    by (rule kept_trans [OF km frame_kept [OF m2(2)]]) (use in' in auto)
  ultimately show ?thesis unfolding block_done_def by (intro exI [of _ ?v3]) (simp add: packed_vars_def d3_def)
qed

lemma block_step:
  assumes S: "dec_state k K fi out v" and F: "block_fits k fi out ys v b"
  shows "\<exists>v'. block_done k K fi (out @ ys) (int (length (fblock_bytes b))) v v'"
proof (cases b)
  case (Stored xs)
  then have "xs = ys" using F by (simp add: block_fits_def)
  with Stored show ?thesis using stored_step [OF S] F by simp
next
  case (Packed blk)
  then show ?thesis
    using intoTmp_step [OF S] intoDst_step [OF S] F by (cases "w_dstEnd k - w_dstPtr v < x_maxBlockSize (w_dctx v)") auto
qed

section \<open>All blocks, and the end of a frame\<close>

lemma source_kept:
  assumes S: "dec_state k K fi out v" and K: "kept K {w_dstStart k..<w_dstEnd k} (w_m v) m'"
    and b: "bytes_at (w_m v) p xs" "w_srcPtr v \<le> p" "p + int (length xs) \<le> w_srcEnd k"
  shows "bytes_at m' p xs"
proof (cases "xs = []")
  case False
  note s = dec_stateD [OF S]
  have "w_srcPtr v < w_srcEnd k" using b(2,3) False by (cases xs) auto
  then have "{w_srcPtr v..w_srcEnd k} \<subseteq> K" using s(1) by (auto simp: core_inv_def)
  moreover have "{p..<p + int (length xs)} \<subseteq> {w_srcPtr v..w_srcEnd k} - {w_dstStart k..<w_dstEnd k}" using b(2,3) s(5) by auto
  ultimately have "{p..<p + int (length xs)} \<subseteq> K - {w_dstStart k..<w_dstEnd k}" by blast
  then show ?thesis by (rule kept_bytes [OF K b(1)])
qed simp

lemma blocks_steps:
  assumes "dec_state k K fi out v" "info_ok fi" "bytes_at (w_m v) (w_srcPtr v) (blocks_bytes bs)" "w_srcPtr v + int (length (blocks_bytes bs)) \<le> w_srcEnd k"
    "blocks_ok (blockMode fi = LZ4F_blockLinked) (nat (LZ4F_getBlockSize (env_arch (w_env k)) (blockSizeID fi))) out bs"
    "int (length (out @ blocks_out (blockMode fi = LZ4F_blockLinked) out bs)) \<le> w_dstEnd k - w_dstStart k"
    "contentSize fi = 0 \<or> int (length (out @ blocks_out (blockMode fi = LZ4F_blockLinked) out bs)) \<le> contentSize fi"
  shows "\<exists>v'. block_done k K fi (out @ blocks_out (blockMode fi = LZ4F_blockLinked) out bs) (int (length (blocks_bytes bs))) v v'"
  using assms
proof (induction bs arbitrary: out v)
  case Nil
  then show ?case by (intro exI [of _ v]) (simp add: block_done_def)
next
  case (Cons b bs)
  let ?L = "blockMode fi = LZ4F_blockLinked"
  let ?ys = "fblock_out ?L out b"
  have F: "block_fits k fi out ?ys v b"
    using Cons.prems by (auto simp: block_fits_def bytes_at_append)
  from block_step [OF Cons.prems(1) F] obtain v1 where
    v1: "LZ4F_loop k v = LZ4F_loop k v1" "dec_state k K fi (out @ ?ys) v1" "w_srcPtr v1 = w_srcPtr v + int (length (fblock_bytes b))"
      "kept K {w_dstStart k..<w_dstEnd k} (w_m v) (w_m v1)" "x_header (w_dctx v1) = x_header (w_dctx v)" unfolding block_done_def by blast
  have "\<exists>v'. block_done k K fi ((out @ ?ys) @ blocks_out ?L (out @ ?ys) bs) (int (length (blocks_bytes bs))) v1 v'"
  proof (rule Cons.IH [OF v1(2)])
    show "bytes_at (w_m v1) (w_srcPtr v1) (blocks_bytes bs)"
      by (rule source_kept [OF Cons.prems(1) v1(4)]) (use Cons.prems(3,4) v1(3) in \<open>auto simp: bytes_at_append\<close>)
  qed (use Cons.prems v1(3) in auto)
  then obtain v2 where v2: "block_done k K fi ((out @ ?ys) @ blocks_out ?L (out @ ?ys) bs) (int (length (blocks_bytes bs))) v1 v2" by blast
  have "block_done k K fi (out @ blocks_out ?L out (b # bs)) (int (length (blocks_bytes (b # bs)))) v v2"
    using v1(1,3,5) v2 kept_trans [OF v1(4)] by (simp add: block_done_def)
  then show ?case by blast
qed

lemma end_step:
  assumes S: "dec_state k K fi out v" and fi: "info_ok fi" "contentSize fi = 0 \<or> contentSize fi = int (length out)"
    and b: "bytes_at (w_m v) (w_srcPtr v) (end_bytes fi out)" "w_srcPtr v + int (length (end_bytes fi out)) \<le> w_srcEnd k" "length out < 2147483648"
  shows "\<exists>v'. LZ4F_loop k v = Some (None, v') \<and> w_m v' = w_m v \<and> w_dctx v' = (w_dctx v)\<lparr>dStage := dstage_getHeader\<rparr> \<and> w_dstPtr v' = w_dstPtr v \<and>
     w_srcPtr v' = w_srcPtr v + int (length (end_bytes fi out)) \<and> w_hint v' = 0"
proof -
  let ?a = "env_arch (w_env k)" and ?d = "w_dctx v" and ?sp = "w_srcPtr v"
  note s = dec_stateD [OF S]
  note D = dec_ctxD [OF s(3)]
  have l: "4 \<le> int (length (end_bytes fi out))" by (simp add: length_end_bytes)
  have "bytes_at (w_m v) ?sp (le_bytes 4 0)" using b(1) by (simp add: end_bytes_def bytes_at_append)
  from LZ4F_readLE32_eq [OF this] have h: "LZ4F_readLE32 (w_m v) ?sp = Some 0" by (simp add: le_val_id)
  let ?v1 = "v\<lparr>selectedIn := ?sp, w_srcPtr := ?sp + 4, w_dctx := ?d\<lparr>dStage := dstage_getSuffix\<rparr>\<rparr>"
  have s1: "LZ4F_stage k v = Some (None, ?v1)"
    using s(8) h b(2) l by (simp add: LZ4F_stage_def LZ4F_stage_getCBlockSize_def LZ4F_stage_decodeCBlockSize_def LZ4F_goto_def)
  have z: "frameRemainingSize ?d = 0" using D(4) fi(2) by auto
  have stop: "LZ4F_loop k (w\<lparr>w_hint := 0, w_again := False\<rparr>) = Some (None, w\<lparr>w_hint := 0, w_again := False\<rparr>)" for w
    by (subst LZ4F_loop.simps) simp
  have ag: "w_again ?v1" using s(7) by simp
  show ?thesis
  proof (cases "contentChecksumFlag fi = 0")
    case True
    let ?v2 = "?v1\<lparr>w_dctx := ?d\<lparr>dStage := dstage_getHeader\<rparr>, w_hint := 0, w_again := False\<rparr>"
    have "LZ4F_stage k ?v1 = Some (None, ?v2)"
      using z True D(1) by (simp add: LZ4F_stage_def LZ4F_stage_getSuffix_def LZ4F_stop_def LZ4F_goto_def)
    then have "LZ4F_loop k v = Some (None, ?v2)" unfolding loop_step [OF s(7) s1] by (subst loop_step [OF ag]) (auto simp: stop)
    with True show ?thesis by (simp add: length_end_bytes)
  next
    case False
    then have f1: "contentChecksumFlag fi = 1" using fi(1) by (simp add: info_ok_def)
    let ?v2 = "?v1\<lparr>selectedIn := ?sp + 4, w_srcPtr := ?sp + 8, w_dctx := ?d\<lparr>dStage := dstage_getHeader\<rparr>, w_hint := 0, w_again := False\<rparr>"
    have "bytes_at (w_m v) (?sp + 4) (le_bytes 4 (uint (xxh32 0 out)))" using b(1) False by (simp add: end_bytes_def bytes_at_append)
    from LZ4F_readLE32_eq [OF this] have c: "LZ4F_readLE32 (w_m v) (?sp + 4) = Some (uint (xxh32 0 out))"
      using uint_lt2p [of "xxh32 0 out"] by (simp add: le_val_id)
    have g: "XXH32_digest ?a (x_xxh ?d) = Some (xxh32 0 out)" by (rule XXH32_digest_ok) (use D(3) False b(3) in auto)
    have "LZ4F_stage k ?v1 = Some (None, ?v2)"
      using z f1 D(1) c g b(2) by (simp add: LZ4F_stage_def LZ4F_stage_getSuffix_def LZ4F_stage_checkSuffix_def LZ4F_stop_def LZ4F_goto_def length_end_bytes)
    then have "LZ4F_loop k v = Some (None, ?v2)" unfolding loop_step [OF s(7) s1] by (subst loop_step [OF ag]) (auto simp: stop)
    with False show ?thesis by (simp add: length_end_bytes)
  qed
qed

section \<open>A whole frame in one call\<close>

text \<open>The conditions of a call on a whole frame: those of any call, a context that waits for a header, the frame in the input, apart from
  the output, and room for its content.\<close>

definition decode_call ::
  "lz4f_env \<Rightarrow> addr set \<Rightarrow> mem \<Rightarrow> LZ4F_dctx_t \<Rightarrow> addr \<Rightarrow> int \<Rightarrow> addr \<Rightarrow> int \<Rightarrow> LZ4F_frameInfo_t \<Rightarrow> fblock list \<Rightarrow> bool" where
  "decode_call e K m d dst n src k fi bs \<longleftrightarrow>
     decompress_call e K m d dst n src k \<and> dStage d = dstage_getHeader \<and> srcExpect d = 0 \<and> frameRemainingSize d = 0 \<and>
     frame_ok (env_arch e) fi bs \<and> bytes_at m src (frame_bytes fi bs) \<and> int (length (frame_bytes fi bs)) \<le> k \<and> 15 \<le> k \<and>
     int (length (frame_content fi bs)) \<le> n \<and> (src + k \<le> dst \<or> dst + n \<le> src)"

lemma header_step:
  assumes C: "core_inv k K (w_m v) (w_dctx v) (w_srcPtr v) (w_dstPtr v)" and p: "w_dstPtr v = w_dstStart k" "w_again v" "dStage (w_dctx v) = dstage_getHeader"
    "w_srcEnd k \<le> w_dstStart k \<or> w_dstEnd k \<le> w_srcPtr v" "frameRemainingSize (w_dctx v) = 0"
    and h: "info_ok fi" "bytes_at (w_m v) (w_srcPtr v) (header_bytes fi)" "int (length (header_bytes fi)) \<le> w_srcEnd k - w_srcPtr v" "15 \<le> w_srcEnd k - w_srcPtr v"
    and A: "\<not> fst (LZ4F_header_alloc (w_env k) (w_m v) (header_dctx (env_arch (w_env k)) (w_dctx v) fi))"
  shows "\<exists>v'. LZ4F_loop k v = LZ4F_loop k v' \<and> dec_state k K fi [] v' \<and> w_srcPtr v' = w_srcPtr v + int (length (header_bytes fi)) \<and> kept K {} (w_m v) (w_m v') \<and>
     x_header (w_dctx v') = x_header (w_dctx v)"
proof -
  let ?a = "env_arch (w_env k)" and ?n = "int (length (header_bytes fi))"
  have c: "call_inv k K (x_header (w_dctx v))" "K \<subseteq> dom (w_m v)" "alloc_ok ?a K (w_m v) (w_dctx v)" "length (mem32 (x_xxh (w_dctx v))) = 16"
    using C by (simp_all add: core_inv_def)
  have e: "calloc_ok (w_env k)" "free_ok (w_env k) K" using c(1) by (simp_all add: call_inv_def)
  note b = core_bounds [OF C]
  from okD [OF header_decoded [OF e c(3,2,4) h(1-3)]] A obtain m' d' where
    r: "LZ4F_decodeHeader (w_env k) (w_m v) (w_dctx v) (w_srcPtr v) (w_srcEnd k - w_srcPtr v) = Some (?n, m', d')" "kept K {} (w_m v) m'"
      "x_header d' = x_header (w_dctx v)" "x_frameInfo d' = fi" "x_maxBlockSize d' = LZ4F_getBlockSize ?a (blockSizeID fi)" "dStage d' = dstage_getCBlockSize"
      "frame_ready ?a K m' d'" "x_dict d' = tmpOutBuffer d'" "x_dictSize d' = 0" "length (mem32 (x_xxh d')) = 16"
      "contentChecksumFlag fi \<noteq> 0 \<longrightarrow> xxh32_repr 0 (x_xxh d') []" "frameRemainingSize d' = (if contentSize fi \<noteq> 0 then contentSize fi else frameRemainingSize (w_dctx v))"
    by (auto split: if_splits)
  have n: "0 \<le> ?n" "?n \<le> 15" by (simp_all add: length_header_bytes)
  let ?v = "v\<lparr>w_m := m', w_dctx := d', w_srcPtr := w_srcPtr v + ?n\<rparr>"
  have ne: "\<not> LZ4F_isError ?a ?n"
  proof -
    have "(- 19) mod size_mod ?a = size_mod ?a - 19" using size_mod_ge [of ?a] by (simp add: zmod_zminus1_eq_if)
    then show ?thesis using n size_mod_ge [of ?a] by (simp add: LZ4F_isError_def LZ4F_error_def)
  qed
  have s1: "LZ4F_stage k v = Some (None, ?v)" using p(3) h(4) r(1) ne by (simp add: LZ4F_stage_def LZ4F_stage_getHeader_def)
  have dm: "K \<subseteq> dom m'" using c(2) r(2) by (fastforce simp: kept_def dom_def)
  have al: "alloc_ok ?a K m' d'" using r(7) by (simp add: frame_ready_def alloc_ok_def)
  have src: "{w_srcPtr v..w_srcEnd k} \<subseteq> K" "w_srcEnd k \<le> x_header (w_dctx v) \<or> x_header (w_dctx v) + 16 \<le> w_srcPtr v"
    using C h(4) by (auto simp: core_inv_def)
  have "{w_srcPtr v + ?n..w_srcEnd k} \<subseteq> {w_srcPtr v..w_srcEnd k}" using n by auto
  then have "{w_srcPtr v + ?n..w_srcEnd k} \<subseteq> K" using src(1) by blast
  then have "core_inv k K m' d' (w_srcPtr v + ?n) (w_dstPtr v)"
    using c(1) dm al b src(2) r(3,10) n h(3) by (auto simp: core_inv_def)
  moreover have "dec_ctx ?a fi (w_dstStart k) [] d'" using r p(5) by (simp add: dec_ctx_def)
  ultimately have "dec_state k K fi [] ?v" using r(6,7) p n by (auto simp: dec_state_def)
  then show ?thesis using loop_step [OF p(2) s1] r(2,3) by (intro exI [of _ ?v]) simp
qed

lemma decompress_decodes:
  assumes D: "decode_call e K m d dst n src k fi bs" and A: "\<not> fst (LZ4F_header_alloc e m (header_dctx (env_arch e) d fi))"
  shows "\<exists>m' d'. LZ4F_decompress e m d dst n src k 0 = Some (0, int (length (frame_content fi bs)), int (length (frame_bytes fi bs)), m', d') \<and>
     bytes_at m' dst (frame_content fi bs) \<and> dStage d' = dstage_getHeader \<and> x_frameInfo d' = fi \<and> x_header d' = x_header d \<and> tmpOutBuffer d' \<notin> K \<and>
     (k = int (length (frame_bytes fi bs)) \<longrightarrow> srcExpect d' = 0) \<and>
     (blockMode fi = LZ4F_blockLinked \<and> frame_content fi bs \<noteq> [] \<longrightarrow> x_dict d' = dst \<and> x_dictSize d' = int (length (frame_content fi bs)))"
proof -
  define c where "c = \<lparr>w_env = e, w_srcEnd = src + k, w_dstStart = dst, w_dstEnd = dst + n\<rparr>"
  define v where "v = \<lparr>w_m = m, w_dctx = d, w_srcPtr = src, w_dstPtr = dst, selectedIn = 0, w_again = True, w_hint = 1\<rparr>"
  let ?H = "header_bytes fi" and ?B = "blocks_bytes bs" and ?xs = "frame_content fi bs"
  let ?E = "end_bytes fi ?xs" and ?L = "blockMode fi = LZ4F_blockLinked"
  have cs: "w_env c = e" "w_srcEnd c = src + k" "w_dstStart c = dst" "w_dstEnd c = dst + n" by (simp_all add: c_def)
  have vs: "w_m v = m" "w_dctx v = d" "w_srcPtr v = src" "w_dstPtr v = dst" "w_again v" by (simp_all add: v_def)
  have dc: "decompress_call e K m d dst n src k" "dStage d = dstage_getHeader" "srcExpect d = 0" "frameRemainingSize d = 0" "frame_ok (env_arch e) fi bs"
    "bytes_at m src (frame_bytes fi bs)" "int (length (frame_bytes fi bs)) \<le> k" "15 \<le> k" "int (length ?xs) \<le> n" "src + k \<le> dst \<or> dst + n \<le> src"
    using D unfolding decode_call_def by blast+
  have fo: "info_ok fi" "blocks_ok ?L (nat (LZ4F_getBlockSize (env_arch e) (blockSizeID fi))) [] bs" "contentSize fi = 0 \<or> contentSize fi = int (length ?xs)"
    using dc(5) by (simp_all add: frame_ok_def)
  have out: "blocks_out ?L [] bs = ?xs" by (simp add: frame_content_def)
  have C: "core_inv c K m d src dst" using dc(1) by (auto simp: decompress_call_defs core_inv_def call_inv_def c_def dctx_inv_def)
  have n31: "n < 2147483648" using dc(1) by (simp add: decompress_call_defs)
  have len: "int (length (frame_bytes fi bs)) = int (length ?H) + int (length ?B) + int (length ?E)" by (simp add: frame_bytes_def)
  have at: "bytes_at m src ?H" "bytes_at m (src + int (length ?H)) ?B" "bytes_at m (src + int (length ?H) + int (length ?B)) ?E"
    using dc(6) by (simp_all add: frame_bytes_def bytes_at_append add.assoc)
  obtain v1 where v1: "LZ4F_loop c v = LZ4F_loop c v1" "dec_state c K fi [] v1" "w_srcPtr v1 = src + int (length ?H)" "kept K {} m (w_m v1)" "x_header (w_dctx v1) = x_header d"
  proof -
    have "int (length ?H) \<le> src + k - src" "15 \<le> src + k - src" using len dc(7,8) by simp_all
    from header_step [of c K v fi, unfolded cs vs, OF C refl vs(5) dc(2,10,4) fo(1) at(1) this A] that show ?thesis by blast
  qed
  have K1: "bytes_at (w_m v1) q ys" if "bytes_at m q ys" "src \<le> q" "q + int (length ys) \<le> src + k" for q ys
  proof (rule kept_bytes [OF v1(4) that(1)])
    have "{q..<q + int (length ys)} \<subseteq> {src..src + k}" "{src..src + k} \<subseteq> K" using that dc(1,8) by (auto simp: decompress_call_defs)
    then show "{q..<q + int (length ys)} \<subseteq> K - {}" by blast
  qed
  have "\<exists>v2. block_done c K fi ([] @ blocks_out ?L [] bs) (int (length ?B)) v1 v2"
    by (rule blocks_steps [OF v1(2) fo(1)]) (use K1 [OF at(2)] v1(3) len dc(7,9) fo out in \<open>auto simp: cs\<close>)
  then obtain v2 where v2: "LZ4F_loop c v1 = LZ4F_loop c v2" "dec_state c K fi ?xs v2" "w_srcPtr v2 = w_srcPtr v1 + int (length ?B)"
    "kept K {dst..<dst + n} (w_m v1) (w_m v2)" "x_header (w_dctx v2) = x_header (w_dctx v1)" unfolding block_done_def out cs by auto
  have "bytes_at (w_m v2) (w_srcPtr v2) ?E"
    by (rule source_kept [OF v1(2)]) (use v2(3,4) K1 [OF at(3)] v1(3) len dc(7) in \<open>auto simp: cs\<close>)
  from end_step [OF v2(2) fo(1,3) this] obtain v3 where
    v3: "LZ4F_loop c v2 = Some (None, v3)" "w_m v3 = w_m v2" "w_dctx v3 = (w_dctx v2)\<lparr>dStage := dstage_getHeader\<rparr>" "w_dstPtr v3 = w_dstPtr v2"
      "w_srcPtr v3 = w_srcPtr v2 + int (length ?E)" "w_hint v3 = 0"
    using v2(3) v1(3) len dc(7,9) n31 by (auto simp: cs)
  note s = dec_stateD [OF v2(2)]
  have pd: "LZ4F_preserveDict (w_m v3) (w_dctx v3) 0 = Some (w_m v3, w_dctx v3)" using v3(3) by (simp add: LZ4F_preserveDict_def uns32_def)
  have "LZ4F_decompress e m d dst n src k 0 = Some (0, int (length ?xs), int (length (frame_bytes fi bs)), w_m v2,
      (w_dctx v3)\<lparr>srcExpect := (if w_srcPtr v3 < src + k then w_srcPtr v3 else 0)\<rparr>)"
    unfolding LZ4F_decompress_def Let_def c_def [symmetric] v_def [symmetric] v1(1) v2(1) v3(1)
    using dc(3) pd v3 v2(3) v1(3) s(4) len by (simp add: cs)
  moreover have "tmpOutBuffer (w_dctx v2) \<notin> K" using ready_bufs(2,3,5) [OF s(2)] by (fastforce simp: region_def)
  ultimately show ?thesis using s(6) v3 v2(3,5) v1(3,5) dec_ctxD(1,5) [OF s(3)] len by (simp add: cs)
qed

section \<open>Properties\<close>

text \<open>C6: \<open>LZ4F_decompress\<close> refines the frame format: given a whole valid frame, with any block size, linked or independent blocks, stored or
  compressed, with or without checksum and content size, and room for the content, one call writes the content, consumes exactly the frame and
  returns 0, provided the buffers of the context can be allocated.\<close>
theorem LZ4F_decompress_decodes:
  assumes "decode_call e K m d dst n src k fi bs" "\<not> fst (LZ4F_header_alloc e m (header_dctx (env_arch e) d fi))"
  shows "\<exists>m' d'. LZ4F_decompress e m d dst n src k 0 = Some (0, int (length (frame_content fi bs)), int (length (frame_bytes fi bs)), m', d') \<and>
     bytes_at m' dst (frame_content fi bs) \<and> dStage d' = dstage_getHeader"
  using decompress_decodes [OF assms] by blast

text \<open>A frame with a stored block and a compressed one that refers to it.\<close>

definition blocks_example :: "fblock list" where
  "blocks_example = [Stored [1, 2, 3, 4, 5], Packed ([Seq [6] 6 10], [7, 7, 7, 7, 7])]"

definition info_linked :: LZ4F_frameInfo_t where
  "info_linked = \<lparr>blockSizeID = 4, blockMode = 0, contentChecksumFlag = 1, frameType = 0, contentSize = 21\<rparr>"

definition frame_example :: mem where
  "frame_example = (\<lambda>x. if 100 \<le> x \<and> x < 1000 then Some 0 else None) ++ buffer 600 (frame_bytes info_linked blocks_example)"

lemma blocks_example_simps:
  "frame_content info_linked blocks_example = [1, 2, 3, 4, 5, 6, 1, 2, 3, 4, 5, 6, 1, 2, 3, 4, 7, 7, 7, 7, 7]"
  "length (frame_bytes info_linked blocks_example) = 46" "frame_ok (env_arch env_example) info_linked blocks_example"
proof -
  show c: "frame_content info_linked blocks_example = [1, 2, 3, 4, 5, 6, 1, 2, 3, 4, 5, 6, 1, 2, 3, 4, 7, 7, 7, 7, 7]" by code_simp
  have "length (blocks_bytes blocks_example) = 23" by code_simp
  then show "length (frame_bytes info_linked blocks_example) = 46"
    by (simp add: frame_bytes_def length_header_bytes length_end_bytes) (simp add: info_linked_def)
  have "blocks_ok True 65536 [] blocks_example"
    by (simp add: blocks_example_def valid_block_def valid_seq_def block_size_def seqs_size_def encode_def enc_seqs_def enc_seq_def enc_len_def enc_last_def enc_off_def)
  then show "frame_ok (env_arch env_example) info_linked blocks_example"
    by (simp add: frame_ok_def c) (simp add: info_linked_def info_ok_def LZ4F_getBlockSize_def)
qed

lemma frame_example_dom: "dom frame_example = {100..<1000}"
  by (auto simp: frame_example_def buffer_def blocks_example_simps(2) split: if_splits)

lemma decode_call_example: "decode_call env_example {100..<1000} frame_example dctx_example 200 300 600 60 info_linked blocks_example"
proof -
  have "decompress_call env_example {100..<1000} frame_example dctx_example 200 300 600 60"
    using env_example_ok frame_example_dom
    by (auto simp: decompress_call_defs dctx_inv_def dctx_example_def alloc_ok_def transient_def zero_xxh_def low_def size_mod_def env_example_def)
  moreover have "bytes_at frame_example 600 (frame_bytes info_linked blocks_example)"
    unfolding frame_example_def by (simp add: bytes_at_def buffer_def map_add_def)
  ultimately show ?thesis by (simp add: decode_call_def blocks_example_simps) (simp add: dctx_example_def)
qed

lemma example_alloc_linked: "\<not> fst (LZ4F_header_alloc env_example frame_example (header_dctx (env_arch env_example) dctx_example info_linked))"
proof -
  have n: "frame_example x = None" if "1000 \<le> x" for x using frame_example_dom that by (metis atLeastLessThan_iff domIff not_less)
  have "LZ4F_getBlockSize (env_arch env_example) 4 = 65536" by (simp add: LZ4F_getBlockSize_def)
  then show ?thesis using n
    by (simp add: LZ4F_header_alloc_def header_dctx_def info_linked_def dctx_example_def Let_def FREEMEM_def env_example_def two_places_def take_region_def)
qed

theorem LZ4F_decompress_decodes_witness:
  "\<exists>m' d'. LZ4F_decompress env_example frame_example dctx_example 200 300 600 60 0 = Some (0, 21, 46, m', d') \<and>
     bytes_at m' 200 [1, 2, 3, 4, 5, 6, 1, 2, 3, 4, 5, 6, 1, 2, 3, 4, 7, 7, 7, 7, 7]"
  using LZ4F_decompress_decodes [OF decode_call_example example_alloc_linked] by (auto simp: blocks_example_simps)

end
