(* ===== verification/Lz4_Frame_Compress.thy ===== *)
theory Lz4_Frame_Compress
  imports Lz4_Frame_Spec Lz4_Frame_Header Lz4_Stream
begin

text \<open>
  \<open>LZ4F_compressFrame\<close>: the contract of the block compressors behind \<open>compressFunc_t\<close> as a locale, in which the writing of blocks,
  updates and the end of a frame are verified once; the two fast compressors as instances; and whole frames.
\<close>

section \<open>The contract of a block compressor of frames\<close>

text \<open>\<open>compressFunc_t\<close> is the type of the function pointer that \<open>LZ4F_selectCompression\<close> gives. A client relies on this: from a state
  whose invariant holds for the content \<open>hist\<close> directly before \<open>source\<close>, the function compresses the \<open>n\<close> bytes at \<open>source\<close> into
  \<open>n - 1\<close> bytes, or returns 0, and the invariant holds for the content with these bytes; the invariant depends on no memory but that
  of the content. A first block may have to have a minimal length.\<close>

definition apart :: "addr \<Rightarrow> addr \<Rightarrow> addr \<Rightarrow> addr \<Rightarrow> bool" where
  "apart lo hi lo' hi' \<longleftrightarrow> hi \<le> lo' \<or> hi' \<le> lo"

definition packed :: "bool \<Rightarrow> byte list \<Rightarrow> byte list \<Rightarrow> mem \<Rightarrow> addr \<Rightarrow> int \<Rightarrow> bool" where
  "packed L hist src m dst r \<longleftrightarrow>
     (\<exists>blk. fblock_ok L 65536 (length hist) (Packed blk) \<and> fblock_out L hist (Packed blk) = src \<and> bytes_at m dst (encode blk) \<and>
        r = int (length (encode blk)) \<and> length (encode blk) < length src)"

locale frame_compressor =
  fixes compress :: compressFunc_t and level :: int and L :: bool and first :: nat
    and state_inv :: "mem \<Rightarrow> lz4_ctx \<Rightarrow> byte list \<Rightarrow> addr \<Rightarrow> bool"
  assumes compress_ok:
    "\<lbrakk>state_inv m ctx hist source; bytes_at m source src; src \<noteq> []; length src \<le> 65536; hist \<noteq> [] \<or> first \<le> length src;
      mapped m dst (dst + int (length src) - 1); 0 \<le> dst; apart (source - int (length hist)) (source + int (length src)) dst (dst + int (length src) - 1)\<rbrakk> \<Longrightarrow>
     ok (\<lambda>(r, m', ctx'). frame m m' dst (dst + int (length src) - 1) \<and> (r = 0 \<or> packed L hist src m' dst r) \<and>
           state_inv m' ctx' (hist @ src) (source + int (length src)) \<and> ctx_ptr ctx' = ctx_ptr ctx)
        (compress m ctx source dst (int (length src)) (int (length src) - 1) level)"
    and state_frame:
    "\<lbrakk>state_inv m ctx hist source; frame m m' lo hi; apart (source - int (length hist)) source lo hi\<rbrakk> \<Longrightarrow> state_inv m' ctx hist source"
begin

text \<open>\<open>LZ4F_compressBlock\<close> writes a block of the format for its input.\<close>

lemma compressBlock_ok:
  assumes I: "state_inv m ctx hist source" and s: "bytes_at m source src" "src \<noteq> []" "length src \<le> 65536" "hist \<noteq> [] \<or> first \<le> length src"
    and d: "mapped m dst (dst + 4 + int (length src))" "0 \<le> dst" "apart (source - int (length hist)) (source + int (length src)) dst (dst + 4 + int (length src))"
  shows "ok (\<lambda>(r, m', ctx'). frame m m' dst (dst + 4 + int (length src)) \<and> state_inv m' ctx' (hist @ src) (source + int (length src)) \<and>
           ctx_ptr ctx' = ctx_ptr ctx \<and> (\<exists>b. fblock_ok L 65536 (length hist) b \<and> fblock_out L hist b = src \<and> bytes_at m' dst (fblock_bytes b) \<and>
                r = int (length (fblock_bytes b)) \<and> length (fblock_data b) \<le> length src))
          (LZ4F_compressBlock m dst source (int (length src)) compress ctx level)"
proof -
  let ?n = "int (length src)"
  have n: "0 < ?n" "?n \<le> 65536" using s by auto
  have d4: "mapped m (dst + 4) (dst + 4 + ?n - 1)" by (rule mapped_mono [OF d(1)]) auto
  have a4: "apart (source - int (length hist)) (source + ?n) (dst + 4) (dst + 4 + ?n - 1)" using d(3) by (auto simp: apart_def)
  from okD [OF compress_ok [OF I s d4 _ a4]] d(2) obtain r m1 ctx1 where
    c: "compress m ctx source (dst + 4) ?n (?n - 1) level = Some (r, m1, ctx1)" "frame m m1 (dst + 4) (dst + 4 + ?n - 1)"
      "r = 0 \<or> packed L hist src m1 (dst + 4) r" "state_inv m1 ctx1 (hist @ src) (source + ?n)" "ctx_ptr ctx1 = ctx_ptr ctx" by auto
  have f1: "frame m m1 dst (dst + 4 + ?n)" by (rule frame_mono [OF c(2)]) auto
  have i: "int32 ?n = ?n" "int32 (?n - 1) = ?n - 1" "uns32 ?n = ?n" using n by simp_all
  have m1d: "mapped m1 dst (dst + 4 + ?n)" using d(1) by (simp add: frame_mapped [OF f1])
  have h4: "mapped m' dst (dst + int (length (le_bytes 4 v)))" if "dom m' = dom m" for m' v
    using d(1) unfolding mapped_cong [OF that] by (auto elim!: mapped_mono)
  have inv: "state_inv m' ctx1 (hist @ src) (source + ?n)" if "frame m1 m' dst (dst + 4 + ?n)" for m'
    by (rule state_frame [OF c(4) that]) (use d(3) in \<open>auto simp: apart_def\<close>)
  show ?thesis
  proof (cases "r = 0")
    case True
    let ?v = "le_bytes 4 0" and ?w = "le_bytes 4 (?n + 2147483648)"
    from okD [OF store_bytes_ok [OF h4 [OF frame_dom [OF f1]], of 0]] obtain m2 where m2: "store_bytes m1 dst ?v = Some m2" "frame m1 m2 dst (dst + 4)" by auto
    have f12: "frame m m2 dst (dst + 4 + ?n)" by (rule frame_trans [OF f1 frame_mono [OF m2(2)]]) (use n in auto)
    from okD [OF store_bytes_ok [OF h4 [OF frame_dom [OF f12]], of "?n + 2147483648"]] obtain m3 where
      m3: "store_bytes m2 dst ?w = Some m3" "frame m2 m3 dst (dst + 4)" "bytes_at m3 dst ?w" by auto
    have f13: "frame m m3 dst (dst + 4 + ?n)" by (rule frame_trans [OF f12 frame_mono [OF m3(2)]]) (use n in auto)
    have ap: "source + ?n \<le> dst \<or> dst + 4 + ?n \<le> source" using d(3) by (auto simp: apart_def)
    have s3: "bytes_at m3 source src" using s(1) frame_bytes_at [OF f13 ap] by simp
    have "mapped m3 (dst + 4) (dst + 4 + ?n)" using d(1) unfolding frame_mapped [OF f13] by (auto elim!: mapped_mono)
    from okD [OF memcpy_bytes [OF s3 this]] obtain m4 where
      m4: "memcpy m3 (dst + 4) source (length src) = Some m4" "frame m3 m4 (dst + 4) (dst + 4 + ?n)" "bytes_at m4 (dst + 4) src" by auto
    have f14: "frame m1 m4 dst (dst + 4 + ?n)"
      by (rule frame_trans [OF frame_mono [OF m2(2)] frame_trans [OF frame_mono [OF m3(2)] frame_mono [OF m4(2)]]]) (use n in auto)
    have eq: "LZ4F_compressBlock m dst source ?n compress ctx level = Some (?n + 4, m4, ctx1)"
      using c(1) i n True m2(1) m3(1) m4(1) by (simp add: LZ4F_compressBlock_def LZ4F_writeLE32_eq)
    have "bytes_at m4 dst (fblock_bytes (Stored src))"
      using m4 m3(3) frame_bytes_at [OF m4(2), of dst ?w] by (simp add: fblock_bytes_def bytes_at_append)
    then have "\<exists>b. fblock_ok L 65536 (length hist) b \<and> fblock_out L hist b = src \<and> bytes_at m4 dst (fblock_bytes b) \<and>
                ?n + 4 = int (length (fblock_bytes b)) \<and> length (fblock_data b) \<le> length src"
      using s by (intro exI [of _ "Stored src"]) simp
    with frame_trans [OF f1 f14] inv [OF f14] c(5) show ?thesis by (simp add: eq)
  next
    case False
    with c(3) obtain blk where b: "fblock_ok L 65536 (length hist) (Packed blk)" "fblock_out L hist (Packed blk) = src"
      "bytes_at m1 (dst + 4) (encode blk)" "r = int (length (encode blk))" "length (encode blk) < length src" by (auto simp: packed_def)
    let ?v = "le_bytes 4 r"
    have r: "0 < r" "r < ?n" "uns32 r = r" "uns32 (r + 4) = r + 4" using False b(4,5) n by auto
    from okD [OF store_bytes_ok [OF h4 [OF frame_dom [OF f1]], of r]] obtain m2 where
      m2: "store_bytes m1 dst ?v = Some m2" "frame m1 m2 dst (dst + 4)" "bytes_at m2 dst ?v" by auto
    have f12: "frame m1 m2 dst (dst + 4 + ?n)" by (rule frame_mono [OF m2(2)]) (use n in auto)
    have eq: "LZ4F_compressBlock m dst source ?n compress ctx level = Some (r + 4, m2, ctx1)"
      using c(1) i r False m2(1) by (simp add: LZ4F_compressBlock_def LZ4F_writeLE32_eq)
    have "bytes_at m2 dst (fblock_bytes (Packed blk))"
      using b(3,4) m2(3) frame_bytes_at [OF m2(2), of "dst + 4" "encode blk"] by (simp add: fblock_bytes_def bytes_at_append)
    then have "\<exists>b. fblock_ok L 65536 (length hist) b \<and> fblock_out L hist b = src \<and> bytes_at m2 dst (fblock_bytes b) \<and>
                r + 4 = int (length (fblock_bytes b)) \<and> length (fblock_data b) \<le> length src"
      using b by (intro exI [of _ "Packed blk"]) simp
    with frame_trans [OF f1 f12] inv [OF f12] c(5) show ?thesis by (simp add: eq)
  qed
qed

end

section \<open>Compressing the input block by block\<close>

lemma blocks_out_append: "blocks_out L hist (bs @ cs) = blocks_out L hist bs @ blocks_out L (hist @ blocks_out L hist bs) cs"
  by (induction bs arbitrary: hist) simp_all

lemma blocks_ok_append: "blocks_ok L B hist (bs @ cs) \<longleftrightarrow> blocks_ok L B hist bs \<and> blocks_ok L B (hist @ blocks_out L hist bs) cs"
  by (induction bs arbitrary: hist) simp_all

lemma blocks_bytes_append: "blocks_bytes (bs @ cs) = blocks_bytes bs @ blocks_bytes cs"
  by (simp add: blocks_bytes_def)

text \<open>From \<open>u\<close> to \<open>u'\<close> the bytes \<open>xs\<close> of the input have been written as the blocks \<open>bs\<close>.\<close>

definition emits ::
  "bool \<Rightarrow> (mem \<Rightarrow> lz4_ctx \<Rightarrow> byte list \<Rightarrow> addr \<Rightarrow> bool) \<Rightarrow> LZ4F_update_vars \<Rightarrow> LZ4F_update_vars \<Rightarrow> byte list \<Rightarrow> byte list \<Rightarrow> fblock list \<Rightarrow> bool" where
  "emits L J u u' hist xs bs \<longleftrightarrow>
     frame (u_m u) (u_m u') (u_dstPtr u) (u_dstPtr u + 4 * int (length bs) + int (length xs)) \<and>
     bytes_at (u_m u') (u_dstPtr u) (blocks_bytes bs) \<and> u_dstPtr u' = u_dstPtr u + int (length (blocks_bytes bs)) \<and>
     length (blocks_bytes bs) \<le> 4 * length bs + length xs \<and> blocks_ok L 65536 hist bs \<and> blocks_out L hist bs = xs \<and>
     u_srcPtr u' = u_srcPtr u + int (length xs) \<and> J (u_m u') (lz4Ctx (u_cctx u')) (hist @ xs) (u_srcPtr u') \<and>
     (\<exists>ctx. u_cctx u' = (u_cctx u)\<lparr>lz4Ctx := ctx\<rparr> \<and> ctx_ptr ctx = ctx_ptr (lz4Ctx (u_cctx u))) \<and>
     (if bs = [] then u_last u' = u_last u else u_last u' = fromSrcBuffer)"

lemma emits_refl: "J (u_m u) (lz4Ctx (u_cctx u)) hist (u_srcPtr u) \<Longrightarrow> emits L J u u hist [] []"
  unfolding emits_def by (auto intro!: exI [of _ "lz4Ctx (u_cctx u)"])

lemma emits_trans:
  assumes "emits L J u v hist xs bs" "emits L J v w (hist @ xs) ys cs"
  shows "emits L J u w hist (xs @ ys) (bs @ cs)"
proof -
  let ?lo = "u_dstPtr u" and ?hi = "u_dstPtr u + 4 * int (length (bs @ cs)) + int (length (xs @ ys))"
  have b: "frame (u_m u) (u_m v) ?lo (?lo + 4 * int (length bs) + int (length xs))" "bytes_at (u_m v) ?lo (blocks_bytes bs)"
    "u_dstPtr v = ?lo + int (length (blocks_bytes bs))" "length (blocks_bytes bs) \<le> 4 * length bs + length xs"
    using assms(1) by (simp_all add: emits_def)
  have c: "frame (u_m v) (u_m w) (u_dstPtr v) (u_dstPtr v + 4 * int (length cs) + int (length ys))" "bytes_at (u_m w) (u_dstPtr v) (blocks_bytes cs)"
    using assms(2) by (simp_all add: emits_def)
  have "frame (u_m u) (u_m w) ?lo ?hi"
    by (rule frame_trans [OF frame_mono [OF b(1)] frame_mono [OF c(1)]]) (use b(3,4) in auto)
  moreover have "bytes_at (u_m w) ?lo (blocks_bytes (bs @ cs))"
    using frame_bytes_at [OF c(1), of ?lo "blocks_bytes bs"] b c(2) by (simp add: blocks_bytes_append bytes_at_append)
  moreover obtain ctx ctx' where "u_cctx v = (u_cctx u)\<lparr>lz4Ctx := ctx\<rparr>" "ctx_ptr ctx = ctx_ptr (lz4Ctx (u_cctx u))"
    "u_cctx w = (u_cctx v)\<lparr>lz4Ctx := ctx'\<rparr>" "ctx_ptr ctx' = ctx_ptr (lz4Ctx (u_cctx v))" using assms unfolding emits_def by blast
  then have "\<exists>ctx. u_cctx w = (u_cctx u)\<lparr>lz4Ctx := ctx\<rparr> \<and> ctx_ptr ctx = ctx_ptr (lz4Ctx (u_cctx u))" by (intro exI [of _ ctx']) simp
  moreover have "blocks_ok L 65536 hist bs" "blocks_out L hist bs = xs" "u_srcPtr v = u_srcPtr u + int (length xs)"
    "if bs = [] then u_last v = u_last u else u_last v = fromSrcBuffer" using assms(1) by (simp_all add: emits_def)
  moreover have "u_dstPtr w = u_dstPtr v + int (length (blocks_bytes cs))" "length (blocks_bytes cs) \<le> 4 * length cs + length ys"
    "blocks_ok L 65536 (hist @ xs) cs" "blocks_out L (hist @ xs) cs = ys" "u_srcPtr w = u_srcPtr v + int (length ys)"
    "J (u_m w) (lz4Ctx (u_cctx w)) ((hist @ xs) @ ys) (u_srcPtr w)"
    "if cs = [] then u_last w = u_last v else u_last w = fromSrcBuffer" using assms(2) unfolding emits_def by blast+
  ultimately show ?thesis
    unfolding emits_def by (intro conjI) (use b(3,4) in \<open>simp_all add: blocks_bytes_append blocks_out_append blocks_ok_append split: if_splits\<close>)
qed

context frame_compressor
begin

lemma update_one:
  assumes I: "state_inv (u_m u) (lz4Ctx (u_cctx u)) hist (u_srcPtr u)" and l: "p_compressionLevel (prefs (u_cctx u)) = level"
    and s: "bytes_at (u_m u) (u_srcPtr u) src" "src \<noteq> []" "length src \<le> 65536" "hist \<noteq> [] \<or> first \<le> length src" "n = int (length src)"
    and d: "mapped (u_m u) (u_dstPtr u) (u_dstPtr u + 4 + n)" "0 \<le> u_dstPtr u"
      "apart (u_srcPtr u - int (length hist)) (u_srcPtr u + n) (u_dstPtr u) (u_dstPtr u + 4 + n)"
  shows "ok (\<lambda>u'. \<exists>b. emits L state_inv u (u'\<lparr>u_srcPtr := u_srcPtr u + n\<rparr>) hist src [b] \<and> u_srcPtr u' = u_srcPtr u)
     (LZ4F_update_block compress (u\<lparr>u_last := fromSrcBuffer\<rparr>) (u_srcPtr u) n)"
proof -
  from okD [OF compressBlock_ok [OF I s(1-4) d [unfolded s(5)]]] obtain r m' ctx' b where
    c: "LZ4F_compressBlock (u_m u) (u_dstPtr u) (u_srcPtr u) (int (length src)) compress (lz4Ctx (u_cctx u)) level = Some (r, m', ctx')"
      "frame (u_m u) m' (u_dstPtr u) (u_dstPtr u + 4 + int (length src))" "state_inv m' ctx' (hist @ src) (u_srcPtr u + int (length src))"
      "ctx_ptr ctx' = ctx_ptr (lz4Ctx (u_cctx u))" "fblock_ok L 65536 (length hist) b" "fblock_out L hist b = src" "bytes_at m' (u_dstPtr u) (fblock_bytes b)"
      "r = int (length (fblock_bytes b))" "length (fblock_data b) \<le> length src" by auto
  then show ?thesis
    using l by (simp add: LZ4F_update_block_def s(5)) (rule exI [of _ b], auto simp: emits_def)
qed

lemma update_blocks_ok:
  assumes "state_inv (u_m u) (lz4Ctx (u_cctx u)) hist (u_srcPtr u)" "p_compressionLevel (prefs (u_cctx u)) = level"
    and "bytes_at (u_m u) (u_srcPtr u) xs" "first \<le> 65536" "srcEnd = u_srcPtr u + int (length xs)"
    and "mapped (u_m u) (u_dstPtr u) (u_dstPtr u + 4 * int (length xs div 65536) + int (length xs))" "0 \<le> u_dstPtr u"
      "apart (u_srcPtr u - int (length hist)) srcEnd (u_dstPtr u) (u_dstPtr u + 4 * int (length xs div 65536) + int (length xs))"
  shows "ok (\<lambda>u'. \<exists>bs ys zs. xs = ys @ zs \<and> emits L state_inv u u' hist ys bs \<and> length bs = length xs div 65536 \<and> length zs = length xs mod 65536)
     (LZ4F_update_blocks compress u srcEnd 65536)"
  using assms
proof (induction "length xs" arbitrary: u hist xs rule: less_induct)
  case less
  let ?q = "length xs div 65536"
  show ?case
  proof (cases "65536 \<le> length xs")
    case False
    have "\<exists>bs ys zs. xs = ys @ zs \<and> emits L state_inv u u hist ys bs \<and> length bs = length xs div 65536 \<and> length zs = length xs mod 65536"
      by (rule exI [of _ "[]"], rule exI [of _ "[]"], rule exI [of _ xs]) (use emits_refl [of state_inv u hist, OF less.prems(1)] False in simp)
    then show ?thesis using False less.prems(5) by (subst LZ4F_update_blocks.simps) simp
  next
    case True
    define x1 where "x1 = take 65536 xs"
    define x2 where "x2 = drop 65536 xs"
    have x: "xs = x1 @ x2" "length x1 = 65536" "length x2 = length xs - 65536" using True by (auto simp: x1_def x2_def)
    have q: "?q = Suc (length x2 div 65536)" "length x2 mod 65536 = length xs mod 65536" using True x(3) by (simp_all add: le_div_geq le_mod_geq)
    have s: "bytes_at (u_m u) (u_srcPtr u) x1" "bytes_at (u_m u) (u_srcPtr u + 65536) x2" using less.prems(3) x by (simp_all add: bytes_at_append)
    have len: "int (length xs) = 65536 + int (length x2)" using x by simp
    have "ok (\<lambda>u'. \<exists>b. emits L state_inv u (u'\<lparr>u_srcPtr := u_srcPtr u + 65536\<rparr>) hist x1 [b] \<and> u_srcPtr u' = u_srcPtr u)
       (LZ4F_update_block compress (u\<lparr>u_last := fromSrcBuffer\<rparr>) (u_srcPtr u) 65536)"
    proof (rule update_one [OF less.prems(1,2) s(1)])
      show "mapped (u_m u) (u_dstPtr u) (u_dstPtr u + 4 + 65536)" by (rule mapped_mono [OF less.prems(6)]) (use len q in auto)
      show "apart (u_srcPtr u - int (length hist)) (u_srcPtr u + 65536) (u_dstPtr u) (u_dstPtr u + 4 + 65536)"
        using less.prems(5,8) len q by (auto simp: apart_def)
    qed (use x less.prems(4,7) in auto)
    then obtain v b where v: "LZ4F_update_block compress (u\<lparr>u_last := fromSrcBuffer\<rparr>) (u_srcPtr u) 65536 = Some v"
      "emits L state_inv u (v\<lparr>u_srcPtr := u_srcPtr u + 65536\<rparr>) hist x1 [b]" "u_srcPtr v = u_srcPtr u" by (auto dest!: okD)
    let ?v = "v\<lparr>u_srcPtr := u_srcPtr v + 65536\<rparr>"
    have e: "emits L state_inv u ?v hist x1 [b]" using v(2,3) by simp
    then have ev: "frame (u_m u) (u_m v) (u_dstPtr u) (u_dstPtr u + 4 + 65536)" "u_dstPtr v = u_dstPtr u + int (length (blocks_bytes [b]))"
      "length (blocks_bytes [b]) \<le> 4 + 65536" "state_inv (u_m v) (lz4Ctx (u_cctx v)) (hist @ x1) (u_srcPtr ?v)"
      "p_compressionLevel (prefs (u_cctx v)) = level" using x(2) less.prems(2) by (auto simp: emits_def)
    have "ok (\<lambda>u'. \<exists>bs ys zs. x2 = ys @ zs \<and> emits L state_inv ?v u' (hist @ x1) ys bs \<and> length bs = length x2 div 65536 \<and> length zs = length x2 mod 65536)
       (LZ4F_update_blocks compress ?v srcEnd 65536)"
    proof (rule less.hyps)
      show "bytes_at (u_m ?v) (u_srcPtr ?v) x2" using s(2) v(3) frame_bytes_at [OF ev(1), of "u_srcPtr u + 65536" x2] less.prems(5,8) len q by (auto simp: apart_def)
      show "mapped (u_m ?v) (u_dstPtr ?v) (u_dstPtr ?v + 4 * int (length x2 div 65536) + int (length x2))"
        using less.prems(6) ev(2,3) len q by (simp add: frame_mapped [OF ev(1)]) (auto elim!: mapped_mono)
      show "apart (u_srcPtr ?v - int (length (hist @ x1))) srcEnd (u_dstPtr ?v) (u_dstPtr ?v + 4 * int (length x2 div 65536) + int (length x2))"
        using less.prems(8) ev(2,3) len q v(3) x(2) by (auto simp: apart_def)
    qed (use ev x less.prems(4,5,7) True v(3) in auto)
    then obtain u' bs ys zs where r: "LZ4F_update_blocks compress ?v srcEnd 65536 = Some u'" "x2 = ys @ zs"
      "emits L state_inv ?v u' (hist @ x1) ys bs" "length bs = length x2 div 65536" "length zs = length x2 mod 65536" unfolding ok_iff by blast
    have "\<exists>bs ys zs. xs = ys @ zs \<and> emits L state_inv u u' hist ys bs \<and> length bs = length xs div 65536 \<and> length zs = length xs mod 65536"
    proof (intro exI conjI)
      show "xs = (x1 @ ys) @ zs" using x(1) r(2) by simp
      show "emits L state_inv u u' hist (x1 @ ys) ([b] @ bs)" by (rule emits_trans [OF e r(3)])
    qed (use r(4,5) q in simp_all)
    then show ?thesis using True less.prems(5) v(1) r(1) by (subst LZ4F_update_blocks.simps) simp
  qed
qed

end

lemma compressBound_64K:
  assumes "blockSizeID (frameInfo p) \<in> {0, 4}" "autoFlush p \<noteq> 0" "contentChecksumFlag (frameInfo p) \<in> {0, 1}" "0 \<le> n" "n < 2147483648"
  shows "LZ4F_compressBound a n (Some p) = 4 * (n div 65536 + 1) + n + 4 + 4 * contentChecksumFlag (frameInfo p)"
proof -
  have bs: "LZ4F_getBlockSize a (blockSizeID (frameInfo p)) = 65536" using assms(1) by (auto simp: LZ4F_getBlockSize_def)
  have d: "0 \<le> n div 65536" "n div 65536 < 32768" using assms(4,5) by auto
  have u: "uns32 (n div 65536) = n div 65536" "uns32 (n div 65536 + 1) = n div 65536 + 1" "uns32 (n div 65536 + 1 - 1) = n div 65536" using d by simp_all
  have e: "65536 * (n div 65536) + n mod 65536 = n" by simp
  have m: "(4 * (n div 65536 + 1) + n + (4 + contentChecksumFlag (frameInfo p) * 4)) mod size_mod a =
      4 * (n div 65536 + 1) + n + (4 + contentChecksumFlag (frameInfo p) * 4)"
    by (rule mod_pos_pos_trivial) (use d assms(3-5) size_mod_ge [of a] in auto)
  have s: "4 * (n div 65536 + 1) + 65536 * (n div 65536) + n mod 65536 + (4 + contentChecksumFlag (frameInfo p) * 4) =
      4 * (n div 65536 + 1) + n + (4 + contentChecksumFlag (frameInfo p) * 4)" using e by linarith
  show ?thesis
    unfolding LZ4F_compressBound_def Let_def option.case bs u if_P [OF assms(2)] s m by simp
qed

text \<open>The common part of the contexts that this development follows: 64 KB blocks, flushed with every update.\<close>

definition flushing :: "LZ4F_cctx_t \<Rightarrow> bool" where
  "flushing c \<longleftrightarrow> cStage c = 1 \<and> c_maxBlockSize c = 65536 \<and> c_tmpInSize c = 0 \<and> autoFlush (prefs c) \<noteq> 0 \<and>
     blockSizeID (frameInfo (prefs c)) \<in> {0, 4} \<and> contentChecksumFlag (frameInfo (prefs c)) \<in> {0, 1}"

definition checksum_repr :: "LZ4F_cctx_t \<Rightarrow> byte list \<Rightarrow> bool" where
  "checksum_repr c xs \<longleftrightarrow> (contentChecksumFlag (frameInfo (prefs c)) = 1 \<longrightarrow> xxh32_repr 0 (c_xxh c) xs)"

context frame_compressor
begin

lemma update_flush_ok:
  assumes "state_inv (u_m u) (lz4Ctx (u_cctx u)) hist (u_srcPtr u)" "p_compressionLevel (prefs (u_cctx u)) = level" "autoFlush (prefs (u_cctx u)) \<noteq> 0"
    and "bytes_at (u_m u) (u_srcPtr u) zs" "length zs < 65536" "hist \<noteq> [] \<or> first \<le> length zs" "srcEnd = u_srcPtr u + int (length zs)"
    and "mapped (u_m u) (u_dstPtr u) (u_dstPtr u + 4 + int (length zs))" "0 \<le> u_dstPtr u"
      "apart (u_srcPtr u - int (length hist)) srcEnd (u_dstPtr u) (u_dstPtr u + 4 + int (length zs))"
  shows "ok (\<lambda>u'. \<exists>bs. emits L state_inv u u' hist zs bs \<and> length bs \<le> 1) (LZ4F_update_flush compress u srcEnd)"
proof (cases "zs = []")
  case True
  then show ?thesis using emits_refl [of state_inv u hist L, OF assms(1)] assms(7) by (auto simp: LZ4F_update_flush_def)
next
  case False
  have "ok (\<lambda>u'. \<exists>b. emits L state_inv u (u'\<lparr>u_srcPtr := u_srcPtr u + int (length zs)\<rparr>) hist zs [b] \<and> u_srcPtr u' = u_srcPtr u)
     (LZ4F_update_block compress (u\<lparr>u_last := fromSrcBuffer\<rparr>) (u_srcPtr u) (int (length zs)))"
    by (rule update_one [OF assms(1,2,4) False _ assms(6) refl assms(8,9)]) (use assms(5,7,10) in auto)
  then obtain v b where v: "LZ4F_update_block compress (u\<lparr>u_last := fromSrcBuffer\<rparr>) (u_srcPtr u) (int (length zs)) = Some v"
    "emits L state_inv u (v\<lparr>u_srcPtr := u_srcPtr u + int (length zs)\<rparr>) hist zs [b]" unfolding ok_iff by blast
  then show ?thesis using False assms(3,7) by (auto simp: LZ4F_update_flush_def intro!: exI [of _ "[b]"])
qed

lemma update_all_ok:
  assumes "state_inv (u_m u) (lz4Ctx (u_cctx u)) hist (u_srcPtr u)" "p_compressionLevel (prefs (u_cctx u)) = level" "autoFlush (prefs (u_cctx u)) \<noteq> 0"
    and "bytes_at (u_m u) (u_srcPtr u) xs" "first \<le> 65536" "hist \<noteq> [] \<or> first \<le> length xs" "srcEnd = u_srcPtr u + int (length xs)"
    and "mapped (u_m u) (u_dstPtr u) (u_dstPtr u + 4 * int (length xs div 65536 + 1) + int (length xs))" "0 \<le> u_dstPtr u"
      "apart (u_srcPtr u - int (length hist)) srcEnd (u_dstPtr u) (u_dstPtr u + 4 * int (length xs div 65536 + 1) + int (length xs))"
  shows "ok (\<lambda>u'. \<exists>bs. emits L state_inv u u' hist xs bs \<and> length bs \<le> length xs div 65536 + 1)
     (do { u \<leftarrow> LZ4F_update_blocks compress u srcEnd 65536; LZ4F_update_flush compress u srcEnd })"
proof -
  have "ok (\<lambda>u'. \<exists>bs ys zs. xs = ys @ zs \<and> emits L state_inv u u' hist ys bs \<and> length bs = length xs div 65536 \<and> length zs = length xs mod 65536)
     (LZ4F_update_blocks compress u srcEnd 65536)"
    by (rule update_blocks_ok [OF assms(1,2,4,5,7) _ assms(9)]) (use assms(8,10) in \<open>auto simp: apart_def elim!: mapped_mono\<close>)
  then obtain v bs ys zs where v: "LZ4F_update_blocks compress u srcEnd 65536 = Some v" "xs = ys @ zs" "emits L state_inv u v hist ys bs"
    "length bs = length xs div 65536" "length zs = length xs mod 65536" unfolding ok_iff by blast
  let ?h = "4 * int (length xs div 65536)"
  have e: "frame (u_m u) (u_m v) (u_dstPtr u) (u_dstPtr u + 4 * int (length bs) + int (length ys))"
    "u_dstPtr v = u_dstPtr u + int (length (blocks_bytes bs))" "length (blocks_bytes bs) \<le> 4 * length bs + length ys"
    "u_srcPtr v = u_srcPtr u + int (length ys)" "state_inv (u_m v) (lz4Ctx (u_cctx v)) (hist @ ys) (u_srcPtr v)"
    "prefs (u_cctx v) = prefs (u_cctx u)" using v(3) unfolding emits_def by auto
  have len: "int (length xs) = int (length ys) + int (length zs)" using v(2) by simp
  have hz: "hist @ ys \<noteq> [] \<or> first \<le> length zs" using assms(6) v(2) by (cases ys) auto
  have lz: "length zs < 65536" using v(5) by simp
  have dd: "u_dstPtr u \<le> u_dstPtr v" "u_dstPtr v + 4 + int (length zs) \<le> u_dstPtr u + 4 * int (length xs div 65536 + 1) + int (length xs)"
    using e(2,3) v(4) len by auto
  have ap: "srcEnd \<le> u_dstPtr u \<or> u_dstPtr u + 4 * int (length xs div 65536 + 1) + int (length xs) \<le> u_srcPtr u - int (length hist)"
    using assms(10) by (auto simp: apart_def)
  have fr: "u_dstPtr u + 4 * int (length bs) + int (length ys) \<le> u_dstPtr u + 4 * int (length xs div 65536 + 1) + int (length xs)" using v(4) len by simp
  have bz: "bytes_at (u_m u) (u_srcPtr u + int (length ys)) zs" using assms(4) v(2) by (simp add: bytes_at_append)
  have az: "u_srcPtr u + int (length ys) + int (length zs) \<le> u_dstPtr u \<or> u_dstPtr u + 4 * int (length bs) + int (length ys) \<le> u_srcPtr u + int (length ys)"
    using ap fr assms(7) len by auto
  have "ok (\<lambda>u'. \<exists>cs. emits L state_inv v u' (hist @ ys) zs cs \<and> length cs \<le> 1) (LZ4F_update_flush compress v srcEnd)"
  proof (rule update_flush_ok [OF e(5) _ _ _ lz hz])
    show "bytes_at (u_m v) (u_srcPtr v) zs" using bz frame_bytes_at [OF e(1) az] e(4) by simp
    show "mapped (u_m v) (u_dstPtr v) (u_dstPtr v + 4 + int (length zs))"
      unfolding frame_mapped [OF e(1)] by (rule mapped_mono [OF assms(8)]) (use dd in auto)
    show "apart (u_srcPtr v - int (length (hist @ ys))) srcEnd (u_dstPtr v) (u_dstPtr v + 4 + int (length zs))"
      using ap dd e(4) by (auto simp: apart_def)
  qed (use e(4,6) dd assms(2,3,7,9) len in auto)
  then obtain w cs where w: "LZ4F_update_flush compress v srcEnd = Some w" "emits L state_inv v w (hist @ ys) zs cs" "length cs \<le> 1"
    unfolding ok_iff by blast
  have "emits L state_inv u w hist xs (bs @ cs)" unfolding v(2) by (rule emits_trans [OF v(3) w(2)])
  then show ?thesis using v(1,4) w(1,3) by (auto intro!: exI [of _ "bs @ cs"])
qed

end

section \<open>Updates and the end of a frame\<close>

text \<open>What an update leaves of the context: still flushing, the same preferences, the checksum and the size of the longer content.\<close>

definition advanced :: "LZ4F_cctx_t \<Rightarrow> LZ4F_cctx_t \<Rightarrow> byte list \<Rightarrow> byte list \<Rightarrow> bool" where
  "advanced c c' hist xs \<longleftrightarrow> flushing c' \<and> prefs c' = prefs c \<and> ctx_ptr (lz4Ctx c') = ctx_ptr (lz4Ctx c) \<and> checksum_repr c' (hist @ xs) \<and>
     totalInSize c' = (totalInSize c + int (length xs)) mod 2 ^ 64"

context frame_compressor
begin

lemma compressUpdate_ok:
  assumes S: "flushing c" and p: "p_compressionLevel (prefs c) = level"
    "LZ4F_selectCompression (env_arch e) (blockMode (frameInfo (prefs c))) level = compress"
    and st: "blockMode (frameInfo (prefs c)) = LZ4F_blockLinked \<longrightarrow> stableSrc \<noteq> 0"
    and I: "state_inv m (lz4Ctx c) hist src" and x: "bytes_at m src xs" "length xs < 2147483648" "first \<le> 65536" "hist \<noteq> [] \<or> first \<le> length xs"
    and X: "checksum_repr c hist"
    and d: "mapped m dst (dst + dstMax)" "0 \<le> dst" "LZ4F_compressBound (env_arch e) (int (length xs)) (Some (prefs c)) \<le> dstMax"
      "apart (src - int (length hist)) (src + int (length xs)) dst (dst + dstMax)"
  shows "ok (\<lambda>(r, m', c'). \<exists>bs. frame m m' dst (dst + 4 * int (length xs div 65536 + 1) + int (length xs)) \<and>
       bytes_at m' dst (blocks_bytes bs) \<and> r = int (length (blocks_bytes bs)) \<and>
       length (blocks_bytes bs) \<le> 4 * (length xs div 65536 + 1) + length xs \<and> blocks_ok L 65536 hist bs \<and> blocks_out L hist bs = xs \<and>
       advanced c c' hist xs \<and> state_inv m' (lz4Ctx c') (hist @ xs) (src + int (length xs)))
     (LZ4F_compressUpdate e m c dst dstMax src (int (length xs)) stableSrc)"
proof -
  let ?a = "env_arch e" and ?n = "int (length xs)" and ?q = "length xs div 65536 + 1"
  let ?u = "\<lparr>u_m = m, u_cctx = c, u_srcPtr = src, u_dstPtr = dst, u_last = notDone\<rparr>"
  have f: "cStage c = 1" "c_maxBlockSize c = 65536" "c_tmpInSize c = 0" "autoFlush (prefs c) \<noteq> 0" "blockSizeID (frameInfo (prefs c)) \<in> {0, 4}"
    "contentChecksumFlag (frameInfo (prefs c)) \<in> {0, 1}" using S by (simp_all add: flushing_def)
  have "LZ4F_compressBound ?a ?n (Some (prefs c)) = 4 * (?n div 65536 + 1) + ?n + 4 + 4 * contentChecksumFlag (frameInfo (prefs c))"
    by (rule compressBound_64K) (use f x(2) in auto)
  then have room: "4 * int ?q + ?n \<le> dstMax" using d(3) f(6) by (auto simp: zdiv_int)
  have dm: "mapped m dst (dst + 4 * int ?q + ?n)" by (rule mapped_mono [OF d(1)]) (use room in auto)
  have ap: "apart (src - int (length hist)) (src + ?n) dst (dst + 4 * int ?q + ?n)" using d(4) room by (auto simp: apart_def)
  have "ok (\<lambda>u'. \<exists>bs. emits L state_inv ?u u' hist xs bs \<and> length bs \<le> ?q)
     (do { u \<leftarrow> LZ4F_update_blocks compress ?u (src + ?n) 65536; LZ4F_update_flush compress u (src + ?n) })"
    by (rule update_all_ok) (use I p f x d(2) dm ap in auto)
  then obtain w bs where w: "do { u \<leftarrow> LZ4F_update_blocks compress ?u (src + ?n) 65536; LZ4F_update_flush compress u (src + ?n) } = Some w"
    and e: "emits L state_inv ?u w hist xs bs" "length bs \<le> ?q" unfolding ok_iff by blast
  from w obtain v where v: "LZ4F_update_blocks compress ?u (src + ?n) 65536 = Some v" "LZ4F_update_flush compress v (src + ?n) = Some w"
    by (auto simp: bind_eq_Some_conv)
  obtain ctx where ctx: "u_cctx w = c\<lparr>lz4Ctx := ctx\<rparr>" "ctx_ptr ctx = ctx_ptr (lz4Ctx c)" using e(1) unfolding emits_def by auto
  have E: "frame m (u_m w) dst (dst + 4 * int (length bs) + ?n)" "bytes_at (u_m w) dst (blocks_bytes bs)" "u_dstPtr w = dst + int (length (blocks_bytes bs))"
    "length (blocks_bytes bs) \<le> 4 * length bs + length xs" "blocks_ok L 65536 hist bs" "blocks_out L hist bs = xs" "u_srcPtr w = src + ?n"
    "state_inv (u_m w) (lz4Ctx (u_cctx w)) (hist @ xs) (src + ?n)"
    using e(1) unfolding emits_def by (elim conjE; simp)+
  define c1 where "c1 = (if blockMode (frameInfo (prefs c)) = LZ4F_blockLinked \<and> u_last w = fromSrcBuffer then c\<lparr>lz4Ctx := ctx, c_tmpIn := tmpBuff c\<rparr> else c\<lparr>lz4Ctx := ctx\<rparr>)"
  have dict: "LZ4F_update_dict w stableSrc = Some (False, w\<lparr>u_cctx := c1\<rparr>)"
    using st ctx(1) by (auto simp: LZ4F_update_dict_def Let_def c1_def)
  have c1: "prefs c1 = prefs c" "cStage c1 = 1" "c_maxBlockSize c1 = 65536" "c_tmpInSize c1 = 0" "lz4Ctx c1 = ctx" "c_xxh c1 = c_xxh c" "totalInSize c1 = totalInSize c"
    using f by (simp_all add: c1_def)
  have fr: "frame m (u_m w) dst (dst + 4 * int ?q + ?n)" by (rule frame_mono [OF E(1)]) (use e(2) in auto)
  have xs: "bytes_at (u_m w) src xs" using x(1) frame_bytes_at [OF fr, of src xs] ap by (auto simp: apart_def)
  have cs: "\<exists>c2. (if contentChecksumFlag (frameInfo (prefs c1)) = LZ4F_contentChecksumEnabled
      then do { (_, s) \<leftarrow> XXH32_update ?a (u_m w) (c_xxh c1) src ?n; Some (c1\<lparr>c_xxh := s\<rparr>) } else Some c1) = Some c2 \<and>
     checksum_repr c2 (hist @ xs) \<and> (\<exists>s. c2 = c1\<lparr>c_xxh := s\<rparr>)"
  proof (cases "contentChecksumFlag (frameInfo (prefs c)) = 1")
    case True
    with X have "xxh32_repr 0 (c_xxh c1) hist" by (simp add: checksum_repr_def c1)
    from okD [OF XXH32_update_ok [OF this xs, of ?a]] x(2) size_mod_ge [of ?a] obtain s where
      "XXH32_update ?a (u_m w) (c_xxh c1) src ?n = Some (XXH_OK, s)" "xxh32_repr 0 s (hist @ xs)" by auto
    with True c1 show ?thesis by (auto simp: checksum_repr_def)
  next
    case False
    then show ?thesis using c1 by (auto simp: checksum_repr_def intro: exI [of _ "c_xxh c1"])
  qed
  then obtain c2 s where c2: "(if contentChecksumFlag (frameInfo (prefs c1)) = LZ4F_contentChecksumEnabled
      then do { (_, s) \<leftarrow> XXH32_update ?a (u_m w) (c_xxh c1) src ?n; Some (c1\<lparr>c_xxh := s\<rparr>) } else Some c1) = Some c2"
    "checksum_repr c2 (hist @ xs)" "c2 = c1\<lparr>c_xxh := s\<rparr>" by blast
  let ?c = "c2\<lparr>totalInSize := (totalInSize c2 + ?n) mod 2 ^ 64\<rparr>"
  have tmp: "LZ4F_update_tmp compress ?u src ?n = Some ?u" using f(3) by (simp add: LZ4F_update_tmp_def)
  have lim: "LZ4F_update_limits (w\<lparr>u_cctx := c1\<rparr>) 65536 = Some (w\<lparr>u_cctx := c1\<rparr>)" using f(4) c1(1) by (simp add: LZ4F_update_limits_def)
  have rest: "LZ4F_update_rest (w\<lparr>u_cctx := c1\<rparr>) (src + ?n) = Some (w\<lparr>u_cctx := c1\<rparr>)" using E(7) by (simp add: LZ4F_update_rest_def)
  have eq: "LZ4F_compressUpdate e m c dst dstMax src ?n stableSrc = Some (u_dstPtr w - dst, u_m w, ?c)"
    unfolding LZ4F_compressUpdate_def Let_def f(2) p tmp using f(1) d(3) v dict lim rest c2(1)
    by (cases "contentChecksumFlag (frameInfo (prefs c1)) = LZ4F_contentChecksumEnabled") (auto simp: bind_eq_Some_conv)
  have "advanced c ?c hist xs"
    unfolding advanced_def using c1 c2(2,3) ctx(2) f by (simp add: flushing_def checksum_repr_def)
  moreover have "state_inv (u_m w) (lz4Ctx ?c) (hist @ xs) (src + ?n)" using E(7,8) c1(5) c2(3) ctx(1) by simp
  moreover have "length (blocks_bytes bs) \<le> 4 * ?q + length xs"
    by (rule order_trans [OF E(4) add_mono [OF mult_le_mono2 [OF e(2)] order_refl]])
  ultimately show ?thesis using E(2,3,5,6) fr by (auto simp: eq)
qed

end

text \<open>The end of a frame: the end mark, and the checksum of the content.\<close>

lemma compressEnd_ok:
  assumes S: "flushing c" and X: "checksum_repr c xs" "length xs < 2 ^ 64"
    and t: "contentSize (frameInfo (prefs c)) = 0 \<or> contentSize (frameInfo (prefs c)) = totalInSize c"
    and d: "mapped m dst (dst + int (length (end_bytes (frameInfo (prefs c)) xs)))"
  shows "ok (\<lambda>(r, m', c'). r = int (length (end_bytes (frameInfo (prefs c)) xs)) \<and> frame m m' dst (dst + r) \<and>
       bytes_at m' dst (end_bytes (frameInfo (prefs c)) xs) \<and> c' = c\<lparr>cStage := 0\<rparr>)
     (LZ4F_compressEnd e m c dst dstMax)"
proof -
  let ?fi = "frameInfo (prefs c)"
  have f: "LZ4F_flush e m c dst dstMax = Some (0, m, c)" using S by (simp add: LZ4F_flush_def flushing_def)
  have ne: "\<not> LZ4F_isError (env_arch e) 0"
    by (simp add: LZ4F_isError_def LZ4F_error_def not_less)
  obtain m' where m': "store_bytes m dst (end_bytes ?fi xs) = Some m'" "frame m m' dst (dst + int (length (end_bytes ?fi xs)))" "bytes_at m' dst (end_bytes ?fi xs)"
    using okD [OF store_bytes_ok [OF d]] by blast
  have "LZ4F_compressEnd e m c dst dstMax = Some (int (length (end_bytes ?fi xs)), m', c\<lparr>cStage := 0\<rparr>)"
  proof (cases "contentChecksumFlag ?fi = 1")
    case True
    then have "XXH32_digest (env_arch e) (c_xxh c) = Some (xxh32 0 xs)" using X XXH32_digest_ok by (auto simp: checksum_repr_def)
    then show ?thesis using True ne m'(1) t
      by (auto simp: LZ4F_compressEnd_def f LZ4F_writeLE32_eq end_bytes_def store_bytes_append bind_eq_Some_conv)
  next
    case False
    then have "contentChecksumFlag ?fi = 0" using S by (auto simp: flushing_def)
    then show ?thesis using ne m'(1) t by (auto simp: LZ4F_compressEnd_def f LZ4F_writeLE32_eq end_bytes_def)
  qed
  then show ?thesis using m' by simp
qed

section \<open>The fast compressors of frames\<close>

text \<open>Independent blocks: every block is compressed with a fresh table.\<close>

definition independent_inv :: "mem \<Rightarrow> lz4_ctx \<Rightarrow> byte list \<Rightarrow> addr \<Rightarrow> bool" where
  "independent_inv m ctx hist source \<longleftrightarrow> 65536 \<le> source"

lemma compressed_packed:
  assumes "compressed m m' src dst (int (length src) - 1) r" "length src \<le> 65536" "src \<noteq> []"
  shows "r = 0 \<or> packed False hist src m' dst r"
proof (cases "r = 0")
  case False
  with assms(1) obtain blk where b: "valid_block 0 blk" "expand [] blk = src" "bytes_at m' dst (encode blk)"
    "r = int (length (encode blk))" "r \<le> int (length src) - 1" unfolding compressed_def by blast
  then have "block_size blk = length src" using length_expand [of "[]" blk] by simp
  moreover have "decoded [] blk = src" using b(2) by (simp add: decoded_def)
  moreover have "length (encode blk) < length src" using b(4,5) by linarith
  ultimately have "fblock_ok False 65536 (length hist) (Packed blk)" "fblock_out False hist (Packed blk) = src" "length (encode blk) < length src"
    using b(1) assms(2,3) by simp_all
  then show ?thesis using b(3,4) unfolding packed_def by blast
qed simp

lemma independent_ok:
  assumes I: "independent_inv m ctx hist source" and s: "bytes_at m source src" "src \<noteq> []" "length src \<le> 65536"
    and d: "mapped m dst (dst + int (length src) - 1)" "apart (source - int (length hist)) (source + int (length src)) dst (dst + int (length src) - 1)"
  shows "ok (\<lambda>(r, m', ctx'). frame m m' dst (dst + int (length src) - 1) \<and> (r = 0 \<or> packed False hist src m' dst r) \<and>
           independent_inv m' ctx' (hist @ src) (source + int (length src)) \<and> ctx_ptr ctx' = ctx_ptr ctx)
        (LZ4F_localLZ4_compress_limitedOutput_withState a m ctx source dst (int (length src)) (int (length src) - 1) level)"
proof -
  have n: "0 < int (length src)" using s(2) by simp
  have "fast_call 1 m source src dst (int (length src) - 1)"
    using I s d n by (auto simp: fast_call_def independent_inv_def apart_def algebra_simps Suc_le_eq)
  from okD [OF LZ4_compress_fast_extState_ok [OF this, of a "ctx_stream ctx"]] obtain r m' st where
    c: "LZ4_compress_fast_extState a m (ctx_stream ctx) source dst (int (length src)) (int (length src) - 1) 1 = Some (r, m', st)"
      "compressed m m' src dst (int (length src) - 1) r" by auto
  have "frame m m' dst (dst + int (length src) - 1)" using c(2) by (simp add: compressed_def algebra_simps)
  with c(1) compressed_packed [OF c(2) s(3,2), of hist] I show ?thesis
    by (simp add: LZ4F_localLZ4_compress_limitedOutput_withState_def LZ4_compress_limitedOutput_withState_def independent_inv_def)
qed

interpretation independent: frame_compressor
  "LZ4F_localLZ4_compress_limitedOutput_withState a" level False 0 independent_inv for a level
  by unfold_locales (simp_all add: independent_ok, simp add: independent_inv_def)

text \<open>Linked blocks: the stream represents the end of the content.\<close>

definition linked_inv :: "mem \<Rightarrow> lz4_ctx \<Rightarrow> byte list \<Rightarrow> addr \<Rightarrow> bool" where
  "linked_inv m ctx hist source \<longleftrightarrow>
     (let s = ctx_stream ctx in
      stream_ok s \<and> 0 < source \<and>
      (if hist = [] then currentOffset s = 0 \<and> dictSize s = 0 \<and> dictionary s = 0
       else \<exists>old h. hist = old @ h \<and> 4 \<le> length h \<and> window_repr s m h \<and> dictionary s + dictSize s = source))"

lemma window_contiguous:
  assumes "stream_ok s" "dictionary s + dictSize s = source" "0 < n" "window_repr s m h" "4 \<le> length h"
  obtains old h' where "h = old @ h'" "4 \<le> length h'" "window_repr (stream_window s source n) m h'"
proof -
  let ?w = "stream_window s source n"
  have w: "?w = LZ4_renormDictT s source" using assms(2,3) by (simp add: stream_window_def LZ4_checkOverlap_def Let_def)
  note R = LZ4_renormDictT_ok [OF assms(1), of source, folded w]
  have ds: "dictSize s = int (length h)" "bytes_at m (dictionary s) h" using assms(4) by (simp_all add: window_repr_def)
  have g: "min (dictSize s) 65536 \<le> dictSize ?w" unfolding w by (auto simp: LZ4_renormDictT_def Let_def)
  define k where "k = nat (dictSize s - dictSize ?w)"
  have k: "int k = dictSize s - dictSize ?w" "k \<le> length h" using R(4) g ds(1) by (auto simp: k_def)
  have "dictionary ?w = dictionary s + int k" using R(3) k(1) by simp
  then have "window_repr ?w m (drop k h)" using bytes_at_split(2) [OF ds(2) k(2)] k ds(1) by (simp add: window_repr_def of_nat_diff)
  moreover have "4 \<le> length (drop k h)" using k g ds(1) assms(5) by (simp add: of_nat_diff)
  ultimately show ?thesis using that [of "take k h" "drop k h"] by simp
qed

lemma window_first:
  assumes "currentOffset s = 0" "dictSize s = 0" "dictionary s = 0" "0 < source" "0 < n"
  shows "stream_window s source n = s"
  using assms by (simp add: stream_window_def LZ4_renormDictT_def LZ4_checkOverlap_def Let_def)

lemma written_packed:
  assumes "block_written h src m dst (int (length src) - 1) r" "length src \<le> 65536" "src \<noteq> []" "hist = old @ h"
  shows "packed True hist src m dst r"
proof -
  from assms(1) obtain blk where b: "valid_block (length h) blk" "expand h blk = h @ src" "bytes_at m dst (encode blk)"
    "r = int (length (encode blk))" "r \<le> int (length src) - 1" unfolding block_written_def by blast
  have d: "decoded h blk = src" using b(2) by (simp add: decoded_def)
  then have "block_size blk = length src" by (metis length_decoded)
  moreover have "length (encode blk) < length src" using b(4,5) by linarith
  ultimately have "fblock_ok True 65536 (length hist) (Packed blk)" "fblock_out True hist (Packed blk) = src" "length (encode blk) < length src"
    using valid_block_append [OF b(1), of old] d assms(2-4) by simp_all
  then show ?thesis using b(3,4) unfolding packed_def by blast
qed

lemma linked_ok:
  assumes I: "linked_inv m ctx hist source" and s: "bytes_at m source src" "src \<noteq> []" "length src \<le> 65536" "hist \<noteq> [] \<or> 4 \<le> length src"
    and d: "mapped m dst (dst + int (length src) - 1)" "0 \<le> dst"
      "apart (source - int (length hist)) (source + int (length src)) dst (dst + int (length src) - 1)"
  shows "ok (\<lambda>(r, m', ctx'). frame m m' dst (dst + int (length src) - 1) \<and> (r = 0 \<or> packed True hist src m' dst r) \<and>
           linked_inv m' ctx' (hist @ src) (source + int (length src)) \<and> ctx_ptr ctx' = ctx_ptr ctx)
        (LZ4F_localLZ4_compress_limitedOutput_continue a m ctx source dst (int (length src)) (int (length src) - 1) level)"
proof -
  let ?s = "ctx_stream ctx" and ?n = "int (length src)"
  let ?w = "stream_window ?s source ?n"
  have n: "0 < ?n" using s(2) by simp
  have i: "stream_ok ?s" "0 < source" using I by (simp_all add: linked_inv_def Let_def)
  note W = stream_window_ok [OF i(1), of source ?n]
  obtain old h where h: "hist = old @ h" "window_repr ?w m h" "4 \<le> currentOffset ?w + ?n" "dictionary ?s + dictSize ?s \<in> {0, source}"
    "hist \<noteq> [] \<longrightarrow> 4 \<le> length h \<and> dictionary ?s + dictSize ?s = source" "hist = [] \<longrightarrow> dictionary ?w = 0 \<and> dictSize ?w = 0 \<and> dictionary ?s + dictSize ?s \<noteq> source"
  proof (cases "hist = []")
    case True
    then have z: "currentOffset ?s = 0" "dictSize ?s = 0" "dictionary ?s = 0" using I by (simp_all add: linked_inv_def Let_def)
    have "?w = ?s" by (rule window_first [OF z i(2) n])
    then show ?thesis using that [of "[]" "[]"] z True s(4) i(2) by (simp add: window_repr_def)
  next
    case False
    with I obtain old h where h: "hist = old @ h" "4 \<le> length h" "window_repr ?s m h" "dictionary ?s + dictSize ?s = source"
      by (auto simp: linked_inv_def Let_def)
    obtain old' h' where h': "h = old' @ h'" "4 \<le> length h'" "window_repr ?w m h'" by (rule window_contiguous [OF i(1) h(4) n h(3,2)])
    have "4 \<le> currentOffset ?w" using W(1) h'(2,3) by (simp add: stream_ok_def window_repr_def)
    then show ?thesis using that [of "old @ old'" h'] h h' False n by simp
  qed
  have ds: "dictSize ?w = int (length h)" using h(2) by (simp add: window_repr_def)
  have pos: "dictionary ?w + dictSize ?w \<le> source" using W(3) h(4) i(2) by auto
  have dsep: "dictionary ?w + dictSize ?w \<le> dst \<or> dst + (?n - 1) \<le> dictionary ?w"
  proof (cases "hist = []")
    case True
    then show ?thesis using h(6) d(2) by simp
  next
    case False
    then have "dictionary ?w = source - int (length h)" using h(5) W(3) ds by simp
    then show ?thesis using d(3) h(1) ds n by (auto simp: apart_def)
  qed
  have call: "continue_call m ?s source h src dst (?n - 1) 1"
    unfolding continue_call_def Let_def using i(1) h(2,3) s d n pos dsep by (auto simp: apart_def algebra_simps Suc_le_eq)
  from okD [OF LZ4_compress_fast_continue_ok [OF call, of a]] obtain r m' s' where
    c: "LZ4_compress_fast_continue a m ?s source dst ?n (?n - 1) 1 = Some (r, m', s')" "frame m m' dst (dst + (?n - 1))" "stream_ok s'"
      "r = 0 \<or> block_written h src m' dst (?n - 1) r" "window_repr s' m' (if dictionary ?s + dictSize ?s = source then h @ src else src)"
      "dictionary s' + dictSize s' = source + ?n" by auto
  have p: "r = 0 \<or> packed True hist src m' dst r" using c(4) written_packed [OF _ s(3,2) h(1)] by blast
  have "\<exists>old' h'. hist @ src = old' @ h' \<and> 4 \<le> length h' \<and> window_repr s' m' h'"
  proof (cases "hist = []")
    case True
    then show ?thesis using c(5) h(6) s(4) by (intro exI [of _ "[]"] exI [of _ src]) auto
  next
    case False
    then show ?thesis using c(5) h(1,5) by (intro exI [of _ old] exI [of _ "h @ src"]) auto
  qed
  then have "linked_inv m' (ctx\<lparr>ctx_stream := s'\<rparr>) (hist @ src) (source + ?n)"
    using c(3,6) i(2) s(2) by (auto simp: linked_inv_def Let_def)
  then show ?thesis using c(1,2) p
    by (simp add: LZ4F_localLZ4_compress_limitedOutput_continue_def LZ4_compress_limitedOutput_continue_def algebra_simps)
qed

lemma linked_frame:
  assumes "linked_inv m ctx hist source" "frame m m' lo hi" "apart (source - int (length hist)) source lo hi"
  shows "linked_inv m' ctx hist source"
proof (cases "hist = []")
  case False
  with assms(1) obtain old h where h: "hist = old @ h" "4 \<le> length h" "window_repr (ctx_stream ctx) m h" "dictionary (ctx_stream ctx) + dictSize (ctx_stream ctx) = source"
    by (auto simp: linked_inv_def Let_def)
  have "window_repr (ctx_stream ctx) m' h"
    using h assms(3) frame_bytes_at [OF assms(2), of "dictionary (ctx_stream ctx)" h] by (auto simp: window_repr_def apart_def)
  then show ?thesis using assms(1) h False by (auto simp: linked_inv_def Let_def)
qed (use assms(1) in \<open>simp add: linked_inv_def Let_def\<close>)

interpretation linked: frame_compressor
  "LZ4F_localLZ4_compress_limitedOutput_continue a" level True 4 linked_inv for a level
  by unfold_locales (auto intro: linked_ok linked_frame)

section \<open>A whole frame\<close>

lemma not_error: "0 \<le> r \<Longrightarrow> r < 4294967000 \<Longrightarrow> \<not> LZ4F_isError a r"
proof -
  assume r: "0 \<le> r" "r < 4294967000"
  have "(- 19) mod size_mod a = size_mod a - 19" using size_mod_ge [of a] by (simp add: zmod_zminus1_eq_if)
  then show ?thesis using r size_mod_ge [of a] by (simp add: LZ4F_isError_def LZ4F_error_def)
qed

context frame_compressor
begin

text \<open>From a context at the start of a frame, one update and the end write the rest of the frame.\<close>

lemma update_end_ok:
  assumes S: "flushing c" and p: "p_compressionLevel (prefs c) = level"
    "LZ4F_selectCompression (env_arch e) (blockMode (frameInfo (prefs c))) level = compress"
    and I: "state_inv m (lz4Ctx c) [] src" and x: "bytes_at m src xs" "length xs < 2147483648" "first \<le> 65536" "first \<le> length xs"
    and X: "checksum_repr c []" "totalInSize c = 0" "contentSize (frameInfo (prefs c)) \<in> {0, int (length xs)}"
    and d: "mapped m dst (dst + dstMax)" "0 \<le> dst" "LZ4F_compressBound (env_arch e) (int (length xs)) (Some (prefs c)) \<le> dstMax"
      "apart src (src + int (length xs)) dst (dst + dstMax)"
  shows "\<exists>r1 m1 c1 r2 m2 c2 bs. LZ4F_compressUpdate e m c dst dstMax src (int (length xs)) 1 = Some (r1, m1, c1) \<and>
     LZ4F_compressEnd e m1 c1 (dst + r1) (dstMax - r1) = Some (r2, m2, c2) \<and> 0 \<le> r1 \<and> 0 \<le> r2 \<and>
     r1 + r2 \<le> LZ4F_compressBound (env_arch e) (int (length xs)) (Some (prefs c)) \<and>
     blocks_ok L 65536 [] bs \<and> blocks_out L [] bs = xs \<and> r1 + r2 = int (length (blocks_bytes bs @ end_bytes (frameInfo (prefs c)) xs)) \<and>
     bytes_at m2 dst (blocks_bytes bs @ end_bytes (frameInfo (prefs c)) xs) \<and>
     frame m m2 dst (dst + LZ4F_compressBound (env_arch e) (int (length xs)) (Some (prefs c)))"
proof -
  let ?fi = "frameInfo (prefs c)" and ?n = "int (length xs)" and ?q = "length xs div 65536 + 1"
  let ?B = "LZ4F_compressBound (env_arch e) ?n (Some (prefs c))"
  have fl: "contentChecksumFlag ?fi \<in> {0, 1}" "blockSizeID ?fi \<in> {0, 4}" "autoFlush (prefs c) \<noteq> 0" using S by (auto simp: flushing_def)
  have B: "?B = 4 * int ?q + ?n + int (length (end_bytes ?fi xs))"
    using compressBound_64K [OF fl(2,3,1), of ?n "env_arch e"] fl(1) x(2) by (auto simp: length_end_bytes zdiv_int)
  have st: "blockMode ?fi = LZ4F_blockLinked \<longrightarrow> (1 :: int) \<noteq> 0" by simp
  have hx: "[] \<noteq> ([] :: byte list) \<or> first \<le> length xs" using x(4) by simp
  have ap: "apart (src - int (length ([] :: byte list))) (src + ?n) dst (dst + dstMax)" using d(4) by simp
  from compressUpdate_ok [OF S p st I x(1-3) hx X(1) d(1-3) ap] obtain r1 m1 c1 bs where
    u: "LZ4F_compressUpdate e m c dst dstMax src ?n 1 = Some (r1, m1, c1)" "frame m m1 dst (dst + 4 * int ?q + ?n)"
      "bytes_at m1 dst (blocks_bytes bs)" "r1 = int (length (blocks_bytes bs))" "length (blocks_bytes bs) \<le> 4 * ?q + length xs"
      "blocks_ok L 65536 [] bs" "blocks_out L [] bs = xs" "advanced c c1 [] xs" unfolding ok_iff by blast
  have a: "flushing c1" "prefs c1 = prefs c" "checksum_repr c1 xs" "totalInSize c1 = ?n" using u(8) X(2) x(2) by (simp_all add: advanced_def)
  have r1: "r1 \<le> 4 * int ?q + ?n" using u(4,5) by linarith
  have me: "mapped m1 (dst + r1) (dst + r1 + int (length (end_bytes (frameInfo (prefs c1)) xs)))"
    unfolding frame_mapped [OF u(2)] by (rule mapped_mono [OF d(1)]) (use u(4) r1 B d(3) a(2) in auto)
  have ts: "contentSize (frameInfo (prefs c1)) = 0 \<or> contentSize (frameInfo (prefs c1)) = totalInSize c1" using a X(3) by simp
  from compressEnd_ok [OF a(1,3) _ ts me, of e "dstMax - r1"] x(2) obtain r2 m2 c2 where
    e: "LZ4F_compressEnd e m1 c1 (dst + r1) (dstMax - r1) = Some (r2, m2, c2)" "r2 = int (length (end_bytes ?fi xs))"
      "frame m1 m2 (dst + r1) (dst + r1 + r2)" "bytes_at m2 (dst + r1) (end_bytes ?fi xs)" unfolding ok_iff a(2) by auto
  have bt: "bytes_at m2 dst (blocks_bytes bs @ end_bytes ?fi xs)"
    using e(4) frame_bytes_at [OF e(3), of dst "blocks_bytes bs"] u(3,4) by (simp add: bytes_at_append)
  have fr: "frame m m2 dst (dst + ?B)"
    by (rule frame_trans [OF frame_mono [OF u(2)] frame_mono [OF e(3)]]) (use B u(4) r1 e(2) in auto)
  have "r1 + r2 \<le> ?B" "0 \<le> r1" "0 \<le> r2" "r1 + r2 = int (length (blocks_bytes bs @ end_bytes ?fi xs))" using B r1 e(2) u(4) by auto
  with u(1,6,7) e(1) fr bt show ?thesis by blast
qed

end

text \<open>Starting a frame with the context that \<open>LZ4F_compressFrame\<close> sets up for the fast compressors.\<close>

lemma compressBegin_ok:
  assumes c: "cStage c = 0" "1 \<le> lz4CtxLevel c" "65536 \<le> c_maxBufferSize c" "ctx_ptr (lz4Ctx c) \<noteq> 0" "length (mem32 (c_xxh c)) = 16"
    and p: "p_compressionLevel p < 3" "autoFlush p \<noteq> 0" "blockSizeID (frameInfo p) \<in> {0, 4}" "contentChecksumFlag (frameInfo p) \<in> {0, 1}"
    and d: "15 \<le> dstMax" "mapped m dst (dst + dstMax)"
  defines "fi \<equiv> (frameInfo p)\<lparr>blockSizeID := 4\<rparr>"
  shows "ok (\<lambda>(r, m', c'). r = int (length (header_bytes fi)) \<and> frame m m' dst (dst + r) \<and> bytes_at m' dst (header_bytes fi) \<and>
       flushing c' \<and> prefs c' = p\<lparr>frameInfo := fi\<rparr> \<and> checksum_repr c' [] \<and>
       ctx_stream (lz4Ctx c') = LZ4_resetStream (ctx_stream (lz4Ctx c)) \<and> totalInSize c' = (if contentSize fi \<noteq> 0 then 0 else totalInSize c))
     (LZ4F_compressBegin e m c dst dstMax (Some p))"
proof -
  have ctx: "LZ4F_begin_ctx e m (c\<lparr>prefs := p\<rparr>) = Some (m, c\<lparr>prefs := p\<rparr>)" using c(2) p(1) by (simp add: LZ4F_begin_ctx_def)
  let ?c1 = "c\<lparr>prefs := p\<lparr>frameInfo := fi\<rparr>, c_maxBlockSize := 65536\<rparr>"
  have sz: "LZ4F_getBlockSize (env_arch e) 4 = 65536" by (simp add: LZ4F_getBlockSize_def)
  have fi: "(if blockSizeID (frameInfo p) = 0 then (frameInfo p)\<lparr>blockSizeID := 4\<rparr> else frameInfo p) = fi"
  proof (cases "blockSizeID (frameInfo p) = 0")
    case False
    then have "blockSizeID (frameInfo p) = 4" using p(3) by simp
    then show ?thesis using False by (simp add: fi_def)
  qed (simp add: fi_def)
  have buf: "LZ4F_begin_buffer e m (c\<lparr>prefs := p\<rparr>) (autoFlush p) = (False, m, ?c1)"
  proof -
    have "blockSizeID fi = 4" by (simp add: fi_def)
    then show ?thesis using c(3) p(2) fi unfolding LZ4F_begin_buffer_def Let_def by (auto simp: sz split: if_splits)
  qed
  let ?c2 = "?c1\<lparr>c_tmpIn := tmpBuff c, c_tmpInSize := 0, c_xxh := snd (XXH32_reset (c_xxh c) 0),
     lz4Ctx := (lz4Ctx c)\<lparr>ctx_stream := LZ4_resetStream (ctx_stream (lz4Ctx c))\<rparr>\<rparr>"
  have rst: "LZ4F_begin_reset ?c1 = Some ?c2" using c(4) p(1) by (simp add: LZ4F_begin_reset_def Let_def)
  have "mapped m dst (dst + int (length (header_bytes fi)))"
    by (rule mapped_mono [OF d(2)]) (use d(1) in \<open>auto simp: length_header_bytes\<close>)
  from okD [OF LZ4F_write_header_ok [OF this, of e]] obtain m' where
    w: "LZ4F_write_header e m fi dst = Some (m', dst + int (length (header_bytes fi)))"
      "frame m m' dst (dst + int (length (header_bytes fi)))" "bytes_at m' dst (header_bytes fi)" by auto
  have x: "xxh32_repr 0 (snd (XXH32_reset (c_xxh c) 0)) []" using XXH32_reset_repr [OF c(5), of 0] by simp
  let ?c3 = "(if contentSize fi \<noteq> 0 then ?c2\<lparr>totalInSize := 0\<rparr> else ?c2)\<lparr>cStage := 1\<rparr>"
  have eq: "LZ4F_compressBegin e m c dst dstMax (Some p) = Some (int (length (header_bytes fi)), m', ?c3)"
    unfolding LZ4F_compressBegin_def Let_def using d(1) c(1) ctx buf rst w(1) by simp
  have "flushing ?c3" using p by (auto simp: flushing_def fi_def)
  then show ?thesis using eq w(2,3) x by (auto simp: checksum_repr_def)
qed

text \<open>The conditions of a call: a fast level, 64 KB blocks, and an input apart from the output. The preferences of a null pointer
  satisfy them. \<open>ctxPtr\<close> is the address of a local variable.\<close>

definition frame_call ::
  "mem \<Rightarrow> addr \<Rightarrow> addr \<Rightarrow> int \<Rightarrow> addr \<Rightarrow> byte list \<Rightarrow> LZ4F_preferences_t option \<Rightarrow> bool" where
  "frame_call m ctxPtr dst dstMax src xs preferencesPtr \<longleftrightarrow>
     (let p = (case preferencesPtr of None \<Rightarrow> prefNull | Some p \<Rightarrow> p); fi = frameInfo p in
      ctxPtr \<noteq> 0 \<and> p_compressionLevel p < 3 \<and> blockMode fi \<in> {0, 1} \<and> contentChecksumFlag fi \<in> {0, 1} \<and> frameType fi = LZ4F_frame \<and>
      (blockSizeID fi \<in> {0, 4} \<or> blockSizeID fi \<in> {5, 6, 7} \<and> length xs \<le> 65536) \<and>
      bytes_at m src xs \<and> length xs < 2147483648 \<and> 65536 \<le> src \<and>
      mapped m dst (dst + dstMax) \<and> 0 \<le> dst \<and> apart src (src + int (length xs)) dst (dst + dstMax))"

lemma optimalBSID_ok:
  assumes "b \<in> {0, 4} \<or> b \<in> {5, 6, 7} \<and> n \<le> 65536"
  shows "LZ4F_optimalBSID a b n \<in> {0, 4}" "LZ4F_optimalBSID a (LZ4F_optimalBSID a b n) n = LZ4F_optimalBSID a b n"
proof -
  have z: "LZ4F_optimalBSID a i n = i" if "i \<in> {0, 4}" for i
    using that unfolding LZ4F_optimalBSID_def by (subst LZ4F_optimalBSID_loop.simps) auto
  have f: "LZ4F_optimalBSID a i n = 4" if "i \<in> {5, 6, 7}" "n \<le> 65536" for i
    using that unfolding LZ4F_optimalBSID_def by (subst LZ4F_optimalBSID_loop.simps) auto
  have r: "LZ4F_optimalBSID a b n = (if b \<in> {0, 4} then b else 4)" using assms z f by auto
  then show "LZ4F_optimalBSID a b n \<in> {0, 4}" by auto
  then show "LZ4F_optimalBSID a (LZ4F_optimalBSID a b n) n = LZ4F_optimalBSID a b n" using z by blast
qed

definition frame_written :: "arch \<Rightarrow> mem \<Rightarrow> mem \<Rightarrow> addr \<Rightarrow> byte list \<Rightarrow> int \<Rightarrow> int \<Rightarrow> bool" where
  "frame_written a m m' dst xs cap r \<longleftrightarrow>
     (\<exists>fi bs. frame_ok a fi bs \<and> frame_content fi bs = xs \<and> blockSizeID fi = 4 \<and> bytes_at m' dst (frame_bytes fi bs) \<and>
        r = int (length (frame_bytes fi bs)) \<and> r \<le> cap \<and> frame m m' dst (dst + cap))"

text \<open>The preferences of the frame, and what they bound it by.\<close>

definition call_prefs :: "LZ4F_preferences_t option \<Rightarrow> LZ4F_preferences_t" where
  "call_prefs preferencesPtr = (case preferencesPtr of None \<Rightarrow> prefNull | Some p \<Rightarrow> p)"

lemma frame_callD:
  assumes "frame_call m ctxPtr dst dstMax src xs preferencesPtr"
  shows "ctxPtr \<noteq> 0" "p_compressionLevel (call_prefs preferencesPtr) < 3" "bytes_at m src xs" "length xs < 2147483648" "65536 \<le> src"
    "mapped m dst (dst + dstMax)" "0 \<le> dst" "apart src (src + int (length xs)) dst (dst + dstMax)"
  using assms by (simp_all add: frame_call_def Let_def call_prefs_def)

lemma frame_prefs_ok:
  fixes a :: arch
  assumes "frame_call m ctxPtr dst dstMax src xs preferencesPtr"
  defines "p \<equiv> LZ4F_frame_prefs a preferencesPtr (int (length xs))"
  shows "p_compressionLevel p < 3" "autoFlush p = 1" "blockSizeID (frameInfo p) \<in> {0, 4}" "contentChecksumFlag (frameInfo p) \<in> {0, 1}"
    "frameType (frameInfo p) = 0" "contentSize (frameInfo p) \<in> {0, int (length xs)}" "blockMode (frameInfo p) \<in> {0, 1}"
    "blockMode (frameInfo p) = LZ4F_blockLinked \<Longrightarrow> 65536 < length xs"
    "LZ4F_optimalBSID a (blockSizeID (frameInfo p)) (int (length xs)) = blockSizeID (frameInfo p)"
proof -
  let ?n = "int (length xs)"
  define p0 where "p0 = call_prefs preferencesPtr"
  define b where "b = LZ4F_optimalBSID a (blockSizeID (frameInfo p0)) ?n"
  have k: "p_compressionLevel p0 < 3" "blockMode (frameInfo p0) \<in> {0, 1}" "contentChecksumFlag (frameInfo p0) \<in> {0, 1}" "frameType (frameInfo p0) = 0"
    "blockSizeID (frameInfo p0) \<in> {0, 4} \<or> blockSizeID (frameInfo p0) \<in> {5, 6, 7} \<and> ?n \<le> 65536"
    using assms(1) unfolding frame_call_def Let_def p0_def call_prefs_def by simp_all
  note o = optimalBSID_ok [OF k(5), of a, folded b_def]
  have gb: "LZ4F_getBlockSize a b = 65536" using o(1) by (auto simp: LZ4F_getBlockSize_def)
  have bi: "blockSizeID (frameInfo p) = b"
    by (simp add: p_def LZ4F_frame_prefs_def Let_def call_prefs_def [symmetric] p0_def [symmetric] b_def [symmetric])
  with o show "blockSizeID (frameInfo p) \<in> {0, 4}" "LZ4F_optimalBSID a (blockSizeID (frameInfo p)) ?n = blockSizeID (frameInfo p)" by simp_all
  show "p_compressionLevel p < 3" "autoFlush p = 1" "contentChecksumFlag (frameInfo p) \<in> {0, 1}" "frameType (frameInfo p) = 0"
    "contentSize (frameInfo p) \<in> {0, ?n}" "blockMode (frameInfo p) \<in> {0, 1}" "blockMode (frameInfo p) = LZ4F_blockLinked \<Longrightarrow> 65536 < length xs"
    using k gb by (auto simp: p_def LZ4F_frame_prefs_def Let_def call_prefs_def [symmetric] p0_def [symmetric] b_def [symmetric] split: if_splits)
qed

lemma frame_bound_ok:
  fixes a :: arch
  assumes "frame_call m ctxPtr dst dstMax src xs preferencesPtr"
  defines "p \<equiv> LZ4F_frame_prefs a preferencesPtr (int (length xs))"
  shows "LZ4F_compressFrameBound a (int (length xs)) (Some p) = 15 + LZ4F_compressBound a (int (length xs)) (Some p)"
    "0 \<le> LZ4F_compressBound a (int (length xs)) (Some p)" "LZ4F_compressBound a (int (length xs)) (Some p) < 4294960000"
    "LZ4F_compressBound a (int (length xs)) (Some (p\<lparr>frameInfo := (frameInfo p)\<lparr>blockSizeID := 4\<rparr>\<rparr>)) = LZ4F_compressBound a (int (length xs)) (Some p)"
proof -
  let ?n = "int (length xs)"
  note P = frame_prefs_ok [OF assms(1), of a, folded p_def] and n = frame_callD(4) [OF assms(1)]
  have B: "LZ4F_compressBound a ?n (Some q) = 4 * (?n div 65536 + 1) + ?n + 4 + 4 * contentChecksumFlag (frameInfo p)"
    if "blockSizeID (frameInfo q) \<in> {0, 4}" "autoFlush q \<noteq> 0" "contentChecksumFlag (frameInfo q) = contentChecksumFlag (frameInfo p)" for q
    using compressBound_64K [OF that(1,2), of ?n a] that(3) P(4) n by simp
  have v: "LZ4F_compressBound a ?n (Some p) = 4 * (?n div 65536 + 1) + ?n + 4 + 4 * contentChecksumFlag (frameInfo p)" using B [of p] P(2,3) by simp
  then show le: "0 \<le> LZ4F_compressBound a ?n (Some p)" "LZ4F_compressBound a ?n (Some p) < 4294960000" using P(4) n by auto
  show "LZ4F_compressBound a ?n (Some (p\<lparr>frameInfo := (frameInfo p)\<lparr>blockSizeID := 4\<rparr>\<rparr>)) = LZ4F_compressBound a ?n (Some p)"
    using v B [of "p\<lparr>frameInfo := (frameInfo p)\<lparr>blockSizeID := 4\<rparr>\<rparr>"] P(2) by simp
  have "p\<lparr>autoFlush := autoFlush p\<rparr> = p" by simp
  then have s: "p\<lparr>autoFlush := 1\<rparr> = p" unfolding P(2) .
  have "LZ4F_compressFrameBound a ?n (Some p) = (15 + LZ4F_compressBound a ?n (Some p)) mod size_mod a"
    by (simp add: LZ4F_compressFrameBound_def Let_def P(9) s)
  also have "\<dots> = 15 + LZ4F_compressBound a ?n (Some p)" using le size_mod_ge [of a] by (intro mod_pos_pos_trivial) auto
  finally show "LZ4F_compressFrameBound a ?n (Some p) = 15 + LZ4F_compressBound a ?n (Some p)" .
qed

text \<open>After the header, whatever the block mode.\<close>

lemma frame_body_ok:
  assumes C: "flushing c" "p_compressionLevel (prefs c) < 3" "checksum_repr c []" "totalInSize c = 0" "ctx_stream (lz4Ctx c) = LZ4_resetStream s"
    and f: "contentSize (frameInfo (prefs c)) \<in> {0, int (length xs)}" "blockMode (frameInfo (prefs c)) \<in> {0, 1}"
      "blockMode (frameInfo (prefs c)) = LZ4F_blockLinked \<Longrightarrow> 65536 < length xs"
    and x: "bytes_at m src xs" "length xs < 2147483648" "65536 \<le> src"
    and d: "mapped m dst (dst + dstMax)" "0 \<le> dst" "LZ4F_compressBound (env_arch e) (int (length xs)) (Some (prefs c)) \<le> dstMax"
      "apart src (src + int (length xs)) dst (dst + dstMax)"
  shows "\<exists>r1 m1 c1 r2 m2 c2 bs. LZ4F_compressUpdate e m c dst dstMax src (int (length xs)) 1 = Some (r1, m1, c1) \<and>
     LZ4F_compressEnd e m1 c1 (dst + r1) (dstMax - r1) = Some (r2, m2, c2) \<and> 0 \<le> r1 \<and> 0 \<le> r2 \<and>
     r1 + r2 \<le> LZ4F_compressBound (env_arch e) (int (length xs)) (Some (prefs c)) \<and>
     blocks_ok (blockMode (frameInfo (prefs c)) = LZ4F_blockLinked) 65536 [] bs \<and> blocks_out (blockMode (frameInfo (prefs c)) = LZ4F_blockLinked) [] bs = xs \<and>
     r1 + r2 = int (length (blocks_bytes bs @ end_bytes (frameInfo (prefs c)) xs)) \<and>
     bytes_at m2 dst (blocks_bytes bs @ end_bytes (frameInfo (prefs c)) xs) \<and>
     frame m m2 dst (dst + LZ4F_compressBound (env_arch e) (int (length xs)) (Some (prefs c)))"
proof (cases "blockMode (frameInfo (prefs c)) = LZ4F_blockLinked")
  case True
  then have n: "(4 :: nat) \<le> 65536" "4 \<le> length xs" using f(3) by simp_all
  have "linked_inv m (lz4Ctx c) [] src" using C(5) x(3) by (simp add: linked_inv_def Let_def) (simp add: LZ4_resetStream_def)
  from linked.update_end_ok [OF C(1) refl _ this x(1,2) n C(3,4) f(1) d, of "env_arch e"] True C(2) show ?thesis
    by (simp add: LZ4F_selectCompression_def)
next
  case False
  then have "blockMode (frameInfo (prefs c)) = 1" using f(2) by simp
  moreover have "independent_inv m (lz4Ctx c) [] src" using x(3) by (simp add: independent_inv_def)
  ultimately show ?thesis
    using independent.update_end_ok [OF C(1) refl _ _ x(1,2) _ _ C(3,4) f(1) d, of "env_arch e"] False C(2)
    by (simp add: LZ4F_selectCompression_def)
qed

lemma compressFrame_ok:
  fixes e :: lz4f_env
  assumes C: "frame_call m ctxPtr dst dstMax src xs preferencesPtr"
  defines "p \<equiv> LZ4F_frame_prefs (env_arch e) preferencesPtr (int (length xs))"
  defines "bound \<equiv> LZ4F_compressFrameBound (env_arch e) (int (length xs)) (Some p)"
  shows "ok (\<lambda>(r, m'). if dstMax < bound then r = LZ4F_error (env_arch e) ERROR_dstMaxSize_tooSmall \<and> m' = m
                       else frame_written (env_arch e) m m' dst xs bound r)
     (LZ4F_compressFrame e m ctxPtr lz4ctx dst dstMax src (int (length xs)) preferencesPtr)"
proof (cases "dstMax < bound")
  case True
  then show ?thesis by (simp add: LZ4F_compressFrame_def bound_def p_def)
next
  case room: False
  let ?a = "env_arch e" and ?n = "int (length xs)"
  note k = frame_callD [OF C] and P = frame_prefs_ok [OF C, of ?a, folded p_def] and B = frame_bound_ok [OF C, of ?a, folded p_def, folded bound_def]
  define c0 where "c0 = LZ4F_frame_cctx ctxPtr lz4ctx (p_compressionLevel p)"
  define fi where "fi = (frameInfo p)\<lparr>blockSizeID := 4\<rparr>"
  have c0: "cStage c0 = 0" "1 \<le> lz4CtxLevel c0" "65536 \<le> c_maxBufferSize c0" "ctx_ptr (lz4Ctx c0) \<noteq> 0" "length (mem32 (c_xxh c0)) = 16" "totalInSize c0 = 0"
    using k(1) P(1) by (simp_all add: c0_def LZ4F_frame_cctx_def zero_xxh_def)
  have d15: "15 \<le> dstMax" "autoFlush p \<noteq> 0" using room B(1,2) P(2) by simp_all
  from compressBegin_ok [OF c0(1-5) P(1) d15(2) P(3,4) d15(1) k(6), folded fi_def, of e] obtain r0 m0 c1 where
    g: "LZ4F_compressBegin e m c0 dst dstMax (Some p) = Some (r0, m0, c1)" "r0 = int (length (header_bytes fi))" "frame m m0 dst (dst + r0)"
      "bytes_at m0 dst (header_bytes fi)" "flushing c1" "prefs c1 = p\<lparr>frameInfo := fi\<rparr>" "checksum_repr c1 []"
      "ctx_stream (lz4Ctx c1) = LZ4_resetStream (ctx_stream (lz4Ctx c0))" "totalInSize c1 = 0"
    using c0(6) unfolding ok_iff by auto
  have h: "0 \<le> r0" "r0 \<le> 15" using g(2) by (simp_all add: length_header_bytes)
  let ?L = "blockMode fi = LZ4F_blockLinked"
  have fi: "frameInfo (prefs c1) = fi" "p_compressionLevel (prefs c1) < 3" "contentSize fi \<in> {0, ?n}" "blockMode fi \<in> {0, 1}" "?L \<Longrightarrow> 65536 < length xs" "info_ok fi"
    using g(6) P k(4) by (auto simp: fi_def info_ok_def)
  have bnd: "LZ4F_compressBound ?a ?n (Some (prefs c1)) = bound - 15" using B(1,4) g(6) by (simp add: fi_def)
  have x0: "bytes_at m0 src xs" using k(3) frame_bytes_at [OF g(3), of src xs] k(8) h d15 by (auto simp: apart_def)
  have dd: "mapped m0 (dst + r0) (dst + r0 + (dstMax - r0))" "0 \<le> dst + r0" "LZ4F_compressBound ?a ?n (Some (prefs c1)) \<le> dstMax - r0"
    "apart src (src + ?n) (dst + r0) (dst + r0 + (dstMax - r0))"
    using k(6-8) h room bnd by (auto simp: frame_mapped [OF g(3)] apart_def elim!: mapped_mono)
  obtain r1 m1 c2 r2 m2 c3 bs where
    u: "LZ4F_compressUpdate e m0 c1 (dst + r0) (dstMax - r0) src ?n 1 = Some (r1, m1, c2)"
      "LZ4F_compressEnd e m1 c2 (dst + r0 + r1) (dstMax - r0 - r1) = Some (r2, m2, c3)" "0 \<le> r1" "0 \<le> r2" "r1 + r2 \<le> bound - 15"
      "blocks_ok ?L 65536 [] bs" "blocks_out ?L [] bs = xs" "r1 + r2 = int (length (blocks_bytes bs @ end_bytes fi xs))"
      "bytes_at m2 (dst + r0) (blocks_bytes bs @ end_bytes fi xs)" "frame m0 m2 (dst + r0) (dst + r0 + (bound - 15))"
    using frame_body_ok [OF g(5) fi(2) g(7,9,8) fi(3,4,5) [folded fi(1)] x0 k(4,5) dd] unfolding fi(1) bnd by blast
  have ne: "\<not> LZ4F_isError ?a r0" "\<not> LZ4F_isError ?a r1" "\<not> LZ4F_isError ?a r2" using h u(3-5) B(1,3) by (simp_all add: not_error)
  have eq: "LZ4F_compressFrame e m ctxPtr lz4ctx dst dstMax src ?n preferencesPtr = Some (r0 + r1 + r2, m2)"
    unfolding LZ4F_compressFrame_def Let_def p_def [symmetric] c0_def [symmetric] bound_def [symmetric]
    using room u(1,2) g(1) ne P(1) by (simp add: algebra_simps)
  have cont: "frame_content fi bs = xs" using u(7) by (simp add: frame_content_def)
  have "frame_ok ?a fi bs" using u(6) cont fi(3,6) by (auto simp: frame_ok_def fi_def LZ4F_getBlockSize_def)
  moreover have "bytes_at m2 dst (frame_bytes fi bs)"
    using u(9) g(2,4) frame_bytes_at [OF u(10), of dst "header_bytes fi"] by (simp add: frame_bytes_def bytes_at_append cont)
  moreover have "r0 + r1 + r2 = int (length (frame_bytes fi bs))" using u(8) g(2) by (simp add: frame_bytes_def cont)
  moreover have "frame m m2 dst (dst + bound)" by (rule frame_trans [OF frame_mono [OF g(3)] frame_mono [OF u(10)]]) (use h u(3-5) in auto)
  moreover have "r0 + r1 + r2 \<le> bound" "blockSizeID fi = 4" using h u(5) by (simp_all add: fi_def)
  ultimately have "frame_written ?a m m2 dst xs bound (r0 + r1 + r2)" using cont unfolding frame_written_def by blast
  then show ?thesis using room by (simp add: eq)
qed

section \<open>Properties\<close>

text \<open>C5: \<open>LZ4F_compressFrame\<close> refines the frame format: with the fast compressors and 64 KB blocks (the default preferences, and more), for every
  input, it returns an error and writes nothing when the capacity is below \<open>LZ4F_compressFrameBound\<close>, and otherwise writes one valid
  frame whose content is the input, of at most that many bytes, and nothing outside them.\<close>
theorem LZ4F_compressFrame_correct:
  assumes "frame_call m ctxPtr dst dstMax src xs preferencesPtr"
  shows "\<exists>r m'. LZ4F_compressFrame e m ctxPtr lz4ctx dst dstMax src (int (length xs)) preferencesPtr = Some (r, m') \<and>
     (let bound = LZ4F_compressFrameBound (env_arch e) (int (length xs)) (Some (LZ4F_frame_prefs (env_arch e) preferencesPtr (int (length xs)))) in
      if dstMax < bound then r = LZ4F_error (env_arch e) ERROR_dstMaxSize_tooSmall \<and> m' = m
      else r \<le> bound \<and> frame m m' dst (dst + bound) \<and>
        (\<exists>fi bs. frame_ok (env_arch e) fi bs \<and> frame_content fi bs = xs \<and> r = int (length (frame_bytes fi bs)) \<and> bytes_at m' dst (frame_bytes fi bs)))"
  using okD [OF compressFrame_ok [OF assms, of e lz4ctx]] unfolding Let_def frame_written_def by (auto split: if_splits)

definition frame_mem :: mem where
  "frame_mem = buffer 65536 [1, 2, 3] ++ buffer 70000 (replicate 40 0)"

definition ctx_example :: lz4_ctx where
  "ctx_example = \<lparr>ctx_ptr = 0,
     ctx_stream = \<lparr>hashTable = (\<lambda>_. 0), currentOffset = 0, initCheck = 0, dictionary = 0, bufferStart = 0, dictSize = 0\<rparr>,
     ctx_streamHC = \<lparr>hc_hashTable = (\<lambda>_. 0), chainTable = (\<lambda>_. 0), hc_end = 0, hc_base = 0, dictBase = 0, inputBuffer = 0, dictLimit = 0,
       hc_lowLimit = 0, nextToUpdate = 0, compressionLevel = 0\<rparr>\<rparr>"

lemma frame_call_example: "frame_call frame_mem 64 70000 40 65536 [1, 2, 3] None"
proof -
  have "bytes_at frame_mem 65536 [1, 2, 3]" "mapped frame_mem 70000 (70000 + 40)"
    using bytes_at_two [of 65536 "[1, 2, 3]" 70000 "replicate 40 0"] mapped_two [of 65536 "[1, 2, 3]" 70000 "replicate 40 0"] by (simp_all add: frame_mem_def)
  then show ?thesis by (simp add: frame_call_def prefNull_def apart_def)
qed

theorem LZ4F_compressFrame_correct_witness:
  "\<exists>r m'. LZ4F_compressFrame env_example frame_mem 64 ctx_example 70000 40 65536 3 None = Some (r, m') \<and> r \<le> 26 \<and>
     (\<exists>fi bs. frame_content fi bs = [1, 2, 3] \<and> bytes_at m' 70000 (frame_bytes fi bs))"
proof -
  let ?p = "LZ4F_frame_prefs (env_arch env_example) None 3"
  have "LZ4F_compressFrameBound (env_arch env_example) 3 (Some ?p) = 26" by code_simp
  with LZ4F_compressFrame_correct [OF frame_call_example, of env_example ctx_example] show ?thesis by (auto simp: Let_def)
qed

end
