(* ===== verification/Lz4_Frame_Limits.thy ===== *)
theory Lz4_Frame_Limits
  imports Lz4_Frame_Decode Lz4_Frame_Compress
begin

text \<open>
  The cases in which the frame functions depart from what their documentation promises.
\<close>

section \<open>Compression\<close>

text \<open>\<open>LZ4F_compressEnd\<close> does not look at its capacity: with no bytes of room it writes the end mark.\<close>

lemma LZ4F_compressEnd_ignores_capacity:
  assumes "flushing c" "contentChecksumFlag (frameInfo (prefs c)) = 0" "contentSize (frameInfo (prefs c)) = 0" "mapped m dst (dst + 4)"
  shows "\<exists>m'. LZ4F_compressEnd e m c dst 0 = Some (4, m', c\<lparr>cStage := 0\<rparr>) \<and> bytes_at m' dst [0, 0, 0, 0]"
proof -
  have l: "end_bytes (frameInfo (prefs c)) [] = [0, 0, 0, 0]" using assms(2) by (simp add: end_bytes_def numeral_eq_Suc)
  have "checksum_repr c []" using assms(2) by (simp add: checksum_repr_def)
  from compressEnd_ok [OF assms(1) this, of m dst e 0, unfolded l] assms(3,4) show ?thesis by (auto dest!: okD)
qed

text \<open>A block size identifier of 1 to 3 is written into a header that the decoder rejects.\<close>

lemma LZ4F_header_invalid_blockSizeID:
  assumes f: "blockSizeID fi \<in> {1, 2, 3}" "blockMode fi \<in> {0, 1}" "contentChecksumFlag fi \<in> {0, 1}" "0 \<le> contentSize fi"
    and m: "mapped m p (p + 15)"
  shows "\<exists>m' q. LZ4F_write_header e m fi p = Some (m', q) \<and>
     (\<exists>m'' d'. LZ4F_decodeHeader e m' d p (q - p) = Some (LZ4F_error (env_arch e) ERROR_maxBlockSize_invalid, m'', d'))"
proof -
  have "mapped m p (p + int (length (header_bytes fi)))" by (rule mapped_mono [OF m]) (auto simp: length_header_bytes)
  from okD [OF LZ4F_write_header_ok [OF this, of e]] obtain m' where
    w: "LZ4F_write_header e m fi p = Some (m', p + int (length (header_bytes fi)))" "bytes_at m' p (header_bytes fi)" by auto
  note P = header_parts [OF w(2)]
  have F: "LZ4F_FLG fi = 64 + blockMode fi * 32 + (if contentSize fi \<noteq> 0 then 8 else 0) + contentChecksumFlag fi * 4"
    using f by (auto simp: LZ4F_FLG_def)
  have u: "uint (word_of_int (LZ4F_FLG fi) :: byte) = LZ4F_FLG fi" "uint (word_of_int (LZ4F_BD fi) :: byte) = LZ4F_BD fi"
    "LZ4F_FLG fi div 2 ^ 3 mod 2 = (if contentSize fi \<noteq> 0 then 1 else 0)"
    using f by (auto simp: uint_byte_of_int F LZ4F_BD_def)
  have v: "LZ4F_validate (LZ4F_FLG fi) (LZ4F_BD fi) = Some ERROR_maxBlockSize_invalid"
    using f by (auto simp: LZ4F_validate_def F LZ4F_BD_def)
  show ?thesis
    using w(1) P(1-3) u v by (auto simp: LZ4F_decodeHeader_def LZ4F_header_fields_def Let_def length_header_bytes prefNull_def)
qed

text \<open>\<open>LZ4_createStream\<close> resets the stream that it could not allocate: a failing allocation is not reported by \<open>LZ4F_compressBegin\<close>.\<close>

lemma LZ4F_compressBegin_no_memory:
  assumes "env_calloc e = (\<lambda>m n. (0, m))" "lz4CtxLevel c = 0" "cStage c = 0" "p_compressionLevel p < 3" "15 \<le> dstMax"
  shows "LZ4F_compressBegin e m c dst dstMax (Some p) = None"
  using assms by (simp add: LZ4F_compressBegin_def LZ4F_begin_ctx_def LZ4F_createStream_def)

section \<open>Decompression\<close>

lemma memcpy_unmapped: "m s = None \<Longrightarrow> 0 < n \<Longrightarrow> memcpy m d s n = None"
  by (cases n) (simp_all add: memcpy_def)

text \<open>A call with one byte in the stage \<open>dstage_getHeader\<close> stores it, and then copies the dictionary.\<close>

lemma one_byte_header:
  assumes d: "dStage d = dstage_getHeader" "srcExpect d = 0" "blockMode (x_frameInfo d) = LZ4F_blockLinked" "x_dict d \<noteq> tmpOutBuffer d" "0 < x_dictSize d"
    and m: "m src = Some b" "m (x_header d) \<noteq> None" "\<And>x. x_dict d \<le> x \<Longrightarrow> x < x_dict d + x_dictSize d \<Longrightarrow> m x = None"
  shows "LZ4F_decompress e m d dst n src 1 0 = None"
proof -
  let ?m = "m(x_header d \<mapsto> b)" and ?d = "d\<lparr>x_tmpInSize := 1, tmpInTarget := 7, dStage := dstage_storeHeader\<rparr>"
  let ?k = "\<lparr>w_env = e, w_srcEnd = src + 1, w_dstStart = dst, w_dstEnd = dst + n\<rparr>"
  let ?v = "\<lparr>w_m = m, w_dctx = d, w_srcPtr = src, w_dstPtr = dst, selectedIn = 0, w_again = True, w_hint = 1\<rparr>"
  let ?w = "\<lparr>w_m = ?m, w_dctx = ?d, w_srcPtr = src + 1, w_dstPtr = dst, selectedIn = 0, w_again = False, w_hint = 10\<rparr>"
  have sz: "size_sub (env_arch e) 7 0 = 7" using size_mod_ge [of "env_arch e"] by (simp add: size_sub_def)
  have cp: "memcpy m (x_header d) src 1 = Some ?m" using m(1,2) by (simp add: memcpy_def store8_ok)
  have st: "LZ4F_stage ?k ?v = Some (None, ?w)"
    using d(1) sz cp by (simp add: LZ4F_stage_def LZ4F_stage_getHeader_def LZ4F_stage_storeHeader_def LZ4F_collect_def LZ4F_stop_def)
  have lp: "LZ4F_loop ?k ?v = Some (None, ?w)" by (subst LZ4F_loop.simps) (simp add: st LZ4F_loop.simps)
  define q where "q = (if x_dictSize d > 65536 then 65536 else x_dictSize d)"
  have q: "0 < q" "q \<le> x_dictSize d" using d(5) by (simp_all add: q_def)
  have "?m (x_dict d + x_dictSize d - q) = None"
    using m(2) m(3) [of "x_dict d + x_dictSize d - q"] q by auto
  from memcpy_unmapped [of ?m, OF this, of "nat q" "tmpOutBuffer d"] q(1)
  have "LZ4F_preserveDict ?m ?d 0 = None"
    using d(3,4) by (cases "x_dictSize d > 65536") (simp_all add: LZ4F_preserveDict_def uns32_def Let_def q_def)
  then show ?thesis using d(2) by (simp add: LZ4F_decompress_def lp)
qed

text \<open>C22: After a frame of linked blocks the context keeps the address of its dictionary, which is the output of that call. When the caller
  has released that output and the next call gets a single byte, \<open>LZ4F_decompress\<close> reads the released memory, although \<open>lz4frame.h\<close> lets the
  caller change the output buffer between calls and reuse the context after a frame.\<close>
theorem LZ4F_decompress_stale_dictionary:
  assumes D: "decode_call e K m d dst n src k fi bs" and A: "\<not> fst (LZ4F_header_alloc e m (header_dctx (env_arch e) d fi))"
    and L: "blockMode fi = LZ4F_blockLinked" "frame_content fi bs \<noteq> []" "k = int (length (frame_bytes fi bs))"
    and m2: "\<forall>x. dst \<le> x \<and> x < dst + n \<longrightarrow> m2 x = None" "m2 src2 = Some b" "m2 (x_header d) \<noteq> None"
  shows "\<exists>m' d'. LZ4F_decompress e m d dst n src k 0 = Some (0, int (length (frame_content fi bs)), k, m', d') \<and>
     LZ4F_decompress e m2 d' dst2 n2 src2 1 0 = None"
proof -
  from decompress_decodes [OF D A] L obtain m' d' where
    r: "LZ4F_decompress e m d dst n src k 0 = Some (0, int (length (frame_content fi bs)), k, m', d')" "dStage d' = dstage_getHeader" "x_frameInfo d' = fi"
      "x_header d' = x_header d" "tmpOutBuffer d' \<notin> K" "srcExpect d' = 0" "x_dict d' = dst" "x_dictSize d' = int (length (frame_content fi bs))" by auto
  have n: "int (length (frame_content fi bs)) \<le> n" "{dst..<dst + n} \<subseteq> K" using D by (simp_all add: decode_call_def decompress_call_defs)
  have z: "0 < x_dictSize d'" using r(8) L(2) by simp
  have "0 < n" using z r(8) n(1) by linarith
  then have "dst \<in> {dst..<dst + n}" by simp
  then have ne: "x_dict d' \<noteq> tmpOutBuffer d'" using n(2) r(5,7) by (metis subsetD)
  have "LZ4F_decompress e m2 d' dst2 n2 src2 1 0 = None"
    by (rule one_byte_header [OF r(2,6) _ ne z, where m = m2 and b = b]) (use r(3,4,7,8) L(1) m2 n(1) in auto)
  with r(1) show ?thesis by blast
qed

theorem LZ4F_decompress_stale_dictionary_witness:
  "\<exists>m' d'. LZ4F_decompress env_example frame_example dctx_example 200 300 600 46 0 = Some (0, 21, 46, m', d') \<and>
     LZ4F_decompress env_example (\<lambda>x. if x = 100 \<or> x = 600 then Some 4 else None) d' 700 10 600 1 0 = None"
proof -
  have D: "decode_call env_example {100..<1000} frame_example dctx_example 200 300 600 46 info_linked blocks_example"
  proof -
    note c = decode_call_example
    then have "decompress_call env_example {100..<1000} frame_example dctx_example 200 300 600 46"
      by (simp add: decode_call_def decompress_call_defs low_def) auto
    with c show ?thesis by (simp add: decode_call_def blocks_example_simps)
  qed
  have L: "blockMode info_linked = LZ4F_blockLinked" "frame_content info_linked blocks_example \<noteq> []"
    "46 = int (length (frame_bytes info_linked blocks_example))" by (simp_all add: blocks_example_simps) (simp add: info_linked_def)
  from LZ4F_decompress_stale_dictionary [OF D example_alloc_linked L, of "\<lambda>x. if x = 100 \<or> x = 600 then Some 4 else None" 600 4 700 10]
  show ?thesis by (auto simp: blocks_example_simps dctx_example_def)
qed

text \<open>When the allocation of \<open>tmpIn\<close> fails, the sizes of the buffers are recorded all the same: the same header is then accepted without
  buffers, and the address of the old output buffer, already released, is kept.\<close>

lemma LZ4F_header_alloc_failure_forgotten:
  assumes "env_calloc e = (\<lambda>m n. (0, m))" "x_maxBufferSize d < x_maxBlockSize d"
  shows "\<exists>m' d'. LZ4F_header_alloc e m d = (True, m', d') \<and> x_tmpIn d' = 0 \<and> tmpOutBuffer d' = tmpOutBuffer d \<and> LZ4F_header_alloc e m' d' = (False, m', d')"
  using assms by (auto simp: LZ4F_header_alloc_def Let_def)

text \<open>Within a frame, with input left over from the last call, \<open>LZ4F_getFrameInfo\<close> returns an error.\<close>

lemma LZ4F_getFrameInfo_refuses:
  assumes "dStage d = dstage_getCBlockSize" "srcExpect d \<noteq> 0"
  shows "LZ4F_getFrameInfo e m d src n = Some (LZ4F_error (env_arch e) ERROR_srcPtr_wrong, Some (x_frameInfo d), 0, m, d)"
  using assms by (simp add: LZ4F_getFrameInfo_def LZ4F_decompress_def)

end
