(* ===== verification/Secp_Hash.thy ===== *)
theory Secp_Hash
  imports C_Prelude
begin

text \<open>
  The hash functions of secp256k1, \<open>src/src/secp256k1/src/hash_impl.h\<close>: the SHA-256
  transformation with its sixty-four unrolled rounds, streaming SHA-256 over a 64-byte buffer, HMAC and the generator of RFC 6979.

  Argument buffers are byte lists (the pointer and the length), the structs are records; the word
  buffer is its 64 bytes and is read in the target's byte order. Reading more bytes than an argument
  has and writing past the buffer are faults (\<open>None\<close>). The standards are written down
  independently, the constants included, and the code is shown to compute them.
\<close>

unbundle bit_operations_syntax

section \<open>SHA-256: the transformation\<close>

definition Ch :: "u32 \<Rightarrow> u32 \<Rightarrow> u32 \<Rightarrow> u32" where
  "Ch x y z = z XOR (x AND (y XOR z))"

definition Maj :: "u32 \<Rightarrow> u32 \<Rightarrow> u32 \<Rightarrow> u32" where
  "Maj x y z = (x AND y) OR (z AND (x OR y))"

definition Sigma0 :: "u32 \<Rightarrow> u32" where
  "Sigma0 x = (drop_bit 2 x OR push_bit 30 x) XOR (drop_bit 13 x OR push_bit 19 x) XOR
              (drop_bit 22 x OR push_bit 10 x)"

definition Sigma1 :: "u32 \<Rightarrow> u32" where
  "Sigma1 x = (drop_bit 6 x OR push_bit 26 x) XOR (drop_bit 11 x OR push_bit 21 x) XOR
              (drop_bit 25 x OR push_bit 7 x)"

definition sigma0 :: "u32 \<Rightarrow> u32" where
  "sigma0 x = (drop_bit 7 x OR push_bit 25 x) XOR (drop_bit 18 x OR push_bit 14 x) XOR drop_bit 3 x"

definition sigma1 :: "u32 \<Rightarrow> u32" where
  "sigma1 x = (drop_bit 17 x OR push_bit 15 x) XOR (drop_bit 19 x OR push_bit 13 x) XOR drop_bit 10 x"

text \<open>The macro assigns its fourth and its eighth argument: the result is the pair of their new
  values.\<close>

definition Round ::
  "u32 \<Rightarrow> u32 \<Rightarrow> u32 \<Rightarrow> u32 \<Rightarrow> u32 \<Rightarrow> u32 \<Rightarrow> u32 \<Rightarrow> u32 \<Rightarrow> u32 \<Rightarrow> u32 \<Rightarrow> u32 \<times> u32" where
  "Round a b c d e f g h k w =
     (let t1 = h + Sigma1 e + Ch e f g + k + w;
          t2 = Sigma0 a + Maj a b c
      in (d + t1, t1 + t2))"

text \<open>\<open>BE32\<close> is used on 32-bit words and on \<open>size_t\<close> values.\<close>

definition BE32 :: "arch \<Rightarrow> 'a::len word \<Rightarrow> 'a word" where
  "BE32 ar p =
     (if little_endian ar
      then push_bit 24 (p AND 0xFF) OR push_bit 8 (p AND 0xFF00) OR
           drop_bit 8 (p AND 0xFF0000) OR drop_bit 24 (p AND 0xFF000000)
      else p)"

text \<open>The state: the eight words, the sixteen words of the buffer as the 64 bytes the code also
  addresses them by, and the number of bytes written, a \<open>size_t\<close>.\<close>

record secp256k1_sha256_t =
  sha_s :: "u32 list"
  sha_buf :: "byte list"
  sha_bytes :: int

definition secp256k1_sha256_initialize :: "secp256k1_sha256_t \<Rightarrow> secp256k1_sha256_t" where
  "secp256k1_sha256_initialize hash = hash
     \<lparr>sha_s := [0x6a09e667, 0xbb67ae85, 0x3c6ef372, 0xa54ff53a,
                0x510e527f, 0x9b05688c, 0x1f83d9ab, 0x5be0cd19],
      sha_bytes := 0\<rparr>"

type_synonym sha256_vars = "u32 \<times> u32 \<times> u32 \<times> u32 \<times> u32 \<times> u32 \<times> u32 \<times> u32"

text \<open>The sixty-four lines of \<open>secp256k1_sha256_transform\<close>, in the source's groups of
  sixteen: the working variables change their roles from line to line, and the message schedule
  is kept in sixteen variables that each group overwrites. In the last group the two final
  schedule words are used and not stored.\<close>

definition sha256_rounds_0_15 ::
  "arch \<Rightarrow> u32 list \<Rightarrow> sha256_vars \<Rightarrow> sha256_vars \<times> u32 list" where
  "sha256_rounds_0_15 ar chunk = (\<lambda>(a, b, c, d, e, f, g, h).
     (let w0 = BE32 ar (chunk ! 0); (d, h) = Round a b c d e f g h 0x428a2f98 w0;
          w1 = BE32 ar (chunk ! 1); (c, g) = Round h a b c d e f g 0x71374491 w1;
          w2 = BE32 ar (chunk ! 2); (b, f) = Round g h a b c d e f 0xb5c0fbcf w2;
          w3 = BE32 ar (chunk ! 3); (a, e) = Round f g h a b c d e 0xe9b5dba5 w3;
          w4 = BE32 ar (chunk ! 4); (h, d) = Round e f g h a b c d 0x3956c25b w4;
          w5 = BE32 ar (chunk ! 5); (g, c) = Round d e f g h a b c 0x59f111f1 w5;
          w6 = BE32 ar (chunk ! 6); (f, b) = Round c d e f g h a b 0x923f82a4 w6;
          w7 = BE32 ar (chunk ! 7); (e, a) = Round b c d e f g h a 0xab1c5ed5 w7;
          w8 = BE32 ar (chunk ! 8); (d, h) = Round a b c d e f g h 0xd807aa98 w8;
          w9 = BE32 ar (chunk ! 9); (c, g) = Round h a b c d e f g 0x12835b01 w9;
          w10 = BE32 ar (chunk ! 10); (b, f) = Round g h a b c d e f 0x243185be w10;
          w11 = BE32 ar (chunk ! 11); (a, e) = Round f g h a b c d e 0x550c7dc3 w11;
          w12 = BE32 ar (chunk ! 12); (h, d) = Round e f g h a b c d 0x72be5d74 w12;
          w13 = BE32 ar (chunk ! 13); (g, c) = Round d e f g h a b c 0x80deb1fe w13;
          w14 = BE32 ar (chunk ! 14); (f, b) = Round c d e f g h a b 0x9bdc06a7 w14;
          w15 = BE32 ar (chunk ! 15); (e, a) = Round b c d e f g h a 0xc19bf174 w15
      in ((a, b, c, d, e, f, g, h), [w0, w1, w2, w3, w4, w5, w6, w7, w8, w9, w10, w11, w12, w13, w14, w15])))"

definition sha256_rounds_16_31 ::
  "u32 list \<Rightarrow> sha256_vars \<Rightarrow> sha256_vars \<times> u32 list" where
  "sha256_rounds_16_31 w = (\<lambda>(a, b, c, d, e, f, g, h).
     (let w0 = w ! 0; w1 = w ! 1; w2 = w ! 2; w3 = w ! 3;
          w4 = w ! 4; w5 = w ! 5; w6 = w ! 6; w7 = w ! 7;
          w8 = w ! 8; w9 = w ! 9; w10 = w ! 10; w11 = w ! 11;
          w12 = w ! 12; w13 = w ! 13; w14 = w ! 14; w15 = w ! 15;
          w0 = w0 + (sigma1 w14 + w9 + sigma0 w1); (d, h) = Round a b c d e f g h 0xe49b69c1 w0;
          w1 = w1 + (sigma1 w15 + w10 + sigma0 w2); (c, g) = Round h a b c d e f g 0xefbe4786 w1;
          w2 = w2 + (sigma1 w0 + w11 + sigma0 w3); (b, f) = Round g h a b c d e f 0x0fc19dc6 w2;
          w3 = w3 + (sigma1 w1 + w12 + sigma0 w4); (a, e) = Round f g h a b c d e 0x240ca1cc w3;
          w4 = w4 + (sigma1 w2 + w13 + sigma0 w5); (h, d) = Round e f g h a b c d 0x2de92c6f w4;
          w5 = w5 + (sigma1 w3 + w14 + sigma0 w6); (g, c) = Round d e f g h a b c 0x4a7484aa w5;
          w6 = w6 + (sigma1 w4 + w15 + sigma0 w7); (f, b) = Round c d e f g h a b 0x5cb0a9dc w6;
          w7 = w7 + (sigma1 w5 + w0 + sigma0 w8); (e, a) = Round b c d e f g h a 0x76f988da w7;
          w8 = w8 + (sigma1 w6 + w1 + sigma0 w9); (d, h) = Round a b c d e f g h 0x983e5152 w8;
          w9 = w9 + (sigma1 w7 + w2 + sigma0 w10); (c, g) = Round h a b c d e f g 0xa831c66d w9;
          w10 = w10 + (sigma1 w8 + w3 + sigma0 w11); (b, f) = Round g h a b c d e f 0xb00327c8 w10;
          w11 = w11 + (sigma1 w9 + w4 + sigma0 w12); (a, e) = Round f g h a b c d e 0xbf597fc7 w11;
          w12 = w12 + (sigma1 w10 + w5 + sigma0 w13); (h, d) = Round e f g h a b c d 0xc6e00bf3 w12;
          w13 = w13 + (sigma1 w11 + w6 + sigma0 w14); (g, c) = Round d e f g h a b c 0xd5a79147 w13;
          w14 = w14 + (sigma1 w12 + w7 + sigma0 w15); (f, b) = Round c d e f g h a b 0x06ca6351 w14;
          w15 = w15 + (sigma1 w13 + w8 + sigma0 w0); (e, a) = Round b c d e f g h a 0x14292967 w15
      in ((a, b, c, d, e, f, g, h), [w0, w1, w2, w3, w4, w5, w6, w7, w8, w9, w10, w11, w12, w13, w14, w15])))"

definition sha256_rounds_32_47 ::
  "u32 list \<Rightarrow> sha256_vars \<Rightarrow> sha256_vars \<times> u32 list" where
  "sha256_rounds_32_47 w = (\<lambda>(a, b, c, d, e, f, g, h).
     (let w0 = w ! 0; w1 = w ! 1; w2 = w ! 2; w3 = w ! 3;
          w4 = w ! 4; w5 = w ! 5; w6 = w ! 6; w7 = w ! 7;
          w8 = w ! 8; w9 = w ! 9; w10 = w ! 10; w11 = w ! 11;
          w12 = w ! 12; w13 = w ! 13; w14 = w ! 14; w15 = w ! 15;
          w0 = w0 + (sigma1 w14 + w9 + sigma0 w1); (d, h) = Round a b c d e f g h 0x27b70a85 w0;
          w1 = w1 + (sigma1 w15 + w10 + sigma0 w2); (c, g) = Round h a b c d e f g 0x2e1b2138 w1;
          w2 = w2 + (sigma1 w0 + w11 + sigma0 w3); (b, f) = Round g h a b c d e f 0x4d2c6dfc w2;
          w3 = w3 + (sigma1 w1 + w12 + sigma0 w4); (a, e) = Round f g h a b c d e 0x53380d13 w3;
          w4 = w4 + (sigma1 w2 + w13 + sigma0 w5); (h, d) = Round e f g h a b c d 0x650a7354 w4;
          w5 = w5 + (sigma1 w3 + w14 + sigma0 w6); (g, c) = Round d e f g h a b c 0x766a0abb w5;
          w6 = w6 + (sigma1 w4 + w15 + sigma0 w7); (f, b) = Round c d e f g h a b 0x81c2c92e w6;
          w7 = w7 + (sigma1 w5 + w0 + sigma0 w8); (e, a) = Round b c d e f g h a 0x92722c85 w7;
          w8 = w8 + (sigma1 w6 + w1 + sigma0 w9); (d, h) = Round a b c d e f g h 0xa2bfe8a1 w8;
          w9 = w9 + (sigma1 w7 + w2 + sigma0 w10); (c, g) = Round h a b c d e f g 0xa81a664b w9;
          w10 = w10 + (sigma1 w8 + w3 + sigma0 w11); (b, f) = Round g h a b c d e f 0xc24b8b70 w10;
          w11 = w11 + (sigma1 w9 + w4 + sigma0 w12); (a, e) = Round f g h a b c d e 0xc76c51a3 w11;
          w12 = w12 + (sigma1 w10 + w5 + sigma0 w13); (h, d) = Round e f g h a b c d 0xd192e819 w12;
          w13 = w13 + (sigma1 w11 + w6 + sigma0 w14); (g, c) = Round d e f g h a b c 0xd6990624 w13;
          w14 = w14 + (sigma1 w12 + w7 + sigma0 w15); (f, b) = Round c d e f g h a b 0xf40e3585 w14;
          w15 = w15 + (sigma1 w13 + w8 + sigma0 w0); (e, a) = Round b c d e f g h a 0x106aa070 w15
      in ((a, b, c, d, e, f, g, h), [w0, w1, w2, w3, w4, w5, w6, w7, w8, w9, w10, w11, w12, w13, w14, w15])))"

definition sha256_rounds_48_63 ::
  "u32 list \<Rightarrow> sha256_vars \<Rightarrow> sha256_vars" where
  "sha256_rounds_48_63 w = (\<lambda>(a, b, c, d, e, f, g, h).
     (let w0 = w ! 0; w1 = w ! 1; w2 = w ! 2; w3 = w ! 3;
          w4 = w ! 4; w5 = w ! 5; w6 = w ! 6; w7 = w ! 7;
          w8 = w ! 8; w9 = w ! 9; w10 = w ! 10; w11 = w ! 11;
          w12 = w ! 12; w13 = w ! 13; w14 = w ! 14; w15 = w ! 15;
          w0 = w0 + (sigma1 w14 + w9 + sigma0 w1); (d, h) = Round a b c d e f g h 0x19a4c116 w0;
          w1 = w1 + (sigma1 w15 + w10 + sigma0 w2); (c, g) = Round h a b c d e f g 0x1e376c08 w1;
          w2 = w2 + (sigma1 w0 + w11 + sigma0 w3); (b, f) = Round g h a b c d e f 0x2748774c w2;
          w3 = w3 + (sigma1 w1 + w12 + sigma0 w4); (a, e) = Round f g h a b c d e 0x34b0bcb5 w3;
          w4 = w4 + (sigma1 w2 + w13 + sigma0 w5); (h, d) = Round e f g h a b c d 0x391c0cb3 w4;
          w5 = w5 + (sigma1 w3 + w14 + sigma0 w6); (g, c) = Round d e f g h a b c 0x4ed8aa4a w5;
          w6 = w6 + (sigma1 w4 + w15 + sigma0 w7); (f, b) = Round c d e f g h a b 0x5b9cca4f w6;
          w7 = w7 + (sigma1 w5 + w0 + sigma0 w8); (e, a) = Round b c d e f g h a 0x682e6ff3 w7;
          w8 = w8 + (sigma1 w6 + w1 + sigma0 w9); (d, h) = Round a b c d e f g h 0x748f82ee w8;
          w9 = w9 + (sigma1 w7 + w2 + sigma0 w10); (c, g) = Round h a b c d e f g 0x78a5636f w9;
          w10 = w10 + (sigma1 w8 + w3 + sigma0 w11); (b, f) = Round g h a b c d e f 0x84c87814 w10;
          w11 = w11 + (sigma1 w9 + w4 + sigma0 w12); (a, e) = Round f g h a b c d e 0x8cc70208 w11;
          w12 = w12 + (sigma1 w10 + w5 + sigma0 w13); (h, d) = Round e f g h a b c d 0x90befffa w12;
          w13 = w13 + (sigma1 w11 + w6 + sigma0 w14); (g, c) = Round d e f g h a b c 0xa4506ceb w13;
          (f, b) = Round c d e f g h a b 0xbef9a3f7 (w14 + sigma1 w12 + w7 + sigma0 w15);
          (e, a) = Round b c d e f g h a 0xc67178f2 (w15 + sigma1 w13 + w8 + sigma0 w0)
      in (a, b, c, d, e, f, g, h)))"
text \<open>\<open>secp256k1_sha256_transform(uint32_t* s, const uint32_t* chunk)\<close>.\<close>

definition secp256k1_sha256_transform :: "arch \<Rightarrow> u32 list \<Rightarrow> u32 list \<Rightarrow> u32 list" where
  "secp256k1_sha256_transform ar s chunk =
     (let v = (s ! 0, s ! 1, s ! 2, s ! 3, s ! 4, s ! 5, s ! 6, s ! 7);
          (v, w) = sha256_rounds_0_15 ar chunk v;
          (v, w) = sha256_rounds_16_31 w v;
          (v, w) = sha256_rounds_32_47 w v;
          (a, b, c, d, e, f, g, h) = sha256_rounds_48_63 w v
      in [s ! 0 + a, s ! 1 + b, s ! 2 + c, s ! 3 + d, s ! 4 + e, s ! 5 + f, s ! 6 + g, s ! 7 + h])"

text \<open>The bytes of the buffer read as the array of words that \<open>transform\<close> is given.\<close>

definition words_of_bytes :: "arch \<Rightarrow> byte list \<Rightarrow> u32 list" where
  "words_of_bytes ar bs = map (\<lambda>i. word_of_int (native_val ar (take 4 (drop (4 * i) bs)))) [0..<length bs div 4]"

text \<open>The bytes of an array of words, as \<open>memcpy\<close> sees them.\<close>

definition bytes_of_word :: "arch \<Rightarrow> u32 \<Rightarrow> byte list" where
  "bytes_of_word ar w =
     (let bs = [ucast w, ucast (drop_bit 8 w), ucast (drop_bit 16 w), ucast (drop_bit 24 w)]
      in if little_endian ar then bs else rev bs)"

section \<open>SHA-256: streaming\<close>

text \<open>Reading the first \<open>n\<close> bytes of an argument buffer: reading more than there are is a
  fault.\<close>

definition take_bytes :: "byte list \<Rightarrow> nat \<Rightarrow> byte list option" where
  "take_bytes data n = (if n \<le> length data then Some (take n data) else None)"

text \<open>The \<open>while\<close> loop of \<open>secp256k1_sha256_write\<close>: \<open>data\<close> is the unread part
  of the argument and \<open>len\<close> its length.\<close>

function sha256_write_loop ::
  "arch \<Rightarrow> u32 list \<Rightarrow> byte list \<Rightarrow> nat \<Rightarrow> byte list \<Rightarrow> (u32 list \<times> byte list \<times> nat \<times> byte list) option" where
  "sha256_write_loop ar s buf bufsize data =
     (if 64 \<le> (int bufsize + int (length data)) mod size_mod ar
      then do { bs \<leftarrow> take_bytes data (64 - bufsize);
                buf \<leftarrow> splice buf bufsize bs;
                sha256_write_loop ar (secp256k1_sha256_transform ar s (words_of_bytes ar buf)) buf 0
                  (drop (64 - bufsize) data) }
      else Some (s, buf, bufsize, data))"
  by pat_completeness auto
termination
proof (relation "measure (\<lambda>(ar, s, buf, bufsize, data). 2 * length data + (if bufsize = 0 then 0 else 1))")
  fix ar :: arch and s :: "u32 list" and buf :: "byte list" and bufsize :: nat and data bs buf' :: "byte list"
  assume ge: "64 \<le> (int bufsize + int (length data)) mod size_mod ar" and bs: "take_bytes data (64 - bufsize) = Some bs"
  then have "bufsize \<noteq> 0 \<or> data \<noteq> []" by (auto simp: size_mod_def)
  with bs show "((ar, secp256k1_sha256_transform ar s (words_of_bytes ar buf'), buf', 0, drop (64 - bufsize) data),
         ar, s, buf, bufsize, data) \<in> measure (\<lambda>(ar, s, buf, bufsize, data). 2 * length data + (if bufsize = 0 then 0 else 1))"
    by (auto simp: take_bytes_def split: if_splits)
qed auto

declare sha256_write_loop.simps [simp del]

definition secp256k1_sha256_write ::
  "arch \<Rightarrow> secp256k1_sha256_t \<Rightarrow> byte list \<Rightarrow> secp256k1_sha256_t option" where
  "secp256k1_sha256_write ar hash data =
     (let bufsize = nat (sha_bytes hash mod 64);
          hash = hash\<lparr>sha_bytes := (sha_bytes hash + int (length data)) mod size_mod ar\<rparr>
      in do { (s, buf, bufsize, data) \<leftarrow> sha256_write_loop ar (sha_s hash) (sha_buf hash) bufsize data;
              buf \<leftarrow> (if data \<noteq> [] then splice buf bufsize data else Some buf);
              Some (hash\<lparr>sha_s := s, sha_buf := buf\<rparr>) })"

text \<open>The result is the state, with the words wiped, and the 32 bytes of output.\<close>

definition secp256k1_sha256_finalize ::
  "arch \<Rightarrow> secp256k1_sha256_t \<Rightarrow> (secp256k1_sha256_t \<times> byte list) option" where
  "secp256k1_sha256_finalize ar hash =
     (let pad = 0x80 # replicate 63 0;
          sizedesc = [ucast (BE32 ar (word_of_int (sha_bytes hash div 2 ^ 29) :: u64)),
                      ucast (BE32 ar (word_of_int (sha_bytes hash * 2 ^ 3 mod size_mod ar) :: u64))]
      in do { bs \<leftarrow> take_bytes pad (nat (1 + (119 - sha_bytes hash mod 64) mod 64));
              hash \<leftarrow> secp256k1_sha256_write ar hash bs;
              hash \<leftarrow> secp256k1_sha256_write ar hash (concat (map (bytes_of_word ar) sizedesc));
              let out = map (\<lambda>i. BE32 ar (sha_s hash ! i)) [0..<8];
              let hash = hash\<lparr>sha_s := replicate 8 0\<rparr>;
              Some (hash, concat (map (bytes_of_word ar) out)) })"

text \<open>Writing a sequence of pieces in separate calls.\<close>

fun absorb :: "('s \<Rightarrow> byte list \<Rightarrow> 's option) \<Rightarrow> 's \<Rightarrow> byte list list \<Rightarrow> 's option" where
  "absorb write s [] = Some s"
| "absorb write s (d # ds) = do { s \<leftarrow> write s d; absorb write s ds }"

section \<open>HMAC\<close>

text \<open>A struct declared in a function holds indeterminate bytes until it is initialised: they
  are a parameter \<open>u\<close> of the functions that declare one.\<close>

record secp256k1_hmac_sha256_t =
  hmac_inner :: secp256k1_sha256_t
  hmac_outer :: secp256k1_sha256_t

definition secp256k1_hmac_sha256_initialize ::
  "arch \<Rightarrow> secp256k1_sha256_t \<Rightarrow> secp256k1_hmac_sha256_t \<Rightarrow> byte list \<Rightarrow> secp256k1_hmac_sha256_t option" where
  "secp256k1_hmac_sha256_initialize ar u hash key =
     do { rkey \<leftarrow>
            (if length key \<le> 64 then Some (key @ replicate (64 - length key) 0)
             else do { sha256 \<leftarrow> secp256k1_sha256_write ar (secp256k1_sha256_initialize u) key;
                       (sha256, out) \<leftarrow> secp256k1_sha256_finalize ar sha256;
                       Some (out @ replicate 32 0) });
          let outer = secp256k1_sha256_initialize (hmac_outer hash);
          let rkey = map (\<lambda>b. b XOR 0x5c) rkey;
          outer \<leftarrow> secp256k1_sha256_write ar outer rkey;
          let inner = secp256k1_sha256_initialize (hmac_inner hash);
          let rkey = map (\<lambda>b. b XOR (0x5c XOR 0x36)) rkey;
          inner \<leftarrow> secp256k1_sha256_write ar inner rkey;
          Some (hash\<lparr>hmac_inner := inner, hmac_outer := outer\<rparr>) }"

definition secp256k1_hmac_sha256_write ::
  "arch \<Rightarrow> secp256k1_hmac_sha256_t \<Rightarrow> byte list \<Rightarrow> secp256k1_hmac_sha256_t option" where
  "secp256k1_hmac_sha256_write ar hash data =
     do { inner \<leftarrow> secp256k1_sha256_write ar (hmac_inner hash) data;
          Some (hash\<lparr>hmac_inner := inner\<rparr>) }"

definition secp256k1_hmac_sha256_finalize ::
  "arch \<Rightarrow> secp256k1_hmac_sha256_t \<Rightarrow> (secp256k1_hmac_sha256_t \<times> byte list) option" where
  "secp256k1_hmac_sha256_finalize ar hash =
     do { (inner, temp) \<leftarrow> secp256k1_sha256_finalize ar (hmac_inner hash);
          outer \<leftarrow> secp256k1_sha256_write ar (hmac_outer hash) temp;
          (outer, out32) \<leftarrow> secp256k1_sha256_finalize ar outer;
          Some (hash\<lparr>hmac_inner := inner, hmac_outer := outer\<rparr>, out32) }"

section \<open>The generator of RFC 6979\<close>

record secp256k1_rfc6979_hmac_sha256_t =
  rng_v :: "byte list"
  rng_k :: "byte list"
  rng_retry :: int

text \<open>The sequence that the code repeats: initialise the local \<open>hmac\<close> with a 32-byte key, write
  the pieces, finalise. The pieces are written in separate calls.\<close>

definition hmac_call ::
  "arch \<Rightarrow> secp256k1_hmac_sha256_t \<Rightarrow> byte list \<Rightarrow> byte list list \<Rightarrow> (secp256k1_hmac_sha256_t \<times> byte list) option" where
  "hmac_call ar hmac key ds =
     do { hmac \<leftarrow> secp256k1_hmac_sha256_initialize ar (hmac_inner hmac) hmac key;
          hmac \<leftarrow> absorb (secp256k1_hmac_sha256_write ar) hmac ds;
          secp256k1_hmac_sha256_finalize ar hmac }"

definition secp256k1_rfc6979_hmac_sha256_initialize ::
  "arch \<Rightarrow> secp256k1_hmac_sha256_t \<Rightarrow> secp256k1_rfc6979_hmac_sha256_t \<Rightarrow> byte list \<Rightarrow>
   secp256k1_rfc6979_hmac_sha256_t option" where
  "secp256k1_rfc6979_hmac_sha256_initialize ar hmac rng key =
     (let v = replicate 32 0x01; k = replicate 32 0x00
      in do { (hmac, k) \<leftarrow> hmac_call ar hmac k [v, [0x00], key];
              (hmac, v) \<leftarrow> hmac_call ar hmac k [v];
              (hmac, k) \<leftarrow> hmac_call ar hmac k [v, [0x01], key];
              (hmac, v) \<leftarrow> hmac_call ar hmac k [v];
              Some (rng\<lparr>rng_v := v, rng_k := k, rng_retry := 0\<rparr>) })"

text \<open>The output loop. \<open>int now = outlen\<close> converts a \<open>size_t\<close>; a negative \<open>now\<close>
  reaches \<open>memcpy\<close> as a huge length, a fault, and \<open>now = 0\<close> makes no progress: the
  loop need not end.\<close>

partial_function (option) rfc6979_generate_loop ::
  "arch \<Rightarrow> secp256k1_hmac_sha256_t \<Rightarrow> byte list \<Rightarrow> byte list \<Rightarrow> int \<Rightarrow> byte list \<Rightarrow> (byte list \<times> byte list) option" where
  "rfc6979_generate_loop ar hmac k v outlen out =
     (if outlen > 0
      then do { (hmac, v) \<leftarrow> hmac_call ar hmac k [v];
                let now = int32 outlen;
                let now = (if now > 32 then 32 else now);
                bs \<leftarrow> (if now < 0 then None else take_bytes v (nat now));
                rfc6979_generate_loop ar hmac k v (outlen - now) (out @ bs) }
      else Some (v, out))"

definition secp256k1_rfc6979_hmac_sha256_generate ::
  "arch \<Rightarrow> secp256k1_hmac_sha256_t \<Rightarrow> secp256k1_rfc6979_hmac_sha256_t \<Rightarrow> int \<Rightarrow>
   (secp256k1_rfc6979_hmac_sha256_t \<times> byte list) option" where
  "secp256k1_rfc6979_hmac_sha256_generate ar hmac rng outlen =
     do { (k, v) \<leftarrow>
            (if rng_retry rng \<noteq> 0
             then do { (hmac, k) \<leftarrow> hmac_call ar hmac (rng_k rng) [rng_v rng, [0x00]];
                       (hmac, v) \<leftarrow> hmac_call ar hmac k [rng_v rng];
                       Some (k, v) }
             else Some (rng_k rng, rng_v rng));
          (v, out) \<leftarrow> rfc6979_generate_loop ar hmac k v outlen [];
          Some (rng\<lparr>rng_v := v, rng_k := k, rng_retry := 1\<rparr>, out) }"

definition secp256k1_rfc6979_hmac_sha256_finalize ::
  "secp256k1_rfc6979_hmac_sha256_t \<Rightarrow> secp256k1_rfc6979_hmac_sha256_t" where
  "secp256k1_rfc6979_hmac_sha256_finalize rng =
     rng\<lparr>rng_k := replicate 32 0, rng_v := replicate 32 0, rng_retry := 0\<rparr>"

section \<open>The standard: FIPS 180-4\<close>

text \<open>SHA-256 as the standard writes it: functions on rotations, the message schedule as a
  recursion, sixty-four rounds, the chaining of blocks and the padding.\<close>

definition fips_Ch :: "u32 \<Rightarrow> u32 \<Rightarrow> u32 \<Rightarrow> u32" where
  "fips_Ch x y z = (x AND y) XOR (NOT x AND z)"

definition fips_Maj :: "u32 \<Rightarrow> u32 \<Rightarrow> u32 \<Rightarrow> u32" where
  "fips_Maj x y z = (x AND y) XOR (x AND z) XOR (y AND z)"

text \<open>The constants of the rounds, each after the prime whose cube root it comes from.\<close>

definition fips_cube_roots :: "(int \<times> u32) list" where
  "fips_cube_roots =
    [(2, 0x428a2f98), (3, 0x71374491), (5, 0xb5c0fbcf), (7, 0xe9b5dba5),
     (11, 0x3956c25b), (13, 0x59f111f1), (17, 0x923f82a4), (19, 0xab1c5ed5),
     (23, 0xd807aa98), (29, 0x12835b01), (31, 0x243185be), (37, 0x550c7dc3),
     (41, 0x72be5d74), (43, 0x80deb1fe), (47, 0x9bdc06a7), (53, 0xc19bf174),
     (59, 0xe49b69c1), (61, 0xefbe4786), (67, 0x0fc19dc6), (71, 0x240ca1cc),
     (73, 0x2de92c6f), (79, 0x4a7484aa), (83, 0x5cb0a9dc), (89, 0x76f988da),
     (97, 0x983e5152), (101, 0xa831c66d), (103, 0xb00327c8), (107, 0xbf597fc7),
     (109, 0xc6e00bf3), (113, 0xd5a79147), (127, 0x06ca6351), (131, 0x14292967),
     (137, 0x27b70a85), (139, 0x2e1b2138), (149, 0x4d2c6dfc), (151, 0x53380d13),
     (157, 0x650a7354), (163, 0x766a0abb), (167, 0x81c2c92e), (173, 0x92722c85),
     (179, 0xa2bfe8a1), (181, 0xa81a664b), (191, 0xc24b8b70), (193, 0xc76c51a3),
     (197, 0xd192e819), (199, 0xd6990624), (211, 0xf40e3585), (223, 0x106aa070),
     (227, 0x19a4c116), (229, 0x1e376c08), (233, 0x2748774c), (239, 0x34b0bcb5),
     (241, 0x391c0cb3), (251, 0x4ed8aa4a), (257, 0x5b9cca4f), (263, 0x682e6ff3),
     (269, 0x748f82ee), (271, 0x78a5636f), (277, 0x84c87814), (281, 0x8cc70208),
     (283, 0x90befffa), (293, 0xa4506ceb), (307, 0xbef9a3f7), (311, 0xc67178f2)]"

definition fips_K :: "u32 list" where
  "fips_K = map snd fips_cube_roots"

definition fips_H0 :: "u32 list" where
  "fips_H0 = [0x6a09e667, 0xbb67ae85, 0x3c6ef372, 0xa54ff53a, 0x510e527f, 0x9b05688c, 0x1f83d9ab, 0x5be0cd19]"

fun fips_W :: "u32 list \<Rightarrow> nat \<Rightarrow> u32" where
  "fips_W M t =
     (if t < 16 then M ! t
      else (word_rotr 17 (fips_W M (t - 2)) XOR word_rotr 19 (fips_W M (t - 2)) XOR drop_bit 10 (fips_W M (t - 2)))
           + fips_W M (t - 7)
           + (word_rotr 7 (fips_W M (t - 15)) XOR word_rotr 18 (fips_W M (t - 15)) XOR drop_bit 3 (fips_W M (t - 15)))
           + fips_W M (t - 16))"

declare fips_W.simps [simp del]

definition fips_round :: "u32 \<Rightarrow> u32 \<Rightarrow> sha256_vars \<Rightarrow> sha256_vars" where
  "fips_round k w = (\<lambda>(a, b, c, d, e, f, g, h).
     (let T1 = h + (word_rotr 6 e XOR word_rotr 11 e XOR word_rotr 25 e) + fips_Ch e f g + k + w;
          T2 = (word_rotr 2 a XOR word_rotr 13 a XOR word_rotr 22 a) + fips_Maj a b c
      in (T1 + T2, a, b, c, d + T1, e, f, g)))"

definition fips_rounds :: "u32 list \<Rightarrow> nat list \<Rightarrow> sha256_vars \<Rightarrow> sha256_vars" where
  "fips_rounds M ts = fold (\<lambda>t. fips_round (fips_K ! t) (fips_W M t)) ts"

definition fips_compress :: "u32 list \<Rightarrow> u32 list \<Rightarrow> u32 list" where
  "fips_compress H M =
     (case fips_rounds M [0..<64] (H ! 0, H ! 1, H ! 2, H ! 3, H ! 4, H ! 5, H ! 6, H ! 7) of
        (a, b, c, d, e, f, g, h) \<Rightarrow> map2 (+) H [a, b, c, d, e, f, g, h])"

text \<open>Big endian words and bytes.\<close>

definition be_word :: "byte list \<Rightarrow> u32" where
  "be_word bs = word_of_int (le_val (rev bs))"

definition be_words :: "byte list \<Rightarrow> u32 list" where
  "be_words bs = map (\<lambda>i. be_word (take 4 (drop (4 * i) bs))) [0..<length bs div 4]"

definition be_bytes :: "u32 \<Rightarrow> byte list" where
  "be_bytes w = [ucast (drop_bit 24 w), ucast (drop_bit 16 w), ucast (drop_bit 8 w), ucast w]"

definition fips_pad :: "nat \<Rightarrow> byte list" where
  "fips_pad n = 0x80 # replicate ((119 - n mod 64) mod 64) 0 @
                be_bytes (word_of_int (int (8 * n) div 2 ^ 32)) @ be_bytes (word_of_int (int (8 * n)))"

definition sha256 :: "byte list \<Rightarrow> byte list" where
  "sha256 bs =
     concat (map be_bytes (stripes 64 (\<lambda>H b. fips_compress H (be_words b)) fips_H0 (bs @ fips_pad (length bs))))"

text \<open>The standard's constants are the first 32 bits of the fractional parts of the cube roots of
  the first sixty-four primes, and of the square roots of the first eight.\<close>

definition first_primes :: "int list" where
  "first_primes = map fst fips_cube_roots"

definition root_bits :: "nat \<Rightarrow> int \<Rightarrow> u32 \<Rightarrow> bool" where
  "root_bits r p k \<longleftrightarrow>
     (let i = int (length (filter (\<lambda>i. i ^ r \<le> p) [1, 2, 3, 4, 5, 6, 7])); n = i * 4294967296 + uint k
      in n ^ r \<le> p * 4294967296 ^ r \<and> p * 4294967296 ^ r < (n + 1) ^ r)"

section \<open>The standards: FIPS 198-1 and RFC 6979\<close>

text \<open>HMAC of FIPS 198-1 with SHA-256 and its block size of 64 bytes.\<close>

definition hmac_key :: "byte list \<Rightarrow> byte list" where
  "hmac_key K = (let K = (if length K \<le> 64 then K else sha256 K) in K @ replicate (64 - length K) 0)"

definition hmac_sha256 :: "byte list \<Rightarrow> byte list \<Rightarrow> byte list" where
  "hmac_sha256 K text =
     sha256 (map (\<lambda>b. b XOR 0x5c) (hmac_key K) @ sha256 (map (\<lambda>b. b XOR 0x36) (hmac_key K) @ text))"

text \<open>RFC 6979, section 3.2, steps b to g, for given seed material: the state after seeding. Which bytes
  the standard takes as seed material for a key and a message digest is written down with the nonce
  function, in \<open>Secp_Nonce\<close>.\<close>

definition rfc6979_seed :: "byte list \<Rightarrow> byte list \<times> byte list" where
  "rfc6979_seed seed =
     (let V = replicate 32 0x01; K = replicate 32 0x00;
          K = hmac_sha256 K (V @ [0x00] @ seed);
          V = hmac_sha256 K V;
          K = hmac_sha256 K (V @ [0x01] @ seed);
          V = hmac_sha256 K V
      in (K, V))"

fun rfc6979_blocks :: "byte list \<Rightarrow> byte list \<Rightarrow> nat \<Rightarrow> byte list list" where
  "rfc6979_blocks K V 0 = []"
| "rfc6979_blocks K V (Suc n) = hmac_sha256 K V # rfc6979_blocks K (hmac_sha256 K V) n"

text \<open>Step h.3, when a candidate is refused.\<close>

definition rfc6979_refused :: "byte list \<times> byte list \<Rightarrow> byte list \<times> byte list" where
  "rfc6979_refused = (\<lambda>(K, V). let K = hmac_sha256 K (V @ [0x00]) in (K, hmac_sha256 K V))"

fun rfc6979_candidate :: "byte list \<times> byte list \<Rightarrow> nat \<Rightarrow> byte list" where
  "rfc6979_candidate (K, V) 0 = hmac_sha256 K V"
| "rfc6979_candidate (K, V) (Suc n) = rfc6979_candidate (rfc6979_refused (K, hmac_sha256 K V)) n"

section \<open>What the states stand for\<close>

abbreviation sha256_step :: "u32 list \<Rightarrow> byte list \<Rightarrow> u32 list" where
  "sha256_step H b \<equiv> fips_compress H (be_words b)"

text \<open>A state represents the bytes written to it.\<close>

definition sha256_repr :: "arch \<Rightarrow> secp256k1_sha256_t \<Rightarrow> byte list \<Rightarrow> bool" where
  "sha256_repr ar hash xs \<longleftrightarrow>
     sha_s hash = stripes 64 sha256_step fips_H0 xs \<and> sha_bytes hash = int (length xs) mod size_mod ar \<and>
     length (sha_buf hash) = 64 \<and> take (length xs mod 64) (sha_buf hash) = rest 64 xs"

definition sha256_limit :: "arch \<Rightarrow> int" where
  "sha256_limit ar = (if bits64 ar then 2 ^ 61 else 2 ^ 32) - 64"

definition sha256_usable :: "secp256k1_sha256_t \<Rightarrow> bool" where
  "sha256_usable hash \<longleftrightarrow> length (sha_buf hash) = 64"

definition hmac_usable :: "secp256k1_hmac_sha256_t \<Rightarrow> bool" where
  "hmac_usable hash \<longleftrightarrow> sha256_usable (hmac_inner hash) \<and> sha256_usable (hmac_outer hash)"

definition hmac_repr :: "arch \<Rightarrow> byte list \<Rightarrow> secp256k1_hmac_sha256_t \<Rightarrow> byte list \<Rightarrow> bool" where
  "hmac_repr ar K hash xs \<longleftrightarrow>
     sha256_repr ar (hmac_inner hash) (map (\<lambda>b. b XOR 0x36) (hmac_key K) @ xs) \<and>
     sha256_repr ar (hmac_outer hash) (map (\<lambda>b. b XOR 0x5c) (hmac_key K))"

text \<open>A state stands for a key and a value: those of the struct, or, after an output, the ones
  the next call derives first.\<close>

definition rng_repr :: "secp256k1_rfc6979_hmac_sha256_t \<Rightarrow> byte list \<times> byte list \<Rightarrow> bool" where
  "rng_repr rng s \<longleftrightarrow> length (rng_k rng) = 32 \<and> length (rng_v rng) = 32 \<and>
     s = (if rng_retry rng \<noteq> 0 then rfc6979_refused (rng_k rng, rng_v rng) else (rng_k rng, rng_v rng))"

text \<open>The number of blocks an output takes.\<close>

definition nblocks :: "int \<Rightarrow> nat" where
  "nblocks outlen = nat ((outlen + 31) div 32)"

section \<open>The transformation implements the standard's compression function\<close>

lemma fips_K_roots: "list_all2 (root_bits 3) first_primes fips_K"
  by (simp add: first_primes_def fips_K_def fips_cube_roots_def root_bits_def)

lemma fips_H0_roots: "list_all2 (root_bits 2) (take 8 first_primes) fips_H0"
  by (simp add: first_primes_def fips_H0_def fips_cube_roots_def root_bits_def)

lemma rotr_or: "0 < n \<Longrightarrow> n < 32 \<Longrightarrow> word_rotr n x = drop_bit n x OR push_bit (32 - n) x" for x :: u32
  by (rule bit_eqI) (auto simp: bit_word_rotr_iff bit_simps mod_if add.commute [of n] dest: bit_imp_le_length)

lemma Ch_fips: "Ch x y z = fips_Ch x y z"
  by (rule bit_eqI) (auto simp: Ch_def fips_Ch_def bit_simps)

lemma Maj_fips: "Maj x y z = fips_Maj x y z"
  by (rule bit_eqI) (auto simp: Maj_def fips_Maj_def bit_simps)

lemma fips_round_Round:
  "fips_round k w (a, b, c, d, e, f, g, h) =
     (case Round a b c d e f g h k w of (d', h') \<Rightarrow> (h', a, b, c, d', e, f, g))"
  by (simp add: fips_round_def Round_def Let_def Ch_fips Maj_fips Sigma0_def Sigma1_def rotr_or)

lemma fips_W_step:
  "fips_W M t + (sigma1 (fips_W M (t + 14)) + fips_W M (t + 9) + sigma0 (fips_W M (t + 1))) = fips_W M (t + 16)"
  by (simp add: fips_W.simps [of M "t + 16"] sigma0_def sigma1_def rotr_or add.commute [of _ t])

lemma fips_W_word: "t < 16 \<Longrightarrow> fips_W M t = M ! t"
  by (simp add: fips_W.simps)

lemma fips_rounds_append: "fips_rounds M (ts @ us) v = fips_rounds M us (fips_rounds M ts v)"
  by (simp add: fips_rounds_def)

lemma fips_W_next:
  "u = t + 14 \<Longrightarrow> v = t + 9 \<Longrightarrow> x = t + 1 \<Longrightarrow>
   fips_W M t + (sigma1 (fips_W M u) + fips_W M v + sigma0 (fips_W M x)) = fips_W M (t + 16)"
  using fips_W_step [of M t] by simp

lemma fips_W_last:
  "u = t + 14 \<Longrightarrow> v = t + 9 \<Longrightarrow> x = t + 1 \<Longrightarrow>
   fips_W M t + sigma1 (fips_W M u) + fips_W M v + sigma0 (fips_W M x) = fips_W M (t + 16)"
  using fips_W_step [of M t] by (simp add: add.assoc)

text \<open>After eight lines of the code every variable is back in its role.\<close>

lemma eight_rounds:
  "(case Round a b c d e f g h k0 w0 of (d, h) \<Rightarrow>
     case Round h a b c d e f g k1 w1 of (c, g) \<Rightarrow>
     case Round g h a b c d e f k2 w2 of (b, f) \<Rightarrow>
     case Round f g h a b c d e k3 w3 of (a, e) \<Rightarrow>
     case Round e f g h a b c d k4 w4 of (h, d) \<Rightarrow>
     case Round d e f g h a b c k5 w5 of (g, c) \<Rightarrow>
     case Round c d e f g h a b k6 w6 of (f, b) \<Rightarrow>
     case Round b c d e f g h a k7 w7 of (e, a) \<Rightarrow> F a b c d e f g h) =
   (case fold (\<lambda>(k, w). fips_round k w)
      [(k0, w0), (k1, w1), (k2, w2), (k3, w3), (k4, w4), (k5, w5), (k6, w6), (k7, w7)] (a, b, c, d, e, f, g, h) of
      (a, b, c, d, e, f, g, h) \<Rightarrow> F a b c d e f g h)"
proof -
  obtain d0 h0 where "Round a b c d e f g h k0 w0 = (d0, h0)" by fastforce
  moreover obtain c1 g1 where "Round h0 a b c d0 e f g k1 w1 = (c1, g1)" by fastforce
  moreover obtain b2 f2 where "Round g1 h0 a b c1 d0 e f k2 w2 = (b2, f2)" by fastforce
  moreover obtain a3 e3 where "Round f2 g1 h0 a b2 c1 d0 e k3 w3 = (a3, e3)" by fastforce
  moreover obtain h4 d4 where "Round e3 f2 g1 h0 a3 b2 c1 d0 k4 w4 = (h4, d4)" by fastforce
  moreover obtain g5 c5 where "Round d4 e3 f2 g1 h4 a3 b2 c1 k5 w5 = (g5, c5)" by fastforce
  moreover obtain f6 b6 where "Round c5 d4 e3 f2 g5 h4 a3 b2 k6 w6 = (f6, b6)" by fastforce
  moreover obtain e7 a7 where "Round b6 c5 d4 e3 f6 g5 h4 a3 k7 w7 = (e7, a7)" by fastforce
  ultimately show ?thesis by (simp add: fips_round_Round)
qed

lemma fips_rounds_fold:
  "fips_rounds M ts = fold (\<lambda>(k, w). fips_round k w) (map (\<lambda>t. (fips_K ! t, fips_W M t)) ts)"
  by (simp add: fips_rounds_def fold_map comp_def)

lemma sha256_vars_cases:
  obtains a b c d e f g h where "(v :: sha256_vars) = (a, b, c, d, e, f, g, h)"
  by (metis surj_pair)

lemma upt_0_16: "[0..<16] = [0, 1, 2, 3, 4, 5, 6, 7, 8, 9, 10, 11, 12, 13, 14, 15]"
  by (simp add: upt_rec)

lemma rounds_0_15:
  assumes "length M = 16" and M: "M = map (BE32 ar) chunk"
  shows "sha256_rounds_0_15 ar chunk v = (fips_rounds M [0..<16] v, map (fips_W M) [0..<16])"
proof -
  have w: "BE32 ar (chunk ! i) = fips_W M i" if "i < 16" for i
    using that assms by (simp add: fips_W_word)
  obtain a b c d e f g h where v: "v = (a, b, c, d, e, f, g, h)" by (rule sha256_vars_cases)
  show ?thesis
    unfolding v sha256_rounds_0_15_def Let_def prod.case eight_rounds
    by (simp add: w fips_rounds_fold fips_K_def fips_cube_roots_def upt_0_16 split: prod.split)
qed

text \<open>A group of sixteen lines that starts from the schedule words \<open>t, \<dots>, t + 15\<close> leaves
  the next sixteen.\<close>

lemma rounds_16_31:
  "sha256_rounds_16_31 (map (fips_W M) [0..<16]) v = (fips_rounds M [16..<32] v, map (fips_W M) [16..<32])"
proof -
  obtain a b c d e f g h where v: "v = (a, b, c, d, e, f, g, h)" by (rule sha256_vars_cases)
  show ?thesis
    unfolding v sha256_rounds_16_31_def Let_def prod.case eight_rounds
    by (simp add: fips_W_next fips_rounds_fold fips_K_def fips_cube_roots_def split: prod.split)
qed

lemma rounds_32_47:
  "sha256_rounds_32_47 (map (fips_W M) [16..<32]) v = (fips_rounds M [32..<48] v, map (fips_W M) [32..<48])"
proof -
  obtain a b c d e f g h where v: "v = (a, b, c, d, e, f, g, h)" by (rule sha256_vars_cases)
  show ?thesis
    unfolding v sha256_rounds_32_47_def Let_def prod.case eight_rounds
    by (simp add: fips_W_next fips_rounds_fold fips_K_def fips_cube_roots_def split: prod.split)
qed

lemma rounds_48_63:
  "sha256_rounds_48_63 (map (fips_W M) [32..<48]) v = fips_rounds M [48..<64] v"
proof -
  obtain a b c d e f g h where v: "v = (a, b, c, d, e, f, g, h)" by (rule sha256_vars_cases)
  show ?thesis
    unfolding v sha256_rounds_48_63_def Let_def prod.case eight_rounds
    by (simp add: fips_W_next fips_rounds_fold fips_K_def fips_cube_roots_def fips_W_last split: prod.split)
qed

lemma map2_eight:
  "length s = 8 \<Longrightarrow> map2 (+) s [a, b, c, d, e, f, g, h] =
     [s ! 0 + a, s ! 1 + b, s ! 2 + c, s ! 3 + d, s ! 4 + e, s ! 5 + f, s ! 6 + g, s ! 7 + h :: u32]"
  by (rule nth_equalityI) (auto simp: less_Suc_eq numeral_eq_Suc)

lemma transform_compress:
  assumes "length s = 8" and "length chunk = 16"
  shows "secp256k1_sha256_transform ar s chunk = fips_compress s (map (BE32 ar) chunk)"
proof -
  let ?M = "map (BE32 ar) chunk"
  have upt: "[0..<64] = [0..<16] @ [16..<32] @ [32..<48] @ [48..<64]"
    by (simp add: upt_rec)
  have M: "length ?M = 16" using assms(2) by simp
  show ?thesis
    unfolding secp256k1_sha256_transform_def fips_compress_def upt fips_rounds_append Let_def
      rounds_0_15 [OF M refl] prod.case rounds_16_31 rounds_32_47 rounds_48_63
    by (simp add: map2_eight [OF assms(1)] split: prod.split del: upt_rec_numeral)
qed

section \<open>Bytes and words\<close>

lemma BE32_masks:
  "BE32 ar p =
     (if little_endian ar
      then push_bit 24 (p AND mask 8) OR push_bit 8 (p AND push_bit 8 (mask 8)) OR
           drop_bit 8 (p AND push_bit 16 (mask 8)) OR drop_bit 24 (p AND push_bit 24 (mask 8))
      else p)"
  by (simp add: BE32_def mask_eq_exp_minus_1 push_bit_eq_mult)

text \<open>Byte positions of a bit of a 32-bit word.\<close>

lemma bit32_cases:
  assumes "n < (32 :: nat)"
  obtains "n < 8" | "8 \<le> n" "n < 16" | "16 \<le> n" "n < 24" | "24 \<le> n" "n < 32"
  using assms by linarith

lemma ucast_BE32: "ucast (BE32 ar (p :: u64)) = BE32 ar (ucast p :: u32)"
proof (rule bit_word_eqI)
  fix n assume "n < LENGTH(32)"
  then have "n < 32" by simp
  then show "bit (ucast (BE32 ar p) :: u32) n = bit (BE32 ar (ucast p :: u32)) n"
    by (rule bit32_cases) (auto simp: BE32_masks bit_simps)
qed

lemma BE32_native:
  assumes "length bs = 4"
  shows "BE32 ar (word_of_int (native_val ar bs) :: u32) = be_word bs"
proof (cases "little_endian ar")
  case True
  from assms obtain b0 b1 b2 b3 where bs: "bs = [b0, b1, b2, b3]"
    by (auto simp: length_Suc_conv numeral_eq_Suc)
  show ?thesis
  proof (rule bit_word_eqI)
    fix n assume "n < LENGTH(32)"
    then have "n < 32" by simp
    then show "bit (BE32 ar (word_of_int (native_val ar bs) :: u32)) n = bit (be_word bs) n"
      by (rule bit32_cases)
        (auto simp: bs True native_val_def be_word_def le_val_Cons_word BE32_masks bit_simps byte_bit_ge
          simp del: le_val.simps(2))
  qed
qed (simp add: BE32_def native_val_def be_word_def)

lemma bytes_BE32: "bytes_of_word ar (BE32 ar w) = be_bytes w"
proof (cases "little_endian ar")
  case True
  have "(ucast (BE32 ar w) :: byte) = ucast (drop_bit 24 w)" "(ucast (drop_bit 8 (BE32 ar w)) :: byte) = ucast (drop_bit 16 w)"
    "(ucast (drop_bit 16 (BE32 ar w)) :: byte) = ucast (drop_bit 8 w)" "(ucast (drop_bit 24 (BE32 ar w)) :: byte) = ucast w"
    by (auto intro!: bit_word_eqI simp: True BE32_masks bit_simps)
  with True show ?thesis by (simp add: bytes_of_word_def be_bytes_def)
qed (simp add: BE32_def bytes_of_word_def be_bytes_def)

lemma words_BE32:
  assumes "4 dvd length bs"
  shows "map (BE32 ar) (words_of_bytes ar bs) = be_words bs"
proof -
  have "length (take 4 (drop (4 * i) bs)) = 4" if "i < length bs div 4" for i
    using that by simp
  then show ?thesis by (auto simp: words_of_bytes_def be_words_def intro!: BE32_native)
qed

section \<open>Writing is absorbing\<close>

lemma transform_step:
  assumes "length s = 8" and "length b = 64"
  shows "secp256k1_sha256_transform ar s (words_of_bytes ar b) = sha256_step s b"
proof -
  have "length (words_of_bytes ar b) = 16" "4 dvd length b" using assms by (simp_all add: words_of_bytes_def)
  with assms show ?thesis by (simp add: transform_compress words_BE32)
qed

lemma length_fips_compress: "length H = 8 \<Longrightarrow> length (fips_compress H M) = 8"
  by (simp add: fips_compress_def split: prod.split)

lemma stripes_invariant: "(\<And>v b. P v \<Longrightarrow> P (f v b)) \<Longrightarrow> P v \<Longrightarrow> P (stripes k f v bs)"
proof (induction k f v bs rule: stripes.induct)
  case (1 k f v bs)
  show ?case
  proof (cases "0 < k \<and> k \<le> length bs")
    case True
    with "1.IH" "1.prems" show ?thesis by (simp add: stripes_step)
  next
    case False
    with "1.prems"(2) show ?thesis by (subst stripes.simps) auto
  qed
qed

lemma length_sha256_stripes: "length s = 8 \<Longrightarrow> length (stripes 64 sha256_step s bs) = 8"
  by (rule stripes_invariant) (auto simp: length_fips_compress)

lemma sha256_write_loop_ok:
  assumes "length s = 8" and "length buf = 64" and "n < 64" and "int (length data) + 64 \<le> size_mod ar"
  shows "ok (\<lambda>(s', buf', n', data'). s' = stripes 64 sha256_step s (take n buf @ data) \<and> length buf' = 64 \<and>
           take n' buf' @ data' = rest 64 (take n buf @ data) \<and> n' + length data' < 64)
         (sha256_write_loop ar s buf n data)"
  using assms
proof (induction ar s buf n data rule: sha256_write_loop.induct)
  case (1 ar s buf n data)
  have md: "(int n + int (length data)) mod size_mod ar = int (n + length data)"
    using "1.prems" by simp
  show ?case
  proof (cases "64 \<le> n + length data")
    case True
    let ?buf = "take n buf @ take (64 - n) data" and ?d = "drop (64 - n) data"
    have tk: "take_bytes data (64 - n) = Some (take (64 - n) data)"
      using True by (simp add: take_bytes_def)
    have sp: "splice buf n (take (64 - n) data) = Some ?buf"
      using True "1.prems" by (simp add: splice_def)
    have st: "secp256k1_sha256_transform ar s (words_of_bytes ar ?buf) = sha256_step s ?buf"
      using True "1.prems" by (intro transform_step) auto
    have "64 \<le> (int n + int (length data)) mod size_mod ar" using True md by simp
    from "1.IH" [OF this tk sp, unfolded st] True "1.prems"
    have "ok (\<lambda>(s', buf', n', data'). s' = stripes 64 sha256_step (sha256_step s ?buf) ?d \<and> length buf' = 64 \<and>
           take n' buf' @ data' = rest 64 ?d \<and> n' + length data' < 64)
         (sha256_write_loop ar (sha256_step s ?buf) ?buf 0 ?d)"
      by (simp add: length_fips_compress)
    moreover have "stripes 64 sha256_step s (take n buf @ data) = stripes 64 sha256_step (sha256_step s ?buf) ?d"
      "rest 64 (take n buf @ data) = rest 64 ?d"
      using True "1.prems" by (simp_all add: stripes_step [of 64 "take n buf @ data"] rest_step [of 64 "take n buf @ data"])
    ultimately show ?thesis
      using True by (subst sha256_write_loop.simps) (simp add: md tk sp st)
  next
    case False
    then show ?thesis
      using "1.prems" by (subst sha256_write_loop.simps) (simp add: md stripes_short)
  qed
qed

lemma size_mod_mod_64: "x mod size_mod ar mod 64 = x mod 64"
  by (simp add: size_mod_def mod_mod_cancel)

lemma sha256_initialize_repr:
  "length (sha_buf hash) = 64 \<Longrightarrow> sha256_repr ar (secp256k1_sha256_initialize hash) []"
  by (simp add: sha256_repr_def secp256k1_sha256_initialize_def stripes_short fips_H0_def)

lemma sha256_write_repr:
  assumes r: "sha256_repr ar hash xs" and fits: "int (length data) + 64 \<le> size_mod ar"
  shows "ok (\<lambda>hash'. sha256_repr ar hash' (xs @ data)) (secp256k1_sha256_write ar hash data)"
proof -
  let ?n = "length xs mod 64"
  have buf: "length (sha_buf hash) = 64" "take ?n (sha_buf hash) = rest 64 xs" "length (sha_s hash) = 8"
    using r length_sha256_stripes [of fips_H0 xs] by (simp_all add: sha256_repr_def fips_H0_def)
  have n: "nat (sha_bytes hash mod 64) = ?n"
    using r by (simp add: sha256_repr_def size_mod_mod_64 flip: zmod_int) (simp add: nat_mod_as_int)
  obtain s' buf' n' data' where loop:
      "sha256_write_loop ar (sha_s hash) (sha_buf hash) ?n data = Some (s', buf', n', data')"
    and s': "s' = stripes 64 sha256_step (sha_s hash) (rest 64 xs @ data)" "length buf' = 64"
      "take n' buf' @ data' = rest 64 (rest 64 xs @ data)" "n' + length data' < 64"
    using okD [OF sha256_write_loop_ok [OF buf(3,1) _ fits, of ?n]] buf by auto
  let ?b = "if data' \<noteq> [] then take n' buf' @ data' @ drop (n' + length data') buf' else buf'"
  have len: "(length xs + length data) mod 64 = n' + length data'"
    using arg_cong [OF s'(3), of length] s'(2,4) rest_rest [of 64 xs data] length_rest [of 64 "xs @ data"]
    by (simp add: min.absorb2)
  have "(if data' \<noteq> [] then splice buf' n' data' else Some buf') = Some ?b"
    using s'(2,4) by (simp add: splice_def)
  then have "secp256k1_sha256_write ar hash data = Some (hash\<lparr>sha_s := s', sha_buf := ?b,
      sha_bytes := (sha_bytes hash + int (length data)) mod size_mod ar\<rparr>)"
    by (simp add: secp256k1_sha256_write_def n loop Let_def)
  moreover have "take (n' + length data') ?b = rest 64 (xs @ data)" "length ?b = 64"
    using s' rest_rest [of 64 xs data] by auto
  moreover have "s' = stripes 64 sha256_step fips_H0 (xs @ data)"
    using s'(1) r stripes_rest [of 64 sha256_step fips_H0 xs data] by (simp add: sha256_repr_def)
  ultimately show ?thesis
    using r by (simp add: sha256_repr_def len mod_simps)
qed

section \<open>The streaming interface\<close>

text \<open>The contract of a streaming digest: a state stands for the bytes it was given, writing
  appends, finalising returns the digest of the bytes and leaves a state that can be initialised
  again. Both SHA-256 and HMAC provide it.\<close>

locale digest =
  fixes append_bytes :: "'s \<Rightarrow> byte list \<Rightarrow> 's option"
    and finalize :: "'s \<Rightarrow> ('s \<times> byte list) option"
    and repr :: "'s \<Rightarrow> byte list \<Rightarrow> bool"
    and usable :: "'s \<Rightarrow> bool"
    and hash :: "byte list \<Rightarrow> byte list"
    and limit :: int
  assumes write_repr: "repr s xs \<Longrightarrow> int (length xs + length ys) < limit \<Longrightarrow> ok (\<lambda>s'. repr s' (xs @ ys)) (append_bytes s ys)"
    and finalize_repr: "repr s xs \<Longrightarrow> int (length xs) < limit \<Longrightarrow> ok (\<lambda>(s', out). usable s' \<and> out = hash xs) (finalize s)"
begin

lemma absorb_repr:
  "repr s xs \<Longrightarrow> int (length xs + length (concat ds)) < limit \<Longrightarrow> ok (\<lambda>s'. repr s' (xs @ concat ds)) (absorb append_bytes s ds)"
proof (induction ds arbitrary: s xs)
  case (Cons d ds)
  then have "ok (\<lambda>s'. repr s' (xs @ d)) (append_bytes s d)" by (intro write_repr) auto
  then obtain s' where s': "append_bytes s d = Some s'" "repr s' (xs @ d)" by (auto simp: ok_iff)
  from Cons.IH [OF s'(2)] Cons.prems(2) show ?case by (simp add: s'(1) add.assoc)
qed simp

lemma absorb_finalize:
  assumes "repr s []" and "int (length (concat ds)) < limit"
  shows "ok (\<lambda>(s', out). usable s' \<and> out = hash (concat ds)) (do { s \<leftarrow> absorb append_bytes s ds; finalize s })"
  using absorb_repr [OF assms(1), of ds] assms(2) finalize_repr by (auto simp: ok_iff)

end

section \<open>SHA-256 is the standard's\<close>

text \<open>The longest message: the bit count fits in 64 bits, the byte count in a \<open>size_t\<close>, and the
  loop's sum of buffered and new bytes does not wrap.\<close>

lemma fips_pad_split:
  "fips_pad n = take (1 + (119 - n mod 64) mod 64) (0x80 # replicate 63 0) @
     be_bytes (word_of_int (int (8 * n) div 2 ^ 32)) @ be_bytes (word_of_int (int (8 * n)))"
proof -
  have "min ((119 - n mod 64) mod 64) 63 = (119 - n mod 64) mod 64" by (simp add: min_def)
  then show ?thesis by (simp add: fips_pad_def)
qed

lemma sizedesc_bytes:
  assumes "int n < sha256_limit ar"
  shows "concat (map (bytes_of_word ar)
           [ucast (BE32 ar (word_of_int (int n div 2 ^ 29) :: u64)),
            ucast (BE32 ar (word_of_int (int n * 2 ^ 3 mod size_mod ar) :: u64))]) =
         be_bytes (word_of_int (int (8 * n) div 2 ^ 32)) @ be_bytes (word_of_int (int (8 * n)))"
proof -
  have d: "int (8 * n) div 2 ^ 32 = int n div 2 ^ 29"
    using div_mult_mult1 [of 8 "int n" "2 ^ 29"] by simp
  have u: "(ucast (word_of_int x :: u64) :: u32) = word_of_int x" for x
    by (rule bit_word_eqI) (simp add: bit_simps)
  have m: "(word_of_int (x mod size_mod ar) :: u32) = word_of_int x" for x
  proof -
    have "x mod size_mod ar = take_bit (if bits64 ar then 64 else 32) x"
      by (simp add: size_mod_def take_bit_eq_mod)
    then show ?thesis by (intro bit_word_eqI) (auto simp: bit_simps)
  qed
  show ?thesis by (simp only: ucast_BE32 bytes_BE32 list.map concat.simps d u m append_Nil2) (simp add: mult.commute)
qed

lemma finalize_padding:
  assumes "int n < size_mod ar"
  shows "nat (1 + (119 - int n mod size_mod ar mod 64) mod 64) = 1 + (119 - n mod 64) mod 64"
proof -
  have "(119 - int n mod 64) mod 64 = int ((119 - n mod 64) mod 64)"
    by (simp add: of_nat_diff zmod_int)
  with assms show ?thesis by (simp add: nat_add_distrib)
qed

lemma sha256_finalize_repr:
  assumes r: "sha256_repr ar hash xs" and lim: "int (length xs) < sha256_limit ar"
  shows "ok (\<lambda>(hash', out). sha256_usable hash' \<and> out = sha256 xs) (secp256k1_sha256_finalize ar hash)"
proof -
  let ?n = "length xs"
  let ?p = "take (1 + (119 - ?n mod 64) mod 64) (0x80 # replicate 63 (0 :: byte))"
  let ?d = "be_bytes (word_of_int (int (8 * ?n) div 2 ^ 32)) @ be_bytes (word_of_int (int (8 * ?n)))"
  have n: "int ?n < size_mod ar" using lim by (auto simp: sha256_limit_def size_mod_def split: if_splits)
  have b: "sha_bytes hash = int ?n" using r n by (simp add: sha256_repr_def)
  have len: "(119 - ?n mod 64) mod 64 < 64" by simp
  have fits: "int (length ?p) + 64 \<le> size_mod ar" "int (length ?d) + 64 \<le> size_mod ar"
    using size_mod_ge [of ar] len by (auto simp: be_bytes_def)
  obtain h1 where h1: "secp256k1_sha256_write ar hash ?p = Some h1" "sha256_repr ar h1 (xs @ ?p)"
    using okD [OF sha256_write_repr [OF r fits(1)]] by blast
  obtain h2 where h2: "secp256k1_sha256_write ar h1 ?d = Some h2" "sha256_repr ar h2 (xs @ ?p @ ?d)"
    using okD [OF sha256_write_repr [OF h1(2) fits(2)]] by auto
  have pad: "take_bytes (0x80 # replicate 63 0) (nat (1 + (119 - sha_bytes hash mod 64) mod 64)) = Some ?p"
    using finalize_padding [OF n] len by (simp add: b take_bytes_def n)
  have s: "sha_s h2 = stripes 64 sha256_step fips_H0 (xs @ fips_pad ?n)" "length (sha_s h2) = 8" "sha256_usable h2"
    using h2(2) length_sha256_stripes [of fips_H0 "xs @ fips_pad ?n"]
    by (simp_all add: sha256_repr_def fips_pad_split sha256_usable_def fips_H0_def)
  have out: "map (\<lambda>i. BE32 ar (sha_s h2 ! i)) [0..<8] = map (BE32 ar) (sha_s h2)"
    by (rule nth_equalityI) (use s(2) in auto)
  have "secp256k1_sha256_finalize ar hash =
      Some (h2\<lparr>sha_s := replicate 8 0\<rparr>, concat (map (bytes_of_word ar) (map (BE32 ar) (sha_s h2))))"
    unfolding secp256k1_sha256_finalize_def Let_def pad
    unfolding b sizedesc_bytes [OF lim] using h1(1) h2(1) by (simp add: out del: map_map)
  then show ?thesis
    using s by (simp add: comp_def bytes_BE32 sha256_def sha256_usable_def)
qed

lemma length_sha256 [simp]: "length (sha256 bs) = 32"
proof -
  have "length (stripes 64 sha256_step fips_H0 (bs @ fips_pad (length bs))) = 8"
    by (rule length_sha256_stripes) (simp add: fips_H0_def)
  then show ?thesis by (simp add: sha256_def length_concat be_bytes_def comp_def sum_list_triv)
qed

interpretation sha: digest "secp256k1_sha256_write ar" "secp256k1_sha256_finalize ar"
    "sha256_repr ar" sha256_usable sha256 "sha256_limit ar" for ar
proof unfold_locales
  fix s and xs ys :: "byte list" assume "sha256_repr ar s xs" "int (length xs + length ys) < sha256_limit ar"
  then show "ok (\<lambda>s'. sha256_repr ar s' (xs @ ys)) (secp256k1_sha256_write ar s ys)"
    by (intro sha256_write_repr) (auto simp: sha256_limit_def size_mod_def split: if_splits)
qed (rule sha256_finalize_repr)

section \<open>HMAC is the standard's\<close>

lemma length_hmac_sha256 [simp]: "length (hmac_sha256 K t) = 32"
  by (simp add: hmac_sha256_def)

lemma length_hmac_key [simp]: "length (hmac_key K) = 64"
  by (simp add: hmac_key_def Let_def)

text \<open>The key pad, first turned into the outer and then into the inner one in place.\<close>

lemma xor_pads: "map (\<lambda>b. b XOR (0x5c XOR 0x36)) (map (\<lambda>b. b XOR 0x5c) rkey) = map (\<lambda>b. b XOR 0x36) (rkey :: byte list)"
  by (auto simp: xor.assoc xor.left_commute simp flip: xor.assoc [of 0x5c])

lemma sha256_limit_ge: "1000 < sha256_limit ar"
  by (simp add: sha256_limit_def)

lemma sha256_write_init:
  assumes "sha256_usable u" and "int (length d) < sha256_limit ar"
  shows "ok (\<lambda>s. sha256_repr ar s d) (secp256k1_sha256_write ar (secp256k1_sha256_initialize u) d)"
  using sha.write_repr [OF sha256_initialize_repr, of u d ar] assms by (simp add: sha256_usable_def)

lemma hmac_initialize_repr:
  assumes u: "sha256_usable u" "hmac_usable hash" and key: "int (length key) < sha256_limit ar"
  shows "ok (\<lambda>h. hmac_repr ar key h []) (secp256k1_hmac_sha256_initialize ar u hash key)"
proof -
  let ?K = "hmac_key key"
  have "ok (\<lambda>rkey. rkey = ?K)
      (if length key \<le> 64 then Some (key @ replicate (64 - length key) 0)
       else do { sha256 \<leftarrow> secp256k1_sha256_write ar (secp256k1_sha256_initialize u) key;
                 (sha256, out) \<leftarrow> secp256k1_sha256_finalize ar sha256;
                 Some (out @ replicate 32 0) })"
  proof (cases "length key \<le> 64")
    case False
    obtain s where s: "secp256k1_sha256_write ar (secp256k1_sha256_initialize u) key = Some s" "sha256_repr ar s key"
      using okD [OF sha256_write_init [OF u(1) key]] by blast
    from False show ?thesis
      using sha.finalize_repr [OF s(2) key] by (auto simp: s(1) ok_iff hmac_key_def)
  qed (simp add: hmac_key_def)
  then obtain rkey where rkey: "(if length key \<le> 64 then Some (key @ replicate (64 - length key) 0)
       else do { sha256 \<leftarrow> secp256k1_sha256_write ar (secp256k1_sha256_initialize u) key;
                 (sha256, out) \<leftarrow> secp256k1_sha256_finalize ar sha256;
                 Some (out @ replicate 32 0) }) = Some ?K"
    by (auto simp: ok_iff)
  have lim: "int (length (map f ?K)) < sha256_limit ar" for f :: "byte \<Rightarrow> byte"
    using sha256_limit_ge [of ar] by simp
  from u(2) have us: "sha256_usable (hmac_outer hash)" "sha256_usable (hmac_inner hash)"
    by (simp_all add: hmac_usable_def)
  show ?thesis
    unfolding secp256k1_hmac_sha256_initialize_def rkey Option.bind.bind_lunit Let_def xor_pads
    using okD [OF sha256_write_init [OF us(1) lim, of "\<lambda>b. b XOR 0x5c"]]
      okD [OF sha256_write_init [OF us(2) lim, of "\<lambda>b. b XOR 0x36"]]
    by (auto simp: hmac_repr_def)
qed

lemma hmac_finalize_repr:
  assumes r: "hmac_repr ar K h xs" and lim: "int (length xs) + 64 < sha256_limit ar"
  shows "ok (\<lambda>(h', out). hmac_usable h' \<and> out = hmac_sha256 K xs) (secp256k1_hmac_sha256_finalize ar h)"
proof -
  let ?i = "map (\<lambda>b. b XOR 0x36) (hmac_key K) @ xs" and ?o = "map (\<lambda>b. b XOR 0x5c) (hmac_key K)"
  have repr: "sha256_repr ar (hmac_inner h) ?i" "sha256_repr ar (hmac_outer h) ?o"
    using r by (simp_all add: hmac_repr_def)
  obtain i where i: "secp256k1_sha256_finalize ar (hmac_inner h) = Some (i, sha256 ?i)" "sha256_usable i"
    using okD [OF sha.finalize_repr [OF repr(1)]] lim by auto
  obtain s where s: "secp256k1_sha256_write ar (hmac_outer h) (sha256 ?i) = Some s" "sha256_repr ar s (?o @ sha256 ?i)"
    using okD [OF sha.write_repr [OF repr(2), of "sha256 ?i"]] sha256_limit_ge [of ar] by auto
  from sha.finalize_repr [OF s(2)] sha256_limit_ge [of ar] i(2) show ?thesis
    by (auto simp: secp256k1_hmac_sha256_finalize_def i(1) s(1) hmac_usable_def hmac_sha256_def ok_iff)
qed

interpretation hmac: digest "secp256k1_hmac_sha256_write ar" "secp256k1_hmac_sha256_finalize ar"
    "hmac_repr ar K" hmac_usable "hmac_sha256 K" "sha256_limit ar - 64" for ar K
proof unfold_locales
  fix s and xs ys :: "byte list" assume s: "hmac_repr ar K s xs" and lim: "int (length xs + length ys) < sha256_limit ar - 64"
  then have "sha256_repr ar (hmac_inner s) (map (\<lambda>b. b XOR 0x36) (hmac_key K) @ xs)" by (simp add: hmac_repr_def)
  from sha.write_repr [OF this, of ys] lim s show "ok (\<lambda>s'. hmac_repr ar K s' (xs @ ys)) (secp256k1_hmac_sha256_write ar s ys)"
    by (auto simp: secp256k1_hmac_sha256_write_def hmac_repr_def ok_iff)
qed (rule hmac_finalize_repr; simp)

lemma hmac_call_ok:
  assumes "hmac_usable hmac" and "int (length key) < sha256_limit ar" and "int (length (concat ds)) < sha256_limit ar - 64"
  shows "ok (\<lambda>(h, out). hmac_usable h \<and> out = hmac_sha256 key (concat ds)) (hmac_call ar hmac key ds)"
proof -
  from assms(1) have "sha256_usable (hmac_inner hmac)" by (simp add: hmac_usable_def)
  from okD [OF hmac_initialize_repr [OF this assms(1,2)]]
  obtain h where "secp256k1_hmac_sha256_initialize ar (hmac_inner hmac) hmac key = Some h" "hmac_repr ar key h []"
    by blast
  with hmac.absorb_finalize [of ar key h ds] assms(3) show ?thesis by (simp add: hmac_call_def)
qed

lemma hmac_call_eq:
  assumes "hmac_usable hmac" and "int (length key) < sha256_limit ar" and "int (length (concat ds)) < sha256_limit ar - 64"
  obtains h where "hmac_call ar hmac key ds = Some (h, hmac_sha256 key (concat ds))" "hmac_usable h"
  using okD [OF hmac_call_ok [OF assms]] by auto

section \<open>The generator is RFC 6979's\<close>

text \<open>Step h.2: output blocks \<open>V = HMAC_K(V)\<close>.\<close>

text \<open>The candidate after \<open>n\<close> refusals, for an output of one block.\<close>

lemma rfc6979_initialize_repr:
  assumes "hmac_usable hmac" and "int (length seed) < sha256_limit ar - 200"
  shows "ok (\<lambda>rng. rng_repr rng (rfc6979_seed seed)) (secp256k1_rfc6979_hmac_sha256_initialize ar hmac rng seed)"
proof -
  let ?V = "replicate 32 (0x01 :: byte)" and ?K = "replicate 32 (0x00 :: byte)"
  note lim = assms(2) sha256_limit_ge [of ar]
  let ?K1 = "hmac_sha256 ?K (concat [?V, [0x00], seed])"
  obtain h1 where 1: "hmac_call ar hmac ?K [?V, [0x00], seed] = Some (h1, ?K1)" "hmac_usable h1"
    using lim by (rule_tac hmac_call_eq [OF assms(1), of ?K ar "[?V, [0x00], seed]"]) auto
  let ?V1 = "hmac_sha256 ?K1 (concat [?V])"
  obtain h2 where 2: "hmac_call ar h1 ?K1 [?V] = Some (h2, ?V1)" "hmac_usable h2"
    using lim by (rule_tac hmac_call_eq [OF 1(2), of ?K1 ar "[?V]"]) auto
  let ?K2 = "hmac_sha256 ?K1 (concat [?V1, [0x01], seed])"
  obtain h3 where 3: "hmac_call ar h2 ?K1 [?V1, [0x01], seed] = Some (h3, ?K2)" "hmac_usable h3"
    using lim by (rule_tac hmac_call_eq [OF 2(2), of ?K1 ar "[?V1, [0x01], seed]"]) auto
  obtain h4 where 4: "hmac_call ar h3 ?K2 [?V1] = Some (h4, hmac_sha256 ?K2 (concat [?V1]))" "hmac_usable h4"
    using lim by (rule_tac hmac_call_eq [OF 3(2), of ?K2 ar "[?V1]"]) auto
  have seed: "rfc6979_seed seed = (?K2, hmac_sha256 ?K2 (concat [?V1]))"
    by (simp add: rfc6979_seed_def Let_def)
  show ?thesis
    unfolding secp256k1_rfc6979_hmac_sha256_initialize_def Let_def seed
    by (simp only: 1 2 3 4 Option.bind.bind_lunit prod.case ok_Some) (simp add: rng_repr_def)
qed

lemma nblocks_simps:
  "0 < outlen \<Longrightarrow> outlen \<le> 32 \<Longrightarrow> nblocks outlen = 1"
  "32 < outlen \<Longrightarrow> nblocks outlen = Suc (nblocks (outlen - 32))"
  "outlen = 0 \<Longrightarrow> nblocks outlen = 0"
proof -
  assume "0 < outlen" "outlen \<le> 32"
  then have "(outlen + 31) div 32 = 1" by (intro div_pos_geq [THEN trans]) auto
  then show "nblocks outlen = 1" by (simp add: nblocks_def)
next
  assume "32 < outlen"
  have "(outlen + 31) div 32 = (outlen - 32 + 31) div 32 + 1"
    using div_add_self2 [of 32 "outlen - 32 + 31"] by simp
  with \<open>32 < outlen\<close> show "nblocks outlen = Suc (nblocks (outlen - 32))"
    by (simp add: nblocks_def nat_add_distrib)
qed (simp add: nblocks_def)

lemma rfc6979_generate_loop_ok:
  assumes "hmac_usable hmac" and "length k = 32" and "length v = 32" and "0 \<le> outlen" and "outlen < 2 ^ 31"
  shows "rfc6979_generate_loop ar hmac k v outlen out =
      Some ((hmac_sha256 k ^^ nblocks outlen) v, out @ take (nat outlen) (concat (rfc6979_blocks k v (nblocks outlen))))"
  using assms
proof (induction "nat outlen" arbitrary: hmac v outlen out rule: less_induct)
  case less
  let ?V = "hmac_sha256 k v"
  show ?case
  proof (cases "outlen > 0")
    case False
    with less.prems show ?thesis by (subst rfc6979_generate_loop.simps) (simp add: nblocks_simps(3))
  next
    case True
    obtain h where h: "hmac_call ar hmac k [v] = Some (h, ?V)" "hmac_usable h"
      using less.prems sha256_limit_ge [of ar] by (rule_tac hmac_call_eq [of hmac k ar "[v]"]) auto
    have conv: "int32 outlen = outlen" using True less.prems by simp
    show ?thesis
    proof (cases "outlen > 32")
      case True
      then have "rfc6979_generate_loop ar h k ?V (outlen - 32) (out @ ?V) = Some ((hmac_sha256 k ^^ nblocks (outlen - 32)) ?V,
          (out @ ?V) @ take (nat (outlen - 32)) (concat (rfc6979_blocks k ?V (nblocks (outlen - 32)))))"
        using less.prems h(2) by (intro less.hyps) auto
      with True show ?thesis
        by (subst rfc6979_generate_loop.simps)
          (simp add: h(1) conv take_bytes_def nblocks_simps(2) nat_diff_distrib funpow_swap1)
    next
      case False
      then have "rfc6979_generate_loop ar h k ?V 0 (out @ take (nat outlen) ?V) = Some (?V, out @ take (nat outlen) ?V)"
        by (subst rfc6979_generate_loop.simps) simp
      with True False show ?thesis
        by (subst rfc6979_generate_loop.simps) (simp add: h(1) conv take_bytes_def nblocks_simps(1))
    qed
  qed
qed

lemma rfc6979_generate_ok:
  assumes "hmac_usable hmac" and r: "rng_repr rng (K, V)" and "0 \<le> outlen" and "outlen < 2 ^ 31"
  shows "secp256k1_rfc6979_hmac_sha256_generate ar hmac rng outlen =
      Some (rng\<lparr>rng_v := (hmac_sha256 K ^^ nblocks outlen) V, rng_k := K, rng_retry := 1\<rparr>,
            take (nat outlen) (concat (rfc6979_blocks K V (nblocks outlen))))"
proof -
  have len: "length (rng_k rng) = 32" "length (rng_v rng) = 32"
    using r by (simp_all add: rng_repr_def)
  have KV: "length K = 32" "length V = 32"
    using r by (auto simp: rng_repr_def rfc6979_refused_def Let_def split: if_splits)
  note loop = rfc6979_generate_loop_ok [OF _ KV assms(3,4)]
  show ?thesis
  proof (cases "rng_retry rng = 0")
    case True
    with r have "(rng_k rng, rng_v rng) = (K, V)" by (simp add: rng_repr_def)
    with True show ?thesis
      by (simp add: secp256k1_rfc6979_hmac_sha256_generate_def loop assms(1))
  next
    case False
    with r have K: "K = hmac_sha256 (rng_k rng) (concat [rng_v rng, [0]])" and V: "V = hmac_sha256 K (concat [rng_v rng])"
      by (simp_all add: rng_repr_def rfc6979_refused_def Let_def)
    obtain h1 where h1: "hmac_call ar hmac (rng_k rng) [rng_v rng, [0]] = Some (h1, K)" "hmac_usable h1"
      unfolding K using len sha256_limit_ge [of ar] by (rule_tac hmac_call_eq [OF assms(1), of "rng_k rng" ar "[rng_v rng, [0]]"]) auto
    obtain h2 where h2: "hmac_call ar h1 K [rng_v rng] = Some (h2, V)" "hmac_usable h2"
      unfolding V using len KV sha256_limit_ge [of ar] by (rule_tac hmac_call_eq [OF h1(2), of K ar "[rng_v rng]"]) auto
    from False show ?thesis
      by (simp add: secp256k1_rfc6979_hmac_sha256_generate_def h1(1) h2(1) loop assms(1))
  qed
qed

lemma rfc6979_generate_repr:
  assumes "rng_repr rng (K, V)"
  shows "rng_repr (rng\<lparr>rng_v := (hmac_sha256 K ^^ n) V, rng_k := K, rng_retry := 1\<rparr>)
           (rfc6979_refused (K, (hmac_sha256 K ^^ n) V))"
proof -
  have "length K = 32" "length V = 32"
    using assms by (auto simp: rng_repr_def rfc6979_refused_def Let_def split: if_splits)
  then have "length ((hmac_sha256 K ^^ n) V) = 32" by (cases n) auto
  with \<open>length K = 32\<close> show ?thesis by (simp add: rng_repr_def)
qed

section \<open>The properties\<close>

text \<open>C12: Writing the pieces of any message in separate calls and finalising gives the SHA-256 digest
  of FIPS 180-4 of the message, on targets of either byte order and word size, for every message
  whose length the state can count.\<close>

theorem secp256k1_sha256_correct:
  assumes "length (sha_buf u) = 64" and "int (length (concat ds)) < sha256_limit ar"
  shows "\<exists>hash. do { hash \<leftarrow> absorb (secp256k1_sha256_write ar) (secp256k1_sha256_initialize u) ds;
                     secp256k1_sha256_finalize ar hash } = Some (hash, sha256 (concat ds))"
  using sha.absorb_finalize [OF sha256_initialize_repr [OF assms(1)] assms(2)] by (auto simp: ok_iff)

theorem secp256k1_sha256_correct_witness:
  "\<exists>hash. do { hash \<leftarrow> absorb (secp256k1_sha256_write \<lparr>little_endian = True, bits64 = True, sw_bitcount = False\<rparr>)
                  (secp256k1_sha256_initialize \<lparr>sha_s = [], sha_buf = replicate 64 0, sha_bytes = 7\<rparr>)
                  [[0x61], replicate 150 0x62, []];
               secp256k1_sha256_finalize \<lparr>little_endian = True, bits64 = True, sw_bitcount = False\<rparr> hash } =
     Some (hash, sha256 (concat [[0x61], replicate 150 0x62, []]))"
  by (rule secp256k1_sha256_correct) (simp_all add: sha256_limit_def)

text \<open>C18: Initialising with any key, writing the pieces of any message and finalising gives the
  HMAC-SHA-256 of FIPS 198-1 of the message under the key, also for keys longer than a block.\<close>

theorem secp256k1_hmac_sha256_correct:
  assumes "sha256_usable u" and "hmac_usable hash" and "int (length key) < sha256_limit ar"
    and "int (length (concat ds)) + 64 < sha256_limit ar"
  shows "\<exists>h. do { h \<leftarrow> secp256k1_hmac_sha256_initialize ar u hash key;
                  h \<leftarrow> absorb (secp256k1_hmac_sha256_write ar) h ds;
                  secp256k1_hmac_sha256_finalize ar h } = Some (h, hmac_sha256 key (concat ds))"
proof -
  obtain h where h: "secp256k1_hmac_sha256_initialize ar u hash key = Some h" "hmac_repr ar key h []"
    using okD [OF hmac_initialize_repr [OF assms(1,2,3)]] by blast
  from hmac.absorb_finalize [OF h(2), of ds] assms(4) show ?thesis by (auto simp: h(1) ok_iff)
qed

theorem secp256k1_hmac_sha256_correct_witness:
  "\<exists>h. do { h \<leftarrow> secp256k1_hmac_sha256_initialize \<lparr>little_endian = True, bits64 = False, sw_bitcount = False\<rparr>
                \<lparr>sha_s = [], sha_buf = replicate 64 0, sha_bytes = 0\<rparr>
                \<lparr>hmac_inner = \<lparr>sha_s = [], sha_buf = replicate 64 0, sha_bytes = 0\<rparr>,
                 hmac_outer = \<lparr>sha_s = [], sha_buf = replicate 64 0, sha_bytes = 0\<rparr>\<rparr> (replicate 100 0x6b);
            h \<leftarrow> absorb (secp256k1_hmac_sha256_write \<lparr>little_endian = True, bits64 = False, sw_bitcount = False\<rparr>) h [[1, 2], [3]];
            secp256k1_hmac_sha256_finalize \<lparr>little_endian = True, bits64 = False, sw_bitcount = False\<rparr> h } =
     Some (h, hmac_sha256 (replicate 100 0x6b) (concat [[1, 2], [3]]))"
  by (rule secp256k1_hmac_sha256_correct) (simp_all add: sha256_limit_def sha256_usable_def hmac_usable_def)

text \<open>C39: Requests of 2 GiB and more. The conversion to \<open>int\<close> makes the length of the last copy
  negative for 2 GiB, and zero for 4 GiB, for which the loop never ends: in neither case does the
  generator return.\<close>

theorem rfc6979_generate_overlong:
  "rfc6979_generate_loop ar hmac k v (2 ^ 31) out = None \<and> rfc6979_generate_loop ar hmac k v (2 ^ 32) out = None"
proof (rule conjI)
  show "rfc6979_generate_loop ar hmac k v (2 ^ 31) out = None"
    by (subst rfc6979_generate_loop.simps) (auto simp: int32_def split: bind_splits)
  have "outlen \<noteq> 2 ^ 32" if "rfc6979_generate_loop ar hmac k v outlen out = Some y" for outlen y
    by (rule rfc6979_generate_loop.raw_induct [where P = "\<lambda>ar hmac k v outlen out y. outlen \<noteq> 2 ^ 32", OF _ that])
      (auto simp: int32_def bind_eq_Some_conv Let_def, blast)
  then show "rfc6979_generate_loop ar hmac k v (2 ^ 32) out = None"
    by (metis not_Some_eq)
qed

end
