(* ===== verification/Secp_Scalar.thy ===== *)
theory Secp_Scalar
  imports C_Prelude
begin

text \<open>
  The arithmetic of secp256k1 modulo the order of its group, in the configuration the build selects:
  eight limbs of 32 bits (\<open>src/src/secp256k1/src/scalar_8x32_impl.h\<close>) and the addition chain for
  inverses (\<open>scalar_impl.h\<close>).

  A scalar is a record with the array \<open>d\<close> of limbs. An output parameter is a result, so a call
  with overlapping arguments is the same call: every routine reads an input limb before it writes the
  output limb of the same index. The macro \<open>extract\<close> is called \<open>extract_limb\<close>. The checks
  \<open>VERIFY_CHECK\<close> are compiled out. The last section gives the numbers that the limbs stand for.
\<close>

unbundle bit_operations_syntax

section \<open>Constants and data\<close>

text \<open>The limbs of the group order, of its complement to \<open>2 ^ 256\<close> and of half of it.\<close>

definition SECP256K1_N_0 :: u32 where "SECP256K1_N_0 = 0xD0364141"
definition SECP256K1_N_1 :: u32 where "SECP256K1_N_1 = 0xBFD25E8C"
definition SECP256K1_N_2 :: u32 where "SECP256K1_N_2 = 0xAF48A03B"
definition SECP256K1_N_3 :: u32 where "SECP256K1_N_3 = 0xBAAEDCE6"
definition SECP256K1_N_4 :: u32 where "SECP256K1_N_4 = 0xFFFFFFFE"
definition SECP256K1_N_5 :: u32 where "SECP256K1_N_5 = 0xFFFFFFFF"
definition SECP256K1_N_6 :: u32 where "SECP256K1_N_6 = 0xFFFFFFFF"
definition SECP256K1_N_7 :: u32 where "SECP256K1_N_7 = 0xFFFFFFFF"

definition SECP256K1_N_C_0 :: u32 where "SECP256K1_N_C_0 = NOT SECP256K1_N_0 + 1"
definition SECP256K1_N_C_1 :: u32 where "SECP256K1_N_C_1 = NOT SECP256K1_N_1"
definition SECP256K1_N_C_2 :: u32 where "SECP256K1_N_C_2 = NOT SECP256K1_N_2"
definition SECP256K1_N_C_3 :: u32 where "SECP256K1_N_C_3 = NOT SECP256K1_N_3"
definition SECP256K1_N_C_4 :: u32 where "SECP256K1_N_C_4 = 1"

definition SECP256K1_N_H_0 :: u32 where "SECP256K1_N_H_0 = 0x681B20A0"
definition SECP256K1_N_H_1 :: u32 where "SECP256K1_N_H_1 = 0xDFE92F46"
definition SECP256K1_N_H_2 :: u32 where "SECP256K1_N_H_2 = 0x57A4501D"
definition SECP256K1_N_H_3 :: u32 where "SECP256K1_N_H_3 = 0x5D576E73"
definition SECP256K1_N_H_4 :: u32 where "SECP256K1_N_H_4 = 0xFFFFFFFF"
definition SECP256K1_N_H_5 :: u32 where "SECP256K1_N_H_5 = 0xFFFFFFFF"
definition SECP256K1_N_H_6 :: u32 where "SECP256K1_N_H_6 = 0xFFFFFFFF"
definition SECP256K1_N_H_7 :: u32 where "SECP256K1_N_H_7 = 0x7FFFFFFF"

record secp256k1_scalar =
  scalar_d :: "u32 list"

definition secp256k1_scalar_clear :: "secp256k1_scalar \<Rightarrow> secp256k1_scalar" where
  "secp256k1_scalar_clear r = r\<lparr>scalar_d := [0, 0, 0, 0, 0, 0, 0, 0]\<rparr>"

definition secp256k1_scalar_set_int :: "secp256k1_scalar \<Rightarrow> u32 \<Rightarrow> secp256k1_scalar" where
  "secp256k1_scalar_set_int r v = r\<lparr>scalar_d := [v, 0, 0, 0, 0, 0, 0, 0]\<rparr>"

text \<open>Reading a limb: outside the array is a fault.\<close>

definition limb_at :: "u32 list \<Rightarrow> nat \<Rightarrow> u32 option" where
  "limb_at d i = (if i < length d then Some (d ! i) else None)"

text \<open>The mask of \<open>get_bits\<close> is computed in \<open>int\<close>: the shift \<open>1 << count\<close> overflows from 31 on, which is a
  fault. \<open>get_bits_var\<close> computes its own mask in \<open>uint32_t\<close>.\<close>

definition secp256k1_scalar_get_bits :: "secp256k1_scalar \<Rightarrow> nat \<Rightarrow> nat \<Rightarrow> u32 option" where
  "secp256k1_scalar_get_bits a offset count =
     do { x \<leftarrow> limb_at (scalar_d a) (offset div 32);
          if count < 31 then Some (drop_bit (offset mod 32) x AND word_of_int (2 ^ count - 1)) else None }"

definition secp256k1_scalar_get_bits_var :: "secp256k1_scalar \<Rightarrow> nat \<Rightarrow> nat \<Rightarrow> u32 option" where
  "secp256k1_scalar_get_bits_var a offset count =
     (if (offset + count - 1) div 32 = offset div 32 then secp256k1_scalar_get_bits a offset count
      else do { x \<leftarrow> limb_at (scalar_d a) (offset div 32);
                y \<leftarrow> limb_at (scalar_d a) (offset div 32 + 1);
                Some ((drop_bit (offset mod 32) x OR push_bit (32 - offset mod 32) y) AND (push_bit count 1 - 1)) })"

section \<open>Reduction by the order and addition\<close>

text \<open>The comparison keeps its two flags as integers and combines them with bit operations, to be
  free of branches.\<close>

definition secp256k1_scalar_check_overflow :: "secp256k1_scalar \<Rightarrow> int" where
  "secp256k1_scalar_check_overflow a =
     (let d = scalar_d a; yes = 0; no = 0;
          no = no OR of_bool (d ! 7 < SECP256K1_N_7);
          no = no OR of_bool (d ! 6 < SECP256K1_N_6);
          no = no OR of_bool (d ! 5 < SECP256K1_N_5);
          no = no OR of_bool (d ! 4 < SECP256K1_N_4);
          yes = yes OR (of_bool (d ! 4 > SECP256K1_N_4) AND NOT no);
          no = no OR (of_bool (d ! 3 < SECP256K1_N_3) AND NOT yes);
          yes = yes OR (of_bool (d ! 3 > SECP256K1_N_3) AND NOT no);
          no = no OR (of_bool (d ! 2 < SECP256K1_N_2) AND NOT yes);
          yes = yes OR (of_bool (d ! 2 > SECP256K1_N_2) AND NOT no);
          no = no OR (of_bool (d ! 1 < SECP256K1_N_1) AND NOT yes);
          yes = yes OR (of_bool (d ! 1 > SECP256K1_N_1) AND NOT no);
          yes = yes OR (of_bool (d ! 0 \<ge> SECP256K1_N_0) AND NOT no)
      in yes)"

text \<open>The three statements that the carry chains repeat for every limb: add to the 64-bit
  accumulator \<open>t\<close>, store its low half under a mask, shift it down.\<close>

fun limbs :: "u64 \<Rightarrow> u64 \<Rightarrow> u64 list \<Rightarrow> u32 list \<times> u64" where
  "limbs m t [] = ([], t)"
| "limbs m t (x # xs) =
     (let t = t + x; r = ucast (t AND m); t = drop_bit 32 t; (rs, t) = limbs m t xs in (r # rs, t))"

definition secp256k1_scalar_reduce :: "secp256k1_scalar \<Rightarrow> u32 \<Rightarrow> secp256k1_scalar \<times> u32" where
  "secp256k1_scalar_reduce r overflow =
     (let d = scalar_d r;
          (d, t) = limbs 0xFFFFFFFF 0
            [ucast (d ! 0) + ucast (overflow * SECP256K1_N_C_0),
             ucast (d ! 1) + ucast (overflow * SECP256K1_N_C_1),
             ucast (d ! 2) + ucast (overflow * SECP256K1_N_C_2),
             ucast (d ! 3) + ucast (overflow * SECP256K1_N_C_3),
             ucast (d ! 4) + ucast (overflow * SECP256K1_N_C_4),
             ucast (d ! 5), ucast (d ! 6), ucast (d ! 7)]
      in (r\<lparr>scalar_d := d\<rparr>, overflow))"

definition secp256k1_scalar_add :: "secp256k1_scalar \<Rightarrow> secp256k1_scalar \<Rightarrow> secp256k1_scalar \<times> int" where
  "secp256k1_scalar_add x y =
     (let a = scalar_d x; b = scalar_d y;
          (r, t) = limbs 0xFFFFFFFF 0
            [ucast (a ! 0) + ucast (b ! 0), ucast (a ! 1) + ucast (b ! 1),
             ucast (a ! 2) + ucast (b ! 2), ucast (a ! 3) + ucast (b ! 3),
             ucast (a ! 4) + ucast (b ! 4), ucast (a ! 5) + ucast (b ! 5),
             ucast (a ! 6) + ucast (b ! 6), ucast (a ! 7) + ucast (b ! 7)];
          overflow = int32 (uint t + secp256k1_scalar_check_overflow \<lparr>scalar_d = r\<rparr>)
      in (fst (secp256k1_scalar_reduce \<lparr>scalar_d = r\<rparr> (word_of_int overflow)), overflow))"

definition secp256k1_scalar_cadd_bit :: "secp256k1_scalar \<Rightarrow> u32 \<Rightarrow> int \<Rightarrow> secp256k1_scalar" where
  "secp256k1_scalar_cadd_bit r bitno flag =
     (let d = scalar_d r;
          bitno = bitno + ((word_of_int flag - 1) AND 0x100);
          term = (\<lambda>i. ucast (push_bit (unat (bitno AND 0x1F)) (of_bool (drop_bit 5 bitno = i)) :: u32));
          (d, t) = limbs 0xFFFFFFFF 0
            [ucast (d ! 0) + term 0, ucast (d ! 1) + term 1, ucast (d ! 2) + term 2, ucast (d ! 3) + term 3,
             ucast (d ! 4) + term 4, ucast (d ! 5) + term 5, ucast (d ! 6) + term 6, ucast (d ! 7) + term 7]
      in r\<lparr>scalar_d := d\<rparr>)"

section \<open>Bytes\<close>

definition secp256k1_scalar_set_b32 :: "byte list \<Rightarrow> secp256k1_scalar \<times> u32" where
  "secp256k1_scalar_set_b32 b32 =
     (let w = (\<lambda>i. ucast (b32 ! (i + 3)) OR push_bit 8 (ucast (b32 ! (i + 2))) OR
                   push_bit 16 (ucast (b32 ! (i + 1))) OR push_bit 24 (ucast (b32 ! i)));
          r = \<lparr>scalar_d = [w 28, w 24, w 20, w 16, w 12, w 8, w 4, w 0]\<rparr>
      in secp256k1_scalar_reduce r (word_of_int (secp256k1_scalar_check_overflow r)))"

definition secp256k1_scalar_get_b32 :: "secp256k1_scalar \<Rightarrow> byte list" where
  "secp256k1_scalar_get_b32 a =
     (let d = scalar_d a;
          w = (\<lambda>i. [ucast (drop_bit 24 (d ! i)), ucast (drop_bit 16 (d ! i)), ucast (drop_bit 8 (d ! i)), ucast (d ! i)])
      in w 7 @ w 6 @ w 5 @ w 4 @ w 3 @ w 2 @ w 1 @ w 0)"

section \<open>Tests and negation\<close>

definition secp256k1_scalar_is_zero :: "secp256k1_scalar \<Rightarrow> bool" where
  "secp256k1_scalar_is_zero a =
     (let d = scalar_d a
      in (d ! 0 OR d ! 1 OR d ! 2 OR d ! 3 OR d ! 4 OR d ! 5 OR d ! 6 OR d ! 7) = 0)"

definition secp256k1_scalar_negate :: "secp256k1_scalar \<Rightarrow> secp256k1_scalar" where
  "secp256k1_scalar_negate a =
     (let d = scalar_d a;
          nonzero = 0xFFFFFFFF * of_bool (\<not> secp256k1_scalar_is_zero a) :: u32;
          (r, t) = limbs (ucast nonzero) 0
            [ucast (NOT (d ! 0)) + ucast SECP256K1_N_0 + 1, ucast (NOT (d ! 1)) + ucast SECP256K1_N_1,
             ucast (NOT (d ! 2)) + ucast SECP256K1_N_2, ucast (NOT (d ! 3)) + ucast SECP256K1_N_3,
             ucast (NOT (d ! 4)) + ucast SECP256K1_N_4, ucast (NOT (d ! 5)) + ucast SECP256K1_N_5,
             ucast (NOT (d ! 6)) + ucast SECP256K1_N_6, ucast (NOT (d ! 7)) + ucast SECP256K1_N_7]
      in \<lparr>scalar_d = r\<rparr>)"

definition secp256k1_scalar_is_one :: "secp256k1_scalar \<Rightarrow> bool" where
  "secp256k1_scalar_is_one a =
     (let d = scalar_d a
      in ((d ! 0 XOR 1) OR d ! 1 OR d ! 2 OR d ! 3 OR d ! 4 OR d ! 5 OR d ! 6 OR d ! 7) = 0)"

definition secp256k1_scalar_is_high :: "secp256k1_scalar \<Rightarrow> int" where
  "secp256k1_scalar_is_high a =
     (let d = scalar_d a; yes = 0; no = 0;
          no = no OR of_bool (d ! 7 < SECP256K1_N_H_7);
          yes = yes OR (of_bool (d ! 7 > SECP256K1_N_H_7) AND NOT no);
          no = no OR (of_bool (d ! 6 < SECP256K1_N_H_6) AND NOT yes);
          no = no OR (of_bool (d ! 5 < SECP256K1_N_H_5) AND NOT yes);
          no = no OR (of_bool (d ! 4 < SECP256K1_N_H_4) AND NOT yes);
          no = no OR (of_bool (d ! 3 < SECP256K1_N_H_3) AND NOT yes);
          yes = yes OR (of_bool (d ! 3 > SECP256K1_N_H_3) AND NOT no);
          no = no OR (of_bool (d ! 2 < SECP256K1_N_H_2) AND NOT yes);
          yes = yes OR (of_bool (d ! 2 > SECP256K1_N_H_2) AND NOT no);
          no = no OR (of_bool (d ! 1 < SECP256K1_N_H_1) AND NOT yes);
          yes = yes OR (of_bool (d ! 1 > SECP256K1_N_H_1) AND NOT no);
          yes = yes OR (of_bool (d ! 0 > SECP256K1_N_H_0) AND NOT no)
      in yes)"

definition secp256k1_scalar_cond_negate :: "secp256k1_scalar \<Rightarrow> int \<Rightarrow> secp256k1_scalar \<times> int" where
  "secp256k1_scalar_cond_negate r flag =
     (let d = scalar_d r;
          mask = of_bool (flag = 0) - 1 :: u32;
          nonzero = 0xFFFFFFFF * of_bool (\<not> secp256k1_scalar_is_zero r) :: u32;
          (d, t) = limbs (ucast nonzero) 0
            [ucast (d ! 0 XOR mask) + ucast ((SECP256K1_N_0 + 1) AND mask), ucast (d ! 1 XOR mask) + ucast (SECP256K1_N_1 AND mask),
             ucast (d ! 2 XOR mask) + ucast (SECP256K1_N_2 AND mask), ucast (d ! 3 XOR mask) + ucast (SECP256K1_N_3 AND mask),
             ucast (d ! 4 XOR mask) + ucast (SECP256K1_N_4 AND mask), ucast (d ! 5 XOR mask) + ucast (SECP256K1_N_5 AND mask),
             ucast (d ! 6 XOR mask) + ucast (SECP256K1_N_6 AND mask), ucast (d ! 7 XOR mask) + ucast (SECP256K1_N_7 AND mask)]
      in (r\<lparr>scalar_d := d\<rparr>, 2 * of_bool (mask = 0) - 1))"

section \<open>Multiplication\<close>

text \<open>The 96-bit accumulator \<open>(c0, c1, c2)\<close> and the macros on it.\<close>

type_synonym accu = "u32 \<times> u32 \<times> u32"

definition muladd :: "u32 \<Rightarrow> u32 \<Rightarrow> accu \<Rightarrow> accu" where
  "muladd a b = (\<lambda>(c0, c1, c2).
     (let t = ucast a * ucast b :: u64; th = ucast (drop_bit 32 t); tl = ucast t;
          c0 = c0 + tl;
          th = th + (if c0 < tl then 1 else 0);
          c1 = c1 + th;
          c2 = c2 + (if c1 < th then 1 else 0)
      in (c0, c1, c2)))"

definition muladd_fast :: "u32 \<Rightarrow> u32 \<Rightarrow> accu \<Rightarrow> accu" where
  "muladd_fast a b = (\<lambda>(c0, c1, c2).
     (let t = ucast a * ucast b :: u64; th = ucast (drop_bit 32 t); tl = ucast t;
          c0 = c0 + tl;
          th = th + (if c0 < tl then 1 else 0);
          c1 = c1 + th
      in (c0, c1, c2)))"

definition muladd2 :: "u32 \<Rightarrow> u32 \<Rightarrow> accu \<Rightarrow> accu" where
  "muladd2 a b = (\<lambda>(c0, c1, c2).
     (let t = ucast a * ucast b :: u64; th = ucast (drop_bit 32 t); tl = ucast t;
          th2 = th + th;
          c2 = c2 + (if th2 < th then 1 else 0);
          tl2 = tl + tl;
          th2 = th2 + (if tl2 < tl then 1 else 0);
          c0 = c0 + tl2;
          th2 = th2 + (if c0 < tl2 then 1 else 0);
          c2 = c2 + (of_bool (c0 < tl2) AND of_bool (th2 = 0));
          c1 = c1 + th2;
          c2 = c2 + (if c1 < th2 then 1 else 0)
      in (c0, c1, c2)))"

definition sumadd :: "u32 \<Rightarrow> accu \<Rightarrow> accu" where
  "sumadd a = (\<lambda>(c0, c1, c2).
     (let c0 = c0 + a;
          over = (if c0 < a then 1 else 0);
          c1 = c1 + over;
          c2 = c2 + (if c1 < over then 1 else 0)
      in (c0, c1, c2)))"

definition sumadd_fast :: "u32 \<Rightarrow> accu \<Rightarrow> accu" where
  "sumadd_fast a = (\<lambda>(c0, c1, c2).
     (let c0 = c0 + a; c1 = c1 + (if c0 < a then 1 else 0) in (c0, c1, c2)))"

definition extract_limb :: "accu \<Rightarrow> u32 \<times> accu" where
  "extract_limb = (\<lambda>(c0, c1, c2). (c0, (c1, c2, 0)))"

definition extract_fast :: "accu \<Rightarrow> u32 \<times> accu" where
  "extract_fast = (\<lambda>(c0, c1, c2). (c0, (c1, 0, c2)))"

text \<open>The straight-line code of the multiplications is a sequence of columns: macro calls on the
  accumulator and then one extraction into the next limb of the result. A column is written as the
  list of its calls.\<close>

datatype accu_op = Muladd u32 u32 | Muladd_fast u32 u32 | Muladd2 u32 u32 | Sumadd u32 | Sumadd_fast u32

fun run_op :: "accu_op \<Rightarrow> accu \<Rightarrow> accu" where
  "run_op (Muladd a b) c = muladd a b c"
| "run_op (Muladd_fast a b) c = muladd_fast a b c"
| "run_op (Muladd2 a b) c = muladd2 a b c"
| "run_op (Sumadd a) c = sumadd a c"
| "run_op (Sumadd_fast a) c = sumadd_fast a c"

datatype accu_column = Extract "accu_op list" | Extract_fast "accu_op list"

fun run_column :: "accu_column \<Rightarrow> accu \<Rightarrow> u32 \<times> accu" where
  "run_column (Extract ops) c = extract_limb (fold run_op ops c)"
| "run_column (Extract_fast ops) c = extract_fast (fold run_op ops c)"

fun columns :: "accu_column list \<Rightarrow> accu \<Rightarrow> u32 list \<times> accu" where
  "columns [] c = ([], c)"
| "columns (col # cols) c = (let (n, c) = run_column col c; (ns, c) = columns cols c in (n # ns, c))"

text \<open>The columns, and what is left in \<open>c0\<close> as the last limb.\<close>

definition run_columns :: "accu_column list \<Rightarrow> accu \<Rightarrow> u32 list" where
  "run_columns cols c = (case columns cols c of (ns, c0, c1, c2) \<Rightarrow> ns @ [c0])"

text \<open>\<open>secp256k1_scalar_reduce_512\<close>, in the source's three parts: 512 bits into 385, 385 into
  258, and 258 into 256 with the final reduction.\<close>

definition reduce_512_columns :: "u32 list \<Rightarrow> accu_column list" where
  "reduce_512_columns l =
     (let n0 = l ! 8; n1 = l ! 9; n2 = l ! 10; n3 = l ! 11; n4 = l ! 12; n5 = l ! 13; n6 = l ! 14; n7 = l ! 15
      in [Extract_fast [Muladd_fast n0 SECP256K1_N_C_0],
          Extract [Sumadd_fast (l ! 1), Muladd n1 SECP256K1_N_C_0, Muladd n0 SECP256K1_N_C_1],
          Extract [Sumadd (l ! 2), Muladd n2 SECP256K1_N_C_0, Muladd n1 SECP256K1_N_C_1, Muladd n0 SECP256K1_N_C_2],
          Extract [Sumadd (l ! 3), Muladd n3 SECP256K1_N_C_0, Muladd n2 SECP256K1_N_C_1, Muladd n1 SECP256K1_N_C_2,
            Muladd n0 SECP256K1_N_C_3],
          Extract [Sumadd (l ! 4), Muladd n4 SECP256K1_N_C_0, Muladd n3 SECP256K1_N_C_1, Muladd n2 SECP256K1_N_C_2,
            Muladd n1 SECP256K1_N_C_3, Sumadd n0],
          Extract [Sumadd (l ! 5), Muladd n5 SECP256K1_N_C_0, Muladd n4 SECP256K1_N_C_1, Muladd n3 SECP256K1_N_C_2,
            Muladd n2 SECP256K1_N_C_3, Sumadd n1],
          Extract [Sumadd (l ! 6), Muladd n6 SECP256K1_N_C_0, Muladd n5 SECP256K1_N_C_1, Muladd n4 SECP256K1_N_C_2,
            Muladd n3 SECP256K1_N_C_3, Sumadd n2],
          Extract [Sumadd (l ! 7), Muladd n7 SECP256K1_N_C_0, Muladd n6 SECP256K1_N_C_1, Muladd n5 SECP256K1_N_C_2,
            Muladd n4 SECP256K1_N_C_3, Sumadd n3],
          Extract [Muladd n7 SECP256K1_N_C_1, Muladd n6 SECP256K1_N_C_2, Muladd n5 SECP256K1_N_C_3, Sumadd n4],
          Extract [Muladd n7 SECP256K1_N_C_2, Muladd n6 SECP256K1_N_C_3, Sumadd n5],
          Extract [Muladd n7 SECP256K1_N_C_3, Sumadd n6],
          Extract_fast [Sumadd_fast n7]])"

definition reduce_385_columns :: "u32 list \<Rightarrow> accu_column list" where
  "reduce_385_columns m =
     (let m1 = m ! 1; m2 = m ! 2; m3 = m ! 3;
          m4 = m ! 4; m5 = m ! 5; m6 = m ! 6; m7 = m ! 7;
          m8 = m ! 8; m9 = m ! 9; m10 = m ! 10; m11 = m ! 11; m12 = m ! 12
      in [Extract_fast [Muladd_fast m8 SECP256K1_N_C_0],
          Extract [Sumadd_fast m1, Muladd m9 SECP256K1_N_C_0, Muladd m8 SECP256K1_N_C_1],
          Extract [Sumadd m2, Muladd m10 SECP256K1_N_C_0, Muladd m9 SECP256K1_N_C_1, Muladd m8 SECP256K1_N_C_2],
          Extract [Sumadd m3, Muladd m11 SECP256K1_N_C_0, Muladd m10 SECP256K1_N_C_1, Muladd m9 SECP256K1_N_C_2,
            Muladd m8 SECP256K1_N_C_3],
          Extract [Sumadd m4, Muladd m12 SECP256K1_N_C_0, Muladd m11 SECP256K1_N_C_1, Muladd m10 SECP256K1_N_C_2,
            Muladd m9 SECP256K1_N_C_3, Sumadd m8],
          Extract [Sumadd m5, Muladd m12 SECP256K1_N_C_1, Muladd m11 SECP256K1_N_C_2, Muladd m10 SECP256K1_N_C_3,
            Sumadd m9],
          Extract [Sumadd m6, Muladd m12 SECP256K1_N_C_2, Muladd m11 SECP256K1_N_C_3, Sumadd m10],
          Extract_fast [Sumadd_fast m7, Muladd_fast m12 SECP256K1_N_C_3, Sumadd_fast m11]])"

definition scalar_reduce_512_385 :: "u32 list \<Rightarrow> u32 list" where
  "scalar_reduce_512_385 l = run_columns (reduce_512_columns l) (l ! 0, 0, 0)"

definition scalar_reduce_385_258 :: "u32 list \<Rightarrow> u32 list" where
  "scalar_reduce_385_258 m =
     (let p = run_columns (reduce_385_columns m) (m ! 0, 0, 0) in p[8 := p ! 8 + m ! 12])"

definition secp256k1_scalar_reduce_512 :: "u32 list \<Rightarrow> secp256k1_scalar" where
  "secp256k1_scalar_reduce_512 l =
     (let p = scalar_reduce_385_258 (scalar_reduce_512_385 l); p8 = ucast (p ! 8);
          (r, c) = limbs 0xFFFFFFFF 0
            [ucast (p ! 0) + ucast SECP256K1_N_C_0 * p8, ucast (p ! 1) + ucast SECP256K1_N_C_1 * p8,
             ucast (p ! 2) + ucast SECP256K1_N_C_2 * p8, ucast (p ! 3) + ucast SECP256K1_N_C_3 * p8,
             ucast (p ! 4) + p8, ucast (p ! 5), ucast (p ! 6), ucast (p ! 7)]
      in fst (secp256k1_scalar_reduce \<lparr>scalar_d = r\<rparr> (ucast c + word_of_int (secp256k1_scalar_check_overflow \<lparr>scalar_d = r\<rparr>))))"

definition mul_512_columns :: "u32 list \<Rightarrow> u32 list \<Rightarrow> accu_column list" where
  "mul_512_columns a b =
         [Extract_fast [Muladd_fast (a ! 0) (b ! 0)],
          Extract [Muladd (a ! 0) (b ! 1), Muladd (a ! 1) (b ! 0)],
          Extract [Muladd (a ! 0) (b ! 2), Muladd (a ! 1) (b ! 1), Muladd (a ! 2) (b ! 0)],
          Extract [Muladd (a ! 0) (b ! 3), Muladd (a ! 1) (b ! 2), Muladd (a ! 2) (b ! 1), Muladd (a ! 3) (b ! 0)],
          Extract [Muladd (a ! 0) (b ! 4), Muladd (a ! 1) (b ! 3), Muladd (a ! 2) (b ! 2), Muladd (a ! 3) (b ! 1),
            Muladd (a ! 4) (b ! 0)],
          Extract [Muladd (a ! 0) (b ! 5), Muladd (a ! 1) (b ! 4), Muladd (a ! 2) (b ! 3), Muladd (a ! 3) (b ! 2),
            Muladd (a ! 4) (b ! 1), Muladd (a ! 5) (b ! 0)],
          Extract [Muladd (a ! 0) (b ! 6), Muladd (a ! 1) (b ! 5), Muladd (a ! 2) (b ! 4), Muladd (a ! 3) (b ! 3),
            Muladd (a ! 4) (b ! 2), Muladd (a ! 5) (b ! 1), Muladd (a ! 6) (b ! 0)],
          Extract [Muladd (a ! 0) (b ! 7), Muladd (a ! 1) (b ! 6), Muladd (a ! 2) (b ! 5), Muladd (a ! 3) (b ! 4),
            Muladd (a ! 4) (b ! 3), Muladd (a ! 5) (b ! 2), Muladd (a ! 6) (b ! 1), Muladd (a ! 7) (b ! 0)],
          Extract [Muladd (a ! 1) (b ! 7), Muladd (a ! 2) (b ! 6), Muladd (a ! 3) (b ! 5), Muladd (a ! 4) (b ! 4),
            Muladd (a ! 5) (b ! 3), Muladd (a ! 6) (b ! 2), Muladd (a ! 7) (b ! 1)],
          Extract [Muladd (a ! 2) (b ! 7), Muladd (a ! 3) (b ! 6), Muladd (a ! 4) (b ! 5), Muladd (a ! 5) (b ! 4),
            Muladd (a ! 6) (b ! 3), Muladd (a ! 7) (b ! 2)],
          Extract [Muladd (a ! 3) (b ! 7), Muladd (a ! 4) (b ! 6), Muladd (a ! 5) (b ! 5), Muladd (a ! 6) (b ! 4),
            Muladd (a ! 7) (b ! 3)],
          Extract [Muladd (a ! 4) (b ! 7), Muladd (a ! 5) (b ! 6), Muladd (a ! 6) (b ! 5), Muladd (a ! 7) (b ! 4)],
          Extract [Muladd (a ! 5) (b ! 7), Muladd (a ! 6) (b ! 6), Muladd (a ! 7) (b ! 5)],
          Extract [Muladd (a ! 6) (b ! 7), Muladd (a ! 7) (b ! 6)],
          Extract_fast [Muladd_fast (a ! 7) (b ! 7)]]"

definition secp256k1_scalar_mul_512 :: "secp256k1_scalar \<Rightarrow> secp256k1_scalar \<Rightarrow> u32 list" where
  "secp256k1_scalar_mul_512 a b = run_columns (mul_512_columns (scalar_d a) (scalar_d b)) (0, 0, 0)"

definition sqr_512_columns :: "u32 list \<Rightarrow> accu_column list" where
  "sqr_512_columns a =
         [Extract_fast [Muladd_fast (a ! 0) (a ! 0)],
          Extract [Muladd2 (a ! 0) (a ! 1)],
          Extract [Muladd2 (a ! 0) (a ! 2), Muladd (a ! 1) (a ! 1)],
          Extract [Muladd2 (a ! 0) (a ! 3), Muladd2 (a ! 1) (a ! 2)],
          Extract [Muladd2 (a ! 0) (a ! 4), Muladd2 (a ! 1) (a ! 3), Muladd (a ! 2) (a ! 2)],
          Extract [Muladd2 (a ! 0) (a ! 5), Muladd2 (a ! 1) (a ! 4), Muladd2 (a ! 2) (a ! 3)],
          Extract [Muladd2 (a ! 0) (a ! 6), Muladd2 (a ! 1) (a ! 5), Muladd2 (a ! 2) (a ! 4), Muladd (a ! 3) (a ! 3)],
          Extract [Muladd2 (a ! 0) (a ! 7), Muladd2 (a ! 1) (a ! 6), Muladd2 (a ! 2) (a ! 5), Muladd2 (a ! 3) (a ! 4)],
          Extract [Muladd2 (a ! 1) (a ! 7), Muladd2 (a ! 2) (a ! 6), Muladd2 (a ! 3) (a ! 5), Muladd (a ! 4) (a ! 4)],
          Extract [Muladd2 (a ! 2) (a ! 7), Muladd2 (a ! 3) (a ! 6), Muladd2 (a ! 4) (a ! 5)],
          Extract [Muladd2 (a ! 3) (a ! 7), Muladd2 (a ! 4) (a ! 6), Muladd (a ! 5) (a ! 5)],
          Extract [Muladd2 (a ! 4) (a ! 7), Muladd2 (a ! 5) (a ! 6)],
          Extract [Muladd2 (a ! 5) (a ! 7), Muladd (a ! 6) (a ! 6)],
          Extract [Muladd2 (a ! 6) (a ! 7)],
          Extract_fast [Muladd_fast (a ! 7) (a ! 7)]]"

definition secp256k1_scalar_sqr_512 :: "secp256k1_scalar \<Rightarrow> u32 list" where
  "secp256k1_scalar_sqr_512 a = run_columns (sqr_512_columns (scalar_d a)) (0, 0, 0)"

definition secp256k1_scalar_mul :: "secp256k1_scalar \<Rightarrow> secp256k1_scalar \<Rightarrow> secp256k1_scalar" where
  "secp256k1_scalar_mul a b = secp256k1_scalar_reduce_512 (secp256k1_scalar_mul_512 a b)"

definition secp256k1_scalar_shr_int :: "secp256k1_scalar \<Rightarrow> nat \<Rightarrow> secp256k1_scalar \<times> u32" where
  "secp256k1_scalar_shr_int r n =
     (let d = scalar_d r;
          ret = d ! 0 AND (push_bit n 1 - 1);
          sh = (\<lambda>i. drop_bit n (d ! i) + push_bit (32 - n) (d ! (i + 1)))
      in (r\<lparr>scalar_d := [sh 0, sh 1, sh 2, sh 3, sh 4, sh 5, sh 6, drop_bit n (d ! 7)]\<rparr>, ret))"

definition secp256k1_scalar_sqr :: "secp256k1_scalar \<Rightarrow> secp256k1_scalar" where
  "secp256k1_scalar_sqr a = secp256k1_scalar_reduce_512 (secp256k1_scalar_sqr_512 a)"

definition secp256k1_scalar_eq :: "secp256k1_scalar \<Rightarrow> secp256k1_scalar \<Rightarrow> bool" where
  "secp256k1_scalar_eq x y =
     (let a = scalar_d x; b = scalar_d y
      in ((a ! 0 XOR b ! 0) OR (a ! 1 XOR b ! 1) OR (a ! 2 XOR b ! 2) OR (a ! 3 XOR b ! 3) OR
          (a ! 4 XOR b ! 4) OR (a ! 5 XOR b ! 5) OR (a ! 6 XOR b ! 6) OR (a ! 7 XOR b ! 7)) = 0)"

text \<open>\<open>secp256k1_scalar_mul_shift_var\<close>: the limbs of the shifted product, as far as the shift
  leaves any, and rounding by the last bit shifted out.\<close>

definition mul_shift_limbs :: "u32 list \<Rightarrow> nat \<Rightarrow> u32 list" where
  "mul_shift_limbs l shift =
     (let shiftlimbs = shift div 32; shiftlow = shift mod 32; shifthigh = 32 - shiftlow;
          limb = (\<lambda>i lim. if shift < lim
                   then drop_bit shiftlow (l ! (i + shiftlimbs)) OR
                        (if shift < lim - 32 \<and> shiftlow \<noteq> 0 then push_bit shifthigh (l ! (i + 1 + shiftlimbs)) else 0)
                   else 0)
      in [limb 0 512, limb 1 480, limb 2 448, limb 3 416, limb 4 384, limb 5 352, limb 6 320,
          if shift < 288 then drop_bit shiftlow (l ! (7 + shiftlimbs)) else 0])"

definition secp256k1_scalar_mul_shift_var :: "secp256k1_scalar \<Rightarrow> secp256k1_scalar \<Rightarrow> nat \<Rightarrow> secp256k1_scalar" where
  "secp256k1_scalar_mul_shift_var a b shift =
     (let l = secp256k1_scalar_mul_512 a b; r = \<lparr>scalar_d = mul_shift_limbs l shift\<rparr>
      in secp256k1_scalar_cadd_bit r 0 (uint (drop_bit ((shift - 1) mod 32) (l ! ((shift - 1) div 32)) AND 1)))"

section \<open>Inversion\<close>

text \<open>\<open>secp256k1_scalar_inverse\<close> of \<open>scalar_impl.h\<close>: an addition chain. A loop of
  \<open>k\<close> squarings is the \<open>k\<close>-fold iterate.\<close>

definition secp256k1_scalar_inverse :: "secp256k1_scalar \<Rightarrow> secp256k1_scalar" where
  "secp256k1_scalar_inverse x =
     (let x2 = secp256k1_scalar_sqr x; x2 = secp256k1_scalar_mul x2 x;
          x3 = secp256k1_scalar_sqr x2; x3 = secp256k1_scalar_mul x3 x;
          x4 = secp256k1_scalar_sqr x3; x4 = secp256k1_scalar_mul x4 x;
          x6 = secp256k1_scalar_sqr x4; x6 = secp256k1_scalar_sqr x6;
          x6 = secp256k1_scalar_mul x6 x2; x7 = secp256k1_scalar_sqr x6;
          x7 = secp256k1_scalar_mul x7 x; x8 = secp256k1_scalar_sqr x7;
          x8 = secp256k1_scalar_mul x8 x; x15 = secp256k1_scalar_sqr x8;
          x15 = (secp256k1_scalar_sqr ^^ 6) x15; x15 = secp256k1_scalar_mul x15 x7;
          x30 = secp256k1_scalar_sqr x15; x30 = (secp256k1_scalar_sqr ^^ 14) x30;
          x30 = secp256k1_scalar_mul x30 x15; x60 = secp256k1_scalar_sqr x30;
          x60 = (secp256k1_scalar_sqr ^^ 29) x60; x60 = secp256k1_scalar_mul x60 x30;
          x120 = secp256k1_scalar_sqr x60; x120 = (secp256k1_scalar_sqr ^^ 59) x120;
          x120 = secp256k1_scalar_mul x120 x60; x127 = secp256k1_scalar_sqr x120;
          x127 = (secp256k1_scalar_sqr ^^ 6) x127; x127 = secp256k1_scalar_mul x127 x7;
          t = x127; t = (secp256k1_scalar_sqr ^^ 2) t;
          t = secp256k1_scalar_mul t x; t = (secp256k1_scalar_sqr ^^ 4) t;
          t = secp256k1_scalar_mul t x3; t = (secp256k1_scalar_sqr ^^ 2) t;
          t = secp256k1_scalar_mul t x; t = (secp256k1_scalar_sqr ^^ 2) t;
          t = secp256k1_scalar_mul t x; t = (secp256k1_scalar_sqr ^^ 2) t;
          t = secp256k1_scalar_mul t x; t = (secp256k1_scalar_sqr ^^ 4) t;
          t = secp256k1_scalar_mul t x3; t = (secp256k1_scalar_sqr ^^ 3) t;
          t = secp256k1_scalar_mul t x2; t = (secp256k1_scalar_sqr ^^ 4) t;
          t = secp256k1_scalar_mul t x3; t = (secp256k1_scalar_sqr ^^ 5) t;
          t = secp256k1_scalar_mul t x3; t = (secp256k1_scalar_sqr ^^ 4) t;
          t = secp256k1_scalar_mul t x2; t = (secp256k1_scalar_sqr ^^ 2) t;
          t = secp256k1_scalar_mul t x; t = (secp256k1_scalar_sqr ^^ 2) t;
          t = secp256k1_scalar_mul t x; t = (secp256k1_scalar_sqr ^^ 5) t;
          t = secp256k1_scalar_mul t x4; t = (secp256k1_scalar_sqr ^^ 2) t;
          t = secp256k1_scalar_mul t x; t = (secp256k1_scalar_sqr ^^ 3) t;
          t = secp256k1_scalar_mul t x; t = (secp256k1_scalar_sqr ^^ 4) t;
          t = secp256k1_scalar_mul t x; t = (secp256k1_scalar_sqr ^^ 2) t;
          t = secp256k1_scalar_mul t x; t = (secp256k1_scalar_sqr ^^ 10) t;
          t = secp256k1_scalar_mul t x3; t = (secp256k1_scalar_sqr ^^ 4) t;
          t = secp256k1_scalar_mul t x3; t = (secp256k1_scalar_sqr ^^ 9) t;
          t = secp256k1_scalar_mul t x8; t = (secp256k1_scalar_sqr ^^ 2) t;
          t = secp256k1_scalar_mul t x; t = (secp256k1_scalar_sqr ^^ 3) t;
          t = secp256k1_scalar_mul t x; t = (secp256k1_scalar_sqr ^^ 3) t;
          t = secp256k1_scalar_mul t x; t = (secp256k1_scalar_sqr ^^ 5) t;
          t = secp256k1_scalar_mul t x4; t = (secp256k1_scalar_sqr ^^ 2) t;
          t = secp256k1_scalar_mul t x; t = (secp256k1_scalar_sqr ^^ 5) t;
          t = secp256k1_scalar_mul t x2; t = (secp256k1_scalar_sqr ^^ 4) t;
          t = secp256k1_scalar_mul t x2; t = (secp256k1_scalar_sqr ^^ 2) t;
          t = secp256k1_scalar_mul t x; t = (secp256k1_scalar_sqr ^^ 8) t;
          t = secp256k1_scalar_mul t x2; t = (secp256k1_scalar_sqr ^^ 3) t;
          t = secp256k1_scalar_mul t x2; t = (secp256k1_scalar_sqr ^^ 3) t;
          t = secp256k1_scalar_mul t x; t = (secp256k1_scalar_sqr ^^ 6) t;
          t = secp256k1_scalar_mul t x; t = (secp256k1_scalar_sqr ^^ 8) t;
          r = secp256k1_scalar_mul t x6
      in r)"

definition secp256k1_scalar_is_even :: "secp256k1_scalar \<Rightarrow> bool" where
  "secp256k1_scalar_is_even a \<longleftrightarrow> scalar_d a ! 0 AND 1 = 0"

definition secp256k1_scalar_inverse_var :: "secp256k1_scalar \<Rightarrow> secp256k1_scalar" where
  "secp256k1_scalar_inverse_var x = secp256k1_scalar_inverse x"

section \<open>Values\<close>

text \<open>The number an array of limbs stands for, least significant limb first, and the group order.\<close>

fun val32 :: "u32 list \<Rightarrow> nat" where
  "val32 [] = 0"
| "val32 (x # xs) = unat x + 2 ^ 32 * val32 xs"

fun val64 :: "u64 list \<Rightarrow> nat" where
  "val64 [] = 0"
| "val64 (x # xs) = unat x + 2 ^ 32 * val64 xs"

definition accu_val :: "accu \<Rightarrow> nat" where
  "accu_val = (\<lambda>(c0, c1, c2). unat c0 + 2 ^ 32 * unat c1 + 2 ^ 64 * unat c2)"

definition group_order :: nat where
  "group_order = 0xFFFFFFFFFFFFFFFFFFFFFFFFFFFFFFFEBAAEDCE6AF48A03BBFD25E8CD0364141"

abbreviation order_complement :: nat where
  "order_complement \<equiv> 2 ^ 256 - group_order"

definition scalar_val :: "secp256k1_scalar \<Rightarrow> nat" where
  "scalar_val a = val32 (scalar_d a)"

text \<open>A scalar has eight limbs; it is reduced when its value is below the order.\<close>

definition scalar_wf :: "secp256k1_scalar \<Rightarrow> bool" where
  "scalar_wf a \<longleftrightarrow> length (scalar_d a) = 8"

definition scalar_reduced :: "secp256k1_scalar \<Rightarrow> bool" where
  "scalar_reduced a \<longleftrightarrow> scalar_wf a \<and> scalar_val a < group_order"

section \<open>Notions for the proofs\<close>

fun op_val :: "accu_op \<Rightarrow> nat" where
  "op_val (Muladd a b) = unat a * unat b"
| "op_val (Muladd_fast a b) = unat a * unat b"
| "op_val (Muladd2 a b) = 2 * (unat a * unat b)"
| "op_val (Sumadd a) = unat a"
| "op_val (Sumadd_fast a) = unat a"

fun op_max :: "accu_op \<Rightarrow> nat" where
  "op_max (Muladd a b) = 18446744065119617025"
| "op_max (Muladd_fast a b) = 18446744065119617025"
| "op_max (Muladd2 a b) = 36893488130239234050"
| "op_max (Sumadd a) = 4294967295"
| "op_max (Sumadd_fast a) = 4294967295"

text \<open>The bits the accumulator may use in an operation: the fast macros do not carry into
  \<open>c2\<close>.\<close>

fun op_limit :: "accu_op \<Rightarrow> nat" where
  "op_limit (Muladd_fast a b) = 2 ^ 64"
| "op_limit (Sumadd_fast a) = 2 ^ 64"
| "op_limit _ = 2 ^ 96"

fun column_ops :: "accu_column \<Rightarrow> accu_op list" where
  "column_ops (Extract ops) = ops"
| "column_ops (Extract_fast ops) = ops"

fun column_limit :: "accu_column \<Rightarrow> nat" where
  "column_limit (Extract ops) = 2 ^ 96"
| "column_limit (Extract_fast ops) = 2 ^ 64"

abbreviation column_val :: "accu_column \<Rightarrow> nat" where
  "column_val col \<equiv> sum_list (map op_val (column_ops col))"

fun columns_val :: "accu_column list \<Rightarrow> nat" where
  "columns_val [] = 0"
| "columns_val (col # cols) = column_val col + 2 ^ 32 * columns_val cols"

text \<open>No operation overflows when the accumulator starts at \<open>v\<close>.\<close>

fun ops_fit :: "(accu_op \<Rightarrow> nat) \<Rightarrow> accu_op list \<Rightarrow> nat \<Rightarrow> bool" where
  "ops_fit sz [] v = True"
| "ops_fit sz (op # ops) v \<longleftrightarrow> v + sz op < op_limit op \<and> ops_fit sz ops (v + sz op)"

fun columns_fit :: "(accu_op \<Rightarrow> nat) \<Rightarrow> accu_column list \<Rightarrow> nat \<Rightarrow> bool" where
  "columns_fit sz [] v = True"
| "columns_fit sz (col # cols) v \<longleftrightarrow>
     ops_fit sz (column_ops col) v \<and> v + sum_list (map sz (column_ops col)) < column_limit col \<and>
     columns_fit sz cols ((v + sum_list (map sz (column_ops col))) div 2 ^ 32)"

text \<open>\<open>y\<close> is a well-formed element that stands for \<open>x ^ e\<close> modulo \<open>m\<close>.\<close>

definition power_of :: "('s \<Rightarrow> bool) \<Rightarrow> ('s \<Rightarrow> nat) \<Rightarrow> nat \<Rightarrow> nat \<Rightarrow> 's \<Rightarrow> nat \<Rightarrow> bool" where
  "power_of good val m x y e \<longleftrightarrow> good y \<and> val y mod m = x ^ e mod m"

text \<open>The number a big endian byte array stands for.\<close>

definition be_val :: "byte list \<Rightarrow> nat" where
  "be_val bs = nat (le_val (rev bs))"

text \<open>Shifting a number right, limb by limb.\<close>

fun shift_limbs :: "nat \<Rightarrow> u32 list \<Rightarrow> u32 list" where
  "shift_limbs s [] = []"
| "shift_limbs s (x # xs) = (drop_bit s x OR push_bit (32 - s) (case xs of [] \<Rightarrow> 0 | y # _ \<Rightarrow> y)) # shift_limbs s xs"

end
