(* ===== verification/Secp_Scalar_Correct.thy ===== *)
theory Secp_Scalar_Correct
  imports Secp_Scalar
begin

text \<open>
  The arithmetic of scalars is arithmetic modulo the group order: the accumulator macros keep a
  96-bit number, the columns of a product add up to the product, the two foldings of
  \<open>reduce_512\<close> keep it modulo the order, and the last conditional subtraction brings it below.
  Inverses go through the locale \<open>modular_mult\<close>: what an addition chain computes with any
  multiplication modulo a number.
\<close>

unbundle bit_operations_syntax

section \<open>Word arithmetic\<close>

lemma unat32_less: "unat (x :: u32) < 4294967296"
  using unsigned_less [of x] by simp

lemma unat64_less: "unat (x :: u64) < 18446744073709551616"
  using unsigned_less [of x] by simp

lemma unat_ucast_u64 [simp]: "unat (ucast (x :: u32) :: u64) = unat x"
  using unat32_less [of x] by (simp add: unsigned_ucast_eq take_bit_nat_eq_self)

lemma unat_drop_32: "unat (drop_bit 32 (t :: u64)) = unat t div 4294967296"
  unfolding unat_drop_bit_eq by (simp add: drop_bit_eq_div)

text \<open>The two halves of a 64-bit word.\<close>

lemma unat_halves: "unat (t :: u64) = unat (ucast t :: u32) + 4294967296 * unat (drop_bit 32 t)"
  by (simp add: unat_drop_32 unsigned_ucast_eq take_bit_eq_mod)

lemma ucast_mask32: "(ucast (t AND 0xFFFFFFFF :: u64) :: u32) = ucast t"
proof -
  have m: "(0xFFFFFFFF :: u64) = mask 32" by (simp add: mask_eq_exp_minus_1)
  show ?thesis unfolding m by (rule bit_word_eqI) (simp add: bit_simps)
qed

lemma unat_add_u64: "unat x + unat y < 18446744073709551616 \<Longrightarrow> unat (x + y :: u64) = unat x + unat y"
  by (simp add: unat_word_ariths)

lemma unat_mult_u64: "unat x * unat y < 18446744073709551616 \<Longrightarrow> unat (x * y :: u64) = unat x * unat y"
  by (simp add: unat_word_ariths)

text \<open>Addition of 32-bit words with the carry that a comparison recovers.\<close>

lemma add_carry: "unat (x + y :: u32) + 4294967296 * of_bool (x + y < y) = unat x + unat y"
  using unat32_less [of x] unat32_less [of y]
  by (auto simp: unat_word_ariths word_less_nat_alt mod_if)

lemma product_bound: "unat (x :: u32) * unat (y :: u32) \<le> 18446744065119617025"
  using unat32_less [of x] unat32_less [of y] mult_le_mono [of "unat x" 4294967295 "unat y" 4294967295] by simp

text \<open>The product of two limbs as its halves; the upper half leaves room for a carry.\<close>

lemma product_halves:
  fixes a b :: u32
  defines "t \<equiv> ucast a * ucast b :: u64"
  shows "unat a * unat b = unat (ucast t :: u32) + 4294967296 * unat (ucast (drop_bit 32 t) :: u32)"
    and "unat (ucast (drop_bit 32 t) :: u32) \<le> 4294967294"
proof -
  have t: "unat t = unat a * unat b"
    unfolding t_def using product_bound [of a b] by (subst unat_mult_u64) auto
  have h: "unat (ucast (drop_bit 32 t) :: u32) = unat (drop_bit 32 t)"
    using unat64_less [of t] by (simp add: unsigned_ucast_eq take_bit_nat_eq_self unat_drop_32 less_mult_imp_div_less)
  show 1: "unat a * unat b = unat (ucast t :: u32) + 4294967296 * unat (ucast (drop_bit 32 t) :: u32)"
    using unat_halves [of t] by (simp add: t h)
  show "unat (ucast (drop_bit 32 t) :: u32) \<le> 4294967294"
    using 1 product_bound [of a b] by linarith
qed

lemma unat_succ: "unat x < 4294967295 \<Longrightarrow> unat (x + (if b then 1 else 0) :: u32) = unat x + of_bool b"
  by (auto simp: unat_word_ariths)

lemma if_of_bool: "(if b then 1 else 0 :: u32) = of_bool b"
  by simp

lemma unat_add_bools:
  "unat (x + of_bool p + of_bool q + of_bool r :: u32) = (unat x + of_bool p + of_bool q + of_bool r) mod 4294967296"
  using unat32_less [of x] by (cases p; cases q; cases r) (simp_all add: unat_word_ariths mod_simps)

text \<open>Only the top limb of the accumulator may wrap around: every operation is exact modulo
  \<open>2 ^ 96\<close>.\<close>

lemma accu_wrap:
  assumes "lo < 18446744073709551616"
  shows "lo + 18446744073709551616 * (x mod 4294967296) = (lo + 18446744073709551616 * x) mod (2 ^ 96 :: nat)"
proof -
  have "(lo + 18446744073709551616 * x) mod (18446744073709551616 * 4294967296) =
      18446744073709551616 * ((lo + 18446744073709551616 * x) div 18446744073709551616 mod 4294967296) +
      (lo + 18446744073709551616 * x) mod 18446744073709551616"
    by (rule mod_mult2_eq)
  with assms show ?thesis by simp
qed

lemma accu_val_muladd: "accu_val (muladd a b c) = (accu_val c + unat a * unat b) mod 2 ^ 96"
proof -
  obtain c0 c1 c2 where c: "c = (c0, c1, c2)" by (cases c)
  define t :: u64 where "t = ucast a * ucast b"
  define tl th :: u32 where "tl = ucast t" and "th = ucast (drop_bit 32 t)"
  define k where "k = (if c0 + tl < tl then 1 else 0 :: u32)"
  note p = product_halves [of a b, folded t_def, folded tl_def th_def]
  have th: "unat (th + k) = unat th + of_bool (c0 + tl < tl)"
    unfolding k_def using p(2) by (intro unat_succ) simp
  let ?k = "of_bool (c1 + (th + k) < th + k) :: nat"
  have "accu_val (muladd a b c) = unat (c0 + tl) + 4294967296 * unat (c1 + (th + k)) +
      18446744073709551616 * ((unat c2 + ?k) mod 4294967296)"
    by (simp add: c muladd_def accu_val_def Let_def t_def tl_def th_def k_def unat_word_ariths)
  also have "\<dots> = (unat (c0 + tl) + 4294967296 * unat (c1 + (th + k)) + 18446744073709551616 * (unat c2 + ?k)) mod 2 ^ 96"
    using unat32_less [of "c0 + tl"] unat32_less [of "c1 + (th + k)"] by (intro accu_wrap) linarith
  also have "unat (c0 + tl) + 4294967296 * unat (c1 + (th + k)) + 18446744073709551616 * (unat c2 + ?k) =
      accu_val c + unat a * unat b"
    using add_carry [of c0 tl] add_carry [of c1 "th + k"] th p(1) by (simp add: c accu_val_def)
  finally show ?thesis .
qed

lemma accu_val_sumadd: "accu_val (sumadd a c) = (accu_val c + unat a) mod 2 ^ 96"
proof -
  obtain c0 c1 c2 where c: "c = (c0, c1, c2)" by (cases c)
  define k where "k = (if c0 + a < a then 1 else 0 :: u32)"
  have uk: "unat k = of_bool (c0 + a < a)" by (simp add: k_def)
  let ?k = "of_bool (c1 + k < k) :: nat"
  have "accu_val (sumadd a c) = unat (c0 + a) + 4294967296 * unat (c1 + k) + 18446744073709551616 * ((unat c2 + ?k) mod 4294967296)"
    by (simp add: c sumadd_def accu_val_def Let_def k_def unat_word_ariths)
  also have "\<dots> = (unat (c0 + a) + 4294967296 * unat (c1 + k) + 18446744073709551616 * (unat c2 + ?k)) mod 2 ^ 96"
    using unat32_less [of "c0 + a"] unat32_less [of "c1 + k"] by (intro accu_wrap) linarith
  also have "unat (c0 + a) + 4294967296 * unat (c1 + k) + 18446744073709551616 * (unat c2 + ?k) = accu_val c + unat a"
    using add_carry [of c0 a] add_carry [of c1 k] uk by (simp add: c accu_val_def)
  finally show ?thesis .
qed

lemma accu_val_muladd2: "accu_val (muladd2 a b c) = (accu_val c + 2 * (unat a * unat b)) mod 2 ^ 96"
proof -
  obtain c0 c1 c2 where c: "c = (c0, c1, c2)" by (cases c)
  define t :: u64 where "t = ucast a * ucast b"
  define tl th :: u32 where "tl = ucast t" and "th = ucast (drop_bit 32 t)"
  note p = product_halves [of a b, folded t_def, folded tl_def th_def]
  define k1 k2 k3 where "k1 = (th + th < th)" and "k2 = (tl + tl < tl)" and "k3 = (c0 + (tl + tl) < tl + tl)"
  define h1 h2 where "h1 = th + th + (if k2 then 1 else 0 :: u32)" and "h2 = h1 + (if k3 then 1 else 0 :: u32)"
  define k4 where "k4 = (c1 + h2 < h2)"
  have "unat (th + th) = 2 * unat th mod 4294967296" by (simp only: unat_word_ariths mult_2) simp
  then have even: "even (unat (th + th))" by (simp add: dvd_mod)
  have h1: "unat h1 = unat (th + th) + of_bool k2"
    unfolding h1_def using even unat32_less [of "th + th"]
    by (intro unat_succ) (cases "unat (th + th) = 4294967295", auto)
  have h2: "unat h2 + 4294967296 * of_bool (k3 \<and> h2 = 0) = unat h1 + of_bool k3"
    using add_carry [of h1 1] by (cases k3) (simp_all add: h2_def)
  have "muladd2 a b c = (c0 + (tl + tl), c1 + h2, c2 + of_bool k1 + of_bool (k3 \<and> h2 = 0) + of_bool k4)"
    unfolding c muladd2_def Let_def prod.case t_def [symmetric] tl_def [symmetric] th_def [symmetric]
      k1_def [symmetric] k2_def [symmetric] k3_def [symmetric] h1_def [symmetric] h2_def [symmetric] k4_def [symmetric]
    by simp
  then have "accu_val (muladd2 a b c) = unat (c0 + (tl + tl)) + 4294967296 * unat (c1 + h2) +
      18446744073709551616 * ((unat c2 + of_bool k1 + of_bool (k3 \<and> h2 = 0) + of_bool k4) mod 4294967296)"
    by (simp add: accu_val_def unat_add_bools)
  also have "\<dots> = (unat (c0 + (tl + tl)) + 4294967296 * unat (c1 + h2) +
      18446744073709551616 * (unat c2 + of_bool k1 + of_bool (k3 \<and> h2 = 0) + of_bool k4)) mod 2 ^ 96"
    using unat32_less [of "c0 + (tl + tl)"] unat32_less [of "c1 + h2"] by (intro accu_wrap) linarith
  also have "unat (c0 + (tl + tl)) + 4294967296 * unat (c1 + h2) +
      18446744073709551616 * (unat c2 + of_bool k1 + of_bool (k3 \<and> h2 = 0) + of_bool k4) = accu_val c + 2 * (unat a * unat b)"
    using add_carry [of c0 "tl + tl", folded k3_def] add_carry [of tl tl, folded k2_def] add_carry [of th th, folded k1_def]
      add_carry [of c1 h2, folded k4_def] h1 h2 p(1) by (simp add: c accu_val_def)
  finally show ?thesis .
qed

section \<open>Columns\<close>

lemma op_val_max: "op_val op \<le> op_max op"
proof (cases op)
  case (Sumadd a) then show ?thesis using unat32_less [of a] by simp
next
  case (Sumadd_fast a) then show ?thesis using unat32_less [of a] by simp
qed (use product_bound in auto)

lemma sum_ops_mono: "(\<And>op. s op \<le> s' op) \<Longrightarrow> sum_list (map s ops) \<le> sum_list (map (s' :: accu_op \<Rightarrow> nat) ops)"
  by (rule sum_list_mono) simp

lemma ops_fit_mono: "(\<And>op. s op \<le> s' op) \<Longrightarrow> ops_fit s' ops w \<Longrightarrow> v \<le> w \<Longrightarrow> ops_fit s ops v"
proof (induction ops arbitrary: v w)
  case (Cons op ops)
  from Cons.prems have le: "v + s op \<le> w + s' op" by (intro add_mono) auto
  with Cons.prems Cons.IH [OF Cons.prems(1) _ le] show ?case by auto
qed simp

lemma columns_fit_mono: "(\<And>op. s op \<le> s' op) \<Longrightarrow> columns_fit s' cols w \<Longrightarrow> v \<le> w \<Longrightarrow> columns_fit s cols v"
proof (induction cols arbitrary: v w)
  case (Cons col cols)
  let ?ops = "column_ops col"
  from Cons.prems sum_ops_mono [of s s' ?ops]
  have le: "v + sum_list (map s ?ops) \<le> w + sum_list (map s' ?ops)" by (intro add_mono) auto
  with Cons.prems Cons.IH [OF Cons.prems(1) _ div_le_mono [OF le]] show ?case
    by (auto intro: ops_fit_mono)
qed simp

lemma columns_fit_max: "columns_fit op_max cols w \<Longrightarrow> v \<le> w \<Longrightarrow> columns_fit op_val cols v"
  by (rule columns_fit_mono [OF op_val_max])

text \<open>Within their limits the fast macros agree with the general ones.\<close>

lemma accu_val_lt: "accu_val (c0, c1, c2) < 18446744073709551616 \<longleftrightarrow> c2 = 0"
  using unat32_less [of c0] unat32_less [of c1] by (auto simp: accu_val_def word_unat_eq_iff)

lemma muladd_fast_eq: "accu_val c + unat a * unat b < 2 ^ 64 \<Longrightarrow> muladd_fast a b c = muladd a b c"
proof -
  assume less: "accu_val c + unat a * unat b < 2 ^ 64"
  then have "accu_val (muladd a b c) < 2 ^ 64" by (subst accu_val_muladd) simp
  moreover have "accu_val c < 2 ^ 64" using less by simp
  ultimately show ?thesis
    by (cases c) (auto simp: muladd_def muladd_fast_def Let_def accu_val_lt)
qed

lemma sumadd_fast_eq: "accu_val c + unat a < 2 ^ 64 \<Longrightarrow> sumadd_fast a c = sumadd a c"
proof -
  assume less: "accu_val c + unat a < 2 ^ 64"
  then have "accu_val (sumadd a c) < 2 ^ 64" by (subst accu_val_sumadd) simp
  moreover have "accu_val c < 2 ^ 64" using less by simp
  ultimately show ?thesis
    by (cases c) (auto simp: sumadd_def sumadd_fast_def Let_def accu_val_lt)
qed

lemma run_op_val: "accu_val c + op_val op < op_limit op \<Longrightarrow> accu_val (run_op op c) = accu_val c + op_val op"
  by (cases op) (auto simp: muladd_fast_eq sumadd_fast_eq accu_val_muladd accu_val_muladd2 accu_val_sumadd)

lemma run_ops_val:
  "ops_fit op_val ops (accu_val c) \<Longrightarrow> accu_val (fold run_op ops c) = accu_val c + sum_list (map op_val ops)"
  by (induction ops arbitrary: c) (auto simp: run_op_val)

lemma extract_fast_eq: "accu_val c < 2 ^ 64 \<Longrightarrow> extract_fast c = extract_limb c"
  by (cases c) (auto simp: accu_val_lt extract_fast_def extract_limb_def)

lemma extract_limb_val:
  assumes "extract_limb c = (n, c')"
  shows "accu_val c = unat n + 4294967296 * accu_val c'" and "accu_val c' = accu_val c div 4294967296"
proof -
  show v: "accu_val c = unat n + 4294967296 * accu_val c'"
    using assms by (cases c) (auto simp: extract_limb_def accu_val_def)
  have d: "(unat n + 4294967296 * accu_val c') div 4294967296 = accu_val c'"
    using unat32_less [of n] by simp
  show "accu_val c' = accu_val c div 4294967296" unfolding v d by (rule refl)
qed

lemma run_column_val:
  assumes fit: "columns_fit op_val [col] (accu_val c)" and run: "run_column col c = (n, c')"
  shows "accu_val c + column_val col = unat n + 4294967296 * accu_val c'"
    and "accu_val c' = (accu_val c + column_val col) div 4294967296"
proof -
  have "accu_val (fold run_op (column_ops col) c) = accu_val c + column_val col"
    using fit by (intro run_ops_val) simp
  moreover from this have "extract_limb (fold run_op (column_ops col) c) = (n, c')"
    using fit run by (cases col) (auto simp: extract_fast_eq)
  ultimately show "accu_val c + column_val col = unat n + 4294967296 * accu_val c'"
    and "accu_val c' = (accu_val c + column_val col) div 4294967296"
    using extract_limb_val [of "fold run_op (column_ops col) c" n c'] by argo+
qed

lemma columns_correct:
  assumes "columns_fit op_val cols (accu_val c)" and "columns cols c = (ns, c')"
  shows "length ns = length cols \<and> accu_val c + columns_val cols = val32 ns + 2 ^ (32 * length cols) * accu_val c'"
  using assms
proof (induction cols arbitrary: c ns)
  case (Cons col cols)
  obtain n c1 where 1: "run_column col c = (n, c1)" by (cases "run_column col c")
  obtain ns1 c2 where 2: "columns cols c1 = (ns1, c2)" by (cases "columns cols c1")
  have fit: "columns_fit op_val [col] (accu_val c)" using Cons.prems(1) by simp
  note col = run_column_val [OF fit 1]
  have "columns_fit op_val cols (accu_val c1)" unfolding col(2) using Cons.prems(1) by simp
  from Cons.IH [OF this] 2 Cons.prems(2) 1
  have "length ns1 = length cols" "accu_val c1 + columns_val cols = val32 ns1 + 2 ^ (32 * length cols) * accu_val c'"
    "ns = n # ns1" by auto
  with col(1) show ?case by (simp add: power_add algebra_simps)
qed simp

lemma columns_append:
  "columns (cols @ cols') c =
     (case columns cols c of (ns, c) \<Rightarrow> case columns cols' c of (ns', c) \<Rightarrow> (ns @ ns', c))"
  by (induction cols arbitrary: c) (auto split: prod.split)

lemma columns_val_append: "columns_val (cols @ cols') = columns_val cols + 2 ^ (32 * length cols) * columns_val cols'"
  by (induction cols) (auto simp: power_add algebra_simps)

text \<open>The last column of a product is bounded by the whole value and not by its own operations: it
  fits because the result fits.\<close>

lemma columns_snoc:
  assumes fit: "columns_fit op_val cols (accu_val c)" and cols: "columns (cols @ [Extract_fast ops]) c = (ns, c')"
    and total: "accu_val c + columns_val (cols @ [Extract_fast ops]) < 2 ^ (32 * length cols + 64)"
    and fast: "\<And>v. v + sum_list (map op_val ops) < 2 ^ 64 \<Longrightarrow> ops_fit op_val ops v"
  shows "length ns = Suc (length cols) \<and> accu_val c' < 2 ^ 32 \<and>
     accu_val c + columns_val (cols @ [Extract_fast ops]) = val32 ns + 2 ^ (32 * Suc (length cols)) * accu_val c'"
proof -
  obtain ns1 c1 where 1: "columns cols c = (ns1, c1)" by (cases "columns cols c")
  obtain n c2 where 2: "run_column (Extract_fast ops) c1 = (n, c2)"
    by (cases "run_column (Extract_fast ops) c1")
  let ?L = "2 ^ (32 * length cols) :: nat" and ?s = "sum_list (map op_val ops)"
  have v1: "length ns1 = length cols" "accu_val c + columns_val cols = val32 ns1 + ?L * accu_val c1"
    using columns_correct [OF fit 1] by simp_all
  have "?L * (accu_val c1 + ?s) \<le> accu_val c + columns_val (cols @ [Extract_fast ops])"
    using v1(2) by (simp add: columns_val_append algebra_simps)
  also have "\<dots> < ?L * 2 ^ 64" using total by (simp add: power_add)
  finally have lt: "accu_val c1 + ?s < 2 ^ 64" by simp
  then have "columns_fit op_val [Extract_fast ops] (accu_val c1)" using fast by simp
  note v2 = run_column_val [OF this 2]
  have "accu_val c2 < 2 ^ 32" unfolding v2(2) using lt by (simp add: less_mult_imp_div_less)
  moreover have "ns = ns1 @ [n]" "c' = c2" using cols 1 2 by (auto simp: columns_append)
  moreover have "val32 (ns1 @ [n]) = val32 ns1 + 2 ^ (32 * length ns1) * unat n" for ns1
    by (induction ns1) (auto simp: power_add algebra_simps)
  moreover have "?L * (accu_val c1 + ?s) = ?L * (unat n + 4294967296 * accu_val c2)" using v2(1) by simp
  ultimately show ?thesis
    using v1 by (simp add: columns_val_append power_add algebra_simps)
qed

lemma ops_fit_total: "v + sum_list (map op_val ops) < 2 ^ 64 \<Longrightarrow> ops_fit op_val ops v"
proof (induction ops arbitrary: v)
  case (Cons op ops)
  then have "v + op_val op < 2 ^ 64" by simp
  moreover have "2 ^ 64 \<le> op_limit op" by (cases op) simp_all
  ultimately show ?case using Cons.IH [of "v + op_val op"] Cons.prems by (simp add: add.assoc)
qed simp

lemma val32_snoc: "val32 (xs @ [x]) = val32 xs + 2 ^ (32 * length xs) * unat x"
  by (induction xs) (auto simp: power_add algebra_simps)

lemma run_columns_correct:
  assumes last: "cs \<noteq> []" "last cs = Extract_fast ops"
    and fit: "columns_fit op_max (butlast cs) w" "accu_val c \<le> w"
    and total: "accu_val c + columns_val cs < 2 ^ (32 * length cs + 32)"
  shows "length (run_columns cs c) = Suc (length cs) \<and> val32 (run_columns cs c) = accu_val c + columns_val cs"
proof -
  obtain ns c0 c1 c2 where cols: "columns cs c = (ns, c0, c1, c2)" by (cases "columns cs c")
  have cs: "cs = butlast cs @ [Extract_fast ops]" using last by (metis append_butlast_last_id)
  have len: "length cs = Suc (length (butlast cs))" using last(1) by simp
  have exp: "32 * length cs + 32 = 32 * length (butlast cs) + 64" using len by simp
  from columns_snoc [OF columns_fit_max [OF fit], of ops ns "(c0, c1, c2)"] cols total ops_fit_total
  have "length ns = length cs \<and> accu_val (c0, c1, c2) < 2 ^ 32 \<and>
      accu_val c + columns_val cs = val32 ns + 2 ^ (32 * length cs) * accu_val (c0, c1, c2)"
    unfolding cs [symmetric] exp len [symmetric] by blast
  moreover from this have "accu_val (c0, c1, c2) = unat c0"
    by (cases "unat c1 = 0"; cases "unat c2 = 0") (auto simp: accu_val_def)
  ultimately show ?thesis by (simp add: val32_snoc run_columns_def cols)
qed

section \<open>Products\<close>

lemma eight_limbs:
  assumes "length d = 8"
  obtains d0 d1 d2 d3 d4 d5 d6 d7 where "d = [d0, d1, d2, d3, d4, d5, d6, d7]"
  using assms by (auto simp: length_Suc_conv numeral_eq_Suc)

lemma val32_less: "val32 d < 2 ^ (32 * length d)"
proof (induction d)
  case (Cons x xs)
  with unat32_less [of x] show ?case by (simp add: power_add)
qed simp

lemma mul_columns_val:
  "columns_val (mul_512_columns [a0, a1, a2, a3, a4, a5, a6, a7] [b0, b1, b2, b3, b4, b5, b6, b7]) =
     val32 [a0, a1, a2, a3, a4, a5, a6, a7] * val32 [b0, b1, b2, b3, b4, b5, b6, b7]"
  by (simp add: mul_512_columns_def algebra_simps)

lemma sqr_columns_val:
  "columns_val (sqr_512_columns [a0, a1, a2, a3, a4, a5, a6, a7]) = val32 [a0, a1, a2, a3, a4, a5, a6, a7] ^ 2"
  by (simp add: sqr_512_columns_def power2_eq_square algebra_simps)

lemma product_less:
  assumes "length a = 8" "length b = 8"
  shows "val32 a * val32 b < 2 ^ 512"
proof -
  have "val32 a < 2 ^ 256" "val32 b < 2 ^ 256"
    using val32_less [of a] val32_less [of b] by (simp_all add: assms)
  then show ?thesis
    using mult_strict_mono' [of "val32 a" "2 ^ 256" "val32 b" "2 ^ 256"] by simp
qed

lemma scalar_mul_512_correct:
  assumes "scalar_wf x" and "scalar_wf y"
  shows "length (secp256k1_scalar_mul_512 x y) = 16 \<and> val32 (secp256k1_scalar_mul_512 x y) = scalar_val x * scalar_val y"
proof -
  let ?cs = "mul_512_columns (scalar_d x) (scalar_d y)"
  have v: "columns_val ?cs = scalar_val x * scalar_val y"
    using assms by (auto simp: scalar_wf_def scalar_val_def mul_columns_val elim!: eight_limbs)
  have len: "?cs \<noteq> []" "length ?cs = 15" by (simp_all add: mul_512_columns_def)
  have last: "last ?cs = Extract_fast [Muladd_fast (scalar_d x ! 7) (scalar_d y ! 7)]"
    by (simp add: mul_512_columns_def)
  have fit: "columns_fit op_max (butlast ?cs) 0" by (simp add: mul_512_columns_def)
  have "accu_val (0, 0, 0) + columns_val ?cs < 2 ^ (32 * length ?cs + 32)"
    using product_less [of "scalar_d x" "scalar_d y"] assms by (simp add: v len scalar_wf_def scalar_val_def accu_val_def)
  from run_columns_correct [OF len(1) last fit _ this] show ?thesis
    by (simp add: secp256k1_scalar_mul_512_def v len accu_val_def)
qed

lemma scalar_sqr_512_correct:
  assumes "scalar_wf x"
  shows "length (secp256k1_scalar_sqr_512 x) = 16 \<and> val32 (secp256k1_scalar_sqr_512 x) = scalar_val x * scalar_val x"
proof -
  let ?cs = "sqr_512_columns (scalar_d x)"
  have v: "columns_val ?cs = scalar_val x * scalar_val x"
    using assms by (auto simp: scalar_wf_def scalar_val_def sqr_columns_val power2_eq_square elim!: eight_limbs)
  have len: "?cs \<noteq> []" "length ?cs = 15" by (simp_all add: sqr_512_columns_def)
  have last: "last ?cs = Extract_fast [Muladd_fast (scalar_d x ! 7) (scalar_d x ! 7)]"
    by (simp add: sqr_512_columns_def)
  have fit: "columns_fit op_max (butlast ?cs) 0" by (simp add: sqr_512_columns_def)
  have "accu_val (0, 0, 0) + columns_val ?cs < 2 ^ (32 * length ?cs + 32)"
    using product_less [of "scalar_d x" "scalar_d x"] assms by (simp add: v len scalar_wf_def scalar_val_def accu_val_def)
  from run_columns_correct [OF len(1) last fit _ this] show ?thesis
    by (simp add: secp256k1_scalar_sqr_512_def v len accu_val_def)
qed

section \<open>Comparison with the order\<close>

text \<open>The branch-free flags are truth values.\<close>

lemma flag_or: "of_bool p OR of_bool q = (of_bool (p \<or> q) :: int)"
  by (cases p; cases q) simp_all

lemma flag_and_not: "of_bool p AND NOT (of_bool q) = (of_bool (p \<and> \<not> q) :: int)"
  by (cases p; cases q) simp_all

text \<open>Numbers of the same length compare limb by limb, from the top.\<close>

lemma digits_eq:
  fixes x y K :: nat assumes "x < K" "y < K"
  shows "x + K * X = y + K * Y \<longleftrightarrow> x = y \<and> X = Y"
  using assms by (metis add.right_neutral div_less div_mult_self2 less_nat_zero_code mod_less mod_mult_self2)

lemma digits_less:
  fixes x y K :: nat assumes "x < K" "y < K"
  shows "x + K * X < y + K * Y \<longleftrightarrow> X < Y \<or> X = Y \<and> x < y"
proof (cases X Y rule: linorder_cases)
  case less
  then have "K * Suc X \<le> K * Y" by (intro mult_le_mono2) simp
  with assms less show ?thesis by simp
next
  case greater
  then have "K * Suc Y \<le> K * X" by (intro mult_le_mono2) simp
  with assms greater show ?thesis by simp
qed simp

lemma val32_less_Cons:
  "val32 (x # xs) < val32 (y # ys) \<longleftrightarrow> val32 xs < val32 ys \<or> val32 xs = val32 ys \<and> x < y"
  using digits_less [of "unat x" 4294967296 "unat y"] unat32_less by (simp add: word_less_nat_alt)

lemma val32_eq_Cons: "val32 (x # xs) = val32 (y # ys) \<longleftrightarrow> val32 xs = val32 ys \<and> x = y"
  using digits_eq [of "unat x" 4294967296 "unat y"] unat32_less by (auto simp: word_unat_eq_iff)

lemma group_order_limbs:
  "group_order = val32 [SECP256K1_N_0, SECP256K1_N_1, SECP256K1_N_2, SECP256K1_N_3, SECP256K1_N_4, SECP256K1_N_5, SECP256K1_N_6, SECP256K1_N_7]"
  by (simp add: group_order_def SECP256K1_N_0_def SECP256K1_N_1_def SECP256K1_N_2_def SECP256K1_N_3_def SECP256K1_N_4_def
      SECP256K1_N_5_def SECP256K1_N_6_def SECP256K1_N_7_def)

lemma half_order_limbs:
  "group_order div 2 = val32 [SECP256K1_N_H_0, SECP256K1_N_H_1, SECP256K1_N_H_2, SECP256K1_N_H_3, SECP256K1_N_H_4, SECP256K1_N_H_5, SECP256K1_N_H_6, SECP256K1_N_H_7]"
  by (simp add: group_order_def SECP256K1_N_H_0_def SECP256K1_N_H_1_def SECP256K1_N_H_2_def SECP256K1_N_H_3_def SECP256K1_N_H_4_def
      SECP256K1_N_H_5_def SECP256K1_N_H_6_def SECP256K1_N_H_7_def)

lemma complement_limbs:
  "order_complement = val32 [SECP256K1_N_C_0, SECP256K1_N_C_1, SECP256K1_N_C_2, SECP256K1_N_C_3, SECP256K1_N_C_4]"
  by (simp add: group_order_def SECP256K1_N_C_0_def SECP256K1_N_C_1_def SECP256K1_N_C_2_def SECP256K1_N_C_3_def SECP256K1_N_C_4_def
      SECP256K1_N_0_def SECP256K1_N_1_def SECP256K1_N_2_def SECP256K1_N_3_def)

lemma max_word_limb: "SECP256K1_N_5 = - 1" "SECP256K1_N_6 = - 1" "SECP256K1_N_7 = - 1"
  "SECP256K1_N_H_4 = - 1" "SECP256K1_N_H_5 = - 1" "SECP256K1_N_H_6 = - 1"
  by (simp_all add: SECP256K1_N_5_def SECP256K1_N_6_def SECP256K1_N_7_def SECP256K1_N_H_4_def SECP256K1_N_H_5_def SECP256K1_N_H_6_def)

text \<open>The scan from the top limb down: the flag \<open>no\<close> says that the limbs seen so far are
  less, the flag \<open>yes\<close> that they are greater.\<close>

lemma scan_no:
  "of_bool (val32 xs < val32 ys) OR (of_bool (x < y) AND NOT (of_bool (val32 ys < val32 xs))) =
     (of_bool (val32 (x # xs) < val32 (y # ys)) :: int)"
  unfolding flag_and_not flag_or val32_less_Cons by (rule arg_cong [of _ _ of_bool]) auto

lemma scan_yes:
  "of_bool (val32 ys < val32 xs) OR (of_bool (y < x) AND NOT (of_bool (val32 (x # xs) < val32 (y # ys)))) =
     (of_bool (val32 (y # ys) < val32 (x # xs)) :: int)"
  unfolding flag_and_not flag_or val32_less_Cons by (rule arg_cong [of _ _ of_bool]) auto

lemma scan_last:
  "of_bool (val32 ys < val32 xs) OR (of_bool (y \<le> x) AND NOT (of_bool (val32 xs < val32 ys))) =
     (of_bool (val32 (y # ys) \<le> val32 (x # xs)) :: int)"
  unfolding flag_and_not flag_or not_less [symmetric] val32_less_Cons by (rule arg_cong [of _ _ of_bool]) auto

text \<open>Below a largest limb the checks for greater are left out.\<close>

lemma scan_no_max:
  "of_bool (val32 xs < val32 ys) OR of_bool (x < y) =
     (of_bool (val32 (x # xs) < val32 (y # ys)) :: int)" if "\<not> val32 ys < val32 xs"
  using that unfolding flag_or val32_less_Cons by (intro arg_cong [of _ _ of_bool]) auto

lemma scan_yes_max:
  "(0 :: int) OR (of_bool (y < x) AND NOT (of_bool (val32 (x # xs) < val32 (y # ys)))) =
     of_bool (val32 (y # ys) < val32 (x # xs))" if "\<not> val32 ys < val32 xs"
  using that scan_yes [of ys xs y x] by simp

lemma scan_keep:
  "(of_bool (val32 ys < val32 xs) :: int) = of_bool (val32 (- 1 # ys) < val32 (x # xs))"
  unfolding val32_less_Cons by (simp add: word_order.extremum_strict)

lemma nth_limbs:
  "[x0, x1, x2, x3, x4, x5, x6, x7] ! 0 = x0" "[x0, x1, x2, x3, x4, x5, x6, x7] ! 1 = x1"
  "[x0, x1, x2, x3, x4, x5, x6, x7] ! 2 = x2" "[x0, x1, x2, x3, x4, x5, x6, x7] ! 3 = x3"
  "[x0, x1, x2, x3, x4, x5, x6, x7] ! 4 = x4" "[x0, x1, x2, x3, x4, x5, x6, x7] ! 5 = x5"
  "[x0, x1, x2, x3, x4, x5, x6, x7] ! 6 = x6" "[x0, x1, x2, x3, x4, x5, x6, x7] ! 7 = x7"
  by simp_all

lemma check_overflow_correct:
  assumes "scalar_wf a"
  shows "secp256k1_scalar_check_overflow a = of_bool (group_order \<le> scalar_val a)"
proof -
  obtain d0 d1 d2 d3 d4 d5 d6 d7 where d: "scalar_d a = [d0, d1, d2, d3, d4, d5, d6, d7]"
    using assms by (auto simp: scalar_wf_def elim: eight_limbs)
  have max: "\<not> val32 [- 1, - 1, - 1] < val32 [d5, d6, d7]" "\<not> val32 [- 1, - 1] < val32 [d6, d7]" "\<not> val32 [- 1] < val32 [d7]"
    unfolding val32_less_Cons by (simp_all add: word_order.extremum_strict)
  have top: "(0 :: int) OR of_bool (d7 < - 1) = of_bool (val32 [d7] < val32 [- 1])"
    unfolding val32_less_Cons by simp
  show ?thesis
    unfolding secp256k1_scalar_check_overflow_def Let_def d nth_limbs max_word_limb scalar_val_def group_order_limbs
      top scan_no_max [OF max(3)] scan_no_max [OF max(2)] scan_no_max [OF max(1)] scan_yes_max [OF max(1)]
      scan_no scan_yes scan_last ..
qed

lemma is_high_correct:
  assumes "scalar_wf a"
  shows "secp256k1_scalar_is_high a = of_bool (group_order div 2 < scalar_val a)"
proof -
  obtain d0 d1 d2 d3 d4 d5 d6 d7 where d: "scalar_d a = [d0, d1, d2, d3, d4, d5, d6, d7]"
    using assms by (auto simp: scalar_wf_def elim: eight_limbs)
  have top: "(0 :: int) OR of_bool (d7 < SECP256K1_N_H_7) = of_bool (val32 [d7] < val32 [SECP256K1_N_H_7])"
    "(0 :: int) OR (of_bool (SECP256K1_N_H_7 < d7) AND NOT (of_bool (val32 [d7] < val32 [SECP256K1_N_H_7]))) =
       of_bool (val32 [SECP256K1_N_H_7] < val32 [d7])"
    unfolding flag_and_not val32_less_Cons by auto
  have 6: "of_bool (val32 [SECP256K1_N_H_7] < val32 [d7]) = (of_bool (val32 [- 1, - 1, - 1, SECP256K1_N_H_7] < val32 [d4, d5, d6, d7]) :: int)"
    using scan_keep by metis
  have no: "of_bool (val32 [d7] < val32 [SECP256K1_N_H_7]) OR (of_bool (d6 < - 1) AND NOT (of_bool (val32 [SECP256K1_N_H_7] < val32 [d7]))) =
      (of_bool (val32 [d6, d7] < val32 [- 1, SECP256K1_N_H_7]) :: int)"
    "of_bool (val32 [d6, d7] < val32 [- 1, SECP256K1_N_H_7]) OR (of_bool (d5 < - 1) AND NOT (of_bool (val32 [SECP256K1_N_H_7] < val32 [d7]))) =
      (of_bool (val32 [d5, d6, d7] < val32 [- 1, - 1, SECP256K1_N_H_7]) :: int)"
    "of_bool (val32 [d5, d6, d7] < val32 [- 1, - 1, SECP256K1_N_H_7]) OR (of_bool (d4 < - 1) AND NOT (of_bool (val32 [SECP256K1_N_H_7] < val32 [d7]))) =
      (of_bool (val32 [d4, d5, d6, d7] < val32 [- 1, - 1, - 1, SECP256K1_N_H_7]) :: int)"
    using scan_no scan_keep by metis+
  show ?thesis
    unfolding secp256k1_scalar_is_high_def Let_def d nth_limbs max_word_limb scalar_val_def half_order_limbs top no
    unfolding 6 scan_no scan_yes ..
qed

section \<open>Carry chains\<close>

lemma limbs_correct:
  assumes "\<forall>x \<in> set xs. unat x < 2 ^ 36" and "unat t < 2 ^ 32" and "limbs 0xFFFFFFFF t xs = (rs, t')"
  shows "length rs = length xs \<and> unat t + val64 xs = val32 rs + 2 ^ (32 * length xs) * unat t'"
  using assms
proof (induction xs arbitrary: t rs)
  case (Cons x xs)
  obtain rs1 where rs: "limbs 0xFFFFFFFF (drop_bit 32 (t + x)) xs = (rs1, t')" "rs = ucast (t + x) # rs1"
    using Cons.prems(3) by (auto simp: Let_def ucast_mask32 split: prod.splits)
  have tx: "unat (t + x) = unat t + unat x"
    using Cons.prems by (intro unat_add_u64) auto
  have lt: "unat (drop_bit 32 (t + x)) < 2 ^ 32"
    unfolding unat_drop_32 tx using Cons.prems by (simp add: less_mult_imp_div_less)
  have "length rs1 = length xs \<and> unat (drop_bit 32 (t + x)) + val64 xs = val32 rs1 + 2 ^ (32 * length xs) * unat t'"
    using Cons.prems lt rs(1) by (intro Cons.IH) auto
  with tx unat_halves [of "t + x"] show ?case
    by (simp add: rs(2) power_add algebra_simps)
qed simp

text \<open>A chain of eight limbs: the value modulo \<open>2 ^ 256\<close> and the carry.\<close>

lemma limbs_eight:
  assumes "\<forall>x \<in> set xs. unat x < 2 ^ 36" and "length xs = 8" and "limbs 0xFFFFFFFF 0 xs = (rs, t)"
  shows "length rs = 8" and "val32 rs = val64 xs mod 2 ^ 256" and "unat t = val64 xs div 2 ^ 256"
proof -
  have "length rs = length xs \<and> unat (0 :: u64) + val64 xs = val32 rs + 2 ^ (32 * length xs) * unat t"
    using assms by (intro limbs_correct) auto
  then show len: "length rs = 8" and "val32 rs = val64 xs mod 2 ^ 256" and "unat t = val64 xs div 2 ^ 256"
    using val32_less [of rs] assms(2) by simp_all
qed

lemma complement_positive: "group_order < 2 ^ 256" "2 ^ 255 < group_order"
  by (simp_all add: group_order_def)

lemma scalar_reduce_correct:
  assumes wf: "scalar_wf r" and ov: "overflow \<le> 1"
  shows "scalar_wf (fst (secp256k1_scalar_reduce r overflow)) \<and>
     scalar_val (fst (secp256k1_scalar_reduce r overflow)) = (scalar_val r + unat overflow * order_complement) mod 2 ^ 256"
proof -
  obtain d0 d1 d2 d3 d4 d5 d6 d7 where d: "scalar_d r = [d0, d1, d2, d3, d4, d5, d6, d7]"
    using wf by (auto simp: scalar_wf_def elim: eight_limbs)
  let ?xs = "[ucast d0 + ucast (overflow * SECP256K1_N_C_0), ucast d1 + ucast (overflow * SECP256K1_N_C_1),
      ucast d2 + ucast (overflow * SECP256K1_N_C_2), ucast d3 + ucast (overflow * SECP256K1_N_C_3),
      ucast d4 + ucast (overflow * SECP256K1_N_C_4), ucast d5, ucast d6, ucast d7 :: u64]"
  have add: "unat (ucast x + ucast y :: u64) = unat x + unat y" for x y :: u32
    using unat32_less [of x] unat32_less [of y] by (simp add: unat_add_u64)
  have bound: "\<forall>x \<in> set ?xs. unat x < 2 ^ 36"
    using unat32_less by (auto simp: add intro: less_trans [OF add_strict_mono [OF unat32_less unat32_less]] less_trans [OF unat32_less])
  have mult: "unat (overflow * x) = unat overflow * unat x" for x
    using ov unat32_less [of x] by (cases "overflow = 0") (auto simp: word_le_nat_alt unat_word_ariths le_Suc_eq)
  have val: "val64 ?xs = scalar_val r + unat overflow * order_complement"
    unfolding complement_limbs scalar_val_def d by (simp add: add mult, simp add: algebra_simps)
  obtain rs t where rs: "limbs 0xFFFFFFFF 0 ?xs = (rs, t)" by (cases "limbs 0xFFFFFFFF 0 ?xs")
  have "fst (secp256k1_scalar_reduce r overflow) = r\<lparr>scalar_d := rs\<rparr>"
    using rs by (simp add: secp256k1_scalar_reduce_def d Let_def)
  with limbs_eight [OF bound _ rs] show ?thesis
    unfolding val by (simp add: scalar_wf_def scalar_val_def)
qed

text \<open>A number below \<open>2 ^ 256 + order_complement\<close>, given as a carry and eight limbs, is reduced
  by at most one subtraction of the order.\<close>

lemma final_reduce:
  assumes "length rs = 8" and v: "val32 rs = v mod 2 ^ 256" "c = v div 2 ^ 256" and less: "v < 2 * group_order"
    and ov: "unat overflow = c + of_bool (group_order \<le> val32 rs)"
  shows "scalar_reduced (fst (secp256k1_scalar_reduce \<lparr>scalar_d = rs\<rparr> overflow)) \<and>
     scalar_val (fst (secp256k1_scalar_reduce \<lparr>scalar_d = rs\<rparr> overflow)) = v mod group_order \<and>
     unat overflow = of_bool (group_order \<le> v)"
proof -
  have N: "group_order < 2 ^ 256" "2 ^ 255 < group_order" by (simp_all add: group_order_def)
  have c: "c = of_bool (2 ^ 256 \<le> v)"
  proof (cases "2 ^ 256 \<le> v")
    case True
    then have "v div 2 ^ 256 = 1" using less N by (intro div_nat_eqI) auto
    with v True show ?thesis by simp
  qed (use v in simp)
  have rs: "val32 rs = v - 2 ^ 256 * of_bool (2 ^ 256 \<le> v)"
    using v c by (simp add: minus_div_mult_eq_mod [symmetric])
  have ov1: "unat overflow = of_bool (group_order \<le> v)"
    using less N c rs ov by (cases "2 ^ 256 \<le> v") auto
  then have "overflow \<le> 1" by (simp add: word_le_nat_alt)
  then have red: "scalar_wf (fst (secp256k1_scalar_reduce \<lparr>scalar_d = rs\<rparr> overflow))"
    "scalar_val (fst (secp256k1_scalar_reduce \<lparr>scalar_d = rs\<rparr> overflow)) =
       (val32 rs + of_bool (group_order \<le> v) * order_complement) mod 2 ^ 256"
    using scalar_reduce_correct [of "\<lparr>scalar_d = rs\<rparr>" overflow] assms(1) by (simp_all add: scalar_wf_def scalar_val_def ov1)
  have "(val32 rs + of_bool (group_order \<le> v) * order_complement) mod 2 ^ 256 = v mod group_order"
  proof (cases "group_order \<le> v")
    case True
    then have m: "v mod group_order = v - group_order" using less by (simp add: mod_if)
    show ?thesis
    proof (cases "2 ^ 256 \<le> v")
      case True
      with m rs N less show ?thesis by simp
    next
      case False
      then have e: "val32 rs + order_complement = v - group_order + 2 ^ 256" using rs \<open>group_order \<le> v\<close> N by simp
      have "(v - group_order + 2 ^ 256) mod 2 ^ 256 = v - group_order"
        unfolding mod_add_self2 using False by (intro mod_less) simp
      with m \<open>group_order \<le> v\<close> show ?thesis by (simp only: e of_bool_eq(2) mult_1)
    qed
  qed (use rs N in simp)
  moreover have "v mod group_order < group_order" by (simp add: group_order_def)
  ultimately show ?thesis using red ov1 by (simp add: scalar_reduced_def)
qed

section \<open>Reduction of products\<close>

lemma reduce_512_385_correct:
  assumes l: "length l = 16"
  shows "length (scalar_reduce_512_385 l) = 13 \<and>
     val32 (scalar_reduce_512_385 l) = val32 (take 8 l) + val32 (drop 8 l) * order_complement"
proof -
  obtain l0 l1 l2 l3 l4 l5 l6 l7 where lo: "take 8 l = [l0, l1, l2, l3, l4, l5, l6, l7]"
    using l by (auto intro: eight_limbs [of "take 8 l"])
  obtain n0 n1 n2 n3 n4 n5 n6 n7 where hi: "drop 8 l = [n0, n1, n2, n3, n4, n5, n6, n7]"
    using l by (auto intro: eight_limbs [of "drop 8 l"])
  have "l = take 8 l @ drop 8 l" by simp
  then have ls: "l = [l0, l1, l2, l3, l4, l5, l6, l7, n0, n1, n2, n3, n4, n5, n6, n7]" unfolding lo hi by simp
  let ?cs = "reduce_512_columns l" and ?c = "(l ! 0, 0, 0)"
  have len: "?cs \<noteq> []" "length ?cs = 12" by (simp_all add: reduce_512_columns_def Let_def)
  have last: "last ?cs = Extract_fast [Sumadd_fast n7]" by (simp add: reduce_512_columns_def Let_def ls)
  have fit: "columns_fit op_max (butlast ?cs) 4294967295" by (simp add: reduce_512_columns_def Let_def)
  have c: "accu_val ?c \<le> 4294967295" using unat32_less [of "l ! 0"] by (simp add: accu_val_def)
  have nc4: "unat SECP256K1_N_C_4 = 1" by (simp add: SECP256K1_N_C_4_def)
  have v: "accu_val ?c + columns_val ?cs = val32 (take 8 l) + val32 (drop 8 l) * order_complement"
    unfolding complement_limbs lo hi
    by (simp add: reduce_512_columns_def Let_def accu_val_def ls nc4, simp add: algebra_simps)
  have "val32 (take 8 l) < 2 ^ 256" "val32 (drop 8 l) < 2 ^ 256"
    using val32_less [of "take 8 l"] val32_less [of "drop 8 l"] l by simp_all
  moreover have "val32 (drop 8 l) * order_complement \<le> 2 ^ 256 * order_complement"
    using calculation(2) by (intro mult_le_mono1) simp
  ultimately have "accu_val ?c + columns_val ?cs < 2 ^ (32 * length ?cs + 32)"
    unfolding v len by (simp add: group_order_def)
  from run_columns_correct [OF len(1) last fit c this] show ?thesis
    unfolding scalar_reduce_512_385_def v by (simp add: len)
qed

lemma val32_append: "val32 (xs @ ys) = val32 xs + 2 ^ (32 * length xs) * val32 ys"
  by (induction xs) (auto simp: power_add algebra_simps)

lemma val32_split: "8 \<le> length xs \<Longrightarrow> val32 xs = val32 (take 8 xs) + 2 ^ 256 * val32 (drop 8 xs)"
  using val32_append [of "take 8 xs" "drop 8 xs"] by (simp add: min.absorb2)

text \<open>Modulo the order, \<open>2 ^ 256\<close> is its complement.\<close>

lemma fold_high: "(lo + hi * order_complement) mod group_order = (lo + 2 ^ 256 * hi) mod group_order"
proof -
  define C where "C = order_complement"
  have e: "2 ^ 256 = C + group_order" unfolding C_def using complement_positive(1) by simp
  have "lo + (C + group_order) * hi = lo + hi * C + hi * group_order" by (simp add: algebra_simps)
  then show ?thesis unfolding C_def [symmetric] e by (simp only: mod_mult_self1 diff_add_inverse2)
qed

text \<open>The sizes of the three steps.\<close>

lemma val32_take_less: "val32 (take 8 xs) < 2 ^ 256"
proof -
  have "(2 :: nat) ^ (32 * length (take 8 xs)) \<le> 2 ^ 256" by (rule power_increasing) auto
  with val32_less [of "take 8 xs"] show ?thesis by (rule less_le_trans)
qed

lemma five_limbs:
  assumes "length d = 5"
  obtains d0 d1 d2 d3 d4 where "d = [d0, d1, d2, d3, d4]"
  using assms by (auto simp: length_Suc_conv numeral_eq_Suc)

lemma reduce_385_258_correct:
  assumes m: "length m = 13" and small: "val32 (drop 8 m) \<le> order_complement"
  shows "length (scalar_reduce_385_258 m) = 9 \<and>
     val32 (scalar_reduce_385_258 m) = val32 (take 8 m) + val32 (drop 8 m) * order_complement"
proof -
  obtain m0 m1 m2 m3 m4 m5 m6 m7 where lo: "take 8 m = [m0, m1, m2, m3, m4, m5, m6, m7]"
    using m by (auto intro: eight_limbs [of "take 8 m"])
  obtain m8 m9 m10 m11 m12 where hi: "drop 8 m = [m8, m9, m10, m11, m12]"
    using m by (auto intro: five_limbs [of "drop 8 m"])
  have ms: "m = [m0, m1, m2, m3, m4, m5, m6, m7, m8, m9, m10, m11, m12]"
    using append_take_drop_id [of 8 m] unfolding lo hi by simp
  let ?cs = "reduce_385_columns m" and ?c = "(m ! 0, 0, 0)"
  have len: "?cs \<noteq> []" "length ?cs = 8" by (simp_all add: reduce_385_columns_def Let_def)
  have last: "last ?cs = Extract_fast [Sumadd_fast m7, Muladd_fast m12 SECP256K1_N_C_3, Sumadd_fast m11]"
    by (simp add: reduce_385_columns_def Let_def ms)
  have fit: "columns_fit op_max (butlast ?cs) 4294967295" by (simp add: reduce_385_columns_def Let_def)
  have c: "accu_val ?c \<le> 4294967295" using unat32_less [of "m ! 0"] by (simp add: accu_val_def)
  have nc4: "unat SECP256K1_N_C_4 = 1" by (simp add: SECP256K1_N_C_4_def)
  have v: "accu_val ?c + columns_val ?cs + 2 ^ 256 * unat m12 = val32 (take 8 m) + val32 (drop 8 m) * order_complement"
    unfolding complement_limbs lo hi
    by (simp add: reduce_385_columns_def Let_def accu_val_def ms nc4, simp add: algebra_simps)
  have "val32 (drop 8 m) * order_complement \<le> order_complement * order_complement" using small by (rule mult_le_mono1)
  then have lt: "val32 (take 8 m) + val32 (drop 8 m) * order_complement < 2 ^ 256 * 3"
    using val32_take_less [of m] by (simp add: group_order_def)
  then have "accu_val ?c + columns_val ?cs < 2 ^ (32 * length ?cs + 32)"
    unfolding len using v by simp
  from run_columns_correct [OF len(1) last fit c this]
  have r: "length (run_columns ?cs ?c) = 9" "val32 (run_columns ?cs ?c) = accu_val ?c + columns_val ?cs"
    by (simp_all add: len)
  obtain q x where q: "run_columns ?cs ?c = q @ [x]" "length q = 8"
    using r(1) by (cases "run_columns ?cs ?c" rule: rev_cases) auto
  have "val32 q + 2 ^ 256 * (unat x + unat m12) < 2 ^ 256 * 3"
    using lt r(2) v by (simp add: q val32_snoc)
  then have "2 ^ 256 * (unat x + unat m12) < 2 ^ 256 * 3" by linarith
  then have "unat (x + m12) = unat x + unat m12" by (simp add: unat_word_ariths)
  moreover have "scalar_reduce_385_258 m = q @ [x + m12]"
    unfolding scalar_reduce_385_258_def Let_def q(1) by (simp add: nth_append list_update_append q(2)) (simp add: ms)
  ultimately show ?thesis using r(2) v by (simp add: q val32_snoc)
qed

lemma unat_carry_flag:
  assumes "unat (c :: u64) \<le> 1"
  shows "unat (ucast c + word_of_int (of_bool b) :: u32) = unat c + of_bool b"
proof -
  have "unat (ucast c :: u32) = unat c"
    using assms by (simp add: unsigned_ucast_eq take_bit_nat_eq_self)
  with assms show ?thesis by (cases b) (simp_all add: unat_word_ariths)
qed

lemma scalar_reduce_512_correct:
  assumes l: "length l = 16"
  shows "scalar_reduced (secp256k1_scalar_reduce_512 l) \<and> scalar_val (secp256k1_scalar_reduce_512 l) = val32 l mod group_order"
proof -
  let ?m = "scalar_reduce_512_385 l" let ?p = "scalar_reduce_385_258 ?m"
  have m: "length ?m = 13" "val32 ?m = val32 (take 8 l) + val32 (drop 8 l) * order_complement"
    using reduce_512_385_correct [OF l] by simp_all
  have "val32 (drop 8 l) < 2 ^ 256" using val32_less [of "drop 8 l"] l by simp
  then have "val32 (drop 8 l) * order_complement \<le> (2 ^ 256 - 1) * order_complement" by (intro mult_le_mono1) simp
  then have "2 ^ 256 * val32 (drop 8 ?m) < 2 ^ 256 * (order_complement + 1)"
    using m val32_split [of ?m] val32_take_less [of l] by (simp add: group_order_def)
  then have small: "val32 (drop 8 ?m) \<le> order_complement" by simp
  have p: "length ?p = 9" "val32 ?p = val32 (take 8 ?m) + val32 (drop 8 ?m) * order_complement"
    using reduce_385_258_correct [OF m(1) small] by simp_all
  obtain p0 p1 p2 p3 p4 p5 p6 p7 where lo: "take 8 ?p = [p0, p1, p2, p3, p4, p5, p6, p7]"
    using p(1) by (auto intro: eight_limbs [of "take 8 ?p"])
  obtain p8 where hi: "drop 8 ?p = [p8]"
    using p(1) by (cases "drop 8 ?p") (auto simp: drop_eq_Nil2 dest: arg_cong [of _ _ length])
  have ps: "?p = [p0, p1, p2, p3, p4, p5, p6, p7, p8]"
    using append_take_drop_id [of 8 ?p] unfolding lo hi by simp
  have "val32 (drop 8 ?m) * order_complement \<le> order_complement * order_complement" using small by (rule mult_le_mono1)
  then have "2 ^ 256 * unat p8 < 2 ^ 256 * 3"
    using p val32_split [of ?p] val32_take_less [of ?m] by (simp add: hi group_order_def)
  then have p8: "unat p8 \<le> 2" by simp
  let ?P = "ucast p8 :: u64"
  let ?xs = "[ucast p0 + ucast SECP256K1_N_C_0 * ?P, ucast p1 + ucast SECP256K1_N_C_1 * ?P,
      ucast p2 + ucast SECP256K1_N_C_2 * ?P, ucast p3 + ucast SECP256K1_N_C_3 * ?P,
      ucast p4 + ?P, ucast p5, ucast p6, ucast p7]"
  have mult: "unat x * unat p8 < 8589934592" for x :: u32
    using unat32_less [of x] p8 mult_le_mono [of "unat x" 4294967295 "unat p8" 2] by simp
  have add: "unat (ucast x + ucast y * ?P) = unat x + unat y * unat p8" "unat (ucast x + ?P) = unat x + unat p8" for x y :: u32
    using unat32_less [of x] mult [of y] p8 by (simp_all add: unat_add_u64 unat_mult_u64)
  have bound: "\<forall>x \<in> set ?xs. unat x < 2 ^ 36"
    using unat32_less [of p0] unat32_less [of p1] unat32_less [of p2] unat32_less [of p3] unat32_less [of p4]
      unat32_less [of p5] unat32_less [of p6] unat32_less [of p7] p8 mult [of SECP256K1_N_C_0] mult [of SECP256K1_N_C_1]
      mult [of SECP256K1_N_C_2] mult [of SECP256K1_N_C_3] by (simp add: add)
  let ?v = "val32 (take 8 ?p) + unat p8 * order_complement"
  have nc4: "unat SECP256K1_N_C_4 = 1" by (simp add: SECP256K1_N_C_4_def)
  have v: "val64 ?xs = ?v" unfolding complement_limbs lo by (simp add: add nc4, simp add: algebra_simps)
  have "unat p8 * order_complement \<le> 2 * order_complement" using p8 by (rule mult_le_mono1)
  then have less: "?v < 2 * group_order" using val32_take_less [of ?p] by (simp add: group_order_def)
  obtain rs c where rs: "limbs 0xFFFFFFFF 0 ?xs = (rs, c)" by (cases "limbs 0xFFFFFFFF 0 ?xs")
  note l8 = limbs_eight [OF bound _ rs, unfolded v]
  have chk: "secp256k1_scalar_check_overflow \<lparr>scalar_d = rs\<rparr> = of_bool (group_order \<le> val32 rs)"
    using l8(1) check_overflow_correct [of "\<lparr>scalar_d = rs\<rparr>"] by (simp add: scalar_wf_def scalar_val_def)
  let ?ov = "ucast c + word_of_int (secp256k1_scalar_check_overflow \<lparr>scalar_d = rs\<rparr>) :: u32"
  have "?v div 2 ^ 256 \<le> 1" using less by (intro less_Suc_eq_le [THEN iffD1] less_mult_imp_div_less) (simp add: group_order_def)
  then have c1: "unat c \<le> 1" using l8(3) by simp
  have "unat ?ov = unat c + of_bool (group_order \<le> val32 rs)" unfolding chk by (rule unat_carry_flag [OF c1])
  from final_reduce [OF l8(1) l8(2) l8(3) less this]
  have "scalar_reduced (fst (secp256k1_scalar_reduce \<lparr>scalar_d = rs\<rparr> ?ov)) \<and>
     scalar_val (fst (secp256k1_scalar_reduce \<lparr>scalar_d = rs\<rparr> ?ov)) = ?v mod group_order" by simp
  moreover have "secp256k1_scalar_reduce_512 l = fst (secp256k1_scalar_reduce \<lparr>scalar_d = rs\<rparr> ?ov)"
    unfolding secp256k1_scalar_reduce_512_def Let_def ps using rs by simp
  moreover have "?v mod group_order = val32 l mod group_order"
    using fold_high [of "val32 (take 8 ?p)" "unat p8"] fold_high [of "val32 (take 8 ?m)" "val32 (drop 8 ?m)"]
      fold_high [of "val32 (take 8 l)" "val32 (drop 8 l)"] val32_split [of l] val32_split [of ?m] val32_split [of ?p] l m p
    by (simp add: hi)
  ultimately show ?thesis by simp
qed

section \<open>The operations modulo the order\<close>

lemma scalar_mul_correct:
  assumes "scalar_wf a" and "scalar_wf b"
  shows "scalar_reduced (secp256k1_scalar_mul a b)"
    and "scalar_val (secp256k1_scalar_mul a b) = scalar_val a * scalar_val b mod group_order"
  using scalar_mul_512_correct [OF assms] scalar_reduce_512_correct [of "secp256k1_scalar_mul_512 a b"]
  by (simp_all add: secp256k1_scalar_mul_def)

lemma scalar_sqr_correct:
  assumes "scalar_wf a"
  shows "scalar_reduced (secp256k1_scalar_sqr a)"
    and "scalar_val (secp256k1_scalar_sqr a) = scalar_val a * scalar_val a mod group_order"
  using scalar_sqr_512_correct [OF assms] scalar_reduce_512_correct [of "secp256k1_scalar_sqr_512 a"]
  by (simp_all add: secp256k1_scalar_sqr_def)

lemma unat_add_limbs: "unat (ucast x + ucast y :: u64) = unat x + unat y" for x y :: u32
  using unat32_less [of x] unat32_less [of y] by (simp add: unat_add_u64)

lemma unat_add_limbs_less: "unat (ucast x + ucast y :: u64) < 68719476736" for x y :: u32
  using unat32_less [of x] unat32_less [of y] by (simp add: unat_add_limbs)

lemma scalar_add_correct:
  assumes a: "scalar_reduced x" and b: "scalar_reduced y"
  shows "scalar_reduced (fst (secp256k1_scalar_add x y)) \<and>
     scalar_val (fst (secp256k1_scalar_add x y)) = (scalar_val x + scalar_val y) mod group_order \<and>
     snd (secp256k1_scalar_add x y) = of_bool (group_order \<le> scalar_val x + scalar_val y)"
proof -
  obtain a0 a1 a2 a3 a4 a5 a6 a7 where a': "scalar_d x = [a0, a1, a2, a3, a4, a5, a6, a7]"
    using a by (auto simp: scalar_wf_def scalar_reduced_def elim: eight_limbs)
  obtain b0 b1 b2 b3 b4 b5 b6 b7 where b': "scalar_d y = [b0, b1, b2, b3, b4, b5, b6, b7]"
    using b by (auto simp: scalar_wf_def scalar_reduced_def elim: eight_limbs)
  let ?xs = "[ucast a0 + ucast b0, ucast a1 + ucast b1, ucast a2 + ucast b2, ucast a3 + ucast b3,
      ucast a4 + ucast b4, ucast a5 + ucast b5, ucast a6 + ucast b6, ucast a7 + ucast b7 :: u64]"
  let ?v = "scalar_val x + scalar_val y"
  obtain rs t where rs: "limbs 0xFFFFFFFF 0 ?xs = (rs, t)" by (cases "limbs 0xFFFFFFFF 0 ?xs")
  have v: "val64 ?xs = ?v" unfolding scalar_val_def a' b' by (simp add: unat_add_limbs)
  have bound: "\<forall>x \<in> set ?xs. unat x < 2 ^ 36" by (simp add: unat_add_limbs_less)
  note l8 = limbs_eight [OF bound _ rs, unfolded v]
  have less: "?v < 2 * group_order" using a b by (simp add: scalar_reduced_def)
  have chk: "secp256k1_scalar_check_overflow \<lparr>scalar_d = rs\<rparr> = of_bool (group_order \<le> val32 rs)"
    using l8(1) check_overflow_correct [of "\<lparr>scalar_d = rs\<rparr>"] by (simp add: scalar_wf_def scalar_val_def)
  have "?v div 2 ^ 256 \<le> 1" using less by (intro less_Suc_eq_le [THEN iffD1] less_mult_imp_div_less) (simp add: group_order_def)
  then have t1: "unat t \<le> 1" using l8(3) by simp
  let ?k = "unat t + of_bool (group_order \<le> val32 rs)"
  let ?ov = "int32 (uint t + secp256k1_scalar_check_overflow \<lparr>scalar_d = rs\<rparr>)"
  have k: "?k \<le> 2" using t1 by (cases "group_order \<le> val32 rs") auto
  have "uint t + of_bool (group_order \<le> val32 rs) = int ?k" by simp
  then have ov: "?ov = int ?k" unfolding chk using k by (simp only:) (rule int32_id; linarith)
  have uov: "unat (word_of_int ?ov :: u32) = ?k"
    unfolding ov of_int_of_nat_eq unsigned_of_nat of_nat_id using k by (intro take_bit_nat_eq_self) simp
  have res: "secp256k1_scalar_add x y = (fst (secp256k1_scalar_reduce \<lparr>scalar_d = rs\<rparr> (word_of_int ?ov)), ?ov)"
    unfolding secp256k1_scalar_add_def Let_def a' b' using rs by simp
  note fr = final_reduce [OF l8(1) l8(2) l8(3) less uov]
  then have "?k = of_bool (group_order \<le> ?v)" unfolding uov by simp
  then have "?ov = of_bool (group_order \<le> ?v)" unfolding ov by (simp only: of_nat_of_bool)
  with fr show ?thesis unfolding res by simp
qed

section \<open>Negation\<close>

lemma or_zero: "(x OR y = 0) = (x = 0 \<and> y = (0 :: u32))"
  by (auto simp: bit_eq_iff bit_simps)

lemma val32_zero: "val32 xs = 0 \<longleftrightarrow> (\<forall>x \<in> set xs. x = 0)"
  by (induction xs) (auto simp: unat_eq_0)

lemma scalar_is_zero_correct:
  assumes "scalar_wf a"
  shows "secp256k1_scalar_is_zero a \<longleftrightarrow> scalar_val a = 0"
proof -
  obtain d0 d1 d2 d3 d4 d5 d6 d7 where d: "scalar_d a = [d0, d1, d2, d3, d4, d5, d6, d7]"
    using assms by (auto simp: scalar_wf_def elim: eight_limbs)
  show ?thesis
    unfolding secp256k1_scalar_is_zero_def Let_def scalar_val_def d nth_limbs or_zero val32_zero by simp
qed

lemma limbs_zero_mask: "fst (limbs 0 t xs) = replicate (length xs) 0"
  by (induction xs arbitrary: t) (simp_all add: Let_def split_beta)

lemma unat_not: "unat (NOT x :: u32) + unat x = 4294967295"
proof -
  have "NOT x = - 1 - x" by (simp add: not_eq_complement)
  also have "unat \<dots> = unat (- 1 :: u32) - unat x" by (rule unat_sub) simp
  finally show ?thesis
    using unat32_less [of x] by (simp add: unsigned_minus_1_eq_mask mask_eq_exp_minus_1)
qed

lemma scalar_negate_correct:
  assumes a: "scalar_reduced a"
  shows "scalar_reduced (secp256k1_scalar_negate a) \<and>
     scalar_val (secp256k1_scalar_negate a) = (group_order - scalar_val a) mod group_order"
proof (cases "scalar_val a = 0")
  case True
  then have "secp256k1_scalar_is_zero a" using a scalar_is_zero_correct by (simp add: scalar_reduced_def)
  then have "scalar_d (secp256k1_scalar_negate a) = [0, 0, 0, 0, 0, 0, 0, 0]"
    by (simp add: secp256k1_scalar_negate_def Let_def split_beta limbs_zero_mask del: limbs.simps)
  then show ?thesis
    using True by (simp add: scalar_reduced_def scalar_wf_def scalar_val_def group_order_def)
next
  case False
  obtain d0 d1 d2 d3 d4 d5 d6 d7 where d: "scalar_d a = [d0, d1, d2, d3, d4, d5, d6, d7]"
    using a by (auto simp: scalar_wf_def scalar_reduced_def elim: eight_limbs)
  have nz: "\<not> secp256k1_scalar_is_zero a" using False a scalar_is_zero_correct by (simp add: scalar_reduced_def)
  let ?xs = "[ucast (NOT d0) + ucast SECP256K1_N_0 + 1, ucast (NOT d1) + ucast SECP256K1_N_1,
      ucast (NOT d2) + ucast SECP256K1_N_2, ucast (NOT d3) + ucast SECP256K1_N_3, ucast (NOT d4) + ucast SECP256K1_N_4,
      ucast (NOT d5) + ucast SECP256K1_N_5, ucast (NOT d6) + ucast SECP256K1_N_6, ucast (NOT d7) + ucast SECP256K1_N_7 :: u64]"
  obtain rs t where rs: "limbs 0xFFFFFFFF 0 ?xs = (rs, t)" by (cases "limbs 0xFFFFFFFF 0 ?xs")
  have res: "secp256k1_scalar_negate a = \<lparr>scalar_d = rs\<rparr>"
    unfolding secp256k1_scalar_negate_def Let_def d nth_limbs using nz rs by (simp add: unsigned_numeral)
  have first: "unat (ucast (NOT d0) + ucast SECP256K1_N_0 + 1 :: u64) = unat (NOT d0) + unat SECP256K1_N_0 + 1"
    using unat_add_limbs_less [of "NOT d0" SECP256K1_N_0] by (subst unat_add_u64) (simp_all add: unat_add_limbs)
  have bound: "\<forall>x \<in> set ?xs. unat x < 2 ^ 36"
    using unat32_less [of "NOT d0"] unat32_less [of SECP256K1_N_0] by (simp add: unat_add_limbs_less first)
  have v: "val64 ?xs + scalar_val a = 2 ^ 256 + group_order"
    using unat_not [of d0] unat_not [of d1] unat_not [of d2] unat_not [of d3] unat_not [of d4]
      unat_not [of d5] unat_not [of d6] unat_not [of d7]
    unfolding scalar_val_def d group_order_limbs by (simp add: first unat_add_limbs)
  have lt: "scalar_val a < group_order" "group_order < 2 ^ 256" using a by (simp_all add: scalar_reduced_def group_order_def)
  have "val64 ?xs = group_order - scalar_val a + 2 ^ 256" using v lt by simp
  then have "val64 ?xs mod 2 ^ 256 = (group_order - scalar_val a) mod 2 ^ 256" by (simp only: mod_add_self2)
  also have "\<dots> = group_order - scalar_val a" using lt by (intro mod_less) linarith
  finally have "val64 ?xs mod 2 ^ 256 = group_order - scalar_val a" .
  with limbs_eight [OF bound _ rs] False lt show ?thesis
    unfolding res by (simp add: scalar_reduced_def scalar_wf_def scalar_val_def)
qed

text \<open>With a flag the masked code negates, without it adds zeros.\<close>

lemma limbs_same:
  "limbs 0xFFFFFFFF 0 (map ucast xs) = (xs, 0)"
proof (induction xs)
  case (Cons x xs)
  have "(ucast (ucast x :: u64) :: u32) = x" by (intro bit_word_eqI) (simp add: bit_simps)
  moreover have "drop_bit 32 (ucast x :: u64) = 0" by (intro bit_word_eqI) (auto simp: bit_simps dest: bit_imp_le_length)
  ultimately show ?case using Cons.IH by (simp add: Let_def ucast_mask32)
qed simp

lemma limbs_zeros: "limbs m 0 (map ucast xs) = (xs, 0)" if "\<forall>x \<in> set xs. x = (0 :: u32)"
  using that by (induction xs) (simp_all add: Let_def)

lemma scalar_cond_negate_correct:
  assumes a: "scalar_wf a"
  shows "secp256k1_scalar_cond_negate a flag = (if flag = 0 then (a, 1) else (secp256k1_scalar_negate a, - 1))"
proof (cases "flag = 0")
  case True
  obtain d0 d1 d2 d3 d4 d5 d6 d7 where d: "scalar_d a = [d0, d1, d2, d3, d4, d5, d6, d7]"
    using a by (auto simp: scalar_wf_def elim: eight_limbs)
  have "limbs (ucast (0xFFFFFFFF * of_bool (\<not> secp256k1_scalar_is_zero a) :: u32)) 0 (map ucast (scalar_d a)) = (scalar_d a, 0)"
  proof (cases "secp256k1_scalar_is_zero a")
    case True
    then have "\<forall>x \<in> set (scalar_d a). x = 0"
      using scalar_is_zero_correct [OF a] val32_zero by (simp add: scalar_val_def)
    then show ?thesis by (rule limbs_zeros)
  next
    case False
    then show ?thesis using limbs_same [of "scalar_d a"] by simp
  qed
  then show ?thesis using True d by (simp add: secp256k1_scalar_cond_negate_def Let_def)
next
  case False
  have xor: "x XOR (- 1) = NOT x" "x AND (- 1) = x" for x :: u32 by simp_all
  have first: "ucast (NOT d0) + ucast (SECP256K1_N_0 + 1) = (ucast (NOT d0) + ucast SECP256K1_N_0 + 1 :: u64)" for d0 :: u32
    by (simp add: SECP256K1_N_0_def)
  show ?thesis using False
    by (simp add: secp256k1_scalar_cond_negate_def secp256k1_scalar_negate_def Let_def first split_beta del: limbs.simps)
qed

lemma scalar_low_half_facts:
  assumes a: "scalar_reduced a"
  shows "(\<lambda>(r, s). scalar_reduced r \<and> secp256k1_scalar_is_high r = 0 \<and>
     scalar_val r = min (scalar_val a) (group_order - scalar_val a) \<and>
     s = (if group_order div 2 < scalar_val a then - 1 else 1))
     (secp256k1_scalar_cond_negate a (secp256k1_scalar_is_high a))"
proof -
  have wf: "scalar_wf a" and less: "scalar_val a < group_order" using a by (simp_all add: scalar_reduced_def)
  note neg = scalar_negate_correct [OF a] and high = is_high_correct [OF wf]
  have odd: "group_order = 2 * (group_order div 2) + 1" by (simp add: group_order_def)
  show ?thesis
  proof (cases "group_order div 2 < scalar_val a")
    case True
    then have "0 < scalar_val a" by simp
    then have "scalar_val (secp256k1_scalar_negate a) = group_order - scalar_val a" using neg less by simp
    with True neg less odd is_high_correct [of "secp256k1_scalar_negate a"] show ?thesis
      by (simp add: high scalar_cond_negate_correct [OF wf] scalar_reduced_def)
  next
    case False
    with a odd show ?thesis by (simp add: high scalar_cond_negate_correct [OF wf])
  qed
qed

section \<open>Powers\<close>

text \<open>The interface of multiplication and squaring modulo a number, and addition chains over it: the
  exponents add up.\<close>

locale modular_mult =
  fixes mul :: "'s \<Rightarrow> 's \<Rightarrow> 's"
    and sqr :: "'s \<Rightarrow> 's"
    and val :: "'s \<Rightarrow> nat"
    and good :: "'s \<Rightarrow> bool"
    and modulus :: nat
  assumes mul_wf: "good a \<Longrightarrow> good b \<Longrightarrow> good (mul a b)"
    and mul_val: "good a \<Longrightarrow> good b \<Longrightarrow> val (mul a b) mod modulus = val a * val b mod modulus"
    and sqr_wf: "good a \<Longrightarrow> good (sqr a)"
    and sqr_val: "good a \<Longrightarrow> val (sqr a) mod modulus = val a * val a mod modulus"
begin

lemma base_power: "good x \<Longrightarrow> power_of good val modulus (val x) x 1"
  by (simp add: power_of_def)

lemma mul_power:
  assumes "power_of good val modulus x a i" and "power_of good val modulus x b j"
  shows "power_of good val modulus x (mul a b) (i + j)"
  using assms by (auto simp: power_of_def mul_wf mul_val power_add) (metis mod_mult_eq)

lemma sqr_power:
  assumes "power_of good val modulus x a i"
  shows "power_of good val modulus x (sqr a) (2 * i)"
  using assms by (auto simp: power_of_def sqr_wf sqr_val mult_2 power_add) (metis mod_mult_eq)

lemma sqrs_power:
  assumes "power_of good val modulus x a i"
  shows "power_of good val modulus x ((sqr ^^ k) a) (2 ^ k * i)"
proof (induction k)
  case (Suc k)
  from sqr_power [OF this] show ?case by (simp add: mult.assoc)
qed (use assms in simp)

lemma sqrs_wf: "good a \<Longrightarrow> good ((sqr ^^ k) a)"
  by (induction k) (simp_all add: sqr_wf)

lemmas chain_wf = mul_wf sqrs_wf sqr_wf

lemmas chain_rules = mul_power sqrs_power sqr_power base_power

end

interpretation scalar: modular_mult secp256k1_scalar_mul secp256k1_scalar_sqr scalar_val scalar_wf group_order
  by unfold_locales (auto simp: scalar_mul_correct scalar_sqr_correct scalar_reduced_def dest: scalar_mul_correct(1) scalar_sqr_correct(1))

lemma scalar_inverse_power:
  assumes "scalar_wf x"
  shows "\<exists>e. power_of scalar_wf scalar_val group_order (scalar_val x) (secp256k1_scalar_inverse x) e \<and> e = group_order - 2"
  unfolding secp256k1_scalar_inverse_def Let_def
  apply (intro exI conjI)
   apply (rule scalar.chain_rules assms)+
  apply (simp add: group_order_def)
  done

lemma scalar_inverse_reduced:
  assumes "scalar_wf x"
  shows "scalar_reduced (secp256k1_scalar_inverse x)"
  unfolding secp256k1_scalar_inverse_def Let_def
  by (rule scalar_mul_correct(1)) (rule scalar.chain_wf assms)+

section \<open>Bytes\<close>

lemma val32_inject: "length xs = length ys \<Longrightarrow> val32 xs = val32 ys \<longleftrightarrow> xs = ys"
proof (induction xs ys rule: list_induct2)
  case (Cons x xs y ys)
  then show ?case unfolding val32_eq_Cons by auto
qed simp

lemma scalar_val_inject: "scalar_wf a \<Longrightarrow> scalar_wf b \<Longrightarrow> scalar_val a = scalar_val b \<longleftrightarrow> a = b"
  by (cases a; cases b) (simp add: scalar_wf_def scalar_val_def val32_inject)

lemma be_val_inject: "length xs = length ys \<Longrightarrow> be_val xs = be_val ys \<longleftrightarrow> xs = ys"
  using le_val_inject [of "rev xs" "rev ys"] le_val_bound [of "rev xs"] le_val_bound [of "rev ys"]
  by (auto simp: be_val_def nat_eq_iff)

text \<open>Four bytes and a limb.\<close>

lemma limb_of_bytes:
  "unat (ucast b3 OR push_bit 8 (ucast b2) OR push_bit 16 (ucast b1) OR push_bit 24 (ucast (b0 :: byte)) :: u32) =
     nat (le_val [b3, b2, b1, b0])"
proof -
  have "(ucast b3 OR push_bit 8 (ucast b2) OR push_bit 16 (ucast b1) OR push_bit 24 (ucast b0) :: u32) =
      word_of_int (le_val [b3, b2, b1, b0])"
    by (simp add: le_val_Cons_word push_bit_or del: le_val.simps(2))
  moreover have "0 \<le> le_val [b3, b2, b1, b0] \<and> le_val [b3, b2, b1, b0] < 4294967296"
    using le_val_bound [of "[b3, b2, b1, b0]"] by simp
  ultimately show ?thesis by (simp add: unsigned_of_int take_bit_int_eq_self del: le_val.simps)
qed

lemma bytes_of_limb:
  "le_val [ucast d, ucast (drop_bit 8 d), ucast (drop_bit 16 d), ucast (drop_bit 24 d)] = uint (d :: u32)"
proof -
  have "ucast (ucast d :: byte) OR push_bit 8 (ucast (ucast (drop_bit 8 d) :: byte)) OR
      push_bit 16 (ucast (ucast (drop_bit 16 d) :: byte)) OR push_bit 24 (ucast (ucast (drop_bit 24 d) :: byte)) = d"
  proof (rule bit_word_eqI)
    fix n assume "n < LENGTH(32)"
    then consider "n < 8" | "8 \<le> n" "n < 16" | "16 \<le> n" "n < 24" | "24 \<le> n" "n < 32" by fastforce
    then show "bit (ucast (ucast d :: byte) OR push_bit 8 (ucast (ucast (drop_bit 8 d) :: byte)) OR
      push_bit 16 (ucast (ucast (drop_bit 16 d) :: byte)) OR push_bit 24 (ucast (ucast (drop_bit 24 d) :: byte)) :: u32) n = bit d n"
      by cases (auto simp: bit_simps)
  qed
  with limb_of_bytes [of "ucast d" "ucast (drop_bit 8 d)" "ucast (drop_bit 16 d)" "ucast (drop_bit 24 d)"]
  have "nat (le_val [ucast d, ucast (drop_bit 8 d), ucast (drop_bit 16 d), ucast (drop_bit 24 d)]) = unat d"
    by (simp del: le_val.simps)
  then show ?thesis
    using le_val_bound [of "[ucast d, ucast (drop_bit 8 d), ucast (drop_bit 16 d), ucast (drop_bit 24 d)]"]
    by (metis nat_0_le of_nat_unat)
qed

lemma le_val_append: "le_val (xs @ ys) = le_val xs + 256 ^ length xs * le_val ys"
  by (induction xs) (auto simp: algebra_simps)

lemma get_b32_val:
  assumes "scalar_wf a"
  shows "length (secp256k1_scalar_get_b32 a) = 32 \<and> be_val (secp256k1_scalar_get_b32 a) = scalar_val a"
proof -
  obtain d0 d1 d2 d3 d4 d5 d6 d7 where d: "scalar_d a = [d0, d1, d2, d3, d4, d5, d6, d7]"
    using assms by (auto simp: scalar_wf_def elim: eight_limbs)
  let ?b = "\<lambda>d. [ucast d, ucast (drop_bit 8 d), ucast (drop_bit 16 d), ucast (drop_bit 24 d)]"
  have rev: "rev (secp256k1_scalar_get_b32 a) = ?b d0 @ ?b d1 @ ?b d2 @ ?b d3 @ ?b d4 @ ?b d5 @ ?b d6 @ ?b d7"
    unfolding secp256k1_scalar_get_b32_def Let_def d nth_limbs by simp
  have "le_val (rev (secp256k1_scalar_get_b32 a)) = int (scalar_val a)"
    unfolding rev scalar_val_def d le_val_append bytes_of_limb by simp
  moreover have "length (secp256k1_scalar_get_b32 a) = 32"
    unfolding secp256k1_scalar_get_b32_def Let_def by simp
  ultimately show ?thesis by (simp add: be_val_def)
qed

lemma set_b32_val:
  assumes "length b32 = 32"
  shows "scalar_reduced (fst (secp256k1_scalar_set_b32 b32)) \<and>
     scalar_val (fst (secp256k1_scalar_set_b32 b32)) = be_val b32 mod group_order \<and>
     snd (secp256k1_scalar_set_b32 b32) = of_bool (group_order \<le> be_val b32)"
proof -
  let ?w = "\<lambda>i. ucast (b32 ! (i + 3)) OR push_bit 8 (ucast (b32 ! (i + 2))) OR
      push_bit 16 (ucast (b32 ! (i + 1))) OR push_bit 24 (ucast (b32 ! i)) :: u32"
  let ?b = "\<lambda>i. [b32 ! (i + 3), b32 ! (i + 2), b32 ! (i + 1), b32 ! i]"
  let ?d = "[?w 28, ?w 24, ?w 20, ?w 16, ?w 12, ?w 8, ?w 4, ?w 0]"
  have rev: "rev b32 = ?b 28 @ ?b 24 @ ?b 20 @ ?b 16 @ ?b 12 @ ?b 8 @ ?b 4 @ ?b 0"
    using assms by (intro nth_equalityI) (auto simp: rev_nth nth_Cons' less_Suc_eq numeral_eq_Suc)
  have pos: "0 \<le> le_val bs" for bs using le_val_bound [of bs] by simp
  have v: "val32 ?d = be_val b32"
    unfolding be_val_def rev le_val_append val32.simps limb_of_bytes
    using pos by (simp add: nat_add_distrib nat_mult_distrib del: le_val.simps)
  then have less: "be_val b32 < 2 ^ 256" using val32_less [of ?d] by simp
  have chk: "secp256k1_scalar_check_overflow \<lparr>scalar_d = ?d\<rparr> = of_bool (group_order \<le> val32 ?d)"
    using check_overflow_correct [of "\<lparr>scalar_d = ?d\<rparr>"] by (simp add: scalar_wf_def scalar_val_def)
  let ?ov = "word_of_int (secp256k1_scalar_check_overflow \<lparr>scalar_d = ?d\<rparr>) :: u32"
  have ov: "?ov = of_bool (group_order \<le> be_val b32)" unfolding chk v by simp
  have "length ?d = 8" "val32 ?d = be_val b32 mod 2 ^ 256" "0 = be_val b32 div 2 ^ 256" "be_val b32 < 2 * group_order"
    "unat ?ov = 0 + of_bool (group_order \<le> val32 ?d)"
    using less unfolding ov v by (simp_all add: group_order_def)
  from final_reduce [OF this]
  have "scalar_reduced (fst (secp256k1_scalar_reduce \<lparr>scalar_d = ?d\<rparr> ?ov)) \<and>
     scalar_val (fst (secp256k1_scalar_reduce \<lparr>scalar_d = ?d\<rparr> ?ov)) = be_val b32 mod group_order" by simp
  moreover have "secp256k1_scalar_set_b32 b32 = secp256k1_scalar_reduce \<lparr>scalar_d = ?d\<rparr> ?ov"
    unfolding secp256k1_scalar_set_b32_def Let_def ..
  moreover have "snd (secp256k1_scalar_reduce r o') = o'" for r o'
    by (simp add: secp256k1_scalar_reduce_def Let_def split_beta)
  ultimately show ?thesis by (simp only: ov)
qed

lemma set_get_b32:
  assumes "scalar_reduced a"
  shows "secp256k1_scalar_set_b32 (secp256k1_scalar_get_b32 a) = (a, 0)"
proof -
  have a: "scalar_wf a" "scalar_val a < group_order" using assms by (simp_all add: scalar_reduced_def)
  let ?r = "secp256k1_scalar_set_b32 (secp256k1_scalar_get_b32 a)"
  have "scalar_reduced (fst ?r)" "scalar_val (fst ?r) = scalar_val a" "snd ?r = 0"
    using set_b32_val [of "secp256k1_scalar_get_b32 a"] get_b32_val [OF a(1)] a(2) by simp_all
  then show ?thesis
    using scalar_val_inject [of "fst ?r" a] a(1) by (cases ?r) (simp add: scalar_reduced_def)
qed

lemma get_set_b32:
  assumes "length b32 = 32" and "be_val b32 < group_order"
  shows "secp256k1_scalar_get_b32 (fst (secp256k1_scalar_set_b32 b32)) = b32"
proof -
  let ?r = "fst (secp256k1_scalar_set_b32 b32)"
  have "scalar_wf ?r" "scalar_val ?r = be_val b32"
    using set_b32_val [OF assms(1)] assms(2) by (simp_all add: scalar_reduced_def)
  with get_b32_val [of ?r] assms(1) show ?thesis
    using be_val_inject [of "secp256k1_scalar_get_b32 ?r" b32] by simp
qed

section \<open>Comparisons\<close>

lemma limb_xor_zero: "(x XOR y = 0) = (x = (y :: u32))"
  by (auto simp: bit_eq_iff bit_simps)

lemma scalar_eq_correct:
  assumes "scalar_wf a" and "scalar_wf b"
  shows "secp256k1_scalar_eq a b \<longleftrightarrow> scalar_val a = scalar_val b"
proof -
  obtain a0 a1 a2 a3 a4 a5 a6 a7 where a: "scalar_d a = [a0, a1, a2, a3, a4, a5, a6, a7]"
    using assms by (auto simp: scalar_wf_def elim: eight_limbs)
  obtain b0 b1 b2 b3 b4 b5 b6 b7 where b: "scalar_d b = [b0, b1, b2, b3, b4, b5, b6, b7]"
    using assms by (auto simp: scalar_wf_def elim: eight_limbs)
  show ?thesis
    unfolding secp256k1_scalar_eq_def Let_def scalar_val_def a b nth_limbs or_zero limb_xor_zero val32_eq_Cons by auto
qed

lemma scalar_is_one_correct:
  assumes "scalar_wf a"
  shows "secp256k1_scalar_is_one a \<longleftrightarrow> scalar_val a = 1"
proof -
  obtain d0 d1 d2 d3 d4 d5 d6 d7 where d: "scalar_d a = [d0, d1, d2, d3, d4, d5, d6, d7]"
    using assms by (auto simp: scalar_wf_def elim: eight_limbs)
  have "val32 [1, 0, 0, 0, 0, 0, 0, 0] = 1" by simp
  then have "scalar_val a = 1 \<longleftrightarrow> val32 [d0, d1, d2, d3, d4, d5, d6, d7] = val32 [1, 0, 0, 0, 0, 0, 0, 0]"
    by (simp only: scalar_val_def d)
  then show ?thesis
    unfolding secp256k1_scalar_is_one_def Let_def d nth_limbs or_zero limb_xor_zero val32_eq_Cons by auto
qed

lemma scalar_is_even_correct:
  assumes "scalar_wf a"
  shows "secp256k1_scalar_is_even a \<longleftrightarrow> even (scalar_val a)"
proof -
  obtain d0 d1 d2 d3 d4 d5 d6 d7 where d: "scalar_d a = [d0, d1, d2, d3, d4, d5, d6, d7]"
    using assms by (auto simp: scalar_wf_def elim: eight_limbs)
  have "d0 AND 1 = 0 \<longleftrightarrow> even (unat d0)"
    using bit_unsigned_iff [where ?'a = nat, of d0 0] by (simp add: and_one_eq mod_2_eq_odd bit_0)
  then show ?thesis by (simp add: secp256k1_scalar_is_even_def scalar_val_def d)
qed

section \<open>Inverses\<close>

lemma scalar_inverse_facts:
  assumes x: "scalar_wf x"
  defines "y \<equiv> secp256k1_scalar_inverse x"
  shows "scalar_reduced y" and "scalar_val y = scalar_val x ^ (group_order - 2) mod group_order"
    and "scalar_val x ^ (group_order - 1) mod group_order = 1 \<Longrightarrow>
       scalar_val (secp256k1_scalar_mul x y) = 1 \<and> secp256k1_scalar_is_one (secp256k1_scalar_mul x y)"
proof -
  have p: "scalar_wf y" "scalar_val y mod group_order = scalar_val x ^ (group_order - 2) mod group_order"
    using scalar_inverse_power [OF x] by (auto simp: power_of_def y_def)
  show red: "scalar_reduced y" using scalar_inverse_reduced [OF x] by (simp add: y_def)
  with p show v: "scalar_val y = scalar_val x ^ (group_order - 2) mod group_order" by (simp add: scalar_reduced_def)
  have "scalar_val (secp256k1_scalar_mul x y) = scalar_val x * scalar_val x ^ (group_order - 2) mod group_order"
    using scalar_mul_correct(2) [OF x p(1)] by (simp add: v mod_mult_right_eq)
  also have "\<dots> = scalar_val x ^ (group_order - 1) mod group_order"
  proof -
    have "Suc (group_order - 2) = group_order - 1" by (simp add: group_order_def)
    then show ?thesis by (metis power_Suc)
  qed
  finally show "scalar_val x ^ (group_order - 1) mod group_order = 1 \<Longrightarrow>
       scalar_val (secp256k1_scalar_mul x y) = 1 \<and> secp256k1_scalar_is_one (secp256k1_scalar_mul x y)"
    using scalar_is_one_correct scalar_mul_correct(1) [OF x p(1)] by (simp add: scalar_reduced_def)
qed

section \<open>Bits and shifts\<close>

text \<open>A window of two limbs: the low \<open>32 - s\<close> bits come from the lower one.\<close>

lemma unat_drop_bit: "unat (drop_bit s (x :: u32)) = unat x div 2 ^ s"
  unfolding unat_drop_bit_eq by (simp add: drop_bit_eq_div)

lemma unat_push_bit: "s \<le> 32 \<Longrightarrow> unat (push_bit (32 - s) (y :: u32)) = unat y mod 2 ^ s * 2 ^ (32 - s)"
proof -
  assume s: "s \<le> 32"
  have "unat (push_bit (32 - s) y) = take_bit 32 (push_bit (32 - s) (unat y))"
    by (simp add: unsigned_push_bit_eq)
  also have "\<dots> = push_bit (32 - s) (take_bit s (unat y))"
    using s by (simp add: take_bit_push_bit)
  finally show ?thesis by (simp add: push_bit_eq_mult take_bit_eq_mod)
qed

lemma drop_push_disjoint: "s < 32 \<Longrightarrow> drop_bit s x + push_bit (32 - s) y = drop_bit s x OR push_bit (32 - s) (y :: u32)"
  by (rule disjunctive_add) (auto simp: bit_simps dest: bit_imp_le_length)

lemma unat_window:
  assumes "s < 32"
  shows "unat (drop_bit s x OR push_bit (32 - s) (y :: u32)) = unat x div 2 ^ s + unat y mod 2 ^ s * 2 ^ (32 - s)"
proof -
  have s: "(2 :: nat) ^ s * 2 ^ (32 - s) = 4294967296" using assms by (simp flip: power_add)
  have "unat x div 2 ^ s < 2 ^ (32 - s)" using unat32_less [of x] s by (simp add: less_mult_imp_div_less mult.commute)
  moreover have "unat y mod 2 ^ s * 2 ^ (32 - s) \<le> (2 ^ s - 1) * 2 ^ (32 - s)"
    by (intro mult_le_mono1) (simp add: Suc_leI le_diff_conv2 less_Suc_eq_le [symmetric])
  moreover have "(2 :: nat) ^ (32 - s) \<le> 4294967296" using power_increasing [of "32 - s" 32 "2 :: nat"] by simp
  ultimately have "unat x div 2 ^ s + unat y mod 2 ^ s * 2 ^ (32 - s) < 4294967296"
    using s by (simp add: diff_mult_distrib)
  then show ?thesis
    using assms by (simp add: drop_push_disjoint [symmetric] unat_word_ariths unat_drop_bit unat_push_bit)
qed

lemma val32_mod: "s \<le> 32 \<Longrightarrow> val32 xs mod 2 ^ s = unat (case xs of [] \<Rightarrow> 0 | y # _ \<Rightarrow> y) mod 2 ^ s"
proof (cases xs)
  case (Cons x ys)
  moreover assume "s \<le> 32"
  then have "(2 :: nat) ^ s dvd 4294967296" using le_imp_power_dvd [of s 32 "2 :: nat"] by simp
  ultimately show ?thesis by (simp add: mod_add_eq [symmetric] mod_eq_0_iff_dvd dvd_mult2)
qed simp

lemma shift_limbs_val: "s < 32 \<Longrightarrow> val32 (shift_limbs s xs) = val32 xs div 2 ^ s"
proof (induction xs)
  case (Cons x xs)
  let ?y = "case xs of [] \<Rightarrow> 0 | y # _ \<Rightarrow> y"
  have p: "(4294967296 :: nat) = 2 ^ (32 - s) * 2 ^ s" using Cons.prems by (simp flip: power_add)
  have "val32 (shift_limbs s (x # xs)) = unat x div 2 ^ s + unat ?y mod 2 ^ s * 2 ^ (32 - s) + 4294967296 * (val32 xs div 2 ^ s)"
    using Cons by (simp add: unat_window)
  also have "\<dots> = unat x div 2 ^ s + 2 ^ (32 - s) * (val32 xs mod 2 ^ s + 2 ^ s * (val32 xs div 2 ^ s))"
    using Cons.prems by (simp add: val32_mod p algebra_simps)
  also have "\<dots> = unat x div 2 ^ s + 2 ^ (32 - s) * val32 xs" by simp
  also have "\<dots> = (unat x + 4294967296 * val32 xs) div 2 ^ s"
    by (simp add: p mult.commute [of _ "2 ^ s"] mult.assoc)
  finally show ?case by simp
qed simp

lemma mask_val: "unat (x AND (push_bit n 1 - 1) :: u32) = unat x mod 2 ^ n"
proof -
  have e: "push_bit n 1 - 1 = (mask n :: u32)" by (simp add: mask_eq_exp_minus_1 push_bit_eq_mult)
  show ?thesis
    unfolding e take_bit_eq_mask [symmetric] unsigned_take_bit_eq by (rule take_bit_eq_mod)
qed

lemma shr_int_correct:
  assumes "scalar_wf r" and "0 < n" and "n < 16"
  shows "scalar_wf (fst (secp256k1_scalar_shr_int r n)) \<and>
     scalar_val (fst (secp256k1_scalar_shr_int r n)) = scalar_val r div 2 ^ n \<and>
     unat (snd (secp256k1_scalar_shr_int r n)) = scalar_val r mod 2 ^ n"
proof -
  obtain d0 d1 d2 d3 d4 d5 d6 d7 where d: "scalar_d r = [d0, d1, d2, d3, d4, d5, d6, d7]"
    using assms by (auto simp: scalar_wf_def elim: eight_limbs)
  have "scalar_d (fst (secp256k1_scalar_shr_int r n)) = shift_limbs n (scalar_d r)"
    using assms by (simp add: secp256k1_scalar_shr_int_def Let_def d drop_push_disjoint)
  moreover have "unat (snd (secp256k1_scalar_shr_int r n)) = scalar_val r mod 2 ^ n"
    using val32_mod [of n "scalar_d r"] assms(3)
    unfolding secp256k1_scalar_shr_int_def Let_def snd_conv mask_val scalar_val_def d by simp
  moreover have "length (shift_limbs n xs) = length xs" for xs by (induction xs) auto
  ultimately show ?thesis
    using assms shift_limbs_val [of n "scalar_d r"] by (simp only: scalar_wf_def scalar_val_def)
qed

text \<open>\<open>get_bits\<close> reads a field of bits that lies in one limb, \<open>get_bits_var\<close> one that may
  straddle two.\<close>

lemma val32_drop: "i \<le> length xs \<Longrightarrow> val32 (drop i xs) = val32 xs div 2 ^ (32 * i)"
proof (induction i arbitrary: xs)
  case (Suc i)
  then obtain x ys where xs: "xs = x # ys" by (cases xs) auto
  have "val32 xs div 2 ^ (32 * Suc i) = val32 xs div 4294967296 div 2 ^ (32 * i)"
    by (simp add: power_add div_mult2_eq)
  with Suc xs unat32_less [of x] show ?case by simp
qed simp

lemma limb_field:
  assumes "i < length xs" and "s + c \<le> 32"
  shows "unat (xs ! i) div 2 ^ s mod 2 ^ c = val32 xs div 2 ^ (32 * i + s) mod 2 ^ c"
proof -
  have "val32 xs div 2 ^ (32 * i + s) = (unat (xs ! i) + 4294967296 * val32 (drop (Suc i) xs)) div 2 ^ s"
    using assms val32_drop [of i xs] by (simp add: power_add div_mult2_eq Cons_nth_drop_Suc [symmetric])
  also have "(4294967296 :: nat) = 2 ^ s * (2 ^ c * 2 ^ (32 - s - c))" using assms by (simp flip: power_add)
  also have "(unat (xs ! i) + 2 ^ s * (2 ^ c * 2 ^ (32 - s - c)) * val32 (drop (Suc i) xs)) div 2 ^ s =
      unat (xs ! i) div 2 ^ s + 2 ^ c * (2 ^ (32 - s - c) * val32 (drop (Suc i) xs))"
    by (simp add: mult.assoc)
  finally show ?thesis by simp
qed

lemma get_bits_correct:
  assumes "scalar_wf a" and "offset + count \<le> 256" and "offset mod 32 + count \<le> 32" and "0 < count" and "count < 31"
  shows "ok (\<lambda>x. unat x = scalar_val a div 2 ^ offset mod 2 ^ count) (secp256k1_scalar_get_bits a offset count)"
proof -
  have i: "offset div 32 < length (scalar_d a)" using assms by (auto simp: scalar_wf_def)
  have "unat (drop_bit (offset mod 32) (scalar_d a ! (offset div 32)) AND (push_bit count 1 - 1)) =
      scalar_val a div 2 ^ offset mod 2 ^ count"
    unfolding mask_val unat_drop_bit limb_field [OF i assms(3)] scalar_val_def by simp
  moreover have "word_of_int (2 ^ count - 1) = (push_bit count 1 - 1 :: u32)" by (simp add: push_bit_eq_mult)
  ultimately show ?thesis using i assms(5) by (simp add: secp256k1_scalar_get_bits_def limb_at_def)
qed

lemma same_limb:
  assumes "0 < count"
  shows "(offset + count - 1) div 32 = offset div 32 \<longleftrightarrow> offset mod 32 + count \<le> (32 :: nat)"
proof -
  have "offset + count - 1 = 32 * (offset div 32) + (offset mod 32 + count - 1)" using assms by simp
  then have "(offset + count - 1) div 32 = offset div 32 + (offset mod 32 + count - 1) div 32"
    by (metis div_mult_self4 zero_neq_numeral)
  then show ?thesis using assms by (auto simp: div_eq_0_iff)
qed

lemma get_bits_var_31:
  assumes "offset mod 32 \<le> 1"
  shows "secp256k1_scalar_get_bits_var a offset 31 = None"
  using same_limb [of 31 offset] assms by (simp add: secp256k1_scalar_get_bits_var_def secp256k1_scalar_get_bits_def)

lemma get_bits_var_correct:
  assumes a: "scalar_wf a" and off: "offset + count \<le> 256" and count: "0 < count" "count < 32"
    and fits: "\<not> (count = 31 \<and> offset mod 32 \<le> 1)"
  shows "ok (\<lambda>x. unat x = scalar_val a div 2 ^ offset mod 2 ^ count) (secp256k1_scalar_get_bits_var a offset count)"
proof (cases "(offset + count - 1) div 32 = offset div 32")
  case True
  then have "offset mod 32 + count \<le> 32" using same_limb [OF count(1), of offset] by simp
  moreover from this have "count < 31" using fits count(2) by linarith
  ultimately show ?thesis
    using get_bits_correct [OF a off _ count(1)] True by (simp add: secp256k1_scalar_get_bits_var_def)
next
  case False
  let ?i = "offset div 32" and ?s = "offset mod 32" and ?d = "scalar_d a"
  have i: "Suc ?i < length ?d" using a off count False by (simp add: scalar_wf_def)
  have "shift_limbs ?s (drop ?i ?d) = (drop_bit ?s (?d ! ?i) OR push_bit (32 - ?s) (?d ! Suc ?i)) # shift_limbs ?s (drop (Suc ?i) ?d)"
    using i by (simp add: Cons_nth_drop_Suc [symmetric])
  then have "unat (drop_bit ?s (?d ! ?i) OR push_bit (32 - ?s) (?d ! Suc ?i)) mod 2 ^ count =
      val32 (shift_limbs ?s (drop ?i ?d)) mod 2 ^ count"
    using val32_mod [of count "shift_limbs ?s (drop ?i ?d)"] count by simp
  also have "val32 (shift_limbs ?s (drop ?i ?d)) = scalar_val a div 2 ^ (32 * ?i) div 2 ^ ?s"
    using i by (simp add: shift_limbs_val val32_drop scalar_val_def)
  also have "\<dots> = scalar_val a div 2 ^ offset"
    unfolding div_mult2_eq [symmetric] power_add [symmetric] by simp
  finally have "unat ((drop_bit ?s (?d ! ?i) OR push_bit (32 - ?s) (?d ! Suc ?i)) AND (push_bit count 1 - 1)) =
      scalar_val a div 2 ^ offset mod 2 ^ count"
    unfolding mask_val .
  with False i show ?thesis by (simp add: secp256k1_scalar_get_bits_var_def limb_at_def)
qed

section \<open>Adding a bit, and the rounded high product\<close>

text \<open>Adding a power of two when a flag is set, without a branch: without the flag the bit number
  is moved past the last limb.\<close>

lemma unat_low5: "unat (x AND 0x1F :: u32) = unat x mod 32"
  using mask_val [of x 5] by simp

lemma unat_add_256: "unat b < 256 \<Longrightarrow> unat (b + 0x100 :: u32) = unat b + 256"
  by (simp add: unat_word_ariths)

lemma cadd_bit_number:
  assumes "unat (b :: u32) < 256" and "flag = 0 \<or> flag = 1"
  shows "unat (b + ((word_of_int flag - 1) AND 0x100)) = unat b + (if flag = 1 then 0 else 256)"
  using assms by (auto simp: unat_add_256)

lemma cadd_bit_term:
  assumes b: "unat (b :: u32) < 256" and flag: "flag = 0 \<or> flag = 1" and i: "unat i < 8"
  defines "b' \<equiv> b + ((word_of_int flag - 1) AND 0x100)"
  shows "unat (push_bit (unat (b' AND 0x1F)) (of_bool (drop_bit 5 b' = i)) :: u32) =
     (if flag = 1 \<and> unat b div 32 = unat i then 2 ^ (unat b mod 32) else 0)"
proof -
  have n: "unat b' = unat b + (if flag = 1 then 0 else 256)" unfolding b'_def by (rule cadd_bit_number [OF b flag])
  have "(x + 256) mod 32 = x mod 32" for x :: nat using mod_mult_self1 [of x 8 32] by simp
  then have low: "unat (b' AND 0x1F) = unat b mod 32" using n by (simp add: unat_low5)
  have high: "drop_bit 5 b' = i \<longleftrightarrow> flag = 1 \<and> unat b div 32 = unat i"
    using n i flag by (auto simp: word_unat_eq_iff unat_drop_bit)
  have "unat (push_bit (unat b mod 32) 1 :: u32) = 2 ^ (unat b mod 32)"
    using power_strict_increasing [of "unat b mod 32" 32 "2 :: nat"]
    unfolding unsigned_push_bit_eq by (simp add: take_bit_nat_eq_self)
  then show ?thesis unfolding low high by simp
qed

lemma cadd_bit_correct:
  assumes r: "scalar_wf r" and b: "unat b < 256" and flag: "flag = 0 \<or> flag = 1"
    and fits: "scalar_val r + nat flag * 2 ^ unat b < 2 ^ 256"
  shows "scalar_wf (secp256k1_scalar_cadd_bit r b flag) \<and>
     scalar_val (secp256k1_scalar_cadd_bit r b flag) = scalar_val r + nat flag * 2 ^ unat b"
proof -
  obtain d0 d1 d2 d3 d4 d5 d6 d7 where d: "scalar_d r = [d0, d1, d2, d3, d4, d5, d6, d7]"
    using r by (auto simp: scalar_wf_def elim: eight_limbs)
  define b' where "b' = b + ((word_of_int flag - 1) AND 0x100)"
  define tm where "tm = (\<lambda>i. push_bit (unat (b' AND 0x1F)) (of_bool (drop_bit 5 b' = i)) :: u32)"
  let ?xs = "[ucast d0 + ucast (tm 0), ucast d1 + ucast (tm 1), ucast d2 + ucast (tm 2), ucast d3 + ucast (tm 3),
      ucast d4 + ucast (tm 4), ucast d5 + ucast (tm 5), ucast d6 + ucast (tm 6), ucast d7 + ucast (tm 7) :: u64]"
  let ?q = "unat b div 32" and ?m = "2 ^ (unat b mod 32) :: nat"
  have tm: "unat (tm i) = (if flag = 1 \<and> ?q = unat i then ?m else 0)" if "unat i < 8" for i
    unfolding tm_def b'_def by (rule cadd_bit_term [OF b flag that])
  have q: "?q < 8" using b by (simp add: less_mult_imp_div_less)
  have "(2 :: nat) ^ unat b = 2 ^ (32 * ?q) * ?m" unfolding power_add [symmetric] by simp
  moreover have "?q = 0 \<or> ?q = 1 \<or> ?q = 2 \<or> ?q = 3 \<or> ?q = 4 \<or> ?q = 5 \<or> ?q = 6 \<or> ?q = 7" using q by linarith
  ultimately have sum: "val32 [tm 0, tm 1, tm 2, tm 3, tm 4, tm 5, tm 6, tm 7] = nat flag * 2 ^ unat b"
    using flag by (elim disjE) (simp_all add: tm)
  have v: "val64 ?xs = scalar_val r + nat flag * 2 ^ unat b"
    unfolding scalar_val_def d sum [symmetric] by (simp add: unat_add_limbs)
  obtain rs t where rs: "limbs 0xFFFFFFFF 0 ?xs = (rs, t)" by (cases "limbs 0xFFFFFFFF 0 ?xs")
  have bound: "\<forall>x \<in> set ?xs. unat x < 2 ^ 36" by (simp add: unat_add_limbs_less)
  have "secp256k1_scalar_cadd_bit r b flag = r\<lparr>scalar_d := rs\<rparr>"
    unfolding secp256k1_scalar_cadd_bit_def Let_def d nth_limbs b'_def [symmetric] using rs by (simp add: tm_def)
  with limbs_eight [OF bound _ rs] fits v show ?thesis by (simp add: scalar_wf_def scalar_val_def)
qed

text \<open>\<open>mul_shift_var\<close>: the limbs from \<open>shift div 32\<close> on, shifted by the rest, with zeros
  above.\<close>

lemma shift_limbs_append_zeros:
  "s < 32 \<Longrightarrow> val32 (shift_limbs s (xs @ replicate n 0)) = val32 xs div 2 ^ s"
proof -
  have "val32 (replicate n 0) = 0" by (induction n) simp_all
  then show "s < 32 \<Longrightarrow> ?thesis" by (simp add: shift_limbs_val val32_append)
qed

lemma nth_shift_limbs:
  "i < length xs \<Longrightarrow> shift_limbs s xs ! i =
     drop_bit s (xs ! i) OR push_bit (32 - s) (if Suc i < length xs then xs ! Suc i else 0)"
proof (induction xs arbitrary: i)
  case (Cons x xs)
  then show ?case by (cases i; cases xs) auto
qed simp

lemma mul_shift_limbs_val:
  assumes l: "length l = 16" and shift: "256 \<le> shift"
  shows "length (mul_shift_limbs l shift) = 8 \<and> val32 (mul_shift_limbs l shift) = val32 l div 2 ^ shift"
proof (cases "shift < 512")
  case False
  have "val32 l < 2 ^ 512" using val32_less [of l] l by simp
  also have "(2 :: nat) ^ 512 \<le> 2 ^ shift" using False by (intro power_increasing) auto
  finally have "val32 l div 2 ^ shift = 0" by simp
  with False show ?thesis by (simp add: mul_shift_limbs_def)
next
  case True
  define k s where "k = shift div 32" and "s = shift mod 32"
  have s: "s < 32" and ks: "shift = 32 * k + s" unfolding s_def k_def by simp_all
  have k: "8 \<le> k" "k < 16" using True shift unfolding k_def by auto
  have lim: "shift < 32 * j \<longleftrightarrow> k < j" for j unfolding k_def by (simp add: div_less_iff_less_mult mult.commute)
  let ?zs = "drop k l @ replicate (k - 8) 0"
  have zs: "?zs ! i = (if k + i < 16 then l ! (k + i) else 0)" if "i < 8" for i
    using that k l by (auto simp: nth_append)
  have lz: "length ?zs = 8" using k l by simp
  have z: "push_bit 32 y = (0 :: u32)" for y by (rule bit_word_eqI) (simp add: bit_simps)
  have len: "length (shift_limbs s xs) = length xs" for xs by (induction xs) auto
  have e: "shift_limbs s ?zs ! i = (if k + i < 16 then drop_bit s (l ! (i + k)) OR
      (if k + i < 15 \<and> s \<noteq> 0 then push_bit (32 - s) (l ! (i + 1 + k)) else 0) else 0)" if "i < 8" for i
  proof -
    have "shift_limbs s ?zs ! i = drop_bit s (?zs ! i) OR push_bit (32 - s) (if Suc i < 8 then ?zs ! Suc i else 0)"
      using nth_shift_limbs [of i ?zs s] that unfolding lz by simp
    also have "(if Suc i < 8 then ?zs ! Suc i else 0) = (if k + i < 15 then l ! (i + 1 + k) else 0)"
      using zs [of "Suc i"] that k(1) by (auto simp: add.commute)
    finally show ?thesis unfolding zs [OF that] using z by (auto simp: add.commute)
  qed
  have "shift_limbs s ?zs = [shift_limbs s ?zs ! 0, shift_limbs s ?zs ! 1, shift_limbs s ?zs ! 2, shift_limbs s ?zs ! 3,
      shift_limbs s ?zs ! 4, shift_limbs s ?zs ! 5, shift_limbs s ?zs ! 6, shift_limbs s ?zs ! 7]"
    by (rule eight_limbs [of "shift_limbs s ?zs"]) (simp_all only: len lz nth_limbs)
  also have "\<dots> = mul_shift_limbs l shift"
    using lim [of 16] lim [of 15] lim [of 14] lim [of 13] lim [of 12] lim [of 11] lim [of 10] lim [of 9] k(1)
    by (simp add: e mul_shift_limbs_def Let_def flip: k_def s_def)
  finally have "mul_shift_limbs l shift = shift_limbs s ?zs" ..
  then show ?thesis
    using shift_limbs_append_zeros [OF s, of "drop k l" "k - 8"] val32_drop [of k l] k l len [of ?zs] lz
    by (simp add: div_mult2_eq [symmetric] power_add [symmetric] ks)
qed

lemma round_half:
  assumes "0 < k"
  shows "(v + 2 ^ (k - 1)) div 2 ^ k = v div 2 ^ k + v div 2 ^ (k - 1) mod (2 :: nat)"
proof -
  define q where "q = v div 2 ^ (k - 1)"
  have k: "(2 :: nat) ^ k = 2 ^ (k - 1) * 2" using assms by (cases k) auto
  have "(v + 2 ^ (k - 1)) div 2 ^ (k - 1) = q + 1" unfolding q_def by (rule div_add_self2) simp
  then have "(v + 2 ^ (k - 1)) div 2 ^ k = (q + 1) div 2" unfolding k div_mult2_eq by simp
  moreover have "v div 2 ^ k = q div 2" unfolding k div_mult2_eq q_def ..
  moreover have "(q + 1) div 2 = q div 2 + q mod 2" by presburger
  ultimately show ?thesis unfolding q_def [symmetric] by (simp only:)
qed

lemma mul_shift_var_correct:
  assumes a: "scalar_wf a" and b: "scalar_wf b" and shift: "256 \<le> shift" "shift \<le> 512"
  shows "scalar_wf (secp256k1_scalar_mul_shift_var a b shift) \<and>
     scalar_val (secp256k1_scalar_mul_shift_var a b shift) = (scalar_val a * scalar_val b + 2 ^ (shift - 1)) div 2 ^ shift"
proof -
  let ?v = "scalar_val a * scalar_val b" and ?l = "secp256k1_scalar_mul_512 a b"
  have l: "length ?l = 16" "val32 ?l = ?v" using scalar_mul_512_correct [OF a b] by simp_all
  let ?j = "(shift - 1) div 32" and ?s = "(shift - 1) mod 32"
  let ?flag = "uint (drop_bit ?s (?l ! ?j) AND 1)"
  have j: "?j < length ?l" using shift l by (simp add: div_less_iff_less_mult)
  have "unat (drop_bit ?s (?l ! ?j) AND 1) = ?v div 2 ^ (shift - 1) mod 2"
    using limb_field [OF j, of ?s 1] mask_val [of "drop_bit ?s (?l ! ?j)" 1]
    by (simp add: unat_drop_bit l(2))
  then have flag: "?flag = int (?v div 2 ^ (shift - 1) mod 2)" by (metis of_nat_unat)
  have "scalar_val a \<le> 2 ^ 256 - 1" "scalar_val b \<le> 2 ^ 256 - 1"
    using val32_less [of "scalar_d a"] val32_less [of "scalar_d b"] a b by (simp_all add: scalar_wf_def scalar_val_def)
  then have "?v \<le> (2 ^ 256 - 1) * (2 ^ 256 - 1)" by (rule mult_le_mono)
  then have "?v div 2 ^ 256 \<le> (2 ^ 256 - 1) * (2 ^ 256 - 1) div 2 ^ 256" by (rule div_le_mono)
  moreover have "?v div 2 ^ shift \<le> ?v div 2 ^ 256" using shift by (intro div_le_mono2 power_increasing) auto
  ultimately have small: "?v div 2 ^ shift \<le> 2 ^ 256 - 2" by simp
  define r where "r = secp256k1_scalar_mul_shift_var a b shift"
  define d where "d = mul_shift_limbs ?l shift"
  have d: "length d = 8" "val32 d = ?v div 2 ^ shift" "r = secp256k1_scalar_cadd_bit \<lparr>scalar_d = d\<rparr> 0 ?flag"
    using mul_shift_limbs_val [OF l(1) shift(1)] l(2) by (simp_all add: d_def r_def secp256k1_scalar_mul_shift_var_def Let_def)
  have "?v div 2 ^ (shift - 1) mod 2 < 2" by simp
  then have f: "?flag = 0 \<or> ?flag = 1" "nat ?flag = ?v div 2 ^ (shift - 1) mod 2" unfolding flag by linarith+
  have "scalar_val \<lparr>scalar_d = d\<rparr> + nat ?flag * 2 ^ unat (0 :: u32) < 2 ^ 256"
    using small f by (auto simp: scalar_val_def d(2))
  from cadd_bit_correct [of "\<lparr>scalar_d = d\<rparr>" 0, OF _ _ f(1) this] show ?thesis
    using round_half [of shift ?v] shift unfolding r_def [symmetric] d(3) f(2)
    by (simp add: scalar_wf_def scalar_val_def d)
qed

section \<open>Properties\<close>

text \<open>A witness needs concrete scalars: two limbs apart from zero, and the order less one.\<close>

lemma order_minus_one:
  "scalar_reduced \<lparr>scalar_d = [0xD0364140, 0xBFD25E8C, 0xAF48A03B, 0xBAAEDCE6, 0xFFFFFFFE, 0xFFFFFFFF, 0xFFFFFFFF, 0xFFFFFFFF]\<rparr>"
  "scalar_val \<lparr>scalar_d = [0xD0364140, 0xBFD25E8C, 0xAF48A03B, 0xBAAEDCE6, 0xFFFFFFFE, 0xFFFFFFFF, 0xFFFFFFFF, 0xFFFFFFFF]\<rparr> = group_order - 1"
  by (simp_all add: scalar_reduced_def scalar_wf_def scalar_val_def group_order_def)

text \<open>C11: Multiplication and squaring of scalars: eight by eight limbs through the column code, the
  two foldings and the final subtraction give the product modulo the group order, below the order,
  for every pair of eight-limb arguments, reduced or not.\<close>

theorem secp256k1_scalar_mul_correct:
  assumes "scalar_wf a" and "scalar_wf b"
  shows "scalar_reduced (secp256k1_scalar_mul a b) \<and>
    scalar_val (secp256k1_scalar_mul a b) = scalar_val a * scalar_val b mod group_order \<and>
    secp256k1_scalar_sqr a = secp256k1_scalar_mul a a"
  using scalar_mul_correct [OF assms] scalar_mul_correct [OF assms(1) assms(1)] scalar_sqr_correct [OF assms(1)]
    scalar_val_inject [of "secp256k1_scalar_sqr a" "secp256k1_scalar_mul a a"]
  by (simp add: scalar_reduced_def)

theorem secp256k1_scalar_mul_witness:
  "scalar_val (secp256k1_scalar_mul \<lparr>scalar_d = [0, 0, 0, 0, 0, 0, 0, 2]\<rparr> \<lparr>scalar_d = [0, 0, 0, 0, 1, 0, 0, 0]\<rparr>) =
    2 ^ 353 mod group_order"
  using secp256k1_scalar_mul_correct [of "\<lparr>scalar_d = [0, 0, 0, 0, 0, 0, 0, 2]\<rparr>" "\<lparr>scalar_d = [0, 0, 0, 0, 1, 0, 0, 0]\<rparr>"]
  by (simp add: scalar_wf_def scalar_val_def)

text \<open>C17: Addition of reduced scalars: the carry chain and the conditional subtraction give the sum
  modulo the order and the flag that says whether the order was subtracted.\<close>

theorem secp256k1_scalar_add_correct:
  assumes "scalar_reduced x" and "scalar_reduced y" and "secp256k1_scalar_add x y = (r, overflow)"
  shows "scalar_reduced r \<and> scalar_val r = (scalar_val x + scalar_val y) mod group_order \<and>
    overflow = of_bool (group_order \<le> scalar_val x + scalar_val y)"
  using scalar_add_correct [OF assms(1,2)] assms(3) by simp

theorem secp256k1_scalar_add_witness:
  "\<exists>r. secp256k1_scalar_add
      \<lparr>scalar_d = [0xD0364140, 0xBFD25E8C, 0xAF48A03B, 0xBAAEDCE6, 0xFFFFFFFE, 0xFFFFFFFF, 0xFFFFFFFF, 0xFFFFFFFF]\<rparr>
      \<lparr>scalar_d = [3, 0, 0, 0, 0, 0, 0, 0]\<rparr> = (r, 1) \<and> scalar_val r = 2"
proof -
  let ?x = "\<lparr>scalar_d = [0xD0364140, 0xBFD25E8C, 0xAF48A03B, 0xBAAEDCE6, 0xFFFFFFFE, 0xFFFFFFFF, 0xFFFFFFFF, 0xFFFFFFFF]\<rparr>"
  let ?y = "\<lparr>scalar_d = [3, 0, 0, 0, 0, 0, 0, 0]\<rparr>"
  obtain r f where rf: "secp256k1_scalar_add ?x ?y = (r, f)" by fastforce
  have "scalar_reduced ?y" "scalar_val ?y = 3" by (simp_all add: scalar_reduced_def scalar_wf_def scalar_val_def group_order_def)
  with secp256k1_scalar_add_correct [OF order_minus_one(1) _ rf] order_minus_one(2)
  have "scalar_val r = (group_order - 1 + 3) mod group_order" "f = of_bool (group_order \<le> group_order - 1 + 3)" by simp_all
  then show ?thesis using rf by (simp add: group_order_def)
qed

text \<open>C14: The addition chain of the inverse computes the power \<open>n - 2\<close> modulo the order
  \<open>n\<close>; for a scalar that satisfies Fermat's congruence (each nonzero one, the order being prime)
  the product with the result is 1. The variable-time entry point gives the same scalar.\<close>

theorem secp256k1_scalar_inverse_correct:
  assumes "scalar_wf x"
  shows "scalar_reduced (secp256k1_scalar_inverse x) \<and>
    scalar_val (secp256k1_scalar_inverse x) = scalar_val x ^ (group_order - 2) mod group_order \<and>
    (scalar_val x ^ (group_order - 1) mod group_order = 1 \<longrightarrow>
       scalar_val (secp256k1_scalar_mul x (secp256k1_scalar_inverse x)) = 1 \<and>
       secp256k1_scalar_is_one (secp256k1_scalar_mul x (secp256k1_scalar_inverse_var x)))"
  using scalar_inverse_facts [OF assms] by (simp add: secp256k1_scalar_inverse_var_def)

theorem secp256k1_scalar_inverse_witness:
  "scalar_val (secp256k1_scalar_inverse \<lparr>scalar_d = [0, 0, 0, 0, 0, 0, 0, 0]\<rparr>) = 0 \<and>
   secp256k1_scalar_is_one (secp256k1_scalar_mul \<lparr>scalar_d = [1, 0, 0, 0, 0, 0, 0, 0]\<rparr>
     (secp256k1_scalar_inverse_var \<lparr>scalar_d = [1, 0, 0, 0, 0, 0, 0, 0]\<rparr>))"
proof -
  have "scalar_wf \<lparr>scalar_d = [0, 0, 0, 0, 0, 0, 0, 0]\<rparr>" "scalar_wf \<lparr>scalar_d = [1, 0, 0, 0, 0, 0, 0, 0]\<rparr>"
    "scalar_val \<lparr>scalar_d = [0, 0, 0, 0, 0, 0, 0, 0]\<rparr> = 0" "scalar_val \<lparr>scalar_d = [1, 0, 0, 0, 0, 0, 0, 0]\<rparr> = 1"
    by (simp_all add: scalar_wf_def scalar_val_def)
  moreover have "(0 :: nat) ^ (group_order - 2) mod group_order = 0" "(1 :: nat) ^ (group_order - 1) mod group_order = 1"
    by (simp_all add: group_order_def power_0_left)
  ultimately show ?thesis
    using secp256k1_scalar_inverse_correct [of "\<lparr>scalar_d = [0, 0, 0, 0, 0, 0, 0, 0]\<rparr>"]
      secp256k1_scalar_inverse_correct [of "\<lparr>scalar_d = [1, 0, 0, 0, 0, 0, 0, 0]\<rparr>"] by simp
qed

text \<open>C15: Big endian bytes: reading 32 bytes gives their number modulo the order and the flag that
  says whether it was reached; writing a reduced scalar and reading it again gives it back without
  overflow, and bytes below the order survive reading and writing.\<close>

theorem secp256k1_scalar_b32_roundtrip:
  assumes "length b32 = 32" and "secp256k1_scalar_set_b32 b32 = (r, overflow)" and "scalar_reduced a"
  shows "scalar_reduced r \<and> scalar_val r = be_val b32 mod group_order \<and>
    overflow = of_bool (group_order \<le> be_val b32) \<and>
    (overflow = 0 \<longrightarrow> secp256k1_scalar_get_b32 r = b32) \<and>
    secp256k1_scalar_set_b32 (secp256k1_scalar_get_b32 a) = (a, 0)"
  using set_b32_val [OF assms(1)] get_set_b32 [OF assms(1)] set_get_b32 [OF assms(3)] assms(2) by auto

theorem secp256k1_scalar_b32_roundtrip_witness:
  "secp256k1_scalar_get_b32 (fst (secp256k1_scalar_set_b32 (replicate 31 0 @ [7]))) = replicate 31 0 @ [7]"
proof -
  let ?b = "replicate 31 0 @ [7] :: byte list"
  obtain r f where rf: "secp256k1_scalar_set_b32 ?b = (r, f)" by fastforce
  have "le_val (replicate n 0) = 0" for n by (induction n) simp_all
  then have "be_val ?b = 7" by (simp add: be_val_def)
  with secp256k1_scalar_b32_roundtrip [OF _ rf order_minus_one(1)] rf show ?thesis by (simp add: group_order_def)
qed

text \<open>C16: The low half: \<open>is_high\<close> compares with half the order, the conditional negation negates
  modulo the order exactly when its flag is set, and negating a scalar when it is high leaves the
  smaller of \<open>a\<close> and \<open>n - a\<close>, which is not high.\<close>

theorem secp256k1_scalar_low_half:
  assumes "scalar_reduced a" and "secp256k1_scalar_cond_negate a (secp256k1_scalar_is_high a) = (r, s)"
  shows "scalar_reduced r \<and> secp256k1_scalar_is_high r = 0 \<and>
    scalar_val r = min (scalar_val a) (group_order - scalar_val a) \<and>
    s = (if group_order div 2 < scalar_val a then - 1 else 1) \<and>
    scalar_val (secp256k1_scalar_negate a) = (group_order - scalar_val a) mod group_order"
  using scalar_low_half_facts [OF assms(1)] assms(2) scalar_negate_correct [OF assms(1)] by simp

theorem secp256k1_scalar_low_half_witness:
  "\<exists>r. secp256k1_scalar_cond_negate
      \<lparr>scalar_d = [0xD0364140, 0xBFD25E8C, 0xAF48A03B, 0xBAAEDCE6, 0xFFFFFFFE, 0xFFFFFFFF, 0xFFFFFFFF, 0xFFFFFFFF]\<rparr>
      (secp256k1_scalar_is_high
        \<lparr>scalar_d = [0xD0364140, 0xBFD25E8C, 0xAF48A03B, 0xBAAEDCE6, 0xFFFFFFFE, 0xFFFFFFFF, 0xFFFFFFFF, 0xFFFFFFFF]\<rparr>) =
      (r, - 1) \<and> scalar_val r = 1"
proof -
  let ?x = "\<lparr>scalar_d = [0xD0364140, 0xBFD25E8C, 0xAF48A03B, 0xBAAEDCE6, 0xFFFFFFFE, 0xFFFFFFFF, 0xFFFFFFFF, 0xFFFFFFFF]\<rparr>"
  obtain r s where rs: "secp256k1_scalar_cond_negate ?x (secp256k1_scalar_is_high ?x) = (r, s)" by fastforce
  with secp256k1_scalar_low_half [OF order_minus_one(1) rs] order_minus_one(2) show ?thesis by (simp add: group_order_def)
qed

text \<open>C38: Fields of bits and the rounded product: \<open>get_bits_var\<close> reads any field of less than 32
  bits, also across two limbs, without leaving the array, except a field of 31 bits that lies in one
  limb: there the mask of \<open>get_bits\<close> overflows \<open>int\<close>. \<open>mul_shift_var\<close> is the full product
  divided by a power of two and rounded to the nearest number.\<close>

theorem secp256k1_scalar_bits_correct:
  assumes "scalar_wf a" and "scalar_wf b" and "offset + count \<le> 256" and "0 < count" and "count < 32"
    and "256 \<le> shift" and "shift \<le> 512"
  shows "(if count = 31 \<and> offset mod 32 \<le> 1 then secp256k1_scalar_get_bits_var a offset count = None
          else \<exists>x. secp256k1_scalar_get_bits_var a offset count = Some x \<and>
                   unat x = scalar_val a div 2 ^ offset mod 2 ^ count) \<and>
    scalar_wf (secp256k1_scalar_mul_shift_var a b shift) \<and>
    scalar_val (secp256k1_scalar_mul_shift_var a b shift) =
      (scalar_val a * scalar_val b + 2 ^ (shift - 1)) div 2 ^ shift"
  using get_bits_var_correct [OF assms(1,3,4,5)] get_bits_var_31 [of offset a] mul_shift_var_correct [OF assms(1,2,6,7)]
  by (auto simp: ok_iff)

theorem secp256k1_scalar_bits_witness:
  "(\<exists>x. secp256k1_scalar_get_bits_var \<lparr>scalar_d = [0xC0000000, 5, 0, 0, 0, 0, 0, 0]\<rparr> 30 5 = Some x \<and> unat x = 23) \<and>
   scalar_val (secp256k1_scalar_mul_shift_var \<lparr>scalar_d = [0, 0, 0, 0, 0, 0, 0, 1]\<rparr>
     \<lparr>scalar_d = [0, 0, 0x80000000, 0, 0, 0, 0, 0]\<rparr> 320) = 1"
proof -
  let ?a = "\<lparr>scalar_d = [0xC0000000, 5, 0, 0, 0, 0, 0, 0]\<rparr>" and ?b = "\<lparr>scalar_d = [0, 0, 0, 0, 0, 0, 0, 1]\<rparr>"
    and ?c = "\<lparr>scalar_d = [0, 0, 0x80000000, 0, 0, 0, 0, 0]\<rparr>"
  have wf: "scalar_wf ?a" "scalar_wf ?b" "scalar_wf ?c" by (simp_all add: scalar_wf_def)
  have val: "scalar_val ?a div 2 ^ 30 mod 2 ^ 5 = 23" "scalar_val ?b = 2 ^ 224" "scalar_val ?c = 2 ^ 95"
    by (simp_all add: scalar_val_def)
  show ?thesis
    using secp256k1_scalar_bits_correct [OF wf(1) wf(1), of 30 5 256]
      secp256k1_scalar_bits_correct [OF wf(2,3), of 0 1 320] unfolding val by simp
qed

end
