(* ===== verification/Secp_Nonce.thy ===== *)
theory Secp_Nonce
  imports Secp_Hash Secp_Scalar_Correct
begin

text \<open>
  The default nonce function of \<open>src/src/secp256k1/src/secp256k1.c\<close>, on top of the generator of
  \<open>Secp_Hash\<close>, and its relation to section 3.2 of RFC 6979. The standard seeds the generator
  with the private key and with \<open>bits2octets\<close> of the message digest, the digest reduced modulo the
  group order; the code copies the digest as it is. The two agree exactly for the digests below the
  group order.
\<close>

unbundle bit_operations_syntax

section \<open>The default nonce function\<close>

text \<open>\<open>nonce_function_rfc6979\<close> of \<open>secp256k1.c\<close>: \<open>data\<close> and \<open>algo16\<close> may be
  null. The loop runs for \<open>i = 0, \<dots>, counter\<close>; for the largest \<open>unsigned int\<close> its
  condition never fails. The last call's output stays in \<open>nonce32\<close>.\<close>

fun nonce_loop ::
  "arch \<Rightarrow> secp256k1_hmac_sha256_t \<Rightarrow> nat \<Rightarrow> secp256k1_rfc6979_hmac_sha256_t \<times> byte list \<Rightarrow>
   (secp256k1_rfc6979_hmac_sha256_t \<times> byte list) option" where
  "nonce_loop ar hmac 0 (rng, nonce32) = Some (rng, nonce32)"
| "nonce_loop ar hmac (Suc i) (rng, nonce32) =
     do { (rng, nonce32) \<leftarrow> secp256k1_rfc6979_hmac_sha256_generate ar hmac rng 32;
          nonce_loop ar hmac i (rng, nonce32) }"

definition nonce_function_rfc6979 ::
  "arch \<Rightarrow> secp256k1_hmac_sha256_t \<Rightarrow> secp256k1_rfc6979_hmac_sha256_t \<Rightarrow> byte list \<Rightarrow> byte list \<Rightarrow> byte list \<Rightarrow>
   byte list option \<Rightarrow> byte list option \<Rightarrow> nat \<Rightarrow> (int \<times> byte list) option" where
  "nonce_function_rfc6979 ar hmac rng nonce32 msg32 key32 algo16 data counter =
     do { key \<leftarrow> take_bytes key32 32;
          msg \<leftarrow> take_bytes msg32 32;
          extra \<leftarrow> (case data of None \<Rightarrow> Some [] | Some d \<Rightarrow> take_bytes d 32);
          algo \<leftarrow> (case algo16 of None \<Rightarrow> Some [] | Some d \<Rightarrow> take_bytes d 16);
          rng \<leftarrow> secp256k1_rfc6979_hmac_sha256_initialize ar hmac rng (key @ msg @ extra @ algo);
          (rng, nonce32) \<leftarrow> (if counter = 2 ^ 32 - 1 then None else nonce_loop ar hmac (Suc counter) (rng, nonce32));
          let rng = secp256k1_rfc6979_hmac_sha256_finalize rng;
          Some (1, nonce32) }"

section \<open>RFC 6979\<close>

text \<open>Section 2.3 for the order of this group, whose length is 256 bits: \<open>int2octets\<close> writes a
  number below the order as 32 bytes, most significant first; \<open>bits2octets\<close> reads the digest as a
  number (for a digest of 256 bits no bit is dropped), reduces it modulo the order and writes it.\<close>

definition int2octets :: "nat \<Rightarrow> byte list" where
  "int2octets x = rev (map (\<lambda>i. word_of_nat (x div 256 ^ i)) [0..<32])"

definition bits2octets :: "byte list \<Rightarrow> byte list" where
  "bits2octets h1 = int2octets (be_val h1 mod group_order)"

text \<open>The candidate of section 3.2 for the private key \<open>x\<close> and the digest \<open>h1\<close>, with the additional
  data of section 3.6, after \<open>counter\<close> candidates have been refused.\<close>

definition rfc6979_nonce :: "nat \<Rightarrow> byte list \<Rightarrow> byte list \<Rightarrow> nat \<Rightarrow> byte list" where
  "rfc6979_nonce x h1 extra counter =
     rfc6979_candidate (rfc6979_seed (int2octets x @ bits2octets h1 @ extra)) counter"

section \<open>Octet strings\<close>

lemma le_val_digits: "le_val (map (\<lambda>i. word_of_nat (x div 256 ^ i)) [0..<n]) = int (x mod 256 ^ n)"
proof (induction n)
  case (Suc n)
  have "x mod 256 ^ Suc n = x mod 256 ^ n + 256 ^ n * (x div 256 ^ n mod 256)"
    by (metis mod_mult2_eq add.commute mult.commute power_Suc)
  then show ?case
    by (simp add: le_val_append Suc.IH unsigned_of_nat take_bit_eq_mod zmod_int)
qed simp

lemma length_int2octets [simp]: "length (int2octets x) = 32"
  by (simp add: int2octets_def)

lemma be_val_int2octets: "x < 2 ^ 256 \<Longrightarrow> be_val (int2octets x) = x"
  using le_val_digits [of x 32] by (simp add: be_val_def int2octets_def)

lemma int2octets_be_val: "length bs = 32 \<Longrightarrow> int2octets (be_val bs) = bs"
proof -
  assume l: "length bs = 32"
  then have "be_val bs < 2 ^ 256"
    using le_val_bound [of "rev bs"] by (simp add: be_val_def nat_less_iff)
  then show ?thesis
    using be_val_inject [of "int2octets (be_val bs)" bs] l by (simp add: be_val_int2octets)
qed

text \<open>The digests that \<open>bits2octets\<close> leaves alone are the ones below the order.\<close>

lemma bits2octets_id_iff:
  assumes "length h1 = 32"
  shows "bits2octets h1 = h1 \<longleftrightarrow> be_val h1 < group_order"
proof
  assume "be_val h1 < group_order"
  then show "bits2octets h1 = h1" by (simp add: bits2octets_def int2octets_be_val assms)
next
  assume "bits2octets h1 = h1"
  then have "be_val (int2octets (be_val h1 mod group_order)) = be_val h1" by (simp add: bits2octets_def)
  moreover have "be_val h1 mod group_order < group_order" using complement_positive by simp
  moreover have "group_order < 2 ^ 256" by (rule complement_positive)
  ultimately show "be_val h1 < group_order" by (simp add: be_val_int2octets)
qed

section \<open>The nonce function\<close>

lemma nonce_loop_ok:
  assumes "hmac_usable hmac" and "rng_repr rng s"
  shows "ok (\<lambda>(rng', nonce). nonce = rfc6979_candidate s n) (nonce_loop ar hmac (Suc n) (rng, nonce32))"
  using assms(2)
proof (induction n arbitrary: rng s nonce32)
  case 0
  obtain K V where s: "s = (K, V)" by (cases s)
  with 0 rfc6979_generate_ok [OF assms(1), of rng K V 32 ar] show ?case
    by (simp add: nblocks_simps(1))
next
  case (Suc n)
  obtain K V where s: "s = (K, V)" by (cases s)
  from Suc.prems have "rng_repr (rng\<lparr>rng_v := hmac_sha256 K V, rng_k := K, rng_retry := 1\<rparr>)
      (rfc6979_refused (K, hmac_sha256 K V))"
    using rfc6979_generate_repr [of rng K V 1] by (simp add: s)
  from Suc.IH [OF this] Suc.prems rfc6979_generate_ok [OF assms(1), of rng K V 32 ar]
  show ?case by (simp add: s nblocks_simps(1) del: nonce_loop.simps(2)) (simp add: nonce_loop.simps(2) [of _ _ "Suc n"])
qed

text \<open>What the code computes for any digest: the generator seeded with the bytes of its arguments.\<close>

lemma nonce_function_rfc6979_seeded:
  assumes "hmac_usable hmac" and "length key32 = 32" and "length msg32 = 32" and "counter < 2 ^ 32 - 1"
    and "\<forall>d \<in> set_option data. length d = 32" and "\<forall>d \<in> set_option algo16. length d = 16"
  shows "nonce_function_rfc6979 ar hmac rng nonce32 msg32 key32 algo16 data counter =
           Some (1, rfc6979_candidate
             (rfc6979_seed (key32 @ msg32 @ case_option [] id data @ case_option [] id algo16)) counter)"
proof -
  let ?seed = "key32 @ msg32 @ case_option [] id data @ case_option [] id algo16"
  have data: "(case data of None \<Rightarrow> Some [] | Some d \<Rightarrow> take_bytes d 32) = Some (case_option [] id data)"
    and algo: "(case algo16 of None \<Rightarrow> Some [] | Some d \<Rightarrow> take_bytes d 16) = Some (case_option [] id algo16)"
    using assms(5,6) by (auto simp: take_bytes_def split: option.split)
  have len: "int (length ?seed) < sha256_limit ar - 200"
    using assms sha256_limit_ge [of ar] by (auto split: option.split)
  obtain r where r: "secp256k1_rfc6979_hmac_sha256_initialize ar hmac rng ?seed = Some r" "rng_repr r (rfc6979_seed ?seed)"
    using okD [OF rfc6979_initialize_repr [OF assms(1) len]] by blast
  from okD [OF nonce_loop_ok [OF assms(1) r(2), where n = counter and ar = ar and ?nonce32.0 = nonce32]] assms(2,3,4)
  show ?thesis
    by (auto simp: nonce_function_rfc6979_def data algo r(1) take_bytes_def simp del: nonce_loop.simps)
qed

text \<open>The code never reduces the digest: for a digest of at least the group order the bytes it feeds
  are not those of the standard, which are the bytes of the digest minus the order.\<close>

lemma nonce_function_rfc6979_unreduced:
  assumes "hmac_usable hmac" and "length key32 = 32" and "length msg32 = 32" and "counter < 2 ^ 32 - 1"
    and "group_order \<le> be_val msg32"
  shows "nonce_function_rfc6979 ar hmac rng nonce32 msg32 key32 None None counter =
           Some (1, rfc6979_candidate (rfc6979_seed (int2octets (be_val key32) @ msg32)) counter) \<and>
         bits2octets msg32 \<noteq> msg32"
  using nonce_function_rfc6979_seeded [OF assms(1-4), of None None] bits2octets_id_iff [OF assms(3)] assms
  by (simp add: int2octets_be_val)

text \<open>C13: For a private key and a message digest below the group order, the default nonce function
  returns the candidate of RFC 6979, section 3.2, for that key and that digest, with the extra data and
  the algorithm name as additional data, after \<open>counter\<close> refusals. Digests of the order or more are
  excluded: for them the standard feeds the reduced digest and the code does not
  (\<open>nonce_function_rfc6979_unreduced\<close>). The largest counter, for which the loop does not end,
  is excluded too.\<close>

theorem nonce_function_rfc6979_correct:
  assumes "hmac_usable hmac" and "length key32 = 32" and "length msg32 = 32" and "counter < 2 ^ 32 - 1"
    and "\<forall>d \<in> set_option data. length d = 32" and "\<forall>d \<in> set_option algo16. length d = 16"
    and "be_val key32 < group_order" and "be_val msg32 < group_order"
  shows "nonce_function_rfc6979 ar hmac rng nonce32 msg32 key32 algo16 data counter =
           Some (1, rfc6979_nonce (be_val key32) msg32 (case_option [] id data @ case_option [] id algo16) counter)"
proof -
  have "int2octets (be_val key32) = key32" using assms(2) by (rule int2octets_be_val)
  moreover have "bits2octets msg32 = msg32" using bits2octets_id_iff [OF assms(3)] assms(8) by simp
  ultimately show ?thesis
    using nonce_function_rfc6979_seeded [OF assms(1-6)] by (simp add: rfc6979_nonce_def)
qed

theorem nonce_function_rfc6979_correct_witness:
  "nonce_function_rfc6979 \<lparr>little_endian = True, bits64 = True, sw_bitcount = False\<rparr>
     \<lparr>hmac_inner = \<lparr>sha_s = [], sha_buf = replicate 64 0, sha_bytes = 0\<rparr>,
      hmac_outer = \<lparr>sha_s = [], sha_buf = replicate 64 0, sha_bytes = 0\<rparr>\<rparr>
     \<lparr>rng_v = [], rng_k = [], rng_retry = 0\<rparr> [] (replicate 31 0 @ [1]) (replicate 31 0 @ [2]) None
     (Some (replicate 32 3)) 4 =
   Some (1, rfc6979_nonce (be_val (replicate 31 0 @ [2])) (replicate 31 0 @ [1])
     (case_option [] id (Some (replicate 32 3)) @ case_option [] id None) 4)"
proof -
  have "be_val (replicate 31 0 @ [1]) = 1" "be_val (replicate 31 0 @ [2]) = 2"
    by code_simp+
  then show ?thesis
    by (intro nonce_function_rfc6979_correct) (simp_all add: sha256_usable_def hmac_usable_def group_order_def)
qed

end
