(* ===== verification/Spec2Isabelle.thy ===== *)
theory Spec2Isabelle
  imports Lz4_Stream Lz4_DestSize Lz4_Frame_Limits Secp_Nonce
begin

text \<open>
  Verification of the LZ4 library, of xxHash and of the lower layers of secp256k1, as they are built into the daemon of this repository.
  The daemon is C++; the C code that is compiled into it is the LZ4 library under \<open>src/src/lz4/lib\<close> (\<open>lz4.c\<close>, \<open>lz4hc.c\<close>, \<open>lz4frame.c\<close>,
  \<open>xxhash.c\<close>), which its node store uses, a SQLite amalgamation and two signature libraries. This development covers the four files of LZ4
  and, of the signature library under \<open>src/src/secp256k1/src\<close>, the hash functions with the nonce function and the scalar arithmetic.

  \<^bold>\<open>The parts and how they interact.\<close> \<open>lz4.c\<close> compresses one block into the LZ4 block format and decodes it, with variants for a
  dictionary, for a stream of blocks and for a fixed output size. \<open>lz4hc.c\<close> produces the same format with a slower search. \<open>lz4frame.c\<close>
  cuts an input into blocks, calls one of four block compressors through a function pointer, and adds header, block sizes, end mark and
  checksum; its decoder is a state machine that accepts input and output in any pieces and calls the block decoders. \<open>xxhash.c\<close> computes
  the checksums of headers and of the content. In secp256k1, \<open>hash_impl.h\<close> builds HMAC on SHA-256 and the generator of RFC 6979 on HMAC;
  \<open>nonce_function_rfc6979\<close> draws the nonces of signatures from it. \<open>scalar_8x32_impl.h\<close> computes modulo the group order on eight 32-bit
  limbs, and \<open>scalar_impl.h\<close> inverts by an addition chain over its multiplication and squaring.

  \<^bold>\<open>Modelling.\<close> The memory is a partial map from addresses to bytes (\<open>C_Prelude\<close>); a read or write of an unmapped address makes the
  operation \<open>None\<close>, so that a result \<open>Some\<close> includes memory safety; \<open>ok Q x\<close> says that \<open>x\<close> is \<open>Some r\<close> with \<open>Q r\<close>. Pointers are integers.
  Sizes and C integers are integers with the wrap-around written out (\<open>int32\<close>, \<open>uns32\<close>, \<open>size_mod\<close>) where the code depends on it; hashes are
  words of their width. The target (byte order, word size, bit-count build) is the parameter \<open>arch\<close>. Structures are records that the
  operations return updated; \<open>calloc\<close> and \<open>free\<close> are parameters of the frame functions (\<open>lz4f_env\<close>) with the hypotheses \<open>calloc_ok\<close> and
  \<open>free_ok\<close>; \<open>calloc_ok\<close> is what the C standard says (\<open>calloc_contract\<close>) and an assumption on the place of blocks (\<open>calloc_placement\<close>). Loops whose termination is not structural are \<open>partial_function (option)\<close>; every theorem about them proves the result \<open>Some\<close>,
  so that no fuel is needed.

  \<^bold>\<open>The theories.\<close>

  \<^item> \<open>C_Prelude\<close>: memory, buffers (\<open>mapped\<close>, \<open>bytes_at\<close>), what an operation leaves unchanged (\<open>frame\<close>), machine integers, \<open>ok\<close>.
  \<^item> \<open>Xxhash\<close>: one-shot and streaming XXH32 and XXH64; both equal the hash that the description of the algorithm gives for the list of bytes
    (with its own constants and rotations, and test vectors), on every target, alignment and cutting of the input (locale \<open>streaming_hash\<close>, interpreted for both widths).
  \<^item> \<open>Lz4_Common\<close>: unaligned access, wild copies, \<open>LZ4_count\<close>.
  \<^item> \<open>Lz4_Block\<close>: the block format as a specification: sequences, \<open>encode\<close>, \<open>expand\<close>, \<open>valid_block\<close>.
  \<^item> \<open>Lz4_Decompress\<close>, \<open>Lz4_Decode_Correct\<close>, \<open>Lz4_Decode_Api\<close>: \<open>LZ4_decompress_generic\<close> with every directive and all entry points; memory
    safety on any bytes, decoding of every valid block, dictionaries and the streaming decoder, and the inputs on which they go wrong.
  \<^item> \<open>Lz4_Compress\<close>, \<open>Lz4_Compress_Correct\<close>, \<open>Lz4_Compress_Api\<close>: the fast compressor; it writes a valid block that expands to the input
    (locale \<open>block_compressor\<close> with the round trip proved once, interpreted for \<open>LZ4_compress_fast\<close> and in \<open>Lz4_HC_Api\<close> for \<open>LZ4_compress_HC\<close>).
  \<^item> \<open>Lz4_DestSize\<close>: \<open>LZ4_compress_destSize\<close>. \<open>Lz4_Stream\<close>: dictionaries and streams of blocks, with their invariant and round trip.
  \<^item> \<open>Lz4_HC\<close>, \<open>Lz4_HC_Correct\<close>, \<open>Lz4_HC_Api\<close>: the hash chains, the two searches and the parser of \<open>lz4hc.c\<close>, and its streams.
  \<^item> \<open>Lz4_Frame\<close>: the compression side of \<open>lz4frame.c\<close>. \<open>Lz4_Frame_Decompress\<close>: its decoder, one definition per stage of the state machine.
  \<^item> \<open>Lz4_Frame_Format\<close>, \<open>Lz4_Frame_Spec\<close>: headers, blocks and whole frames as bytes, and their content: the specification of both sides.
  \<^item> \<open>Lz4_Frame_Header\<close>, \<open>Lz4_Frame_Stages\<close>, \<open>Lz4_Frame_Safe\<close>: the header decoder and the state machine on any bytes. \<open>loop_inv\<close> is the
    invariant that every stage keeps and \<open>loop_measure\<close> what every stage decreases; a call is memory safe, ends after at most eight stages
    for every input byte, makes progress, and leaves the conditions of the next call (\<open>dctx_inv\<close> and, but for the stale dictionary, all of \<open>decompress_call\<close>).
  \<^item> \<open>Lz4_Frame_Compress\<close>: the contract of the function pointer \<open>compressFunc_t\<close> as the locale \<open>frame_compressor\<close>, in which block, update and end
    of a frame are verified once; the two fast compressors, for independent and linked blocks, interpret it; \<open>LZ4F_compressFrame\<close> writes a valid frame.
  \<^item> \<open>Lz4_Frame_Decode\<close>: the state machine decodes every valid frame to its content, for every block size and mode.
  \<^item> \<open>Lz4_Frame_Limits\<close>: where the frame functions depart from their documentation.
  \<^item> \<open>Secp_Hash\<close>: SHA-256, HMAC and the generator; the standards FIPS 180-4, FIPS 198-1 and steps b to h of RFC 6979 are written down
    next to the code and the code is shown to compute them for any cutting of the message (locale \<open>digest\<close>, interpreted for SHA-256 and for HMAC).
  \<^item> \<open>Secp_Scalar\<close>: the scalars; the straight-line code of the products is a list of columns of macro calls on a 96-bit accumulator.
    \<open>Secp_Scalar_Correct\<close>: each operation computes modulo the order. No accumulator overflows (\<open>columns_fit\<close>), the columns add up to
    the product, and the foldings keep it modulo the order; inverses by the locale \<open>modular_mult\<close>, in which exponents add up.
  \<^item> \<open>Secp_Nonce\<close>: the default nonce function against RFC 6979 with its \<open>bits2octets\<close>, for digests below the group order.
  \<^item> This theory: the round trip of whole frames.

  \<^bold>\<open>Limits of the theorems.\<close> Each restriction below is a condition of the predicates that the theorems assume.

  \<^item> \<open>fast_call\<close>: an acceleration of at most 2^25 (\<open>LZ4_compress_fast_acceleration_wraps\<close>) and, for a capacity below \<open>LZ4_compressBound\<close>,
    an input below 64 KB, because above it the code can write past its output (\<open>LZ4_compress_default_overflow\<close>). \<open>hc_call\<close>: for a capacity
    below \<open>LZ4_compressBound\<close> an input of at most 4094 bytes (\<open>LZ4HC_encodeSequence_overflow\<close>). With \<open>LZ4_compressBound\<close> bytes of output
    there is no such limit. Frames are therefore verified for the fast levels and 64 KB blocks, the defaults.
  \<^item> \<open>continue_call\<close>: blocks of 1 to 65546 bytes, and at least four bytes in the stream: after a first block of one to three bytes the next one
    can be wrong (\<open>LZ4_compress_fast_continue_short_block\<close>).
  \<^item> \<open>safe_call\<close>: \<open>LZ4_decompress_safe\<close> may read two bytes of any input (\<open>LZ4_decompress_safe_overread\<close>), so that the memory safety is that
    of the first \<open>max 2 n\<close> bytes; buffers lie 255 bytes per input byte below the top of the address space (\<open>LZ4_decompress_safe_wrap32\<close>).
    \<open>call_ok\<close>, the condition for decoding with a dictionary or in a stream, has inputs of at least two bytes.
  \<^item> \<open>decompress_call\<close>: the byte after the input can be read, the buffers lie below the last 2 GB of the address space, and a call that starts a
    frame with less than 15 bytes does not meet the dictionary of an earlier frame (\<open>LZ4F_decompress_stale_dictionary\<close>). The context's blocks
    are placed as \<open>calloc_placement\<close> says: below the last 2 GB, and not directly before another object.
  \<^item> The nonce function is that of RFC 6979 for digests below the group order; larger digests are not reduced
    (\<open>nonce_function_rfc6979_unreduced\<close>). Fields of 31 bits inside one limb are undefined in \<open>secp256k1_scalar_get_bits\<close> (\<open>get_bits_var_31\<close>).
    SHA-256 messages are shorter than the byte counter of the state allows (\<open>sha256_limit\<close>). That the group order is prime is not
    proved, so that inverses are stated as a power and, under Fermat's congruence, as inverses.
  \<^item> The buffered updates of frames (without \<open>autoFlush\<close>), the option \<open>stableDst\<close> and the external dictionary of \<open>lz4hc.c\<close> are modelled but
    not the subject of a theorem.

  \<^bold>\<open>Not modelled.\<close> Functions that only allocate or release an object without using it (\<open>XXH32_createState\<close>, \<open>LZ4_createStream\<close> and the like), and
  the rest of the repository: the field, group and signature layers of secp256k1 and its other configurations (64-bit limbs, GMP, the endomorphism),
  Ed25519, SQLite, the Lua binding, the C++ libraries and the tests.
\<close>

section \<open>Compression and decompression of frames\<close>

definition alloc_succeeds :: "lz4f_env \<Rightarrow> mem \<Rightarrow> LZ4F_dctx_t \<Rightarrow> bool" where
  "alloc_succeeds e m d \<longleftrightarrow> (\<forall>m1 fi. dom m1 = dom m \<longrightarrow> blockSizeID fi = 4 \<longrightarrow> \<not> fst (LZ4F_header_alloc e m1 (header_dctx (env_arch e) d fi)))"

lemma decompress_call_shorter:
  assumes "decompress_call e K m d dst n src k" "dom m' = dom m" "dStage d = dstage_getHeader" "15 \<le> k'" "k' \<le> k"
  shows "decompress_call e K m' d dst n src k'"
proof -
  have "{src..src + k'} \<subseteq> {src..src + k}" using assms(5) by auto
  then have "{src..src + k'} \<subseteq> K" using assms(1,4,5) by (auto simp: decompress_call_defs)
  moreover have "dctx_inv e K m' d" using assms(1,3) unfolding decompress_call_defs dctx_inv_def alloc_cong [OF assms(2)] by (simp add: transient_def)
  ultimately show ?thesis using assms unfolding decompress_call_defs by (auto simp: low_def)
qed

lemma frame_length: "frame_ok a fi bs \<Longrightarrow> frame_content fi bs \<noteq> [] \<Longrightarrow> 15 \<le> length (frame_bytes fi bs)"
proof (cases bs)
  case (Cons b cs)
  assume "frame_ok a fi bs"
  then have "fblock_data b \<noteq> []" using Cons fblock_data_nonempty by (auto simp: frame_ok_def)
  then show ?thesis using Cons by (cases "fblock_data b") (auto simp: frame_bytes_def length_header_bytes length_end_bytes)
qed (simp add: frame_content_def)

text \<open>C1: Round trip of frames, with the fast levels and 64 KB blocks: what \<open>LZ4F_compressFrame\<close> writes for any non-empty input, \<open>LZ4F_decompress\<close> turns back into the input in one call,
  consuming the whole frame and reporting its end.\<close>
theorem LZ4F_frame_roundtrip:
  assumes F: "frame_call m ctxPtr dst dstMax src xs preferencesPtr" and x: "xs \<noteq> []"
    and cap: "LZ4F_compressFrameBound (env_arch e) (int (length xs)) (Some (LZ4F_frame_prefs (env_arch e) preferencesPtr (int (length xs)))) \<le> dstMax"
    and D: "decompress_call e K m d back n dst dstMax" "dStage d = dstage_getHeader" "srcExpect d = 0" "frameRemainingSize d = 0" "alloc_succeeds e m d"
    and b: "int (length xs) \<le> n" "dst + dstMax \<le> back \<or> back + n \<le> dst"
  shows "\<exists>r m1. LZ4F_compressFrame e m ctxPtr lz4ctx dst dstMax src (int (length xs)) preferencesPtr = Some (r, m1) \<and>
     (\<exists>m2 d2. LZ4F_decompress e m1 d back n dst r 0 = Some (0, int (length xs), r, m2, d2) \<and> bytes_at m2 back xs \<and> dStage d2 = dstage_getHeader)"
proof -
  from okD [OF compressFrame_ok [OF F, of e lz4ctx]] cap obtain r m1 fi bs where
    c: "LZ4F_compressFrame e m ctxPtr lz4ctx dst dstMax src (int (length xs)) preferencesPtr = Some (r, m1)"
      "frame_ok (env_arch e) fi bs" "frame_content fi bs = xs" "blockSizeID fi = 4" "bytes_at m1 dst (frame_bytes fi bs)"
      "r = int (length (frame_bytes fi bs))" "r \<le> dstMax" "dom m1 = dom m"
    by (auto simp: frame_written_def frame_dom)
  have r: "15 \<le> r" using frame_length [OF c(2)] c(3,6) x by simp
  have "decode_call e K m1 d back n dst r fi bs"
    using decompress_call_shorter [OF D(1) c(8) D(2) r c(7)] D(2-4) c r b by (auto simp: decode_call_def)
  moreover have "\<not> fst (LZ4F_header_alloc e m1 (header_dctx (env_arch e) d fi))" using D(5) c(4,8) by (simp add: alloc_succeeds_def)
  ultimately show ?thesis using decompress_decodes [of e K m1 d "back" n dst r fi bs] c(1,3,6) by auto
qed

definition roundtrip_mem :: mem where
  "roundtrip_mem = (\<lambda>x. if 65536 \<le> x \<and> x < 67000 then Some (word_of_int x) else None)"

lemma roundtrip_mem_dom: "dom roundtrip_mem = {65536..<67000}"
  by (auto simp: roundtrip_mem_def split: if_splits)

theorem LZ4F_frame_roundtrip_witness:
  "\<exists>r m1. LZ4F_compressFrame env_example roundtrip_mem 64 ctx_example 65600 40 65536 3 None = Some (r, m1) \<and>
     (\<exists>m2 d2. LZ4F_decompress env_example m1 (dctx_example\<lparr>x_header := 65900\<rparr>) 65700 100 65600 r 0 = Some (0, 3, r, m2, d2) \<and> bytes_at m2 65700 [0, 1, 2])"
proof -
  let ?d = "dctx_example\<lparr>x_header := 65900\<rparr>" and ?K = "{65600..<67000}"
  have "bytes_at roundtrip_mem 65536 [0, 1, 2]" "mapped roundtrip_mem 65600 (65600 + 40)"
    by (simp_all add: bytes_at_Cons roundtrip_mem_def mapped_def)
  then have F: "frame_call roundtrip_mem 64 65600 40 65536 [0, 1, 2] None" by (simp add: frame_call_def prefNull_def apart_def)
  have B: "LZ4F_compressFrameBound (env_arch env_example) (int (length [0, 1, 2 :: byte])) (Some (LZ4F_frame_prefs (env_arch env_example) None (int (length [0, 1, 2 :: byte])))) \<le> 40"
    by code_simp
  have C: "decompress_call env_example ?K roundtrip_mem ?d 65700 100 65600 40"
    using env_example_ok roundtrip_mem_dom
    by (auto simp: decompress_call_defs dctx_inv_def dctx_example_def alloc_ok_def transient_def zero_xxh_def low_def size_mod_def env_example_def)
  have A: "alloc_succeeds env_example roundtrip_mem ?d"
    unfolding alloc_succeeds_def
  proof (intro allI impI)
    fix m1 :: mem and fi :: LZ4F_frameInfo_t assume m1: "dom m1 = dom roundtrip_mem" and fi: "blockSizeID fi = 4"
    have n: "m1 x = None" if "67000 \<le> x" for x using m1 roundtrip_mem_dom that by (metis atLeastLessThan_iff domIff not_less)
    have "LZ4F_getBlockSize (env_arch env_example) 4 = 65536" by (simp add: LZ4F_getBlockSize_def)
    then show "\<not> fst (LZ4F_header_alloc env_example m1 (header_dctx (env_arch env_example) ?d fi))" using n fi
      by (simp add: LZ4F_header_alloc_def header_dctx_def dctx_example_def Let_def FREEMEM_def env_example_def two_places_def take_region_def)
  qed
  have dd: "dStage ?d = dstage_getHeader" "srcExpect ?d = 0" "frameRemainingSize ?d = 0" by (simp_all add: dctx_example_def)
  from LZ4F_frame_roundtrip [OF F _ B C dd A, of ctx_example] show ?thesis by auto
qed

end
